(* ===== verification/Connecta_Prelude.thy ===== *)
theory Connecta_Prelude
  imports Complex_Main "HOL-Library.Word"
begin

text \<open>
  Shared vocabulary of the development: JavaScript strings as lists of UTF-16 code units, JavaScript
  numbers as far as the code inspects them, insertion-ordered maps (\<^verbatim>\<open>Map\<close>), the
  reachability relation of a transition system, and the interface (a locale) of a component that hands
  out a bounded number of slots.
\<close>

section \<open>Collections of rewrite rules\<close>

named_theorems js_eval \<open>evaluation of JavaScript string and number operations on literals\<close>
named_theorems facts_simps \<open>what each recording operation leaves unchanged\<close>

section \<open>Strings\<close>

text \<open>
  A JavaScript string is a sequence of 16-bit code units; \<^verbatim>\<open>length\<close>,
  \<^verbatim>\<open>charCodeAt\<close>, \<^verbatim>\<open>slice\<close> and regular expressions without
  the \<^verbatim>\<open>u\<close> flag count those units. \<open>lit\<close> turns an Isabelle literal into one.
\<close>

type_synonym code_unit = "16 word"
type_synonym jstr = "16 word list"

definition lit :: "string \<Rightarrow> jstr" where
  "lit s = map of_char s"

lemma lit_Nil [simp, js_eval]: "lit [] = []"
  by (simp add: lit_def)

lemma lit_Cons [js_eval]: "lit (c # cs) = of_char c # lit cs"
  by (simp add: lit_def)

lemma of_char_unit_eq: "(of_char c :: code_unit) = of_char d \<longleftrightarrow> c = d"
proof -
  have "unat (of_char e :: code_unit) = of_char e" for e
  proof -
    have "(of_char e :: nat) < 256" by (metis of_char_mod_256 mod_less_divisor zero_less_numeral)
    then have "(of_char e :: nat) < 2 ^ 16" by (rule less_le_trans) simp
    then have "take_bit 16 (of_char e :: nat) = of_char e" by (rule take_bit_nat_eq_self)
    then have "unat (of_nat (of_char e) :: code_unit) = of_char e" by (simp add: unsigned_of_nat)
    then show ?thesis by (simp only: of_nat_of_char)
  qed
  then show ?thesis by (metis of_char_eq_iff)
qed

lemma lit_eq_iff [simp]: "lit s = lit t \<longleftrightarrow> s = t"
  by (simp add: lit_def inj_map_eq_map inj_def of_char_unit_eq)

text \<open>\<^verbatim>\<open>startsWith\<close>, \<^verbatim>\<open>endsWith\<close>, \<^verbatim>\<open>includes\<close> and the index of the first occurrence of one unit.\<close>

fun starts_with :: "jstr \<Rightarrow> jstr \<Rightarrow> bool" where
  "starts_with s [] = True"
| "starts_with [] (p # ps) = False"
| "starts_with (c # cs) (p # ps) = (c = p \<and> starts_with cs ps)"

definition ends_with :: "jstr \<Rightarrow> jstr \<Rightarrow> bool" where
  "ends_with s p = starts_with (rev s) (rev p)"

definition has_unit :: "jstr \<Rightarrow> code_unit \<Rightarrow> bool" where
  "has_unit s c = (c \<in> set s)"

lemma starts_with_iff: "starts_with s p \<longleftrightarrow> (\<exists>r. s = p @ r)"
  by (induction s p rule: starts_with.induct) auto

lemma starts_with_append [simp]: "starts_with (p @ r) p"
  by (auto simp: starts_with_iff)

text \<open>Surrogate halves: a high one followed by a low one is a single code point.\<close>

definition high_surrogate :: "code_unit \<Rightarrow> bool" where
  "high_surrogate c \<longleftrightarrow> 0xd800 \<le> c \<and> c \<le> 0xdbff"

definition low_surrogate :: "code_unit \<Rightarrow> bool" where
  "low_surrogate c \<longleftrightarrow> 0xdc00 \<le> c \<and> c \<le> 0xdfff"

lemma surrogates_disjoint: "high_surrogate c \<Longrightarrow> \<not> low_surrogate c"
  by (auto simp: high_surrogate_def low_surrogate_def word_le_nat_alt)

text \<open>The unit classes of the identifier patterns: \<^verbatim>\<open>[a-z0-9_-]\<close> and the printable, non-space ASCII range.\<close>

definition slug_unit :: "code_unit \<Rightarrow> bool" where
  "slug_unit c \<longleftrightarrow> (0x61 \<le> c \<and> c \<le> 0x7a) \<or> (0x30 \<le> c \<and> c \<le> 0x39) \<or> c = 0x5f \<or> c = 0x2d"

definition slug :: "jstr \<Rightarrow> bool" where
  "slug s \<longleftrightarrow> s \<noteq> [] \<and> list_all slug_unit s"

lemma slug_no_dot: "slug s \<Longrightarrow> 0x2e \<notin> set s"
  by (auto simp: slug_def list_all_iff slug_unit_def)

lemma slug_no_colon: "slug s \<Longrightarrow> 0x3a \<notin> set s"
  by (auto simp: slug_def list_all_iff slug_unit_def)

text \<open>A value of unknown type, as far as the code inspects it: a string, or anything else.\<close>

datatype js_item = Str jstr | Other_Value

section \<open>Numbers\<close>

text \<open>
  Where the code inspects a caller's number it distinguishes a finite value from
  \<^verbatim>\<open>NaN\<close> and the infinities. Finite doubles are rationals.
\<close>

datatype js_number = Finite rat | Non_Finite

fun is_whole :: "js_number \<Rightarrow> bool" where
  "is_whole (Finite q) = (of_int \<lfloor>q\<rfloor> = q)"
| "is_whole Non_Finite = False"

definition trunc :: "rat \<Rightarrow> int" where
  "trunc q = (if 0 \<le> q then \<lfloor>q\<rfloor> else \<lceil>q\<rceil>)"

lemma trunc_nonneg: "0 \<le> q \<Longrightarrow> 0 \<le> trunc q"
  by (simp add: trunc_def)

text \<open>The decimal digits of a whole number in a template string.\<close>

fun decimal :: "nat \<Rightarrow> jstr" where
  "decimal n = (if n < 10 then [of_nat (0x30 + n)] else decimal (n div 10) @ [of_nat (0x30 + n mod 10)])"

declare decimal.simps [simp del]

definition int_text :: "int \<Rightarrow> jstr" where
  "int_text i = (if i < 0 then 0x2d # decimal (nat (- i)) else decimal (nat i))"

text \<open>A decimal digit as a unit.\<close>

definition digit_unit :: "code_unit \<Rightarrow> bool" where
  "digit_unit c \<longleftrightarrow> 0x30 \<le> c \<and> c \<le> 0x39"

text \<open>A lower-case hexadecimal digit.\<close>

definition hex_digit :: "nat \<Rightarrow> code_unit" where
  "hex_digit n = (if n < 10 then of_nat (0x30 + n) else of_nat (0x57 + n))"

section \<open>Insertion-ordered maps\<close>

text \<open>
  A JavaScript \<^verbatim>\<open>Map\<close> iterates in insertion order; setting an existing key keeps its place.
  It is modelled by its list of entries.
\<close>

fun map_set :: "'k \<Rightarrow> 'v \<Rightarrow> ('k \<times> 'v) list \<Rightarrow> ('k \<times> 'v) list" where
  "map_set k v [] = [(k, v)]"
| "map_set k v ((a, b) # m) = (if a = k then (a, v) # m else (a, b) # map_set k v m)"

definition map_delete :: "'k \<Rightarrow> ('k \<times> 'v) list \<Rightarrow> ('k \<times> 'v) list" where
  "map_delete k m = filter (\<lambda>e. fst e \<noteq> k) m"

definition map_has :: "'k \<Rightarrow> ('k \<times> 'v) list \<Rightarrow> bool" where
  "map_has k m = (k \<in> fst ` set m)"

lemma map_of_map_set [simp]: "map_of (map_set k v m) = (map_of m)(k \<mapsto> v)"
  by (induction k v m rule: map_set.induct) (auto simp: fun_eq_iff)

lemma map_of_map_delete [simp]: "map_of (map_delete k m) = (map_of m)(k := None)"
  by (induction m) (auto simp: map_delete_def fun_eq_iff)

lemma map_has_iff: "map_has k m \<longleftrightarrow> map_of m k \<noteq> None"
  by (simp add: map_has_def map_of_eq_None_iff)

lemma keys_map_set: "fst ` set (map_set k v m) = insert k (fst ` set m)"
  by (induction k v m rule: map_set.induct) auto

lemma distinct_map_set [simp]:
  "distinct (map fst m) \<Longrightarrow> distinct (map fst (map_set k v m))"
proof (induction k v m rule: map_set.induct)
  case (2 k v a b m)
  then show ?case
    using keys_map_set [of k v m] by (auto simp: image_iff)
qed simp

lemma distinct_map_delete [simp]:
  "distinct (map fst m) \<Longrightarrow> distinct (map fst (map_delete k m))"
  by (simp add: map_delete_def distinct_map_filter)

lemma length_map_set: "length (map_set k v m) = (if map_of m k = None then Suc (length m) else length m)"
  by (induction k v m rule: map_set.induct) auto

lemma set_map_delete [simp]: "set (map_delete k m) = {e \<in> set m. fst e \<noteq> k}"
  by (auto simp: map_delete_def)

lemma set_map_set_subset: "set (map_set k v m) \<subseteq> insert (k, v) (set m)"
  by (induction k v m rule: map_set.induct) auto

lemma length_map_delete_le: "length (map_delete k m) \<le> length m"
  by (simp add: map_delete_def)

lemma length_map_delete:
  assumes "distinct (map fst m)"
  shows "length (map_delete k m) = (if map_has k m then length m - 1 else length m)"
  using assms
proof (induction m)
  case (Cons e m)
  obtain a b where e: "e = (a, b)" by (cases e)
  show ?case
  proof (cases "a = k")
    case True
    with Cons.prems e have "k \<notin> fst ` set m" by auto
    then have "map_delete k m = m" by (auto simp: map_delete_def filter_id_conv)
    with True e show ?thesis by (auto simp: map_delete_def map_has_def)
  next
    case False
    with Cons e show ?thesis
      by (cases m) (auto simp: map_delete_def map_has_def)
  qed
qed (simp add: map_delete_def map_has_def)

section \<open>Fallible steps in sequence\<close>

text \<open>A call that may throw, then a continuation on its value.\<close>

definition bind_sum :: "'e + 'a \<Rightarrow> ('a \<Rightarrow> 'e + 'b) \<Rightarrow> 'e + 'b" where
  "bind_sum x f = (case x of Inl e \<Rightarrow> Inl e | Inr a \<Rightarrow> f a)"

lemma bind_sum_simps [simp]: "bind_sum (Inl e) f = Inl e" "bind_sum (Inr a) f = f a"
  by (simp_all add: bind_sum_def)

lemma bind_sum_Inr: "bind_sum x f = Inr b \<longleftrightarrow> (\<exists>a. x = Inr a \<and> f a = Inr b)"
  by (cases x) simp_all

section \<open>Transition systems\<close>

inductive reachable :: "('s \<Rightarrow> bool) \<Rightarrow> ('s \<Rightarrow> 's \<Rightarrow> bool) \<Rightarrow> 's \<Rightarrow> bool" for I R where
  start: "I s \<Longrightarrow> reachable I R s"
| step: "reachable I R s \<Longrightarrow> R s t \<Longrightarrow> reachable I R t"

lemma reachable_invariant:
  assumes "reachable I R s" and "\<And>s. I s \<Longrightarrow> P s" and "\<And>s t. P s \<Longrightarrow> R s t \<Longrightarrow> P t"
  shows "P s"
  using assms(1) by (induction rule: reachable.induct) (auto intro: assms(2,3))

section \<open>The interface of a bounded pool of slots\<close>

text \<open>
  What a caller of an admission controller relies on: the controller starts without a held slot, every
  step of it keeps its bookkeeping invariant, and the invariant bounds the slots in use (where a bound is
  declared) and the queue. Both controllers of the program provide it.
\<close>

locale slot_pool =
  fixes init :: "'s \<Rightarrow> bool"
    and step :: "'s \<Rightarrow> 's \<Rightarrow> bool"
    and invar :: "'s \<Rightarrow> bool"
    and active :: "'s \<Rightarrow> nat"
    and queued :: "'s \<Rightarrow> nat"
    and slots :: "'s \<Rightarrow> nat option"
    and queue_bound :: "'s \<Rightarrow> nat"
  assumes invar_init: "init s \<Longrightarrow> invar s"
    and invar_step: "invar s \<Longrightarrow> step s t \<Longrightarrow> invar t"
    and invar_active: "invar s \<Longrightarrow> slots s = Some n \<Longrightarrow> active s \<le> n"
    and invar_queued: "invar s \<Longrightarrow> queued s \<le> queue_bound s"
begin

lemma reachable_invar: "reachable init step s \<Longrightarrow> invar s"
  by (erule reachable_invariant) (auto intro: invar_init invar_step)

lemma never_over_capacity:
  assumes "reachable init step s"
  shows "(\<forall>n. slots s = Some n \<longrightarrow> active s \<le> n) \<and> queued s \<le> queue_bound s"
  using reachable_invar [OF assms] by (simp add: invar_active invar_queued)

end

text \<open>
  A pool that can be shut down: a closed pool stays closed, answers the queue, and no step makes a grant
  live that was not live before. The client's lemma is that this extends to any sequence of steps.
\<close>

locale shutdown_pool = slot_pool init step invar active queued slots queue_bound
  for init :: "'s \<Rightarrow> bool" and step invar active queued slots queue_bound +
  fixes closed :: "'s \<Rightarrow> bool"
    and live :: "'s \<Rightarrow> 'g set"
  assumes closed_step: "invar s \<Longrightarrow> closed s \<Longrightarrow> step s t \<Longrightarrow> closed t \<and> live t \<subseteq> live s"
    and closed_queue: "invar s \<Longrightarrow> closed s \<Longrightarrow> queued s = 0"
begin

lemma shutdown_final:
  assumes "reachable init step s" "closed s" "reachable (\<lambda>x. x = s) step t"
  shows "closed t \<and> live t \<subseteq> live s \<and> queued t = 0"
proof -
  have "invar t \<and> closed t \<and> live t \<subseteq> live s"
    using assms(3) by (rule reachable_invariant)
      (use reachable_invar [OF assms(1)] assms(2) in \<open>auto dest: invar_step closed_step\<close>)
  then show ?thesis by (simp add: closed_queue)
qed

end

end
