(* ===== verification/Tool_Safety.thy ===== *)
theory Tool_Safety
  imports Connecta_Prelude
begin

text \<open>
  Read/write classification of tools (\<^verbatim>\<open>src/tool-safety.ts\<close>), its publication by the
  registry (\<^verbatim>\<open>publishTool\<close> of \<^verbatim>\<open>src/registry.ts\<close>) and the
  permission gate of a call (\<^verbatim>\<open>src/invocation.ts\<close>). Tool definitions are objects with
  identity: two module-level weak collections remember, per object, what its source said and whether the
  deployment accepted repeats. They are fields of an explicit store here.
\<close>

section \<open>Data\<close>

text \<open>An annotation hint as it arrives: missing, a boolean, or anything else a server sent.\<close>

datatype hint = Undefined | Hint_True | Hint_False | Malformed

record tool_annotations =
  readOnlyHint :: hint
  destructiveHint :: hint

datatype tool_class = Read | Write

record tool_def =
  tool_name :: jstr
  annotations :: "tool_annotations option"
  classification :: "tool_class option"

text \<open>The override a deployment may give; the override \<^verbatim>\<open>hidden\<close> never reaches \<^verbatim>\<open>classifyTool\<close>.\<close>

datatype classification_override = O_Read | O_Read_Repeatable | O_Write | O_Hidden

datatype source_facts = Facts_Read | Facts_Silent | Facts_Declared_Write

type_synonym tool_ref = nat

record tool_store =
  objects :: "tool_ref \<Rightarrow> tool_def"
  next_ref :: tool_ref
  sourceFacts :: "tool_ref \<rightharpoonup> source_facts"
  repeatAccepted :: "tool_ref set"

section \<open>Operations\<close>

definition hint_of :: "(tool_annotations \<Rightarrow> hint) \<Rightarrow> tool_annotations option \<Rightarrow> hint" where
  "hint_of field a = (case a of None \<Rightarrow> Undefined | Some an \<Rightarrow> field an)"

definition sourceFactsOf :: "tool_annotations option \<Rightarrow> source_facts" where
  "sourceFactsOf a =
     (let readOnly = hint_of readOnlyHint a; destructive = hint_of destructiveHint a
      in if readOnly = Hint_True \<and> destructive \<noteq> Hint_True then Facts_Read
         else if readOnly = Undefined \<and> destructive \<noteq> Hint_True then Facts_Silent
         else Facts_Declared_Write)"

definition factsFor :: "tool_store \<Rightarrow> tool_ref \<Rightarrow> source_facts" where
  "factsFor st t =
     (case sourceFacts st t of Some f \<Rightarrow> f | None \<Rightarrow> sourceFactsOf (annotations (objects st t)))"

definition sourceClassification :: "tool_store \<Rightarrow> tool_ref \<Rightarrow> tool_class" where
  "sourceClassification st t = (if factsFor st t = Facts_Read then Read else Write)"

definition sourceDeclaresWrite :: "tool_store \<Rightarrow> tool_ref \<Rightarrow> bool" where
  "sourceDeclaresWrite st t = (factsFor st t = Facts_Declared_Write)"

definition classifyTool :: "tool_store \<Rightarrow> tool_ref \<Rightarrow> classification_override option \<Rightarrow> tool_class" where
  "classifyTool st t ov =
     (if ov = Some O_Read_Repeatable then Read
      else if ov = Some O_Write then Write
      else if ov = Some O_Read \<and> \<not> sourceDeclaresWrite st t then Read
      else sourceClassification st t)"

text \<open>\<^verbatim>\<open>acceptRepeat\<close> defaults to what the source object carries.\<close>

definition carryToolClassification ::
    "tool_store \<Rightarrow> tool_ref \<Rightarrow> tool_ref \<Rightarrow> bool option \<Rightarrow> tool_store" where
  "carryToolClassification st source served accept =
     (let acceptRepeat = (case accept of Some b \<Rightarrow> b | None \<Rightarrow> source \<in> repeatAccepted st);
          st' = st\<lparr>sourceFacts := (sourceFacts st)(served \<mapsto> factsFor st source)\<rparr>
      in if acceptRepeat then st'\<lparr>repeatAccepted := insert served (repeatAccepted st')\<rparr> else st')"

definition isWriteLike :: "tool_store \<Rightarrow> tool_ref \<Rightarrow> bool" where
  "isWriteLike st t \<longleftrightarrow>
     classification (objects st t) \<noteq> Some Read \<or> sourceClassification st t = Write"

definition readProgramRefuses :: "tool_store \<Rightarrow> tool_ref \<Rightarrow> bool" where
  "readProgramRefuses st t \<longleftrightarrow> isWriteLike st t \<and> t \<notin> repeatAccepted st"

text \<open>A fresh object: \<^verbatim>\<open>structuredClone\<close> and object literals allocate.\<close>

definition new_tool :: "tool_store \<Rightarrow> tool_def \<Rightarrow> tool_ref \<times> tool_store" where
  "new_tool st d =
     (next_ref st, st\<lparr>objects := (objects st)(next_ref st := d), next_ref := Suc (next_ref st)\<rparr>)"

definition cloneTool :: "tool_store \<Rightarrow> tool_ref \<Rightarrow> tool_ref \<times> tool_store" where
  "cloneTool st t =
     (let (copy, st') = new_tool st (objects st t) in (copy, carryToolClassification st' t copy None))"




text \<open>
  \<^verbatim>\<open>publishTool\<close>: the served copy of one catalog entry, with its verdict and, under an
  override, rewritten hints.
\<close>

definition bool_hint :: "bool \<Rightarrow> hint" where
  "bool_hint b = (if b then Hint_True else Hint_False)"

definition publishTool ::
    "tool_store \<Rightarrow> tool_ref \<Rightarrow> classification_override option \<Rightarrow> tool_ref \<times> tool_store" where
  "publishTool st t ov =
     (let cls = classifyTool st t (if ov = Some O_Hidden then None else ov);
          d = objects st t;
          hints = (if ov = None then annotations d
                   else Some \<lparr>readOnlyHint = bool_hint (ov \<noteq> Some O_Hidden \<and> cls = Read),
                              destructiveHint = bool_hint (ov \<noteq> Some O_Hidden \<and> cls = Write)\<rparr>);
          (copy, st') = new_tool st (d\<lparr>annotations := hints, classification := Some cls\<rparr>)
      in (copy, carryToolClassification st' t copy (if ov = Some O_Read_Repeatable then Some True else None)))"


text \<open>A store whose weak collections mention allocated objects only, so that a fresh object starts unmarked.\<close>

definition store_wf :: "tool_store \<Rightarrow> bool" where
  "store_wf st \<longleftrightarrow> (\<forall>t \<in> dom (sourceFacts st). t < next_ref st) \<and> (\<forall>t \<in> repeatAccepted st. t < next_ref st)"

section \<open>Lemmas\<close>

lemmas classification_defs =
  sourceFactsOf_def hint_of_def factsFor_def sourceClassification_def sourceDeclaresWrite_def
  classifyTool_def isWriteLike_def

lemma factsFor_carry [simp]:
  "factsFor (carryToolClassification st source served a) t =
     (if t = served then factsFor st source else factsFor st t)"
  by (simp add: carryToolClassification_def factsFor_def Let_def split: option.split)

lemma objects_carry [simp]: "objects (carryToolClassification st source served a) = objects st"
  by (simp add: carryToolClassification_def Let_def)

lemma next_ref_carry [simp]: "next_ref (carryToolClassification st source served a) = next_ref st"
  by (simp add: carryToolClassification_def Let_def)

lemma factsFor_new:
  assumes "store_wf st" and "t < next_ref st" and "new_tool st d = (r, st')"
  shows "factsFor st' t = factsFor st t"
  using assms by (auto simp: new_tool_def factsFor_def split: option.split)

lemma factsFor_added:
  "t \<noteq> r \<Longrightarrow> factsFor (st\<lparr>objects := (objects st)(r := d), next_ref := n\<rparr>) t = factsFor st t"
  by (cases "sourceFacts st t") (simp_all add: factsFor_def)

lemma repeatAccepted_carry:
  "repeatAccepted (carryToolClassification st source served a) =
     (if (case a of Some b \<Rightarrow> b | None \<Rightarrow> source \<in> repeatAccepted st)
      then insert served (repeatAccepted st) else repeatAccepted st)"
  by (simp add: carryToolClassification_def Let_def)

lemma store_wf_publish:
  assumes "store_wf st" and "t < next_ref st"
  shows "store_wf (snd (publishTool st t ov))"
  using assms
  by (auto simp: store_wf_def publishTool_def new_tool_def Let_def carryToolClassification_def
        dom_def less_Suc_eq split: option.splits)

lemma fst_publish [simp]: "fst (publishTool st t ov) = next_ref st"
  by (simp add: publishTool_def new_tool_def Let_def)


lemma published_facts:
  assumes "store_wf st" and "t < next_ref st"
  shows "factsFor (snd (publishTool st t ov)) (next_ref st) = factsFor st t"
  using assms factsFor_new [OF assms]
  by (simp add: publishTool_def Let_def split: prod.split) (simp add: new_tool_def)

lemma published_repeat:
  assumes "store_wf st"
  shows "next_ref st \<in> repeatAccepted (snd (publishTool st t ov)) \<longleftrightarrow>
           ov = Some O_Read_Repeatable \<or> t \<in> repeatAccepted st"
  using assms
  by (auto simp: publishTool_def new_tool_def Let_def repeatAccepted_carry store_wf_def)

section \<open>Lineage\<close>

text \<open>
  Where a tool object comes from: its connector handed it over with some annotations (a fresh object), or it is a
  published copy or a clone of another. A lineage names, per object, the annotations its source gave and the
  overrides it was published under since, in order.
\<close>

type_synonym tool_lineage = "tool_ref \<rightharpoonup> tool_annotations option \<times> classification_override option list"

inductive lineage :: "tool_store \<Rightarrow> tool_lineage \<Rightarrow> bool" where
  start: "sourceFacts st = Map.empty \<Longrightarrow> repeatAccepted st = {} \<Longrightarrow> lineage st Map.empty"
| loaded: "lineage st L \<Longrightarrow> new_tool st d = (r, st') \<Longrightarrow> lineage st' (L(r \<mapsto> (annotations d, [])))"
| published: "lineage st L \<Longrightarrow> L t = Some (a, ovs) \<Longrightarrow> publishTool st t ov = (r, st') \<Longrightarrow>
    lineage st' (L(r \<mapsto> (a, ovs @ [ov])))"
| cloned: "lineage st L \<Longrightarrow> L t = Some (a, ovs) \<Longrightarrow> cloneTool st t = (r, st') \<Longrightarrow> lineage st' (L(r \<mapsto> (a, ovs)))"

text \<open>What the source said, read off its own hints: a clean read, or nothing. Anything else declares a write.\<close>

definition says_read :: "tool_annotations option \<Rightarrow> bool" where
  "says_read a \<longleftrightarrow> (\<exists>an. a = Some an \<and> readOnlyHint an = Hint_True \<and> destructiveHint an \<noteq> Hint_True)"

definition says_nothing :: "tool_annotations option \<Rightarrow> bool" where
  "says_nothing a \<longleftrightarrow> (\<forall>an. a = Some an \<longrightarrow> readOnlyHint an = Undefined \<and> destructiveHint an \<noteq> Hint_True)"

text \<open>When a tool is served as a read.\<close>

definition served_read :: "tool_annotations option \<Rightarrow> classification_override option \<Rightarrow> bool" where
  "served_read a ov \<longleftrightarrow>
     ov = Some O_Read_Repeatable \<or> (ov \<noteq> Some O_Write \<and> says_read a) \<or> (ov = Some O_Read \<and> says_nothing a)"

text \<open>The whole of what a lineage guarantees about the store.\<close>

definition lineage_ok :: "tool_store \<Rightarrow> tool_lineage \<Rightarrow> bool" where
  "lineage_ok st L \<longleftrightarrow> store_wf st \<and>
     (\<forall>t a ovs. L t = Some (a, ovs) \<longrightarrow> t < next_ref st \<and> factsFor st t = sourceFactsOf a \<and>
        (t \<in> repeatAccepted st \<longleftrightarrow> Some O_Read_Repeatable \<in> set ovs))"

lemma lineage_okI:
  assumes "lineage_ok st L" "store_wf st'" "next_ref st' = Suc (next_ref st)"
    "\<And>t. t < next_ref st \<Longrightarrow> factsFor st' t = factsFor st t"
    "\<And>t. t < next_ref st \<Longrightarrow> t \<in> repeatAccepted st' \<longleftrightarrow> t \<in> repeatAccepted st"
    "factsFor st' (next_ref st) = sourceFactsOf a" "next_ref st \<in> repeatAccepted st' \<longleftrightarrow> Some O_Read_Repeatable \<in> set ovs"
  shows "lineage_ok st' (L(next_ref st \<mapsto> (a, ovs)))"
  using assms by (auto simp: lineage_ok_def less_Suc_eq)

lemma published_others:
  assumes "store_wf st" "t < next_ref st"
  shows "factsFor (snd (publishTool st s ov)) t = factsFor st t"
    "t \<in> repeatAccepted (snd (publishTool st s ov)) \<longleftrightarrow> t \<in> repeatAccepted st"
    "next_ref (snd (publishTool st s ov)) = Suc (next_ref st)"
  using assms
  by (auto simp: publishTool_def Let_def new_tool_def repeatAccepted_carry factsFor_added)

lemma clone_facts:
  assumes "store_wf st" "t < next_ref st" "cloneTool st t = (r, st')"
  shows "r = next_ref st" "next_ref st' = Suc (next_ref st)" "factsFor st' r = factsFor st t"
    "r \<in> repeatAccepted st' \<longleftrightarrow> t \<in> repeatAccepted st" "store_wf st'"
    "x < next_ref st \<Longrightarrow> factsFor st' x = factsFor st x"
    "x < next_ref st \<Longrightarrow> x \<in> repeatAccepted st' \<longleftrightarrow> x \<in> repeatAccepted st"
proof -
  let ?d = "st\<lparr>objects := (objects st)(next_ref st := objects st t), next_ref := Suc (next_ref st)\<rparr>"
  have st': "r = next_ref st" "st' = carryToolClassification ?d t (next_ref st) None"
    using assms(3) by (auto simp: cloneTool_def new_tool_def)
  have facts: "factsFor ?d x = factsFor st x" if "x < next_ref st" for x
    using factsFor_new [OF assms(1) that, of "objects st t"] by (simp add: new_tool_def)
  show "r = next_ref st" "next_ref st' = Suc (next_ref st)" using st' by simp_all
  show "factsFor st' r = factsFor st t" "x < next_ref st \<Longrightarrow> factsFor st' x = factsFor st x"
    using facts assms(2) by (simp_all add: st')
  show "r \<in> repeatAccepted st' \<longleftrightarrow> t \<in> repeatAccepted st"
    "x < next_ref st \<Longrightarrow> x \<in> repeatAccepted st' \<longleftrightarrow> x \<in> repeatAccepted st"
    using assms(1) by (auto simp: st' repeatAccepted_carry store_wf_def)
  show "store_wf st'"
    using assms(1,2) by (auto simp: st' store_wf_def carryToolClassification_def Let_def dom_def less_Suc_eq)
qed

lemma lineage_invariant: "lineage st L \<Longrightarrow> lineage_ok st L"
proof (induction rule: lineage.induct)
  case (start st)
  then show ?case by (simp add: lineage_ok_def store_wf_def)
next
  case (loaded st L d r st')
  then have wf: "store_wf st" by (simp add: lineage_ok_def)
  have r: "r = next_ref st" and st': "st' = st\<lparr>objects := (objects st)(next_ref st := d), next_ref := Suc (next_ref st)\<rparr>"
    using loaded.hyps(2) by (auto simp: new_tool_def)
  have none: "sourceFacts st (next_ref st) = None" "next_ref st \<notin> repeatAccepted st"
    using wf by (auto simp: store_wf_def)
  have "factsFor st' t = factsFor st t" if "t < next_ref st" for t
    using that by (simp add: st' factsFor_def split: option.split)
  moreover have "store_wf st'" using wf by (auto simp: store_wf_def st' less_Suc_eq)
  ultimately show ?case
    unfolding r using none by (intro lineage_okI [OF loaded.IH]) (simp_all add: st' factsFor_def)
next
  case (published st L t a ovs ov r st')
  then have wf: "store_wf st" and t: "t < next_ref st" "factsFor st t = sourceFactsOf a"
    "t \<in> repeatAccepted st \<longleftrightarrow> Some O_Read_Repeatable \<in> set ovs"
    by (simp_all add: lineage_ok_def)
  have r: "r = next_ref st" and st': "st' = snd (publishTool st t ov)"
    using published.hyps(3) by (simp_all add: prod_eq_iff)
  show ?case unfolding r st'
    using published_others [OF wf] published_facts [OF wf t(1)] published_repeat [OF wf] t store_wf_publish [OF wf t(1)]
    by (intro lineage_okI [OF published.IH]) (auto simp: published_others(3) [OF wf t(1)])
next
  case (cloned st L t a ovs r st')
  then have wf: "store_wf st" and t: "t < next_ref st" "factsFor st t = sourceFactsOf a"
    "t \<in> repeatAccepted st \<longleftrightarrow> Some O_Read_Repeatable \<in> set ovs"
    by (simp_all add: lineage_ok_def)
  note clone = clone_facts [OF wf t(1) cloned.hyps(3)]
  show ?case unfolding clone(1)
    using clone(2-7) t unfolding clone(1) by (intro lineage_okI [OF cloned.IH]) simp_all
qed

lemma facts_said:
  "sourceFactsOf a = Facts_Read \<longleftrightarrow> says_read a" "sourceFactsOf a = Facts_Declared_Write \<longleftrightarrow> \<not> says_read a \<and> \<not> says_nothing a"
  "says_read a \<Longrightarrow> \<not> says_nothing a"
  by (auto simp: sourceFactsOf_def hint_of_def says_read_def says_nothing_def Let_def split: option.splits)

lemma lineageD:
  assumes "lineage st L" "L t = Some (a, ovs)"
  shows "store_wf st" "t < next_ref st" "factsFor st t = sourceFactsOf a"
    "t \<in> repeatAccepted st \<longleftrightarrow> Some O_Read_Repeatable \<in> set ovs"
  using lineage_invariant [OF assms(1)] assms(2) by (simp_all add: lineage_ok_def)

lemma classify_said:
  assumes "factsFor st t = sourceFactsOf a"
  shows "classifyTool st t ov = (if served_read a ov then Read else Write)"
  using facts_said [of a] assms
  by (cases ov rule: option.exhaust; cases "the ov")
    (auto simp: classifyTool_def sourceClassification_def sourceDeclaresWrite_def served_read_def)


section \<open>Properties\<close>

text \<open>
  C29. Exactly when a tool is a read (INV-1), for every tool object published or cloned from one a connector gave, whatever copies and
  earlier overrides lie between it and that one, and under every override: it is classified as a read if and only if
  the deployment accepted its repeats (\<^verbatim>\<open>read-repeatable\<close>), or the source itself said
  \<^verbatim>\<open>readOnlyHint === true\<close> and not \<^verbatim>\<open>destructiveHint === true\<close> and the override
  is not \<^verbatim>\<open>write\<close>, or the override is \<^verbatim>\<open>read\<close> and the source said nothing. So the
  override \<^verbatim>\<open>read\<close> never turns a declared write, a contradiction or a malformed hint into a read,
  not even on a copy whose hints an earlier override rewrote.
\<close>

theorem classifyTool_exact:
  assumes "lineage st L" and "L t = Some (a, ovs)"
  shows "classifyTool st t ov = Read \<longleftrightarrow>
    ov = Some O_Read_Repeatable \<or> (ov \<noteq> Some O_Write \<and> says_read a) \<or> (ov = Some O_Read \<and> says_nothing a)"
  using classify_said [OF lineageD(3) [OF assms], of ov] by (simp add: served_read_def)

text \<open>A tool of a silent source, and one whose source declared a write, each loaded and then published as \<^verbatim>\<open>read\<close>.\<close>

definition bare_tool :: "hint \<Rightarrow> tool_def" where
  "bare_tool h = \<lparr>tool_name = [], annotations = Some \<lparr>readOnlyHint = h, destructiveHint = Undefined\<rparr>, classification = None\<rparr>"

definition no_tools :: tool_store where
  "no_tools = \<lparr>objects = (\<lambda>_. bare_tool Undefined), next_ref = 0, sourceFacts = Map.empty, repeatAccepted = {}\<rparr>"

definition demo_loaded :: "hint \<Rightarrow> tool_store" where
  "demo_loaded h = snd (new_tool no_tools (bare_tool h))"

definition demo_read :: "hint \<Rightarrow> tool_store" where
  "demo_read h = snd (publishTool (demo_loaded h) 0 (Some O_Read))"

lemma demo_loaded_lineage: "lineage (demo_loaded h) [0 \<mapsto> (annotations (bare_tool h), [])]"
proof -
  have "lineage no_tools Map.empty" by (rule lineage.start) (simp_all add: no_tools_def)
  moreover have "new_tool no_tools (bare_tool h) = (0, demo_loaded h)" by (simp add: demo_loaded_def new_tool_def no_tools_def)
  ultimately show ?thesis by (rule lineage.loaded)
qed

lemma demo_read_lineage:
  "lineage (demo_read h) [0 \<mapsto> (annotations (bare_tool h), []), 1 \<mapsto> (annotations (bare_tool h), [Some O_Read])]"
proof -
  have "publishTool (demo_loaded h) 0 (Some O_Read) = (1, demo_read h)"
    by (simp add: prod_eq_iff demo_read_def demo_loaded_def new_tool_def no_tools_def)
  from lineage.published [OF demo_loaded_lineage _ this] show ?thesis by simp
qed

theorem classifyTool_exact_witness:
  "classifyTool (demo_read Hint_False) 1 (Some O_Read) \<noteq> Read \<and> classifyTool (demo_read Undefined) 1 (Some O_Read) = Read"
  using classifyTool_exact [OF demo_read_lineage [of Hint_False], of 1 _ _ "Some O_Read"]
    classifyTool_exact [OF demo_read_lineage [of Undefined], of 1 _ _ "Some O_Read"]
  by (simp add: bare_tool_def says_read_def says_nothing_def)



text \<open>
  Classification survives host-owned copies: a clone is classified, refused by read programs and
  treated as write-like exactly as its original, whatever annotations or later overrides say.
\<close>

lemma cloneTool_same_class:
  assumes "store_wf st" and "t < next_ref st" and "cloneTool st t = (c, st')"
  shows "classifyTool st' c ov = classifyTool st t ov \<and> isWriteLike st' c = isWriteLike st t \<and>
    readProgramRefuses st' c = readProgramRefuses st t"
proof -
  have c: "c = next_ref st" and st': "st' = snd (cloneTool st t)"
    using assms(3) by (auto simp: cloneTool_def new_tool_def)
  have "factsFor st' c = factsFor st t" "objects st' c = objects st t" "c \<in> repeatAccepted st' \<longleftrightarrow> t \<in> repeatAccepted st"
    using assms(1,2) factsFor_new [OF assms(1,2), of "objects st t"]
    by (auto simp: c st' cloneTool_def Let_def new_tool_def repeatAccepted_carry store_wf_def)
  then show ?thesis
    by (simp add: classifyTool_def sourceDeclaresWrite_def sourceClassification_def isWriteLike_def
          readProgramRefuses_def)
qed

end
