(* ===== verification/Connector_Access.thy ===== *)
theory Connector_Access
  imports Connecta_Prelude
begin

text \<open>
  Pool grants: \<^verbatim>\<open>parseConnectorAccess\<close> of \<^verbatim>\<open>src/connector-access.ts\<close>, the name
  check of \<^verbatim>\<open>src/tool-name.ts\<close>, and the filter with which a scoped registry view applies a
  grant to a connector's catalog (\<^verbatim>\<open>getTools\<close> of \<^verbatim>\<open>ScopedRegistryView\<close> in
  \<^verbatim>\<open>src/registry.ts\<close>).
\<close>

section \<open>Data\<close>

datatype access_error = Invalid_Connector_Permission

text \<open>\<^verbatim>\<open>toolAccess\<close> is a map from connector ids to insertion-ordered sets of tool names.\<close>

record connector_access =
  connectorIds :: "jstr list"
  toolAccess :: "(jstr \<times> jstr list) list option"

section \<open>Operations\<close>

definition hasControlCharacters :: "jstr \<Rightarrow> bool" where
  "hasControlCharacters name = list_ex (\<lambda>c. c \<le> 0x1f \<or> (0x7f \<le> c \<and> c \<le> 0x9f)) name"

text \<open>With the \<^verbatim>\<open>u\<close> flag a pattern counts code points: a surrogate pair is one.\<close>

fun code_points :: "jstr \<Rightarrow> nat" where
  "code_points [] = 0"
| "code_points [c] = 1"
| "code_points (c # d # cs) =
     (if high_surrogate c \<and> low_surrogate d then Suc (code_points cs) else Suc (code_points (d # cs)))"

abbreviation dot :: code_unit where "dot \<equiv> 0x2e"

definition connector_part :: "jstr \<Rightarrow> jstr" where
  "connector_part address = takeWhile (\<lambda>c. c \<noteq> dot) address"

definition tool_part :: "jstr \<Rightarrow> jstr" where
  "tool_part address = tl (dropWhile (\<lambda>c. c \<noteq> dot) address)"

text \<open>\<^verbatim>\<open>TOOL_ADDRESS_RE\<close>: a slug, a dot, then 1 to 256 code points of any kind.\<close>

definition tool_address_re :: "jstr \<Rightarrow> bool" where
  "tool_address_re address \<longleftrightarrow> slug (connector_part address) \<and> dot \<in> set address \<and>
     1 \<le> code_points (tool_part address) \<and> code_points (tool_part address) \<le> 256"

definition set_add :: "'a \<Rightarrow> 'a list \<Rightarrow> 'a list" where
  "set_add x xs = (if x \<in> set xs then xs else xs @ [x])"

definition map_get :: "'k \<Rightarrow> ('k \<times> 'v list) list \<Rightarrow> 'v list" where
  "map_get k m = (case map_of m k of None \<Rightarrow> [] | Some v \<Rightarrow> v)"

text \<open>The loop over the entries, with the sets it fills.\<close>

fun parse_entries ::
    "jstr list \<Rightarrow> (jstr \<times> jstr list) list \<Rightarrow> js_item list
      \<Rightarrow> access_error + jstr list \<times> (jstr \<times> jstr list) list" where
  "parse_entries whole partial [] = Inr (whole, partial)"
| "parse_entries whole partial (Other_Value # es) = Inl Invalid_Connector_Permission"
| "parse_entries whole partial (Str address # es) =
     (if slug address then parse_entries (set_add address whole) partial es
      else if \<not> tool_address_re address \<or> hasControlCharacters address
        then Inl Invalid_Connector_Permission
      else parse_entries whole
             (map_set (connector_part address)
                (set_add (tool_part address) (map_get (connector_part address) partial)) partial) es)"

text \<open>\<^verbatim>\<open>None\<close> stands for a value that is not an array.\<close>

definition parseConnectorAccess :: "js_item list option \<Rightarrow> access_error + connector_access" where
  "parseConnectorAccess v =
     (case v of
        None \<Rightarrow> Inl Invalid_Connector_Permission
      | Some es \<Rightarrow>
          (case parse_entries [] [] es of
             Inl e \<Rightarrow> Inl e
           | Inr (whole, partial) \<Rightarrow>
               (let rest = fold map_delete whole partial
                in Inr \<lparr>connectorIds = fold set_add (whole @ map fst rest) [],
                        toolAccess = (if rest = [] then None else Some rest)\<rparr>)))"

text \<open>The filter of the scoped view; \<^verbatim>\<open>None\<close> is the error for a connector outside the scope.\<close>

definition scoped_getTools :: "connector_access \<Rightarrow> jstr \<Rightarrow> ('t \<Rightarrow> jstr) \<Rightarrow> 't list \<Rightarrow> 't list option" where
  "scoped_getTools acc connectorId name tools =
     (if connectorId \<notin> set (connectorIds acc) then None
      else case toolAccess acc of
          None \<Rightarrow> Some tools
        | Some m \<Rightarrow> (case map_of m connectorId of
              None \<Rightarrow> Some tools
            | Some granted \<Rightarrow> Some (filter (\<lambda>t. name t \<in> set granted) tools)))"

section \<open>Lemmas\<close>

lemma set_set_add [simp]: "set (set_add x xs) = insert x (set xs)"
  by (auto simp: set_add_def)

lemma set_fold_set_add [simp]: "set (fold set_add ys xs) = set ys \<union> set xs"
  by (induction ys arbitrary: xs) auto

lemma map_of_fold_map_delete:
  "map_of (fold map_delete ks m) = (\<lambda>k. if k \<in> set ks then None else map_of m k)"
  by (induction ks arbitrary: m) (auto simp: fun_eq_iff)

lemma parts_of_address: "dot \<in> set a \<Longrightarrow> a = connector_part a @ dot # tool_part a"
proof -
  assume "dot \<in> set a"
  then have ne: "dropWhile (\<lambda>c. c \<noteq> dot) a \<noteq> []" by simp
  have "hd (dropWhile (\<lambda>c. c \<noteq> dot) a) = dot" using hd_dropWhile [OF ne] by simp
  then have "dropWhile (\<lambda>c. c \<noteq> dot) a = dot # tool_part a"
    using ne by (cases "dropWhile (\<lambda>c. c \<noteq> dot) a") (simp_all add: tool_part_def)
  then show ?thesis
    using takeWhile_dropWhile_id [of "\<lambda>c. c \<noteq> dot" a] by (simp add: connector_part_def)
qed

lemma parts_of_append:
  assumes "dot \<notin> set c"
  shows "connector_part (c @ dot # t) = c \<and> tool_part (c @ dot # t) = t"
proof -
  have "takeWhile (\<lambda>x. x \<noteq> dot) (c @ dot # t) = c @ takeWhile (\<lambda>x. x \<noteq> dot) (dot # t)"
    using assms by (intro takeWhile_append2) auto
  moreover have "dropWhile (\<lambda>x. x \<noteq> dot) (c @ dot # t) = dropWhile (\<lambda>x. x \<noteq> dot) (dot # t)"
    using assms by (intro dropWhile_append2) auto
  ultimately show ?thesis by (simp add: connector_part_def tool_part_def)
qed

definition entry_ok :: "js_item \<Rightarrow> bool" where
  "entry_ok e \<longleftrightarrow> (\<exists>a. e = Str a \<and> (slug a \<or> tool_address_re a \<and> \<not> hasControlCharacters a))"

lemma parse_entries_ok_iff: "(\<exists>r. parse_entries w p es = Inr r) \<longleftrightarrow> (\<forall>e \<in> set es. entry_ok e)"
  by (induction w p es rule: parse_entries.induct) (auto simp: entry_ok_def)

lemma parse_entries_whole:
  "parse_entries w p es = Inr (w', p') \<Longrightarrow> set w' = set w \<union> {a. slug a \<and> Str a \<in> set es}"
  by (induction w p es rule: parse_entries.induct) (auto split: if_splits)

lemma parse_entries_partial:
  "parse_entries w p es = Inr (w', p') \<Longrightarrow>
    (map_of p' c \<noteq> None \<longleftrightarrow> map_of p c \<noteq> None \<or> (\<exists>t. slug c \<and> Str (c @ dot # t) \<in> set es)) \<and>
    (t \<in> set (map_get c p') \<longleftrightarrow> t \<in> set (map_get c p) \<or> slug c \<and> Str (c @ dot # t) \<in> set es)"
proof (induction w p es rule: parse_entries.induct)
  case (3 w p a es)
  show ?case
  proof (cases "slug a")
    case True
    have "a \<noteq> c @ dot # t" for t using slug_no_dot [OF True] by auto
    with True 3 show ?thesis by auto
  next
    case False
    with "3.prems" have ok: "tool_address_re a" "\<not> hasControlCharacters a" by (auto split: if_splits)
    let ?p = "map_set (connector_part a) (set_add (tool_part a) (map_get (connector_part a) p)) p"
    have slugc: "slug (connector_part a)" and a: "a = connector_part a @ dot # tool_part a"
      using ok parts_of_address by (auto simp: tool_address_re_def)
    have eq: "a = c @ dot # t \<longleftrightarrow> c = connector_part a \<and> t = tool_part a" if "slug c" for t
      using a parts_of_append [of c t] slug_no_dot [OF that] by metis
    have "(map_of p' c \<noteq> None \<longleftrightarrow> map_of ?p c \<noteq> None \<or> (\<exists>t. slug c \<and> Str (c @ dot # t) \<in> set es)) \<and>
      (t \<in> set (map_get c p') \<longleftrightarrow> t \<in> set (map_get c ?p) \<or> slug c \<and> Str (c @ dot # t) \<in> set es)"
      using "3.IH"(2) False ok "3.prems" by simp
    moreover have "t \<in> set (map_get c ?p) \<longleftrightarrow> t \<in> set (map_get c p) \<or> c = connector_part a \<and> t = tool_part a"
      by (auto simp: map_get_def)
    moreover have "Str (c @ dot # t) \<in> set (Str a # es) \<longleftrightarrow>
        a = c @ dot # t \<or> Str (c @ dot # t) \<in> set es" for t by auto
    ultimately show ?thesis using slugc eq by auto
  qed
qed auto

lemma parseConnectorAccess_Inr:
  assumes "parseConnectorAccess v = Inr acc"
  obtains es whole partial where "v = Some es" "parse_entries [] [] es = Inr (whole, partial)"
    "set (connectorIds acc) = set whole \<union> fst ` set (fold map_delete whole partial)"
    "\<And>c. (case toolAccess acc of None \<Rightarrow> None | Some m \<Rightarrow> map_of m c) =
          (if c \<in> set whole then None else map_of partial c)"
proof -
  from assms obtain es whole partial where v: "v = Some es"
    and p: "parse_entries [] [] es = Inr (whole, partial)"
    and acc: "acc = (let rest = fold map_delete whole partial
                in \<lparr>connectorIds = fold set_add (whole @ map fst rest) [],
                        toolAccess = (if rest = [] then None else Some rest)\<rparr>)"
    by (auto simp: parseConnectorAccess_def Let_def split: option.splits sum.splits)
  have "(case toolAccess acc of None \<Rightarrow> None | Some m \<Rightarrow> map_of m c) =
          (if c \<in> set whole then None else map_of partial c)" for c
    using map_of_fold_map_delete [of whole partial, THEN fun_cong, of c]
    by (auto simp: acc Let_def)
  with v p show ?thesis by (intro that [of es whole partial]) (auto simp: acc Let_def)
qed

section \<open>Properties\<close>

text \<open>
  C31. A pool's grant means exactly what was written (INV-4): once \<^verbatim>\<open>parseConnectorAccess\<close>
  accepted a list, a scoped view serves a tool of a connector if and only if the list names the
  connector's bare id, or the address of that very tool; every other connector is an error and every
  other tool is filtered out.
\<close>

theorem grants_exact:
  assumes "parseConnectorAccess (Some es) = Inr acc"
  shows "(\<exists>served. scoped_getTools acc c name tools = Some served \<and> t \<in> set served) \<longleftrightarrow>
    t \<in> set tools \<and> slug c \<and> (Str c \<in> set es \<or> Str (c @ dot # name t) \<in> set es)"
proof -
  from assms obtain whole partial where p: "parse_entries [] [] es = Inr (whole, partial)"
    and ids: "set (connectorIds acc) = set whole \<union> fst ` set (fold map_delete whole partial)"
    and acc: "\<And>c. (case toolAccess acc of None \<Rightarrow> None | Some m \<Rightarrow> map_of m c) =
          (if c \<in> set whole then None else map_of partial c)"
    by (rule parseConnectorAccess_Inr) auto
  have whole: "c \<in> set whole \<longleftrightarrow> slug c \<and> Str c \<in> set es"
    using parse_entries_whole [OF p] by auto
  have rest: "c \<in> fst ` set (fold map_delete whole partial) \<longleftrightarrow> c \<notin> set whole \<and> map_of partial c \<noteq> None"
    using map_of_fold_map_delete [of whole partial, THEN fun_cong, of c]
      map_of_eq_None_iff [of "fold map_delete whole partial" c] by (auto split: if_splits)
  show ?thesis
  proof (cases "c \<in> set whole \<or> map_of partial c = None")
    case True
    then have "scoped_getTools acc c name tools = (if c \<in> set whole then Some tools else None)"
      using ids rest acc [of c] by (auto simp: scoped_getTools_def split: option.splits)
    moreover have "c \<notin> set whole \<Longrightarrow> \<not> (slug c \<and> Str (c @ dot # name t) \<in> set es)"
      using True parse_entries_partial [OF p, of c "name t"] by auto
    ultimately show ?thesis using whole by auto
  next
    case False
    then obtain ts where ts: "map_of partial c = Some ts" "c \<notin> set whole" by auto
    then have "scoped_getTools acc c name tools = Some (filter (\<lambda>t. name t \<in> set ts) tools)"
      using ids rest acc [of c] by (auto simp: scoped_getTools_def split: option.splits)
    moreover have "name t \<in> set ts \<longleftrightarrow> slug c \<and> Str (c @ dot # name t) \<in> set es"
      using parse_entries_partial [OF p, of c "name t"] ts by (simp add: map_get_def)
    ultimately show ?thesis using whole ts(2) by auto
  qed
qed

theorem grants_exact_witness:
  "(\<exists>served. scoped_getTools \<lparr>connectorIds = [lit ''a''], toolAccess = Some [(lit ''a'', [lit ''x''])]\<rparr>
      (lit ''a'') id [lit ''x'', lit ''y''] = Some served \<and> lit ''x'' \<in> set served)"
proof -
  have "parseConnectorAccess (Some [Str (lit ''a.x'')]) =
      Inr \<lparr>connectorIds = [lit ''a''], toolAccess = Some [(lit ''a'', [lit ''x''])]\<rparr>"
    by (simp add: parseConnectorAccess_def js_eval slug_def slug_unit_def tool_address_re_def
          connector_part_def tool_part_def hasControlCharacters_def set_add_def map_get_def)
  from grants_exact [OF this, of "lit ''a''" id "[lit ''x'', lit ''y'']" "lit ''x''"] show ?thesis
    by (simp add: js_eval slug_def slug_unit_def)
qed

text \<open>
  A grant that cannot be parsed never fails open: \<^verbatim>\<open>parseConnectorAccess\<close> succeeds
  exactly on an array whose every entry is a connector id, or a tool address without control characters;
  anything else throws.
\<close>

theorem parseConnectorAccess_total:
  "(\<exists>acc. parseConnectorAccess v = Inr acc) \<longleftrightarrow>
    (\<exists>es. v = Some es \<and>
      list_all (\<lambda>e. \<exists>a. e = Str a \<and> (slug a \<or> tool_address_re a \<and> \<not> hasControlCharacters a)) es)"
proof (cases v)
  case (Some es)
  have "(\<exists>acc. parseConnectorAccess v = Inr acc) \<longleftrightarrow> (\<exists>r. parse_entries [] [] es = Inr r)"
    by (auto simp: Some parseConnectorAccess_def Let_def split: sum.splits)
  then show ?thesis
    using parse_entries_ok_iff [of "[]" "[]" es] Some by (auto simp: list_all_iff entry_ok_def)
qed (simp add: parseConnectorAccess_def)

end
