(* ===== verification/Membership.thy ===== *)
theory Membership
  imports Connector_Access
begin

text \<open>
  Who may open which endpoint: \<^verbatim>\<open>src/membership.ts\<close> with the agent names of
  \<^verbatim>\<open>src/agent-identity.ts\<close> and the identity references of
  \<^verbatim>\<open>src/identity.ts\<close>. References are resolved once, at construction, and every malformed,
  ambiguous, unknown or repeated one throws.
\<close>

section \<open>Data\<close>

record identity_reference =
  ref_namespace :: jstr
  ref_id :: jstr

text \<open>A reference as deployment code lists it: a string, an object given by its own keys, or anything else.\<close>

datatype member_value = MV_String jstr | MV_Object "(jstr \<times> js_item) list" | MV_Other

datatype member = Human identity_reference | Agent jstr

datatype config_error =
    Unknown_Agent jstr | Contains_Colon | Bad_Principal_Id | Not_One_Provider nat | No_Actor_Namespace
  | Bad_Reference_Shape | Bad_Reference_Part | Not_An_Array | Repeated_Member nat | Mixed_Kinds
  | Maintainers_Required | No_People_Provider | Agent_Maintainer nat | Bad_Agent_Name nat | Repeated_Agent nat

record member_context =
  interactiveNamespaces :: "jstr option list"
  agents :: "jstr list"

text \<open>An inbound provider, as far as \<^verbatim>\<open>memberContext\<close> reads it.\<close>

record inbound_auth =
  interactiveOperator :: bool
  activityActorNamespace :: "jstr option"

record authenticated_identity =
  principal :: "identity_reference option"
  agent :: "jstr option"

section \<open>Operations\<close>

text \<open>\<^verbatim>\<open>src/identity.ts\<close>: 1 to 256 printable, non-space ASCII characters.\<close>

definition identity_part :: "jstr \<Rightarrow> bool" where
  "identity_part s \<longleftrightarrow> s \<noteq> [] \<and> length s \<le> 256 \<and> list_all (\<lambda>c. 0x21 \<le> c \<and> c \<le> 0x7e) s"

definition validIdentityReference :: "identity_reference \<Rightarrow> bool" where
  "validIdentityReference r \<longleftrightarrow> identity_part (ref_namespace r) \<and> identity_part (ref_id r)"

text \<open>\<^verbatim>\<open>src/agent-identity.ts\<close>.\<close>

definition isAgentName :: "jstr \<Rightarrow> bool" where
  "isAgentName s \<longleftrightarrow> length s \<le> 64 \<and> slug s"

definition agent_prefix :: jstr where
  "agent_prefix = lit ''agent:''"

definition agentSubjectId :: "jstr \<Rightarrow> jstr" where
  "agentSubjectId name = agent_prefix @ name"

fun assertAgentNames_from :: "nat \<Rightarrow> jstr set \<Rightarrow> js_item list \<Rightarrow> config_error option" where
  "assertAgentNames_from i seen [] = None"
| "assertAgentNames_from i seen (Other_Value # es) = Some (Bad_Agent_Name i)"
| "assertAgentNames_from i seen (Str name # es) =
     (if \<not> isAgentName name then Some (Bad_Agent_Name i)
      else if name \<in> seen then Some (Repeated_Agent i)
      else assertAgentNames_from (Suc i) (insert name seen) es)"

definition assertAgentNames :: "js_item list option \<Rightarrow> config_error option" where
  "assertAgentNames v = (case v of None \<Rightarrow> Some Not_An_Array | Some es \<Rightarrow> assertAgentNames_from 0 {} es)"

definition memberContext :: "inbound_auth list \<Rightarrow> jstr list \<Rightarrow> member_context" where
  "memberContext auth names =
     \<lparr>interactiveNamespaces =
        map (\<lambda>p. case activityActorNamespace p of
                Some ns \<Rightarrow> if validIdentityReference \<lparr>ref_namespace = ns, ref_id = lit ''x''\<rparr> then Some ns else None
              | None \<Rightarrow> None)
            (filter interactiveOperator auth),
      agents = names\<rparr>"

definition resolve_string :: "jstr \<Rightarrow> member_context \<Rightarrow> config_error + member" where
  "resolve_string v ctx =
     (if starts_with v agent_prefix then
        (let name = drop (length agent_prefix) v
         in if \<not> isAgentName name \<or> name \<notin> set (agents ctx) then Inl (Unknown_Agent name) else Inr (Agent name))
      else if has_unit v 0x3a then Inl Contains_Colon
      else if \<not> validIdentityReference \<lparr>ref_namespace = lit ''x'', ref_id = v\<rparr> then Inl Bad_Principal_Id
      else if length (interactiveNamespaces ctx) \<noteq> 1
        then Inl (Not_One_Provider (length (interactiveNamespaces ctx)))
      else case hd (interactiveNamespaces ctx) of
          None \<Rightarrow> Inl No_Actor_Namespace
        | Some ns \<Rightarrow> Inr (Human \<lparr>ref_namespace = ns, ref_id = v\<rparr>))"

definition resolveRef :: "member_value \<Rightarrow> member_context \<Rightarrow> config_error + member" where
  "resolveRef v ctx =
     (case v of
        MV_String s \<Rightarrow> resolve_string s ctx
      | MV_Other \<Rightarrow> Inl Bad_Reference_Shape
      | MV_Object props \<Rightarrow>
          (if length props \<noteq> 2 \<or> \<not> map_has (lit ''namespace'') props \<or> \<not> map_has (lit ''id'') props
             then Inl Bad_Reference_Shape
           else case (map_of props (lit ''namespace''), map_of props (lit ''id'')) of
               (Some (Str ns), Some (Str i)) \<Rightarrow>
                 (if validIdentityReference \<lparr>ref_namespace = ns, ref_id = i\<rparr>
                    then Inr (Human \<lparr>ref_namespace = ns, ref_id = i\<rparr>) else Inl Bad_Reference_Part)
             | _ \<Rightarrow> Inl Bad_Reference_Part))"

text \<open>The duplicate-detection key, a string with \<^verbatim>\<open>NUL\<close> separators.\<close>

definition memberKey :: "member \<Rightarrow> jstr" where
  "memberKey m =
     (case m of
        Agent name \<Rightarrow> lit ''agent'' @ 0 # name
      | Human r \<Rightarrow> lit ''human'' @ 0 # ref_namespace r @ 0 # ref_id r)"

fun resolveMembers_from ::
    "nat \<Rightarrow> jstr set \<Rightarrow> member_value list \<Rightarrow> member_context \<Rightarrow> config_error + member list" where
  "resolveMembers_from i seen [] ctx = Inr []"
| "resolveMembers_from i seen (v # vs) ctx =
     (case resolveRef v ctx of
        Inl e \<Rightarrow> Inl e
      | Inr m \<Rightarrow>
          (if memberKey m \<in> seen then Inl (Repeated_Member i)
           else case resolveMembers_from (Suc i) (insert (memberKey m) seen) vs ctx of
               Inl e \<Rightarrow> Inl e
             | Inr ms \<Rightarrow> Inr (m # ms)))"

definition resolveMembers :: "member_value list option \<Rightarrow> member_context \<Rightarrow> config_error + member list" where
  "resolveMembers v ctx =
     (case v of None \<Rightarrow> Inl Not_An_Array | Some vs \<Rightarrow> resolveMembers_from 0 {} vs ctx)"

fun is_agent :: "member \<Rightarrow> bool" where
  "is_agent (Agent _) = True"
| "is_agent (Human _) = False"

definition resolvePoolMembers :: "member_value list option \<Rightarrow> member_context \<Rightarrow> config_error + member list" where
  "resolvePoolMembers v ctx =
     (case resolveMembers v ctx of
        Inl e \<Rightarrow> Inl e
      | Inr ms \<Rightarrow> (if list_all (\<lambda>m. is_agent m = is_agent (hd ms)) ms then Inr ms else Inl Mixed_Kinds))"

fun only_people :: "nat \<Rightarrow> member list \<Rightarrow> config_error + identity_reference list" where
  "only_people i [] = Inr []"
| "only_people i (Agent n # ms) = Inl (Agent_Maintainer i)"
| "only_people i (Human r # ms) =
     (case only_people (Suc i) ms of Inl e \<Rightarrow> Inl e | Inr rs \<Rightarrow> Inr (r # rs))"

text \<open>\<^verbatim>\<open>undefined\<close> is \<open>None\<close>; a value that is not an array is \<open>Some None\<close>.\<close>

definition resolveMaintainers ::
    "member_value list option option \<Rightarrow> bool \<Rightarrow> member_context \<Rightarrow> config_error + identity_reference list" where
  "resolveMaintainers v admitsPeople ctx =
     (if v = None \<or> v = Some (Some []) then (if admitsPeople then Inl Maintainers_Required else Inr [])
      else if \<not> admitsPeople then Inl No_People_Provider
      else case resolveMembers (the v) ctx of Inl e \<Rightarrow> Inl e | Inr ms \<Rightarrow> only_people 0 ms)"

definition isMember :: "member \<Rightarrow> authenticated_identity \<Rightarrow> bool" where
  "isMember m identity =
     (case m of
        Agent name \<Rightarrow> agent identity = Some name
      | Human r \<Rightarrow> agent identity = None \<and>
          (case principal identity of
             None \<Rightarrow> False
           | Some p \<Rightarrow> ref_namespace p = ref_namespace r \<and> ref_id p = ref_id r))"

definition isMaintainer :: "identity_reference list \<Rightarrow> authenticated_identity \<Rightarrow> bool" where
  "isMaintainer maintainers identity = list_ex (\<lambda>m. isMember (Human m) identity) maintainers"

text \<open>
  \<^verbatim>\<open>peopleInSeveralPools\<close>: the person map is keyed by the pair of namespace and id, which
  \<^verbatim>\<open>JSON.stringify\<close> spells injectively.
\<close>

type_synonym people = "(identity_reference \<times> jstr list) list"

definition add_pool :: "jstr \<Rightarrow> identity_reference list \<Rightarrow> member \<Rightarrow> people \<Rightarrow> people" where
  "add_pool name maintainers m ps =
     (case m of
        Agent _ \<Rightarrow> ps
      | Human r \<Rightarrow>
          (if r \<in> set maintainers then ps
           else map_set r (set_add name (map_get r ps)) ps))"

definition collect_people :: "(jstr \<times> member list) list \<Rightarrow> identity_reference list \<Rightarrow> people \<Rightarrow> people" where
  "collect_people pools maintainers ps =
     fold (\<lambda>(name, members) acc. fold (add_pool name maintainers) members acc) pools ps"

definition peopleInSeveralPools ::
    "(jstr \<times> member list) list \<Rightarrow> identity_reference list \<Rightarrow> (identity_reference \<times> jstr list) list" where
  "peopleInSeveralPools pools maintainers =
     (if maintainers = [] then []
      else filter (\<lambda>p. 1 < length (snd p)) (collect_people pools maintainers []))"

section \<open>Lemmas\<close>

lemma resolveRef_valid:
  assumes "resolveRef v ctx = Inr m" and "\<forall>ns. Some ns \<in> set (interactiveNamespaces ctx) \<longrightarrow> identity_part ns"
  shows "case m of Agent n \<Rightarrow> isAgentName n \<and> n \<in> set (agents ctx) | Human r \<Rightarrow> validIdentityReference r"
  using assms
  by (cases "interactiveNamespaces ctx")
     (auto simp: resolveRef_def resolve_string_def validIdentityReference_def Let_def
        split: member_value.splits if_splits option.splits js_item.splits)

lemma memberContext_namespaces:
  "Some ns \<in> set (interactiveNamespaces (memberContext auth names)) \<Longrightarrow> identity_part ns"
  by (auto simp: memberContext_def validIdentityReference_def split: option.splits if_splits)

lemma identity_part_no_nul: "identity_part s \<Longrightarrow> 0 \<notin> set s"
  by (auto simp: identity_part_def list_all_iff)

lemma append_nul_inj:
  fixes a b :: jstr
  assumes "a @ 0 # x = b @ 0 # y" and "0 \<notin> set a" and "0 \<notin> set b"
  shows "a = b \<and> x = y"
  using assms
proof (induction a arbitrary: b)
  case Nil
  then show ?case by (cases b) auto
next
  case (Cons c cs)
  then show ?case by (cases b) auto
qed

lemma memberKey_inj:
  assumes "memberKey m = memberKey m'"
    and "case m of Agent n \<Rightarrow> True | Human r \<Rightarrow> validIdentityReference r"
    and "case m' of Agent n \<Rightarrow> True | Human r \<Rightarrow> validIdentityReference r"
  shows "m = m'"
proof (cases m; cases m')
  fix r r' assume m: "m = Human r" and m': "m' = Human r'"
  have eq: "ref_namespace r @ 0 # ref_id r = ref_namespace r' @ 0 # ref_id r'"
    using assms(1) by (simp add: memberKey_def m m')
  have "0 \<notin> set (ref_namespace r)" "0 \<notin> set (ref_namespace r')"
    using assms(2,3) identity_part_no_nul by (auto simp: m m' validIdentityReference_def)
  from append_nul_inj [OF eq this] show ?thesis by (simp add: m m')
qed (use assms(1) in \<open>auto simp: memberKey_def js_eval\<close>)

lemma resolveMembers_from_keys:
  "resolveMembers_from i seen vs ctx = Inr ms \<Longrightarrow>
     distinct (map memberKey ms) \<and> set (map memberKey ms) \<inter> seen = {} \<and>
     list_all2 (\<lambda>v m. resolveRef v ctx = Inr m) vs ms"
proof (induction i seen vs ctx arbitrary: ms rule: resolveMembers_from.induct)
  case (2 i seen v vs ctx)
  then obtain m ms' where r: "resolveRef v ctx = Inr m" "memberKey m \<notin> seen"
    and rest: "resolveMembers_from (Suc i) (insert (memberKey m) seen) vs ctx = Inr ms'" and ms: "ms = m # ms'"
    by (auto split: sum.splits if_splits)
  from "2.IH" [OF r(1) r(2) rest] show ?case by (auto simp: ms r)
qed auto

lemma only_people_members: "only_people i ms = Inr rs \<Longrightarrow> ms = map Human rs"
  by (induction i ms arbitrary: rs rule: only_people.induct) (auto split: sum.splits)

lemma map_get_map_set: "map_get r (map_set k v m) = (if r = k then v else map_get r m)"
  by (simp add: map_get_def)

text \<open>What one pool's members add: the pool's name, once, to every listed person who is no maintainer.\<close>

lemma fold_add_pool:
  "map_get r (fold (add_pool name mts) members ps) =
     (if Human r \<in> set members \<and> r \<notin> set mts then set_add name (map_get r ps) else map_get r ps)"
proof (induction members arbitrary: ps)
  case (Cons m members)
  then show ?case
    by (cases m) (auto simp: add_pool_def map_get_map_set set_add_def)
qed simp

lemma distinct_fold_add_pool:
  "distinct (map fst ps) \<Longrightarrow> distinct (map fst (fold (add_pool name mts) members ps))"
  by (induction members arbitrary: ps) (auto simp: add_pool_def split: member.split)

lemma collect_people_get:
  assumes "distinct (map fst pools)" and "set (map fst pools) \<inter> set (map_get r ps) = {}"
  shows "map_get r (collect_people pools mts ps) =
    map_get r ps @ map fst (filter (\<lambda>p. Human r \<in> set (snd p) \<and> r \<notin> set mts) pools)"
  using assms
proof (induction pools arbitrary: ps)
  case (Cons p pools)
  obtain name members where p: "p = (name, members)" by (cases p)
  let ?ps = "fold (add_pool name mts) members ps"
  have get: "map_get r ?ps = map_get r ps @ (if Human r \<in> set members \<and> r \<notin> set mts then [name] else [])"
    using Cons.prems by (auto simp: fold_add_pool set_add_def p)
  have "set (map fst pools) \<inter> set (map_get r ?ps) = {}"
    using Cons.prems by (auto simp: get p)
  then show ?case using Cons by (auto simp: collect_people_def p get)
qed (simp add: collect_people_def)

lemma collect_people_distinct:
  "distinct (map fst ps) \<Longrightarrow> distinct (map fst (collect_people pools mts ps))"
  unfolding collect_people_def
  by (induction pools arbitrary: ps) (auto simp: distinct_fold_add_pool)

section \<open>Properties\<close>

text \<open>
  C32. Resolved pool membership (INV-4, INV-11): when \<^verbatim>\<open>resolvePoolMembers\<close> accepts a list
  under the deployment's context, the members are one per entry and in order, pairwise different, all
  people or all agents, every agent is a declared one and every person a valid reference.
\<close>

theorem resolvePoolMembers_sound:
  assumes "resolvePoolMembers (Some vs) (memberContext auth names) = Inr ms"
  shows "length ms = length vs \<and> distinct ms \<and>
    ((\<forall>m \<in> set ms. is_agent m) \<or> (\<forall>m \<in> set ms. \<not> is_agent m)) \<and>
    (\<forall>m \<in> set ms. case m of Agent n \<Rightarrow> isAgentName n \<and> n \<in> set names | Human r \<Rightarrow> validIdentityReference r)"
proof -
  let ?ctx = "memberContext auth names"
  from assms have ms: "resolveMembers_from 0 {} vs ?ctx = Inr ms"
    and hom: "list_all (\<lambda>m. is_agent m = is_agent (hd ms)) ms"
    by (auto simp: resolvePoolMembers_def resolveMembers_def split: sum.splits if_splits)
  have keys: "distinct (map memberKey ms)" and refs: "list_all2 (\<lambda>v m. resolveRef v ?ctx = Inr m) vs ms"
    using resolveMembers_from_keys [OF ms] by auto
  have valid: "case m of Agent n \<Rightarrow> isAgentName n \<and> n \<in> set names | Human r \<Rightarrow> validIdentityReference r"
    if "m \<in> set ms" for m
  proof -
    from refs that obtain v where "resolveRef v ?ctx = Inr m"
      by (auto simp: list_all2_conv_all_nth in_set_conv_nth)
    then have "case m of Agent n \<Rightarrow> isAgentName n \<and> n \<in> set (agents ?ctx) | Human r \<Rightarrow> validIdentityReference r"
      using memberContext_namespaces by (intro resolveRef_valid) auto
    then show ?thesis by (simp add: memberContext_def split: member.splits)
  qed
  have "distinct ms" using keys by (simp add: distinct_map)
  moreover have "(\<forall>m \<in> set ms. is_agent m) \<or> (\<forall>m \<in> set ms. \<not> is_agent m)"
    using hom by (auto simp: list_all_iff)
  ultimately show ?thesis using valid refs list_all2_lengthD [OF refs] by auto
qed

theorem resolvePoolMembers_sound_witness:
  "\<exists>ms. resolvePoolMembers (Some [MV_String (lit ''agent:bot'')]) (memberContext [] [lit ''bot'']) = Inr ms \<and>
     length ms = 1 \<and> distinct ms"
proof -
  have "resolvePoolMembers (Some [MV_String (lit ''agent:bot'')]) (memberContext [] [lit ''bot'']) =
      Inr [Agent (lit ''bot'')]"
    by (simp add: resolvePoolMembers_def resolveMembers_def resolveRef_def resolve_string_def agent_prefix_def
          memberContext_def js_eval isAgentName_def slug_def slug_unit_def)
  from resolvePoolMembers_sound [OF this] this show ?thesis by auto
qed

text \<open>
  Duplicate detection is exact: two valid members have the same \<^verbatim>\<open>memberKey\<close> only when
  they are the same member, so the string key neither merges different members nor misses a repeat, and a
  list in which some reference resolves twice is refused.
\<close>

theorem resolveMembers_refuses_repeats:
  assumes "resolveRef v (memberContext auth names) = Inr m"
    and "resolveRef v' (memberContext auth names) = Inr m'"
  shows "(memberKey m = memberKey m' \<longleftrightarrow> m = m') \<and>
    (m = m' \<longrightarrow> (\<exists>e. resolveMembers (Some (xs @ v # ys @ v' # zs)) (memberContext auth names) = Inl e))"
proof -
  let ?ctx = "memberContext auth names"
  have "case m of Agent n \<Rightarrow> True | Human r \<Rightarrow> validIdentityReference r"
    and "case m' of Agent n \<Rightarrow> True | Human r \<Rightarrow> validIdentityReference r"
    using resolveRef_valid [OF assms(1)] resolveRef_valid [OF assms(2)] memberContext_namespaces
    by (auto split: member.splits)
  then have key: "memberKey m = memberKey m' \<longleftrightarrow> m = m'" using memberKey_inj by blast
  have "\<exists>e. resolveMembers (Some (xs @ v # ys @ v' # zs)) ?ctx = Inl e" if "m = m'"
  proof (rule ccontr)
    assume "\<not> ?thesis"
    then obtain ms where ms: "resolveMembers_from 0 {} (xs @ v # ys @ v' # zs) ?ctx = Inr ms"
      by (cases "resolveMembers_from 0 {} (xs @ v # ys @ v' # zs) ?ctx") (auto simp: resolveMembers_def)
    from resolveMembers_from_keys [OF this] have d: "distinct (map memberKey ms)"
      and "list_all2 (\<lambda>v m. resolveRef v ?ctx = Inr m) (xs @ v # ys @ v' # zs) ms" by auto
    then obtain as bs cs a b where "ms = as @ a # bs @ b # cs"
      and "resolveRef v ?ctx = Inr a" "resolveRef v' ?ctx = Inr b"
      by (auto simp: list_all2_append1 list_all2_Cons1)
    with assms that d show False by auto
  qed
  with key show ?thesis by blast
qed

theorem resolveMembers_refuses_repeats_witness:
  "\<exists>e. resolveMembers (Some ([] @ MV_String (lit ''agent:b'') # [] @ MV_String (lit ''agent:b'') # []))
        (memberContext [] [lit ''b'']) = Inl e"
proof -
  have r: "resolveRef (MV_String (lit ''agent:b'')) (memberContext [] [lit ''b'']) = Inr (Agent (lit ''b''))"
    by (simp add: resolveRef_def resolve_string_def agent_prefix_def
          memberContext_def js_eval isAgentName_def slug_def slug_unit_def)
  show ?thesis using resolveMembers_refuses_repeats [OF r r, of "[]" "[]" "[]"] by blast
qed

text \<open>
  Agents and people never stand in for each other: an admitted agent is no human member and no
  maintainer, whatever principal it carries, and a caller without an agent name is no agent member.
\<close>

theorem agents_are_not_people:
  "(agent identity = Some a \<longrightarrow>
      \<not> isMaintainer maintainers identity \<and> (isMember m identity \<longleftrightarrow> m = Agent a)) \<and>
   (agent identity = None \<longrightarrow>
      (isMember m identity \<longleftrightarrow> (\<exists>r. m = Human r \<and> principal identity = Some r)))"
  by (auto simp: isMaintainer_def isMember_def list_ex_iff split: member.splits option.splits)

theorem agents_are_not_people_witness:
  "\<not> isMaintainer [\<lparr>ref_namespace = lit ''n'', ref_id = lit ''i''\<rparr>]
      \<lparr>principal = Some \<lparr>ref_namespace = lit ''n'', ref_id = lit ''i''\<rparr>, agent = Some (lit ''b'')\<rparr>"
  using agents_are_not_people [of "\<lparr>principal = Some \<lparr>ref_namespace = lit ''n'', ref_id = lit ''i''\<rparr>,
      agent = Some (lit ''b'')\<rparr>" "lit ''b''" "[\<lparr>ref_namespace = lit ''n'', ref_id = lit ''i''\<rparr>]"]
  by simp

text \<open>
  Maintainers (INV-11): \<^verbatim>\<open>resolveMaintainers\<close> returns an empty list exactly where no
  provider admits people; where one does, the list is not empty, has no repetition and only valid people,
  whatever deployment code passed.
\<close>

lemma resolveMaintainers_people:
  assumes "resolveMaintainers v admitsPeople (memberContext auth names) = Inr rs"
  shows "(rs = [] \<longleftrightarrow> \<not> admitsPeople) \<and> distinct rs \<and> (\<forall>r \<in> set rs. validIdentityReference r)"
proof (cases "v = None \<or> v = Some (Some [])")
  case True
  with assms show ?thesis by (auto simp: resolveMaintainers_def split: if_splits)
next
  case False
  let ?ctx = "memberContext auth names"
  from False assms obtain vs ms where vs: "v = Some (Some vs)" "vs \<noteq> []" and adm: "admitsPeople"
    and ms: "resolveMembers_from 0 {} vs ?ctx = Inr ms" and rs: "only_people 0 ms = Inr rs"
    by (cases "the v") (auto simp: resolveMaintainers_def resolveMembers_def split: if_splits sum.splits)
  have people: "ms = map Human rs" using only_people_members [OF rs] .
  have keys: "distinct (map memberKey ms)" and refs: "list_all2 (\<lambda>v m. resolveRef v ?ctx = Inr m) vs ms"
    using resolveMembers_from_keys [OF ms] by auto
  have "validIdentityReference r" if "r \<in> set rs" for r
  proof -
    from refs that obtain v where "resolveRef v ?ctx = Inr (Human r)"
      by (force simp: people list_all2_conv_all_nth in_set_conv_nth)
    from resolveRef_valid [OF this] show ?thesis using memberContext_namespaces by auto
  qed
  moreover have "rs \<noteq> []" using refs vs(2) by (auto simp: people)
  moreover have "distinct rs" using keys by (simp add: people distinct_map)
  ultimately show ?thesis using adm by auto
qed

text \<open>
  \<^verbatim>\<open>peopleInSeveralPools\<close> reports exactly the people plain \<^verbatim>\<open>/mcp\<close>
  must refuse: in a deployment with maintainers a person is reported with a list of pools if and only if
  the person is no maintainer, the list is every pool naming them, in declaration order, and it has more
  than one pool.
\<close>

lemma peopleInSeveralPools_exact:
  assumes "distinct (map fst pools)" and "maintainers \<noteq> []"
  shows "(r, names) \<in> set (peopleInSeveralPools pools maintainers) \<longleftrightarrow>
    r \<notin> set maintainers \<and> names = map fst (filter (\<lambda>p. Human r \<in> set (snd p)) pools) \<and> 1 < length names"
proof -
  let ?ps = "collect_people pools maintainers []"
  have get: "map_get r ?ps = map fst (filter (\<lambda>p. Human r \<in> set (snd p) \<and> r \<notin> set maintainers) pools)"
    using collect_people_get [OF assms(1), of r "[]" maintainers] by (simp add: map_get_def)
  have "(r, names) \<in> set ?ps \<longleftrightarrow> map_of ?ps r = Some names"
    using collect_people_distinct [of "[]" pools maintainers] map_of_eq_Some_iff by fastforce
  then have "(r, names) \<in> set ?ps \<and> 1 < length names \<longleftrightarrow> names = map_get r ?ps \<and> 1 < length names"
    by (auto simp: map_get_def split: option.splits)
  then show ?thesis using assms(2) get
    by (cases "r \<in> set maintainers") (auto simp: peopleInSeveralPools_def)
qed

end
