(* ===== verification/Executor_Admission.thy ===== *)
theory Executor_Admission
  imports Connecta_Prelude
begin

text \<open>
  Bounded admission of executor and request work: \<^verbatim>\<open>AdmissionController\<close> of
  \<^verbatim>\<open>src/executor-admission.ts\<close>, with the settlement cells of
  \<^verbatim>\<open>src/runtime/settlement.ts\<close> its queued callers wait on. Every synchronous turn of the
  program is one operation; the clock a turn reads is its argument \<open>now\<close>. Timers, aborts and
  interruptions of waiting fibers are steps that may happen at any time, in any order.
\<close>

section \<open>Data\<close>

datatype exec_error_code = Executor_Overloaded | Executor_Cancelled | Executor_Closed

text \<open>The message of a refusal, by its reason.\<close>

datatype exec_reason =
    Admission_Timed_Out | No_Free_Slot | Queue_Is_Full | Shutting_Down | Cancelled_Before_Admission
  | Cancelled_While_Queued

record exec_error =
  err_code :: exec_error_code
  err_reason :: exec_reason
  err_retryable :: bool
  err_retryAfterMs :: "int option"

record ac_lease =
  lease_id :: nat
  lease_waitMs :: int

record ac_waiter =
  waiter_id :: nat
  waiter_queuedAt :: int

text \<open>
  The controller. \<open>ac_outcomes\<close> holds the exit each waiter's settlement recorded, and
  \<open>ac_next\<close> names the next lease symbol or waiter.
\<close>

record admission_controller =
  ac_concurrency :: nat
  ac_maxQueueSize :: nat
  ac_queueTimeoutMs :: int
  ac_retryAfterMs :: int
  ac_maxDurationMs :: "int option"
  ac_active :: int
  ac_leases :: "(nat \<times> int option) list"
  ac_closed :: bool
  ac_waiters :: "ac_waiter list"
  ac_admittedTotal :: nat
  ac_queuedTotal :: nat
  ac_rejectedTotal :: nat
  ac_cancelledTotal :: nat
  ac_closedTotal :: nat
  ac_queueWaitCount :: nat
  ac_queueWaitTotalMs :: int
  ac_queueWaitMaxMs :: int
  ac_outcomes :: "nat \<rightharpoonup> exec_error + ac_lease"
  ac_next :: nat

record ac_options =
  opt_concurrency :: js_number
  opt_maxQueueSize :: js_number
  opt_queueTimeoutMs :: js_number
  opt_retryAfterMs :: "js_number option"
  opt_maxDurationMs :: "js_number option"

datatype type_error = Type_Error

section \<open>Operations\<close>

text \<open>\<^verbatim>\<open>new ExecutorAdmissionError(code, message, opts)\<close>.\<close>

definition executor_admission_error :: "exec_error_code \<Rightarrow> exec_reason \<Rightarrow> js_number option \<Rightarrow> exec_error" where
  "executor_admission_error code reason wait =
     \<lparr>err_code = code, err_reason = reason, err_retryable = (code = Executor_Overloaded),
      err_retryAfterMs = (case wait of Some (Finite q) \<Rightarrow> if 0 \<le> q then Some (trunc q) else None | _ \<Rightarrow> None)\<rparr>"

definition positiveWhole :: "js_number \<Rightarrow> type_error + nat" where
  "positiveWhole v =
     (case v of Non_Finite \<Rightarrow> Inl Type_Error
      | Finite q \<Rightarrow> if \<not> is_whole v \<or> q < 1 then Inl Type_Error else Inr (nat \<lfloor>q\<rfloor>))"

definition nonNegativeWhole :: "js_number \<Rightarrow> type_error + nat" where
  "nonNegativeWhole v =
     (case v of Non_Finite \<Rightarrow> Inl Type_Error
      | Finite q \<Rightarrow> if \<not> is_whole v \<or> q < 0 then Inl Type_Error else Inr (nat \<lfloor>q\<rfloor>))"

definition new_controller :: "ac_options \<Rightarrow> type_error + admission_controller" where
  "new_controller o1 =
     bind_sum (positiveWhole (opt_concurrency o1)) (\<lambda>concurrency.
     bind_sum (nonNegativeWhole (opt_maxQueueSize o1)) (\<lambda>maxQueueSize.
     bind_sum (positiveWhole (opt_queueTimeoutMs o1)) (\<lambda>queueTimeoutMs.
     bind_sum (case opt_retryAfterMs o1 of None \<Rightarrow> Inr queueTimeoutMs | Some v \<Rightarrow> nonNegativeWhole v) (\<lambda>retryAfterMs.
     bind_sum (case opt_maxDurationMs o1 of None \<Rightarrow> Inr None
        | Some v \<Rightarrow> bind_sum (positiveWhole v) (\<lambda>d. if d > 2147483647 then Inl Type_Error else Inr (Some d)))
       (\<lambda>maxDurationMs.
       Inr \<lparr>ac_concurrency = concurrency, ac_maxQueueSize = maxQueueSize,
            ac_queueTimeoutMs = int queueTimeoutMs, ac_retryAfterMs = int retryAfterMs,
            ac_maxDurationMs = map_option int maxDurationMs,
            ac_active = 0, ac_leases = [], ac_closed = False, ac_waiters = [],
            ac_admittedTotal = 0, ac_queuedTotal = 0, ac_rejectedTotal = 0, ac_cancelledTotal = 0,
            ac_closedTotal = 0, ac_queueWaitCount = 0, ac_queueWaitTotalMs = 0, ac_queueWaitMaxMs = 0,
            ac_outcomes = Map.empty, ac_next = 0\<rparr>)))))"

text \<open>\<^verbatim>\<open>Settlement.settle\<close>: only the first outcome is recorded.\<close>

definition settle :: "nat \<Rightarrow> exec_error + ac_lease \<Rightarrow> admission_controller \<Rightarrow> admission_controller" where
  "settle w exit c =
     (if ac_outcomes c w \<noteq> None then c else c\<lparr>ac_outcomes := (ac_outcomes c)(w \<mapsto> exit)\<rparr>)"

definition overloaded_error :: "admission_controller \<Rightarrow> exec_reason \<Rightarrow> exec_error" where
  "overloaded_error c reason =
     executor_admission_error Executor_Overloaded reason (Some (Finite (of_int (ac_retryAfterMs c))))"

definition closed_error :: exec_error where
  "closed_error = executor_admission_error Executor_Closed Shutting_Down None"

definition makeLease :: "int \<Rightarrow> int \<Rightarrow> admission_controller \<Rightarrow> ac_lease \<times> admission_controller" where
  "makeLease now waitMs c =
     (\<lparr>lease_id = ac_next c, lease_waitMs = waitMs\<rparr>,
      c\<lparr>ac_leases := ac_leases c @ [(ac_next c, map_option (\<lambda>d. now + d) (ac_maxDurationMs c))],
        ac_next := Suc (ac_next c)\<rparr>)"

text \<open>The lease's own \<^verbatim>\<open>remainingMs\<close>; \<open>None\<close> is \<^verbatim>\<open>undefined\<close>.\<close>

definition remainingMs :: "int \<Rightarrow> nat \<Rightarrow> admission_controller \<Rightarrow> int option" where
  "remainingMs now l c =
     (case map_of (ac_leases c) l of
        None \<Rightarrow> Some 0
      | Some None \<Rightarrow> None
      | Some (Some expiresAt) \<Rightarrow> Some (max 0 (expiresAt - now)))"

definition waiter_expired :: "int \<Rightarrow> admission_controller \<Rightarrow> ac_waiter \<Rightarrow> bool" where
  "waiter_expired now c w \<longleftrightarrow> \<not> now - waiter_queuedAt w < ac_queueTimeoutMs c"

definition pruneExpiredWaiters :: "int \<Rightarrow> admission_controller \<Rightarrow> admission_controller" where
  "pruneExpiredWaiters now c =
     (let dead = filter (waiter_expired now c) (ac_waiters c);
          c' = fold (\<lambda>w. settle (waiter_id w) (Inl (overloaded_error c Admission_Timed_Out))) (rev dead) c
      in c'\<lparr>ac_waiters := filter (\<lambda>w. \<not> waiter_expired now c w) (ac_waiters c),
            ac_rejectedTotal := ac_rejectedTotal c + length dead\<rparr>)"

text \<open>One turn of the \<^verbatim>\<open>fillSlots\<close> loop hands a slot to the longest waiter.\<close>

definition grant_slot :: "int \<Rightarrow> ac_waiter \<Rightarrow> admission_controller \<Rightarrow> admission_controller" where
  "grant_slot now w c =
     (let waitMs = max 0 (now - waiter_queuedAt w);
          c1 = c\<lparr>ac_admittedTotal := Suc (ac_admittedTotal c), ac_queueWaitCount := Suc (ac_queueWaitCount c),
                 ac_queueWaitTotalMs := ac_queueWaitTotalMs c + waitMs,
                 ac_queueWaitMaxMs := max (ac_queueWaitMaxMs c) waitMs, ac_active := ac_active c + 1\<rparr>;
          (lease, c2) = makeLease now waitMs c1
      in settle (waiter_id w) (Inr lease) c2)"

fun fill_loop :: "int \<Rightarrow> ac_waiter list \<Rightarrow> admission_controller \<Rightarrow> admission_controller" where
  "fill_loop now [] c = c\<lparr>ac_waiters := []\<rparr>"
| "fill_loop now (w # ws) c =
     (if ac_active c < int (ac_concurrency c) then fill_loop now ws (grant_slot now w c)
      else c\<lparr>ac_waiters := w # ws\<rparr>)"

definition fillSlots :: "int \<Rightarrow> admission_controller \<Rightarrow> admission_controller" where
  "fillSlots now c = (let c' = pruneExpiredWaiters now c in fill_loop now (ac_waiters c') c')"

definition releaseSlot :: "int \<Rightarrow> admission_controller \<Rightarrow> admission_controller" where
  "releaseSlot now c =
     (let c' = (if 0 < ac_active c then c\<lparr>ac_active := ac_active c - 1\<rparr> else c)
      in if ac_closed c' then c' else fillSlots now c')"

text \<open>The lease's own \<^verbatim>\<open>release\<close>: a lease already given back, or reaped, does nothing.\<close>

definition release :: "int \<Rightarrow> nat \<Rightarrow> admission_controller \<Rightarrow> admission_controller" where
  "release now l c =
     (if \<not> map_has l (ac_leases c) then c
      else releaseSlot now (c\<lparr>ac_leases := map_delete l (ac_leases c)\<rparr>))"

definition lease_expired :: "int \<Rightarrow> nat \<times> int option \<Rightarrow> bool" where
  "lease_expired now l = (case snd l of None \<Rightarrow> False | Some expiresAt \<Rightarrow> expiresAt \<le> now)"

definition reapExpired :: "int \<Rightarrow> admission_controller \<Rightarrow> admission_controller" where
  "reapExpired now c =
     (let c1 = pruneExpiredWaiters now c
      in if ac_maxDurationMs c1 = None then c1
         else let dead = filter (lease_expired now) (ac_leases c1);
                  c2 = c1\<lparr>ac_leases := filter (\<lambda>l. \<not> lease_expired now l) (ac_leases c1),
                          ac_active := ac_active c1 - int (length dead)\<rparr>
              in if ac_closed c2 then c2 else fillSlots now c2)"

definition nextReapDelay :: "int \<Rightarrow> admission_controller \<Rightarrow> int" where
  "nextReapDelay now c =
     (case List.map_filter snd (ac_leases c) of
        [] \<Rightarrow> 250
      | e # es \<Rightarrow> max 1 (fold min es e - now))"

definition close :: "admission_controller \<Rightarrow> admission_controller" where
  "close c =
     (if ac_closed c then c
      else fold (\<lambda>w d. settle (waiter_id w) (Inl closed_error) (d\<lparr>ac_closedTotal := Suc (ac_closedTotal d)\<rparr>))
             (ac_waiters c) (c\<lparr>ac_closed := True, ac_waiters := []\<rparr>))"

definition remove_waiter :: "nat \<Rightarrow> admission_controller \<Rightarrow> admission_controller" where
  "remove_waiter w c = c\<lparr>ac_waiters := filter (\<lambda>x. waiter_id x \<noteq> w) (ac_waiters c)\<rparr>"

definition is_waiting :: "nat \<Rightarrow> admission_controller \<Rightarrow> bool" where
  "is_waiting w c = (w \<in> waiter_id ` set (ac_waiters c))"

datatype acquire_result = Admitted ac_lease | Refused exec_error | Queued nat

text \<open>The synchronous part of the admission program: a lease, a refusal, or a place in the queue.\<close>

definition acquire :: "int \<Rightarrow> bool \<Rightarrow> bool \<Rightarrow> admission_controller \<Rightarrow> acquire_result \<times> admission_controller" where
  "acquire now aborted wait c0 =
     (let c = reapExpired now c0
      in if ac_closed c then (Refused closed_error, c\<lparr>ac_closedTotal := Suc (ac_closedTotal c)\<rparr>)
         else if aborted then
           (Refused (executor_admission_error Executor_Cancelled Cancelled_Before_Admission None),
            c\<lparr>ac_cancelledTotal := Suc (ac_cancelledTotal c)\<rparr>)
         else if ac_active c < int (ac_concurrency c) then
           (let (lease, c') = makeLease now 0
                  (c\<lparr>ac_active := ac_active c + 1, ac_admittedTotal := Suc (ac_admittedTotal c)\<rparr>)
            in (Admitted lease, c'))
         else if \<not> wait then
           (Refused (overloaded_error c No_Free_Slot), c\<lparr>ac_rejectedTotal := Suc (ac_rejectedTotal c)\<rparr>)
         else if ac_maxQueueSize c \<le> length (ac_waiters c) then
           (Refused (overloaded_error c Queue_Is_Full), c\<lparr>ac_rejectedTotal := Suc (ac_rejectedTotal c)\<rparr>)
         else
           (Queued (ac_next c),
            c\<lparr>ac_waiters := ac_waiters c @ [\<lparr>waiter_id = ac_next c, waiter_queuedAt = now\<rparr>],
              ac_queuedTotal := Suc (ac_queuedTotal c), ac_next := Suc (ac_next c)\<rparr>))"

text \<open>
  The contenders of a queued wait. A timeout or an abort settles the waiter only if it takes it out of the
  queue first; otherwise the recorded outcome stands and nothing changes.
\<close>

definition give_up_timeout :: "nat \<Rightarrow> admission_controller \<Rightarrow> exec_error option \<times> admission_controller" where
  "give_up_timeout w c =
     (if \<not> is_waiting w c then (None, c)
      else (Some (overloaded_error c Admission_Timed_Out),
            (remove_waiter w c)\<lparr>ac_rejectedTotal := Suc (ac_rejectedTotal c)\<rparr>))"

definition give_up_abort :: "nat \<Rightarrow> admission_controller \<Rightarrow> exec_error option \<times> admission_controller" where
  "give_up_abort w c =
     (if \<not> is_waiting w c then (None, c)
      else (Some (executor_admission_error Executor_Cancelled Cancelled_While_Queued None),
            (remove_waiter w c)\<lparr>ac_cancelledTotal := Suc (ac_cancelledTotal c)\<rparr>))"

text \<open>A grant is heard a turn after it was recorded; a shutdown in that gap wins.\<close>

definition received :: "int \<Rightarrow> ac_lease \<Rightarrow> admission_controller \<Rightarrow> (exec_error + ac_lease) \<times> admission_controller" where
  "received now lease c =
     (if \<not> ac_closed c then (Inr lease, c)
      else let c' = release now (lease_id lease) c
           in (Inl closed_error, c'\<lparr>ac_closedTotal := Suc (ac_closedTotal c')\<rparr>))"

definition cleanup :: "int \<Rightarrow> nat \<Rightarrow> admission_controller \<Rightarrow> admission_controller" where
  "cleanup now w c =
     (if is_waiting w c then (remove_waiter w c)\<lparr>ac_cancelledTotal := Suc (ac_cancelledTotal c)\<rparr>
      else case ac_outcomes c w of
          Some (Inr lease) \<Rightarrow> release now (lease_id lease) c
        | _ \<Rightarrow> c)"

record admission_snapshot =
  snap_concurrency :: nat
  snap_maxQueueSize :: nat
  snap_queueTimeoutMs :: int
  snap_retryAfterMs :: int
  snap_maxDurationMs :: "int option"
  snap_active :: int
  snap_queued :: nat
  snap_closed :: bool
  snap_totals :: "nat \<times> nat \<times> nat \<times> nat \<times> nat"
  snap_queueWaitMs :: "nat \<times> int \<times> int"

definition snapshot :: "int \<Rightarrow> admission_controller \<Rightarrow> admission_snapshot \<times> admission_controller" where
  "snapshot now c0 =
     (let c = reapExpired now c0
      in (\<lparr>snap_concurrency = ac_concurrency c, snap_maxQueueSize = ac_maxQueueSize c,
           snap_queueTimeoutMs = ac_queueTimeoutMs c, snap_retryAfterMs = ac_retryAfterMs c,
           snap_maxDurationMs = ac_maxDurationMs c, snap_active = ac_active c, snap_queued = length (ac_waiters c), snap_closed = ac_closed c,
           snap_totals = (ac_admittedTotal c, ac_queuedTotal c, ac_rejectedTotal c, ac_cancelledTotal c,
                          ac_closedTotal c),
           snap_queueWaitMs = (ac_queueWaitCount c, ac_queueWaitTotalMs c, ac_queueWaitMaxMs c)\<rparr>, c))"

text \<open>Every turn a controller can take.\<close>

inductive ac_step :: "admission_controller \<Rightarrow> admission_controller \<Rightarrow> bool" where
  acquire: "ac_step c (snd (acquire now aborted wait c))"
| release: "ac_step c (release now l c)"
| reap: "ac_step c (reapExpired now c)"
| timeout: "ac_step c (snd (give_up_timeout w c))"
| abort: "ac_step c (snd (give_up_abort w c))"
| received: "ac_step c (snd (received now lease c))"
| cleanup: "ac_step c (cleanup now w c)"
| close: "ac_step c (close c)"
| snapshot: "ac_step c (snd (snapshot now c))"

definition ac_init :: "admission_controller \<Rightarrow> bool" where
  "ac_init c \<longleftrightarrow> (\<exists>o1. new_controller o1 = Inr c)"

section \<open>Lemmas\<close>

text \<open>
  The bookkeeping invariant: as many slots in use as live leases, bounded by the concurrency; a bounded
  queue of distinct callers none of whom has been answered; nobody waits beside a free slot, and nobody
  waits after shutdown.
\<close>

definition ac_inv :: "admission_controller \<Rightarrow> bool" where
  "ac_inv c \<longleftrightarrow>
     ac_active c = int (length (ac_leases c)) \<and> distinct (map fst (ac_leases c)) \<and>
     (\<forall>l \<in> set (ac_leases c). fst l < ac_next c) \<and>
     length (ac_leases c) \<le> ac_concurrency c \<and> 1 \<le> ac_concurrency c \<and>
     length (ac_waiters c) \<le> ac_maxQueueSize c \<and> distinct (map waiter_id (ac_waiters c)) \<and>
     (\<forall>w \<in> set (ac_waiters c). waiter_id w < ac_next c \<and> ac_outcomes c (waiter_id w) = None) \<and>
     (\<forall>w. ac_next c \<le> w \<longrightarrow> ac_outcomes c w = None) \<and>
     (ac_waiters c \<noteq> [] \<longrightarrow> length (ac_leases c) = ac_concurrency c) \<and>
     (ac_closed c \<longrightarrow> ac_waiters c = [])"

text \<open>The invariant without the clause that a free slot is never idle, which holds inside a turn too.\<close>

definition ac_base :: "admission_controller \<Rightarrow> bool" where
  "ac_base c \<longleftrightarrow>
     ac_active c = int (length (ac_leases c)) \<and> distinct (map fst (ac_leases c)) \<and>
     (\<forall>l \<in> set (ac_leases c). fst l < ac_next c) \<and>
     length (ac_leases c) \<le> ac_concurrency c \<and> 1 \<le> ac_concurrency c \<and>
     length (ac_waiters c) \<le> ac_maxQueueSize c \<and> distinct (map waiter_id (ac_waiters c)) \<and>
     (\<forall>w \<in> set (ac_waiters c). waiter_id w < ac_next c \<and> ac_outcomes c (waiter_id w) = None) \<and>
     (\<forall>w. ac_next c \<le> w \<longrightarrow> ac_outcomes c w = None) \<and>
     (ac_closed c \<longrightarrow> ac_waiters c = [])"

lemma ac_inv_iff: "ac_inv c \<longleftrightarrow> ac_base c \<and> (ac_waiters c \<noteq> [] \<longrightarrow> length (ac_leases c) = ac_concurrency c)"
  by (auto simp: ac_inv_def ac_base_def)

lemma settle_simps [simp]:
  "ac_active (settle w x c) = ac_active c" "ac_leases (settle w x c) = ac_leases c"
  "ac_concurrency (settle w x c) = ac_concurrency c" "ac_maxQueueSize (settle w x c) = ac_maxQueueSize c"
  "ac_waiters (settle w x c) = ac_waiters c" "ac_closed (settle w x c) = ac_closed c"
  "ac_next (settle w x c) = ac_next c" "ac_maxDurationMs (settle w x c) = ac_maxDurationMs c"
  "ac_queueTimeoutMs (settle w x c) = ac_queueTimeoutMs c"
  by (simp_all add: settle_def)

lemma settle_outcome:
  "ac_outcomes (settle w x c) v = (if v = w \<and> ac_outcomes c w = None then Some x else ac_outcomes c v)"
  by (auto simp: settle_def)

lemma settle_mono [simp]: "ac_outcomes c v = Some x \<Longrightarrow> ac_outcomes (settle w y c) v = Some x"
  by (auto simp: settle_outcome)

lemma fold_settle_simps [simp]:
  "ac_active (fold (\<lambda>w. settle (f w) (g w)) ws c) = ac_active c"
  "ac_leases (fold (\<lambda>w. settle (f w) (g w)) ws c) = ac_leases c"
  "ac_concurrency (fold (\<lambda>w. settle (f w) (g w)) ws c) = ac_concurrency c"
  "ac_maxQueueSize (fold (\<lambda>w. settle (f w) (g w)) ws c) = ac_maxQueueSize c"
  "ac_waiters (fold (\<lambda>w. settle (f w) (g w)) ws c) = ac_waiters c"
  "ac_closed (fold (\<lambda>w. settle (f w) (g w)) ws c) = ac_closed c"
  "ac_next (fold (\<lambda>w. settle (f w) (g w)) ws c) = ac_next c"
  "ac_maxDurationMs (fold (\<lambda>w. settle (f w) (g w)) ws c) = ac_maxDurationMs c"
  "ac_queueTimeoutMs (fold (\<lambda>w. settle (f w) (g w)) ws c) = ac_queueTimeoutMs c"
  by (induction ws arbitrary: c) simp_all

lemma fold_settle_outcome:
  "v \<notin> f ` set ws \<Longrightarrow> ac_outcomes (fold (\<lambda>w. settle (f w) (g w)) ws c) v = ac_outcomes c v"
  by (induction ws arbitrary: c) (auto simp: settle_outcome)

lemma fold_settle_mono:
  "ac_outcomes c v = Some x \<Longrightarrow> ac_outcomes (fold (\<lambda>w. settle (f w) (g w)) ws c) v = Some x"
  by (induction ws arbitrary: c) simp_all

lemma prune_simps [simp]:
  "ac_active (pruneExpiredWaiters now c) = ac_active c"
  "ac_leases (pruneExpiredWaiters now c) = ac_leases c"
  "ac_concurrency (pruneExpiredWaiters now c) = ac_concurrency c"
  "ac_maxQueueSize (pruneExpiredWaiters now c) = ac_maxQueueSize c"
  "ac_closed (pruneExpiredWaiters now c) = ac_closed c"
  "ac_next (pruneExpiredWaiters now c) = ac_next c"
  "ac_maxDurationMs (pruneExpiredWaiters now c) = ac_maxDurationMs c"
  "ac_waiters (pruneExpiredWaiters now c) = filter (\<lambda>w. \<not> waiter_expired now c w) (ac_waiters c)"
  by (simp_all add: pruneExpiredWaiters_def Let_def)

lemma prune_outcome:
  "v \<notin> waiter_id ` {w \<in> set (ac_waiters c). waiter_expired now c w} \<Longrightarrow>
     ac_outcomes (pruneExpiredWaiters now c) v = ac_outcomes c v"
  by (subst pruneExpiredWaiters_def) (auto simp: Let_def fold_settle_outcome)

lemma prune_outcome_mono:
  "ac_outcomes c v = Some x \<Longrightarrow> ac_outcomes (pruneExpiredWaiters now c) v = Some x"
  by (subst pruneExpiredWaiters_def) (auto simp: Let_def fold_settle_mono)

lemma ac_base_prune: assumes "ac_base c" shows "ac_base (pruneExpiredWaiters now c)"
proof -
  have "ac_outcomes (pruneExpiredWaiters now c) (waiter_id w) = None"
    if "w \<in> set (ac_waiters c)" "\<not> waiter_expired now c w" for w
  proof -
    have "distinct (map waiter_id (ac_waiters c))" using assms by (simp add: ac_base_def)
    then have "waiter_id w \<notin> waiter_id ` {w \<in> set (ac_waiters c). waiter_expired now c w}"
      using that by (auto simp: distinct_map inj_on_def)
    then show ?thesis using assms that by (simp add: prune_outcome ac_base_def)
  qed
  moreover have "ac_outcomes (pruneExpiredWaiters now c) v = None" if "ac_next c \<le> v" for v
  proof -
    have "v \<notin> waiter_id ` {w \<in> set (ac_waiters c). waiter_expired now c w}"
      using assms that by (fastforce simp: ac_base_def)
    then show ?thesis using assms that by (simp add: prune_outcome ac_base_def)
  qed
  moreover have "length (filter (\<lambda>w. \<not> waiter_expired now c w) (ac_waiters c)) \<le> length (ac_waiters c)"
    by simp
  ultimately show ?thesis
    using assms unfolding ac_base_def
    by (auto simp: distinct_map_filter intro: le_trans [OF length_filter_le])
qed

lemma grant_slot_simps [simp]:
  "ac_active (grant_slot now w c) = ac_active c + 1"
  "ac_leases (grant_slot now w c) = ac_leases c @ [(ac_next c, map_option (\<lambda>d. now + d) (ac_maxDurationMs c))]"
  "ac_concurrency (grant_slot now w c) = ac_concurrency c"
  "ac_maxQueueSize (grant_slot now w c) = ac_maxQueueSize c"
  "ac_closed (grant_slot now w c) = ac_closed c"
  "ac_maxDurationMs (grant_slot now w c) = ac_maxDurationMs c"
  "ac_next (grant_slot now w c) = Suc (ac_next c)"
  "ac_waiters (grant_slot now w c) = ac_waiters c"
  by (simp_all add: grant_slot_def makeLease_def Let_def)

lemma grant_slot_outcome:
  "ac_outcomes (grant_slot now w c) v =
     (if v = waiter_id w \<and> ac_outcomes c v = None
      then Some (Inr \<lparr>lease_id = ac_next c, lease_waitMs = max 0 (now - waiter_queuedAt w)\<rparr>)
      else ac_outcomes c v)"
  by (auto simp: grant_slot_def makeLease_def Let_def settle_outcome)

text \<open>The fill loop, run on a queue held apart from the state, re-establishes the whole invariant.\<close>

lemma fill_loop_inv:
  "ac_base (c\<lparr>ac_waiters := ws\<rparr>) \<Longrightarrow> ac_inv (fill_loop now ws c)"
proof (induction now ws c rule: fill_loop.induct)
  case (1 now c)
  then show ?case by (simp add: ac_inv_iff)
next
  case (2 now w ws c)
  show ?case
  proof (cases "ac_active c < int (ac_concurrency c)")
    case True
    have "ac_base ((grant_slot now w c)\<lparr>ac_waiters := ws\<rparr>)"
      using "2.prems" True unfolding ac_base_def
      by (auto simp: grant_slot_outcome less_Suc_eq image_iff)
    with "2.IH" True show ?thesis by simp
  next
    case False
    with "2.prems" show ?thesis by (auto simp: ac_inv_iff ac_base_def)
  qed
qed

lemma fill_loop_frame [simp]:
  "ac_concurrency (fill_loop now ws c) = ac_concurrency c"
  "ac_maxQueueSize (fill_loop now ws c) = ac_maxQueueSize c"
  "ac_closed (fill_loop now ws c) = ac_closed c"
  by (induction now ws c rule: fill_loop.induct) simp_all

lemma fillSlots_inv: "ac_base c \<Longrightarrow> ac_inv (fillSlots now c)"
  by (simp add: fillSlots_def Let_def) (rule fill_loop_inv, drule ac_base_prune [of _ now], simp add: ac_base_def)

lemma ac_inv_base: "ac_inv c \<Longrightarrow> ac_base c"
  by (simp add: ac_inv_iff)

lemma prune_inv: "ac_inv c \<Longrightarrow> ac_inv (pruneExpiredWaiters now c)"
  by (auto simp: ac_inv_iff ac_base_prune filter_empty_conv)

lemma ac_base_fewer_leases:
  assumes "ac_base c" and "ac_active d = int (length (ac_leases d))"
    and "ac_leases d = filter P (ac_leases c)"
    and "ac_concurrency d = ac_concurrency c" "ac_maxQueueSize d = ac_maxQueueSize c"
      "ac_waiters d = ac_waiters c" "ac_outcomes d = ac_outcomes c" "ac_next d = ac_next c"
      "ac_closed d = ac_closed c"
  shows "ac_base d"
  using assms unfolding ac_base_def
  by (auto simp: distinct_map_filter intro: le_trans [OF length_filter_le])

lemma reapExpired_inv: assumes "ac_inv c" shows "ac_inv (reapExpired now c)"
proof -
  let ?c1 = "pruneExpiredWaiters now c"
  let ?c2 = "?c1\<lparr>ac_leases := filter (\<lambda>l. \<not> lease_expired now l) (ac_leases ?c1),
                  ac_active := ac_active ?c1 - int (length (filter (lease_expired now) (ac_leases ?c1)))\<rparr>"
  have c1: "ac_inv ?c1" using assms by (rule prune_inv)
  have count: "length (filter (\<lambda>l. \<not> lease_expired now l) (ac_leases c)) +
      length (filter (lease_expired now) (ac_leases c)) = length (ac_leases c)"
    using sum_length_filter_compl [of "lease_expired now" "ac_leases c"] by simp
  have "ac_active c = int (length (ac_leases c))" using assms by (simp add: ac_inv_def)
  with count have "ac_base ?c2"
    by (intro ac_base_fewer_leases [OF ac_inv_base [OF c1], where P = "\<lambda>l. \<not> lease_expired now l"]) auto
  moreover from this have "ac_closed ?c2 \<Longrightarrow> ac_inv ?c2"
    by (simp add: ac_inv_iff ac_base_def)
  ultimately show ?thesis
    using c1 fillSlots_inv by (simp add: reapExpired_def Let_def)
qed

lemma release_inv: assumes "ac_inv c" shows "ac_inv (release now l c)"
proof (cases "map_has l (ac_leases c)")
  case True
  let ?c = "c\<lparr>ac_leases := map_delete l (ac_leases c)\<rparr>"
  have d: "distinct (map fst (ac_leases c))" and act: "ac_active c = int (length (ac_leases c))"
    using assms by (auto simp: ac_inv_def)
  have pos: "0 < length (ac_leases c)" using True by (auto simp: map_has_def)
  then have len: "int (length (map_delete l (ac_leases c))) = int (length (ac_leases c)) - 1"
    using length_map_delete [OF d, of l] True by (simp add: of_nat_diff Suc_leI)
  have "ac_base (?c\<lparr>ac_active := ac_active c - 1\<rparr>)"
    using len act
    by (intro ac_base_fewer_leases [OF ac_inv_base [OF assms], where P = "\<lambda>e. fst e \<noteq> l"])
       (simp_all add: map_delete_def)
  moreover from this have "ac_closed c \<Longrightarrow> ac_inv (?c\<lparr>ac_active := ac_active c - 1\<rparr>)"
    by (simp add: ac_inv_iff ac_base_def)
  ultimately show ?thesis
    using True pos act fillSlots_inv by (auto simp: release_def releaseSlot_def Let_def)
next
  case False
  with assms show ?thesis by (simp add: release_def)
qed

lemma ac_inv_counters [simp]:
  "ac_inv (c\<lparr>ac_closedTotal := n\<rparr>) = ac_inv c" "ac_inv (c\<lparr>ac_cancelledTotal := n\<rparr>) = ac_inv c"
  "ac_inv (c\<lparr>ac_rejectedTotal := n\<rparr>) = ac_inv c"
  by (simp_all add: ac_inv_def)

lemma acquire_inv: assumes "ac_inv c" shows "ac_inv (snd (acquire now aborted wait c))"
proof -
  have "ac_inv (reapExpired now c)" using assms by (rule reapExpired_inv)
  then show ?thesis
    by (auto simp: acquire_def Let_def makeLease_def ac_inv_def less_Suc_eq)
qed

lemma remove_waiter_inv: "ac_inv c \<Longrightarrow> ac_inv (remove_waiter w c)"
  unfolding ac_inv_def remove_waiter_def
  by (auto simp: distinct_map_filter filter_empty_conv intro: le_trans [OF length_filter_le])

lemma give_up_timeout_inv: "ac_inv c \<Longrightarrow> ac_inv (snd (give_up_timeout w c))"
  by (simp add: give_up_timeout_def remove_waiter_inv)

lemma give_up_abort_inv: "ac_inv c \<Longrightarrow> ac_inv (snd (give_up_abort w c))"
  by (simp add: give_up_abort_def remove_waiter_inv)

lemma received_inv: "ac_inv c \<Longrightarrow> ac_inv (snd (received now lease c))"
  by (simp add: received_def Let_def release_inv)

lemma cleanup_inv: "ac_inv c \<Longrightarrow> ac_inv (cleanup now w c)"
  by (auto simp: cleanup_def remove_waiter_inv release_inv split: option.split sum.split)

lemma snapshot_inv: "ac_inv c \<Longrightarrow> ac_inv (snd (snapshot now c))"
  by (simp add: snapshot_def Let_def reapExpired_inv)

text \<open>Shutdown: every waiter is answered with the shutdown error, and no field but the queue changes.\<close>

lemma close_fold:
  defines "f \<equiv> (\<lambda>w d. settle (waiter_id w) (Inl closed_error) (d\<lparr>ac_closedTotal := Suc (ac_closedTotal d)\<rparr>))"
  shows "ac_active (fold f ws d) = ac_active d" "ac_leases (fold f ws d) = ac_leases d"
    "ac_concurrency (fold f ws d) = ac_concurrency d" "ac_maxQueueSize (fold f ws d) = ac_maxQueueSize d"
    "ac_waiters (fold f ws d) = ac_waiters d" "ac_closed (fold f ws d) = ac_closed d"
    "ac_next (fold f ws d) = ac_next d"
    "v \<notin> waiter_id ` set ws \<Longrightarrow> ac_outcomes (fold f ws d) v = ac_outcomes d v"
    "ac_outcomes d v = Some x \<Longrightarrow> ac_outcomes (fold f ws d) v = Some x"
    "v \<in> waiter_id ` set ws \<Longrightarrow> ac_outcomes d v = None \<Longrightarrow> ac_outcomes (fold f ws d) v = Some (Inl closed_error)"
proof -
  show "ac_active (fold f ws d) = ac_active d" "ac_leases (fold f ws d) = ac_leases d"
    "ac_concurrency (fold f ws d) = ac_concurrency d" "ac_maxQueueSize (fold f ws d) = ac_maxQueueSize d"
    "ac_waiters (fold f ws d) = ac_waiters d" "ac_closed (fold f ws d) = ac_closed d"
    "ac_next (fold f ws d) = ac_next d"
    "v \<notin> waiter_id ` set ws \<Longrightarrow> ac_outcomes (fold f ws d) v = ac_outcomes d v"
    by (induction ws arbitrary: d) (simp_all add: f_def settle_outcome)
  show mono: "ac_outcomes (fold f ws d) v = Some x" if "ac_outcomes d v = Some x" for ws d v x
    using that by (induction ws arbitrary: d) (simp_all add: f_def)
  show "ac_outcomes (fold f ws d) v = Some (Inl closed_error)"
    if "v \<in> waiter_id ` set ws" "ac_outcomes d v = None"
    using that
  proof (induction ws arbitrary: d)
    case (Cons w ws)
    show ?case
    proof (cases "v = waiter_id w")
      case True
      with Cons.prems have "ac_outcomes (f w d) v = Some (Inl closed_error)" by (simp add: f_def settle_outcome)
      from mono [OF this] show ?thesis by simp
    next
      case False
      with Cons show ?thesis by (auto simp: f_def settle_outcome)
    qed
  qed simp
qed

lemma close_inv: assumes "ac_inv c" shows "ac_inv (close c)"
proof (cases "ac_closed c")
  case False
  have "v \<notin> waiter_id ` set (ac_waiters c)" if "ac_next c \<le> v" for v
    using assms that by (fastforce simp: ac_inv_def)
  then show ?thesis using assms False by (simp add: close_def ac_inv_def close_fold)
qed (simp add: close_def assms)

lemma ac_step_inv: "ac_step c d \<Longrightarrow> ac_inv c \<Longrightarrow> ac_inv d"
  by (induction rule: ac_step.induct)
     (simp_all add: acquire_inv release_inv reapExpired_inv give_up_timeout_inv give_up_abort_inv
        received_inv cleanup_inv close_inv snapshot_inv)

lemma positiveWhole_pos: "positiveWhole v = Inr n \<Longrightarrow> 1 \<le> n"
  by (cases v) (auto simp: positiveWhole_def split: if_splits)

lemma ac_init_inv: "ac_init c \<Longrightarrow> ac_inv c"
  by (auto simp: ac_init_def new_controller_def ac_inv_def bind_sum_Inr dest!: positiveWhole_pos)

interpretation executor_pool: slot_pool ac_init ac_step ac_inv
  "\<lambda>c. nat (ac_active c)" "\<lambda>c. length (ac_waiters c)" "\<lambda>c. Some (ac_concurrency c)" ac_maxQueueSize
proof unfold_locales
  fix c n assume "ac_inv c" "Some (ac_concurrency c) = Some n"
  then show "nat (ac_active c) \<le> n" by (simp add: ac_inv_def)
next
  fix c assume "ac_inv c"
  then show "length (ac_waiters c) \<le> ac_maxQueueSize c" by (simp add: ac_inv_def)
qed (auto intro: ac_init_inv ac_step_inv)

text \<open>No turn changes a recorded outcome.\<close>

lemma fill_loop_mono: "ac_outcomes c v = Some x \<Longrightarrow> ac_outcomes (fill_loop now ws c) v = Some x"
  by (induction now ws c rule: fill_loop.induct) (auto simp: grant_slot_outcome)

lemma fillSlots_mono: "ac_outcomes c v = Some x \<Longrightarrow> ac_outcomes (fillSlots now c) v = Some x"
  by (simp add: fillSlots_def Let_def fill_loop_mono prune_outcome_mono)

lemma release_mono: "ac_outcomes c v = Some x \<Longrightarrow> ac_outcomes (release now l c) v = Some x"
  by (simp add: release_def releaseSlot_def Let_def fillSlots_mono)

lemma reapExpired_mono: "ac_outcomes c v = Some x \<Longrightarrow> ac_outcomes (reapExpired now c) v = Some x"
  by (simp add: reapExpired_def Let_def fillSlots_mono prune_outcome_mono)

lemma ac_step_mono: "ac_step c d \<Longrightarrow> ac_outcomes c v = Some x \<Longrightarrow> ac_outcomes d v = Some x"
proof (induction rule: ac_step.induct)
  case (acquire c now aborted wait)
  then show ?case
    using reapExpired_mono [of c v x now] by (simp add: acquire_def Let_def makeLease_def)
next
  case (cleanup c now w)
  then show ?case
    by (auto simp: cleanup_def remove_waiter_def release_mono split: option.split sum.split)
qed (simp_all add: release_mono reapExpired_mono give_up_timeout_def give_up_abort_def remove_waiter_def
      received_def Let_def close_def close_fold snapshot_def)

text \<open>The fill loop serves a prefix of the queue, as long as a slot is free.\<close>

lemma fill_loop_keeps_leases: "set (ac_leases c) \<subseteq> set (ac_leases (fill_loop now ws c))"
proof (induction now ws c rule: fill_loop.induct)
  case (2 now w ws c)
  then show ?case by (auto split: if_splits)
qed simp

lemma fill_loop_prefix:
  assumes "ac_base (c\<lparr>ac_waiters := ws\<rparr>)"
  defines "k \<equiv> min (length ws) (ac_concurrency c - length (ac_leases c))"
  shows "ac_waiters (fill_loop now ws c) = drop k ws \<and>
    (\<forall>w \<in> set (take k ws). \<exists>l. ac_outcomes (fill_loop now ws c) (waiter_id w) = Some (Inr l) \<and>
        map_has (lease_id l) (ac_leases (fill_loop now ws c)))"
  using assms(1) unfolding k_def
proof (induction now ws c rule: fill_loop.induct)
  case (2 now w ws c)
  show ?case
  proof (cases "ac_active c < int (ac_concurrency c)")
    case True
    let ?g = "grant_slot now w c"
    have base: "ac_base (?g\<lparr>ac_waiters := ws\<rparr>)"
      using "2.prems" True unfolding ac_base_def by (auto simp: grant_slot_outcome less_Suc_eq image_iff)
    have free: "length (ac_leases c) < ac_concurrency c"
      using True "2.prems" by (simp add: ac_base_def)
    then have k: "min (length (w # ws)) (ac_concurrency c - length (ac_leases c)) =
        Suc (min (length ws) (ac_concurrency ?g - length (ac_leases ?g)))"
      by simp
    have "ac_outcomes ?g (waiter_id w) =
        Some (Inr \<lparr>lease_id = ac_next c, lease_waitMs = max 0 (now - waiter_queuedAt w)\<rparr>)"
      using "2.prems" by (simp add: ac_base_def grant_slot_outcome)
    moreover have "map_has (ac_next c) (ac_leases (fill_loop now ws ?g))"
      using fill_loop_keeps_leases [of ?g now ws] by (force simp: map_has_def)
    ultimately have "\<exists>l. ac_outcomes (fill_loop now ws ?g) (waiter_id w) = Some (Inr l) \<and>
        map_has (lease_id l) (ac_leases (fill_loop now ws ?g))"
      using fill_loop_mono by fastforce
    with "2.IH" [OF True base] True show ?thesis by (simp only: k fill_loop.simps if_True) simp
  next
    case False
    then have "ac_concurrency c - length (ac_leases c) = 0"
      using "2.prems" by (simp add: ac_base_def)
    with False show ?thesis by simp
  qed
qed simp

lemma fill_loop_new_leases:
  "l \<in> set (ac_leases (fill_loop now ws c)) \<Longrightarrow> l \<in> set (ac_leases c) \<or> ac_next c \<le> fst l"
proof (induction now ws c rule: fill_loop.induct)
  case (2 now w ws c)
  then show ?case by (fastforce split: if_splits)
qed simp

lemma release_gone: assumes "ac_inv c" shows "\<not> map_has l (ac_leases (release now l c))"
proof (cases "map_has l (ac_leases c)")
  case True
  then have "l < ac_next c" using assms by (auto simp: ac_inv_def map_has_def)
  then show ?thesis
    by (auto simp: release_def releaseSlot_def fillSlots_def Let_def map_has_def
          dest!: fill_loop_new_leases)
qed (simp add: release_def)

text \<open>After shutdown nothing is granted.\<close>

lemma closed_waiters: "ac_inv c \<Longrightarrow> ac_closed c \<Longrightarrow> ac_waiters c = []"
  by (simp add: ac_inv_def)

lemma reapExpired_closed:
  "ac_closed c \<Longrightarrow> ac_closed (reapExpired now c) \<and> set (ac_leases (reapExpired now c)) \<subseteq> set (ac_leases c)"
  by (auto simp: reapExpired_def Let_def)

lemma release_closed:
  "ac_closed c \<Longrightarrow> ac_closed (release now l c) \<and> set (ac_leases (release now l c)) \<subseteq> set (ac_leases c)"
  by (auto simp: release_def releaseSlot_def Let_def)

lemma ac_step_closed:
  "ac_step c d \<Longrightarrow> ac_closed c \<Longrightarrow> ac_closed d \<and> set (ac_leases d) \<subseteq> set (ac_leases c)"
proof (induction rule: ac_step.induct)
  case (cleanup c now w)
  then show ?case
    by (auto simp: cleanup_def remove_waiter_def release_closed split: option.split sum.split)
next
  case (received c now lease)
  then show ?case by (simp add: received_def Let_def release_closed)
qed (simp_all add: acquire_def Let_def reapExpired_closed release_closed give_up_timeout_def give_up_abort_def
      remove_waiter_def close_def snapshot_def)

interpretation executor_shutdown: shutdown_pool ac_init ac_step ac_inv
  "\<lambda>c. nat (ac_active c)" "\<lambda>c. length (ac_waiters c)" "\<lambda>c. Some (ac_concurrency c)" ac_maxQueueSize
  ac_closed "\<lambda>c. set (ac_leases c)"
  by unfold_locales (auto dest: ac_step_closed simp: closed_waiters)

text \<open>A concrete run: one slot, one caller served and one waiting; and the same controller shut down.\<close>

definition demo_controller :: admission_controller where
  "demo_controller =
     (case new_controller \<lparr>opt_concurrency = Finite 1, opt_maxQueueSize = Finite 2,
        opt_queueTimeoutMs = Finite 10, opt_retryAfterMs = None, opt_maxDurationMs = None\<rparr> of
        Inr c \<Rightarrow> c | Inl _ \<Rightarrow> undefined)"

definition demo_busy :: admission_controller where
  "demo_busy = snd (acquire 0 False True (snd (acquire 0 False True demo_controller)))"

lemmas demo_eval = demo_busy_def demo_controller_def new_controller_def positiveWhole_def nonNegativeWhole_def
  acquire_def reapExpired_def pruneExpiredWaiters_def makeLease_def Let_def

lemma demo_controller_init: "ac_init demo_controller"
  unfolding ac_init_def
  by (rule exI [where x = "\<lparr>opt_concurrency = Finite 1, opt_maxQueueSize = Finite 2,
        opt_queueTimeoutMs = Finite 10, opt_retryAfterMs = None, opt_maxDurationMs = None\<rparr>"])
     (simp add: demo_eval)

lemma demo_busy_reachable: "reachable ac_init ac_step demo_busy"
  unfolding demo_busy_def
  by (rule reachable.step, rule reachable.step, rule reachable.start, rule demo_controller_init)
     (rule ac_step.acquire)+

lemma demo_busy_waiters: "ac_waiters demo_busy = [\<lparr>waiter_id = 1, waiter_queuedAt = 0\<rparr>]"
  by (simp add: demo_eval)

lemma demo_closed_reachable: "reachable ac_init ac_step (close demo_busy)"
  by (rule reachable.step [OF demo_busy_reachable ac_step.close])

section \<open>Properties\<close>

text \<open>
  C33. In every reachable state of an admission controller the slots in use are exactly the live leases,
  never more than \<^verbatim>\<open>concurrency\<close> and never negative; the queue holds at most
  \<^verbatim>\<open>maxQueueSize\<close> callers; and no caller waits while a slot is free (no lost wake-up).
\<close>

theorem executor_capacity:
  assumes "reachable ac_init ac_step c"
  shows "ac_active c = int (length (ac_leases c)) \<and> nat (ac_active c) \<le> ac_concurrency c \<and>
    length (ac_waiters c) \<le> ac_maxQueueSize c \<and>
    (ac_waiters c \<noteq> [] \<longrightarrow> ac_active c = int (ac_concurrency c))"
proof -
  have "ac_inv c" using assms by (rule executor_pool.reachable_invar)
  then have "ac_active c = int (length (ac_leases c))"
    "ac_waiters c \<noteq> [] \<longrightarrow> ac_active c = int (ac_concurrency c)"
    by (auto simp: ac_inv_def)
  with executor_pool.never_over_capacity [OF assms] show ?thesis by simp
qed

theorem executor_capacity_witness: "ac_waiters demo_busy \<noteq> [] \<and> ac_active demo_busy = int (ac_concurrency demo_busy)"
  using executor_capacity [OF demo_busy_reachable] demo_busy_waiters by simp

text \<open>
  A queued caller is answered once: whatever turn follows, an outcome recorded for a waiter (a lease,
  or a refusal) is never replaced, and in a reachable state nobody still in the queue has an outcome.
\<close>

theorem executor_settled_once:
  assumes "reachable ac_init ac_step c" and "ac_step c d"
  shows "(\<forall>w x. ac_outcomes c w = Some x \<longrightarrow> ac_outcomes d w = Some x) \<and>
    (\<forall>w. is_waiting w d \<longrightarrow> ac_outcomes d w = None)"
proof -
  have "ac_inv d" using executor_pool.reachable_invar assms by (blast intro: reachable.step)
  then have "\<forall>w. is_waiting w d \<longrightarrow> ac_outcomes d w = None" by (auto simp: ac_inv_def is_waiting_def)
  with assms(2) show ?thesis using ac_step_mono by blast
qed

theorem executor_settled_once_witness:
  "ac_outcomes (release 5 0 (close demo_busy)) 1 = Some (Inl closed_error)"
proof -
  have "ac_outcomes (close demo_busy) 1 = Some (Inl closed_error)"
    by (simp add: demo_eval close_def settle_def)
  with executor_settled_once [OF demo_closed_reachable ac_step.release, of 5 0] show ?thesis by blast
qed

text \<open>
  Freed slots go to the queue in arrival order: \<^verbatim>\<open>fillSlots\<close> answers exactly the
  first callers whose wait has not expired, as many as there are free slots, each with a lease that is live
  afterwards, and leaves the others queued in their order.
\<close>

theorem fillSlots_fifo:
  assumes "reachable ac_init ac_step c"
  shows "let live = filter (\<lambda>w. \<not> waiter_expired now c w) (ac_waiters c);
             k = min (length live) (ac_concurrency c - length (ac_leases c));
             d = fillSlots now c
    in ac_waiters d = drop k live \<and>
       (\<forall>w \<in> set (take k live). \<exists>l. ac_outcomes d (waiter_id w) = Some (Inr l) \<and>
          map_has (lease_id l) (ac_leases d))"
proof -
  let ?p = "pruneExpiredWaiters now c"
  have "ac_base ?p"
    using executor_pool.reachable_invar [OF assms(1)] by (intro ac_base_prune ac_inv_base)
  then have "ac_base (?p\<lparr>ac_waiters := ac_waiters ?p\<rparr>)" by (simp add: ac_base_def)
  from fill_loop_prefix [OF this, of now] show ?thesis
    by (simp add: fillSlots_def Let_def)
qed

theorem fillSlots_fifo_witness: "ac_waiters (fillSlots 1 demo_busy) = drop 0 [\<lparr>waiter_id = 1, waiter_queuedAt = 0\<rparr>]"
proof -
  have "ac_concurrency demo_busy = 1" "length (ac_leases demo_busy) = 1" "ac_queueTimeoutMs demo_busy = 10"
    by (simp_all add: demo_eval)
  with fillSlots_fifo [OF demo_busy_reachable, of 1] show ?thesis
    by (simp add: Let_def demo_busy_waiters waiter_expired_def)
qed

text \<open>
  C34. Shutdown is final: once closed, every later sequence of turns keeps the controller closed and its
  queue empty and grants no lease that was not live before it; a new caller is refused with the non-retryable shutdown error, and a grant heard after
  shutdown is given back.
\<close>

theorem executor_shutdown_final:
  assumes "reachable ac_init ac_step c" and "ac_closed c"
  shows "(reachable (\<lambda>x. x = c) ac_step d \<longrightarrow>
      ac_closed d \<and> set (ac_leases d) \<subseteq> set (ac_leases c) \<and> length (ac_waiters d) = 0) \<and>
    fst (acquire now aborted wait c) = Refused closed_error \<and> \<not> err_retryable closed_error \<and>
    fst (received now lease c) = Inl closed_error \<and>
    \<not> map_has (lease_id lease) (ac_leases (snd (received now lease c)))"
proof -
  have "\<not> map_has (lease_id lease) (ac_leases (release now (lease_id lease) c))"
    using executor_pool.reachable_invar [OF assms(1)] by (rule release_gone)
  with assms(2) show ?thesis
    using executor_shutdown.shutdown_final [OF assms, of d] reapExpired_closed [of c now]
    by (simp add: acquire_def Let_def received_def closed_error_def executor_admission_error_def)
qed

theorem executor_shutdown_final_witness:
  "ac_closed (close demo_busy) \<and> fst (acquire 0 False True (close demo_busy)) = Refused closed_error"
proof -
  have "ac_closed (close demo_busy)" by (simp add: close_def close_fold)
  with executor_shutdown_final [OF demo_closed_reachable this, of "close demo_busy" 0 False True]
  show ?thesis by blast
qed

text \<open>
  Releasing is idempotent: after a lease is released, releasing it again, at any later time, changes
  nothing, so no slot is given back twice.
\<close>

lemma release_idempotent:
  assumes "reachable ac_init ac_step c"
  shows "release later l (release now l c) = release now l c"
  using release_gone [OF executor_pool.reachable_invar [OF assms], of l now]
  by (simp add: release_def)

end
