(* ===== verification/Text_Clipping.thy ===== *)
theory Text_Clipping
  imports Connecta_Prelude
begin

text \<open>
  Text that is cut before an agent reads it: \<^verbatim>\<open>utf8Length\<close> of
  \<^verbatim>\<open>src/bytes.ts\<close> and the clamps of \<^verbatim>\<open>src/errors.ts\<close>
  (\<^verbatim>\<open>tokenPrefix\<close>, \<^verbatim>\<open>boundedEchoText\<close>,
  \<^verbatim>\<open>clampedRecordName\<close>, \<^verbatim>\<open>clipText\<close>,
  \<^verbatim>\<open>clipSerialized\<close>), over a model of the platform's
  \<^verbatim>\<open>TextEncoder\<close>, \<^verbatim>\<open>TextDecoder\<close>,
  \<^verbatim>\<open>trimEnd\<close> and \<^verbatim>\<open>JSON.stringify\<close> of a string.
\<close>

section \<open>The platform's text functions\<close>

text \<open>\<^verbatim>\<open>TextEncoder.encode\<close>: the bytes of a string; a lone surrogate becomes U+FFFD.\<close>

definition utf8_unit :: "code_unit \<Rightarrow> nat list" where
  "utf8_unit c =
     (let n = unat c in
      if n < 0x80 then [n]
      else if n < 0x800 then [0xc0 + n div 64, 0x80 + n mod 64]
      else if high_surrogate c \<or> low_surrogate c then [0xef, 0xbf, 0xbd]
      else [0xe0 + n div 4096, 0x80 + n div 64 mod 64, 0x80 + n mod 64])"

definition pair_value :: "code_unit \<Rightarrow> code_unit \<Rightarrow> nat" where
  "pair_value c d = 0x10000 + (unat c - 0xd800) * 1024 + (unat d - 0xdc00)"

definition utf8_pair :: "code_unit \<Rightarrow> code_unit \<Rightarrow> nat list" where
  "utf8_pair c d =
     (let n = pair_value c d in
      [0xf0 + n div 262144, 0x80 + n div 4096 mod 64, 0x80 + n div 64 mod 64, 0x80 + n mod 64])"

fun utf8 :: "jstr \<Rightarrow> nat list" where
  "utf8 [] = []"
| "utf8 [c] = utf8_unit c"
| "utf8 (c # d # cs) =
     (if high_surrogate c \<and> low_surrogate d then utf8_pair c d @ utf8 cs
      else utf8_unit c @ utf8 (d # cs))"

text \<open>
  \<^verbatim>\<open>TextDecoder.decode\<close> on well-formed bytes, the only ones the clamps hand it; any other
  byte is replaced. A leading byte order mark is dropped.
\<close>

definition continuation :: "nat \<Rightarrow> bool" where
  "continuation b \<longleftrightarrow> 0x80 \<le> b \<and> b < 0xc0"

definition replacement :: code_unit where
  "replacement = 0xfffd"

fun decode_bytes :: "nat list \<Rightarrow> jstr" where
  "decode_bytes [] = []"
| "decode_bytes (a # bs) =
     (if a < 0x80 then of_nat a # decode_bytes bs
      else case bs of
        b # cs \<Rightarrow>
          if 0xc0 \<le> a \<and> a < 0xe0 \<and> continuation b
          then of_nat ((a - 0xc0) * 64 + (b - 0x80)) # decode_bytes cs
          else (case cs of
            c # ds \<Rightarrow>
              if 0xe0 \<le> a \<and> a < 0xf0 \<and> continuation b \<and> continuation c
              then of_nat ((a - 0xe0) * 4096 + (b - 0x80) * 64 + (c - 0x80)) # decode_bytes ds
              else (case ds of
                d # es \<Rightarrow>
                  if 0xf0 \<le> a \<and> a < 0xf5 \<and> continuation b \<and> continuation c \<and> continuation d
                  then (let n = (a - 0xf0) * 262144 + (b - 0x80) * 4096 + (c - 0x80) * 64 + (d - 0x80) - 0x10000
                        in of_nat (0xd800 + n div 1024) # of_nat (0xdc00 + n mod 1024) # decode_bytes es)
                  else replacement # decode_bytes bs
              | [] \<Rightarrow> replacement # decode_bytes bs)
          | [] \<Rightarrow> replacement # decode_bytes bs)
      | [] \<Rightarrow> [replacement])"

definition utf8_decode :: "nat list \<Rightarrow> jstr" where
  "utf8_decode bs = (case decode_bytes bs of [] \<Rightarrow> [] | c # s \<Rightarrow> if c = 0xfeff then s else c # s)"

definition js_space :: "code_unit \<Rightarrow> bool" where
  "js_space c \<longleftrightarrow>
     (0x09 \<le> c \<and> c \<le> 0x0d) \<or> c = 0x20 \<or> c = 0xa0 \<or> c = 0x1680 \<or> (0x2000 \<le> c \<and> c \<le> 0x200a) \<or>
     c = 0x2028 \<or> c = 0x2029 \<or> c = 0x202f \<or> c = 0x205f \<or> c = 0x3000 \<or> c = 0xfeff"

definition trimEnd :: "jstr \<Rightarrow> jstr" where
  "trimEnd s = rev (dropWhile js_space (rev s))"

text \<open>The body of \<^verbatim>\<open>JSON.stringify\<close> of a string, between its quotes.\<close>

definition unicode_escape :: "code_unit \<Rightarrow> jstr" where
  "unicode_escape c =
     (let n = unat c in [0x5c, 0x75, hex_digit (n div 4096), hex_digit (n div 256 mod 16),
        hex_digit (n div 16 mod 16), hex_digit (n mod 16)])"

definition escape_unit :: "code_unit \<Rightarrow> jstr" where
  "escape_unit c =
     (if c = 0x22 then [0x5c, 0x22] else if c = 0x5c then [0x5c, 0x5c]
      else if c = 0x08 then [0x5c, 0x62] else if c = 0x09 then [0x5c, 0x74]
      else if c = 0x0a then [0x5c, 0x6e] else if c = 0x0c then [0x5c, 0x66]
      else if c = 0x0d then [0x5c, 0x72]
      else if c < 0x20 \<or> high_surrogate c \<or> low_surrogate c then unicode_escape c
      else [c])"

fun quote_body :: "jstr \<Rightarrow> jstr" where
  "quote_body [] = []"
| "quote_body [c] = escape_unit c"
| "quote_body (c # d # cs) =
     (if high_surrogate c \<and> low_surrogate d then c # d # quote_body cs
      else escape_unit c @ quote_body (d # cs))"

definition json_quote :: "jstr \<Rightarrow> jstr" where
  "json_quote s = [0x22] @ quote_body s @ [0x22]"

section \<open>Operations\<close>

text \<open>\<^verbatim>\<open>utf8Length\<close>; it stops early once the limit is passed.\<close>

fun utf8Length_loop :: "nat option \<Rightarrow> nat \<Rightarrow> jstr \<Rightarrow> nat" where
  "utf8Length_loop limit bytes [] = bytes"
| "utf8Length_loop limit bytes (c # cs) =
     (let (bytes', rest) =
        (if c < 0x80 then (bytes + 1, cs)
         else if c < 0x800 then (bytes + 2, cs)
         else if 0xd800 \<le> c \<and> c \<le> 0xdbff \<and> cs \<noteq> [] \<and> 0xdc00 \<le> hd cs \<and> hd cs \<le> 0xdfff
           then (bytes + 4, tl cs)
         else (bytes + 3, cs))
      in if (case limit of None \<Rightarrow> False | Some m \<Rightarrow> m < bytes') then bytes'
         else utf8Length_loop limit bytes' rest)"

definition utf8Length :: "jstr \<Rightarrow> nat option \<Rightarrow> nat" where
  "utf8Length v limit = utf8Length_loop limit 0 v"

text \<open>\<^verbatim>\<open>TOKEN_END\<close>, read of a code unit and of a byte.\<close>

definition token_end_unit :: "code_unit \<Rightarrow> bool" where
  "token_end_unit c \<longleftrightarrow> c \<in> {0x09, 0x0a, 0x0d, 0x20, 0x22, 0x3c, 0x3e, 0x60}"

definition token_end_byte :: "nat \<Rightarrow> bool" where
  "token_end_byte b \<longleftrightarrow> b \<in> {0x09, 0x0a, 0x0d, 0x20, 0x22, 0x3c, 0x3e, 0x60}"

text \<open>The backward scan every clamp makes: the largest index at most \<open>i\<close> whose element ends a token, or 0.\<close>

fun back_off :: "('a \<Rightarrow> bool) \<Rightarrow> 'a list \<Rightarrow> nat \<Rightarrow> nat" where
  "back_off stop xs 0 = 0"
| "back_off stop xs (Suc i) = (if stop (xs ! Suc i) then Suc i else back_off stop xs i)"

definition tokenPrefix :: "jstr \<Rightarrow> int \<Rightarrow> jstr" where
  "tokenPrefix v units =
     (if int (length v) \<le> units then v
      else trimEnd (take (back_off token_end_unit v (nat (max 0 units))) v))"

definition ellipsis :: jstr where
  "ellipsis = [0x2026]"

definition boundedEchoText :: "jstr \<Rightarrow> int \<Rightarrow> jstr" where
  "boundedEchoText v maxBytes =
     (let bytes = utf8 v in
      if int (length bytes) \<le> maxBytes then v
      else let e = back_off token_end_byte bytes (nat (max 0 maxBytes))
           in trimEnd (utf8_decode (take e bytes)) @ ellipsis)"

definition clampedRecordName :: "jstr \<Rightarrow> int \<Rightarrow> jstr" where
  "clampedRecordName v maxBytes =
     (let bytes = utf8 v in
      if int (length bytes) \<le> maxBytes then v
      else let e = back_off (\<lambda>b. \<not> continuation b) bytes (nat (max 0 maxBytes))
           in utf8_decode (take e bytes) @ ellipsis)"

definition clipped :: jstr where
  "clipped = ellipsis @ lit '' [truncated]''"

definition clipText :: "jstr \<Rightarrow> int \<Rightarrow> jstr" where
  "clipText v maxBytes =
     (let bytes = utf8 v in
      if int (length bytes) \<le> maxBytes then v
      else let e = back_off token_end_byte bytes (nat (max 0 (maxBytes - int (length (utf8 clipped)))))
           in trimEnd (utf8_decode (take e bytes)) @ (if 0 < e then [0x20] else []) @ clipped)"

text \<open>\<^verbatim>\<open>clipSerialized\<close>: a binary search for the longest prefix whose marked JSON string fits.\<close>

definition marked :: "jstr \<Rightarrow> jstr" where
  "marked kept = kept @ (if kept \<noteq> [] then [0x20] else []) @ clipped"

function clip_search :: "jstr \<Rightarrow> nat \<Rightarrow> nat \<Rightarrow> nat \<Rightarrow> nat" where
  "clip_search v maxChars low high =
     (if low < high then
        let mid = (low + high + 1) div 2 in
        if length (json_quote (marked (take mid v))) \<le> maxChars then clip_search v maxChars mid high
        else clip_search v maxChars low (mid - 1)
      else low)"
  by pat_completeness auto
termination
  by (relation "measure (\<lambda>(v, m, low, high). high - low)") auto

declare clip_search.simps [simp del]

definition clipSerialized :: "jstr \<Rightarrow> nat \<Rightarrow> jstr" where
  "clipSerialized v maxChars =
     (if length (json_quote v) \<le> maxChars then v
      else marked (tokenPrefix v (int (clip_search v maxChars 0 (min (length v) maxChars)))))"

section \<open>Lemmas\<close>

lemma utf8_unit_nonempty [simp]: "utf8_unit c \<noteq> []"
  by (simp add: utf8_unit_def Let_def)

lemma utf8_ascii: "c < 0x80 \<Longrightarrow> utf8_unit c = [unat c]"
  by (simp add: utf8_unit_def Let_def word_less_nat_alt)

lemma utf8_Cons:
  "utf8 (c # cs) =
     (case cs of d # ds \<Rightarrow> if high_surrogate c \<and> low_surrogate d then utf8_pair c d @ utf8 ds else utf8_unit c @ utf8 cs
      | [] \<Rightarrow> utf8_unit c)"
  by (cases cs) simp_all

text \<open>A string splits at any unit that is not the low half of a pair.\<close>

lemma utf8_append:
  "r = [] \<or> \<not> low_surrogate (hd r) \<Longrightarrow> utf8 (p @ r) = utf8 p @ utf8 r"
proof (induction p rule: utf8.induct)
  case (2 c)
  then show ?case by (cases r) auto
qed auto

lemma ascii_not_surrogate: "c < 0x80 \<Longrightarrow> \<not> low_surrogate c \<and> \<not> high_surrogate c"
  by (auto simp: low_surrogate_def high_surrogate_def word_less_nat_alt word_le_nat_alt)

lemma utf8_unit_high: "b \<in> set (utf8_unit c) \<Longrightarrow> b < 0x80 \<Longrightarrow> c < 0x80 \<and> b = unat c"
  by (auto simp: utf8_unit_def Let_def word_less_nat_alt split: if_splits)

lemma utf8_pair_high: "b \<in> set (utf8_pair c d) \<Longrightarrow> 0x80 \<le> b"
  by (auto simp: utf8_pair_def Let_def)

text \<open>An ASCII byte of the encoding is an ASCII unit of the string, and a cut before it splits no code point.\<close>

lemma utf8_cut_ascii:
  assumes "i < length (utf8 v)" "utf8 v ! i < 0x80"
  shows "\<exists>p c r. v = p @ c # r \<and> utf8 p = take i (utf8 v) \<and> c < 0x80 \<and> unat c = utf8 v ! i"
  using assms
proof (induction v arbitrary: i rule: utf8.induct)
  case (2 c)
  then have "c < 0x80 \<and> utf8_unit c ! i = unat c"
    using utf8_unit_high nth_mem by (metis utf8.simps(2))
  moreover from this 2 have "i = 0" by (simp add: utf8_ascii)
  ultimately show ?case by (intro exI [of _ "[]"]) (simp add: utf8_ascii)
next
  case (3 c d cs)
  show ?case
  proof (cases "high_surrogate c \<and> low_surrogate d")
    case True
    let ?h = "utf8_pair c d"
    have "length ?h \<le> i"
    proof (rule ccontr)
      assume "\<not> length ?h \<le> i"
      then have "utf8 (c # d # cs) ! i \<in> set ?h" using True by (simp add: nth_append)
      with utf8_pair_high 3(4) show False by fastforce
    qed
    then have "i - length ?h < length (utf8 cs)" "utf8 (c # d # cs) ! i = utf8 cs ! (i - length ?h)"
      using True 3(3) by (auto simp: nth_append)
    with 3(1) [OF True, of "i - length ?h"] 3(4) obtain p e r where
      "cs = p @ e # r" "utf8 p = take (i - length ?h) (utf8 cs)" "e < 0x80" "unat e = utf8 (c # d # cs) ! i"
      by metis
    with True \<open>length ?h \<le> i\<close> show ?thesis
      by (intro exI [of _ "c # d # p"] exI [of _ e] exI [of _ r]) simp
  next
    case False
    let ?h = "utf8_unit c"
    have e: "utf8 (c # d # cs) = ?h @ utf8 (d # cs)" using False by auto
    show ?thesis
    proof (cases "i < length ?h")
      case True
      then have "?h ! i = utf8 (c # d # cs) ! i" unfolding e by (simp only: nth_append if_True)
      then have small: "c < 0x80" using utf8_unit_high [OF nth_mem [OF True]] 3(4) by simp
      with True have "i = 0" by (simp add: utf8_ascii)
      with small show ?thesis by (intro exI [of _ "[]"]) (simp add: utf8_ascii e del: utf8.simps(3))
    next
      case in_rest: False
      then have "i - length ?h < length (utf8 (d # cs))" "utf8 (c # d # cs) ! i = utf8 (d # cs) ! (i - length ?h)"
        using 3(3) unfolding e by (simp_all only: nth_append length_append if_False)
      with 3(2) [OF False, of "i - length ?h"] 3(4) obtain p e r where
        split: "d # cs = p @ e # r" "utf8 p = take (i - length ?h) (utf8 (d # cs))" "e < 0x80"
          "unat e = utf8 (c # d # cs) ! i"
        by metis
      have "utf8 (c # p) = ?h @ utf8 p"
        using False split(1) by (cases p) auto
      with in_rest split(2) have "utf8 (c # p) = take i (utf8 (c # d # cs))" unfolding e by simp
      with split show ?thesis by (metis append_Cons)
    qed
  qed
qed simp

text \<open>The counting loop agrees with the encoder.\<close>

lemma length_utf8_unit:
  "length (utf8_unit c) = (if c < 0x80 then 1 else if c < 0x800 then 2 else 3)"
  by (simp add: utf8_unit_def Let_def word_less_nat_alt)

lemma length_utf8_pair [simp]: "length (utf8_pair c d) = 4"
  by (simp add: utf8_pair_def Let_def)

lemma length_utf8_Cons:
  "length (utf8 (c # cs)) =
     (if c < 0x80 then 1 + length (utf8 cs)
      else if c < 0x800 then 2 + length (utf8 cs)
      else if 0xd800 \<le> c \<and> c \<le> 0xdbff \<and> cs \<noteq> [] \<and> 0xdc00 \<le> hd cs \<and> hd cs \<le> 0xdfff
        then 4 + length (utf8 (tl cs))
      else 3 + length (utf8 cs))"
  by (cases cs)
     (auto simp: length_utf8_unit high_surrogate_def low_surrogate_def word_less_nat_alt word_le_nat_alt)

lemma utf8Length_loop_None: "utf8Length_loop None n v = n + length (utf8 v)"
proof (induction "None :: nat option" n v rule: utf8Length_loop.induct)
  case (2 bytes c cs)
  then show ?case by (auto simp: length_utf8_Cons Let_def)
qed simp

lemma utf8Length_loop_Some:
  "n \<le> m \<Longrightarrow> (utf8Length_loop (Some m) n v \<le> m \<longleftrightarrow> n + length (utf8 v) \<le> m) \<and>
     (n + length (utf8 v) \<le> m \<longrightarrow> utf8Length_loop (Some m) n v = n + length (utf8 v))"
proof (induction "Some m" n v rule: utf8Length_loop.induct)
  case (2 bytes c cs)
  then show ?case by (auto simp: length_utf8_Cons Let_def)
qed simp

text \<open>Decoding what was encoded gives the string back, with each lone surrogate replaced.\<close>

fun well_formed :: "jstr \<Rightarrow> jstr" where
  "well_formed [] = []"
| "well_formed [c] = (if high_surrogate c \<or> low_surrogate c then [replacement] else [c])"
| "well_formed (c # d # cs) =
     (if high_surrogate c \<and> low_surrogate d then c # d # well_formed cs
      else (if high_surrogate c \<or> low_surrogate c then replacement else c) # well_formed (d # cs))"

lemma decode_ascii [simp]: "a < 0x80 \<Longrightarrow> decode_bytes (a # bs) = of_nat a # decode_bytes bs"
  by simp

lemma decode_two:
  "0xc0 \<le> a \<Longrightarrow> a < 0xe0 \<Longrightarrow> continuation b \<Longrightarrow>
   decode_bytes (a # b # bs) = of_nat ((a - 0xc0) * 64 + (b - 0x80)) # decode_bytes bs"
  by (simp add: continuation_def)

lemma decode_three:
  "0xe0 \<le> a \<Longrightarrow> a < 0xf0 \<Longrightarrow> continuation b \<Longrightarrow> continuation c \<Longrightarrow>
   decode_bytes (a # b # c # bs) =
     of_nat ((a - 0xe0) * 4096 + (b - 0x80) * 64 + (c - 0x80)) # decode_bytes bs"
  by (simp add: continuation_def)

lemma decode_four:
  "0xf0 \<le> a \<Longrightarrow> a < 0xf5 \<Longrightarrow> continuation b \<Longrightarrow> continuation c \<Longrightarrow> continuation d \<Longrightarrow>
   decode_bytes (a # b # c # d # bs) =
     (let n = (a - 0xf0) * 262144 + (b - 0x80) * 4096 + (c - 0x80) * 64 + (d - 0x80) - 0x10000
      in of_nat (0xd800 + n div 1024) # of_nat (0xdc00 + n mod 1024) # decode_bytes bs)"
  by (simp add: continuation_def)

declare decode_bytes.simps(2) [simp del]

lemma unat_code_unit: "unat (c :: code_unit) < 65536"
  using unsigned_less [of c] by simp

lemma base64_three: "n div 4096 * 4096 + n div 64 mod 64 * 64 + n mod 64 = (n :: nat)"
proof -
  have "n div 4096 = n div 64 div 64" by (simp add: div_mult2_eq [symmetric])
  moreover have "n div 64 div 64 * 64 + n div 64 mod 64 = n div 64" by simp
  moreover have "n div 64 * 64 + n mod 64 = n" by simp
  ultimately show ?thesis by linarith
qed

lemma base64_four: "n div 262144 * 262144 + n div 4096 mod 64 * 4096 + n div 64 mod 64 * 64 + n mod 64 = (n :: nat)"
proof -
  have "n div 262144 = n div 4096 div 64" by (simp add: div_mult2_eq [symmetric])
  moreover have "n div 4096 div 64 * 64 + n div 4096 mod 64 = n div 4096" by simp
  ultimately show ?thesis using base64_three [of n] by linarith
qed

lemma decode_unit:
  "decode_bytes (utf8_unit c @ bs) =
     (if high_surrogate c \<or> low_surrogate c then replacement else c) # decode_bytes bs"
proof -
  let ?n = "unat c"
  consider "?n < 0x80" | "0x80 \<le> ?n" "?n < 0x800" | "0x800 \<le> ?n" by linarith
  then show ?thesis
  proof cases
    case 1
    then have "\<not> high_surrogate c \<and> \<not> low_surrogate c"
      using ascii_not_surrogate [of c] by (simp add: word_less_nat_alt)
    with 1 show ?thesis by (simp add: utf8_unit_def Let_def)
  next
    case 2
    then have plain: "\<not> high_surrogate c \<and> \<not> low_surrogate c"
      by (auto simp: high_surrogate_def low_surrogate_def word_le_nat_alt)
    have "?n div 64 * 64 + ?n mod 64 = ?n" by simp
    with 2 plain show ?thesis
      by (simp add: utf8_unit_def Let_def decode_two continuation_def less_mult_imp_div_less)
  next
    case 3
    show ?thesis
    proof (cases "high_surrogate c \<or> low_surrogate c")
      case True
      with 3 show ?thesis
        by (simp add: utf8_unit_def Let_def decode_three continuation_def replacement_def)
    next
      case False
      have "?n div 4096 < 16" using unat_code_unit [of c] by (simp add: less_mult_imp_div_less)
      with 3 False show ?thesis
        by (simp add: utf8_unit_def Let_def decode_three continuation_def base64_three)
    qed
  qed
qed

lemma decode_pair:
  assumes "high_surrogate c" "low_surrogate d"
  shows "decode_bytes (utf8_pair c d @ bs) = c # d # decode_bytes bs"
proof -
  let ?n = "pair_value c d"
  have c: "0xd800 \<le> unat c" "unat c \<le> 0xdbff" and d: "0xdc00 \<le> unat d" "unat d \<le> 0xdfff"
    using assms by (auto simp: high_surrogate_def low_surrogate_def word_le_nat_alt)
  then have bounds: "0x10000 \<le> ?n" "?n < 0x110000" by (auto simp: pair_value_def)
  have "?n - 0x10000 = (unat c - 0xd800) * 1024 + (unat d - 0xdc00)" "unat d - 0xdc00 < 1024"
    using d by (auto simp: pair_value_def)
  then have "(?n - 0x10000) div 1024 = unat c - 0xd800" "(?n - 0x10000) mod 1024 = unat d - 0xdc00"
    by (simp_all only: div_mult_self3 mod_mult_self3 mod_less div_less)
  moreover have "?n div 262144 < 5" using bounds(2) by (simp add: less_mult_imp_div_less)
  ultimately show ?thesis using c d
    by (simp add: utf8_pair_def Let_def decode_four continuation_def base64_four)
qed

lemma decode_utf8: "decode_bytes (utf8 p) = well_formed p"
proof (induction p rule: utf8.induct)
  case (2 c)
  then show ?case using decode_unit [of c "[]"] by simp
qed (simp_all add: decode_unit decode_pair)

lemma replacement_plain [simp]: "\<not> high_surrogate replacement" "\<not> low_surrogate replacement"
  by (simp_all add: replacement_def high_surrogate_def low_surrogate_def word_le_nat_alt)

lemma utf8_replacement: "high_surrogate c \<or> low_surrogate c \<Longrightarrow> utf8_unit replacement = utf8_unit c"
  by (auto simp: utf8_unit_def Let_def replacement_def high_surrogate_def low_surrogate_def word_le_nat_alt)

lemma utf8_Cons_plain: "\<not> high_surrogate c \<Longrightarrow> utf8 (c # cs) = utf8_unit c @ utf8 cs"
  by (cases cs) simp_all

lemma utf8_well_formed: "utf8 (well_formed p) = utf8 p"
proof (induction p rule: utf8.induct)
  case (2 c)
  then show ?case using utf8_replacement [of c] by simp
next
  case (3 c d cs)
  then show ?case
    using utf8_replacement [of c]
    by (cases "high_surrogate c"; cases "low_surrogate c") (simp_all add: utf8_Cons_plain)
qed simp

text \<open>What trimming and decoding leave is never longer than what they were given.\<close>

lemma trimEnd_split: "\<exists>w. s = trimEnd s @ w \<and> list_all js_space w"
proof (intro exI conjI)
  show "s = trimEnd s @ rev (takeWhile js_space (rev s))"
    unfolding trimEnd_def by (metis rev_append rev_rev_ident takeWhile_dropWhile_id)
  show "list_all js_space (rev (takeWhile js_space (rev s)))"
    by (auto simp: list_all_iff dest: set_takeWhileD)
qed

lemma js_space_plain: "js_space c \<Longrightarrow> \<not> low_surrogate c"
  by (auto simp: js_space_def low_surrogate_def word_le_nat_alt)

lemma trimmed_hd: "list_all js_space w \<Longrightarrow> w = [] \<or> \<not> low_surrogate (hd w)"
  by (cases w) (auto simp: js_space_plain)

lemma utf8_trimEnd_le: "length (utf8 (trimEnd s)) \<le> length (utf8 s)"
proof -
  obtain w where w: "s = trimEnd s @ w" "list_all js_space w" using trimEnd_split by blast
  have "utf8 s = utf8 (trimEnd s) @ utf8 w"
    using utf8_append [OF trimmed_hd [OF w(2)], of "trimEnd s"] w(1) by simp
  then show ?thesis by simp
qed

lemma utf8_decode_le: "length (utf8 (utf8_decode (utf8 p))) \<le> length (utf8 p)"
proof -
  have "\<not> high_surrogate 0xfeff" by (simp add: high_surrogate_def word_le_nat_alt)
  then have "length (utf8 (utf8_decode (utf8 p))) \<le> length (utf8 (well_formed p))"
    by (auto simp: utf8_decode_def decode_utf8 utf8_Cons_plain split: list.split)
  then show ?thesis by (simp add: utf8_well_formed)
qed

lemma back_off_le: "back_off stop xs i \<le> i"
  by (induction i) auto

lemma back_off_stop: "back_off stop xs i = 0 \<or> stop (xs ! back_off stop xs i)"
  by (induction i) auto

lemma token_end_unit_iff: "token_end_byte (unat c) \<longleftrightarrow> token_end_unit c"
proof -
  have "unat c = n \<longleftrightarrow> c = of_nat n" if "n < 0x80" for n
    using that by (auto simp: unsigned_of_nat take_bit_nat_eq_self)
  then show ?thesis by (simp add: token_end_byte_def token_end_unit_def)
qed

lemma token_end_plain: "token_end_unit c \<Longrightarrow> \<not> low_surrogate c"
  by (auto simp: token_end_unit_def low_surrogate_def word_le_nat_alt)

text \<open>
  Where the byte clamps cut: after a prefix of the string that is empty or followed by a unit that ends a
  token, whose encoding is the kept bytes.
\<close>

lemma token_cut:
  assumes "n < length (utf8 v)"
  defines "e \<equiv> back_off token_end_byte (utf8 v) n"
  shows "\<exists>p. take e (utf8 v) = utf8 p \<and> (p = [] \<or> (\<exists>c r. v = p @ c # r \<and> token_end_unit c))"
proof (cases "e = 0")
  case False
  have "e < length (utf8 v)" using assms back_off_le [of token_end_byte "utf8 v" n] by simp
  moreover have "token_end_byte (utf8 v ! e)" using back_off_stop [of token_end_byte "utf8 v" n] False e_def by simp
  moreover from this have "utf8 v ! e < 0x80" by (auto simp: token_end_byte_def)
  ultimately obtain p c r where "v = p @ c # r" "utf8 p = take e (utf8 v)" "token_end_byte (unat c)"
    using utf8_cut_ascii by metis
  then show ?thesis by (metis token_end_unit_iff)
qed (intro exI [of _ "[]"], simp)

lemma kept_le:
  assumes "n < length (utf8 v)"
  defines "e \<equiv> back_off token_end_byte (utf8 v) n"
  shows "length (utf8 (trimEnd (utf8_decode (take e (utf8 v))))) \<le> e"
proof -
  obtain p where p: "take e (utf8 v) = utf8 p" using token_cut [OF assms(1)] e_def by blast
  have "length (utf8 (trimEnd (utf8_decode (utf8 p)))) \<le> length (utf8 p)"
    by (rule order_trans [OF utf8_trimEnd_le utf8_decode_le])
  also have "\<dots> \<le> e" by (metis p length_take min.cobounded2)
  finally show ?thesis by (simp add: p)
qed

lemma utf8_ellipsis: "utf8 (s @ ellipsis @ t) = utf8 s @ utf8 (ellipsis @ t)"
  by (rule utf8_append) (simp add: ellipsis_def low_surrogate_def word_le_nat_alt)

lemma utf8_space: "utf8 (s @ 0x20 # t) = utf8 s @ 0x20 # utf8 t"
  using utf8_append [of "0x20 # t" s] ascii_not_surrogate [of "0x20"]
  by (simp add: utf8_Cons_plain utf8_ascii)

lemma length_utf8_ellipsis [simp]: "length (utf8 ellipsis) = 3"
  by (simp add: ellipsis_def length_utf8_unit)

lemma length_utf8_clipped [simp]: "length (utf8 clipped) = 15"
  by (simp add: clipped_def ellipsis_def js_eval length_utf8_unit high_surrogate_def)

text \<open>The JSON string of a prefix that ends before a whole code point is no longer than the string's own.\<close>

lemma quote_append:
  "r = [] \<or> \<not> low_surrogate (hd r) \<Longrightarrow> quote_body (p @ r) = quote_body p @ quote_body r"
proof (induction p rule: quote_body.induct)
  case (2 c)
  then show ?case by (cases r) auto
qed auto

lemma quote_tail: "quote_body (s @ [0x20] @ clipped) = quote_body s @ quote_body ([0x20] @ clipped)"
  by (rule quote_append) (simp add: low_surrogate_def word_le_nat_alt)

lemma length_quote_clipped: "length (quote_body clipped) = 13" "length (quote_body ([0x20] @ clipped)) = 14"
  by (simp_all add: clipped_def ellipsis_def js_eval escape_unit_def high_surrogate_def low_surrogate_def
        word_le_nat_alt word_less_nat_alt)

lemma tokenPrefix_split:
  assumes "units < int (length v)"
  obtains w rest where "v = tokenPrefix v units @ w @ rest" "list_all js_space w"
    "tokenPrefix v units @ w = [] \<or> (rest \<noteq> [] \<and> token_end_unit (hd rest))"
    "length (tokenPrefix v units @ w) \<le> nat units"
proof -
  let ?b = "back_off token_end_unit v (nat (max 0 units))"
  obtain w where w: "take ?b v = trimEnd (take ?b v) @ w" "list_all js_space w" using trimEnd_split by blast
  have tp: "tokenPrefix v units = trimEnd (take ?b v)" using assms by (simp add: tokenPrefix_def)
  have le: "?b \<le> nat units"
    using back_off_le [of token_end_unit v "nat (max 0 units)"] by simp
  then have lt: "?b = 0 \<or> ?b < length v" using assms by auto
  show thesis
  proof (rule that [of w "drop ?b v"])
    show "v = tokenPrefix v units @ w @ drop ?b v"
      by (metis tp w(1) append_assoc append_take_drop_id)
    show "tokenPrefix v units @ w = [] \<or> (drop ?b v \<noteq> [] \<and> token_end_unit (hd (drop ?b v)))"
    proof (cases "?b = 0")
      case True
      then have "take ?b v = []" by simp
      then show ?thesis using w(1) unfolding tp by simp
    next
      case False
      then show ?thesis
        using back_off_stop [of token_end_unit v "nat (max 0 units)"] lt by (simp add: hd_drop_conv_nth)
    qed
    show "length (tokenPrefix v units @ w) \<le> nat units"
      using le by (simp only: tp w(1) [symmetric]) simp
  qed (use w in simp)
qed

lemma quote_tokenPrefix_le:
  assumes "k < length v"
  shows "length (quote_body (tokenPrefix v (int k))) \<le> length (quote_body (take k v))"
proof -
  obtain w rest where s: "v = tokenPrefix v (int k) @ w @ rest" "list_all js_space w"
    "tokenPrefix v (int k) @ w = [] \<or> (rest \<noteq> [] \<and> token_end_unit (hd rest))"
    "length (tokenPrefix v (int k) @ w) \<le> k"
    using tokenPrefix_split [of "int k" v] assms by (metis nat_int of_nat_less_iff)
  let ?t = "tokenPrefix v (int k)" and ?r = "take (k - length (tokenPrefix v (int k) @ w)) rest"
  have "take k v = (?t @ w) @ ?r" using s(1,4) by (metis append_assoc take_append take_all)
  moreover have "?r = [] \<or> ?t @ w = [] \<or> \<not> low_surrogate (hd ?r)"
    using s(3) by (cases rest; cases "k - length (?t @ w)") (auto simp: token_end_plain)
  ultimately have "length (quote_body (?t @ w)) \<le> length (quote_body (take k v))"
    using quote_append [of ?r "?t @ w"] by auto
  moreover have "quote_body (?t @ w) = quote_body ?t @ quote_body w"
    by (rule quote_append) (rule trimmed_hd [OF s(2)])
  ultimately show ?thesis by simp
qed

text \<open>The search returns the least bound or a length whose marked prefix fits.\<close>

lemma clip_search_fits:
  "low \<le> high \<Longrightarrow> low \<le> clip_search v m low high \<and> clip_search v m low high \<le> high \<and>
     (clip_search v m low high = low \<or> length (json_quote (marked (take (clip_search v m low high) v))) \<le> m)"
proof (induction v m low high rule: clip_search.induct)
  case (1 v m low high)
  let ?mid = "(low + high + 1) div 2"
  show ?case
  proof (cases "low < high")
    case True
    then have mid: "low < ?mid" "?mid \<le> high" by linarith+
    show ?thesis
    proof (cases "length (json_quote (marked (take ?mid v))) \<le> m")
      case fits: True
      then have "clip_search v m low high = clip_search v m ?mid high"
        using True by (simp add: clip_search.simps [of v m low high] Let_def)
      with "1.IH"(1) [OF True refl fits] mid fits show ?thesis by auto
    next
      case False
      then have "clip_search v m low high = clip_search v m low (?mid - 1)"
        using True by (simp add: clip_search.simps [of v m low high] Let_def)
      moreover have "low \<le> ?mid - 1" using mid by linarith
      moreover have "?mid - 1 \<le> high" using mid by linarith
      ultimately show ?thesis using "1.IH"(2) [OF True refl False] by auto
    qed
  next
    case False
    with "1.prems" show ?thesis by (simp add: clip_search.simps)
  qed
qed

lemma json_quote_length: "length (json_quote s) = length (quote_body s) + 2"
  by (simp add: json_quote_def)

lemma marked_quote_length:
  "length (json_quote (marked s)) = (if s = [] then 15 else length (quote_body s) + 16)"
  using quote_tail [of s] length_quote_clipped by (simp add: marked_def json_quote_length)

section \<open>Properties\<close>

text \<open>
  A clamp never leaves part of a token behind: \<^verbatim>\<open>tokenPrefix\<close> returns the whole
  text when it fits, and otherwise a prefix of at most the asked length after which, past any trimmed white
  space, comes a unit that ends a token (or nothing at all is kept).
\<close>

lemma tokenPrefix_whole_tokens:
  "(int (length v) \<le> units \<longrightarrow> tokenPrefix v units = v) \<and>
   (units < int (length v) \<longrightarrow> length (tokenPrefix v units) \<le> nat units \<and>
      (tokenPrefix v units = [] \<or>
        (\<exists>w c rest. v = tokenPrefix v units @ w @ c # rest \<and> list_all js_space w \<and> token_end_unit c)))"
proof (cases "units < int (length v)")
  case True
  then obtain w rest where "v = tokenPrefix v units @ w @ rest" "list_all js_space w"
    "tokenPrefix v units @ w = [] \<or> (rest \<noteq> [] \<and> token_end_unit (hd rest))"
    "length (tokenPrefix v units @ w) \<le> nat units"
    by (rule tokenPrefix_split)
  with True show ?thesis by (cases rest) auto
qed (simp add: tokenPrefix_def)

text \<open>
  The byte budget of echoed text: \<^verbatim>\<open>utf8Length\<close> counts exactly the encoded bytes
  and its early exit never changes whether a limit holds; \<^verbatim>\<open>boundedEchoText\<close> returns a
  text that fits unchanged, and a longer one becomes a text of at most the budget plus the three bytes of its
  ellipsis.
\<close>

theorem boundedEchoText_budget:
  "utf8Length v None = length (utf8 v) \<and>
   (utf8Length v (Some l) \<le> l \<longleftrightarrow> utf8Length v None \<le> l) \<and>
   (int (utf8Length v None) \<le> m \<longrightarrow> boundedEchoText v m = v) \<and>
   int (utf8Length (boundedEchoText v m) None) \<le> max 0 m + 3"
proof -
  have "int (length (utf8 (boundedEchoText v m))) \<le> max 0 m + 3"
  proof (cases "int (length (utf8 v)) \<le> m")
    case False
    let ?e = "back_off token_end_byte (utf8 v) (nat (max 0 m))"
    let ?k = "trimEnd (utf8_decode (take ?e (utf8 v)))"
    show ?thesis
    proof (cases "nat (max 0 m) < length (utf8 v)")
      case True
      then have "length (utf8 ?k) \<le> ?e" by (rule kept_le)
      then have "length (utf8 ?k) \<le> nat (max 0 m)" using back_off_le le_trans by blast
      then have "int (length (utf8 ?k)) \<le> max 0 m" by (simp only: le_nat_iff)
      then show ?thesis
        using False utf8_ellipsis [of ?k "[]"] by (simp add: boundedEchoText_def Let_def)
    next
      case empty: False
      with False have "length (utf8 v) = 0" by (cases "m < 0") (simp_all add: max_def)
      with False show ?thesis by (simp add: boundedEchoText_def Let_def utf8_decode_def trimEnd_def)
    qed
  qed (simp add: boundedEchoText_def)
  then show ?thesis
    using utf8Length_loop_Some [of 0 l v] by (simp add: utf8Length_def utf8Length_loop_None boundedEchoText_def)
qed

theorem boundedEchoText_budget_witness:
  "boundedEchoText (lit ''abc'') 3 = lit ''abc'' \<and> utf8Length (lit ''abc'') (Some 2) > 2"
proof -
  have "utf8Length (lit ''abc'') None = 3" by (simp add: utf8Length_def js_eval Let_def)
  then show ?thesis using boundedEchoText_budget [of "lit ''abc''" 2 3] by (simp add: not_le [symmetric])
qed

text \<open>
  \<^verbatim>\<open>clipSerialized\<close> keeps its promise: whenever the limit leaves room for the marker
  alone, the JSON string of the clipped text has at most \<^verbatim>\<open>maxChars\<close> characters, and a
  text that fits is unchanged.
\<close>

theorem clipSerialized_fits:
  assumes "15 \<le> m"
  shows "length (json_quote (clipSerialized v m)) \<le> m \<and>
    (length (json_quote v) \<le> m \<longrightarrow> clipSerialized v m = v)"
proof (cases "length (json_quote v) \<le> m")
  case False
  let ?k = "clip_search v m 0 (min (length v) m)"
  let ?t = "tokenPrefix v (int ?k)"
  have k: "?k \<le> length v" "?k = 0 \<or> length (json_quote (marked (take ?k v))) \<le> m"
    using clip_search_fits [of 0 "min (length v) m" v m] by auto
  have "v \<noteq> []" using False assms by (auto simp: json_quote_length)
  have "length (json_quote (marked ?t)) \<le> m"
  proof (cases "?k = length v")
    case True
    with k(2) \<open>v \<noteq> []\<close> show ?thesis by (simp add: tokenPrefix_def)
  next
    case less: False
    with k(1) have "length (quote_body ?t) \<le> length (quote_body (take ?k v))"
      by (intro quote_tokenPrefix_le) simp
    then show ?thesis
      using k(2) assms less by (cases "?k = 0") (auto simp: marked_quote_length tokenPrefix_def trimEnd_def split: if_splits)
  qed
  with False show ?thesis by (simp add: clipSerialized_def)
qed (simp add: clipSerialized_def)

theorem clipSerialized_fits_witness:
  "length (json_quote (clipSerialized (lit ''a b'') 15)) \<le> 15"
  using clipSerialized_fits [of 15 "lit ''a b''"] by simp

text \<open>
  \<^verbatim>\<open>clipText\<close> does not: the space it puts before the marker is not counted, so the result
  may be one byte over the budget.
\<close>

lemma clipText_over_budget: "length (utf8 (clipText (lit ''a bcdefghijklmnop'') 16)) = 17"
proof -
  have "clipText (lit ''a bcdefghijklmnop'') 16 = lit ''a'' @ 0x20 # clipped"
    by (simp add: clipText_def Let_def js_eval utf8_Cons_plain utf8_unit_def high_surrogate_def
        token_end_byte_def utf8_decode_def trimEnd_def js_space_def)
  then show ?thesis
    by (simp add: js_eval length_utf8_unit utf8_Cons_plain high_surrogate_def del: utf8.simps(3))
qed

end
