(* ===== verification/Json_Text.thy ===== *)
theory Json_Text
  imports Text_Clipping
begin

text \<open>
  The language's JSON: values, \<^verbatim>\<open>JSON.stringify\<close> and \<^verbatim>\<open>JSON.parse\<close>. A number is
  kept as its token, with the value it denotes beside it; an object is the list of its own properties, where a
  repeated name keeps its first place and its last value. The lemmas show that parsing what was printed gives the
  value back.
\<close>

section \<open>Values and their text\<close>

datatype json = J_Null | J_Bool bool | J_Num jstr | J_Str jstr | J_Arr "json list" | J_Obj "(jstr \<times> json) list"

fun joined :: "jstr list \<Rightarrow> jstr" where
  "joined [] = []"
| "joined [x] = x"
| "joined (x # y # xs) = x @ [0x2c] @ joined (y # xs)"

fun json_text :: "json \<Rightarrow> jstr" where
  "json_text J_Null = lit ''null''"
| "json_text (J_Bool b) = (if b then lit ''true'' else lit ''false'')"
| "json_text (J_Num t) = t"
| "json_text (J_Str s) = json_quote s"
| "json_text (J_Arr xs) = [0x5b] @ joined (map json_text xs) @ [0x5d]"
| "json_text (J_Obj es) = [0x7b] @ joined (map (\<lambda>e. json_quote (fst e) @ [0x3a] @ json_text (snd e)) es) @ [0x7d]"

text \<open>Decimal text of a number: whole numbers, and numbers with at most twenty fractional digits.\<close>

fun frac_digits :: "nat \<Rightarrow> rat \<Rightarrow> jstr" where
  "frac_digits 0 q = []"
| "frac_digits (Suc n) q =
     (if q = 0 then [] else of_nat (0x30 + nat \<lfloor>q * 10\<rfloor>) # frac_digits n (q * 10 - of_int \<lfloor>q * 10\<rfloor>))"

definition number_text :: "rat \<Rightarrow> jstr" where
  "number_text q =
     (if of_int \<lfloor>q\<rfloor> = q then int_text \<lfloor>q\<rfloor>
      else let a = \<bar>q\<bar>
           in (if q < 0 then [0x2d] else []) @ decimal (nat \<lfloor>a\<rfloor>) @ [0x2e] @ frac_digits 20 (a - of_int \<lfloor>a\<rfloor>))"

section \<open>Parsing\<close>

definition json_space :: "code_unit \<Rightarrow> bool" where
  "json_space c \<longleftrightarrow> c = 0x20 \<or> c = 0x09 \<or> c = 0x0a \<or> c = 0x0d"

definition skip_space :: "jstr \<Rightarrow> jstr" where
  "skip_space s = dropWhile json_space s"

definition hex_of :: "code_unit \<Rightarrow> nat option" where
  "hex_of c =
     (if digit_unit c then Some (unat c - 0x30)
      else if 0x61 \<le> c \<and> c \<le> 0x66 then Some (unat c - 0x57)
      else if 0x41 \<le> c \<and> c \<le> 0x46 then Some (unat c - 0x37) else None)"

definition hex4 :: "code_unit \<Rightarrow> code_unit \<Rightarrow> code_unit \<Rightarrow> code_unit \<Rightarrow> code_unit option" where
  "hex4 a b c d =
     (case (hex_of a, hex_of b, hex_of c, hex_of d) of
        (Some x, Some y, Some z, Some w) \<Rightarrow> Some (of_nat (x * 4096 + y * 256 + z * 16 + w)) | _ \<Rightarrow> None)"

definition simple_escape :: "code_unit \<Rightarrow> code_unit option" where
  "simple_escape e =
     (if e = 0x22 \<or> e = 0x5c \<or> e = 0x2f then Some e
      else if e = 0x62 then Some 0x08 else if e = 0x74 then Some 0x09 else if e = 0x6e then Some 0x0a
      else if e = 0x66 then Some 0x0c else if e = 0x72 then Some 0x0d else None)"

definition prepend :: "'a \<Rightarrow> ('a list \<times> 'b) option \<Rightarrow> ('a list \<times> 'b) option" where
  "prepend x r = map_option (\<lambda>(s, rest). (x # s, rest)) r"

text \<open>The rest of a string after its opening quote.\<close>

fun parse_string :: "jstr \<Rightarrow> (jstr \<times> jstr) option" where
  "parse_string [] = None"
| "parse_string (c # cs) =
     (if c = 0x22 then Some ([], cs)
      else if c = 0x5c then
        (case cs of [] \<Rightarrow> None
         | e # r \<Rightarrow>
             if e = 0x75 then
               (case r of h1 # h2 # h3 # h4 # r' \<Rightarrow>
                    (case hex4 h1 h2 h3 h4 of None \<Rightarrow> None | Some u \<Rightarrow> prepend u (parse_string r'))
                | _ \<Rightarrow> None)
             else (case simple_escape e of None \<Rightarrow> None | Some u \<Rightarrow> prepend u (parse_string r)))
      else if c < 0x20 then None
      else prepend c (parse_string cs))"

text \<open>The parts of a number: sign, integer, fraction and exponent.\<close>

definition digits1 :: "jstr \<Rightarrow> (jstr \<times> jstr) option" where
  "digits1 s = (if takeWhile digit_unit s = [] then None else Some (takeWhile digit_unit s, dropWhile digit_unit s))"

definition int_part :: "jstr \<Rightarrow> (jstr \<times> jstr) option" where
  "int_part s = (case s of c # r \<Rightarrow> if c = 0x30 then Some ([c], r) else digits1 s | [] \<Rightarrow> None)"

definition frac_part :: "jstr \<Rightarrow> (jstr \<times> jstr) option" where
  "frac_part s = (case s of c # r \<Rightarrow> if c = 0x2e then digits1 r else Some ([], s) | [] \<Rightarrow> Some ([], s))"

definition exp_part :: "jstr \<Rightarrow> ((bool \<times> jstr) \<times> jstr) option" where
  "exp_part s =
     (case s of
        c # r \<Rightarrow>
          if c = 0x65 \<or> c = 0x45 then
            (case r of d # r' \<Rightarrow>
               if d = 0x2d then map_option (\<lambda>(ds, rest). ((True, ds), rest)) (digits1 r')
               else if d = 0x2b then map_option (\<lambda>(ds, rest). ((False, ds), rest)) (digits1 r')
               else map_option (\<lambda>(ds, rest). ((False, ds), rest)) (digits1 r)
             | [] \<Rightarrow> None)
          else Some ((False, []), s)
      | [] \<Rightarrow> Some ((False, []), s))"

record num_parts =
  np_negative :: bool
  np_int :: jstr
  np_frac :: jstr
  np_exp_negative :: bool
  np_exp :: jstr

definition number_parts :: "jstr \<Rightarrow> (num_parts \<times> jstr) option" where
  "number_parts s =
     (let negative = starts_with s [0x2d] in
      case int_part (if negative then drop 1 s else s) of None \<Rightarrow> None
      | Some (is, s1) \<Rightarrow> (case frac_part s1 of None \<Rightarrow> None
      | Some (fs, s2) \<Rightarrow> (case exp_part s2 of None \<Rightarrow> None
      | Some ((neg, es), s3) \<Rightarrow>
          Some (\<lparr>np_negative = negative, np_int = is, np_frac = fs, np_exp_negative = neg, np_exp = es\<rparr>, s3))))"

definition parse_number :: "jstr \<Rightarrow> (json \<times> jstr) option" where
  "parse_number s = map_option (\<lambda>(_, rest). (J_Num (take (length s - length rest) s), rest)) (number_parts s)"

definition digits_nat :: "jstr \<Rightarrow> nat" where
  "digits_nat s = foldl (\<lambda>n c. n * 10 + (unat c - 0x30)) 0 s"

text \<open>The number a token denotes; the largest double is below \<open>2 ^ 1024\<close>.\<close>

definition parts_value :: "num_parts \<Rightarrow> rat" where
  "parts_value p =
     (let m = of_nat (digits_nat (np_int p)) + of_nat (digits_nat (np_frac p)) / 10 ^ length (np_frac p);
          e = digits_nat (np_exp p);
          v = (if np_exp_negative p then m / 10 ^ e else m * 10 ^ e)
      in if np_negative p then - v else v)"

definition token_number :: "jstr \<Rightarrow> js_number" where
  "token_number t =
     (case number_parts t of
        Some (p, []) \<Rightarrow> if \<bar>parts_value p\<bar> < 2 ^ 1024 then Finite (parts_value p) else Non_Finite
      | _ \<Rightarrow> Non_Finite)"

text \<open>
  A value, the elements of an array and the properties of an object, from texts without leading space. The
  fuel bounds the nesting and the number of elements; a text has fewer of either than units.
\<close>

fun parse_value :: "nat \<Rightarrow> jstr \<Rightarrow> (json \<times> jstr) option"
  and parse_items :: "nat \<Rightarrow> jstr \<Rightarrow> (json list \<times> jstr) option"
  and parse_fields :: "nat \<Rightarrow> jstr \<Rightarrow> ((jstr \<times> json) list \<times> jstr) option" where
  "parse_value 0 s = None"
| "parse_value (Suc n) s =
     (if starts_with s (lit ''null'') then Some (J_Null, drop 4 s)
      else if starts_with s (lit ''true'') then Some (J_Bool True, drop 4 s)
      else if starts_with s (lit ''false'') then Some (J_Bool False, drop 5 s)
      else case s of [] \<Rightarrow> None
      | c # r \<Rightarrow>
          if c = 0x22 then map_option (\<lambda>(t, rest). (J_Str t, rest)) (parse_string r)
          else if c = 0x5b then
            (if starts_with (skip_space r) [0x5d] then Some (J_Arr [], drop 1 (skip_space r))
             else map_option (\<lambda>(xs, rest). (J_Arr xs, rest)) (parse_items n (skip_space r)))
          else if c = 0x7b then
            (if starts_with (skip_space r) [0x7d] then Some (J_Obj [], drop 1 (skip_space r))
             else map_option (\<lambda>(es, rest). (J_Obj (fold (\<lambda>(k, v). map_set k v) es []), rest)) (parse_fields n (skip_space r)))
          else parse_number s)"
| "parse_items 0 s = None"
| "parse_items (Suc n) s =
     (case parse_value n s of None \<Rightarrow> None
      | Some (v, r) \<Rightarrow>
          (case skip_space r of
             c # r' \<Rightarrow> if c = 0x2c then prepend v (parse_items n (skip_space r'))
                       else if c = 0x5d then Some ([v], r') else None
           | [] \<Rightarrow> None))"
| "parse_fields 0 s = None"
| "parse_fields (Suc n) s =
     (case s of [] \<Rightarrow> None
      | q # r0 \<Rightarrow>
          if q \<noteq> 0x22 then None
          else case parse_string r0 of None \<Rightarrow> None
          | Some (k, r1) \<Rightarrow>
              (case skip_space r1 of [] \<Rightarrow> None
               | col # r2 \<Rightarrow>
                   if col \<noteq> 0x3a then None
                   else case parse_value n (skip_space r2) of None \<Rightarrow> None
                   | Some (v, r3) \<Rightarrow>
                       (case skip_space r3 of
                          c # r4 \<Rightarrow> if c = 0x2c then prepend (k, v) (parse_fields n (skip_space r4))
                                     else if c = 0x7d then Some ([(k, v)], r4) else None
                        | [] \<Rightarrow> None)))"

text \<open>\<^verbatim>\<open>JSON.parse\<close>; nothing where it throws.\<close>

definition json_parse :: "jstr \<Rightarrow> json option" where
  "json_parse s =
     (case parse_value (Suc (length s)) (skip_space s) of
        Some (v, r) \<Rightarrow> if skip_space r = [] then Some v else None
      | None \<Rightarrow> None)"

text \<open>A property of a parsed value: reading one of \<^verbatim>\<open>null\<close> throws, other values without it give nothing.\<close>

definition json_field :: "json \<Rightarrow> string \<Rightarrow> json option" where
  "json_field v name = (case v of J_Obj fs \<Rightarrow> map_of fs (lit name) | _ \<Rightarrow> None)"

definition finite_number :: "json option \<Rightarrow> rat option" where
  "finite_number v =
     (case v of Some (J_Num t) \<Rightarrow> (case token_number t of Finite q \<Rightarrow> Some q | Non_Finite \<Rightarrow> None) | _ \<Rightarrow> None)"

section \<open>Strings\<close>

lemma unat_unit: "m < 65536 \<Longrightarrow> unat (of_nat m :: code_unit) = m"
  by (simp add: unsigned_of_nat take_bit_nat_eq_self)

lemma hex_of_digit: "n < 16 \<Longrightarrow> hex_of (hex_digit n) = Some n"
proof -
  assume n: "n < 16"
  then have "unat (hex_digit n) = (if n < 10 then 0x30 + n else 0x57 + n)"
    by (simp add: hex_digit_def unsigned_of_nat take_bit_nat_eq_self del: of_nat_add)
  with n show ?thesis by (auto simp: hex_of_def digit_unit_def word_le_nat_alt)
qed

lemma hex4_unicode:
  "hex4 (hex_digit (unat u div 4096)) (hex_digit (unat u div 256 mod 16)) (hex_digit (unat u div 16 mod 16))
     (hex_digit (unat u mod 16)) = Some (u :: code_unit)"
proof -
  define n where "n = unat u"
  have "unat u < 2 ^ 16" using unsigned_less [of u] by simp
  then have n: "n < 65536" by (simp add: n_def)
  have "n = n div 16 * 16 + n mod 16" "n div 16 = n div 256 * 16 + n div 16 mod 16" "n div 256 = n div 4096 * 16 + n div 256 mod 16"
    using div_mult_mod_eq [of "n div 16" 16] div_mult_mod_eq [of "n div 256" 16] by (simp_all add: div_mult2_eq [symmetric])
  then have "n div 4096 * 4096 + n div 256 mod 16 * 256 + n div 16 mod 16 * 16 + n mod 16 = n" by linarith
  moreover have "n div 4096 < 16" using n by (simp add: div_less_iff_less_mult)
  moreover have "of_nat n = u" by (simp add: n_def)
  ultimately show ?thesis unfolding n_def [symmetric] by (simp add: hex4_def hex_of_digit)
qed

lemma parse_escaped:
  "parse_string (escape_unit c @ r) = prepend c (parse_string r)"
proof -
  have four: "parse_string (unicode_escape c @ r) = prepend c (parse_string r)"
    using hex4_unicode [of c] by (simp add: unicode_escape_def Let_def)
  show ?thesis
    using four by (auto simp: escape_unit_def simple_escape_def)
qed

lemma surrogate_plain: "high_surrogate c \<or> low_surrogate c \<Longrightarrow> parse_string (c # r) = prepend c (parse_string r)"
  by (auto simp: high_surrogate_def low_surrogate_def word_le_nat_alt word_less_nat_alt)

lemma parse_quoted: "parse_string (quote_body s @ 0x22 # r) = Some (s, r)"
proof (induction s rule: quote_body.induct)
  case (2 c)
  then show ?case using parse_escaped [of c "0x22 # r"] by (simp add: prepend_def)
next
  case (3 c d cs)
  then show ?case
    using surrogate_plain [of c] surrogate_plain [of d] parse_escaped [of c] by (auto simp: prepend_def simp del: parse_string.simps(2))
qed simp

section \<open>Numbers\<close>

text \<open>What may follow a printed value: nothing, a comma or a closing bracket.\<close>

definition stops :: "jstr \<Rightarrow> bool" where
  "stops r \<longleftrightarrow> r = [] \<or> hd r = 0x2c \<or> hd r = 0x5d \<or> hd r = 0x7d"

definition number_token :: "jstr \<Rightarrow> bool" where
  "number_token t = (case number_parts t of Some (p, []) \<Rightarrow> True | _ \<Rightarrow> False)"

lemma stops_no_digit: "stops r \<Longrightarrow> takeWhile digit_unit r = [] \<and> dropWhile digit_unit r = r"
  by (cases r) (auto simp: stops_def digit_unit_def)

lemma digits1_append: "digits1 s = Some (d, e) \<Longrightarrow> stops r \<Longrightarrow> digits1 (s @ r) = Some (d, e @ r)"
  using stops_no_digit [of r] takeWhile_eq_all_conv [of digit_unit s] dropWhile_eq_Nil_conv [of digit_unit s]
  by (auto simp: digits1_def takeWhile_append dropWhile_append eq_commute [of s] split: if_splits)

lemma int_part_append: "int_part s = Some (d, e) \<Longrightarrow> stops r \<Longrightarrow> int_part (s @ r) = Some (d, e @ r)"
  using digits1_append [of s d e r] by (auto simp: int_part_def split: list.splits if_splits)

lemma frac_part_append: "frac_part s = Some (d, e) \<Longrightarrow> stops r \<Longrightarrow> frac_part (s @ r) = Some (d, e @ r)"
  using digits1_append [of "tl s" d e r] by (cases s; cases r) (auto simp: frac_part_def stops_def split: if_splits)

lemma exp_part_append: "exp_part s = Some (d, e) \<Longrightarrow> stops r \<Longrightarrow> exp_part (s @ r) = Some (d, e @ r)"
  using digits1_append [of "tl s"] digits1_append [of "tl (tl s)"]
  by (cases s; cases r) (auto simp: exp_part_def stops_def split: if_splits list.splits)

lemma number_parts_append:
  assumes "number_parts t = Some (p, e)" "stops r" "t \<noteq> []"
  shows "number_parts (t @ r) = Some (p, e @ r)"
proof -
  have minus: "starts_with (t @ r) [0x2d] = starts_with t [0x2d]" "drop 1 (t @ r) = drop 1 t @ r"
    using assms(3) by (cases t; simp)+
  show ?thesis
    using assms(1,2) unfolding number_parts_def minus
    by (auto simp: Let_def int_part_append frac_part_append exp_part_append split: option.splits if_splits)
qed

lemma token_head:
  assumes "number_token t"
  obtains c s where "t = c # s" "digit_unit c \<or> c = 0x2d"
proof -
  from assms obtain ds e where "int_part (if starts_with t [0x2d] then drop 1 t else t) = Some (ds, e)"
    by (auto simp: number_token_def number_parts_def Let_def split: option.splits list.splits)
  then show ?thesis using that by (cases t) (auto simp: int_part_def digits1_def digit_unit_def split: if_splits list.splits)
qed

lemma parse_number_token:
  assumes "number_token t" "stops r"
  shows "parse_number (t @ r) = Some (J_Num t, r)"
proof -
  obtain p where "number_parts t = Some (p, [])"
    using assms(1) by (cases "number_parts t") (auto simp: number_token_def split: list.splits)
  moreover have "t \<noteq> []" using token_head [OF assms(1)] by auto
  ultimately have "number_parts (t @ r) = Some (p, r)" using number_parts_append [of t p "[]" r] assms(2) by simp
  then show ?thesis by (simp add: parse_number_def)
qed

lemma parse_value_token:
  assumes "number_token t" "stops r"
  shows "parse_value (Suc n) (t @ r) = Some (J_Num t, r)"
proof -
  obtain c s where t: "t = c # s" and c: "digit_unit c \<or> c = 0x2d" using token_head [OF assms(1)] .
  from c have "c \<noteq> 0x6e" "c \<noteq> 0x74" "c \<noteq> 0x66" "c \<noteq> 0x22" "c \<noteq> 0x5b" "c \<noteq> 0x7b" by (auto simp: digit_unit_def)
  with parse_number_token [OF assms] show ?thesis by (simp add: t lit_def)
qed

section \<open>Parsing what was printed\<close>

fun wf_json :: "json \<Rightarrow> bool" where
  "wf_json (J_Num t) = number_token t"
| "wf_json (J_Arr xs) = list_all wf_json xs"
| "wf_json (J_Obj es) = (distinct (map fst es) \<and> list_all (\<lambda>e. wf_json (snd e)) es)"
| "wf_json _ = True"

lemma text_head:
  assumes "wf_json v"
  obtains c s where "json_text v = c # s" "\<not> json_space c" "c \<noteq> 0x5d"
proof (cases v)
  case (J_Num t)
  then obtain c s where "t = c # s" "digit_unit c \<or> c = 0x2d" using assms token_head by auto
  moreover from this have "\<not> json_space c" "c \<noteq> 0x5d" by (auto simp: json_space_def digit_unit_def)
  ultimately show ?thesis using J_Num that [of c s] by simp
next
  case (J_Bool b)
  then show ?thesis by (cases b; intro that) (auto simp: lit_def json_space_def)
qed (use that in \<open>auto simp: json_quote_def lit_def json_space_def\<close>)

lemma skip_text: "wf_json v \<Longrightarrow> skip_space (json_text v @ r) = json_text v @ r"
  by (erule text_head) (simp add: skip_space_def)

lemma skip_unit [simp]: "\<not> json_space c \<Longrightarrow> skip_space (c # r) = c # r"
  by (simp add: skip_space_def)

lemma structural [simp]: "\<not> json_space 0x2c" "\<not> json_space 0x3a" "\<not> json_space 0x5d" "\<not> json_space 0x7d" "\<not> json_space 0x22"
  by (simp_all add: json_space_def)

lemma joined_Cons: "joined (x # xs) = (if xs = [] then x else x @ 0x2c # joined xs)"
  by (cases xs) auto

definition reads_back :: "json \<Rightarrow> bool" where
  "reads_back v \<longleftrightarrow> (\<forall>n r. stops r \<longrightarrow> length (json_text v) \<le> n \<longrightarrow> parse_value n (json_text v @ r) = Some (v, r))"

lemma parse_items_text:
  assumes "xs \<noteq> []" "\<And>x. x \<in> set xs \<Longrightarrow> wf_json x \<and> reads_back x" "length (joined (map json_text xs)) < n"
  shows "parse_items n (joined (map json_text xs) @ 0x5d # r) = Some (xs, r)"
  using assms
proof (induction xs arbitrary: n)
  case (Cons x xs)
  obtain k where n: "n = Suc k" using Cons.prems(3) by (cases n) auto
  have x: "wf_json x" "reads_back x" using Cons.prems(2) by simp_all
  show ?case
  proof (cases "xs = []")
    case True
    then show ?thesis
      using x(2) [unfolded reads_back_def, rule_format, of "0x5d # r" k] Cons.prems(3) n by (simp add: stops_def)
  next
    case False
    then have first: "parse_value k (json_text x @ 0x2c # joined (map json_text xs) @ 0x5d # r) =
        Some (x, 0x2c # joined (map json_text xs) @ 0x5d # r)"
      using x(2) [unfolded reads_back_def, rule_format, of _ k] Cons.prems(3) n by (simp add: stops_def joined_Cons)
    have "parse_items k (joined (map json_text xs) @ 0x5d # r) = Some (xs, r)"
      using Cons.IH [OF False] Cons.prems(2,3) n False by (simp add: joined_Cons)
    moreover have "skip_space (joined (map json_text xs) @ 0x5d # r) = joined (map json_text xs) @ 0x5d # r"
      using False Cons.prems(2) skip_text by (cases xs) (auto simp: joined_Cons)
    ultimately show ?thesis using False first n by (simp add: joined_Cons prepend_def)
  qed
qed simp

definition field_text :: "jstr \<times> json \<Rightarrow> jstr" where
  "field_text e = json_quote (fst e) @ [0x3a] @ json_text (snd e)"

lemma json_text_Obj: "json_text (J_Obj es) = 0x7b # joined (map field_text es) @ [0x7d]"
  by (simp add: field_text_def [abs_def])

lemma parse_fields_text:
  assumes "es \<noteq> []" "\<And>e. e \<in> set es \<Longrightarrow> wf_json (snd e) \<and> reads_back (snd e)" "length (joined (map field_text es)) < n"
  shows "parse_fields n (joined (map field_text es) @ 0x7d # r) = Some (es, r)"
  using assms
proof (induction es arbitrary: n)
  case (Cons e es)
  obtain k where n: "n = Suc k" using Cons.prems(3) by (cases n) auto
  obtain name v where e: "e = (name, v)" by (cases e)
  have v: "wf_json v" "reads_back v" using Cons.prems(2) [of e] e by simp_all
  let ?rest = "if es = [] then 0x7d # r else 0x2c # joined (map field_text es) @ 0x7d # r"
  have all: "joined (map field_text (e # es)) @ 0x7d # r = 0x22 # quote_body name @ 0x22 # 0x3a # json_text v @ ?rest"
    by (simp add: joined_Cons field_text_def e json_quote_def)
  have "length (json_text v) \<le> k" using Cons.prems(3) n by (simp add: joined_Cons field_text_def e split: if_splits)
  then have val: "parse_value k (json_text v @ ?rest) = Some (v, ?rest)"
    using v(2) by (simp add: reads_back_def stops_def)
  show ?case
  proof (cases "es = []")
    case True
    then show ?thesis using val v(1) unfolding all unfolding n e by (simp add: parse_quoted skip_text)
  next
    case False
    then have "parse_fields k (joined (map field_text es) @ 0x7d # r) = Some (es, r)"
      using Cons.IH [OF False] Cons.prems(2,3) n by (simp add: joined_Cons)
    moreover have "skip_space (joined (map field_text es) @ 0x7d # r) = joined (map field_text es) @ 0x7d # r"
      using False by (cases es) (auto simp: joined_Cons field_text_def json_quote_def)
    ultimately show ?thesis using False val v(1) unfolding all unfolding n e by (simp add: parse_quoted skip_text prepend_def)
  qed
qed simp

lemma fold_map_set:
  "distinct (map fst (acc @ es)) \<Longrightarrow> fold (\<lambda>(k, v). map_set k v) es acc = acc @ es"
proof (induction es arbitrary: acc)
  case (Cons e es)
  have new: "map_set k v acc = acc @ [(k, v)]" if "k \<notin> fst ` set acc" for k and v :: 'b
    using that by (induction acc) auto
  from Cons.prems have "fst e \<notin> fst ` set acc" by auto
  then have "map_set (fst e) (snd e) acc = acc @ [e]" using new [of "fst e" "snd e"] by simp
  with Cons.IH [of "acc @ [e]"] Cons.prems show ?case by (simp add: case_prod_unfold)
qed simp

lemma parse_printed: "wf_json v \<Longrightarrow> reads_back v"
proof (induction v)
  case (J_Num t)
  show ?case unfolding reads_back_def
  proof (intro allI impI)
    fix n r
    assume r: "stops r" and n: "length (json_text (J_Num t)) \<le> n"
    have "t \<noteq> []" using J_Num token_head by auto
    then obtain k where "n = Suc k" using n by (cases n) auto
    with parse_value_token [of t r] J_Num r show "parse_value n (json_text (J_Num t) @ r) = Some (J_Num t, r)" by simp
  qed
next
  case (J_Str s)
  show ?case unfolding reads_back_def
  proof (intro allI impI)
    fix n r
    assume "length (json_text (J_Str s)) \<le> n"
    then obtain k where "n = Suc k" by (cases n) (auto simp: json_quote_def)
    then show "parse_value n (json_text (J_Str s) @ r) = Some (J_Str s, r)" by (simp add: json_quote_def parse_quoted lit_def)
  qed
next
  case (J_Arr xs)
  show ?case unfolding reads_back_def
  proof (intro allI impI)
    fix n r
    assume n: "length (json_text (J_Arr xs)) \<le> n"
    then obtain k where k: "n = Suc k" by (cases n) auto
    have all: "wf_json x \<and> reads_back x" if "x \<in> set xs" for x using J_Arr that by (auto simp: list_all_iff)
    show "parse_value n (json_text (J_Arr xs) @ r) = Some (J_Arr xs, r)"
    proof (cases xs)
      case (Cons x ys)
      obtain c s where cs: "json_text x = c # s" "\<not> json_space c" "c \<noteq> 0x5d" using all [of x] Cons text_head [of x] by auto
      then obtain s' where j: "joined (map json_text xs) = c # s'" using Cons by (cases ys) auto
      have "parse_items k (joined (map json_text xs) @ 0x5d # r) = Some (xs, r)"
        using parse_items_text [of xs k r] all n k Cons by auto
      then show ?thesis using cs by (simp add: k j lit_def)
    qed (simp add: k lit_def)
  qed
next
  case (J_Obj es)
  show ?case unfolding reads_back_def
  proof (intro allI impI)
    fix n r
    assume n: "length (json_text (J_Obj es)) \<le> n"
    then obtain k where k: "n = Suc k" by (cases n) auto
    have all: "wf_json (snd e) \<and> reads_back (snd e)" if "e \<in> set es" for e
      using J_Obj that by (cases e) (auto simp: list_all_iff)
    show "parse_value n (json_text (J_Obj es) @ r) = Some (J_Obj es, r)"
    proof (cases es)
      case (Cons e ys)
      obtain s' where j: "joined (map field_text es) = 0x22 # s'"
        using Cons by (cases ys) (auto simp: field_text_def json_quote_def)
      have "parse_fields k (joined (map field_text es) @ 0x7d # r) = Some (es, r)"
        using parse_fields_text [of es k r] all n k Cons unfolding json_text_Obj by auto
      moreover have "fold (\<lambda>(k, v). map_set k v) es [] = es" using fold_map_set [of "[]" es] J_Obj by simp
      ultimately show ?thesis unfolding json_text_Obj by (simp add: k j lit_def)
    qed (simp add: k lit_def)
  qed
next
  case (J_Bool b)
  show ?case unfolding reads_back_def
  proof (intro allI impI)
    fix n r
    assume "length (json_text (J_Bool b)) \<le> n"
    then obtain k where "n = Suc k" by (cases n) (auto simp: lit_def split: if_splits)
    then show "parse_value n (json_text (J_Bool b) @ r) = Some (J_Bool b, r)" by (simp add: lit_def)
  qed
next
  case J_Null
  show ?case unfolding reads_back_def
  proof (intro allI impI)
    fix n r
    assume "length (json_text J_Null) \<le> n"
    then obtain k where "n = Suc k" by (cases n) (auto simp: lit_def)
    then show "parse_value n (json_text J_Null @ r) = Some (J_Null, r)" by (simp add: lit_def)
  qed
qed

lemma json_roundtrip: "wf_json v \<Longrightarrow> json_parse (json_text v) = Some v"
  using parse_printed [of v, unfolded reads_back_def, rule_format, of "[]" "Suc (length (json_text v))"] skip_text [of v "[]"]
  by (simp add: json_parse_def stops_def skip_space_def del: parse_value.simps)

section \<open>Whole numbers\<close>

lemma decimal_shape:
  "list_all digit_unit (decimal n) \<and> decimal n \<noteq> [] \<and> digits_nat (decimal n) = n \<and> (10 \<le> n \<longrightarrow> hd (decimal n) \<noteq> 0x30)"
proof (induction n rule: decimal.induct)
  case (1 n)
  have digit: "digit_unit (of_nat (0x30 + m)) \<and> unat (of_nat (0x30 + m) :: code_unit) - 0x30 = m" if "m < 10" for m :: nat
    using unat_unit [of "0x30 + m"] that by (simp add: digit_unit_def word_le_nat_alt)
  show ?case
  proof (cases "n < 10")
    case True
    then show ?thesis using digit [OF True] by (subst (1 2 3 4) decimal.simps) (simp add: digits_nat_def)
  next
    case False
    have eq: "decimal n = decimal (n div 10) @ [of_nat (0x30 + n mod 10)]" using False by (subst decimal.simps) simp
    have hd0: "hd (decimal (n div 10)) \<noteq> 0x30"
    proof (cases "n div 10 < 10")
      case True
      then have "decimal (n div 10) = [of_nat (0x30 + n div 10)]" by (subst decimal.simps) simp
      moreover have "unat (of_nat (0x30 + n div 10) :: code_unit) = 0x30 + n div 10" using True by (intro unat_unit) simp
      moreover have "0 < n div 10" using False by simp
      moreover have "unat (0x30 :: code_unit) = 0x30" by simp
      ultimately show ?thesis by (metis add_cancel_left_right less_irrefl list.sel(1))
    qed (use 1 False in auto)
    show ?thesis
      using 1 False digit [of "n mod 10"] hd0 by (simp add: eq digits_nat_def)
  qed
qed

lemma int_part_decimal: "int_part (decimal n) = Some (decimal n, [])"
proof (cases "n < 10")
  case True
  then have one: "decimal n = [of_nat (0x30 + n)]" by (subst decimal.simps) simp
  have "digit_unit (hd (decimal n))" using decimal_shape [of n] by (cases "decimal n") auto
  then show ?thesis unfolding one by (simp add: int_part_def digits1_def)
next
  case False
  obtain c r where c: "decimal n = c # r" "c \<noteq> 0x30" "list_all digit_unit (c # r)"
    using decimal_shape [of n] False by (cases "decimal n") auto
  have "takeWhile digit_unit (c # r) = c # r" "dropWhile digit_unit (c # r) = []"
    using c(3) by (auto simp: takeWhile_eq_all_conv dropWhile_eq_Nil_conv list_all_iff)
  with c show ?thesis by (simp add: int_part_def digits1_def)
qed

lemma number_parts_int:
  "number_parts (int_text i) = Some (\<lparr>np_negative = i < 0, np_int = decimal (nat \<bar>i\<bar>), np_frac = [], np_exp_negative = False, np_exp = []\<rparr>, [])"
proof -
  have "\<not> starts_with (decimal n) [0x2d]" for n
    using decimal_shape [of n] by (cases "decimal n") (auto simp: digit_unit_def)
  then show ?thesis
    using int_part_decimal [of "nat \<bar>i\<bar>"]
    by (auto simp: number_parts_def int_text_def frac_part_def exp_part_def)
qed

lemma int_token: "number_token (int_text i)"
  by (simp add: number_token_def number_parts_int)

lemma int_token_value: "\<bar>i\<bar> < 2 ^ 1024 \<Longrightarrow> token_number (int_text i) = Finite (of_int i)"
proof -
  assume i: "\<bar>i\<bar> < 2 ^ 1024"
  let ?p = "\<lparr>np_negative = i < 0, np_int = decimal (nat \<bar>i\<bar>), np_frac = [], np_exp_negative = False, np_exp = []\<rparr>"
  have v: "parts_value ?p = of_int i"
    using decimal_shape [of "nat \<bar>i\<bar>"] by (simp add: parts_value_def Let_def) (simp add: digits_nat_def Let_def)
  have "\<bar>of_int i :: rat\<bar> < 2 ^ 1024" using i by (metis of_int_abs of_int_less_iff of_int_numeral of_int_power)
  with v show ?thesis by (simp only: token_number_def number_parts_int option.case prod.case list.case if_True)
qed

lemma number_text_int [simp]: "number_text (of_int i) = int_text i"
  by (simp add: number_text_def)

section \<open>What parses is well formed\<close>

lemma digits1_split: "digits1 s = Some (d, e) \<longleftrightarrow> s = d @ e \<and> d \<noteq> [] \<and> list_all digit_unit d \<and> (e = [] \<or> \<not> digit_unit (hd e))"
proof
  assume "digits1 s = Some (d, e)"
  then have "d = takeWhile digit_unit s" "e = dropWhile digit_unit s" "d \<noteq> []" by (auto simp: digits1_def split: if_splits)
  then show "s = d @ e \<and> d \<noteq> [] \<and> list_all digit_unit d \<and> (e = [] \<or> \<not> digit_unit (hd e))"
    using hd_dropWhile [of digit_unit s] set_takeWhileD [of _ digit_unit s] by (auto simp: list_all_iff)
next
  assume s: "s = d @ e \<and> d \<noteq> [] \<and> list_all digit_unit d \<and> (e = [] \<or> \<not> digit_unit (hd e))"
  then have "takeWhile digit_unit e = []" "dropWhile digit_unit e = e" by (cases e; auto)+
  with s show "digits1 s = Some (d, e)"
    by (auto simp: digits1_def list_all_iff takeWhile_append2 dropWhile_append2)
qed

lemma digits1_ends: "digits1 s = Some (d, x @ r) \<Longrightarrow> \<exists>t. s = t @ x @ r \<and> digits1 (t @ x) = Some (d, x)"
  by (auto simp: digits1_split)

lemma int_part_ends: "int_part s = Some (d, x @ r) \<Longrightarrow> \<exists>t. s = t @ x @ r \<and> int_part (t @ x) = Some (d, x)"
proof (cases s)
  case (Cons c s')
  assume f: "int_part s = Some (d, x @ r)"
  show ?thesis
  proof (cases "c = 0x30")
    case True
    with f Cons show ?thesis by (intro exI [of _ "[c]"]) (auto simp: int_part_def)
  next
    case False
    with f Cons have "digits1 s = Some (d, x @ r)" by (simp add: int_part_def)
    then obtain t where t: "s = t @ x @ r" "digits1 (t @ x) = Some (d, x)" using digits1_ends by blast
    then obtain t' where t': "t = c # t'" using Cons by (cases t) (auto simp: digits1_split)
    with False t show ?thesis by (intro exI [of _ t]) (simp add: int_part_def)
  qed
qed (simp add: int_part_def)

lemma frac_part_ends: "frac_part s = Some (d, x @ r) \<Longrightarrow> \<exists>t. s = t @ x @ r \<and> frac_part (t @ x) = Some (d, x)"
proof (cases s)
  case (Cons c s')
  assume f: "frac_part s = Some (d, x @ r)"
  show ?thesis
  proof (cases "c = 0x2e")
    case True
    with f Cons obtain t where "s' = t @ x @ r" "digits1 (t @ x) = Some (d, x)"
      using digits1_ends [of s' d x r] by (auto simp: frac_part_def)
    with True Cons show ?thesis by (intro exI [of _ "c # t"]) (simp add: frac_part_def)
  qed (use f Cons in \<open>cases x; auto simp: frac_part_def\<close>)
qed (auto simp: frac_part_def)

lemma exp_part_ends: "exp_part s = Some (d, x @ r) \<Longrightarrow> \<exists>t. s = t @ x @ r \<and> exp_part (t @ x) = Some (d, x)"
proof (cases s)
  case (Cons c s')
  assume f: "exp_part s = Some (d, x @ r)"
  show ?thesis
  proof (cases "c = 0x65 \<or> c = 0x45")
    case True
    with f Cons obtain e s'' where s': "s' = e # s''" by (cases s') (auto simp: exp_part_def split: if_splits)
    show ?thesis
    proof (cases "e = 0x2d \<or> e = 0x2b")
      case sign: True
      with f Cons True s' obtain ds where ds: "digits1 s'' = Some (ds, x @ r)" "d = (e = 0x2d, ds)"
        by (auto simp: exp_part_def split: if_splits)
      then obtain t where "s'' = t @ x @ r" "digits1 (t @ x) = Some (ds, x)" using digits1_ends by blast
      with sign True Cons s' ds show ?thesis by (intro exI [of _ "c # e # t"]) (auto simp: exp_part_def)
    next
      case False
      with f Cons True s' obtain ds where ds: "digits1 s' = Some (ds, x @ r)" "d = (False, ds)"
        by (auto simp: exp_part_def split: if_splits)
      then obtain t where t: "s' = t @ x @ r" "digits1 (t @ x) = Some (ds, x)" using digits1_ends by blast
      then obtain t' where "t = e # t'" using s' by (cases t) (auto simp: digits1_split)
      with False True Cons t ds show ?thesis by (intro exI [of _ "c # t"]) (auto simp: exp_part_def)
    qed
  qed (use f Cons in \<open>cases x; auto simp: exp_part_def\<close>)
qed (auto simp: exp_part_def)

lemma number_parts_ends: "number_parts s = Some (p, r) \<Longrightarrow> \<exists>t. s = t @ r \<and> number_token t"
proof -
  assume n: "number_parts s = Some (p, r)"
  define neg where "neg = starts_with s [0x2d]"
  from n obtain ds s1 fs s2 es where parts: "int_part (if neg then drop 1 s else s) = Some (ds, s1)"
    "frac_part s1 = Some (fs, s2)" "exp_part s2 = Some (es, [] @ r)"
    by (auto simp: number_parts_def Let_def neg_def split: option.splits)
  from exp_part_ends [OF parts(3)] obtain t3 where t3: "s2 = t3 @ r" "exp_part t3 = Some (es, [])" by auto
  from frac_part_ends [OF parts(2) [unfolded t3(1)]] obtain t2 where
    t2: "s1 = t2 @ t3 @ r" "frac_part (t2 @ t3) = Some (fs, t3)" by auto
  from parts(1) have "int_part (if neg then drop 1 s else s) = Some (ds, (t2 @ t3) @ r)" using t2 by simp
  from int_part_ends [OF this] obtain t1 where
    t1: "(if neg then drop 1 s else s) = t1 @ t2 @ t3 @ r" "int_part (t1 @ t2 @ t3) = Some (ds, t2 @ t3)" by auto
  have nonempty: "t1 @ t2 @ t3 \<noteq> []" using t1(2) by (auto simp: int_part_def)
  define t where "t = (if neg then [0x2d] else []) @ t1 @ t2 @ t3"
  have s: "s = t @ r" using t1(1) by (cases s) (auto simp: neg_def t_def split: if_splits)
  obtain c cs where c: "t1 @ t2 @ t3 = c # cs" using nonempty by (cases "t1 @ t2 @ t3") auto
  have "starts_with t [0x2d] = neg"
  proof (cases neg)
    case False
    then have t: "t = c # cs" by (simp add: t_def c)
    with s have "s = c # cs @ r" by simp
    with False t show ?thesis by (simp add: neg_def)
  qed (simp add: t_def)
  then have "number_token t"
    using t1(2) t2(2) t3(2) by (cases es) (simp add: number_token_def number_parts_def Let_def t_def)
  with s show ?thesis by blast
qed

lemma parse_number_wf: "parse_number s = Some (v, r) \<Longrightarrow> wf_json v"
  using number_parts_ends by (fastforce simp: parse_number_def)

lemma fold_map_set_wf: "list_all (\<lambda>e. wf_json (snd e)) es \<Longrightarrow> wf_json (J_Obj acc) \<Longrightarrow> wf_json (J_Obj (fold (\<lambda>(k, v). map_set k v) es acc))"
proof (induction es arbitrary: acc)
  case (Cons e es)
  have "wf_json (J_Obj (map_set (fst e) (snd e) acc))"
    using Cons.prems set_map_set_subset [of "fst e" "snd e" acc] by (auto simp: list_all_iff)
  with Cons show ?case by (simp add: case_prod_unfold del: wf_json.simps)
qed simp

lemma parsed_parts_wf:
  "parse_value n s = Some (v, r) \<Longrightarrow> wf_json v"
  "parse_items n s = Some (xs, r) \<Longrightarrow> list_all wf_json xs"
  "parse_fields n s = Some (es, r) \<Longrightarrow> list_all (\<lambda>e. wf_json (snd e)) es"
proof (induction n s and n s and n s arbitrary: v r and xs r and es r rule: parse_value_parse_items_parse_fields.induct)
  case (2 n s)
  have obj: "wf_json (J_Obj (fold (\<lambda>(k, v). map_set k v) es []))" if "list_all (\<lambda>e. wf_json (snd e)) es" for es
    using fold_map_set_wf [OF that, of "[]"] by simp
  have empty: "wf_json (J_Obj [])" by simp
  from 2 show ?case by (auto simp: parse_number_wf obj empty simp del: wf_json.simps(3) split: if_splits list.splits)
next
  case (4 n s)
  then show ?case by (auto simp: prepend_def split: option.splits list.splits if_splits)
next
  case (6 n s)
  then show ?case by (auto simp: prepend_def split: option.splits list.splits if_splits)
qed auto

lemma json_parse_wf: "json_parse s = Some v \<Longrightarrow> wf_json v"
  by (auto simp: json_parse_def intro: parsed_parts_wf(1) split: option.splits if_splits simp del: parse_value.simps)

end
