(* ===== verification/Call_Errors.thy ===== *)
theory Call_Errors
  imports Json_Text
begin

text \<open>
  The typed failure contract of connector calls, \<^verbatim>\<open>src/errors.ts\<close>: the closed set of
  codes, the constructor of \<^verbatim>\<open>ConnectorCallError\<close> with everything it bounds, withheld
  text, resend advice kept beside a failure by identity, and \<^verbatim>\<open>classifyCallError\<close>.
  Thrown values live in an explicit store because the code keeps facts about them in weak maps, by identity.
\<close>

section \<open>Codes\<close>

text \<open>\<^verbatim>\<open>ClassificationCode\<close>; the first seventeen are \<^verbatim>\<open>ConnectorCallErrorCode\<close>.\<close>

datatype classification_code =
  C_timeout | C_auth_required | C_downstream_oauth_required | C_oauth_revocation_failed
  | C_provider_permission_denied | C_rate_limited | C_unavailable | C_invalid_args
  | C_not_found | C_conflict | C_resource_template_ambiguous | C_resource_match_budget_exceeded
  | C_unsupported_capability | C_input_required_unsupported | C_input_required_invalid | C_input_required_limit
  | C_connector_call_failed | C_executor_overloaded | C_executor_cancelled | C_executor_closed
  | C_cancelled | C_unknown_address | C_unknown_tool | C_ambiguous_tool_alias
  | C_catalog_lookup_failed | C_result_too_large | C_result_not_retained | C_destructive_tool_requires_approval
  | C_read_only_endpoint | C_auth_replay_refused | C_write_outcome_unknown | C_result_processing_failed
  | C_budget_exceeded | C_executor_failed | C_program_error

text \<open>The string each code is on the wire.\<close>

fun code_name :: "classification_code \<Rightarrow> jstr" where
  "code_name C_timeout = lit ''timeout''"
| "code_name C_auth_required = lit ''auth_required''"
| "code_name C_downstream_oauth_required = lit ''downstream_oauth_required''"
| "code_name C_oauth_revocation_failed = lit ''oauth_revocation_failed''"
| "code_name C_provider_permission_denied = lit ''provider_permission_denied''"
| "code_name C_rate_limited = lit ''rate_limited''"
| "code_name C_unavailable = lit ''unavailable''"
| "code_name C_invalid_args = lit ''invalid_args''"
| "code_name C_not_found = lit ''not_found''"
| "code_name C_conflict = lit ''conflict''"
| "code_name C_resource_template_ambiguous = lit ''resource_template_ambiguous''"
| "code_name C_resource_match_budget_exceeded = lit ''resource_match_budget_exceeded''"
| "code_name C_unsupported_capability = lit ''unsupported_capability''"
| "code_name C_input_required_unsupported = lit ''input_required_unsupported''"
| "code_name C_input_required_invalid = lit ''input_required_invalid''"
| "code_name C_input_required_limit = lit ''input_required_limit''"
| "code_name C_connector_call_failed = lit ''connector_call_failed''"
| "code_name C_executor_overloaded = lit ''executor_overloaded''"
| "code_name C_executor_cancelled = lit ''executor_cancelled''"
| "code_name C_executor_closed = lit ''executor_closed''"
| "code_name C_cancelled = lit ''cancelled''"
| "code_name C_unknown_address = lit ''unknown_address''"
| "code_name C_unknown_tool = lit ''unknown_tool''"
| "code_name C_ambiguous_tool_alias = lit ''ambiguous_tool_alias''"
| "code_name C_catalog_lookup_failed = lit ''catalog_lookup_failed''"
| "code_name C_result_too_large = lit ''result_too_large''"
| "code_name C_result_not_retained = lit ''result_not_retained''"
| "code_name C_destructive_tool_requires_approval = lit ''destructive_tool_requires_approval''"
| "code_name C_read_only_endpoint = lit ''read_only_endpoint''"
| "code_name C_auth_replay_refused = lit ''auth_replay_refused''"
| "code_name C_write_outcome_unknown = lit ''write_outcome_unknown''"
| "code_name C_result_processing_failed = lit ''result_processing_failed''"
| "code_name C_budget_exceeded = lit ''budget_exceeded''"
| "code_name C_executor_failed = lit ''executor_failed''"
| "code_name C_program_error = lit ''program_error''"

text \<open>The keys of \<^verbatim>\<open>CLASSIFICATION_CODE_TABLE\<close>.\<close>

definition code_table :: "classification_code list" where
  "code_table =
     [C_timeout, C_auth_required, C_downstream_oauth_required, C_oauth_revocation_failed,
      C_provider_permission_denied, C_rate_limited, C_unavailable, C_invalid_args,
      C_not_found, C_conflict, C_resource_template_ambiguous, C_resource_match_budget_exceeded,
      C_unsupported_capability, C_input_required_unsupported, C_input_required_invalid, C_input_required_limit,
      C_connector_call_failed, C_executor_overloaded, C_executor_cancelled, C_executor_closed,
      C_cancelled, C_unknown_address, C_unknown_tool, C_ambiguous_tool_alias,
      C_catalog_lookup_failed, C_result_too_large, C_result_not_retained, C_destructive_tool_requires_approval,
      C_read_only_endpoint, C_auth_replay_refused, C_write_outcome_unknown, C_result_processing_failed,
      C_budget_exceeded, C_executor_failed, C_program_error]"

definition classificationCode :: "js_item \<Rightarrow> classification_code option" where
  "classificationCode v = (case v of Str s \<Rightarrow> find (\<lambda>c. code_name c = s) code_table | Other_Value \<Rightarrow> None)"

text \<open>The table \<^verbatim>\<open>RETRYABLE_BY_CODE\<close>, whose keys are the connector's own codes.\<close>

definition retryable_by_code :: "(classification_code \<times> bool) list" where
  "retryable_by_code =
     [(C_timeout, True), (C_rate_limited, True), (C_unavailable, True), (C_auth_required, False),
      (C_downstream_oauth_required, False), (C_oauth_revocation_failed, False),
      (C_provider_permission_denied, False), (C_invalid_args, False), (C_not_found, False), (C_conflict, False),
      (C_resource_template_ambiguous, False), (C_resource_match_budget_exceeded, False),
      (C_unsupported_capability, False), (C_input_required_unsupported, False), (C_input_required_invalid, False),
      (C_input_required_limit, False), (C_connector_call_failed, False)]"

definition isConnectorCallErrorCode :: "js_item \<Rightarrow> bool" where
  "isConnectorCallErrorCode v =
     (case v of Str s \<Rightarrow> list_ex (\<lambda>e. code_name (fst e) = s) retryable_by_code | Other_Value \<Rightarrow> False)"

section \<open>Argument findings\<close>

text \<open>
  \<^verbatim>\<open>ArgumentValidationIssue\<close> and \<^verbatim>\<open>ArgumentValidationDetails\<close>: a custom
  connector may put any value where a string is meant. A value \<^verbatim>\<open>plainJson\<close> cannot
  serialise is absent. Every entry of \<^verbatim>\<open>issues\<close> is an object: on a null entry the comparison
  \<^verbatim>\<open>other.path\<close> of the code throws, which is not modelled.
\<close>

record argument_issue =
  ai_path :: js_item
  ai_expected :: js_item
  ai_received :: "js_item option"

record validation_details =
  vd_issues :: "argument_issue list"
  vd_acceptedKeys :: "js_item list option"
  vd_conditionalRequirements :: "json list option"
  vd_example :: "json option"
  vd_exampleUnavailable :: "jstr option"
  vd_truncated :: bool

record repair_details =
  rd_acceptedKeys :: "js_item list option"
  rd_issues :: "(js_item \<times> js_item) list"
  rd_conditionalRequirements :: "json list option"
  rd_example :: "json option"
  rd_exampleUnavailable :: "jstr option"
  rd_truncated :: bool

definition boundedIssueText :: "jstr \<Rightarrow> nat \<Rightarrow> jstr \<times> bool" where
  "boundedIssueText v maxChars =
     (if length v \<le> maxChars then (v, False) else (tokenPrefix v (int maxChars - 1) @ ellipsis, True))"

definition issue_ok :: "argument_issue \<Rightarrow> bool" where
  "issue_ok i \<longleftrightarrow> (\<exists>p e. ai_path i = Str p \<and> ai_expected i = Str e)"

text \<open>The findings that are kept: well typed, and the first of their path and expectation in the list.\<close>

definition kept_issues :: "argument_issue list \<Rightarrow> argument_issue list" where
  "kept_issues xs =
     map snd (filter (\<lambda>(n, i). issue_ok i \<and>
         \<not> list_ex (\<lambda>j. ai_path j = ai_path i \<and> ai_expected j = ai_expected i) (take n xs))
       (enumerate 0 xs))"

definition clip_item :: "nat \<Rightarrow> js_item \<Rightarrow> js_item \<times> bool" where
  "clip_item n v = (case v of Str s \<Rightarrow> (case boundedIssueText s n of (t, was_cut) \<Rightarrow> (Str t, was_cut)) | Other_Value \<Rightarrow> (v, False))"

definition clip_issue :: "repair_details option \<Rightarrow> argument_issue \<Rightarrow> argument_issue \<times> bool" where
  "clip_issue repair i =
     (let received = (case ai_received i of Some r \<Rightarrow> Some r
            | None \<Rightarrow> (case repair of None \<Rightarrow> None
                | Some r \<Rightarrow> map_option snd (find (\<lambda>l. fst l = ai_path i) (rd_issues r))));
          (p, was_cut1) = clip_item 256 (ai_path i);
          (e, was_cut2) = clip_item 256 (ai_expected i);
          (r, was_cut3) = (case received of Some (Str s) \<Rightarrow> (case clip_item 64 (Str s) of (t, was_cut) \<Rightarrow> (Some t, was_cut))
                         | _ \<Rightarrow> (None, False))
      in (\<lparr>ai_path = p, ai_expected = e, ai_received = r\<rparr>, was_cut1 \<or> was_cut2 \<or> was_cut3))"

definition item_json :: "js_item \<Rightarrow> json" where
  "item_json v = (case v of Str s \<Rightarrow> J_Str s | Other_Value \<Rightarrow> J_Null)"

definition issue_json :: "argument_issue \<Rightarrow> json" where
  "issue_json i =
     J_Obj ([(lit ''path'', item_json (ai_path i)), (lit ''expected'', item_json (ai_expected i))] @
       (case ai_received i of None \<Rightarrow> [] | Some r \<Rightarrow> [(lit ''received'', item_json r)]))"

definition validation_json :: "validation_details \<Rightarrow> json" where
  "validation_json d =
     J_Obj ([(lit ''issues'', J_Arr (map issue_json (vd_issues d)))] @
       (case vd_acceptedKeys d of None \<Rightarrow> [] | Some ks \<Rightarrow> [(lit ''acceptedKeys'', J_Arr (map item_json ks))]) @
       (case vd_conditionalRequirements d of None \<Rightarrow> [] | Some cs \<Rightarrow> [(lit ''conditionalRequirements'', J_Arr cs)]) @
       (case vd_example d of None \<Rightarrow> [] | Some e \<Rightarrow> [(lit ''example'', e)]) @
       (case vd_exampleUnavailable d of None \<Rightarrow> [] | Some t \<Rightarrow> [(lit ''exampleUnavailable'', J_Str t)]) @
       (if vd_truncated d then [(lit ''truncated'', J_Bool True)] else []))"

definition envelope_bytes :: "validation_details \<Rightarrow> nat" where
  "envelope_bytes d = length (utf8 (json_text (validation_json d)))"

definition fits :: "validation_details \<Rightarrow> bool" where
  "fits d \<longleftrightarrow> envelope_bytes d \<le> 4096 - 20"

text \<open>\<^verbatim>\<open>while (!fits() && issues.length > 1) issues.pop()\<close>\<close>

function pop_issues :: "validation_details \<Rightarrow> validation_details" where
  "pop_issues d =
     (if \<not> fits d \<and> 1 < length (vd_issues d) then pop_issues (d\<lparr>vd_issues := butlast (vd_issues d)\<rparr>) else d)"
  by pat_completeness auto
termination
  by (relation "measure (\<lambda>d. length (vd_issues d))") auto

declare pop_issues.simps [simp del]

definition or_else :: "'a option \<Rightarrow> 'a option \<Rightarrow> 'a option" where
  "or_else a b = (case a of Some x \<Rightarrow> Some x | None \<Rightarrow> b)"

definition from_both :: "('d \<Rightarrow> 'a option) \<Rightarrow> ('r \<Rightarrow> 'a option) \<Rightarrow> 'd option \<Rightarrow> 'r option \<Rightarrow> 'a option" where
  "from_both f g details repair = or_else (Option.bind details f) (Option.bind repair g)"

definition present :: "'a list option \<Rightarrow> 'a list option" where
  "present xs = (case xs of Some [] \<Rightarrow> None | _ \<Rightarrow> xs)"

definition only_strings :: "js_item list \<Rightarrow> js_item list" where
  "only_strings ks = filter (\<lambda>k. k \<noteq> Other_Value) ks"

definition drop_optional :: "validation_details \<Rightarrow> validation_details" where
  "drop_optional d =
     (let d1 = d\<lparr>vd_conditionalRequirements := None, vd_acceptedKeys := None\<rparr>
      in if vd_example d1 \<noteq> None \<and> \<not> fits d1
         then d1\<lparr>vd_example := None, vd_exampleUnavailable :=
           Some (lit ''The example exceeds the response budget. Inspect the published inputSchema.'')\<rparr>
         else d1)"

definition boundedValidation ::
    "validation_details option \<Rightarrow> repair_details option \<Rightarrow> validation_details option" where
  "boundedValidation details repair =
     (if details = None \<and> repair = None then None
      else
        let all = kept_issues (case details of None \<Rightarrow> [] | Some d \<Rightarrow> vd_issues d);
            clipped_issues = map (clip_issue repair) (take 8 all);
            example = from_both vd_example rd_example details repair;
            unavailable = from_both vd_exampleUnavailable rd_exampleUnavailable details repair;
            (text, was_cut) = (case (example, unavailable) of
                (None, Some t) \<Rightarrow> (case boundedIssueText t 256 of (u, c) \<Rightarrow> (Some u, c)) | _ \<Rightarrow> (None, False));
            truncated = ((case details of Some d \<Rightarrow> vd_truncated d | None \<Rightarrow> False) \<or>
                (case repair of Some r \<Rightarrow> rd_truncated r | None \<Rightarrow> False) \<or>
                8 < length all \<or> list_ex snd clipped_issues \<or> was_cut);
            result = \<lparr>vd_issues = map fst clipped_issues,
                vd_acceptedKeys = map_option only_strings (present (from_both vd_acceptedKeys rd_acceptedKeys details repair)),
                vd_conditionalRequirements =
                  present (from_both vd_conditionalRequirements rd_conditionalRequirements details repair),
                vd_example = example, vd_exampleUnavailable = text, vd_truncated = False\<rparr>;
            shrunk = (if fits result then result else drop_optional result)
        in Some ((pop_issues shrunk)\<lparr>vd_truncated := truncated \<or> \<not> fits result\<rparr>))"

section \<open>Thrown values\<close>

text \<open>
  A thrown value is \<^verbatim>\<open>undefined\<close>, a primitive (with its text), or an object. Of an object
  that is neither of the program's own error classes the code reads whether it is an
  \<^verbatim>\<open>Error\<close>, its name, its text, its \<^verbatim>\<open>code\<close> and
  \<^verbatim>\<open>cause\<close>, and the label of its class.
\<close>

datatype thrown = Undefined_Value | Prim jstr | Obj nat

record unavailable_details =
  ud_name :: "jstr option"
  ud_host :: "jstr option"
  ud_code :: "jstr option"

record call_error =
  ce_code :: classification_code
  ce_message :: jstr
  ce_retryable :: bool
  ce_retryAfterMs :: "int option"
  ce_validation :: "validation_details option"
  ce_details :: "unavailable_details option"
  ce_current :: "(jstr \<times> int) list option"
  ce_unknown :: bool
  ce_cause :: thrown

record withheld_error =
  wt_message :: jstr
  wt_timeout :: bool
  wt_retryable :: bool

record other_object =
  oo_isError :: bool
  oo_name :: jstr
  oo_text :: jstr
  oo_code :: js_item
  oo_cause :: thrown
  oo_label :: "jstr option"

datatype error_object = Call_Error call_error | Withheld_Text withheld_error | Other_Object other_object

text \<open>
  The store: the objects, the advice tables, and the platform's URL parser (the origin of an
  \<^verbatim>\<open>http:\<close> or \<^verbatim>\<open>https:\<close> URL).
\<close>

record failure_world =
  w_http_origin :: "jstr \<Rightarrow> jstr option"
  w_objects :: "nat \<rightharpoonup> error_object"
  w_next :: nat
  w_resendAdvices :: "nat \<rightharpoonup> jstr"
  w_keyAdvices :: "nat \<rightharpoonup> jstr \<times> jstr"

definition object_of :: "'a failure_world_scheme \<Rightarrow> thrown \<Rightarrow> error_object option" where
  "object_of w t = (case t of Obj i \<Rightarrow> w_objects w i | _ \<Rightarrow> None)"

text \<open>\<^verbatim>\<open>error instanceof ConnectorCallError\<close>, and of \<^verbatim>\<open>WithheldTextError\<close>.\<close>

definition call_error_of :: "'a failure_world_scheme \<Rightarrow> thrown \<Rightarrow> call_error option" where
  "call_error_of w t = (case object_of w t of Some (Call_Error e) \<Rightarrow> Some e | _ \<Rightarrow> None)"

definition withheld_of :: "'a failure_world_scheme \<Rightarrow> thrown \<Rightarrow> withheld_error option" where
  "withheld_of w t = (case object_of w t of Some (Withheld_Text e) \<Rightarrow> Some e | _ \<Rightarrow> None)"

definition new_object :: "error_object \<Rightarrow> 'a failure_world_scheme \<Rightarrow> thrown \<times> 'a failure_world_scheme" where
  "new_object ob w = (Obj (w_next w), w\<lparr>w_objects := (w_objects w)(w_next w \<mapsto> ob), w_next := Suc (w_next w)\<rparr>)"

section \<open>Construction\<close>

definition network_error_codes :: "jstr list" where
  "network_error_codes =
     map lit [''ECONNREFUSED'', ''ENOTFOUND'', ''ECONNRESET'', ''ETIMEDOUT'',
       ''EAI_AGAIN'', ''EAI_FAIL'', ''EHOSTUNREACH'', ''ENETUNREACH'',
       ''ENETDOWN'', ''EHOSTDOWN'', ''ECONNABORTED'', ''EPIPE'',
       ''EACCES'', ''EPERM'', ''UND_ERR_CONNECT_TIMEOUT'', ''UND_ERR_HEADERS_TIMEOUT'',
       ''UND_ERR_BODY_TIMEOUT'', ''UND_ERR_SOCKET'', ''timeout'']"

definition networkCode :: "js_item \<Rightarrow> jstr option" where
  "networkCode v =
     (case v of Str s \<Rightarrow> if length s \<le> 32 \<and> s \<in> set network_error_codes then Some s else None | Other_Value \<Rightarrow> None)"

definition upper_unit :: "code_unit \<Rightarrow> bool" where
  "upper_unit c \<longleftrightarrow> 0x41 \<le> c \<and> c \<le> 0x5a"

definition letter_unit :: "code_unit \<Rightarrow> bool" where
  "letter_unit c \<longleftrightarrow> upper_unit c \<or> (0x61 \<le> c \<and> c \<le> 0x7a)"

text \<open>\<^verbatim>\<open>ERROR_CLASS\<close>\<close>

fun error_class_re :: "jstr \<Rightarrow> bool" where
  "error_class_re [] = False"
| "error_class_re (c # cs) = (upper_unit c \<and> length cs \<le> 63 \<and> list_all letter_unit cs)"

definition sanitizedUnavailableDetails ::
    "'a failure_world_scheme \<Rightarrow> unavailable_details option \<Rightarrow> unavailable_details option" where
  "sanitizedUnavailableDetails w details =
     (case details of None \<Rightarrow> None
      | Some d \<Rightarrow>
          let host = (case Option.bind (ud_host d) (w_http_origin w) of
                        Some origin \<Rightarrow> if length (utf8 origin) \<le> 253 then Some origin else None
                      | None \<Rightarrow> None);
              code = (case ud_code d of Some c \<Rightarrow> networkCode (Str c) | None \<Rightarrow> None);
              name = (case ud_name d of Some n \<Rightarrow> if error_class_re n then Some n else None | None \<Rightarrow> None)
          in if host \<noteq> None \<or> code \<noteq> None \<or> name \<noteq> None
             then Some \<lparr>ud_name = name, ud_host = host, ud_code = code\<rparr> else None)"

text \<open>One entry of \<^verbatim>\<open>current\<close> that is kept.\<close>

definition current_entry :: "jstr \<times> js_number \<Rightarrow> (jstr \<times> int) option" where
  "current_entry e =
     (case e of (k, v) \<Rightarrow> (case v of Non_Finite \<Rightarrow> None
        | Finite q \<Rightarrow>
            if 0 < length k \<and> length k \<le> 128 \<and> k \<noteq> lit ''__proto__'' \<and> is_whole v \<and>
               0 \<le> q \<and> q \<le> 9007199254740991
            then Some (k, \<lfloor>q\<rfloor>) else None))"

definition boundedCurrent :: "(jstr \<times> js_number) list option \<Rightarrow> (jstr \<times> int) list option" where
  "boundedCurrent current =
     (case current of None \<Rightarrow> None
      | Some es \<Rightarrow>
          let kept = List.map_filter current_entry es
          in if kept = [] then None else Some (take 20 kept))"

definition normalizeRetryAfterMs :: "js_number option \<Rightarrow> int option" where
  "normalizeRetryAfterMs v =
     (case v of Some (Finite q) \<Rightarrow> if q < 0 then None else Some (trunc q) | _ \<Rightarrow> None)"

record call_error_options =
  eo_retryable :: "bool option"
  eo_retryAfterMs :: "js_number option"
  eo_cause :: thrown
  eo_validation :: "validation_details option"
  eo_repair :: "repair_details option"
  eo_details :: "unavailable_details option"
  eo_current :: "(jstr \<times> js_number) list option"
  eo_unknown :: bool

definition no_options :: call_error_options where
  "no_options = \<lparr>eo_retryable = None, eo_retryAfterMs = None, eo_cause = Undefined_Value, eo_validation = None,
     eo_repair = None, eo_details = None, eo_current = None, eo_unknown = False\<rparr>"

text \<open>\<^verbatim>\<open>new ConnectorCallError(code, message, opts)\<close>\<close>

definition make_call_error ::
    "'a failure_world_scheme \<Rightarrow> classification_code \<Rightarrow> jstr \<Rightarrow> call_error_options \<Rightarrow> call_error" where
  "make_call_error w code message opts =
     \<lparr>ce_code = code, ce_message = message,
      ce_retryable = (case eo_retryable opts of Some b \<Rightarrow> b | None \<Rightarrow> map_of retryable_by_code code = Some True),
      ce_retryAfterMs = normalizeRetryAfterMs (eo_retryAfterMs opts),
      ce_validation = (if code = C_invalid_args then boundedValidation (eo_validation opts) (eo_repair opts) else None),
      ce_details = (if code = C_unavailable \<or> eo_unknown opts
                    then sanitizedUnavailableDetails w (eo_details opts) else None),
      ce_current = (if code = C_conflict then boundedCurrent (eo_current opts) else None),
      ce_unknown = eo_unknown opts, ce_cause = eo_cause opts\<rparr>"

definition new_call_error ::
    "classification_code \<Rightarrow> jstr \<Rightarrow> call_error_options \<Rightarrow> 'a failure_world_scheme \<Rightarrow> thrown \<times> 'a failure_world_scheme" where
  "new_call_error code message opts w = new_object (Call_Error (make_call_error w code message opts)) w"

section \<open>Classification\<close>

definition object_is_error :: "error_object \<Rightarrow> bool" where
  "object_is_error ob = (case ob of Other_Object x \<Rightarrow> oo_isError x | _ \<Rightarrow> True)"

definition object_name :: "error_object \<Rightarrow> jstr" where
  "object_name ob = (case ob of Call_Error _ \<Rightarrow> lit ''ConnectorCallError'' | Withheld_Text _ \<Rightarrow> lit ''WithheldTextError''
     | Other_Object x \<Rightarrow> oo_name x)"

definition object_code :: "error_object \<Rightarrow> js_item" where
  "object_code ob = (case ob of Call_Error e \<Rightarrow> Str (code_name (ce_code e)) | Withheld_Text _ \<Rightarrow> Other_Value
     | Other_Object x \<Rightarrow> oo_code x)"

definition object_cause :: "error_object \<Rightarrow> thrown" where
  "object_cause ob = (case ob of Call_Error e \<Rightarrow> ce_cause e | Withheld_Text _ \<Rightarrow> Undefined_Value
     | Other_Object x \<Rightarrow> oo_cause x)"

definition object_text :: "error_object \<Rightarrow> jstr" where
  "object_text ob = (case ob of Call_Error e \<Rightarrow> ce_message e | Withheld_Text e \<Rightarrow> wt_message e
     | Other_Object x \<Rightarrow> oo_text x)"

text \<open>\<^verbatim>\<open>err instanceof Error ? err.message : String(err)\<close>\<close>

definition msg :: "'a failure_world_scheme \<Rightarrow> thrown \<Rightarrow> jstr" where
  "msg w t = (case t of Undefined_Value \<Rightarrow> lit ''undefined'' | Prim s \<Rightarrow> s
     | Obj i \<Rightarrow> (case w_objects w i of Some ob \<Rightarrow> object_text ob | None \<Rightarrow> []))"

definition networkErrorCode :: "'a failure_world_scheme \<Rightarrow> thrown \<Rightarrow> jstr option" where
  "networkErrorCode w t =
     (case object_of w t of None \<Rightarrow> None
      | Some ob \<Rightarrow>
          if object_is_error ob \<and> (object_name ob = lit ''AbortError'' \<or> object_name ob = lit ''TimeoutError'')
          then Some (lit ''timeout'')
          else or_else (networkCode (object_code ob))
                 (Option.bind (object_of w (object_cause ob)) (\<lambda>c. networkCode (object_code c))))"

text \<open>\<^verbatim>\<open>CallErrorDetails\<close>, the fields classification fills.\<close>

record call_error_details =
  cd_code :: classification_code
  cd_message :: jstr
  cd_retryable :: bool
  cd_retryAfterMs :: "int option"
  cd_validation :: "validation_details option"
  cd_details :: "unavailable_details option"
  cd_current :: "(jstr \<times> int) list option"
  cd_unknown :: bool

definition plain_details :: "classification_code \<Rightarrow> jstr \<Rightarrow> bool \<Rightarrow> call_error_details" where
  "plain_details code message retryable =
     \<lparr>cd_code = code, cd_message = message, cd_retryable = retryable, cd_retryAfterMs = None,
      cd_validation = None, cd_details = None, cd_current = None, cd_unknown = False\<rparr>"

definition framingError :: "classification_code \<Rightarrow> jstr \<Rightarrow> call_error_details" where
  "framingError code message =
     plain_details code message (code = C_timeout \<or> code = C_unavailable \<or> code = C_rate_limited)"

definition timeout_code :: "jstr \<Rightarrow> bool" where
  "timeout_code c \<longleftrightarrow> c = lit ''timeout'' \<or> c = lit ''ETIMEDOUT'' \<or> ends_with c (lit ''_TIMEOUT'')"

definition classifyWithoutAdvice ::
    "'a failure_world_scheme \<Rightarrow> thrown \<Rightarrow> classification_code \<Rightarrow> call_error_details" where
  "classifyWithoutAdvice w err fallback =
     (case object_of w err of
        Some (Call_Error e) \<Rightarrow>
          \<lparr>cd_code = ce_code e, cd_message = ce_message e, cd_retryable = ce_retryable e,
           cd_retryAfterMs = ce_retryAfterMs e, cd_validation = ce_validation e, cd_details = ce_details e,
           cd_current = ce_current e, cd_unknown = ce_unknown e\<rparr>
      | Some (Withheld_Text e) \<Rightarrow>
          plain_details (if wt_timeout e then C_timeout else fallback) (wt_message e) (wt_retryable e)
      | _ \<Rightarrow>
          (case networkErrorCode w err of
             None \<Rightarrow> plain_details fallback (msg w err) False
           | Some c \<Rightarrow> plain_details (if timeout_code c then C_timeout else C_unavailable) (msg w err) True))"

section \<open>Resend advice\<close>

definition resendAdvice :: "thrown \<Rightarrow> jstr \<Rightarrow> 'a failure_world_scheme \<Rightarrow> 'a failure_world_scheme" where
  "resendAdvice t advice w =
     (case t of Obj i \<Rightarrow> w\<lparr>w_resendAdvices := (w_resendAdvices w)(i \<mapsto> advice)\<rparr> | _ \<Rightarrow> w)"

definition resendAdviceOf :: "'a failure_world_scheme \<Rightarrow> thrown \<Rightarrow> jstr option" where
  "resendAdviceOf w t = (case t of Obj i \<Rightarrow> w_resendAdvices w i | _ \<Rightarrow> None)"

definition keyResendAdvice :: "thrown \<Rightarrow> jstr \<Rightarrow> jstr \<Rightarrow> 'a failure_world_scheme \<Rightarrow> 'a failure_world_scheme" where
  "keyResendAdvice t key advice w =
     (case t of Obj i \<Rightarrow> w\<lparr>w_keyAdvices := (w_keyAdvices w)(i \<mapsto> (key, advice))\<rparr> | _ \<Rightarrow> w)"

definition keyResendAdviceOf :: "'a failure_world_scheme \<Rightarrow> thrown \<Rightarrow> (jstr \<times> jstr) option" where
  "keyResendAdviceOf w t = (case t of Obj i \<Rightarrow> w_keyAdvices w i | _ \<Rightarrow> None)"

text \<open>An \<^verbatim>\<open>Error\<close> already marked unknown takes no advice.\<close>

definition takes_advice :: "'a failure_world_scheme \<Rightarrow> thrown \<Rightarrow> bool" where
  "takes_advice w t =
     (case object_of w t of None \<Rightarrow> False
      | Some ob \<Rightarrow> object_is_error ob \<and> (case ob of Call_Error e \<Rightarrow> \<not> ce_unknown e | _ \<Rightarrow> True))"

definition carryResendAdvice :: "thrown \<Rightarrow> thrown \<Rightarrow> 'a failure_world_scheme \<Rightarrow> 'a failure_world_scheme" where
  "carryResendAdvice from to w =
     (case to of
        Obj i \<Rightarrow>
          if \<not> takes_advice w to then w
          else
            let w1 = (case resendAdviceOf w from of
                   Some a \<Rightarrow> if w_resendAdvices w i = None then w\<lparr>w_resendAdvices := (w_resendAdvices w)(i \<mapsto> a)\<rparr> else w
                 | None \<Rightarrow> w)
            in (case keyResendAdviceOf w from of
                   Some k \<Rightarrow> if w_keyAdvices w1 i = None then w1\<lparr>w_keyAdvices := (w_keyAdvices w1)(i \<mapsto> k)\<rparr> else w1
                 | None \<Rightarrow> w1)
      | _ \<Rightarrow> w)"

text \<open>An advice that opens a sentence follows the message; any other goes before its closing period.\<close>

fun opens_sentence :: "jstr \<Rightarrow> bool" where
  "opens_sentence (s # c # cs) = (s = 0x20 \<and> upper_unit c)"
| "opens_sentence _ = False"

definition withResendAdvice :: "jstr \<Rightarrow> jstr option \<Rightarrow> jstr" where
  "withResendAdvice message advice =
     (case advice of None \<Rightarrow> message
      | Some a \<Rightarrow> if opens_sentence a \<or> \<not> ends_with message (lit ''.'') then message @ a
                  else butlast message @ a @ lit ''.'')"

definition classifyCallError ::
    "'a failure_world_scheme \<Rightarrow> thrown \<Rightarrow> classification_code \<Rightarrow> call_error_details" where
  "classifyCallError w err fallback =
     (let details = classifyWithoutAdvice w err fallback
      in if cd_unknown details then details
         else details\<lparr>cd_message := withResendAdvice
                (withResendAdvice (cd_message details) (map_option snd (keyResendAdviceOf w err))) (resendAdviceOf w err)\<rparr>)"

text \<open>\<^verbatim>\<open>new WithheldTextError(message, original)\<close>\<close>

definition new_withheld_text :: "jstr \<Rightarrow> thrown \<Rightarrow> 'a failure_world_scheme \<Rightarrow> thrown \<times> 'a failure_world_scheme" where
  "new_withheld_text message original w =
     (let verdict = classifyCallError w original C_connector_call_failed
      in new_object (Withheld_Text \<lparr>wt_message = message, wt_timeout = (cd_code verdict = C_timeout),
           wt_retryable = cd_retryable verdict\<rparr>) w)"

definition isAccessRefusal :: "'a failure_world_scheme \<Rightarrow> thrown \<Rightarrow> bool" where
  "isAccessRefusal w t =
     (case call_error_of w t of None \<Rightarrow> False
      | Some e \<Rightarrow> ce_code e = C_auth_required \<or> ce_code e = C_downstream_oauth_required \<or>
                  ce_code e = C_provider_permission_denied)"

text \<open>\<^verbatim>\<open>unavailableCallError\<close>; \<open>signal\<close> is the reason of an aborted signal.\<close>

definition unavailableCallError ::
    "thrown \<Rightarrow> jstr option \<Rightarrow> jstr \<Rightarrow> thrown option \<Rightarrow> 'a failure_world_scheme \<Rightarrow> thrown \<times> 'a failure_world_scheme" where
  "unavailableCallError failure host message signal w =
     new_call_error C_unavailable message
       (no_options\<lparr>eo_cause := (if signal = Some failure then failure else Undefined_Value),
          eo_details := Some \<lparr>ud_name = None, ud_host = host, ud_code = networkErrorCode w failure\<rparr>\<rparr>) w"

section \<open>Lemmas\<close>

lemma code_table_complete: "c \<in> set code_table"
  by (cases c) (simp_all add: code_table_def)

lemma code_table_names: "list_all (\<lambda>c. find (\<lambda>d. code_name d = code_name c) code_table = Some c) code_table"
  by (simp add: code_table_def)

lemma find_code_name: "find (\<lambda>d. code_name d = code_name c) code_table = Some c"
  using code_table_names code_table_complete [of c] by (simp add: list_all_iff)

text \<open>The optional keys of an object in JSON: one more entry is a comma and the entry.\<close>

lemma joined_snoc: "xs \<noteq> [] \<Longrightarrow> joined (xs @ [x]) = joined xs @ [0x2c] @ x"
  by (induction xs rule: joined.induct) auto

lemma utf8_comma: "utf8 (s @ 0x2c # t) = utf8 s @ 0x2c # utf8 t" "utf8 (s @ [0x7d]) = utf8 s @ [0x7d]"
  using utf8_append [of "0x2c # t" s] ascii_not_surrogate [of "0x2c"] utf8_append [of "[0x7d]" s]
    ascii_not_surrogate [of "0x7d"]
  by (simp_all add: utf8_Cons_plain utf8_ascii)

lemma envelope_truncated:
  assumes "\<not> vd_truncated d"
  shows "envelope_bytes (d\<lparr>vd_truncated := b\<rparr>) \<le> envelope_bytes d + 17"
proof (cases b)
  case True
  obtain es where es: "validation_json d = J_Obj es" "es \<noteq> []"
    "validation_json (d\<lparr>vd_truncated := True\<rparr>) = J_Obj (es @ [(lit ''truncated'', J_Bool True)])"
    using assms by (simp add: validation_json_def)
  let ?f = "\<lambda>e. json_quote (fst e) @ [0x3a] @ json_text (snd e)"
  have plain: "utf8 (lit ''\"truncated\":true}'') = map unat (lit ''\"truncated\":true}'')"
    by (simp add: js_eval utf8_Cons_plain utf8_ascii high_surrogate_def del: utf8.simps(3))
  have "json_text (J_Obj (es @ [(lit ''truncated'', J_Bool True)])) =
      (0x7b # joined (map ?f es)) @ 0x2c # lit ''\"truncated\":true}''"
    using es(2) joined_snoc [of "map ?f es"]
    by (simp add: json_quote_def js_eval escape_unit_def high_surrogate_def low_surrogate_def)
  then have "utf8 (json_text (validation_json (d\<lparr>vd_truncated := True\<rparr>))) =
      utf8 (0x7b # joined (map ?f es)) @ 0x2c # map unat (lit ''\"truncated\":true}'')"
    unfolding es(3) by (simp only: utf8_comma plain)
  moreover have "utf8 (json_text (validation_json d)) = utf8 (0x7b # joined (map ?f es)) @ [0x7d]"
    using utf8_comma(2) [of "0x7b # joined (map ?f es)"] by (simp only: es(1) json_text.simps append_Cons append_Nil append_assoc)
  ultimately show ?thesis using True by (simp add: envelope_bytes_def lit_def)
next
  case False
  then have "d\<lparr>vd_truncated := b\<rparr> = d" using assms by (cases d) simp
  then show ?thesis by simp
qed

lemma pop_issues_spec:
  "(fits (pop_issues d) \<or> length (vd_issues (pop_issues d)) \<le> 1) \<and>
   vd_truncated (pop_issues d) = vd_truncated d \<and> set (vd_issues (pop_issues d)) \<subseteq> set (vd_issues d) \<and>
   length (vd_issues (pop_issues d)) \<le> length (vd_issues d)"
proof (induction d rule: pop_issues.induct)
  case (1 d)
  show ?case
  proof (cases "\<not> fits d \<and> 1 < length (vd_issues d)")
    case True
    let ?d = "d\<lparr>vd_issues := butlast (vd_issues d)\<rparr>"
    have eq: "pop_issues d = pop_issues ?d" using True by (simp add: pop_issues.simps [of d])
    have "set (butlast (vd_issues d)) \<subseteq> set (vd_issues d)" by (auto dest: in_set_butlastD)
    with 1 [OF True] have "set (vd_issues (pop_issues ?d)) \<subseteq> set (vd_issues d)"
      by (simp, metis order_trans)
    with 1 [OF True] show ?thesis unfolding eq by auto
  next
    case False
    then have "pop_issues d = d" by (subst pop_issues.simps) (simp only: if_False)
    with False show ?thesis by auto
  qed
qed

lemma drop_optional_issues [simp]:
  "vd_issues (drop_optional d) = vd_issues d" "vd_truncated (drop_optional d) = vd_truncated d"
  by (simp_all add: drop_optional_def Let_def)

definition item_within :: "nat \<Rightarrow> js_item \<Rightarrow> bool" where
  "item_within n v = (case v of Str s \<Rightarrow> length s \<le> n | Other_Value \<Rightarrow> False)"

definition issue_bounded :: "argument_issue \<Rightarrow> bool" where
  "issue_bounded i \<longleftrightarrow> item_within 256 (ai_path i) \<and> item_within 256 (ai_expected i) \<and>
     (case ai_received i of None \<Rightarrow> True | Some r \<Rightarrow> item_within 64 r)"

lemma tokenPrefix_length: "0 \<le> units \<Longrightarrow> length (tokenPrefix v units) \<le> nat units"
proof (cases "units < int (length v)")
  case True
  then obtain w where "length (tokenPrefix v units @ w) \<le> nat units" by (rule tokenPrefix_split)
  then show ?thesis by simp
qed (simp add: tokenPrefix_def)

lemma clip_item_within: "0 < n \<Longrightarrow> item_within n (fst (clip_item n (Str s)))"
  using tokenPrefix_length [of "int n - 1" s]
  by (auto simp: clip_item_def item_within_def boundedIssueText_def ellipsis_def split: prod.split)

lemma clip_issue_bounded: assumes "issue_ok i" shows "issue_bounded (fst (clip_issue repair i))"
proof -
  obtain p e where "ai_path i = Str p" "ai_expected i = Str e" using assms by (auto simp: issue_ok_def)
  then show ?thesis
    using clip_item_within [of 256 p] clip_item_within [of 256 e] clip_item_within [of 64]
    by (auto simp: clip_issue_def Let_def issue_bounded_def split: prod.split option.split js_item.split)
       (metis fst_conv zero_less_numeral)+
qed

lemma boundedValidation_given: "\<exists>v. boundedValidation (Some d) repair = Some v"
  by (simp add: boundedValidation_def Let_def split_beta)

lemma kept_issues_ok: "i \<in> set (kept_issues xs) \<Longrightarrow> issue_ok i"
  by (auto simp: kept_issues_def)

section \<open>Properties\<close>

text \<open>
  The table of codes is closed and exact (INV-6): a forwarded string is a classification code if and only
  if it is the wire name of one of the codes Connecta assigns, and no two codes share a name.
\<close>

lemma classificationCode_exact:
  "classificationCode v = Some c \<longleftrightarrow> v = Str (code_name c)"
proof
  assume "classificationCode v = Some c"
  then obtain s where v: "v = Str s" "find (\<lambda>d. code_name d = s) code_table = Some c"
    by (auto simp: classificationCode_def split: js_item.splits)
  then have "code_name c = s" by (auto simp: find_Some_iff)
  with v show "v = Str (code_name c)" by simp
qed (simp add: classificationCode_def find_code_name)

text \<open>
  The envelope of a refused call is within 4096 bytes; or nothing is left of it but a single finding, and
  the reason why no example is given. Its findings are the first of the clipped ones.
\<close>

definition bare :: "validation_details \<Rightarrow> bool" where
  "bare v \<longleftrightarrow> length (vd_issues v) \<le> 1 \<and> vd_acceptedKeys v = None \<and> vd_conditionalRequirements v = None \<and>
     vd_example v = None"

lemma pop_issues_keeps [simp]:
  "vd_acceptedKeys (pop_issues d) = vd_acceptedKeys d"
  "vd_conditionalRequirements (pop_issues d) = vd_conditionalRequirements d"
  "vd_example (pop_issues d) = vd_example d"
proof (induction d rule: pop_issues.induct)
  case (1 d)
  show "vd_acceptedKeys (pop_issues d) = vd_acceptedKeys d"
    "vd_conditionalRequirements (pop_issues d) = vd_conditionalRequirements d"
    "vd_example (pop_issues d) = vd_example d"
    by (cases "\<not> fits d \<and> 1 < length (vd_issues d)"; simp add: pop_issues.simps [of d] 1)+
qed

lemma pop_issues_take: "\<exists>n. vd_issues (pop_issues d) = take n (vd_issues d) \<and> (vd_issues d \<noteq> [] \<longrightarrow> 0 < n)"
proof (induction d rule: pop_issues.induct)
  case (1 d)
  show ?case
  proof (cases "\<not> fits d \<and> 1 < length (vd_issues d)")
    case True
    then have "butlast (vd_issues d) \<noteq> []" by (cases "vd_issues d") auto
    with 1 [OF True] obtain n where "0 < n"
      "vd_issues (pop_issues d) = take n (butlast (vd_issues d))"
      using True by (auto simp: pop_issues.simps [of d])
    then show ?thesis using True
      by (intro exI [of _ "min n (length (vd_issues d) - 1)"]) (auto simp: butlast_conv_take)
  next
    case False
    then have "pop_issues d = d" by (subst pop_issues.simps) (simp only: if_False)
    then show ?thesis by (intro exI [of _ "Suc (length (vd_issues d))"]) simp
  qed
qed

lemma shrunk_bare:
  assumes "d = (if fits r then r else drop_optional r)"
  shows "fits (pop_issues d) \<or> bare (pop_issues d)"
proof (cases "fits (pop_issues d)")
  case unfit: False
  then have d: "\<not> fits d" by (auto simp: pop_issues.simps [of d])
  then have "d = drop_optional r" using assms by (auto split: if_splits)
  with d have "vd_acceptedKeys d = None \<and> vd_conditionalRequirements d = None \<and> vd_example d = None"
    by (auto simp: drop_optional_def Let_def split: if_splits)
  then show ?thesis using pop_issues_spec [of d] unfit by (simp add: bare_def)
qed simp

lemma boundedValidation_shape:
  assumes "boundedValidation details repair = Some v"
  obtains d b where "v = (pop_issues d)\<lparr>vd_truncated := b\<rparr>" "\<not> vd_truncated d"
    "vd_issues d = map fst (map (clip_issue repair)
       (take 8 (kept_issues (case details of None \<Rightarrow> [] | Some d \<Rightarrow> vd_issues d))))"
    "fits (pop_issues d) \<or> bare (pop_issues d)"
proof -
  have "\<not> (details = None \<and> repair = None)" using assms by (force simp: boundedValidation_def split: if_splits)
  with assms have "\<exists>r b. (pop_issues (if fits r then r else drop_optional r))\<lparr>vd_truncated := b\<rparr> = v \<and>
    \<not> vd_truncated r \<and> vd_issues r = map fst (map (clip_issue repair)
       (take 8 (kept_issues (case details of None \<Rightarrow> [] | Some d \<Rightarrow> vd_issues d))))"
    by (simp only: boundedValidation_def Let_def split_beta if_False option.inject)
       (intro exI conjI, assumption, simp_all)
  then obtain r b where r: "(pop_issues (if fits r then r else drop_optional r))\<lparr>vd_truncated := b\<rparr> = v"
    "\<not> vd_truncated r" "vd_issues r = map fst (map (clip_issue repair)
       (take 8 (kept_issues (case details of None \<Rightarrow> [] | Some d \<Rightarrow> vd_issues d))))" by blast
  show ?thesis by (rule that [OF r(1) [symmetric]]) (simp_all only: r(3) shrunk_bare [OF refl], simp_all add: r(2,3))
qed

definition findings_bounded :: "argument_issue list \<Rightarrow> bool" where
  "findings_bounded xs \<longleftrightarrow> length xs \<le> 8 \<and> list_all issue_bounded xs"

lemma boundedValidation_bounds:
  assumes "boundedValidation details repair = Some v"
  shows "findings_bounded (vd_issues v) \<and> (envelope_bytes v \<le> 4096 \<or> bare v)"
proof -
  let ?all = "kept_issues (case details of None \<Rightarrow> [] | Some d \<Rightarrow> vd_issues d)"
  let ?issues = "map fst (map (clip_issue repair) (take 8 ?all))"
  obtain d b where v: "v = (pop_issues d)\<lparr>vd_truncated := b\<rparr>" and d: "vd_issues d = ?issues" "\<not> vd_truncated d"
    "fits (pop_issues d) \<or> bare (pop_issues d)"
    using assms by (rule boundedValidation_shape)
  have pop: "set (vd_issues (pop_issues d)) \<subseteq> set ?issues" "length (vd_issues (pop_issues d)) \<le> length ?issues"
    "\<not> vd_truncated (pop_issues d)"
    using pop_issues_spec [of d] d by auto
  have "issue_bounded i" if "i \<in> set ?issues" for i
    using that by (auto dest!: in_set_takeD intro!: clip_issue_bounded dest: kept_issues_ok)
  then have "findings_bounded (vd_issues v)" using pop(1,2) by (auto simp: v findings_bounded_def list_all_iff)
  moreover have "envelope_bytes v \<le> 4096 \<or> bare v"
    using d(3) envelope_truncated [OF pop(3), of b] by (auto simp: v fits_def bare_def)
  ultimately show ?thesis by blast
qed

text \<open>A finding that is given is never lost altogether, and what is passed on comes from the ones given, in order.\<close>

lemma boundedValidation_findings:
  assumes "boundedValidation details repair = Some v"
  shows "\<exists>n. vd_issues v = take n (map (fst \<circ> clip_issue repair)
      (kept_issues (case details of None \<Rightarrow> [] | Some d \<Rightarrow> vd_issues d))) \<and> 0 < n"
proof -
  let ?all = "kept_issues (case details of None \<Rightarrow> [] | Some d \<Rightarrow> vd_issues d)"
  obtain d b where v: "v = (pop_issues d)\<lparr>vd_truncated := b\<rparr>"
    and d: "vd_issues d = map fst (map (clip_issue repair) (take 8 ?all))"
    by (rule boundedValidation_shape [OF assms]) (rule that)
  obtain n where n: "vd_issues (pop_issues d) = take n (vd_issues d)" "vd_issues d \<noteq> [] \<longrightarrow> 0 < n"
    using pop_issues_take by blast
  show ?thesis
  proof (cases "vd_issues d = []")
    case True
    then show ?thesis using n(1) d v by (intro exI [of _ 1]) (cases ?all; simp)
  next
    case False
    with n(2) show ?thesis using n(1) d v
      by (intro exI [of _ "min n 8"]) (simp add: take_map min.commute)
  qed
qed

text \<open>
  The cap of 4096 bytes can be exceeded when one finding is left, since neither it nor the reason why no example
  is given is dropped: 256 control characters cost 1536 bytes each time.
\<close>

lemma quote_control: "quote_body (replicate n 1) = concat (replicate n (unicode_escape 1))"
proof (induction n)
  case (Suc n)
  then show ?case
    by (cases n) (simp_all add: escape_unit_def high_surrogate_def word_less_nat_alt word_le_nat_alt)
qed simp

lemma utf8_control: "utf8 (concat (replicate n (unicode_escape 1)) @ t) = concat (replicate n (map unat (unicode_escape 1))) @ utf8 t"
proof (induction n)
  case (Suc n)
  then show ?case
    by (simp add: unicode_escape_def Let_def hex_digit_def utf8_Cons_plain utf8_ascii high_surrogate_def del: utf8.simps(3))
qed simp

definition details_clean :: "'a failure_world_scheme \<Rightarrow> unavailable_details \<Rightarrow> bool" where
  "details_clean w d \<longleftrightarrow>
     (case ud_code d of None \<Rightarrow> True | Some c \<Rightarrow> c \<in> set network_error_codes) \<and>
     (case ud_name d of None \<Rightarrow> True | Some n \<Rightarrow> error_class_re n) \<and>
     (case ud_host d of None \<Rightarrow> True | Some h \<Rightarrow> length (utf8 h) \<le> 253 \<and> h \<in> ran (w_http_origin w))"

definition current_clean :: "(jstr \<times> int) list \<Rightarrow> bool" where
  "current_clean es \<longleftrightarrow> es \<noteq> [] \<and> length es \<le> 20 \<and>
     list_all (\<lambda>(k, v). 0 < length k \<and> length k \<le> 128 \<and> 0 \<le> v \<and> v \<le> 9007199254740991) es"

lemma sanitized_clean:
  "sanitizedUnavailableDetails w details = Some d \<Longrightarrow> details_clean w d"
  by (cases details)
     (auto simp: sanitizedUnavailableDetails_def Let_def details_clean_def networkCode_def ran_def
        split: option.splits if_splits bind_splits)

lemma current_entry_clean:
  "current_entry e = Some (k, n) \<Longrightarrow> 0 < length k \<and> length k \<le> 128 \<and> 0 \<le> n \<and> n \<le> 9007199254740991"
  by (auto simp: current_entry_def floor_le_iff split: prod.splits js_number.splits if_splits)

lemma boundedCurrent_clean: assumes "boundedCurrent current = Some es" shows "current_clean es"
proof -
  from assms obtain es0 where es: "es = take 20 (List.map_filter current_entry es0)" "es \<noteq> []"
    by (auto simp: boundedCurrent_def Let_def split: option.splits if_splits)
  have "0 < length k \<and> length k \<le> 128 \<and> 0 \<le> n \<and> n \<le> 9007199254740991" if mem: "(k, n) \<in> set es" for k n
  proof -
    obtain e where "current_entry e = Some (k, n)"
      using in_set_takeD [OF mem [unfolded es(1)]] by (auto simp: map_filter_def)
    then show ?thesis by (rule current_entry_clean)
  qed
  with es show ?thesis by (auto simp: current_clean_def list_all_iff)
qed

text \<open>
  The wait that is passed on is the number given, cut to a whole number of milliseconds; a negative,
  infinite or undefined one is no wait at all. A wait has no upper bound.
\<close>

definition wait_of :: "js_number option \<Rightarrow> int option \<Rightarrow> bool" where
  "wait_of given wait \<longleftrightarrow>
     (case wait of
        Some t \<Rightarrow> (\<exists>q. given = Some (Finite q) \<and> 0 \<le> t \<and> of_int t \<le> q \<and> q < of_int t + 1)
      | None \<Rightarrow> (\<nexists>q. given = Some (Finite q) \<and> 0 \<le> q))"

lemma normalizeRetryAfterMs_wait: "wait_of v (normalizeRetryAfterMs v)"
  using floor_correct
  by (auto simp: wait_of_def normalizeRetryAfterMs_def trunc_def not_less split: option.splits js_number.splits)

definition validation_bounded :: "call_error_options \<Rightarrow> validation_details \<Rightarrow> bool" where
  "validation_bounded opts v \<longleftrightarrow> findings_bounded (vd_issues v) \<and> (envelope_bytes v \<le> 4096 \<or> bare v) \<and>
     (\<exists>n>0. vd_issues v = take n (map (fst \<circ> clip_issue (eo_repair opts))
        (kept_issues (case eo_validation opts of None \<Rightarrow> [] | Some d \<Rightarrow> vd_issues d))))"

lemma boundedValidation_bounded:
  "boundedValidation (eo_validation opts) (eo_repair opts) = Some v \<Longrightarrow> validation_bounded opts v"
  using boundedValidation_bounds [of "eo_validation opts" "eo_repair opts" v]
    boundedValidation_findings [of "eo_validation opts" "eo_repair opts" v]
  by (auto simp: validation_bounded_def)

text \<open>
  C38. What a constructed failure may carry beside its message is bounded whatever the connector passed.
  A wait is the number given, cut to whole milliseconds, and never negative (it has no upper bound). Findings are
  given for \<^verbatim>\<open>invalid_args\<close> only: at most eight, each with a path and an expectation of at most
  256 code units and a received type of at most 64, and the whole envelope takes at most 4096 bytes of JSON, or
  nothing is left in it but one finding and the reason why no example is given; what is passed on is a
  non-empty prefix of the given findings, if there were any. At most 20 positions, with names of at most 128 units and
  safe whole numbers, for \<^verbatim>\<open>conflict\<close> only. Of the transport diagnostics, for
  \<^verbatim>\<open>unavailable\<close> or an unknown outcome only, a registered errno, an error class label and an
  origin the URL parser returned survive.
\<close>

theorem make_call_error_bounded:
  "let e = make_call_error w code message opts in
     wait_of (eo_retryAfterMs opts) (ce_retryAfterMs e) \<and>
     (case ce_details e of None \<Rightarrow> True | Some d \<Rightarrow> (code = C_unavailable \<or> ce_unknown e) \<and> details_clean w d) \<and>
     (case ce_current e of None \<Rightarrow> True | Some es \<Rightarrow> code = C_conflict \<and> current_clean es) \<and>
     (case ce_validation e of None \<Rightarrow> True | Some v \<Rightarrow> code = C_invalid_args \<and> validation_bounded opts v)"
  by (auto simp: make_call_error_def Let_def normalizeRetryAfterMs_wait
      dest: sanitized_clean boundedCurrent_clean boundedValidation_bounded
      split: option.splits if_splits)

text \<open>
  Withholding a failure's text keeps its verdict: for a failure that is not already typed, the
  substitute is retryable exactly when the original is, a timeout exactly when the original is, and it takes the
  caller's fallback code wherever the original does. (A network errno other than a timeout, which the original
  reports as \<^verbatim>\<open>unavailable\<close>, becomes the fallback code, still retryable.)
\<close>

theorem withheld_keeps_verdict:
  assumes "call_error_of w original = None" and "withheld_of w original = None"
    and "new_withheld_text message original w = (t, w')"
  shows "let a = classifyWithoutAdvice w original fallback; b = classifyWithoutAdvice w' t fallback in
    cd_retryable b = cd_retryable a \<and> cd_message b = message \<and>
    cd_code b = (case networkErrorCode w original of None \<Rightarrow> cd_code a
                 | Some c \<Rightarrow> if timeout_code c then cd_code a else fallback)"
proof -
  have ob: "\<not> (\<exists>e. object_of w original = Some (Call_Error e))" "\<not> (\<exists>e. object_of w original = Some (Withheld_Text e))"
    using assms(1,2) by (auto simp: call_error_of_def withheld_of_def)
  have plain: "classifyWithoutAdvice w original f = (case networkErrorCode w original of
      None \<Rightarrow> plain_details f (msg w original) False
    | Some c \<Rightarrow> plain_details (if timeout_code c then C_timeout else C_unavailable) (msg w original) True)" for f
    using ob by (auto simp: classifyWithoutAdvice_def split: option.split error_object.split)
  have t: "t = Obj (w_next w)" "w_objects w' (w_next w) = Some (Withheld_Text
      \<lparr>wt_message = message, wt_timeout = (cd_code (classifyCallError w original C_connector_call_failed) = C_timeout),
       wt_retryable = cd_retryable (classifyCallError w original C_connector_call_failed)\<rparr>)"
    using assms(3) by (auto simp: new_withheld_text_def new_object_def Let_def)
  then show ?thesis
    by (simp add: classifyWithoutAdvice_def [of w'] object_of_def plain classifyCallError_def Let_def
        plain_details_def split: option.split)
qed

text \<open>A store that holds one failure: a refused connection, or a runtime deadline.\<close>

definition demo_world :: "jstr \<Rightarrow> js_item \<Rightarrow> failure_world" where
  "demo_world name code =
     \<lparr>w_http_origin = Map.empty,
      w_objects = [0 \<mapsto> Other_Object \<lparr>oo_isError = True, oo_name = name, oo_text = lit ''failed'', oo_code = code,
        oo_cause = Undefined_Value, oo_label = None\<rparr>],
      w_next = 1, w_resendAdvices = Map.empty, w_keyAdvices = Map.empty\<rparr>"

theorem withheld_keeps_verdict_witness:
  "let w = demo_world (lit ''TimeoutError'') Other_Value; (t, w') = new_withheld_text (lit ''withheld'') (Obj 0) w in
     cd_code (classifyWithoutAdvice w' t C_catalog_lookup_failed) = C_timeout"
proof -
  let ?w = "demo_world (lit ''TimeoutError'') Other_Value"
  obtain t w' where t: "new_withheld_text (lit ''withheld'') (Obj 0) ?w = (t, w')" by force
  have ob: "object_of ?w (Obj 0) = Some (Other_Object \<lparr>oo_isError = True, oo_name = lit ''TimeoutError'',
      oo_text = lit ''failed'', oo_code = Other_Value, oo_cause = Undefined_Value, oo_label = None\<rparr>)"
    by (simp add: object_of_def demo_world_def)
  then have net: "networkErrorCode ?w (Obj 0) = Some (lit ''timeout'')"
    by (simp add: networkErrorCode_def object_is_error_def object_name_def)
  have "call_error_of ?w (Obj 0) = None" "withheld_of ?w (Obj 0) = None"
    using ob by (simp_all add: call_error_of_def withheld_of_def)
  from withheld_keeps_verdict [OF this t, of C_catalog_lookup_failed] net ob t show ?thesis
    by (simp add: Let_def classifyWithoutAdvice_def timeout_code_def plain_details_def)
qed

text \<open>
  The exception is real: a refused connection is \<^verbatim>\<open>unavailable\<close> in its own words and
  the caller's fallback code once its text is withheld.
\<close>

lemma withheld_loses_unavailable:
  "let w = demo_world (lit ''Error'') (Str (lit ''ECONNREFUSED'')); (t, w') = new_withheld_text (lit ''x'') (Obj 0) w in
     cd_code (classifyWithoutAdvice w (Obj 0) C_connector_call_failed) = C_unavailable \<and>
     cd_code (classifyWithoutAdvice w' t C_connector_call_failed) = C_connector_call_failed"
  by (simp add: demo_world_def new_withheld_text_def new_object_def Let_def classifyCallError_def
      classifyWithoutAdvice_def object_of_def networkErrorCode_def object_is_error_def object_name_def
      object_code_def networkCode_def network_error_codes_def or_else_def timeout_code_def plain_details_def
      ends_with_def js_eval)

definition demo_findings :: validation_details where
  "demo_findings =
     \<lparr>vd_issues = [\<lparr>ai_path = Str (replicate 256 1), ai_expected = Str (replicate 256 1),
        ai_received = Some (Str (replicate 64 1))\<rparr>], vd_acceptedKeys = None, vd_conditionalRequirements = None,
      vd_example = None, vd_exampleUnavailable = Some (replicate 256 1), vd_truncated = False\<rparr>"

lemma length_unicode_escape [simp]: "length (unicode_escape c) = 6"
  by (simp add: unicode_escape_def Let_def)

lemma demo_findings_bytes:
  "envelope_bytes demo_findings = 5068" "envelope_bytes (demo_findings\<lparr>vd_truncated := True\<rparr>) = 5085"
  by (simp_all add: envelope_bytes_def validation_json_def demo_findings_def issue_json_def item_json_def json_quote_def
      quote_control js_eval escape_unit_def high_surrogate_def low_surrogate_def utf8_Cons_plain utf8_ascii utf8_control
      length_concat sum_list_replicate word_le_nat_alt del: utf8.simps(3))

lemma envelope_over_cap:
  "boundedValidation (Some demo_findings) None = Some (demo_findings\<lparr>vd_truncated := True\<rparr>) \<and>
   4096 < envelope_bytes (demo_findings\<lparr>vd_truncated := True\<rparr>)"
proof -
  have over: "\<not> fits demo_findings" by (simp add: fits_def demo_findings_bytes)
  then have "drop_optional demo_findings = demo_findings"
    by (simp add: drop_optional_def demo_findings_def Let_def)
  moreover have "pop_issues demo_findings = demo_findings"
    by (subst pop_issues.simps) (simp add: demo_findings_def)
  ultimately have "boundedValidation (Some demo_findings) None = Some (demo_findings\<lparr>vd_truncated := True\<rparr>)"
    using over
    by (simp add: boundedValidation_def demo_findings_def Let_def kept_issues_def issue_ok_def clip_issue_def clip_item_def
        boundedIssueText_def from_both_def or_else_def present_def)
  then show ?thesis by (simp add: demo_findings_bytes)
qed

end
