(* ===== verification/Provider_Call.thy ===== *)
theory Provider_Call
  imports Call_Errors Tool_Safety
begin

text \<open>
  The ledger of physical requests a call sends and the provenance of its failures:
  \<^verbatim>\<open>src/provider-call-facts.ts\<close> and \<^verbatim>\<open>src/provider-call.ts\<close>, with
  the facts \<^verbatim>\<open>src/operator-record.ts\<close> carries from a failure to its rebuilt copy. Objects
  are kept by identity (numbers) in one store, since weak maps, wrappers and copies are what the rules are about.
\<close>

section \<open>Data\<close>

text \<open>\<^verbatim>\<open>ProviderRequest\<close>; optional flags that are only ever \<^verbatim>\<open>true\<close> are booleans.\<close>

record provider_request =
  pr_dispatched :: bool
  pr_status :: "int option"
  pr_auxiliary :: bool
  pr_blocksAuxiliaryProof :: bool
  pr_provider :: jstr
  pr_method :: "jstr option"
  pr_classification :: "tool_class option"
  pr_sourceWrite :: bool
  pr_key :: "jstr option"
  pr_authBeforeExecution :: bool
  pr_renewed :: bool

record provider_call =
  pc_requests :: "nat list"
  pc_classification :: "tool_class option"
  pc_closed :: bool
  pc_nested :: "nat list"
  pc_parent :: "nat option"

record logical_call =
  lc_target :: nat
  lc_entered :: nat
  lc_boundaries :: "nat list"
  lc_sent :: "nat list"
  lc_auxiliaryReads :: "nat list"
  lc_nonReadAuxiliaryDispatched :: bool

text \<open>Facts noted about a failure, by name; only operator records read them.\<close>

type_synonym failure_facts = "jstr \<rightharpoonup> jstr"

record provider_world = failure_world +
  p_requests :: "nat \<Rightarrow> provider_request"
  p_next_request :: nat
  p_calls :: "nat \<Rightarrow> provider_call"
  p_next_call :: nat
  p_logical :: "nat \<Rightarrow> logical_call"
  p_next_logical :: nat
  p_refusals :: "nat \<rightharpoonup> nat"
  p_knownFailures :: "nat set"
  p_explained :: "nat set"
  p_settled :: "nat set"
  p_unauthorizedAnswers :: "nat \<rightharpoonup> nat"
  p_attached :: "nat \<rightharpoonup> failure_facts"
  p_tracked :: "nat set"
  p_boundaries :: "nat \<rightharpoonup> nat \<times> nat"
  p_delegators :: "nat \<rightharpoonup> nat"
  p_aliases :: "nat \<rightharpoonup> nat"
  p_handoffs :: "nat \<rightharpoonup> nat"
  p_responses :: "nat \<rightharpoonup> nat \<times> nat"
  p_leaseParent :: "nat \<rightharpoonup> nat"
  p_next_lease :: nat
  p_callLease :: "nat \<rightharpoonup> nat"
  p_closedLeases :: "nat set"
  p_closedRequests :: "nat set"

text \<open>
  What a \<^verbatim>\<open>ConnectorContext\<close> view gives access to: its ledger, its logical call, the recorded
  classifications, its request scope and lease, and the reason of the caller's aborted signal. The views map of
  \<^verbatim>\<open>src/runtime/call.ts\<close> ties the ledger of an entered call to the one lease its view has
  (\<open>p_callLease\<close>); \<open>p_leaseParent\<close> is the lease whose signal a lease follows.
\<close>

record call_ctx =
  cx_ledger :: "nat option"
  cx_logical :: "nat option"
  cx_classification :: "tool_class option"
  cx_served :: "tool_class option"
  cx_request :: nat
  cx_lease :: "nat option"
  cx_aborted :: "thrown option"

datatype ledger_error = Request_Has_Ended | Call_Has_Ended | Already_Dispatched | Already_Answered

section \<open>Construction identities (provider-call-facts.ts)\<close>

definition originalCallIdentity :: "provider_world \<Rightarrow> nat \<Rightarrow> nat" where
  "originalCallIdentity w c = (case p_aliases w c of Some b \<Rightarrow> b | None \<Rightarrow> c)"

definition tracksEveryRequest :: "nat \<Rightarrow> provider_world \<Rightarrow> provider_world" where
  "tracksEveryRequest c w = w\<lparr>p_tracked := insert c (p_tracked w)\<rparr>"

definition tracksRequests :: "provider_world \<Rightarrow> nat \<Rightarrow> bool" where
  "tracksRequests w c \<longleftrightarrow> c \<in> p_tracked w"

definition delegatesEachCall :: "nat \<Rightarrow> nat \<Rightarrow> provider_world \<Rightarrow> provider_world" where
  "delegatesEachCall c callTool w = w\<lparr>p_delegators := (p_delegators w)(c \<mapsto> callTool)\<rparr>"

definition providerBoundary :: "nat \<Rightarrow> nat \<Rightarrow> provider_world \<Rightarrow> provider_world" where
  "providerBoundary c callTool w = w\<lparr>p_boundaries := (p_boundaries w)(c \<mapsto> (c, callTool))\<rparr>"

definition aliasCallIdentity :: "nat \<Rightarrow> nat \<Rightarrow> provider_world \<Rightarrow> provider_world" where
  "aliasCallIdentity alias base w =
     (let w1 = w\<lparr>p_aliases := (p_aliases w)(alias \<mapsto> originalCallIdentity w base)\<rparr>;
          w2 = (case p_boundaries w base of Some b \<Rightarrow> w1\<lparr>p_boundaries := (p_boundaries w1)(alias \<mapsto> b)\<rparr> | None \<Rightarrow> w1)
      in (case p_delegators w base of Some d \<Rightarrow> w2\<lparr>p_delegators := (p_delegators w2)(alias \<mapsto> d)\<rparr> | None \<Rightarrow> w2))"

section \<open>Failure provenance (provider-call-facts.ts)\<close>

definition set_request :: "nat \<Rightarrow> (provider_request \<Rightarrow> provider_request) \<Rightarrow> provider_world \<Rightarrow> provider_world" where
  "set_request r f w = w\<lparr>p_requests := (p_requests w)(r := f (p_requests w r))\<rparr>"

definition recordProviderResponse :: "nat \<Rightarrow> int \<Rightarrow> provider_world \<Rightarrow> ledger_error + provider_world" where
  "recordProviderResponse r status w =
     (if pr_status (p_requests w r) \<noteq> None then Inl Already_Answered
      else Inr (set_request r (\<lambda>q. q\<lparr>pr_status := Some status\<rparr>) w))"

definition refusedStatus :: "int option \<Rightarrow> bool" where
  "refusedStatus s = (case s of None \<Rightarrow> False | Some n \<Rightarrow> 400 \<le> n \<and> n < 500 \<and> n \<noteq> 408)"

definition authorizationFailure :: "'a failure_world_scheme \<Rightarrow> thrown \<Rightarrow> bool" where
  "authorizationFailure w t =
     (case call_error_of w t of None \<Rightarrow> False
      | Some e \<Rightarrow> ce_code e = C_auth_required \<or> ce_code e = C_downstream_oauth_required)"

definition vendorRefusal :: "thrown \<Rightarrow> nat \<Rightarrow> provider_world \<Rightarrow> provider_world" where
  "vendorRefusal t r w =
     (case t of
        Obj i \<Rightarrow>
          if refusedStatus (pr_status (p_requests w r)) then
            let w1 = w\<lparr>p_refusals := (p_refusals w)(i \<mapsto> r)\<rparr>
            in if pr_status (p_requests w r) = Some 401 \<and> authorizationFailure w t \<and> p_unauthorizedAnswers w r = None
               then w1\<lparr>p_unauthorizedAnswers := (p_unauthorizedAnswers w1)(r \<mapsto> i)\<rparr> else w1
          else w
      | _ \<Rightarrow> w)"

definition unauthorizedAnswer :: "provider_world \<Rightarrow> nat \<Rightarrow> thrown option" where
  "unauthorizedAnswer w r = map_option Obj (p_unauthorizedAnswers w r)"

definition renewedAfterUnauthorized :: "nat option \<Rightarrow> jstr \<Rightarrow> jstr \<Rightarrow> provider_world \<Rightarrow> provider_world" where
  "renewedAfterUnauthorized req sent fresh w =
     (case req of None \<Rightarrow> w
      | Some r \<Rightarrow> if pr_status (p_requests w r) = Some 401 \<and> fresh \<noteq> sent \<and> \<not> pr_renewed (p_requests w r)
                  then set_request r (\<lambda>q. q\<lparr>pr_renewed := True\<rparr>) w else w)"

definition refusalRequest :: "provider_world \<Rightarrow> thrown \<Rightarrow> nat option" where
  "refusalRequest w t = (case t of Obj i \<Rightarrow> p_refusals w i | _ \<Rightarrow> None)"

definition knownProviderFailure :: "thrown \<Rightarrow> nat option \<Rightarrow> provider_world \<Rightarrow> provider_world" where
  "knownProviderFailure t unsent w =
     (case t of
        Obj i \<Rightarrow>
          let w1 = w\<lparr>p_knownFailures := insert i (p_knownFailures w)\<rparr>
          in (case unsent of
                Some r \<Rightarrow> if \<not> pr_dispatched (p_requests w r) then w1\<lparr>p_refusals := (p_refusals w1)(i \<mapsto> r)\<rparr> else w1
              | None \<Rightarrow> w1)
      | _ \<Rightarrow> w)"

definition marked_in :: "(provider_world \<Rightarrow> nat set) \<Rightarrow> provider_world \<Rightarrow> thrown \<Rightarrow> bool" where
  "marked_in tbl w t = (case t of Obj i \<Rightarrow> i \<in> tbl w | _ \<Rightarrow> False)"

definition isKnownProviderFailure :: "provider_world \<Rightarrow> thrown \<Rightarrow> bool" where
  "isKnownProviderFailure = marked_in p_knownFailures"

definition explainsUnauthorized :: "provider_world \<Rightarrow> thrown \<Rightarrow> bool" where
  "explainsUnauthorized = marked_in p_explained"

definition isSettledWrite :: "provider_world \<Rightarrow> thrown \<Rightarrow> bool" where
  "isSettledWrite = marked_in p_settled"

definition forgetProviderFailure :: "nat \<Rightarrow> provider_world \<Rightarrow> provider_world" where
  "forgetProviderFailure i w =
     w\<lparr>p_knownFailures := p_knownFailures w - {i}, p_refusals := (p_refusals w)(i := None)\<rparr>"

definition explainedUnauthorizedVerdict :: "thrown \<Rightarrow> provider_world \<Rightarrow> provider_world" where
  "explainedUnauthorizedVerdict t w = (case t of Obj i \<Rightarrow> w\<lparr>p_explained := insert i (p_explained w)\<rparr> | _ \<Rightarrow> w)"

definition settledWrite :: "thrown \<Rightarrow> provider_world \<Rightarrow> provider_world" where
  "settledWrite t w = (case t of Obj i \<Rightarrow> w\<lparr>p_settled := insert i (p_settled w)\<rparr> | _ \<Rightarrow> w)"

definition carryProviderFailure :: "thrown \<Rightarrow> thrown \<Rightarrow> provider_world \<Rightarrow> provider_world" where
  "carryProviderFailure from to w =
     (case to of
        Obj i \<Rightarrow>
          let w1 = (case refusalRequest w from of Some r \<Rightarrow> w\<lparr>p_refusals := (p_refusals w)(i \<mapsto> r)\<rparr> | None \<Rightarrow> w);
              w2 = (if isKnownProviderFailure w1 from then w1\<lparr>p_knownFailures := insert i (p_knownFailures w1)\<rparr> else w1);
              w3 = (if explainsUnauthorized w2 from then w2\<lparr>p_explained := insert i (p_explained w2)\<rparr> else w2);
              w4 = (if isSettledWrite w3 from then w3\<lparr>p_settled := insert i (p_settled w3)\<rparr> else w3)
          in carryResendAdvice from to w4
      | _ \<Rightarrow> w)"

section \<open>Facts for operator records (operator-record.ts)\<close>

definition errorLabel :: "'a failure_world_scheme \<Rightarrow> thrown \<Rightarrow> jstr option" where
  "errorLabel w t =
     (case object_of w t of None \<Rightarrow> None
      | Some (Call_Error _) \<Rightarrow> Some (lit ''ConnectorCallError'')
      | Some (Withheld_Text _) \<Rightarrow> Some (lit ''WithheldTextError'')
      | Some (Other_Object x) \<Rightarrow> oo_label x)"

definition facts_of :: "provider_world \<Rightarrow> thrown \<Rightarrow> failure_facts" where
  "facts_of w t = (case t of Obj i \<Rightarrow> (case p_attached w i of Some f \<Rightarrow> f | None \<Rightarrow> Map.empty) | _ \<Rightarrow> Map.empty)"

definition attachFailureFacts :: "thrown \<Rightarrow> failure_facts \<Rightarrow> provider_world \<Rightarrow> provider_world" where
  "attachFailureFacts t facts w =
     (case t of Obj i \<Rightarrow> w\<lparr>p_attached := (p_attached w)(i \<mapsto> facts_of w t ++ facts)\<rparr> | _ \<Rightarrow> w)"

definition carryFailureFacts :: "thrown \<Rightarrow> thrown \<Rightarrow> provider_world \<Rightarrow> provider_world" where
  "carryFailureFacts from to w =
     (let w1 = carryProviderFailure from to w
      in (case to of
            Obj i \<Rightarrow>
              let label = (case errorLabel w1 from of Some l \<Rightarrow> [lit ''errorClass'' \<mapsto> l] | None \<Rightarrow> Map.empty)
              in w1\<lparr>p_attached := (p_attached w1)(i \<mapsto> (label ++ facts_of w1 from) ++ facts_of w1 to)\<rparr>
          | _ \<Rightarrow> w1))"

section \<open>The ledger (provider-call.ts)\<close>

definition requestClosed :: "provider_world \<Rightarrow> call_ctx \<Rightarrow> bool" where
  "requestClosed w ctx \<longleftrightarrow> cx_request ctx \<in> p_closedRequests w"

text \<open>
  Leases (\<^verbatim>\<open>openCall\<close>). \<open>revokeLease\<close> is the close of a lease, and the abort of one of
  the signals it follows. A lease follows the signal of the lease it was opened under, so it is closed with it, and
  at once when it is opened under one already closed; the guard that a parent is older makes the walk total.
  \<open>callFromContext\<close> keeps the lease alone of what the source opens; that it refuses a copied view, and a
  view without a budget once a request is admitted, is left out (a refused entry opens nothing).
\<close>

definition revokeLease :: "nat \<Rightarrow> provider_world \<Rightarrow> provider_world" where
  "revokeLease l w = w\<lparr>p_closedLeases := insert l (p_closedLeases w)\<rparr>"

function lease_closed :: "provider_world \<Rightarrow> nat \<Rightarrow> bool" where
  "lease_closed w l =
     (l \<in> p_closedLeases w \<or>
      (case p_leaseParent w l of None \<Rightarrow> False | Some p \<Rightarrow> if p < l then lease_closed w p else False))"
  by pat_completeness auto
termination
  by (relation "measure snd") auto

declare lease_closed.simps [simp del]

definition callFromContext :: "call_ctx \<Rightarrow> provider_world \<Rightarrow> nat \<times> provider_world" where
  "callFromContext ctx w =
     (let l = p_next_lease w;
          w1 = w\<lparr>p_leaseParent := (p_leaseParent w)(l := cx_lease ctx), p_next_lease := Suc l\<rparr>
      in (l, if requestClosed w ctx \<or> cx_aborted ctx \<noteq> None then revokeLease l w1 else w1))"

definition providerCallContext ::
    "call_ctx \<Rightarrow> tool_class option \<Rightarrow> provider_world \<Rightarrow> call_ctx \<times> provider_world" where
  "providerCallContext ctx cls w =
     (let c = p_next_call w;
          w1 = w\<lparr>p_calls := (p_calls w)(c := \<lparr>pc_requests = [], pc_classification = cls, pc_closed = False,
                  pc_nested = [], pc_parent = cx_ledger ctx\<rparr>), p_next_call := Suc c\<rparr>;
          w2 = (case cx_ledger ctx of None \<Rightarrow> w1
                | Some p \<Rightarrow> w1\<lparr>p_calls := (p_calls w1)(p := (p_calls w1 p)\<lparr>pc_nested := pc_nested (p_calls w1 p) @ [c]\<rparr>)\<rparr>);
          class' = (case cls of Some k \<Rightarrow> k | None \<Rightarrow> (case cx_served ctx of Some k \<Rightarrow> k | None \<Rightarrow> Write));
          (lease, w3) = callFromContext ctx w2
      in (ctx\<lparr>cx_ledger := Some c, cx_classification := Some class', cx_lease := Some lease\<rparr>,
          w3\<lparr>p_callLease := (p_callLease w3)(c \<mapsto> lease)\<rparr>))"

definition nestedProviderCall :: "provider_world \<Rightarrow> call_ctx \<Rightarrow> bool" where
  "nestedProviderCall w ctx = (case cx_ledger ctx of None \<Rightarrow> False | Some c \<Rightarrow> pc_parent (p_calls w c) \<noteq> None)"

definition providerRequests :: "provider_world \<Rightarrow> call_ctx \<Rightarrow> nat list option" where
  "providerRequests w ctx = map_option (\<lambda>c. pc_requests (p_calls w c)) (cx_ledger ctx)"

text \<open>
  The walk over nested calls. A nested call is created after the call that enters it, so its number is larger;
  the guard that says so is what makes the walk a total function.
\<close>

function nested_requests :: "provider_world \<Rightarrow> nat \<Rightarrow> nat list" where
  "nested_requests w c =
     concat (map (\<lambda>i. if c < i \<and> i < p_next_call w then pc_requests (p_calls w i) @ nested_requests w i else [])
       (pc_nested (p_calls w c)))"
  by pat_completeness auto
termination
  by (relation "measure (\<lambda>(w, c). p_next_call w - c)") auto

declare nested_requests.simps [simp del]

definition nestedProviderRequests :: "provider_world \<Rightarrow> call_ctx \<Rightarrow> nat list" where
  "nestedProviderRequests w ctx = (case cx_ledger ctx of None \<Rightarrow> [] | Some c \<Rightarrow> nested_requests w c)"

text \<open>The calls at or beneath a call, in the order \<^verbatim>\<open>close\<close> visits them.\<close>

function call_tree :: "provider_world \<Rightarrow> nat \<Rightarrow> nat list" where
  "call_tree w c =
     c # concat (map (\<lambda>i. if c < i \<and> i < p_next_call w then call_tree w i else []) (pc_nested (p_calls w c)))"
  by pat_completeness auto
termination
  by (relation "measure (\<lambda>(w, c). p_next_call w - c)") auto

declare call_tree.simps [simp del]

definition mark_closed :: "nat list \<Rightarrow> provider_world \<Rightarrow> provider_world" where
  "mark_closed cs w = fold (\<lambda>i v. v\<lparr>p_calls := (p_calls v)(i := (p_calls v i)\<lparr>pc_closed := True\<rparr>)\<rparr>) cs w"

definition closeProviderCall :: "call_ctx \<Rightarrow> provider_world \<Rightarrow> provider_world" where
  "closeProviderCall ctx w =
     (let w1 = (case cx_ledger ctx of None \<Rightarrow> w
          | Some c \<Rightarrow> mark_closed (call_tree w c) w)
      in (case cx_lease ctx of None \<Rightarrow> w1 | Some l \<Rightarrow> revokeLease l w1))"

definition viewClosed :: "provider_world \<Rightarrow> call_ctx \<Rightarrow> bool" where
  "viewClosed w ctx \<longleftrightarrow> requestClosed w ctx \<or> (case cx_lease ctx of None \<Rightarrow> False | Some l \<Rightarrow> lease_closed w l)"

definition assertProviderCallOpen :: "provider_world \<Rightarrow> call_ctx \<Rightarrow> bool \<Rightarrow> ledger_error option" where
  "assertProviderCallOpen w ctx auxiliary =
     (if requestClosed w ctx then Some Request_Has_Ended
      else if auxiliary \<or> (\<not> (case cx_ledger ctx of None \<Rightarrow> False | Some c \<Rightarrow> pc_closed (p_calls w c)) \<and> \<not> viewClosed w ctx)
           then None
      else Some Call_Has_Ended)"

text \<open>Headers by their lower-cased names.\<close>

definition hasMethodOverride :: "jstr list \<Rightarrow> bool" where
  "hasMethodOverride headers =
     list_ex (\<lambda>n. n \<in> set headers)
       [lit ''x-http-method-override'', lit ''x-http-method'', lit ''x-method-override'']"

definition upper_case :: "code_unit \<Rightarrow> code_unit" where
  "upper_case c = (if 0x61 \<le> c \<and> c \<le> 0x7a then c - 0x20 else c)"

definition readRequest :: "tool_class option \<Rightarrow> jstr option \<Rightarrow> jstr list option \<Rightarrow> bool" where
  "readRequest cls verb headers \<longleftrightarrow>
     cls = Some Read \<and>
     (case verb of None \<Rightarrow> False
      | Some m \<Rightarrow> map upper_case m = lit ''GET'' \<or> map upper_case m = lit ''HEAD'') \<and>
     (case headers of None \<Rightarrow> True | Some hs \<Rightarrow> \<not> hasMethodOverride hs)"

definition read_request_of :: "provider_request \<Rightarrow> bool" where
  "read_request_of q = readRequest (pr_classification q) (pr_method q) None"

text \<open>\<^verbatim>\<open>dispatchProviderRequest\<close>; \<open>ctx\<close> is absent for a send outside any view.\<close>

definition note_dispatch :: "nat \<Rightarrow> nat \<Rightarrow> jstr list option \<Rightarrow> jstr option \<Rightarrow> provider_world \<Rightarrow> provider_world" where
  "note_dispatch l r headers verb w =
     (let lc = p_logical w l; q = p_requests w r;
          lc' = (if \<not> pr_auxiliary q then lc\<lparr>lc_sent := lc_sent lc @ [r]\<rparr>
                 else if verb \<noteq> None \<and> readRequest (Some Read) verb headers
                   then lc\<lparr>lc_auxiliaryReads := lc_auxiliaryReads lc @ [r]\<rparr>
                 else if pr_blocksAuxiliaryProof q then lc\<lparr>lc_nonReadAuxiliaryDispatched := True\<rparr>
                 else lc)
      in w\<lparr>p_logical := (p_logical w)(l := lc')\<rparr>)"

definition dispatchProviderRequest ::
    "call_ctx option \<Rightarrow> nat \<Rightarrow> jstr list option \<Rightarrow> jstr option \<Rightarrow> provider_world \<Rightarrow> ledger_error + provider_world" where
  "dispatchProviderRequest ctx r headers given w =
     (let verb = (case given of Some m \<Rightarrow> Some m | None \<Rightarrow> pr_method (p_requests w r)) in
      case Option.bind ctx (\<lambda>c. assertProviderCallOpen w c (pr_auxiliary (p_requests w r))) of
        Some e \<Rightarrow> Inl e
      | None \<Rightarrow>
          if pr_dispatched (p_requests w r) then Inl Already_Dispatched
          else
            let w1 = set_request r (\<lambda>q. q\<lparr>pr_classification :=
                       (if hasMethodOverride (case headers of None \<Rightarrow> [] | Some hs \<Rightarrow> hs) then Some Write else pr_classification q),
                       pr_method := verb, pr_dispatched := True\<rparr>) w
            in Inr (case Option.bind ctx cx_logical of None \<Rightarrow> w1 | Some l \<Rightarrow> note_dispatch l r headers verb w1))"

definition handoffProviderRequest :: "nat \<Rightarrow> nat \<Rightarrow> provider_world \<Rightarrow> ledger_error + provider_world" where
  "handoffProviderRequest init r w =
     (if pr_dispatched (p_requests w r) then Inl Already_Dispatched
      else Inr (w\<lparr>p_handoffs := (p_handoffs w)(init \<mapsto> r)\<rparr>))"

definition takeProviderHandoff :: "nat \<Rightarrow> provider_world \<Rightarrow> nat option \<times> provider_world" where
  "takeProviderHandoff init w =
     ((case p_handoffs w init of None \<Rightarrow> None
       | Some r \<Rightarrow> if pr_dispatched (p_requests w r) then None else Some r),
      w\<lparr>p_handoffs := (p_handoffs w)(init := None)\<rparr>)"

definition bindProviderResponse :: "nat \<Rightarrow> nat \<Rightarrow> nat option \<Rightarrow> provider_world \<Rightarrow> provider_world" where
  "bindProviderResponse response r owner w =
     (case owner of None \<Rightarrow> w | Some own \<Rightarrow> w\<lparr>p_responses := (p_responses w)(response \<mapsto> (r, own))\<rparr>)"

definition responseProviderRequest :: "provider_world \<Rightarrow> nat \<Rightarrow> nat \<Rightarrow> nat option" where
  "responseProviderRequest w response owner =
     (case p_responses w response of None \<Rightarrow> None | Some (r, own) \<Rightarrow> if own = owner then Some r else None)"

text \<open>\<^verbatim>\<open>providerRequest\<close>; \<open>sent\<close> overrides the verb, key and class where given.\<close>

definition providerRequest ::
    "call_ctx \<Rightarrow> bool \<Rightarrow> jstr \<Rightarrow> jstr option \<Rightarrow> jstr option \<Rightarrow> tool_class option \<Rightarrow> provider_world \<Rightarrow> nat \<times> provider_world" where
  "providerRequest ctx auxiliary provider verb key cls w =
     (let r = p_next_request w;
          recorded = or_else (Option.bind (cx_ledger ctx) (\<lambda>c. pc_classification (p_calls w c)))
                       (or_else (cx_classification ctx) (cx_served ctx));
          w1 = w\<lparr>p_requests := (p_requests w)(r := \<lparr>pr_dispatched = False, pr_status = None, pr_auxiliary = auxiliary,
                  pr_blocksAuxiliaryProof = False, pr_provider = provider, pr_method = verb,
                  pr_classification = or_else cls recorded, pr_sourceWrite = False, pr_key = key,
                  pr_authBeforeExecution = False, pr_renewed = False\<rparr>), p_next_request := Suc r\<rparr>
      in (r, (case cx_ledger ctx of None \<Rightarrow> w1
              | Some c \<Rightarrow> w1\<lparr>p_calls := (p_calls w1)(c := (p_calls w1 c)\<lparr>pc_requests := pc_requests (p_calls w1 c) @ [r]\<rparr>)\<rparr>)))"

definition openLogicalCall :: "call_ctx \<Rightarrow> nat \<Rightarrow> nat \<Rightarrow> provider_world \<Rightarrow> call_ctx \<times> provider_world" where
  "openLogicalCall ctx target entered w =
     (let l = p_next_logical w
      in (ctx\<lparr>cx_logical := (if requestClosed w ctx then cx_logical ctx else Some l)\<rparr>,
          w\<lparr>p_logical := (p_logical w)(l := \<lparr>lc_target = target, lc_entered = entered, lc_boundaries = [], lc_sent = [],
               lc_auxiliaryReads = [], lc_nonReadAuxiliaryDispatched = False\<rparr>), p_next_logical := Suc l\<rparr>))"

definition enterProviderBoundary :: "call_ctx \<Rightarrow> nat \<Rightarrow> provider_world \<Rightarrow> provider_world" where
  "enterProviderBoundary ctx boundary w =
     (case cx_logical ctx of None \<Rightarrow> w
      | Some l \<Rightarrow> w\<lparr>p_logical := (p_logical w)(l := (p_logical w l)\<lparr>lc_boundaries := lc_boundaries (p_logical w l) @ [boundary]\<rparr>)\<rparr>)"

definition ownsLogicalCall :: "provider_world \<Rightarrow> logical_call \<Rightarrow> bool" where
  "ownsLogicalCall w lc \<longleftrightarrow>
     (case p_boundaries w (lc_target lc) of None \<Rightarrow> False
      | Some (b, own) \<Rightarrow> own = lc_entered lc \<and> lc_boundaries lc \<noteq> [] \<and> b = hd (lc_boundaries lc)) \<or>
     p_delegators w (lc_target lc) = Some (lc_entered lc)"

definition knownCallFailure :: "provider_world \<Rightarrow> nat option \<Rightarrow> thrown \<Rightarrow> bool" where
  "knownCallFailure w call t =
     (case call of None \<Rightarrow> False
      | Some l \<Rightarrow> isKnownProviderFailure w t \<and> length (lc_boundaries (p_logical w l)) \<le> 1 \<and> ownsLogicalCall w (p_logical w l))"

definition onlyAuxiliaryRequests :: "provider_world \<Rightarrow> nat option \<Rightarrow> bool" where
  "onlyAuxiliaryRequests w call =
     (case call of None \<Rightarrow> False
      | Some l \<Rightarrow>
          let lc = p_logical w l in
          (case lc_boundaries lc of [b] \<Rightarrow> tracksRequests w b | _ \<Rightarrow> False) \<and> ownsLogicalCall w lc \<and>
          list_ex (\<lambda>r. pr_dispatched (p_requests w r)) (lc_auxiliaryReads lc) \<and>
          \<not> lc_nonReadAuxiliaryDispatched lc \<and>
          \<not> list_ex (\<lambda>r. pr_dispatched (p_requests w r) \<and> \<not> pr_auxiliary (p_requests w r)) (lc_sent lc))"

definition keyProtectsCall :: "provider_world \<Rightarrow> nat option \<Rightarrow> jstr option \<Rightarrow> bool" where
  "keyProtectsCall w call key =
     (case (call, key) of
        (Some l, Some k) \<Rightarrow>
          let lc = p_logical w l; writes = filter (\<lambda>r. \<not> read_request_of (p_requests w r)) (lc_sent lc) in
          (case lc_boundaries lc of [b] \<Rightarrow> tracksRequests w b | _ \<Rightarrow> False) \<and> ownsLogicalCall w lc \<and>
          (case writes of [r] \<Rightarrow> pr_key (p_requests w r) = Some k | _ \<Rightarrow> False)
      | _ \<Rightarrow> False)"

definition inLogicalCall :: "call_ctx \<Rightarrow> bool" where
  "inLogicalCall ctx \<longleftrightarrow> cx_logical ctx \<noteq> None"

section \<open>Transitions\<close>

text \<open>
  What the program does to the ledger, in any order and from any view that was handed out: a view with a ledger
  has the lease registered with it, another view no lease or one that was opened. Requests that are dispatched
  have been opened before. A lease may be revoked at any time by a signal, and a request scope may end.
\<close>

definition ctx_ok :: "provider_world \<Rightarrow> call_ctx \<Rightarrow> bool" where
  "ctx_ok w ctx \<longleftrightarrow> (case cx_ledger ctx of
       None \<Rightarrow> (case cx_lease ctx of None \<Rightarrow> True | Some l \<Rightarrow> l < p_next_lease w)
     | Some c \<Rightarrow> c < p_next_call w \<and> cx_lease ctx = p_callLease w c)"

inductive pw_step :: "provider_world \<Rightarrow> provider_world \<Rightarrow> bool" where
  entered: "ctx_ok w ctx \<Longrightarrow> pw_step w (snd (providerCallContext ctx cls w))"
| leased: "ctx_ok w ctx \<Longrightarrow> pw_step w (snd (callFromContext ctx w))"
| revoked: "pw_step w (revokeLease l w)"
| request_ended: "pw_step w (w\<lparr>p_closedRequests := insert q (p_closedRequests w)\<rparr>)"
| opened: "ctx_ok w ctx \<Longrightarrow> pw_step w (snd (providerRequest ctx auxiliary provider verb key cls w))"
| dispatched: "r < p_next_request w \<Longrightarrow> dispatchProviderRequest ctx r headers verb w = Inr w' \<Longrightarrow> pw_step w w'"
| answered: "recordProviderResponse r status w = Inr w' \<Longrightarrow> pw_step w w'"
| renewed: "pw_step w (renewedAfterUnauthorized req sent fresh w)"
| logical: "pw_step w (snd (openLogicalCall ctx target callTool w))"
| boundary: "pw_step w (enterProviderBoundary ctx b w)"
| closed: "ctx_ok w ctx \<Longrightarrow> pw_step w (closeProviderCall ctx w)"
| refused: "pw_step w (vendorRefusal t r w)"
| known: "pw_step w (knownProviderFailure t unsent w)"
| carried: "pw_step w (carryProviderFailure from to w)"

definition pw_init :: "provider_world \<Rightarrow> bool" where
  "pw_init w \<longleftrightarrow> p_next_request w = 0 \<and> p_next_call w = 0 \<and>
     (\<forall>l. lc_sent (p_logical w l) = [] \<and> lc_auxiliaryReads (p_logical w l) = [])"

text \<open>The calls entered beneath a call, at any depth.\<close>

inductive descends :: "provider_world \<Rightarrow> nat \<Rightarrow> nat \<Rightarrow> bool" for w where
  self: "descends w c c"
| deeper: "descends w c d \<Longrightarrow> i \<in> set (pc_nested (p_calls w d)) \<Longrightarrow> descends w c i"

section \<open>Lemmas\<close>

text \<open>
  The ledger invariant: nested calls are newer than the call that entered them, and a logical call lists a
  request once, after it was dispatched. An entered call has its own lease, opened under the lease of the call
  that entered it.
\<close>

definition tree_ok :: "provider_world \<Rightarrow> bool" where
  "tree_ok w \<longleftrightarrow> (\<forall>c < p_next_call w. \<forall>i \<in> set (pc_nested (p_calls w c)). c < i \<and> i < p_next_call w)"

definition sent_ok :: "provider_world \<Rightarrow> bool" where
  "sent_ok w \<longleftrightarrow> (\<forall>l. distinct (lc_sent (p_logical w l)) \<and> distinct (lc_auxiliaryReads (p_logical w l)) \<and>
     (\<forall>r \<in> set (lc_sent (p_logical w l)) \<union> set (lc_auxiliaryReads (p_logical w l)).
        r < p_next_request w \<and> pr_dispatched (p_requests w r)))"

definition leases_ok :: "provider_world \<Rightarrow> bool" where
  "leases_ok w \<longleftrightarrow> (\<forall>c < p_next_call w. \<exists>l. p_callLease w c = Some l \<and> l < p_next_lease w \<and>
     (\<forall>i \<in> set (pc_nested (p_calls w c)). \<exists>k. p_callLease w i = Some k \<and> p_leaseParent w k = Some l \<and> l < k))"

definition pw_inv :: "provider_world \<Rightarrow> bool" where
  "pw_inv w \<longleftrightarrow> tree_ok w \<and> sent_ok w \<and> leases_ok w"

text \<open>What the store knows of leases, apart from which are closed.\<close>

definition leases_of :: "provider_world \<Rightarrow> (nat \<rightharpoonup> nat) \<times> (nat \<rightharpoonup> nat) \<times> nat" where
  "leases_of w = (p_callLease w, p_leaseParent w, p_next_lease w)"

lemma carryResendAdvice_ledger [simp]:
  "p_callLease (carryResendAdvice f t w) = p_callLease w" "p_leaseParent (carryResendAdvice f t w) = p_leaseParent w"
  "p_next_lease (carryResendAdvice f t w) = p_next_lease w" "p_closedLeases (carryResendAdvice f t w) = p_closedLeases w"
  "p_calls (carryResendAdvice f t w) = p_calls w" "p_next_call (carryResendAdvice f t w) = p_next_call w"
  "p_logical (carryResendAdvice f t w) = p_logical w" "p_requests (carryResendAdvice f t w) = p_requests w"
  "p_next_request (carryResendAdvice f t w) = p_next_request w"
  by (auto simp: carryResendAdvice_def Let_def split: thrown.split option.split)

lemma marking_ledger [simp]:
  "p_calls (carryProviderFailure f t w) = p_calls w" "p_next_call (carryProviderFailure f t w) = p_next_call w"
  "p_logical (carryProviderFailure f t w) = p_logical w" "p_requests (carryProviderFailure f t w) = p_requests w"
  "p_next_request (carryProviderFailure f t w) = p_next_request w"
  "p_calls (knownProviderFailure t u w) = p_calls w" "p_next_call (knownProviderFailure t u w) = p_next_call w"
  "p_logical (knownProviderFailure t u w) = p_logical w" "p_requests (knownProviderFailure t u w) = p_requests w"
  "p_next_request (knownProviderFailure t u w) = p_next_request w"
  "p_calls (vendorRefusal t r w) = p_calls w" "p_next_call (vendorRefusal t r w) = p_next_call w"
  "p_logical (vendorRefusal t r w) = p_logical w" "p_requests (vendorRefusal t r w) = p_requests w"
  "p_next_request (vendorRefusal t r w) = p_next_request w"
  "leases_of (carryProviderFailure f t w) = leases_of w" "p_closedLeases (carryProviderFailure f t w) = p_closedLeases w"
  "leases_of (knownProviderFailure t u w) = leases_of w" "p_closedLeases (knownProviderFailure t u w) = p_closedLeases w"
  "leases_of (vendorRefusal t r w) = leases_of w" "p_closedLeases (vendorRefusal t r w) = p_closedLeases w"
  by (auto simp: leases_of_def  carryProviderFailure_def knownProviderFailure_def vendorRefusal_def Let_def
      split: thrown.split option.split)

lemma set_request_simps [simp]:
  "p_calls (set_request r f w) = p_calls w" "p_next_call (set_request r f w) = p_next_call w"
  "p_logical (set_request r f w) = p_logical w" "p_next_request (set_request r f w) = p_next_request w"
  "p_requests (set_request r f w) x = (if x = r then f (p_requests w r) else p_requests w x)"
  "leases_of (set_request r f w) = leases_of w" "p_closedLeases (set_request r f w) = p_closedLeases w"
  by (simp_all add: set_request_def leases_of_def)

lemma mark_closed_simps [simp]:
  "p_next_call (mark_closed cs w) = p_next_call w" "p_logical (mark_closed cs w) = p_logical w"
  "p_requests (mark_closed cs w) = p_requests w" "p_next_request (mark_closed cs w) = p_next_request w"
  "pc_nested (p_calls (mark_closed cs w) c) = pc_nested (p_calls w c)"
  "pc_closed (p_calls (mark_closed cs w) c) \<longleftrightarrow> c \<in> set cs \<or> pc_closed (p_calls w c)"
  "leases_of (mark_closed cs w) = leases_of w" "p_closedLeases (mark_closed cs w) = p_closedLeases w"
  unfolding mark_closed_def leases_of_def by (induction cs arbitrary: w) auto

lemma revoke_simps [simp]:
  "p_next_call (revokeLease l w) = p_next_call w" "p_logical (revokeLease l w) = p_logical w"
  "p_requests (revokeLease l w) = p_requests w" "p_next_request (revokeLease l w) = p_next_request w"
  "p_calls (revokeLease l w) = p_calls w" "leases_of (revokeLease l w) = leases_of w"
  "p_closedLeases (revokeLease l w) = insert l (p_closedLeases w)"
  by (simp_all add: revokeLease_def leases_of_def)

lemma lease_opened:
  "fst (callFromContext ctx w) = p_next_lease w"
  "leases_of (snd (callFromContext ctx w)) =
     (p_callLease w, (p_leaseParent w)(p_next_lease w := cx_lease ctx), Suc (p_next_lease w))"
  "p_closedLeases w \<subseteq> p_closedLeases (snd (callFromContext ctx w))"
  "p_next_call (snd (callFromContext ctx w)) = p_next_call w" "p_logical (snd (callFromContext ctx w)) = p_logical w"
  "p_requests (snd (callFromContext ctx w)) = p_requests w"
  "p_next_request (snd (callFromContext ctx w)) = p_next_request w"
  "p_calls (snd (callFromContext ctx w)) = p_calls w"
  by (auto simp: callFromContext_def leases_of_def revokeLease_def Let_def)

lemma close_simps [simp]:
  "p_next_call (closeProviderCall ctx w) = p_next_call w" "p_logical (closeProviderCall ctx w) = p_logical w"
  "p_requests (closeProviderCall ctx w) = p_requests w" "p_next_request (closeProviderCall ctx w) = p_next_request w"
  "pc_nested (p_calls (closeProviderCall ctx w) c) = pc_nested (p_calls w c)"
  "leases_of (closeProviderCall ctx w) = leases_of w"
  "p_closedLeases (closeProviderCall ctx w) = set_option (cx_lease ctx) \<union> p_closedLeases w"
  by (simp_all add: closeProviderCall_def Let_def split: option.split)

lemma tree_okD:
  "tree_ok w \<Longrightarrow> c < p_next_call w \<Longrightarrow> i \<in> set (pc_nested (p_calls w c)) \<Longrightarrow> c < i \<and> i < p_next_call w"
  unfolding tree_ok_def by blast

lemma call_tree_descends:
  assumes "tree_ok w" "descends w c d" "c < p_next_call w"
  shows "d \<in> set (call_tree w c) \<and> d < p_next_call w"
proof -
  have sub: "set (call_tree w i) \<subseteq> set (call_tree w d)"
    if d: "d < p_next_call w" "i \<in> set (pc_nested (p_calls w d))" for d i
  proof
    fix x assume x: "x \<in> set (call_tree w i)"
    let ?f = "\<lambda>i. if d < i \<and> i < p_next_call w then call_tree w i else []"
    have "d < i \<and> i < p_next_call w" using tree_okD [OF assms(1) d] .
    then have "x \<in> set (?f i)" using x by simp
    with d(2) have "x \<in> set (concat (map ?f (pc_nested (p_calls w d))))" unfolding set_concat set_map by (rule UN_I [OF imageI])
    then show "x \<in> set (call_tree w d)" by (simp only: call_tree.simps [of w d] list.set(2) insert_iff) simp
  qed
  have step: "d < p_next_call w \<and> set (call_tree w d) \<subseteq> set (call_tree w c)"
    using assms(2,3)
  proof (induction rule: descends.induct)
    case (deeper c d i)
    then have "i < p_next_call w" using tree_okD [OF assms(1)] by blast
    with deeper sub [of d i] show ?case by blast
  qed simp
  moreover have "d \<in> set (call_tree w d)" by (simp add: call_tree.simps [of w d])
  ultimately show ?thesis by auto
qed


lemma dispatch_Inr:
  assumes "dispatchProviderRequest ctx r headers verb w = Inr w'"
  obtains f where "\<not> pr_dispatched (p_requests w r)" "\<forall>q. pr_dispatched (f q)" "\<forall>q. pr_auxiliary (f q) = pr_auxiliary q"
    "(Option.bind ctx cx_logical = None \<and> w' = set_request r f w) \<or>
     (\<exists>l m. Option.bind ctx cx_logical = Some l \<and> w' = note_dispatch l r headers m (set_request r f w))"
proof -
  let ?m = "case verb of Some m \<Rightarrow> Some m | None \<Rightarrow> pr_method (p_requests w r)"
  let ?f = "\<lambda>q. q\<lparr>pr_classification :=
     (if hasMethodOverride (case headers of None \<Rightarrow> [] | Some hs \<Rightarrow> hs) then Some Write else pr_classification q),
     pr_method := ?m, pr_dispatched := True\<rparr>"
  have fresh: "\<not> pr_dispatched (p_requests w r)"
    and w': "w' = (case Option.bind ctx cx_logical of None \<Rightarrow> set_request r ?f w
        | Some l \<Rightarrow> note_dispatch l r headers ?m (set_request r ?f w))"
    using assms by (auto simp: dispatchProviderRequest_def Let_def split: option.splits if_splits)
  show thesis
    by (rule that [of ?f]) (use fresh w' in \<open>auto split: option.splits\<close>)
qed

lemma note_dispatch_simps [simp]:
  "p_calls (note_dispatch l r h m w) = p_calls w" "p_next_call (note_dispatch l r h m w) = p_next_call w"
  "p_requests (note_dispatch l r h m w) = p_requests w" "p_next_request (note_dispatch l r h m w) = p_next_request w"
  "x \<noteq> l \<Longrightarrow> p_logical (note_dispatch l r h m w) x = p_logical w x"
  "leases_of (note_dispatch l r h m w) = leases_of w" "p_closedLeases (note_dispatch l r h m w) = p_closedLeases w"
  by (simp_all add: note_dispatch_def leases_of_def Let_def)

lemma note_dispatch_lists:
  "lc_sent (p_logical (note_dispatch l r h m w) l) = lc_sent (p_logical w l) @ (if pr_auxiliary (p_requests w r) then [] else [r])"
  "lc_auxiliaryReads (p_logical (note_dispatch l r h m w) l) =
     lc_auxiliaryReads (p_logical w l) @
       (if pr_auxiliary (p_requests w r) \<and> m \<noteq> None \<and> readRequest (Some Read) m h then [r] else [])"
  by (simp_all add: note_dispatch_def Let_def)

lemma sent_ok_dispatch:
  assumes "sent_ok w" "r < p_next_request w" "dispatchProviderRequest ctx r headers verb w = Inr w'"
  shows "sent_ok w'"
proof -
  obtain f where f: "\<not> pr_dispatched (p_requests w r)" "\<forall>q. pr_dispatched (f q)" "\<forall>q. pr_auxiliary (f q) = pr_auxiliary q"
    and w': "(Option.bind ctx cx_logical = None \<and> w' = set_request r f w) \<or>
     (\<exists>l m. Option.bind ctx cx_logical = Some l \<and> w' = note_dispatch l r headers m (set_request r f w))"
    using assms(3) by (rule dispatch_Inr)
  have new: "r \<notin> set (lc_sent (p_logical w l)) \<and> r \<notin> set (lc_auxiliaryReads (p_logical w l))" for l
    using assms(1) f(1) by (auto simp: sent_ok_def)
  have base: "sent_ok (set_request r f w)" using assms(1) f(2) by (auto simp: sent_ok_def)
  show ?thesis
  proof (cases "w' = set_request r f w")
    case True
    with base show ?thesis by simp
  next
    case False
    then obtain l m where w'': "w' = note_dispatch l r headers m (set_request r f w)" using w' by blast
    show ?thesis unfolding sent_ok_def
    proof (intro allI)
      fix k
      show "distinct (lc_sent (p_logical w' k)) \<and> distinct (lc_auxiliaryReads (p_logical w' k)) \<and>
        (\<forall>x \<in> set (lc_sent (p_logical w' k)) \<union> set (lc_auxiliaryReads (p_logical w' k)).
          x < p_next_request w' \<and> pr_dispatched (p_requests w' x))"
        using base new [of k] assms(2) f(2)
        by (cases "k = l") (auto simp: w'' note_dispatch_lists sent_ok_def split: if_splits)
    qed
  qed
qed

lemma tree_ok_cong:
  "p_next_call v = p_next_call w \<Longrightarrow> (\<And>c. pc_nested (p_calls v c) = pc_nested (p_calls w c)) \<Longrightarrow> tree_ok v = tree_ok w"
  unfolding tree_ok_def by simp

lemma sent_ok_cong:
  "p_logical v = p_logical w \<Longrightarrow> p_next_request v = p_next_request w \<Longrightarrow>
   (\<And>r. pr_dispatched (p_requests v r) = pr_dispatched (p_requests w r)) \<Longrightarrow> sent_ok v = sent_ok w"
  unfolding sent_ok_def by simp

lemma leases_ok_cong:
  "p_next_call v = p_next_call w \<Longrightarrow> (\<And>c. pc_nested (p_calls v c) = pc_nested (p_calls w c)) \<Longrightarrow>
   leases_of v = leases_of w \<Longrightarrow> leases_ok v = leases_ok w"
  unfolding leases_ok_def leases_of_def by simp

lemma call_entered:
  assumes "ctx_ok w ctx"
  shows "p_next_call (snd (providerCallContext ctx cls w)) = Suc (p_next_call w)"
    "pc_nested (p_calls (snd (providerCallContext ctx cls w)) c) =
       (if c = p_next_call w then []
        else if cx_ledger ctx = Some c then pc_nested (p_calls w c) @ [p_next_call w] else pc_nested (p_calls w c))"
    "pc_closed (p_calls (snd (providerCallContext ctx cls w)) c) \<longleftrightarrow> c \<noteq> p_next_call w \<and> pc_closed (p_calls w c)"
    "leases_of (snd (providerCallContext ctx cls w)) =
       ((p_callLease w)(p_next_call w \<mapsto> p_next_lease w), (p_leaseParent w)(p_next_lease w := cx_lease ctx),
        Suc (p_next_lease w))"
    "p_closedLeases w \<subseteq> p_closedLeases (snd (providerCallContext ctx cls w))"
    "p_logical (snd (providerCallContext ctx cls w)) = p_logical w"
    "p_requests (snd (providerCallContext ctx cls w)) = p_requests w"
    "p_next_request (snd (providerCallContext ctx cls w)) = p_next_request w"
  using assms
  by (auto simp: providerCallContext_def callFromContext_def revokeLease_def leases_of_def ctx_ok_def Let_def
      split: option.splits)

lemma tree_ok_entered:
  assumes "tree_ok w" "ctx_ok w ctx" shows "tree_ok (snd (providerCallContext ctx cls w))"
  unfolding tree_ok_def call_entered(1) [OF assms(2)]
proof (intro allI impI ballI)
  fix c i assume c: "c < Suc (p_next_call w)" and i: "i \<in> set (pc_nested (p_calls (snd (providerCallContext ctx cls w)) c))"
  from i have "c \<noteq> p_next_call w" by (auto simp: call_entered(2) [OF assms(2)])
  with c have "c < p_next_call w" by simp
  with i tree_okD [OF assms(1), of c i] show "c < i \<and> i < Suc (p_next_call w)"
    by (auto simp: call_entered(2) [OF assms(2)] split: if_splits)
qed

lemma leases_okD:
  assumes "leases_ok w" "c < p_next_call w"
  obtains l where "p_callLease w c = Some l" "l < p_next_lease w"
    "\<And>i. i \<in> set (pc_nested (p_calls w c)) \<Longrightarrow> \<exists>k. p_callLease w i = Some k \<and> p_leaseParent w k = Some l \<and> l < k"
  using assms unfolding leases_ok_def by blast

lemma leases_ok_entered:
  assumes ok: "leases_ok w" and tree: "tree_ok w" and ctx: "ctx_ok w ctx"
  shows "leases_ok (snd (providerCallContext ctx cls w))" (is "leases_ok ?v")
proof -
  let ?n = "p_next_call w" and ?l = "p_next_lease w"
  have leases: "p_callLease ?v = (p_callLease w)(?n \<mapsto> ?l)" "p_leaseParent ?v = (p_leaseParent w)(?l := cx_lease ctx)"
    "p_next_lease ?v = Suc ?l"
    using call_entered(4) [OF ctx] by (simp_all add: leases_of_def)
  show ?thesis unfolding leases_ok_def call_entered(1) [OF ctx]
  proof (intro allI impI)
    fix c assume "c < Suc ?n"
    show "\<exists>l. p_callLease ?v c = Some l \<and> l < p_next_lease ?v \<and> (\<forall>i \<in> set (pc_nested (p_calls ?v c)).
        \<exists>k. p_callLease ?v i = Some k \<and> p_leaseParent ?v k = Some l \<and> l < k)"
    proof (cases "c = ?n")
      case True
      then show ?thesis by (simp add: leases call_entered(2) [OF ctx])
    next
      case False
      with \<open>c < Suc ?n\<close> have c: "c < ?n" by simp
      obtain l where l: "p_callLease w c = Some l" "l < ?l"
        "\<And>i. i \<in> set (pc_nested (p_calls w c)) \<Longrightarrow> \<exists>k. p_callLease w i = Some k \<and> p_leaseParent w k = Some l \<and> l < k"
        using ok c by (rule leases_okD) blast
      have new: "cx_lease ctx = Some l" if "cx_ledger ctx = Some c"
        using that ctx l(1) by (simp add: ctx_ok_def)
      have old: "\<exists>k. p_callLease ?v i = Some k \<and> p_leaseParent ?v k = Some l \<and> l < k"
        if i: "i \<in> set (pc_nested (p_calls w c))" for i
      proof -
        obtain k where k: "p_callLease w i = Some k" "p_leaseParent w k = Some l" "l < k" using l(3) [OF i] by blast
        have "i < ?n" using tree_okD [OF tree c i] by simp
        with ok obtain k' where "p_callLease w i = Some k'" "k' < ?l" by (rule leases_okD)
        with k \<open>i < ?n\<close> show ?thesis by (auto simp: leases)
      qed
      have "\<forall>i \<in> set (pc_nested (p_calls ?v c)). \<exists>k. p_callLease ?v i = Some k \<and> p_leaseParent ?v k = Some l \<and> l < k"
      proof
        fix i assume "i \<in> set (pc_nested (p_calls ?v c))"
        then consider "i \<in> set (pc_nested (p_calls w c))" | "i = ?n" "cx_ledger ctx = Some c"
          using False by (auto simp: call_entered(2) [OF ctx] split: if_splits)
        then show "\<exists>k. p_callLease ?v i = Some k \<and> p_leaseParent ?v k = Some l \<and> l < k"
          by cases (use old new l(2) in \<open>simp_all add: leases\<close>)
      qed
      moreover have "p_callLease ?v c = Some l" "l < p_next_lease ?v" using l c by (simp_all add: leases)
      ultimately show ?thesis by blast
    qed
  qed
qed

lemma leases_ok_leased:
  assumes "leases_ok w" "tree_ok w" shows "leases_ok (snd (callFromContext ctx w))" (is "leases_ok ?v")
proof -
  have leases: "p_callLease ?v = p_callLease w" "p_leaseParent ?v = (p_leaseParent w)(p_next_lease w := cx_lease ctx)"
    "p_next_lease ?v = Suc (p_next_lease w)"
    using lease_opened(2) [of ctx w] by (simp_all add: leases_of_def)
  show ?thesis unfolding leases_ok_def lease_opened
  proof (intro allI impI)
    fix c assume c: "c < p_next_call w"
    obtain l where l: "p_callLease w c = Some l" "l < p_next_lease w"
      "\<And>i. i \<in> set (pc_nested (p_calls w c)) \<Longrightarrow> \<exists>k. p_callLease w i = Some k \<and> p_leaseParent w k = Some l \<and> l < k"
      using assms(1) c by (rule leases_okD) blast
    have "\<exists>k. p_callLease ?v i = Some k \<and> p_leaseParent ?v k = Some l \<and> l < k"
      if i: "i \<in> set (pc_nested (p_calls w c))" for i
    proof -
      have "i < p_next_call w" using tree_okD [OF assms(2) c i] by simp
      with assms(1) obtain k' where "p_callLease w i = Some k'" "k' < p_next_lease w" by (rule leases_okD)
      with l(3) [OF i] show ?thesis by (auto simp: leases)
    qed
    with l show "\<exists>l. p_callLease ?v c = Some l \<and> l < p_next_lease ?v \<and> (\<forall>i \<in> set (pc_nested (p_calls w c)).
        \<exists>k. p_callLease ?v i = Some k \<and> p_leaseParent ?v k = Some l \<and> l < k)"
      by (auto simp: leases)
  qed
qed

lemma sent_ok_mono:
  assumes "sent_ok w" "p_logical v = p_logical w" "p_next_request w \<le> p_next_request v"
    "\<And>r. r < p_next_request w \<Longrightarrow> pr_dispatched (p_requests w r) \<Longrightarrow> pr_dispatched (p_requests v r)"
  shows "sent_ok v"
  using assms unfolding sent_ok_def by (metis less_le_trans)

lemma sent_ok_opened:
  assumes "sent_ok w" shows "sent_ok (snd (providerRequest ctx auxiliary provider verb key cls w))"
  using assms by (rule sent_ok_mono) (simp_all add: providerRequest_def Let_def split: option.split)

lemma pw_inv_cong:
  assumes "p_calls v = p_calls w" "p_next_call v = p_next_call w" "p_logical v = p_logical w"
    "p_requests v = p_requests w" "p_next_request v = p_next_request w" "leases_of v = leases_of w"
  shows "pw_inv v = pw_inv w"
  using leases_ok_cong [of v w] assms unfolding pw_inv_def tree_ok_def sent_ok_def by simp

lemma marking_inv:
  "pw_inv (vendorRefusal t r w) = pw_inv w" "pw_inv (knownProviderFailure t u w) = pw_inv w"
  "pw_inv (carryProviderFailure f t w) = pw_inv w"
  by (rule pw_inv_cong; simp)+

lemma dispatch_frame:
  assumes "dispatchProviderRequest ctx r headers verb w = Inr w'"
  shows "p_next_call w' = p_next_call w \<and> p_calls w' = p_calls w \<and> leases_of w' = leases_of w \<and>
    p_closedLeases w' = p_closedLeases w"
  using assms by (rule dispatch_Inr) auto

lemma requests_only_inv:
  assumes "p_next_call v = p_next_call w" "\<And>c. pc_nested (p_calls v c) = pc_nested (p_calls w c)"
    "leases_of v = leases_of w" "sent_ok v" "pw_inv w"
  shows "pw_inv v"
  using assms tree_ok_cong [of v w] leases_ok_cong [of v w] by (simp add: pw_inv_def)

lemma pw_step_inv: "pw_step w w' \<Longrightarrow> pw_inv w \<Longrightarrow> pw_inv w'"
proof (induction rule: pw_step.induct)
  case (entered w ctx cls)
  have "sent_ok (snd (providerCallContext ctx cls w)) = sent_ok w"
    by (rule sent_ok_cong) (simp_all add: call_entered [OF entered.hyps])
  with entered tree_ok_entered leases_ok_entered show ?case by (simp add: pw_inv_def)
next
  case (leased w ctx)
  have "sent_ok (snd (callFromContext ctx w)) = sent_ok w" by (rule sent_ok_cong) (simp_all add: lease_opened)
  moreover have "tree_ok (snd (callFromContext ctx w)) = tree_ok w" by (rule tree_ok_cong) (simp_all add: lease_opened)
  ultimately show ?case using leased.prems leases_ok_leased by (simp add: pw_inv_def)
next
  case (revoked w l)
  have "pw_inv (revokeLease l w) = pw_inv w" by (rule pw_inv_cong) simp_all
  with revoked show ?case by simp
next
  case (request_ended w q)
  have "pw_inv (w\<lparr>p_closedRequests := insert q (p_closedRequests w)\<rparr>) = pw_inv w"
    by (rule pw_inv_cong) (simp_all add: leases_of_def)
  with request_ended show ?case by simp
next
  case (opened w ctx auxiliary provider verb key cls)
  have "sent_ok (snd (providerRequest ctx auxiliary provider verb key cls w))"
    using opened.prems sent_ok_opened by (simp add: pw_inv_def)
  then show ?case
    by (rule requests_only_inv [OF _ _ _ _ opened.prems, rotated 3])
      (auto simp: providerRequest_def leases_of_def Let_def split: option.split)
next
  case (dispatched r w ctx headers verb w')
  have "sent_ok w'" using dispatched sent_ok_dispatch by (auto simp: pw_inv_def)
  then show ?case
    using dispatch_frame [OF dispatched.hyps(2)] by (intro requests_only_inv [OF _ _ _ _ dispatched.prems]) simp_all
next
  case (answered r status w w')
  then have w': "w' = set_request r (\<lambda>q. q\<lparr>pr_status := Some status\<rparr>) w"
    by (auto simp: recordProviderResponse_def split: if_splits)
  have "sent_ok w' = sent_ok w" by (rule sent_ok_cong) (simp_all add: w')
  then show ?case
    using answered.prems by (intro requests_only_inv [OF _ _ _ _ answered.prems]) (simp_all add: w' pw_inv_def)
next
  case (renewed w req sent fresh)
  let ?v = "renewedAfterUnauthorized req sent fresh w"
  have "sent_ok ?v = sent_ok w"
    by (rule sent_ok_cong) (simp_all add: renewedAfterUnauthorized_def split: option.split)
  then show ?case
    using renewed.prems
    by (intro requests_only_inv [OF _ _ _ _ renewed.prems])
      (simp_all add: renewedAfterUnauthorized_def pw_inv_def split: option.split)
next
  case (logical w ctx target callTool)
  let ?v = "snd (openLogicalCall ctx target callTool w)"
  have "sent_ok ?v" using logical by (auto simp: pw_inv_def sent_ok_def openLogicalCall_def Let_def)
  then show ?case
    by (rule requests_only_inv [OF _ _ _ _ logical.prems, rotated 3]) (simp_all add: openLogicalCall_def leases_of_def Let_def)
next
  case (boundary w ctx b)
  let ?v = "enterProviderBoundary ctx b w"
  have "sent_ok ?v" using boundary by (auto simp: pw_inv_def sent_ok_def enterProviderBoundary_def split: option.split)
  then show ?case
    by (rule requests_only_inv [OF _ _ _ _ boundary.prems, rotated 3])
      (simp_all add: enterProviderBoundary_def leases_of_def split: option.split)
next
  case (closed w ctx)
  have "sent_ok (closeProviderCall ctx w) = sent_ok w" by (rule sent_ok_cong) simp_all
  then show ?case
    using closed.prems by (intro requests_only_inv [OF _ _ _ _ closed.prems]) (simp_all add: pw_inv_def)
qed (simp_all add: marking_inv)

lemma pw_init_inv: "pw_init w \<Longrightarrow> pw_inv w"
  by (simp add: pw_init_def pw_inv_def tree_ok_def sent_ok_def leases_ok_def)

lemma reachable_pw_inv: "reachable pw_init pw_step w \<Longrightarrow> pw_inv w"
  by (erule reachable_invariant) (auto intro: pw_init_inv pw_step_inv)

text \<open>A call once closed stays closed; a lease once revoked stays revoked, and a call keeps its lease.\<close>

lemma pw_step_keeps_closed:
  "pw_step w w' \<Longrightarrow> c < p_next_call w \<and> pc_closed (p_calls w c) \<Longrightarrow> c < p_next_call w' \<and> pc_closed (p_calls w' c)"
proof (induction rule: pw_step.induct)
  case (entered w ctx cls)
  then show ?case by (simp add: call_entered)
next
  case (leased w ctx)
  then show ?case by (simp add: lease_opened)
next
  case (dispatched r w ctx headers verb w')
  then show ?case using dispatch_frame [OF dispatched.hyps(2)] by simp
next
  case (answered r status w w')
  then show ?case by (auto simp: recordProviderResponse_def split: if_splits)
next
  case (closed w ctx)
  then show ?case by (simp add: closeProviderCall_def Let_def split: option.split)
qed (auto simp: providerRequest_def Let_def renewedAfterUnauthorized_def openLogicalCall_def
      enterProviderBoundary_def split: option.split)

definition revoked_call :: "nat \<Rightarrow> provider_world \<Rightarrow> bool" where
  "revoked_call c w \<longleftrightarrow> c < p_next_call w \<and> (\<exists>l \<in> p_closedLeases w. p_callLease w c = Some l)"

lemma revoked_call_mono:
  assumes "revoked_call c w" "p_next_call w \<le> p_next_call v" "p_closedLeases w \<subseteq> p_closedLeases v"
    "p_callLease v c = p_callLease w c"
  shows "revoked_call c v"
  using assms unfolding revoked_call_def by auto

lemma revoked_call_same:
  "revoked_call c w \<Longrightarrow> p_next_call v = p_next_call w \<Longrightarrow> leases_of v = leases_of w \<Longrightarrow>
   p_closedLeases w \<subseteq> p_closedLeases v \<Longrightarrow> revoked_call c v"
  by (rule revoked_call_mono) (auto simp: leases_of_def)

lemma untouched_leases [simp]:
  "leases_of (renewedAfterUnauthorized q s f w) = leases_of w"
  "p_closedLeases (renewedAfterUnauthorized q s f w) = p_closedLeases w"
  "p_next_call (renewedAfterUnauthorized q s f w) = p_next_call w"
  "leases_of (snd (openLogicalCall ctx b callTool w)) = leases_of w"
  "p_closedLeases (snd (openLogicalCall ctx b callTool w)) = p_closedLeases w"
  "p_next_call (snd (openLogicalCall ctx b callTool w)) = p_next_call w"
  "leases_of (enterProviderBoundary ctx b w) = leases_of w"
  "p_closedLeases (enterProviderBoundary ctx b w) = p_closedLeases w"
  "p_next_call (enterProviderBoundary ctx b w) = p_next_call w"
  "leases_of (snd (providerRequest ctx auxiliary provider m key cls w)) = leases_of w"
  "p_closedLeases (snd (providerRequest ctx auxiliary provider m key cls w)) = p_closedLeases w"
  "p_next_call (snd (providerRequest ctx auxiliary provider m key cls w)) = p_next_call w"
  "leases_of (w\<lparr>p_closedRequests := qs\<rparr>) = leases_of w"
  by (auto simp: renewedAfterUnauthorized_def openLogicalCall_def enterProviderBoundary_def providerRequest_def
      leases_of_def set_request_def Let_def split: option.split)

lemma pw_step_keeps_revoked: "pw_step w w' \<Longrightarrow> revoked_call c w \<Longrightarrow> revoked_call c w'"
proof (induction rule: pw_step.induct)
  case (entered w ctx cls)
  show ?case
    using call_entered(4) [OF entered.hyps, of cls] entered.prems
    by (intro revoked_call_mono [OF entered.prems])
      (auto simp: call_entered(1) [OF entered.hyps] call_entered(5) [OF entered.hyps, THEN subsetD] leases_of_def revoked_call_def)
next
  case (leased w ctx)
  show ?case
    using lease_opened(2) [of ctx w]
    by (intro revoked_call_mono [OF leased.prems]) (auto simp: lease_opened leases_of_def intro: subsetD [OF lease_opened(3)])
next
  case (dispatched r w ctx headers verb w')
  show ?case
    using dispatch_frame [OF dispatched.hyps(2)]
    by (intro revoked_call_mono [OF dispatched.prems]) (simp_all add: leases_of_def)
next
  case (answered r status w w')
  then show ?case
    by (intro revoked_call_same [OF answered.prems]) (auto simp: recordProviderResponse_def split: if_splits)
qed (erule revoked_call_same; auto)+

lemma closed_refuses:
  assumes "cx_ledger ctx = Some c" "pc_closed (p_calls w c)" "\<not> pr_auxiliary (p_requests w r)"
  shows "\<exists>e. dispatchProviderRequest (Some ctx) r headers verb w = Inl e"
  using assms by (simp add: dispatchProviderRequest_def assertProviderCallOpen_def Let_def)

text \<open>Closing a lease closes the leases of every call beneath it.\<close>

lemma beneath_revoked:
  assumes "leases_ok w" "tree_ok w" "revoked_call c w" "descends w c d"
  shows "d < p_next_call w \<and> (\<exists>k. p_callLease w d = Some k \<and> lease_closed w k)"
  using assms(4,1-3)
proof (induction rule: descends.induct)
  case (self c)
  then show ?case by (auto simp: revoked_call_def lease_closed.simps)
next
  case (deeper c d i)
  then obtain k where d: "d < p_next_call w" and k: "p_callLease w d = Some k" "lease_closed w k" by blast
  obtain l where l: "p_callLease w d = Some l"
    "\<And>i. i \<in> set (pc_nested (p_calls w d)) \<Longrightarrow> \<exists>k. p_callLease w i = Some k \<and> p_leaseParent w k = Some l \<and> l < k"
    using deeper.prems(1) d by (rule leases_okD) blast
  from l(2) [OF deeper.hyps(2)] obtain j where j: "p_callLease w i = Some j" "p_leaseParent w j = Some l" "l < j" by blast
  have "lease_closed w j" using j k l(1) by (subst lease_closed.simps) simp
  with j(1) tree_okD [OF deeper.prems(2) d deeper.hyps(2)] show ?case by blast
qed

lemma revoked_refuses:
  assumes "cx_lease ctx = Some k" "lease_closed w k" "\<not> pr_auxiliary (p_requests w r)"
  shows "\<exists>e. dispatchProviderRequest (Some ctx) r headers verb w = Inl e"
  using assms by (simp add: dispatchProviderRequest_def assertProviderCallOpen_def viewClosed_def Let_def)

section \<open>Properties\<close>


text \<open>An empty store and a view whose request sends one write.\<close>

definition empty_world :: provider_world where
  "empty_world =
     \<lparr>w_http_origin = Map.empty, w_objects = Map.empty, w_next = 0, w_resendAdvices = Map.empty, w_keyAdvices = Map.empty,
      p_requests = (\<lambda>_. \<lparr>pr_dispatched = False, pr_status = None, pr_auxiliary = False, pr_blocksAuxiliaryProof = False,
        pr_provider = [], pr_method = None, pr_classification = None, pr_sourceWrite = False, pr_key = None,
        pr_authBeforeExecution = False, pr_renewed = False\<rparr>), p_next_request = 0,
      p_calls = (\<lambda>_. \<lparr>pc_requests = [], pc_classification = None, pc_closed = False, pc_nested = [], pc_parent = None\<rparr>),
      p_next_call = 0,
      p_logical = (\<lambda>_. \<lparr>lc_target = 0, lc_entered = 0, lc_boundaries = [], lc_sent = [], lc_auxiliaryReads = [],
        lc_nonReadAuxiliaryDispatched = False\<rparr>), p_next_logical = 0,
      p_refusals = Map.empty, p_knownFailures = {}, p_explained = {}, p_settled = {}, p_unauthorizedAnswers = Map.empty,
      p_attached = Map.empty, p_tracked = {}, p_boundaries = Map.empty, p_delegators = Map.empty, p_aliases = Map.empty,
      p_handoffs = Map.empty, p_responses = Map.empty, p_leaseParent = Map.empty, p_next_lease = 0,
      p_callLease = Map.empty, p_closedLeases = {}, p_closedRequests = {}\<rparr>"

definition demo_ctx :: call_ctx where
  "demo_ctx = \<lparr>cx_ledger = Some 0, cx_logical = Some 0, cx_classification = Some Write, cx_served = Some Write,
     cx_request = 0, cx_lease = Some 0, cx_aborted = None\<rparr>"

definition demo_called :: provider_world where
  "demo_called = snd (providerCallContext (demo_ctx\<lparr>cx_ledger := None, cx_lease := None\<rparr>) (Some Write) empty_world)"


lemma demo_called_reachable: "reachable pw_init pw_step demo_called"
proof -
  have "pw_init empty_world" by (simp add: pw_init_def empty_world_def)
  moreover have "pw_step empty_world demo_called"
    unfolding demo_called_def by (rule pw_step.entered) (simp add: ctx_ok_def)
  ultimately show ?thesis by (blast intro: reachable.start reachable.step)
qed

lemmas demo_ledger_eval = demo_called_def demo_ctx_def empty_world_def providerCallContext_def providerRequest_def
  dispatchProviderRequest_def assertProviderCallOpen_def requestClosed_def viewClosed_def note_dispatch_def set_request_def
  hasMethodOverride_def callFromContext_def revokeLease_def lease_closed.simps Let_def




text \<open>
  C12. Nothing leaves after a call's outcome is decided. Once \<^verbatim>\<open>closeProviderCall\<close> ran on the view
  of a call, then in every later state, whatever happens in between (new calls entered beneath it included): every
  call that was beneath it is marked closed, and no resource request is dispatched from the view of the call or of
  any call beneath it, at any depth, whether that call was entered before the close or after it.
\<close>

theorem closed_call_sends_nothing:
  assumes "reachable pw_init pw_step w" and "ctx_ok w ctx" and "cx_ledger ctx = Some c"
    and "reachable (\<lambda>x. x = closeProviderCall ctx w) pw_step w'"
  shows "(\<forall>d. descends w c d \<longrightarrow> pc_closed (p_calls w' d)) \<and>
    (\<forall>ctx' d r headers verb.
       ctx_ok w' ctx' \<and> cx_ledger ctx' = Some d \<and> descends w' c d \<and> \<not> pr_auxiliary (p_requests w' r) \<longrightarrow>
       (\<exists>e. dispatchProviderRequest (Some ctx') r headers verb w' = Inl e))"
proof -
  let ?v = "closeProviderCall ctx w"
  have inv: "pw_inv w" using reachable_pw_inv [OF assms(1)] .
  have c: "c < p_next_call w" "cx_lease ctx = p_callLease w c" using assms(2,3) by (simp_all add: ctx_ok_def)
  have tree: "d \<in> set (call_tree w c) \<and> d < p_next_call w" if "descends w c d" for d
    using call_tree_descends [OF _ that c(1)] inv by (simp add: pw_inv_def)
  have marked: "\<forall>d. descends w c d \<longrightarrow> d < p_next_call ?v \<and> pc_closed (p_calls ?v d)"
    using assms(3) tree by (auto simp: closeProviderCall_def Let_def split: option.split)
  obtain l where "p_callLease w c = Some l" using leases_okD inv c(1) unfolding pw_inv_def by blast
  then have revoked: "revoked_call c ?v"
    using c close_simps(6) [of ctx w] by (auto simp: revoked_call_def leases_of_def)
  have "pw_inv ?v" by (rule pw_step_inv [OF pw_step.closed [OF assms(2)] inv])
  then have "pw_inv w'" using reachable_invariant [OF assms(4), of pw_inv] pw_step_inv by blast
  moreover have "revoked_call c w'"
    using reachable_invariant [OF assms(4), of "revoked_call c"] revoked pw_step_keeps_revoked by blast
  ultimately have ok: "leases_ok w'" "tree_ok w'" "revoked_call c w'" by (simp_all add: pw_inv_def)
  have "\<exists>e. dispatchProviderRequest (Some ctx') r headers verb w' = Inl e"
    if ctx': "ctx_ok w' ctx'" "cx_ledger ctx' = Some d" "descends w' c d" "\<not> pr_auxiliary (p_requests w' r)"
    for ctx' d r headers verb
  proof -
    obtain k where "p_callLease w' d = Some k" "lease_closed w' k" using beneath_revoked [OF ok ctx'(3)] by blast
    with ctx'(1,2,4) show ?thesis by (simp add: ctx_ok_def revoked_refuses)
  qed
  moreover have "pc_closed (p_calls w' d)" if "descends w c d" for d
    using reachable_invariant [OF assms(4), of "\<lambda>x. d < p_next_call x \<and> pc_closed (p_calls x d)"]
      marked that pw_step_keeps_closed by blast
  ultimately show ?thesis by blast
qed

text \<open>The demonstration call is closed, and then another call is entered from its view.\<close>

definition demo_closed :: provider_world where
  "demo_closed = closeProviderCall demo_ctx demo_called"

definition demo_inner :: "call_ctx \<times> provider_world" where
  "demo_inner = providerCallContext demo_ctx (Some Write) demo_closed"

theorem closed_call_sends_nothing_witness:
  "pc_closed (p_calls (snd demo_inner) 0) \<and> cx_ledger (fst demo_inner) = Some 1 \<and>
   (\<exists>e. dispatchProviderRequest (Some (fst demo_inner)) 0 None None (snd demo_inner) = Inl e)"
proof -
  have ok: "ctx_ok demo_called demo_ctx" and inner: "ctx_ok demo_closed demo_ctx"
    by (simp_all add: ctx_ok_def demo_closed_def closeProviderCall_def call_tree.simps mark_closed_def demo_ledger_eval)
  have "pw_step demo_closed (snd demo_inner)" unfolding demo_inner_def by (rule pw_step.entered [OF inner])
  then have later: "reachable (\<lambda>x. x = closeProviderCall demo_ctx demo_called) pw_step (snd demo_inner)"
    by (blast intro: reachable.start reachable.step demo_closed_def)
  have ledger: "cx_ledger demo_ctx = Some 0" by (simp add: demo_ctx_def)
  note all = closed_call_sends_nothing [OF demo_called_reachable ok ledger later]
  have new: "cx_ledger (fst demo_inner) = Some 1" "ctx_ok (snd demo_inner) (fst demo_inner)"
    "1 \<in> set (pc_nested (p_calls (snd demo_inner) 0))" "\<not> pr_auxiliary (p_requests (snd demo_inner) 0)"
    by (simp_all add: ctx_ok_def demo_inner_def demo_closed_def closeProviderCall_def call_tree.simps mark_closed_def
        demo_ledger_eval)
  have "descends (snd demo_inner) 0 1" using descends.deeper [OF descends.self new(3)] .
  with all new descends.self [of demo_called 0] show ?thesis by blast
qed

end
