(* ===== verification/Write_Outcome.thy ===== *)
theory Write_Outcome
  imports Provider_Call
begin

text \<open>
  Whether a dispatched write landed (INV-9), \<^verbatim>\<open>src/write-outcome.ts\<close>: the outcome of a write,
  the decision every connector surface makes about its failure, and the one settlement of a write that was
  answered with HTTP 401. Verdicts are objects of the store of \<^verbatim>\<open>Provider_Call\<close>; an operation
  returns the verdict and the store with it.
\<close>

section \<open>The outcome of a write\<close>

datatype write_state = W_Ok | W_Failed | W_Unknown

text \<open>The outcome's error is its details, with whether that object is marked as a known failure.\<close>

definition classifyWriteOutcome :: "bool \<Rightarrow> bool \<Rightarrow> bool \<Rightarrow> (call_error_details \<times> bool) option \<Rightarrow> write_state" where
  "classifyWriteOutcome ok dispatched answered error =
     (if ok then W_Ok
      else if \<not> dispatched then W_Failed
      else if (case error of Some (d, _) \<Rightarrow> cd_unknown d | None \<Rightarrow> False) then W_Unknown
      else if answered \<or> (case error of Some (_, known) \<Rightarrow> known | None \<Rightarrow> False) then W_Failed
      else if (case error of Some (d, _) \<Rightarrow> cd_code d = C_result_processing_failed | None \<Rightarrow> False) then W_Ok
      else W_Unknown)"

section \<open>Verdicts\<close>

definition unknown_options :: call_error_options where
  "unknown_options = no_options\<lparr>eo_retryable := Some False, eo_unknown := True\<rparr>"

definition current_input :: "(jstr \<times> int) list option \<Rightarrow> (jstr \<times> js_number) list option" where
  "current_input = map_option (map (\<lambda>(k, v). (k, Finite (of_int v))))"

definition isTimeoutCode :: "jstr option \<Rightarrow> bool" where
  "isTimeoutCode c = (case c of None \<Rightarrow> False | Some s \<Rightarrow> timeout_code s)"

definition details_code :: "unavailable_details option \<Rightarrow> jstr option" where
  "details_code d = Option.bind d ud_code"

definition isTimeout :: "call_error \<Rightarrow> bool" where
  "isTimeout e \<longleftrightarrow> ce_code e = C_timeout \<or> isTimeoutCode (details_code (ce_details e))"

definition callerAbort :: "call_ctx \<Rightarrow> thrown option" where
  "callerAbort ctx = (if cx_served ctx = None then cx_aborted ctx else None)"

definition timedOutOrAborted :: "'a failure_world_scheme \<Rightarrow> thrown \<Rightarrow> call_ctx \<Rightarrow> bool" where
  "timedOutOrAborted w t ctx \<longleftrightarrow>
     callerAbort ctx \<noteq> None \<or>
     (case withheld_of w t of Some e \<Rightarrow> wt_timeout e
      | None \<Rightarrow> (case call_error_of w t of Some e \<Rightarrow> isTimeout e | None \<Rightarrow> isTimeoutCode (networkErrorCode w t)))"

text \<open>A new verdict that takes the facts of the failure it stands for.\<close>

definition rebuilt :: "thrown \<Rightarrow> classification_code \<Rightarrow> jstr \<Rightarrow> call_error_options \<Rightarrow> provider_world \<Rightarrow> thrown \<times> provider_world" where
  "rebuilt from code message opts w =
     (let (t, w1) = new_call_error code message opts w in (t, carryFailureFacts from t w1))"

definition unknownOutcome :: "jstr \<Rightarrow> thrown \<Rightarrow> provider_world \<Rightarrow> thrown \<times> provider_world" where
  "unknownOutcome vendor t w =
     (let tell = (\<lambda>message. new_call_error C_connector_call_failed
            (message @ lit '' Whether the write took effect at '' @ vendor @
             lit '' is unknown: it carried no idempotency key, so check the target before repeating it.'') unknown_options w)
      in (case object_of w t of
            Some (Withheld_Text e) \<Rightarrow> if \<not> wt_retryable e \<or> wt_timeout e then (t, w) else tell (wt_message e)
          | Some (Call_Error e) \<Rightarrow>
              if \<not> ce_retryable e then (t, w)
              else if ce_code e \<noteq> C_unavailable \<and> ce_code e \<noteq> C_connector_call_failed then (t, w)
              else if isTimeout e then (t, w)
              else tell (ce_message e)
          | _ \<Rightarrow> (t, w)))"

definition callerAborted :: "jstr \<Rightarrow> thrown \<Rightarrow> thrown \<Rightarrow> provider_world \<Rightarrow> thrown \<times> provider_world" where
  "callerAborted vendor t reason w =
     (let code = networkErrorCode w reason;
          name = errorLabel w reason
      in rebuilt t (if isTimeoutCode code then C_timeout else C_connector_call_failed)
           (lit ''The caller's signal aborted this call'' @
            (case name of Some n \<Rightarrow> lit '' ('' @ n @ lit '')'' | None \<Rightarrow> []) @
            lit '' after the write may have reached '' @ vendor @
            lit ''. Whether it took effect is unknown; check the target before repeating it.'')
           (unknown_options\<lparr>eo_cause := reason, eo_details :=
              (if name \<noteq> None \<or> code \<noteq> None then Some \<lparr>ud_name = name, ud_host = None, ud_code = code\<rparr> else None)\<rparr>) w)"

definition uncertainProviderFailure ::
    "jstr \<Rightarrow> thrown \<Rightarrow> call_ctx option \<Rightarrow> provider_world \<Rightarrow> thrown \<times> provider_world" where
  "uncertainProviderFailure vendor t ctx w =
     (let ce = call_error_of w t in
      if (case ce of Some e \<Rightarrow> ce_unknown e \<and> \<not> ce_retryable e | None \<Rightarrow> False) then (t, w)
      else case Option.bind ctx callerAbort of
        Some reason \<Rightarrow> callerAborted vendor t reason w
      | None \<Rightarrow>
          let details = classifyWithoutAdvice w t C_connector_call_failed;
              timeout = (cd_code details = C_timeout \<or>
                 (cd_code details = C_unavailable \<and> isTimeoutCode (details_code (cd_details details))));
              common = (case ce of Some e \<Rightarrow> ce_code e = C_unavailable \<or> ce_code e = C_connector_call_failed | None \<Rightarrow> False);
              message = (if \<not> timeout \<and> common \<and> (case ce of Some e \<Rightarrow> ce_retryable e | None \<Rightarrow> False)
                 then cd_message details @ lit '' Whether the write took effect at '' @ vendor @
                   lit '' is unknown; check the target before repeating it.''
                 else cd_message details);
              code = (case ce of
                 Some e \<Rightarrow> if ce_code e \<noteq> C_unavailable \<or> timeout then ce_code e
                           else if timeout then C_timeout else C_connector_call_failed
               | None \<Rightarrow> if timeout then C_timeout else C_connector_call_failed);
              opts = (case ce of None \<Rightarrow> unknown_options
               | Some e \<Rightarrow> unknown_options\<lparr>
                   eo_details := (if code = ce_code e then ce_details e else None),
                   eo_retryAfterMs := map_option (\<lambda>m. Finite (of_int m)) (ce_retryAfterMs e),
                   eo_validation := ce_validation e, eo_current := current_input (ce_current e)\<rparr>)
          in rebuilt t code message opts w)"

text \<open>An unknown outcome as it stands, without a retry flag or a wait. The argument is a typed failure.\<close>

definition withoutRetry :: "thrown \<Rightarrow> provider_world \<Rightarrow> thrown \<times> provider_world" where
  "withoutRetry t w =
     (case call_error_of w t of None \<Rightarrow> (t, w)
      | Some e \<Rightarrow>
          if \<not> ce_retryable e \<and> ce_retryAfterMs e = None \<and> ce_unknown e then (t, w)
          else rebuilt t (ce_code e) (ce_message e)
                 (unknown_options\<lparr>eo_details := ce_details e, eo_validation := ce_validation e,
                    eo_current := current_input (ce_current e)\<rparr>) w)"

definition providerFailureMessage :: "thrown \<Rightarrow> jstr \<Rightarrow> provider_world \<Rightarrow> thrown \<times> provider_world" where
  "providerFailureMessage t message w =
     (case call_error_of w t of None \<Rightarrow> (t, w)
      | Some e \<Rightarrow> rebuilt t (ce_code e) message
          (no_options\<lparr>eo_retryable := Some (ce_retryable e), eo_unknown := ce_unknown e,
             eo_retryAfterMs := map_option (\<lambda>m. Finite (of_int m)) (ce_retryAfterMs e), eo_details := ce_details e,
             eo_validation := ce_validation e, eo_current := current_input (ce_current e)\<rparr>) w)"

text \<open>\<^verbatim>\<open>unsentAfterUnauthorized\<close>; \<open>renewal\<close> is \<^verbatim>\<open>undefined\<close> when the credential was renewed.\<close>

definition unsentAfterUnauthorized ::
    "jstr \<Rightarrow> thrown \<Rightarrow> classification_code \<Rightarrow> provider_world \<Rightarrow> thrown \<times> provider_world" where
  "unsentAfterUnauthorized subject renewal code w =
     (if authorizationFailure w renewal then
        (case call_error_of w renewal of None \<Rightarrow> (renewal, w)
         | Some e \<Rightarrow> let (t, w1) = rebuilt renewal (ce_code e) (ce_message e) unknown_options w
                     in (t, explainedUnauthorizedVerdict t w1))
      else
        let told = (if renewal = Undefined_Value then lit ''The credential is renewed for the next call, but the write''
               else lit ''Renewing the credential failed ('' @
                 code_name (cd_code (classifyCallError w renewal C_connector_call_failed)) @ lit ''), and the write'');
            (t, w1) = new_call_error (if renewal = Undefined_Value then C_connector_call_failed else code)
               (subject @ lit '' answered this write with HTTP 401. '' @ told @
                lit '' was not sent again, so whether it took effect is unknown: check the target before repeating it.'')
               unknown_options w;
            w2 = (if renewal = Undefined_Value then w1 else carryFailureFacts renewal t w1)
        in (t, explainedUnauthorizedVerdict t w2))"

section \<open>Settlement of a write answered 401\<close>

definition servedRefusal :: "'a failure_world_scheme \<Rightarrow> thrown \<Rightarrow> int option \<Rightarrow> bool \<Rightarrow> bool" where
  "servedRefusal w t status authBeforeExecution =
     (if \<not> refusedStatus status then False
      else if status = Some 401 \<and> \<not> authBeforeExecution then False
      else let code = cd_code (classifyCallError w t C_connector_call_failed) in code \<noteq> C_unavailable \<and> code \<noteq> C_timeout)"

definition standingRefusal :: "provider_world \<Rightarrow> thrown \<Rightarrow> nat \<Rightarrow> bool" where
  "standingRefusal w t r \<longleftrightarrow>
     t = Undefined_Value \<or>
     (case call_error_of w t of None \<Rightarrow> False
      | Some e \<Rightarrow> \<not> ce_unknown e \<and> refusalRequest w t = Some r \<and> servedRefusal w t (Some 401) True)"

definition unauthorized_base :: "nat \<Rightarrow> thrown \<Rightarrow> provider_world \<Rightarrow> thrown \<times> provider_world" where
  "unauthorized_base r t w =
     (if authorizationFailure w t then (t, w)
      else case unauthorizedAnswer w r of
        Some a \<Rightarrow> (a, w)
      | None \<Rightarrow>
          let (n, w1) = new_call_error C_auth_required
                (pr_provider (p_requests w r) @ lit '' answered this write with HTTP 401.'') no_options w
          in (n, attachFailureFacts n (case pr_status (p_requests w r) of None \<Rightarrow> Map.empty
                    | Some _ \<Rightarrow> [lit ''httpStatus'' \<mapsto> lit ''401'']) w1))"

definition unauthorizedVerdict :: "nat \<Rightarrow> thrown \<Rightarrow> provider_world \<Rightarrow> thrown \<times> provider_world" where
  "unauthorizedVerdict r t w =
     (let (base, w1) = unauthorized_base r t w in
      if explainsUnauthorized w1 base then
        let (v, w2) = withoutRetry base w1 in (v, carryFailureFacts t v w2)
      else case call_error_of w1 base of
        None \<Rightarrow> (base, w1)
      | Some e \<Rightarrow>
          let (v, w2) = rebuilt base (ce_code e)
                (ce_message e @ lit '' The write was sent before '' @ pr_provider (p_requests w1 r) @
                 lit '' rejected its credential, so whether it took effect is unknown: check the target before repeating it.'')
                unknown_options w1
          in (v, explainedUnauthorizedVerdict v (carryFailureFacts t v w2)))"

definition renewedVerdict :: "nat list \<Rightarrow> thrown \<Rightarrow> provider_world \<Rightarrow> thrown \<times> provider_world" where
  "renewedVerdict answers t w =
     (let own = refusalRequest w t;
          subject = pr_provider (p_requests w (case own of Some r \<Rightarrow> r | None \<Rightarrow> hd answers))
      in if t = Undefined_Value \<or> (authorizationFailure w t \<and> (case own of Some r \<Rightarrow> r \<in> set answers | None \<Rightarrow> False)) then
           let (v, w1) = unsentAfterUnauthorized subject Undefined_Value C_auth_required w in (v, carryFailureFacts t v w1)
         else let (v, w1) = uncertainProviderFailure subject t None w in withoutRetry v w1)"

definition settleWrite :: "nat list \<Rightarrow> thrown \<Rightarrow> bool \<Rightarrow> provider_world \<Rightarrow> thrown \<times> provider_world" where
  "settleWrite requests t knownRefusal w =
     (let sent = filter (\<lambda>r. pr_dispatched (p_requests w r) \<and> \<not> pr_auxiliary (p_requests w r)) requests;
          answers = filter (\<lambda>r. pr_status (p_requests w r) = Some 401) sent
      in case answers of [] \<Rightarrow> (t, w)
         | only # _ \<Rightarrow>
             if knownRefusal \<and> length sent = 1 \<and> pr_authBeforeExecution (p_requests w only) \<and> standingRefusal w t only
             then (t, w)
             else
               let (v, w1) = (case find (\<lambda>r. \<not> pr_renewed (p_requests w r)) answers of
                     Some r \<Rightarrow> unauthorizedVerdict r t w
                   | None \<Rightarrow> renewedVerdict answers t w)
               in (v, settledWrite v w1))"

definition settleWriteResult :: "nat list \<Rightarrow> provider_world \<Rightarrow> thrown \<times> provider_world" where
  "settleWriteResult requests w =
     settleWrite (filter (\<lambda>r. \<not> read_request_of (p_requests w r) \<and> \<not> pr_authBeforeExecution (p_requests w r)) requests)
       Undefined_Value False w"

section \<open>The decision about a failed call\<close>

record failure_context =
  fc_dispatched :: bool
  fc_status :: "int option"
  fc_fallback :: tool_class
  fc_repeatable :: bool
  fc_finalize :: bool
  fc_untracked :: bool
  fc_authBeforeExecution :: bool
  fc_request :: "nat option"

text \<open>A request of the ledger that counts as sent.\<close>

definition counts_as_sent :: "provider_world \<Rightarrow> nat \<Rightarrow> bool" where
  "counts_as_sent w r \<longleftrightarrow> pr_dispatched (p_requests w r) \<and>
     (\<not> pr_auxiliary (p_requests w r) \<or> pr_blocksAuxiliaryProof (p_requests w r))"

definition ledger_failure ::
    "call_ctx \<Rightarrow> jstr \<Rightarrow> thrown \<Rightarrow> failure_context \<Rightarrow> tool_class option \<Rightarrow> nat list \<Rightarrow> provider_world \<Rightarrow> thrown \<times> provider_world" where
  "ledger_failure ctx vendor t facts served requests w =
     (let dispatched = filter (counts_as_sent w) requests;
          nested = filter (counts_as_sent w) (nestedProviderRequests w ctx)
      in if dispatched = [] \<and> nested = [] \<and> \<not> fc_untracked facts then (t, knownProviderFailure t None w)
         else
           let sole = (if \<not> fc_untracked facts \<and> length dispatched = 1 \<and> nested = [] then Some (hd dispatched) else None);
               refusal = refusalRequest w t;
               own = (\<not> (case call_error_of w t of Some e \<Rightarrow> ce_unknown e | None \<Rightarrow> False) \<and> refusal \<noteq> None \<and> sole = refusal)
           in if own \<and> (case refusal of None \<Rightarrow> False
                 | Some r \<Rightarrow> servedRefusal w t (pr_status (p_requests w r)) (pr_authBeforeExecution (p_requests w r)))
              then (t, knownProviderFailure t None w)
              else if fc_untracked facts then uncertainProviderFailure vendor t (Some ctx) w
              else if served = None \<and> (case sole of Some r \<Rightarrow> pr_key (p_requests w r) \<noteq> None | None \<Rightarrow> False) then (t, w)
              else uncertainProviderFailure
                     (case dispatched of r # _ \<Rightarrow> pr_provider (p_requests w r) | [] \<Rightarrow> vendor) t (Some ctx) w)"

text \<open>The part of a transport's failure after its timeouts and aborts were told apart; the failure is typed.\<close>

definition transport_verdict ::
    "jstr \<Rightarrow> thrown \<Rightarrow> call_error \<Rightarrow> failure_context \<Rightarrow> provider_world \<Rightarrow> thrown \<times> provider_world" where
  "transport_verdict vendor t e facts w =
     (let request = map_option (p_requests w) (fc_request facts);
          status = or_else (fc_status facts) (Option.bind request pr_status);
          declared = (fc_authBeforeExecution facts \<or> (case request of Some q \<Rightarrow> pr_authBeforeExecution q | None \<Rightarrow> False));
          serverError = (case status of Some s \<Rightarrow> 500 \<le> s | None \<Rightarrow> False)
      in if servedRefusal w t status declared then (t, knownProviderFailure t None w)
         else if fc_repeatable facts \<and> ce_retryable e then
           rebuilt t C_connector_call_failed
             (ce_message e @ lit '' Whether the write took effect at '' @ vendor @
              lit '' is unknown; check the target before repeating it.'') unknown_options w
         else
           let (v, w1) = unknownOutcome vendor t w
           in if v \<noteq> t then (v, carryFailureFacts t v w1)
              else rebuilt t (if serverError then C_connector_call_failed else ce_code e) (ce_message e) unknown_options w1)"

definition transport_failure ::
    "call_ctx \<Rightarrow> jstr \<Rightarrow> thrown \<Rightarrow> failure_context \<Rightarrow> tool_class option \<Rightarrow> provider_world \<Rightarrow> thrown \<times> provider_world" where
  "transport_failure ctx vendor t facts served w =
     (let ce = call_error_of w t in
      if \<not> fc_dispatched facts then
        (if (case ce of Some e \<Rightarrow> ce_unknown e | None \<Rightarrow> False) then (t, w) else (t, knownProviderFailure t None w))
      else if served = None then
        (if fc_repeatable facts then (t, w)
         else if timedOutOrAborted w t ctx then uncertainProviderFailure vendor t (Some ctx) w
         else case ce of
           None \<Rightarrow> (let (v, w1) = unknownOutcome vendor t w
                    in if v = t then uncertainProviderFailure vendor t (Some ctx) w1 else (v, w1))
         | Some e \<Rightarrow> if ce_unknown e then uncertainProviderFailure vendor t (Some ctx) w
                     else transport_verdict vendor t e facts w)
      else
        (case ce of
           None \<Rightarrow> unknownOutcome vendor t w
         | Some e \<Rightarrow> if ce_unknown e then (t, w) else if isTimeout e then (t, w)
                     else transport_verdict vendor t e facts w))"

definition writeFailure ::
    "call_ctx \<Rightarrow> jstr \<Rightarrow> thrown \<Rightarrow> failure_context \<Rightarrow> tool_class option \<Rightarrow> nat list option \<Rightarrow> provider_world \<Rightarrow> thrown \<times> provider_world" where
  "writeFailure ctx vendor t facts served requests w =
     (case requests of Some rs \<Rightarrow> ledger_failure ctx vendor t facts served rs w
      | None \<Rightarrow> transport_failure ctx vendor t facts served w)"

definition providerCallFailure ::
    "call_ctx \<Rightarrow> jstr \<Rightarrow> thrown \<Rightarrow> failure_context \<Rightarrow> provider_world \<Rightarrow> thrown \<times> provider_world" where
  "providerCallFailure ctx vendor t facts w =
     (let served = cx_served ctx;
          class' = (case served of Some k \<Rightarrow> k | None \<Rightarrow> fc_fallback facts)
      in if class' \<noteq> Write \<and> \<not> (case fc_request facts of Some r \<Rightarrow> pr_sourceWrite (p_requests w r) | None \<Rightarrow> False) then (t, w)
         else
           let requests = providerRequests w ctx
           in if requests \<noteq> None \<and> \<not> fc_finalize facts then (t, w)
              else
                let (decided, w1) = writeFailure ctx vendor t facts served requests w
                in if inLogicalCall ctx \<or> nestedProviderCall w1 ctx then (decided, w1)
                   else settleWrite
                     (case requests of Some rs \<Rightarrow> rs @ nestedProviderRequests w1 ctx
                      | None \<Rightarrow> (case fc_request facts of Some r \<Rightarrow> [r] | None \<Rightarrow> []))
                     decided (isKnownProviderFailure w1 decided) w1)"

text \<open>\<^verbatim>\<open>providerCallResult\<close>: the verdict to throw in place of a result, or nothing.\<close>

definition providerCallResult ::
    "call_ctx \<Rightarrow> tool_class \<Rightarrow> nat option \<Rightarrow> provider_world \<Rightarrow> thrown option \<times> provider_world" where
  "providerCallResult ctx fallback request w =
     (if (case cx_served ctx of Some k \<Rightarrow> k | None \<Rightarrow> fallback) \<noteq> Write then (None, w)
      else if request \<noteq> None \<and> providerRequests w ctx \<noteq> None then (None, w)
      else case or_else (providerRequests w ctx) (map_option (\<lambda>r. [r]) request) of
        None \<Rightarrow> (None, w)
      | Some rs \<Rightarrow>
          if inLogicalCall ctx \<or> nestedProviderCall w ctx then (None, w)
          else let (v, w1) = settleWriteResult (rs @ nestedProviderRequests w ctx) w
               in ((if v = Undefined_Value then None else Some v), w1))"

section \<open>Lemmas\<close>

text \<open>Marks and facts never touch the objects or the ledger.\<close>

lemma carryResendAdvice_objects [simp]:
  "w_objects (carryResendAdvice f t w) = w_objects w" "w_next (carryResendAdvice f t w) = w_next w"
  "w_http_origin (carryResendAdvice f t w) = w_http_origin w"
  by (auto simp: carryResendAdvice_def Let_def split: thrown.split option.split)

lemma carryResendAdvice_marks [simp]:
  "p_refusals (carryResendAdvice f t w) = p_refusals w" "p_requests (carryResendAdvice f t w) = p_requests w"
  "p_unauthorizedAnswers (carryResendAdvice f t w) = p_unauthorizedAnswers w" "p_calls (carryResendAdvice f t w) = p_calls w"
  "p_knownFailures (carryResendAdvice f t w) = p_knownFailures w" "p_next_call (carryResendAdvice f t w) = p_next_call w"
  by (auto simp: carryResendAdvice_def Let_def split: thrown.split option.split)

lemma carryFailureFacts_simps [simp]:
  "w_objects (carryFailureFacts f t w) = w_objects w" "w_next (carryFailureFacts f t w) = w_next w"
  "p_requests (carryFailureFacts f t w) = p_requests w" "p_calls (carryFailureFacts f t w) = p_calls w"
  "p_unauthorizedAnswers (carryFailureFacts f t w) = p_unauthorizedAnswers w" "p_next_call (carryFailureFacts f t w) = p_next_call w"
  by (auto simp: carryFailureFacts_def carryProviderFailure_def Let_def split: thrown.split option.split)

lemma mark_simps [simp]:
  "w_objects (explainedUnauthorizedVerdict t w) = w_objects w" "w_objects (settledWrite t w) = w_objects w"
  "w_objects (knownProviderFailure t u w) = w_objects w" "w_objects (attachFailureFacts t fs w) = w_objects w"
  "p_requests (attachFailureFacts t fs w) = p_requests w" "p_requests (knownProviderFailure t u w) = p_requests w"
  "p_calls (knownProviderFailure t u w) = p_calls w" "p_next_call (knownProviderFailure t u w) = p_next_call w"
  "p_unauthorizedAnswers (knownProviderFailure t u w) = p_unauthorizedAnswers w"
  by (auto simp: explainedUnauthorizedVerdict_def settledWrite_def knownProviderFailure_def attachFailureFacts_def Let_def
      split: thrown.split option.split)

lemma call_error_of_cong: "w_objects v = w_objects w \<Longrightarrow> call_error_of v t = call_error_of w t"
  by (simp add: call_error_of_def object_of_def split: thrown.split)

lemma authorizationFailure_cong: "w_objects v = w_objects w \<Longrightarrow> authorizationFailure v t = authorizationFailure w t"
  by (simp add: authorizationFailure_def call_error_of_cong [of v w])

lemma authorizationFailure_iff:
  "authorizationFailure w t \<longleftrightarrow>
     (\<exists>e. call_error_of w t = Some e \<and> (ce_code e = C_auth_required \<or> ce_code e = C_downstream_oauth_required))"
  by (auto simp: authorizationFailure_def split: option.split)

text \<open>Typed failures are objects, and a new one is found at its own address.\<close>

lemma call_error_of_Obj: "call_error_of w t = Some e \<Longrightarrow> \<exists>i. t = Obj i"
  by (auto simp: call_error_of_def object_of_def split: thrown.splits)

lemma new_call_error_result:
  "new_call_error code message opts w = (t, w') \<Longrightarrow> call_error_of w' t = Some (make_call_error w code message opts) \<and> p_requests w' = p_requests w"
  by (auto simp: new_call_error_def new_object_def call_error_of_def object_of_def)

lemma rebuilt_result:
  "rebuilt from code message opts w = (t, w') \<Longrightarrow> call_error_of w' t = Some (make_call_error w code message opts) \<and> p_requests w' = p_requests w"
proof -
  assume *: "rebuilt from code message opts w = (t, w')"
  obtain n w1 where n: "new_call_error code message opts w = (n, w1)" by force
  with * have "t = n" "w' = carryFailureFacts from n w1" by (auto simp: rebuilt_def)
  moreover have "call_error_of (carryFailureFacts from n w1) n = call_error_of w1 n" by (rule call_error_of_cong) simp
  ultimately show ?thesis using new_call_error_result [OF n] by simp
qed

text \<open>What an unknown write looks like: never retryable; settled ones carry no wait either.\<close>

definition final_unknown :: "'a failure_world_scheme \<Rightarrow> thrown \<Rightarrow> bool" where
  "final_unknown w t \<longleftrightarrow> (\<exists>e. call_error_of w t = Some e \<and> ce_unknown e \<and> \<not> ce_retryable e)"

definition settled_unknown :: "'a failure_world_scheme \<Rightarrow> thrown \<Rightarrow> classification_code set \<Rightarrow> bool" where
  "settled_unknown w t codes \<longleftrightarrow>
     (\<exists>e. call_error_of w t = Some e \<and> ce_unknown e \<and> \<not> ce_retryable e \<and> ce_retryAfterMs e = None \<and> ce_code e \<in> codes)"

lemma settled_unknown_mono: "settled_unknown w t A \<Longrightarrow> A \<subseteq> B \<Longrightarrow> settled_unknown w t B"
  by (auto simp: settled_unknown_def)

lemma settled_unknown_cong: "w_objects v = w_objects w \<Longrightarrow> settled_unknown v t A = settled_unknown w t A"
  by (simp add: settled_unknown_def call_error_of_cong [of v w])

lemma final_unknown_cong: "w_objects v = w_objects w \<Longrightarrow> final_unknown v t = final_unknown w t"
  by (simp add: final_unknown_def call_error_of_cong [of v w])

lemma make_unknown [simp]:
  "ce_unknown (make_call_error w c m (unknown_options\<lparr>eo_details := d, eo_validation := v, eo_current := u\<rparr>))"
  "\<not> ce_retryable (make_call_error w c m (unknown_options\<lparr>eo_details := d, eo_validation := v, eo_current := u\<rparr>))"
  "ce_retryAfterMs (make_call_error w c m (unknown_options\<lparr>eo_details := d, eo_validation := v, eo_current := u\<rparr>)) = None"
  "ce_unknown (make_call_error w c m unknown_options)" "\<not> ce_retryable (make_call_error w c m unknown_options)"
  "ce_retryAfterMs (make_call_error w c m unknown_options) = None" "ce_code (make_call_error w c m opts) = c"
  by (simp_all add: make_call_error_def unknown_options_def no_options_def normalizeRetryAfterMs_def)

lemma rebuilt_unknown:
  assumes "rebuilt from code message opts w = (t, w')" "eo_unknown opts" "eo_retryable opts = Some False"
  shows "final_unknown w' t"
  using rebuilt_result [OF assms(1)] assms(2,3) by (simp add: final_unknown_def make_call_error_def)

lemma new_unknown:
  assumes "new_call_error code message unknown_options (w :: provider_world) = (t, w')"
  shows "settled_unknown w' t {code}"
  using new_call_error_result [OF assms] by (simp add: settled_unknown_def)

lemma unknown_options_fields [simp]: "eo_unknown unknown_options" "eo_retryable unknown_options = Some False"
  by (simp_all add: unknown_options_def)

lemma uncertain_unknown:
  assumes "uncertainProviderFailure vendor t ctx w = (v, w')" shows "final_unknown w' v"
proof (cases "case call_error_of w t of Some e \<Rightarrow> ce_unknown e \<and> \<not> ce_retryable e | None \<Rightarrow> False")
  case True
  with assms have "v = t" "w' = w" by (simp_all add: uncertainProviderFailure_def Let_def)
  with True show ?thesis by (auto simp: final_unknown_def split: option.splits)
next
  case False
  show ?thesis
  proof (cases "Option.bind ctx callerAbort")
    case None
    with False assms show ?thesis
      by (auto simp: uncertainProviderFailure_def Let_def intro: rebuilt_unknown split: option.splits)
  next
    case (Some reason)
    with False assms show ?thesis
      by (auto simp: uncertainProviderFailure_def callerAborted_def Let_def intro: rebuilt_unknown)
  qed
qed

lemma withoutRetry_settled:
  assumes "call_error_of w t = Some e" "withoutRetry t w = (v, w')" shows "settled_unknown w' v {ce_code e}"
proof (cases "\<not> ce_retryable e \<and> ce_retryAfterMs e = None \<and> ce_unknown e")
  case True
  with assms show ?thesis by (simp add: withoutRetry_def settled_unknown_def)
next
  case False
  with assms have "rebuilt t (ce_code e) (ce_message e) (unknown_options\<lparr>eo_details := ce_details e,
      eo_validation := ce_validation e, eo_current := current_input (ce_current e)\<rparr>) w = (v, w')"
    by (simp add: withoutRetry_def)
  from rebuilt_result [OF this] show ?thesis by (simp add: settled_unknown_def)
qed


lemma unsent_settled:
  assumes "unsentAfterUnauthorized subject Undefined_Value code w = (v, w')" shows "settled_unknown w' v UNIV"
proof -
  obtain n w1 where n: "new_call_error C_connector_call_failed
      (subject @ lit '' answered this write with HTTP 401. '' @ lit ''The credential is renewed for the next call, but the write'' @
       lit '' was not sent again, so whether it took effect is unknown: check the target before repeating it.'')
      unknown_options w = (n, w1)" by force
  have "\<not> authorizationFailure w Undefined_Value"
    by (simp add: authorizationFailure_def call_error_of_def object_of_def)
  with assms n have "v = n" "w' = explainedUnauthorizedVerdict n w1"
    by (auto simp: unsentAfterUnauthorized_def)
  moreover have "settled_unknown (explainedUnauthorizedVerdict n w1) n UNIV = settled_unknown w1 n UNIV"
    by (rule settled_unknown_cong) simp
  ultimately show ?thesis using settled_unknown_mono [OF new_unknown [OF n], of UNIV] by simp
qed

text \<open>The answers recorded for 401s are authorization verdicts, as \<^verbatim>\<open>vendorRefusal\<close> records them.\<close>

definition answers_ok :: "provider_world \<Rightarrow> bool" where
  "answers_ok w \<longleftrightarrow> (\<forall>r i. p_unauthorizedAnswers w r = Some i \<longrightarrow> i < w_next w \<and> authorizationFailure w (Obj i))"

lemma answers_ok_vendorRefusal:
  assumes "answers_ok w" "\<And>i. t = Obj i \<Longrightarrow> i < w_next w" shows "answers_ok (vendorRefusal t r w)"
proof -
  have obj: "w_objects (vendorRefusal t r w) = w_objects w" "w_next (vendorRefusal t r w) = w_next w"
    by (auto simp: vendorRefusal_def Let_def split: thrown.split)
  have "p_unauthorizedAnswers (vendorRefusal t r w) x = Some i \<Longrightarrow> i < w_next w \<and> authorizationFailure w (Obj i)" for x i
    using assms by (auto simp: answers_ok_def vendorRefusal_def Let_def split: thrown.splits if_splits)
  then show ?thesis unfolding answers_ok_def authorizationFailure_cong [OF obj(1)] obj(2) by blast
qed

text \<open>A step that only adds objects and marks.\<close>

definition extends :: "provider_world \<Rightarrow> provider_world \<Rightarrow> bool" where
  "extends w w' \<longleftrightarrow> w_next w \<le> w_next w' \<and> (\<forall>i < w_next w. w_objects w' i = w_objects w i) \<and>
     p_unauthorizedAnswers w' = p_unauthorizedAnswers w \<and> p_requests w' = p_requests w"

lemma extends_refl [simp]: "extends w w"
  by (simp add: extends_def)

lemma extends_trans: "extends u v \<Longrightarrow> extends v w \<Longrightarrow> extends u w"
  by (auto simp: extends_def)

lemma extends_marks [simp]: "extends w (carryFailureFacts f t w)" "extends w (knownProviderFailure t u w)"
  by (auto simp: extends_def knownProviderFailure_def Let_def split: thrown.split option.split)

lemma extends_new: "new_call_error c m opts w = (t, w') \<Longrightarrow> extends w w'"
  by (auto simp: new_call_error_def new_object_def extends_def)

lemma extends_rebuilt: assumes "rebuilt f c m opts w = (t, w')" shows "extends w w'"
proof -
  obtain n w1 where n: "new_call_error c m opts w = (n, w1)" by force
  with assms have "w' = carryFailureFacts f n w1" by (auto simp: rebuilt_def)
  then show ?thesis using extends_trans [OF extends_new [OF n] extends_marks(1)] by simp
qed

lemma extends_uncertain: "uncertainProviderFailure vendor t ctx w = (v, w') \<Longrightarrow> extends w w'"
  by (auto simp: uncertainProviderFailure_def callerAborted_def Let_def intro: extends_rebuilt split: if_splits option.splits)

lemma extends_unknownOutcome: "unknownOutcome vendor t w = (v, w') \<Longrightarrow> extends w w'"
  by (auto simp: unknownOutcome_def Let_def intro: extends_new split: if_splits option.splits error_object.splits)

lemma answers_ok_extends: assumes "answers_ok w" "extends w w'" shows "answers_ok w'"
proof -
  have "authorizationFailure w' (Obj i) = authorizationFailure w (Obj i)" if "i < w_next w" for i
    using that assms(2) by (simp add: authorizationFailure_def call_error_of_def object_of_def extends_def)
  then show ?thesis using assms unfolding answers_ok_def extends_def by (metis less_le_trans)
qed

lemma unauthorized_base_auth:
  assumes "answers_ok w" "unauthorized_base r t w = (b, w1)" shows "authorizationFailure w1 b"
proof (cases "authorizationFailure w t")
  case True
  with assms(2) show ?thesis by (auto simp: unauthorized_base_def)
next
  case no: False
  show ?thesis
  proof (cases "unauthorizedAnswer w r")
    case None
    let ?m = "pr_provider (p_requests w r) @ lit '' answered this write with HTTP 401.''"
    obtain n w2 where n: "new_call_error C_auth_required ?m no_options w = (n, w2)" by force
    with no None assms(2) have "b = n" "w_objects w1 = w_objects w2" by (auto simp: unauthorized_base_def)
    with new_call_error_result [OF n] show ?thesis
      unfolding authorizationFailure_cong [OF \<open>w_objects w1 = w_objects w2\<close>] by (simp add: authorizationFailure_iff)
  next
    case (Some a)
    with no assms show ?thesis
      by (auto simp: unauthorized_base_def unauthorizedAnswer_def answers_ok_def)
  qed
qed

definition auth_codes :: "classification_code set" where
  "auth_codes = {C_auth_required, C_downstream_oauth_required}"

lemma unauthorizedVerdict_settled:
  assumes "answers_ok w" "unauthorizedVerdict r t w = (v, w')" shows "settled_unknown w' v auth_codes"
proof -
  obtain b w1 where b: "unauthorized_base r t w = (b, w1)" by force
  obtain e where e: "call_error_of w1 b = Some e" "ce_code e \<in> auth_codes"
    using unauthorized_base_auth [OF assms(1) b] by (auto simp: authorizationFailure_iff auth_codes_def)
  show ?thesis
  proof (cases "explainsUnauthorized w1 b")
    case True
    obtain x w2 where x: "withoutRetry b w1 = (x, w2)" by force
    with True b assms(2) have "v = x" "w_objects w' = w_objects w2" by (auto simp: unauthorizedVerdict_def)
    with settled_unknown_mono [OF withoutRetry_settled [OF e(1) x], of auth_codes] e(2) show ?thesis
      unfolding settled_unknown_cong [OF \<open>w_objects w' = w_objects w2\<close>] by simp
  next
    case False
    let ?m = "ce_message e @ lit '' The write was sent before '' @ pr_provider (p_requests w1 r) @
      lit '' rejected its credential, so whether it took effect is unknown: check the target before repeating it.''"
    obtain x w2 where x: "rebuilt b (ce_code e) ?m unknown_options w1 = (x, w2)" by force
    with False b e assms(2) have "v = x" "w_objects w' = w_objects w2" by (auto simp: unauthorizedVerdict_def)
    with rebuilt_result [OF x] e(2) show ?thesis
      unfolding settled_unknown_cong [OF \<open>w_objects w' = w_objects w2\<close>] by (simp add: settled_unknown_def)
  qed
qed

lemma renewedVerdict_settled:
  assumes "renewedVerdict answers t w = (v, w')" shows "settled_unknown w' v UNIV"
proof -
  define own where "own = refusalRequest w t"
  define subject where "subject = pr_provider (p_requests w (case own of Some r \<Rightarrow> r | None \<Rightarrow> hd answers))"
  show ?thesis
  proof (cases "t = Undefined_Value \<or> (authorizationFailure w t \<and> (case own of Some r \<Rightarrow> r \<in> set answers | None \<Rightarrow> False))")
    case True
    obtain x w1 where x: "unsentAfterUnauthorized subject Undefined_Value C_auth_required w = (x, w1)" by force
    from assms have "v = x" "w_objects w' = w_objects w1"
      unfolding renewedVerdict_def Let_def own_def [symmetric] subject_def [symmetric] if_P [OF True] x by auto
    with unsent_settled [OF x] show ?thesis
      unfolding settled_unknown_cong [OF \<open>w_objects w' = w_objects w1\<close>] by simp
  next
    case False
    obtain x w1 where x: "uncertainProviderFailure subject t None w = (x, w1)" by force
    from assms have "withoutRetry x w1 = (v, w')"
      unfolding renewedVerdict_def Let_def own_def [symmetric] subject_def [symmetric] if_not_P [OF False] x by simp
    moreover obtain e where "call_error_of w1 x = Some e"
      using uncertain_unknown [OF x] by (auto simp: final_unknown_def)
    ultimately show ?thesis using settled_unknown_mono [OF withoutRetry_settled, of w1 x e v w' UNIV] by simp
  qed
qed

text \<open>An unknown verdict is told without advice.\<close>

lemma settled_no_advice: "settled_unknown w t A \<Longrightarrow> classifyCallError w t fb = classifyWithoutAdvice w t fb"
  by (auto simp: settled_unknown_def classifyCallError_def classifyWithoutAdvice_def call_error_of_def Let_def
      split: option.splits error_object.splits)

text \<open>The two ways a settlement ends.\<close>

definition unauthorized_write :: "provider_world \<Rightarrow> nat \<Rightarrow> bool" where
  "unauthorized_write w r \<longleftrightarrow> pr_dispatched (p_requests w r) \<and> \<not> pr_auxiliary (p_requests w r) \<and> pr_status (p_requests w r) = Some 401"

definition declared_refusal :: "provider_world \<Rightarrow> nat list \<Rightarrow> thrown \<Rightarrow> bool" where
  "declared_refusal w requests t \<longleftrightarrow>
     (\<exists>r. filter (\<lambda>r. pr_dispatched (p_requests w r) \<and> \<not> pr_auxiliary (p_requests w r)) requests = [r] \<and>
       pr_authBeforeExecution (p_requests w r) \<and> standingRefusal w t r)"

lemma settleWrite_cases:
  assumes "answers_ok w" "r \<in> set requests" "unauthorized_write w r" "settleWrite requests t knownRefusal w = (v, w')"
  shows "(v = t \<and> w' = w \<and> knownRefusal \<and> declared_refusal w requests t) \<or>
    (settled_unknown w' v UNIV \<and> isSettledWrite w' v \<and>
     ((\<exists>q \<in> set requests. unauthorized_write w q \<and> \<not> pr_renewed (p_requests w q)) \<longrightarrow> settled_unknown w' v auth_codes))"
proof -
  define sent where "sent = filter (\<lambda>r. pr_dispatched (p_requests w r) \<and> \<not> pr_auxiliary (p_requests w r)) requests"
  define answers where "answers = filter (\<lambda>r. pr_status (p_requests w r) = Some 401) sent"
  have mem: "q \<in> set answers \<longleftrightarrow> q \<in> set requests \<and> unauthorized_write w q" for q
    by (auto simp: answers_def sent_def unauthorized_write_def)
  then obtain only rest where ans: "answers = only # rest" using assms(2,3) by (cases answers) auto
  let ?decl = "knownRefusal \<and> length sent = 1 \<and> pr_authBeforeExecution (p_requests w only) \<and> standingRefusal w t only"
  show ?thesis
  proof (cases ?decl)
    case True
    have "sent = [only]" using True ans by (cases sent) (auto simp: answers_def split: if_splits)
    with True have "declared_refusal w requests t"
      unfolding declared_refusal_def sent_def [symmetric] by blast
    moreover have "v = t" "w' = w"
      using assms(4) True unfolding settleWrite_def Let_def sent_def [symmetric] answers_def [symmetric]
      by (simp_all add: ans)
    ultimately show ?thesis using True by simp
  next
    case False
    obtain x w1 where x: "(case find (\<lambda>r. \<not> pr_renewed (p_requests w r)) answers of
        Some r \<Rightarrow> unauthorizedVerdict r t w | None \<Rightarrow> renewedVerdict answers t w) = (x, w1)" by force
    have v: "v = x" "w' = settledWrite x w1"
      using assms(4) False x unfolding settleWrite_def Let_def sent_def [symmetric] answers_def [symmetric]
      by (auto simp: ans)
    have "settled_unknown w1 x UNIV \<and>
      ((\<exists>q \<in> set answers. \<not> pr_renewed (p_requests w q)) \<longrightarrow> settled_unknown w1 x auth_codes)"
    proof (cases "find (\<lambda>r. \<not> pr_renewed (p_requests w r)) answers")
      case None
      then have "\<forall>q \<in> set answers. pr_renewed (p_requests w q)" by (auto simp: find_None_iff)
      moreover have "settled_unknown w1 x UNIV" using renewedVerdict_settled x None by simp
      ultimately show ?thesis by blast
    next
      case (Some q)
      then have "settled_unknown w1 x auth_codes" using unauthorizedVerdict_settled [OF assms(1)] x by simp
      then show ?thesis using settled_unknown_mono by blast
    qed
    note settled = this
    have same: "w_objects w' = w_objects w1" using v by simp
    obtain i where "x = Obj i" using settled by (auto simp: settled_unknown_def dest: call_error_of_Obj)
    then have "isSettledWrite w' x" using v(2) by (simp add: isSettledWrite_def marked_in_def settledWrite_def)
    with settled mem show ?thesis unfolding v(1) settled_unknown_cong [OF same] by blast
  qed
qed

lemma settleWrite_none:
  "\<not> (\<exists>r \<in> set requests. unauthorized_write w r) \<Longrightarrow> settleWrite requests t k w = (t, w)"
proof -
  assume "\<not> (\<exists>r \<in> set requests. unauthorized_write w r)"
  then have "filter (\<lambda>r. pr_status (p_requests w r) = Some 401)
      (filter (\<lambda>r. pr_dispatched (p_requests w r) \<and> \<not> pr_auxiliary (p_requests w r)) requests) = []"
    by (auto simp: filter_empty_conv unauthorized_write_def)
  then show ?thesis unfolding settleWrite_def Let_def by (simp only: list.case)
qed

text \<open>
  The evidence that a write was not applied: within a ledger, nothing that counts as sent left, or the one
  request that did was refused; outside one, the request never left, or it was refused. A 401 is a refusal only
  where the vendor is declared to authenticate first.
\<close>

definition refused_evidence :: "int option \<Rightarrow> bool \<Rightarrow> bool" where
  "refused_evidence status declared \<longleftrightarrow> refusedStatus status \<and> (status = Some 401 \<longrightarrow> declared)"

definition unapplied_evidence :: "provider_world \<Rightarrow> call_ctx \<Rightarrow> failure_context \<Rightarrow> bool" where
  "unapplied_evidence w ctx facts =
     (case providerRequests w ctx of
        Some rs \<Rightarrow>
          \<not> fc_untracked facts \<and> filter (counts_as_sent w) (nestedProviderRequests w ctx) = [] \<and>
          (filter (counts_as_sent w) rs = [] \<or>
           (\<exists>r. filter (counts_as_sent w) rs = [r] \<and>
              refused_evidence (pr_status (p_requests w r)) (pr_authBeforeExecution (p_requests w r))))
      | None \<Rightarrow>
          \<not> fc_dispatched facts \<or>
          refused_evidence (or_else (fc_status facts) (Option.bind (map_option (p_requests w) (fc_request facts)) pr_status))
            (fc_authBeforeExecution facts \<or>
             (case map_option (p_requests w) (fc_request facts) of Some q \<Rightarrow> pr_authBeforeExecution q | None \<Rightarrow> False)))"

lemma servedRefusal_evidence: "servedRefusal w t status d \<Longrightarrow> refused_evidence status d"
  by (auto simp: servedRefusal_def refused_evidence_def split: if_splits)

definition verdict_of :: "provider_world \<Rightarrow> call_ctx \<Rightarrow> failure_context \<Rightarrow> thrown \<Rightarrow> thrown \<Rightarrow> provider_world \<Rightarrow> bool" where
  "verdict_of w ctx facts t v w' \<longleftrightarrow>
     final_unknown w' v \<or> (v = t \<and> w' = w) \<or> (v = t \<and> w' = knownProviderFailure t None w \<and> unapplied_evidence w ctx facts)"

lemma ledger_failure_verdict:
  assumes "providerRequests w ctx = Some rs" "ledger_failure ctx vendor t facts served rs w = (v, w')"
  shows "verdict_of w ctx facts t v w' \<and>
    (served \<noteq> None \<longrightarrow> final_unknown w' v \<or> (v = t \<and> w' = knownProviderFailure t None w \<and> unapplied_evidence w ctx facts))"
proof -
  define d where "d = filter (counts_as_sent w) rs"
  define n where "n = filter (counts_as_sent w) (nestedProviderRequests w ctx)"
  define sole where "sole = (if \<not> fc_untracked facts \<and> length d = 1 \<and> n = [] then Some (hd d) else None)"
  let ?own = "\<not> (case call_error_of w t of Some e \<Rightarrow> ce_unknown e | None \<Rightarrow> False) \<and> refusalRequest w t \<noteq> None \<and> sole = refusalRequest w t"
  let ?served = "case refusalRequest w t of None \<Rightarrow> False
    | Some r \<Rightarrow> servedRefusal w t (pr_status (p_requests w r)) (pr_authBeforeExecution (p_requests w r))"
  have def: "(v, w') = (if d = [] \<and> n = [] \<and> \<not> fc_untracked facts then (t, knownProviderFailure t None w)
     else if ?own \<and> ?served then (t, knownProviderFailure t None w)
     else if fc_untracked facts then uncertainProviderFailure vendor t (Some ctx) w
     else if served = None \<and> (case sole of Some r \<Rightarrow> pr_key (p_requests w r) \<noteq> None | None \<Rightarrow> False) then (t, w)
     else uncertainProviderFailure (case d of r # _ \<Rightarrow> pr_provider (p_requests w r) | [] \<Rightarrow> vendor) t (Some ctx) w)"
    using assms(2) unfolding ledger_failure_def Let_def d_def [symmetric] n_def [symmetric] sole_def [symmetric] by simp
  have ev1: "unapplied_evidence w ctx facts" if "d = [] \<and> n = [] \<and> \<not> fc_untracked facts"
    using that assms(1) by (simp add: unapplied_evidence_def d_def n_def)
  have ev2: "unapplied_evidence w ctx facts" if own: "?own \<and> ?served"
  proof -
    from own obtain r where r: "sole = Some r" "servedRefusal w t (pr_status (p_requests w r)) (pr_authBeforeExecution (p_requests w r))"
      by (auto split: option.splits)
    then have "\<not> fc_untracked facts" "n = []" "d = [r]"
      by (auto simp: sole_def length_Suc_conv split: if_splits)
    with assms(1) servedRefusal_evidence [OF r(2)] show ?thesis
      by (simp add: unapplied_evidence_def d_def n_def)
  qed
  let ?goal = "verdict_of w ctx facts t v w' \<and>
    (served \<noteq> None \<longrightarrow> final_unknown w' v \<or> (v = t \<and> w' = knownProviderFailure t None w \<and> unapplied_evidence w ctx facts))"
  have evident: ?goal if "(v, w') = (t, knownProviderFailure t None w)" "unapplied_evidence w ctx facts"
    using that by (simp add: verdict_of_def)
  have uncertain: ?goal if "(v, w') = uncertainProviderFailure p t (Some ctx) w" for p
    using uncertain_unknown [OF that [symmetric]] by (simp add: verdict_of_def)
  show ?thesis
  proof (cases "d = [] \<and> n = [] \<and> \<not> fc_untracked facts")
    case True
    with def have "(v, w') = (t, knownProviderFailure t None w)" by (simp only: if_True simp_thms)
    with ev1 [OF True] show ?thesis by (rule evident [rotated])
  next
    case notA: False
    show ?thesis
    proof (cases "?own \<and> ?served")
      case True
      have "(v, w') = (t, knownProviderFailure t None w)" using def unfolding if_not_P [OF notA] if_P [OF True] .
      with ev2 [OF True] show ?thesis by (rule evident [rotated])
    next
      case notB: False
      note rest = def [unfolded if_not_P [OF notA] if_not_P [OF notB]]
      show ?thesis
      proof (cases "\<not> fc_untracked facts \<and> served = None \<and> (case sole of Some r \<Rightarrow> pr_key (p_requests w r) \<noteq> None | None \<Rightarrow> False)")
        case True
        then have "(v, w') = (t, w)" using rest by (simp only: if_True if_False simp_thms)
        with True show ?thesis by (simp add: verdict_of_def)
      next
        case False
        have "\<exists>p. (v, w') = uncertainProviderFailure p t (Some ctx) w"
        proof (cases "fc_untracked facts")
          case True
          show ?thesis using rest unfolding if_P [OF True] by (rule exI)
        next
          case tracked: False
          with False have no_key: "\<not> (served = None \<and> (case sole of Some r \<Rightarrow> pr_key (p_requests w r) \<noteq> None | None \<Rightarrow> False))"
            by blast
          show ?thesis using rest unfolding if_not_P [OF tracked] if_not_P [OF no_key] by (rule exI)
        qed
        then show ?thesis using uncertain by blast
      qed
    qed
  qed
qed


lemma unknownOutcome_cases:
  assumes "unknownOutcome vendor t w = (v, w')"
  shows "(v = t \<and> w' = w) \<or> (final_unknown w' v \<and> p_requests w' = p_requests w)"
proof -
  have new: "final_unknown w1 n \<and> p_requests w1 = p_requests w"
    if "new_call_error C_connector_call_failed m unknown_options w = (n, w1)" for m n w1
    using new_unknown [OF that] new_call_error_result [OF that] by (auto simp: settled_unknown_def final_unknown_def)
  show ?thesis using assms
    by (auto simp: unknownOutcome_def Let_def split: option.splits error_object.splits if_splits dest: new)
qed

lemma transport_verdict_decides:
  assumes "providerRequests w ctx = None" "fc_dispatched facts" "transport_verdict vendor t e facts w = (v, w')"
  shows "final_unknown w' v \<or> (v = t \<and> w' = knownProviderFailure t None w \<and> unapplied_evidence w ctx facts)"
proof -
  define request where "request = map_option (p_requests w) (fc_request facts)"
  define status where "status = or_else (fc_status facts) (Option.bind request pr_status)"
  define declared where "declared = (fc_authBeforeExecution facts \<or> (case request of Some q \<Rightarrow> pr_authBeforeExecution q | None \<Rightarrow> False))"
  show ?thesis
  proof (cases "servedRefusal w t status declared")
    case True
    then have "v = t" "w' = knownProviderFailure t None w"
      using assms(3) unfolding transport_verdict_def Let_def request_def [symmetric] status_def [symmetric] declared_def [symmetric]
      by auto
    moreover have "unapplied_evidence w ctx facts"
      using servedRefusal_evidence [OF True] assms(1)
      by (simp add: unapplied_evidence_def request_def status_def declared_def)
    ultimately show ?thesis by simp
  next
    case False
    note rest = assms(3) [unfolded transport_verdict_def Let_def request_def [symmetric] status_def [symmetric]
      declared_def [symmetric] if_not_P [OF False]]
    obtain x w1 where x: "unknownOutcome vendor t w = (x, w1)" by force
    have "final_unknown w' v"
    proof (cases "fc_repeatable facts \<and> ce_retryable e")
      case True
      show ?thesis by (rule rebuilt_unknown [OF rest [unfolded if_P [OF True]]]) simp_all
    next
      case not: False
      show ?thesis
      proof (cases "x = t")
        case True
        with rest [unfolded if_not_P [OF not] x] have "\<exists>c. rebuilt t c (ce_message e) unknown_options w1 = (v, w')" by auto
        then show ?thesis by (auto intro: rebuilt_unknown)
      next
        case False
        with rest [unfolded if_not_P [OF not] x] have v: "v = x" "w' = carryFailureFacts t x w1" by auto
        have "final_unknown w1 x" using unknownOutcome_cases [OF x] False by simp
        moreover have "final_unknown w' x = final_unknown w1 x" by (rule final_unknown_cong) (simp add: v)
        ultimately show ?thesis by (simp add: v(1))
      qed
    qed
    then show ?thesis ..
  qed
qed

lemma transport_failure_verdict:
  assumes "providerRequests w ctx = None" "transport_failure ctx vendor t facts served w = (v, w')"
  shows "verdict_of w ctx facts t v w'"
proof (cases "fc_dispatched facts")
  case False
  then have "unapplied_evidence w ctx facts" using assms(1) by (simp add: unapplied_evidence_def)
  with False assms(2) show ?thesis by (auto simp: transport_failure_def verdict_of_def Let_def split: if_splits)
next
  case True
  have uncertain: "verdict_of w ctx facts t v w'" if "uncertainProviderFailure vendor t (Some ctx) w1 = (v, w')" for w1
    using uncertain_unknown [OF that] by (simp add: verdict_of_def)
  have outcome: "verdict_of w ctx facts t v w'" if "unknownOutcome vendor t w = (v, w')"
    using unknownOutcome_cases [OF that] by (auto simp: verdict_of_def)
  have transport: "verdict_of w ctx facts t v w'" if "transport_verdict vendor t e facts w = (v, w')" for e
    using transport_verdict_decides [OF assms(1) True that] by (auto simp: verdict_of_def)
  show ?thesis using True assms(2) transport uncertain outcome
    by (auto simp: transport_failure_def Let_def verdict_of_def split: if_splits option.splits prod.splits)
qed

lemma writeFailure_verdict:
  assumes "writeFailure ctx vendor t facts served (providerRequests w ctx) w = (v, w')"
  shows "verdict_of w ctx facts t v w'"
proof (cases "providerRequests w ctx")
  case None
  with assms transport_failure_verdict [OF None] show ?thesis by (simp add: writeFailure_def)
next
  case (Some rs)
  with assms ledger_failure_verdict [OF Some] show ?thesis by (simp add: writeFailure_def)
qed


lemma extends_transport_verdict:
  assumes "transport_verdict vendor t e facts w = (v, w')" shows "extends w w'"
proof -
  obtain x w1 where x: "unknownOutcome vendor t w = (x, w1)" by force
  have "extends w (carryFailureFacts t x w1)" "\<And>c m r w2. rebuilt t c m unknown_options w1 = (r, w2) \<Longrightarrow> extends w w2"
    using extends_trans [OF extends_unknownOutcome [OF x]] extends_rebuilt by auto
  with assms x show ?thesis
    by (auto simp: transport_verdict_def Let_def intro: extends_rebuilt split: if_splits)
qed

lemma extends_transport:
  assumes "transport_failure ctx vendor t facts served w = (v, w')" shows "extends w w'"
proof -
  have "extends w w2" if "unknownOutcome vendor t w = (x, w1)" "uncertainProviderFailure vendor t (Some ctx) w1 = (y, w2)" for x w1 y w2
    using extends_trans [OF extends_unknownOutcome [OF that(1)] extends_uncertain [OF that(2)]] .
  with assms show ?thesis
    by (auto simp: transport_failure_def Let_def intro: extends_uncertain extends_unknownOutcome extends_transport_verdict
        split: if_splits option.splits prod.splits)
qed

lemma extends_ledger: "ledger_failure ctx vendor t facts served rs w = (v, w') \<Longrightarrow> extends w w'"
  by (auto simp: ledger_failure_def Let_def intro: extends_uncertain split: if_splits)

lemma answers_ok_writeFailure:
  "answers_ok w \<Longrightarrow> writeFailure ctx vendor t facts served requests w = (v, w') \<Longrightarrow> answers_ok w'"
  by (auto simp: writeFailure_def split: option.splits intro: answers_ok_extends extends_ledger extends_transport)

lemma final_unknown_details: "final_unknown w t \<Longrightarrow> cd_unknown (classifyWithoutAdvice w t fb)"
  by (auto simp: final_unknown_def classifyWithoutAdvice_def call_error_of_def split: option.splits error_object.splits)





text \<open>The boundary that settles a direct write's result, with the requests of its own ledger.\<close>

definition result_boundary :: "provider_world \<Rightarrow> call_ctx \<Rightarrow> tool_class \<Rightarrow> nat option \<Rightarrow> nat list \<Rightarrow> bool" where
  "result_boundary w ctx fallback request rs \<longleftrightarrow>
     (case cx_served ctx of Some k \<Rightarrow> k | None \<Rightarrow> fallback) = Write \<and> \<not> inLogicalCall ctx \<and> \<not> nestedProviderCall w ctx \<and>
     ((providerRequests w ctx = Some rs \<and> request = None) \<or>
      (providerRequests w ctx = None \<and> (\<exists>r. request = Some r \<and> rs = [r])))"

lemma settleWriteResult_cases:
  assumes "answers_ok w" "settleWriteResult rs w = (v, w')"
  shows "if \<exists>r \<in> set rs. unauthorized_write w r \<and> \<not> read_request_of (p_requests w r) \<and> \<not> pr_authBeforeExecution (p_requests w r)
    then v \<noteq> Undefined_Value \<and> settled_unknown w' v UNIV \<and> isSettledWrite w' v
    else v = Undefined_Value \<and> w' = w"
proof -
  let ?qs = "filter (\<lambda>r. \<not> read_request_of (p_requests w r) \<and> \<not> pr_authBeforeExecution (p_requests w r)) rs"
  have s: "settleWrite ?qs Undefined_Value False w = (v, w')" using assms(2) by (simp add: settleWriteResult_def)
  show ?thesis
  proof (cases "\<exists>r \<in> set ?qs. unauthorized_write w r")
    case True
    then obtain r where "r \<in> set ?qs" "unauthorized_write w r" by blast
    from settleWrite_cases [OF assms(1) this s] have u: "settled_unknown w' v UNIV \<and> isSettledWrite w' v" by blast
    then have "v \<noteq> Undefined_Value" by (auto simp: settled_unknown_def dest: call_error_of_Obj)
    with u True show ?thesis by auto
  next
    case False
    then have "v = Undefined_Value \<and> w' = w" using s settleWrite_none [OF False] by simp
    with False show ?thesis by auto
  qed
qed

section \<open>Properties\<close>

text \<open>
  C6. A write answered 401 is settled once and for all (INV-9, Q8): when any write request of the call was
  answered 401, the verdict is the vendor's own refusal unchanged, and that only if the call sent nothing else
  and the refusal is known and covered by the vendor's declaration that it authenticates first; otherwise the
  verdict is marked settled, its outcome unknown, it is not retryable, it carries no wait, it is told without
  any resend or key advice, and it keeps an authorization code while any 401 is unrenewed. Without such an
  answer the failure is left as it is.
\<close>

theorem settleWrite_unauthorized:
  assumes "answers_ok w" and "settleWrite requests t knownRefusal w = (v, w')"
  shows "(if \<exists>r \<in> set requests. unauthorized_write w r then
      (v = t \<and> w' = w \<and> knownRefusal \<and> declared_refusal w requests t) \<or>
      (isSettledWrite w' v \<and> settled_unknown w' v UNIV \<and>
       classifyCallError w' v fallback = classifyWithoutAdvice w' v fallback \<and>
       ((\<exists>q \<in> set requests. unauthorized_write w q \<and> \<not> pr_renewed (p_requests w q)) \<longrightarrow> settled_unknown w' v auth_codes))
    else v = t \<and> w' = w)"
proof (cases "\<exists>r \<in> set requests. unauthorized_write w r")
  case True
  then obtain r where "r \<in> set requests" "unauthorized_write w r" by blast
  from settleWrite_cases [OF assms(1) this assms(2)] True settled_no_advice show ?thesis by simp blast
qed (use assms(2) settleWrite_none in simp)

text \<open>A store with one typed failure and one write in its ledger that was answered with the given status.\<close>

definition demo_failure :: call_error where
  "demo_failure = \<lparr>ce_code = C_rate_limited, ce_message = lit ''Slow down.'', ce_retryable = True, ce_retryAfterMs = Some 1000,
     ce_validation = None, ce_details = None, ce_current = None, ce_unknown = False, ce_cause = Undefined_Value\<rparr>"

definition demo_answered :: "int \<Rightarrow> provider_world" where
  "demo_answered status =
     empty_world\<lparr>w_objects := [0 \<mapsto> Call_Error demo_failure], w_next := 1,
       p_requests := (p_requests empty_world)(0 := (p_requests empty_world 0)\<lparr>pr_dispatched := True, pr_status := Some status,
          pr_provider := lit ''Vendor'', pr_method := Some (lit ''POST''), pr_classification := Some Write\<rparr>),
       p_calls := (p_calls empty_world)(0 := (p_calls empty_world 0)\<lparr>pc_requests := [0]\<rparr>), p_next_call := 1\<rparr>"

definition demo_facts :: failure_context where
  "demo_facts = \<lparr>fc_dispatched = False, fc_status = None, fc_fallback = Write, fc_repeatable = False, fc_finalize = True,
     fc_untracked = False, fc_authBeforeExecution = False, fc_request = None\<rparr>"

lemma demo_answers_ok: "answers_ok (demo_answered s)"
  by (simp add: answers_ok_def demo_answered_def empty_world_def)

lemma demo_unauthorized: "unauthorized_write (demo_answered 401) 0"
  by (simp add: unauthorized_write_def demo_answered_def empty_world_def)

lemma demo_nested: "nested_requests (demo_answered s) 0 = []"
  by (subst nested_requests.simps) (simp add: demo_answered_def empty_world_def)

theorem settleWrite_unauthorized_witness:
  "\<exists>v w'. settleWrite [0] Undefined_Value False (demo_answered 401) = (v, w') \<and> settled_unknown w' v auth_codes"
proof -
  obtain v w' where s: "settleWrite [0] Undefined_Value False (demo_answered 401) = (v, w')" by force
  have "\<not> pr_renewed (p_requests (demo_answered 401) 0)" by (simp add: demo_answered_def empty_world_def)
  with settleWrite_unauthorized [OF demo_answers_ok s] demo_unauthorized s show ?thesis by auto
qed

text \<open>
  C7. A write is reported as failed only on evidence (INV-9): when \<^verbatim>\<open>providerCallFailure\<close>
  decides about a dispatched write whose failure carried no verdict yet, and
  \<^verbatim>\<open>classifyWriteOutcome\<close> reads the verdict as a failure, then nothing of the call left
  Connecta, or the only request that did was answered with a refusing status (a 4xx other than 408, and a 401
  only under the vendor's declaration). An error code is never that evidence.
\<close>

theorem failed_write_needs_evidence:
  assumes "answers_ok w" and "\<not> isKnownProviderFailure w t"
    and "providerCallFailure ctx vendor t facts w = (v, w')"
    and "classifyWriteOutcome False True False
      (Some (classifyWithoutAdvice w' v fallback, isKnownProviderFailure w' v)) = W_Failed"
  shows "unapplied_evidence w ctx facts"
proof (rule ccontr)
  assume no: "\<not> unapplied_evidence w ctx facts"
  have known: "isKnownProviderFailure w' v" and told: "\<not> final_unknown w' v"
    using assms(4) final_unknown_details [of w' v fallback]
    by (auto simp: classifyWriteOutcome_def split: if_splits)
  have not_same: "\<not> (v = t \<and> w' = w)" using assms(2) known by blast
  obtain d w1 where d: "writeFailure ctx vendor t facts (cx_served ctx) (providerRequests w ctx) w = (d, w1)" by force
  have verdict: "final_unknown w1 d \<or> (d = t \<and> w1 = w)" using writeFailure_verdict [OF d] no by (simp add: verdict_of_def)
  have settled: "\<exists>rs. settleWrite rs d (isKnownProviderFailure w1 d) w1 = (v, w') \<or> (v = d \<and> w' = w1)"
    using assms(3) not_same d unfolding providerCallFailure_def Let_def
    by (auto split: if_splits prod.splits)
  then obtain rs where rs: "settleWrite rs d (isKnownProviderFailure w1 d) w1 = (v, w') \<or> (v = d \<and> w' = w1)" by blast
  have "v \<noteq> d \<or> w' \<noteq> w1" using verdict not_same told by blast
  with rs have s: "settleWrite rs d (isKnownProviderFailure w1 d) w1 = (v, w')" by blast
  show False
  proof (cases "\<exists>r \<in> set rs. unauthorized_write w1 r")
    case True
    then obtain r where r: "r \<in> set rs" "unauthorized_write w1 r" by blast
    have "answers_ok w1" using verdict answers_ok_writeFailure [OF assms(1) d] by blast
    from settleWrite_cases [OF this r s] \<open>v \<noteq> d \<or> w' \<noteq> w1\<close> told show False
      by (auto simp: settled_unknown_def final_unknown_def)
  next
    case False
    with s settleWrite_none \<open>v \<noteq> d \<or> w' \<noteq> w1\<close> show False by auto
  qed
qed

theorem failed_write_needs_evidence_witness:
  "unapplied_evidence (demo_answered 200) (demo_ctx\<lparr>cx_ledger := None\<rparr>) demo_facts"
proof -
  let ?w = "demo_answered 200" and ?ctx = "demo_ctx\<lparr>cx_ledger := None\<rparr>"
  let ?k = "knownProviderFailure (Obj 0) None ?w"
  have "providerCallFailure ?ctx (lit ''Vendor'') (Obj 0) demo_facts ?w = (Obj 0, ?k)"
    by (simp add: providerCallFailure_def demo_ctx_def demo_facts_def providerRequests_def writeFailure_def transport_failure_def
        inLogicalCall_def call_error_of_def object_of_def demo_answered_def demo_failure_def Let_def)
  moreover have "\<not> isKnownProviderFailure ?w (Obj 0)"
    by (simp add: isKnownProviderFailure_def marked_in_def demo_answered_def empty_world_def)
  moreover have "classifyWriteOutcome False True False
      (Some (classifyWithoutAdvice ?k (Obj 0) C_connector_call_failed, isKnownProviderFailure ?k (Obj 0))) = W_Failed"
    by (simp add: classifyWriteOutcome_def isKnownProviderFailure_def marked_in_def knownProviderFailure_def
        classifyWithoutAdvice_def object_of_def demo_answered_def demo_failure_def)
  ultimately show ?thesis using failed_write_needs_evidence [OF demo_answers_ok] by blast
qed



text \<open>
  C9. When a result stands although a request was answered 401 (INV-9, Q8). \<^verbatim>\<open>providerCallResult\<close>
  decides only at the outermost boundary of a direct write: the call is a write, no invocation opened a logical
  call over it (the invocation settles that one itself), no boundary encloses it, and it is either an api() call
  with its ledger or a transport outside any ledger with its one request. There the result is replaced by a
  settled verdict of unknown outcome that is not retryable exactly when some request sent under the boundary, at
  any depth, was answered 401 and is neither a positively classified read nor declared to authenticate before it
  acts. In every other case the result stands and nothing changes.
\<close>

theorem result_not_papered_over:
  assumes "answers_ok w" and "providerCallResult ctx fallback request w = (v, w')"
  shows "if \<exists>rs r. result_boundary w ctx fallback request rs \<and> r \<in> set (rs @ nestedProviderRequests w ctx) \<and>
        unauthorized_write w r \<and> \<not> read_request_of (p_requests w r) \<and> \<not> pr_authBeforeExecution (p_requests w r)
    then \<exists>u. v = Some u \<and> settled_unknown w' u UNIV \<and> isSettledWrite w' u
    else v = None \<and> w' = w"
proof (cases "\<exists>rs. result_boundary w ctx fallback request rs")
  case True
  then obtain rs where rs: "result_boundary w ctx fallback request rs" by blast
  have only: "rs' = rs" if "result_boundary w ctx fallback request rs'" for rs'
    using that rs by (auto simp: result_boundary_def)
  obtain u w1 where u: "settleWriteResult (rs @ nestedProviderRequests w ctx) w = (u, w1)" by force
  have "v = (if u = Undefined_Value then None else Some u) \<and> w' = w1"
    using assms(2) rs u by (auto simp: providerCallResult_def result_boundary_def or_else_def split: if_splits)
  moreover have "(\<exists>rs r. result_boundary w ctx fallback request rs \<and> r \<in> set (rs @ nestedProviderRequests w ctx) \<and>
        unauthorized_write w r \<and> \<not> read_request_of (p_requests w r) \<and> \<not> pr_authBeforeExecution (p_requests w r)) \<longleftrightarrow>
      (\<exists>r \<in> set (rs @ nestedProviderRequests w ctx).
        unauthorized_write w r \<and> \<not> read_request_of (p_requests w r) \<and> \<not> pr_authBeforeExecution (p_requests w r))"
    using rs only by blast
  ultimately show ?thesis using settleWriteResult_cases [OF assms(1) u] by (simp split: if_splits)
next
  case False
  with assms(2) have "v = None \<and> w' = w"
    by (auto simp: providerCallResult_def result_boundary_def or_else_def split: if_splits option.splits)
  with False show ?thesis by auto
qed

theorem result_not_papered_over_witness:
  "\<exists>u w'. providerCallResult (demo_ctx\<lparr>cx_logical := None\<rparr>) Write None (demo_answered 401) = (Some u, w') \<and>
     settled_unknown w' u UNIV"
proof -
  let ?ctx = "demo_ctx\<lparr>cx_logical := None\<rparr>"
  obtain v w' where s: "providerCallResult ?ctx Write None (demo_answered 401) = (v, w')" by force
  have "result_boundary (demo_answered 401) ?ctx Write None [0]" "\<not> read_request_of (p_requests (demo_answered 401) 0)"
    "\<not> pr_authBeforeExecution (p_requests (demo_answered 401) 0)"
    by (simp_all add: result_boundary_def demo_ctx_def providerRequests_def inLogicalCall_def nestedProviderCall_def
        read_request_of_def readRequest_def demo_answered_def empty_world_def)
  moreover have "0 \<in> set ([0] @ nestedProviderRequests (demo_answered 401) ?ctx)" by simp
  ultimately show ?thesis using result_not_papered_over [OF demo_answers_ok s] demo_unauthorized s
    by (smt (verit) fst_conv)
qed

end
