(* ===== verification/Call_Admission.thy ===== *)
theory Call_Admission
  imports Call_Errors
begin

text \<open>
  Admission of calls to one downstream connector: the policy of \<^verbatim>\<open>src/provider.ts\<close>
  (\<^verbatim>\<open>CALL_ADMISSION\<close>) and \<^verbatim>\<open>ConnectorCallAdmissionController\<close> of
  \<^verbatim>\<open>src/call-admission.ts\<close>, with its budget charge
  (\<^verbatim>\<open>src/runtime/call-admission.ts\<close>). Permits and waiting fibers close over a partition's
  state object, not over its key, so the state objects live in a store of their own and the controller's map
  holds references to them. One synchronous turn is one operation; it reads one time \<open>now\<close>, and
  times never run backwards from turn to turn. The operator's \<^verbatim>\<open>partitionKey\<close> callback is a
  parameter; it may abort the caller's signal, and it does not call back into the controller.
\<close>

section \<open>Policy\<close>

record call_input =
  ci_toolName :: jstr
  ci_args :: json

text \<open>What the callback does: throw a value, return something that is not a string, or return a key.\<close>

datatype key_outcome = Key_Threw thrown | Key_Not_String | Key jstr

record budget_input =
  bi_kind :: js_item
  bi_maxCalls :: "js_number option"
  bi_windowMs :: "js_number option"

record rule_input =
  ri_maxConcurrency :: "js_number option"
  ri_maxQueueSize :: "js_number option"
  ri_queueTimeoutMs :: "js_number option"
  ri_retryAfterMs :: "js_number option"
  ri_partitionKey :: "(call_input \<Rightarrow> key_outcome) option"
  ri_budget :: "budget_input option"

record policy_input =
  pi_maxPartitions :: "js_number option"
  pi_rules :: "rule_input list option"

record rolling_budget =
  maxCalls :: nat
  windowMs :: nat

record admission_rule =
  rule_maxConcurrency :: "nat option"
  rule_maxQueueSize :: "nat option"
  rule_queueTimeoutMs :: "nat option"
  rule_retryAfterMs :: "nat option"
  rule_partitionKey :: "(call_input \<Rightarrow> key_outcome) option"
  rule_budget :: "rolling_budget option"

record admission_policy =
  policy_maxPartitions :: "nat option"
  policy_rules :: "admission_rule list"

datatype config_error = Config_Error

text \<open>\<^verbatim>\<open>whole({ min })\<close>: a safe integer of at least the minimum.\<close>

definition whole_field :: "nat \<Rightarrow> js_number \<Rightarrow> config_error + nat" where
  "whole_field m v =
     (case v of Non_Finite \<Rightarrow> Inl Config_Error
      | Finite q \<Rightarrow> if \<not> is_whole v \<or> q < - 9007199254740991 \<or> 9007199254740991 < q \<or> q < of_nat m
                     then Inl Config_Error else Inr (nat \<lfloor>q\<rfloor>))"

text \<open>An absent optional field stays absent; an absent required one is an error.\<close>

definition optional_field :: "('a \<Rightarrow> config_error + 'b) \<Rightarrow> 'a option \<Rightarrow> config_error + 'b option" where
  "optional_field parse v = (case v of None \<Rightarrow> Inr None | Some x \<Rightarrow> bind_sum (parse x) (\<lambda>y. Inr (Some y)))"

definition required_field :: "('a \<Rightarrow> config_error + 'b) \<Rightarrow> 'a option \<Rightarrow> config_error + 'b" where
  "required_field parse v = (case v of None \<Rightarrow> Inl Config_Error | Some x \<Rightarrow> parse x)"

definition parse_budget :: "budget_input \<Rightarrow> config_error + rolling_budget" where
  "parse_budget b =
     (if bi_kind b \<noteq> Str (lit ''rolling-window'') then Inl Config_Error
      else bind_sum (required_field (whole_field 1) (bi_maxCalls b)) (\<lambda>calls.
           bind_sum (required_field (whole_field 1) (bi_windowMs b)) (\<lambda>window.
           Inr \<lparr>maxCalls = calls, windowMs = window\<rparr>)))"

definition parse_rule :: "rule_input \<Rightarrow> config_error + admission_rule" where
  "parse_rule r =
     bind_sum (optional_field (whole_field 1) (ri_maxConcurrency r)) (\<lambda>concurrency.
     bind_sum (optional_field (whole_field 0) (ri_maxQueueSize r)) (\<lambda>queue.
     bind_sum (optional_field (whole_field 1) (ri_queueTimeoutMs r)) (\<lambda>wait.
     bind_sum (optional_field (whole_field 0) (ri_retryAfterMs r)) (\<lambda>retry.
     bind_sum (optional_field parse_budget (ri_budget r)) (\<lambda>budget.
     Inr \<lparr>rule_maxConcurrency = concurrency, rule_maxQueueSize = queue, rule_queueTimeoutMs = wait,
          rule_retryAfterMs = retry, rule_partitionKey = ri_partitionKey r, rule_budget = budget\<rparr>)))))"

fun parse_rules :: "rule_input list \<Rightarrow> config_error + admission_rule list" where
  "parse_rules [] = Inr []"
| "parse_rules (r # rs) = bind_sum (parse_rule r) (\<lambda>x. bind_sum (parse_rules rs) (\<lambda>xs. Inr (x # xs)))"

text \<open>\<^verbatim>\<open>CALL_ADMISSION.parse\<close>: exactly one rule, with a bound, and queue settings only beside a concurrency.\<close>

fun single_rule :: "admission_rule list \<Rightarrow> config_error + admission_rule" where
  "single_rule [rule] =
     (if rule_maxConcurrency rule = None \<and> rule_budget rule = None then Inl Config_Error
      else if rule_maxConcurrency rule = None \<and>
              (rule_maxQueueSize rule \<noteq> None \<or> rule_queueTimeoutMs rule \<noteq> None \<or> rule_retryAfterMs rule \<noteq> None)
        then Inl Config_Error
      else Inr rule)"
| "single_rule _ = Inl Config_Error"

definition parse_policy :: "policy_input \<Rightarrow> config_error + admission_policy" where
  "parse_policy p =
     bind_sum (optional_field (whole_field 1) (pi_maxPartitions p)) (\<lambda>parts.
     bind_sum (required_field parse_rules (pi_rules p)) (\<lambda>rules.
     bind_sum (single_rule rules) (\<lambda>_. Inr \<lparr>policy_maxPartitions = parts, policy_rules = rules\<rparr>)))"

section \<open>The controller's state\<close>

datatype admission_kind = Concurrency_Kind | Budget_Kind | Cancelled_Kind | Closed_Kind | Partition_Kind

record call_admission_error = call_error +
  cae_admissionKind :: admission_kind

record call_permit =
  permit_id :: nat
  permit_waitMs :: int

record call_waiter =
  cw_id :: nat
  cw_queuedAt :: int

text \<open>A partition's state object. \<open>ps_key\<close> names the key it was made for; no operation reads it.\<close>

record partition_state =
  ps_active :: nat
  ps_waiters :: "call_waiter list"
  ps_admittedAt :: "int list"
  ps_key :: jstr

text \<open>
  The controller. \<open>cc_partitions\<close> is the map of keys to state objects and \<open>cc_states\<close> the
  objects; \<open>cc_permits\<close> lists the permits not yet released with the object each one closes over;
  \<open>cc_fibers\<close> holds what each queued wait closes over, and \<open>cc_outcomes\<close> what its settlement
  recorded. \<open>cc_log\<close> is the history of admitted call starts by partition key, which no operation
  reads.
\<close>

record call_controller =
  cc_connectorId :: jstr
  cc_maxConcurrency :: "nat option"
  cc_maxQueueSize :: nat
  cc_queueTimeoutMs :: nat
  cc_retryAfterMs :: nat
  cc_maxPartitions :: nat
  cc_budget :: "rolling_budget option"
  cc_partitionKey :: "(call_input \<Rightarrow> key_outcome) option"
  cc_partitions :: "(jstr \<times> nat) list"
  cc_closed :: bool
  cc_admittedTotal :: nat
  cc_queuedTotal :: nat
  cc_rejectedTotal :: nat
  cc_rateLimitedTotal :: nat
  cc_cancelledTotal :: nat
  cc_queueWaitCount :: nat
  cc_queueWaitTotalMs :: int
  cc_queueWaitMaxMs :: int
  cc_states :: "nat \<Rightarrow> partition_state"
  cc_permits :: "(nat \<times> nat) list"
  cc_fibers :: "nat \<rightharpoonup> jstr \<times> nat"
  cc_outcomes :: "nat \<rightharpoonup> call_admission_error + call_permit"
  cc_log :: "(jstr \<times> int) list"
  cc_next :: nat

definition fresh_state :: "jstr \<Rightarrow> partition_state" where
  "fresh_state key = \<lparr>ps_active = 0, ps_waiters = [], ps_admittedAt = [], ps_key = key\<rparr>"

text \<open>\<^verbatim>\<open>new ConnectorCallAdmissionController(connectorId, policy)\<close>\<close>

definition new_call_controller :: "jstr \<Rightarrow> policy_input \<Rightarrow> config_error + call_controller" where
  "new_call_controller cid p =
     bind_sum (parse_policy p) (\<lambda>policy.
       let rule = hd (policy_rules policy)
       in Inr \<lparr>cc_connectorId = cid, cc_maxConcurrency = rule_maxConcurrency rule,
            cc_maxQueueSize = (case rule_maxQueueSize rule of Some n \<Rightarrow> n | None \<Rightarrow> 32),
            cc_queueTimeoutMs = (case rule_queueTimeoutMs rule of Some n \<Rightarrow> n | None \<Rightarrow> 5000),
            cc_retryAfterMs = (case rule_retryAfterMs rule of Some n \<Rightarrow> n | None \<Rightarrow> 1000),
            cc_maxPartitions = (case policy_maxPartitions policy of Some n \<Rightarrow> n | None \<Rightarrow> 1024),
            cc_budget = rule_budget rule, cc_partitionKey = rule_partitionKey rule, cc_partitions = [],
            cc_closed = False, cc_admittedTotal = 0, cc_queuedTotal = 0, cc_rejectedTotal = 0,
            cc_rateLimitedTotal = 0, cc_cancelledTotal = 0, cc_queueWaitCount = 0, cc_queueWaitTotalMs = 0,
            cc_queueWaitMaxMs = 0, cc_states = (\<lambda>_. fresh_state []), cc_permits = [], cc_fibers = Map.empty,
            cc_outcomes = Map.empty, cc_log = [], cc_next = 0\<rparr>)"

section \<open>Refusals\<close>

text \<open>
  \<^verbatim>\<open>new CallAdmissionError(kind, code, message, opts)\<close>. The world a
  \<^verbatim>\<open>ConnectorCallError\<close> is built in matters only for transport details, which these errors never carry.
\<close>

definition blank_failures :: failure_world where
  "blank_failures = \<lparr>w_http_origin = (\<lambda>_. None), w_objects = Map.empty, w_next = 0, w_resendAdvices = Map.empty,
     w_keyAdvices = Map.empty\<rparr>"

definition callAdmissionError ::
    "admission_kind \<Rightarrow> classification_code \<Rightarrow> jstr \<Rightarrow> call_error_options \<Rightarrow> call_admission_error" where
  "callAdmissionError kind code message opts =
     call_error.extend (make_call_error blank_failures code message opts) (call_admission_error.fields kind)"

definition retry_in :: "int \<Rightarrow> call_error_options" where
  "retry_in ms = no_options\<lparr>eo_retryAfterMs := Some (Finite (of_int ms))\<rparr>"

definition connector_says :: "call_controller \<Rightarrow> jstr \<Rightarrow> jstr" where
  "connector_says c tail = lit (''Connector '' @ [CHR 0x22]) @ cc_connectorId c @ lit ([CHR 0x22] @ '' '') @ tail"

definition closed_refusal :: "call_controller \<Rightarrow> call_admission_error" where
  "closed_refusal c =
     callAdmissionError Closed_Kind C_unavailable (connector_says c (lit ''call admission is closed.'')) no_options"

definition released_refusal :: "call_controller \<Rightarrow> call_admission_error" where
  "released_refusal c =
     callAdmissionError Closed_Kind C_unavailable (connector_says c (lit ''call admission permit is released.'')) no_options"

definition concurrencyLimited :: "call_controller \<Rightarrow> jstr \<Rightarrow> call_admission_error" where
  "concurrencyLimited c reason =
     callAdmissionError Concurrency_Kind C_rate_limited
       (connector_says c (lit ''call concurrency '' @ reason @ lit ''.'')) (retry_in (int (cc_retryAfterMs c)))"

definition wait_exceeded :: "call_controller \<Rightarrow> jstr" where
  "wait_exceeded c = lit ''queue wait exceeded '' @ decimal (cc_queueTimeoutMs c) @ lit ''ms''"

definition budgetLimited :: "call_controller \<Rightarrow> int \<Rightarrow> call_admission_error" where
  "budgetLimited c ms =
     callAdmissionError Budget_Kind C_rate_limited
       (connector_says c (lit ''rolling call budget is exhausted.'')) (retry_in ms)"

definition cancelled_refusal :: "call_controller \<Rightarrow> thrown \<Rightarrow> call_admission_error" where
  "cancelled_refusal c reason =
     callAdmissionError Cancelled_Kind C_timeout (connector_says c (lit ''call was cancelled before admission.''))
       (no_options\<lparr>eo_cause := reason\<rparr>)"

definition key_threw :: "call_controller \<Rightarrow> thrown \<Rightarrow> call_admission_error" where
  "key_threw c cause =
     callAdmissionError Partition_Kind C_connector_call_failed
       (connector_says c (lit ''call-admission partitionKey threw.'')) (no_options\<lparr>eo_cause := cause\<rparr>)"

definition key_unusable :: "call_controller \<Rightarrow> call_admission_error" where
  "key_unusable c =
     callAdmissionError Partition_Kind C_connector_call_failed
       (connector_says c (lit ''call-admission partitionKey must return a string of at most 128 UTF-8 bytes.''))
       no_options"

definition partitions_exhausted :: "call_controller \<Rightarrow> call_admission_error" where
  "partitions_exhausted c =
     callAdmissionError Partition_Kind C_rate_limited
       (connector_says c (lit ''call-admission partition capacity is exhausted.''))
       (retry_in (int (cc_retryAfterMs c)))"

section \<open>Operations\<close>

definition set_state :: "nat \<Rightarrow> (partition_state \<Rightarrow> partition_state) \<Rightarrow> call_controller \<Rightarrow> call_controller" where
  "set_state s f c = c\<lparr>cc_states := (cc_states c)(s := f (cc_states c s))\<rparr>"

text \<open>\<^verbatim>\<open>Settlement.settle\<close>: only the first outcome is recorded.\<close>

definition settle_call :: "nat \<Rightarrow> call_admission_error + call_permit \<Rightarrow> call_controller \<Rightarrow> call_controller" where
  "settle_call w exit c =
     (if cc_outcomes c w \<noteq> None then c else c\<lparr>cc_outcomes := (cc_outcomes c)(w \<mapsto> exit)\<rparr>)"

definition pruneBudget :: "nat \<Rightarrow> int \<Rightarrow> call_controller \<Rightarrow> call_controller" where
  "pruneBudget s now c =
     (case cc_budget c of None \<Rightarrow> c
      | Some b \<Rightarrow> set_state s (\<lambda>p. p\<lparr>ps_admittedAt :=
                    dropWhile (\<lambda>a. a + int (windowMs b) \<le> now) (ps_admittedAt p)\<rparr>) c)"

definition budgetRetryAfterMs :: "nat \<Rightarrow> int \<Rightarrow> call_controller \<Rightarrow> int option" where
  "budgetRetryAfterMs s now c =
     (case cc_budget c of None \<Rightarrow> None
      | Some b \<Rightarrow>
          if length (ps_admittedAt (cc_states c s)) < maxCalls b then None
          else case ps_admittedAt (cc_states c s) of [] \<Rightarrow> None
               | oldest # _ \<Rightarrow> Some (max 0 (oldest + int (windowMs b) - now)))"

definition maybeDeletePartition :: "jstr \<Rightarrow> nat \<Rightarrow> int \<Rightarrow> call_controller \<Rightarrow> call_controller" where
  "maybeDeletePartition key s now c =
     (let c' = pruneBudget s now c; p = cc_states c' s
      in if ps_active p = 0 \<and> ps_waiters p = [] \<and> ps_admittedAt p = []
         then c'\<lparr>cc_partitions := map_delete key (cc_partitions c')\<rparr> else c')"

definition evictIdlePartitions :: "int \<Rightarrow> call_controller \<Rightarrow> call_controller" where
  "evictIdlePartitions now c = fold (\<lambda>(key, s). maybeDeletePartition key s now) (cc_partitions c) c"

text \<open>One admitted call start: the timestamp is kept when the rule has a budget.\<close>

definition push_admission :: "nat \<Rightarrow> int \<Rightarrow> call_controller \<Rightarrow> call_controller" where
  "push_admission s now c =
     (let c1 = (if cc_budget c = None then c
                else set_state s (\<lambda>p. p\<lparr>ps_admittedAt := ps_admittedAt p @ [now]\<rparr>) c)
      in c1\<lparr>cc_admittedTotal := Suc (cc_admittedTotal c1),
            cc_log := cc_log c1 @ [(ps_key (cc_states c1 s), now)]\<rparr>)"

definition cc_admit :: "nat \<Rightarrow> int \<Rightarrow> int \<Rightarrow> call_controller \<Rightarrow> call_permit \<times> call_controller" where
  "cc_admit s now waitMs c0 =
     (let c1 = push_admission s now (set_state s (\<lambda>p. p\<lparr>ps_active := Suc (ps_active p)\<rparr>) c0);
          c2 = (if 0 < waitMs
                then c1\<lparr>cc_queueWaitCount := Suc (cc_queueWaitCount c1),
                        cc_queueWaitTotalMs := cc_queueWaitTotalMs c1 + waitMs,
                        cc_queueWaitMaxMs := max (cc_queueWaitMaxMs c1) waitMs\<rparr>
                else c1)
      in (\<lparr>permit_id = cc_next c2, permit_waitMs = waitMs\<rparr>,
          c2\<lparr>cc_permits := cc_permits c2 @ [(cc_next c2, s)], cc_next := Suc (cc_next c2)\<rparr>))"

text \<open>
  The pump. \<open>pump_turn\<close> is the body of its loop for the waiter already taken off the queue.
\<close>

definition pump_turn :: "int \<Rightarrow> nat \<Rightarrow> call_waiter \<Rightarrow> call_controller \<Rightarrow> call_controller" where
  "pump_turn now s w c =
     (if int (cc_queueTimeoutMs c) \<le> now - cw_queuedAt w then
        settle_call (cw_id w) (Inl (concurrencyLimited c (wait_exceeded c)))
          (c\<lparr>cc_rejectedTotal := Suc (cc_rejectedTotal c)\<rparr>)
      else let c1 = pruneBudget s now c in
        case budgetRetryAfterMs s now c1 of
          Some ms \<Rightarrow> settle_call (cw_id w) (Inl (budgetLimited c1 ms))
                       (c1\<lparr>cc_rateLimitedTotal := Suc (cc_rateLimitedTotal c1)\<rparr>)
        | None \<Rightarrow>
            let (permit, c2) = cc_admit s now (max 0 (now - cw_queuedAt w)) c1
            in settle_call (cw_id w) (Inr permit) c2)"

definition shift_waiter :: "nat \<Rightarrow> call_controller \<Rightarrow> call_controller" where
  "shift_waiter s c = set_state s (\<lambda>p. p\<lparr>ps_waiters := tl (ps_waiters p)\<rparr>) c"

lemma pump_turn_waiters [simp]:
  "ps_waiters (cc_states (pump_turn now s w c) t) = ps_waiters (cc_states c t)"
  by (simp add: pump_turn_def Let_def settle_call_def pruneBudget_def set_state_def cc_admit_def
      push_admission_def split: option.split)

function pump_loop :: "int \<Rightarrow> nat \<Rightarrow> nat \<Rightarrow> call_controller \<Rightarrow> call_controller" where
  "pump_loop now s n c =
     (case ps_waiters (cc_states c s) of [] \<Rightarrow> c
      | w # _ \<Rightarrow> if ps_active (cc_states c s) < n then pump_loop now s n (pump_turn now s w (shift_waiter s c)) else c)"
  by pat_completeness auto
termination
  by (relation "measure (\<lambda>(now, s, n, c). length (ps_waiters (cc_states c s)))")
     (auto simp: shift_waiter_def set_state_def)

declare pump_loop.simps [simp del]

definition cc_pump :: "int \<Rightarrow> nat \<Rightarrow> call_controller \<Rightarrow> call_controller" where
  "cc_pump now s c =
     (if cc_closed c then c
      else case cc_maxConcurrency c of None \<Rightarrow> c | Some n \<Rightarrow> pump_loop now s n c)"

text \<open>The permit's own \<^verbatim>\<open>release\<close>: a second one does nothing.\<close>

definition cc_release :: "int \<Rightarrow> nat \<Rightarrow> call_controller \<Rightarrow> call_controller" where
  "cc_release now pid c =
     (case map_of (cc_permits c) pid of None \<Rightarrow> c
      | Some s \<Rightarrow>
          cc_pump now s (set_state s (\<lambda>p. if 0 < ps_active p then p\<lparr>ps_active := ps_active p - 1\<rparr> else p)
            (c\<lparr>cc_permits := map_delete pid (cc_permits c)\<rparr>)))"

text \<open>\<^verbatim>\<open>chargeCallBudget\<close>: one more start charged to the partition a permit already holds.\<close>

definition chargeCallBudget ::
    "int \<Rightarrow> nat \<Rightarrow> thrown option \<Rightarrow> call_controller \<Rightarrow> call_admission_error option \<times> call_controller" where
  "chargeCallBudget now pid signal c =
     (if cc_closed c then (Some (closed_refusal c), c)
      else case map_of (cc_permits c) pid of None \<Rightarrow> (Some (released_refusal c), c)
      | Some s \<Rightarrow>
        (case signal of
           Some reason \<Rightarrow> (Some (cancelled_refusal c reason), c\<lparr>cc_cancelledTotal := Suc (cc_cancelledTotal c)\<rparr>)
         | None \<Rightarrow>
           let c1 = pruneBudget s now c in
           (case budgetRetryAfterMs s now c1 of
              Some ms \<Rightarrow> (Some (budgetLimited c1 ms), c1\<lparr>cc_rateLimitedTotal := Suc (cc_rateLimitedTotal c1)\<rparr>)
            | None \<Rightarrow> (None, push_admission s now c1))))"

datatype call_decision = Granted call_permit | Denied call_admission_error | In_Queue nat

text \<open>The partition key of a call: the operator's callback, or the one connector-wide partition.\<close>

definition partition_key :: "call_controller \<Rightarrow> call_input \<Rightarrow> key_outcome" where
  "partition_key c input = (case cc_partitionKey c of Some f \<Rightarrow> f input | None \<Rightarrow> Key [])"

definition count_rejected :: "call_controller \<Rightarrow> call_controller" where
  "count_rejected c = c\<lparr>cc_rejectedTotal := Suc (cc_rejectedTotal c)\<rparr>"

definition count_cancelled :: "call_controller \<Rightarrow> call_controller" where
  "count_cancelled c = c\<lparr>cc_cancelledTotal := Suc (cc_cancelledTotal c)\<rparr>"

text \<open>A caller joins the queue of its partition.\<close>

definition enqueue_call :: "jstr \<Rightarrow> nat \<Rightarrow> int \<Rightarrow> call_controller \<Rightarrow> call_controller" where
  "enqueue_call key s queuedAt c =
     (set_state s (\<lambda>p. p\<lparr>ps_waiters := ps_waiters p @ [\<lparr>cw_id = cc_next c, cw_queuedAt = queuedAt\<rparr>]\<rparr>) c)
       \<lparr>cc_queuedTotal := Suc (cc_queuedTotal c), cc_fibers := (cc_fibers c)(cc_next c \<mapsto> (key, s)),
        cc_next := Suc (cc_next c)\<rparr>"

text \<open>The decision once a partition's state is found: over budget, a free slot, a full queue, or a wait.\<close>

definition decide_in :: "jstr \<Rightarrow> nat \<Rightarrow> int \<Rightarrow> call_controller \<Rightarrow> call_decision \<times> call_controller" where
  "decide_in key s queuedAt c0 =
     (let c = pruneBudget s queuedAt c0 in
      case budgetRetryAfterMs s queuedAt c of
        Some ms \<Rightarrow> (Denied (budgetLimited c ms), c\<lparr>cc_rateLimitedTotal := Suc (cc_rateLimitedTotal c)\<rparr>)
      | None \<Rightarrow>
        if (case cc_maxConcurrency c of None \<Rightarrow> True | Some n \<Rightarrow> ps_active (cc_states c s) < n) then
          let (permit, c') = cc_admit s queuedAt 0 c in (Granted permit, c')
        else if cc_maxQueueSize c \<le> length (ps_waiters (cc_states c s)) then
          (Denied (concurrencyLimited c (lit ''queue is full'')), count_rejected c)
        else
          (In_Queue (cc_next c), enqueue_call key s queuedAt c))"

definition new_partition :: "jstr \<Rightarrow> call_controller \<Rightarrow> call_controller" where
  "new_partition key c =
     c\<lparr>cc_states := (cc_states c)(cc_next c := fresh_state key),
       cc_partitions := map_set key (cc_next c) (cc_partitions c), cc_next := Suc (cc_next c)\<rparr>"

text \<open>
  The synchronous admission program. \<open>signal\<close> is the reason of an already aborted signal, and
  \<open>signal'\<close> the same after the callback returned.
\<close>

definition cc_acquire ::
    "int \<Rightarrow> call_input \<Rightarrow> thrown option \<Rightarrow> thrown option \<Rightarrow> call_controller \<Rightarrow> call_decision \<times> call_controller" where
  "cc_acquire now input signal signal' c =
     (if cc_closed c then (Denied (closed_refusal c), c)
      else case signal of Some reason \<Rightarrow> (Denied (cancelled_refusal c reason), count_cancelled c)
      | None \<Rightarrow>
        (case partition_key c input of
           Key_Threw cause \<Rightarrow> (Denied (key_threw c cause), count_rejected c)
         | Key_Not_String \<Rightarrow> (Denied (key_unusable c), count_rejected c)
         | Key key \<Rightarrow>
           if 128 < length (utf8 key) then (Denied (key_unusable c), count_rejected c)
           else case signal' of Some reason \<Rightarrow> (Denied (cancelled_refusal c reason), count_cancelled c)
           | None \<Rightarrow>
             (case map_of (cc_partitions c) key of
                Some s \<Rightarrow> decide_in key s now c
              | None \<Rightarrow>
                  let c1 = evictIdlePartitions now c in
                  if cc_maxPartitions c1 \<le> length (cc_partitions c1)
                  then (Denied (partitions_exhausted c1), count_rejected c1)
                  else decide_in key (cc_next c1) now (new_partition key c1))))"

section \<open>Waiting\<close>

definition queued_in :: "nat \<Rightarrow> nat \<Rightarrow> call_controller \<Rightarrow> bool" where
  "queued_in s w c = (w \<in> cw_id ` set (ps_waiters (cc_states c s)))"

text \<open>\<^verbatim>\<open>removeWaiter\<close>: whether the waiter was still queued, and the queue without it.\<close>

definition removeWaiter :: "nat \<Rightarrow> nat \<Rightarrow> call_controller \<Rightarrow> bool \<times> call_controller" where
  "removeWaiter s w c =
     (queued_in s w c,
      set_state s (\<lambda>p. p\<lparr>ps_waiters := filter (\<lambda>x. cw_id x \<noteq> w) (ps_waiters p)\<rparr>) c)"

text \<open>
  A timeout, or an abort with its reason, of the fiber waiting under \<open>key\<close> on the state \<open>s\<close>.
  \<open>None\<close>: somebody else settled the waiter first and the recorded outcome stands.
\<close>

definition giveUp ::
    "int \<Rightarrow> thrown option \<Rightarrow> jstr \<Rightarrow> nat \<Rightarrow> nat \<Rightarrow> call_controller \<Rightarrow> call_admission_error option \<times> call_controller" where
  "giveUp now abort key s w c =
     (case removeWaiter s w c of
        (False, _) \<Rightarrow> (None, c)
      | (True, c1) \<Rightarrow>
          (case abort of
             None \<Rightarrow> (Some (concurrencyLimited c1 (wait_exceeded c1)), maybeDeletePartition key s now (count_rejected c1))
           | Some reason \<Rightarrow> (Some (cancelled_refusal c1 reason), maybeDeletePartition key s now (count_cancelled c1))))"

text \<open>\<^verbatim>\<open>cleanupWaiter\<close>: the waiting fiber was interrupted.\<close>

definition cleanupWaiter :: "int \<Rightarrow> jstr \<Rightarrow> nat \<Rightarrow> nat \<Rightarrow> call_controller \<Rightarrow> call_controller" where
  "cleanupWaiter now key s w c =
     (case removeWaiter s w c of
        (True, c1) \<Rightarrow> maybeDeletePartition key s now (count_cancelled c1)
      | (False, _) \<Rightarrow> (case cc_outcomes c w of Some (Inr permit) \<Rightarrow> cc_release now (permit_id permit) c | _ \<Rightarrow> c))"

text \<open>A grant is heard a turn after it was recorded; a shutdown in that gap wins.\<close>

definition cc_received :: "int \<Rightarrow> call_permit \<Rightarrow> call_controller \<Rightarrow> (call_admission_error + call_permit) \<times> call_controller" where
  "cc_received now permit c =
     (if \<not> cc_closed c then (Inr permit, c)
      else (Inl (closed_refusal c), cc_release now (permit_id permit) c))"

text \<open>One partition's queue is emptied and every waiter in it told that the controller is closed.\<close>

definition close_partition :: "nat \<Rightarrow> call_controller \<Rightarrow> call_controller" where
  "close_partition s c =
     fold (\<lambda>w. settle_call (cw_id w) (Inl (closed_refusal c))) (ps_waiters (cc_states c s))
       (set_state s (\<lambda>p. p\<lparr>ps_waiters := []\<rparr>) c)"

definition cc_close :: "call_controller \<Rightarrow> call_controller" where
  "cc_close c =
     (if cc_closed c then c
      else fold (\<lambda>(key, s). close_partition s) (cc_partitions c) (c\<lparr>cc_closed := True\<rparr>))"

definition isIdle :: "int \<Rightarrow> call_controller \<Rightarrow> bool \<times> call_controller" where
  "isIdle now c = (let c' = evictIdlePartitions now c in (cc_partitions c' = [], c'))"

section \<open>Snapshots\<close>

record call_totals =
  tot_admitted :: nat
  tot_queued :: nat
  tot_rejected :: nat
  tot_rateLimited :: nat
  tot_cancelled :: nat

record call_snapshot =
  cs_rules :: nat
  cs_partitions :: nat
  cs_active :: nat
  cs_queued :: nat
  cs_closed :: bool
  cs_totals :: call_totals
  cs_wait_count :: nat
  cs_wait_total :: int
  cs_wait_max :: int

definition cc_snapshot :: "call_controller \<Rightarrow> call_snapshot" where
  "cc_snapshot c =
     \<lparr>cs_rules = 1, cs_partitions = length (cc_partitions c),
      cs_active = sum_list (map (\<lambda>e. ps_active (cc_states c (snd e))) (cc_partitions c)),
      cs_queued = sum_list (map (\<lambda>e. length (ps_waiters (cc_states c (snd e)))) (cc_partitions c)),
      cs_closed = cc_closed c,
      cs_totals = \<lparr>tot_admitted = cc_admittedTotal c, tot_queued = cc_queuedTotal c, tot_rejected = cc_rejectedTotal c,
                   tot_rateLimited = cc_rateLimitedTotal c, tot_cancelled = cc_cancelledTotal c\<rparr>,
      cs_wait_count = cc_queueWaitCount c, cs_wait_total = cc_queueWaitTotalMs c,
      cs_wait_max = cc_queueWaitMaxMs c\<rparr>"

definition add_snapshot :: "call_snapshot \<Rightarrow> call_snapshot \<Rightarrow> call_snapshot" where
  "add_snapshot x a =
     \<lparr>cs_rules = cs_rules a + cs_rules x, cs_partitions = cs_partitions a + cs_partitions x,
      cs_active = cs_active a + cs_active x, cs_queued = cs_queued a + cs_queued x,
      cs_closed = (cs_closed a \<and> cs_closed x),
      cs_totals = \<lparr>tot_admitted = tot_admitted (cs_totals a) + tot_admitted (cs_totals x),
                   tot_queued = tot_queued (cs_totals a) + tot_queued (cs_totals x),
                   tot_rejected = tot_rejected (cs_totals a) + tot_rejected (cs_totals x),
                   tot_rateLimited = tot_rateLimited (cs_totals a) + tot_rateLimited (cs_totals x),
                   tot_cancelled = tot_cancelled (cs_totals a) + tot_cancelled (cs_totals x)\<rparr>,
      cs_wait_count = cs_wait_count a + cs_wait_count x, cs_wait_total = cs_wait_total a + cs_wait_total x,
      cs_wait_max = max (cs_wait_max a) (cs_wait_max x)\<rparr>"

definition aggregateCallAdmissionSnapshots :: "call_snapshot list \<Rightarrow> call_snapshot" where
  "aggregateCallAdmissionSnapshots xs =
     fold add_snapshot xs
       \<lparr>cs_rules = 0, cs_partitions = 0, cs_active = 0, cs_queued = 0, cs_closed = (0 < length xs),
        cs_totals = \<lparr>tot_admitted = 0, tot_queued = 0, tot_rejected = 0, tot_rateLimited = 0, tot_cancelled = 0\<rparr>,
        cs_wait_count = 0, cs_wait_total = 0, cs_wait_max = 0\<rparr>"

section \<open>Transitions\<close>

text \<open>
  Every turn the controller can take, in any order: the clock only advances, a fiber's contenders run with
  what that fiber closes over, and a permit or a recorded grant may be used at any time, more than once.
\<close>

inductive cc_step :: "int \<times> call_controller \<Rightarrow> int \<times> call_controller \<Rightarrow> bool" where
  acquire: "T \<le> now \<Longrightarrow> cc_step (T, c) (now, snd (cc_acquire now input signal signal' c))"
| release: "T \<le> now \<Longrightarrow> cc_step (T, c) (now, cc_release now pid c)"
| charge: "T \<le> now \<Longrightarrow> cc_step (T, c) (now, snd (chargeCallBudget now pid signal c))"
| give_up: "T \<le> now \<Longrightarrow> cc_fibers c w = Some (key, s) \<Longrightarrow> cc_step (T, c) (now, snd (giveUp now abort key s w c))"
| interrupted: "T \<le> now \<Longrightarrow> cc_fibers c w = Some (key, s) \<Longrightarrow> cc_step (T, c) (now, cleanupWaiter now key s w c)"
| received: "T \<le> now \<Longrightarrow> cc_step (T, c) (now, snd (cc_received now permit c))"
| closing: "T \<le> now \<Longrightarrow> cc_step (T, c) (now, cc_close c)"
| idle_check: "T \<le> now \<Longrightarrow> cc_step (T, c) (now, snd (isIdle now c))"

definition cc_init :: "int \<times> call_controller \<Rightarrow> bool" where
  "cc_init tc \<longleftrightarrow> (\<exists>cid p. new_call_controller cid p = Inr (snd tc))"

section \<open>Lemmas\<close>

text \<open>
  The bookkeeping invariant, in two parts. \<open>dir_ok\<close>: the map of partitions refers to allocated
  state objects of its own keys, within its bound, and permits, waiters and outcomes have been handed out.
  \<open>state_ok\<close>, for every state object, also one no longer in the map: it counts the unreleased permits
  that close over it, within the concurrency; its queue is bounded and holds distinct, unanswered waiters of
  this object; and an object with a call in flight or waiting is the one its key maps to.
\<close>

definition dir_ok :: "call_controller \<Rightarrow> bool" where
  "dir_ok c \<longleftrightarrow>
     distinct (map fst (cc_partitions c)) \<and> length (cc_partitions c) \<le> cc_maxPartitions c \<and>
     (\<forall>k s. (k, s) \<in> set (cc_partitions c) \<longrightarrow> s < cc_next c \<and> ps_key (cc_states c s) = k) \<and>
     distinct (map fst (cc_permits c)) \<and> (\<forall>e \<in> set (cc_permits c). fst e < cc_next c) \<and>
     (\<forall>w k s. cc_fibers c w = Some (k, s) \<longrightarrow> w < cc_next c \<and> s < cc_next c \<and> ps_key (cc_states c s) = k) \<and>
     (\<forall>w. cc_next c \<le> w \<longrightarrow> cc_outcomes c w = None) \<and> cc_maxConcurrency c \<noteq> Some 0"

definition in_flight :: "call_controller \<Rightarrow> nat \<Rightarrow> nat" where
  "in_flight c s = length (filter (\<lambda>e. snd e = s) (cc_permits c))"

definition waiter_ok :: "call_controller \<Rightarrow> nat \<Rightarrow> nat \<Rightarrow> bool" where
  "waiter_ok c s w \<longleftrightarrow>
     cc_fibers c w = Some (ps_key (cc_states c s), s) \<and> w < cc_next c \<and> cc_outcomes c w = None"

definition state_ok :: "call_controller \<Rightarrow> nat \<Rightarrow> bool" where
  "state_ok c s \<longleftrightarrow>
     (let p = cc_states c s in
      ps_active p = in_flight c s \<and> (\<forall>n. cc_maxConcurrency c = Some n \<longrightarrow> ps_active p \<le> n) \<and>
      length (ps_waiters p) \<le> cc_maxQueueSize c \<and> (cc_maxConcurrency c = None \<or> cc_closed c \<longrightarrow> ps_waiters p = []) \<and>
      (ps_waiters p \<noteq> [] \<or> ps_active p \<noteq> 0 \<longrightarrow> (ps_key p, s) \<in> set (cc_partitions c)) \<and>
      distinct (map cw_id (ps_waiters p)) \<and> (\<forall>w \<in> set (ps_waiters p). waiter_ok c s (cw_id w)))"

definition cc_base :: "call_controller \<Rightarrow> bool" where
  "cc_base c \<longleftrightarrow> dir_ok c \<and> (\<forall>s. state_ok c s)"

text \<open>Nobody waits beside a free slot.\<close>

definition wake_ok :: "call_controller \<Rightarrow> nat \<Rightarrow> bool" where
  "wake_ok c s \<longleftrightarrow>
     (\<forall>n. cc_maxConcurrency c = Some n \<and> ps_waiters (cc_states c s) \<noteq> [] \<longrightarrow> n \<le> ps_active (cc_states c s))"

lemmas base_defs = cc_base_def dir_ok_def state_ok_def in_flight_def waiter_ok_def Let_def

lemma base_dir: "cc_base c \<Longrightarrow> dir_ok c" by (simp add: cc_base_def)

lemma base_state: "cc_base c \<Longrightarrow> state_ok c s" by (simp add: cc_base_def)

lemma base_counters [simp]:
  "cc_base (c\<lparr>cc_rejectedTotal := n\<rparr>) = cc_base c" "cc_base (c\<lparr>cc_rateLimitedTotal := n\<rparr>) = cc_base c"
  "cc_base (c\<lparr>cc_cancelledTotal := n\<rparr>) = cc_base c" "cc_base (c\<lparr>cc_admittedTotal := n\<rparr>) = cc_base c"
  "cc_base (c\<lparr>cc_log := l\<rparr>) = cc_base c" "cc_base (c\<lparr>cc_queuedTotal := n\<rparr>) = cc_base c"
  by (simp_all add: base_defs)

text \<open>A state that is in use is the one its key maps to.\<close>

lemma in_use:
  assumes "cc_base c" and "ps_waiters (cc_states c s) \<noteq> [] \<or> ps_active (cc_states c s) \<noteq> 0"
  shows "(ps_key (cc_states c s), s) \<in> set (cc_partitions c)"
  using base_state [OF assms(1), of s] assms(2) by (auto simp: state_ok_def Let_def)

text \<open>Changing one state object leaves the rest of the invariant to the objects that are not changed.\<close>

lemma base_set_state:
  assumes "cc_base c" and "ps_key (f (cc_states c s)) = ps_key (cc_states c s)"
    and "state_ok (set_state s f c) s"
  shows "cc_base (set_state s f c)"
proof -
  have "dir_ok (set_state s f c)"
    using base_dir [OF assms(1)] assms(2) by (auto simp: dir_ok_def set_state_def)
  moreover have "state_ok (set_state s f c) t" if "t \<noteq> s" for t
    using base_state [OF assms(1), of t] that by (auto simp: state_ok_def Let_def set_state_def in_flight_def waiter_ok_def)
  ultimately show ?thesis using assms(3) by (metis cc_base_def)
qed

lemma base_stamps [simp]:
  assumes "cc_base c"
  shows "cc_base (set_state s (\<lambda>p. p\<lparr>ps_admittedAt := f p\<rparr>) c)"
  by (rule base_set_state [OF assms])
     (use base_state [OF assms, of s] in
      \<open>auto simp: state_ok_def Let_def set_state_def in_flight_def waiter_ok_def\<close>)

lemma base_prune [simp]: "cc_base c \<Longrightarrow> cc_base (pruneBudget s now c)"
  by (simp add: pruneBudget_def split: option.split)

lemma base_waiters:
  assumes "cc_base c" and "set ws \<subseteq> set (ps_waiters (cc_states c s))" "distinct (map cw_id ws)"
    "length ws \<le> length (ps_waiters (cc_states c s))"
  shows "cc_base (set_state s (\<lambda>p. p\<lparr>ps_waiters := ws\<rparr>) c)"
  by (rule base_set_state [OF assms(1)])
     (use base_state [OF assms(1), of s] assms(2-4) in
        \<open>auto simp: state_ok_def Let_def set_state_def in_flight_def waiter_ok_def\<close>)

lemma base_delete:
  assumes "cc_base c" "(key, s) \<in> set (cc_partitions c)"
    and "ps_active (cc_states c s) = 0" "ps_waiters (cc_states c s) = []"
  shows "cc_base (c\<lparr>cc_partitions := map_delete key (cc_partitions c)\<rparr>)"
proof -
  have only: "t = s" if "(key, t) \<in> set (cc_partitions c)" for t
    using that assms(1,2) by (auto simp: cc_base_def dir_ok_def dest: eq_key_imp_eq_value)
  have "state_ok (c\<lparr>cc_partitions := map_delete key (cc_partitions c)\<rparr>) t" for t
    using base_state [OF assms(1), of t] only [of t] assms(3,4)
    by (auto simp: state_ok_def Let_def in_flight_def waiter_ok_def)
  moreover have "dir_ok (c\<lparr>cc_partitions := map_delete key (cc_partitions c)\<rparr>)"
    using base_dir [OF assms(1)] length_map_delete_le [of key "cc_partitions c"] by (auto simp: dir_ok_def)
  ultimately show ?thesis by (simp add: cc_base_def)
qed

lemma prune_same [simp]:
  "cc_partitions (pruneBudget s now c) = cc_partitions c" "cc_maxConcurrency (pruneBudget s now c) = cc_maxConcurrency c"
  "cc_permits (pruneBudget s now c) = cc_permits c" "cc_fibers (pruneBudget s now c) = cc_fibers c"
  "cc_outcomes (pruneBudget s now c) = cc_outcomes c" "cc_next (pruneBudget s now c) = cc_next c"
  "cc_closed (pruneBudget s now c) = cc_closed c" "cc_log (pruneBudget s now c) = cc_log c"
  "cc_budget (pruneBudget s now c) = cc_budget c" "cc_maxPartitions (pruneBudget s now c) = cc_maxPartitions c"
  "cc_maxQueueSize (pruneBudget s now c) = cc_maxQueueSize c"
  "ps_active (cc_states (pruneBudget s now c) t) = ps_active (cc_states c t)"
  "ps_waiters (cc_states (pruneBudget s now c) t) = ps_waiters (cc_states c t)"
  "ps_key (cc_states (pruneBudget s now c) t) = ps_key (cc_states c t)"
  by (simp_all add: pruneBudget_def set_state_def split: option.split)

lemma base_maybeDelete:
  assumes "cc_base c" "(key, s) \<in> set (cc_partitions c)"
  shows "cc_base (maybeDeletePartition key s now c)"
  using assms base_delete [OF base_prune [OF assms(1), of s now], of key s]
  by (simp add: maybeDeletePartition_def Let_def)

lemma base_admit:
  assumes "cc_base c" "(ps_key (cc_states c s), s) \<in> set (cc_partitions c)"
    and "\<And>n. cc_maxConcurrency c = Some n \<Longrightarrow> ps_active (cc_states c s) < n"
  shows "cc_base (snd (cc_admit s now waitMs c))"
proof -
  let ?d = "snd (cc_admit s now waitMs c)"
  have "dir_ok ?d"
    using base_dir [OF assms(1)]
    by (fastforce simp: dir_ok_def cc_admit_def push_admission_def set_state_def Let_def)
  moreover have "state_ok ?d t" for t
    using base_state [OF assms(1), of t] assms(2,3)
    by (fastforce simp: state_ok_def waiter_ok_def in_flight_def cc_admit_def push_admission_def set_state_def Let_def)
  ultimately show ?thesis by (simp add: cc_base_def)
qed

lemma base_settle:
  assumes "cc_base c" "w < cc_next c" "\<And>s. \<not> queued_in s w c"
  shows "cc_base (settle_call w exit c)"
proof -
  have "dir_ok (settle_call w exit c)"
    using base_dir [OF assms(1)] assms(2) by (auto simp: dir_ok_def settle_call_def)
  moreover have "state_ok (settle_call w exit c) t" for t
    using base_state [OF assms(1), of t] assms(3) [of t]
    by (auto simp: state_ok_def waiter_ok_def in_flight_def settle_call_def Let_def queued_in_def)
  ultimately show ?thesis by (simp add: cc_base_def)
qed


text \<open>What the pump finds when it takes the first waiter off a queue.\<close>

lemma shift_facts:
  assumes "cc_base c" "ps_waiters (cc_states c s) = w # ws"
  shows "cc_base (shift_waiter s c)" "\<not> queued_in t (cw_id w) (shift_waiter s c)"
    "cw_id w < cc_next c" "cc_outcomes c (cw_id w) = None"
    "(ps_key (cc_states c s), s) \<in> set (cc_partitions c)"
proof -
  have "shift_waiter s c = set_state s (\<lambda>p. p\<lparr>ps_waiters := ws\<rparr>) c"
    using assms(2) by (simp add: shift_waiter_def set_state_def)
  moreover have d: "distinct (map cw_id (w # ws))" "\<And>x. x \<in> set (w # ws) \<Longrightarrow> waiter_ok c s (cw_id x)"
    using base_state [OF assms(1), of s] assms(2) by (auto simp: state_ok_def Let_def)
  ultimately show "cc_base (shift_waiter s c)"
    using base_waiters [OF assms(1), of ws s] assms(2) by auto
  show "cw_id w < cc_next c" "cc_outcomes c (cw_id w) = None"
    using d(2) [of w] by (simp_all add: waiter_ok_def)
  show "(ps_key (cc_states c s), s) \<in> set (cc_partitions c)"
    using in_use [OF assms(1)] assms(2) by simp
  show "\<not> queued_in t (cw_id w) (shift_waiter s c)"
  proof (cases "t = s")
    case True
    then show ?thesis using d(1) assms(2) by (auto simp: queued_in_def shift_waiter_def set_state_def)
  next
    case False
    have "waiter_ok c t (cw_id x)" if "x \<in> set (ps_waiters (cc_states c t))" for x
      using base_state [OF assms(1), of t] that by (auto simp: state_ok_def Let_def)
    then have "cw_id w \<noteq> cw_id x" if "x \<in> set (ps_waiters (cc_states c t))" for x
      using d(2) [of w] that False by (auto simp: waiter_ok_def)
    then show ?thesis using False by (auto simp: queued_in_def shift_waiter_def set_state_def)
  qed
qed

lemma shift_same [simp]:
  "cc_partitions (shift_waiter s c) = cc_partitions c" "cc_maxConcurrency (shift_waiter s c) = cc_maxConcurrency c"
  "cc_permits (shift_waiter s c) = cc_permits c" "cc_fibers (shift_waiter s c) = cc_fibers c"
  "cc_outcomes (shift_waiter s c) = cc_outcomes c" "cc_next (shift_waiter s c) = cc_next c"
  "cc_closed (shift_waiter s c) = cc_closed c" "cc_log (shift_waiter s c) = cc_log c"
  "cc_budget (shift_waiter s c) = cc_budget c" "cc_maxPartitions (shift_waiter s c) = cc_maxPartitions c"
  "cc_maxQueueSize (shift_waiter s c) = cc_maxQueueSize c"
  "ps_active (cc_states (shift_waiter s c) t) = ps_active (cc_states c t)"
  "ps_key (cc_states (shift_waiter s c) t) = ps_key (cc_states c t)"
  "ps_admittedAt (cc_states (shift_waiter s c) t) = ps_admittedAt (cc_states c t)"
  "ps_waiters (cc_states (shift_waiter s c) s) = tl (ps_waiters (cc_states c s))"
  "t \<noteq> s \<Longrightarrow> cc_states (shift_waiter s c) t = cc_states c t"
  by (simp_all add: shift_waiter_def set_state_def)

lemma admit_same [simp]:
  "cc_partitions (snd (cc_admit s now x c)) = cc_partitions c"
  "cc_maxConcurrency (snd (cc_admit s now x c)) = cc_maxConcurrency c"
  "cc_fibers (snd (cc_admit s now x c)) = cc_fibers c"
  "cc_outcomes (snd (cc_admit s now x c)) = cc_outcomes c" "cc_next (snd (cc_admit s now x c)) = Suc (cc_next c)"
  "cc_closed (snd (cc_admit s now x c)) = cc_closed c"
  "cc_budget (snd (cc_admit s now x c)) = cc_budget c" "cc_maxPartitions (snd (cc_admit s now x c)) = cc_maxPartitions c"
  "cc_maxQueueSize (snd (cc_admit s now x c)) = cc_maxQueueSize c"
  "cc_permits (snd (cc_admit s now x c)) = cc_permits c @ [(cc_next c, s)]"
  "ps_waiters (cc_states (snd (cc_admit s now x c)) t) = ps_waiters (cc_states c t)"
  "ps_key (cc_states (snd (cc_admit s now x c)) t) = ps_key (cc_states c t)"
  "t \<noteq> s \<Longrightarrow> cc_states (snd (cc_admit s now x c)) t = cc_states c t"
  "cc_log (snd (cc_admit s now x c)) = cc_log c @ [(ps_key (cc_states c s), now)]"
  by (simp_all add: cc_admit_def push_admission_def set_state_def Let_def)

lemma settle_same [simp]:
  "cc_partitions (settle_call w e c) = cc_partitions c" "cc_maxConcurrency (settle_call w e c) = cc_maxConcurrency c"
  "cc_permits (settle_call w e c) = cc_permits c" "cc_fibers (settle_call w e c) = cc_fibers c"
  "cc_next (settle_call w e c) = cc_next c" "cc_closed (settle_call w e c) = cc_closed c"
  "cc_log (settle_call w e c) = cc_log c" "cc_budget (settle_call w e c) = cc_budget c"
  "cc_maxPartitions (settle_call w e c) = cc_maxPartitions c" "cc_maxQueueSize (settle_call w e c) = cc_maxQueueSize c"
  "cc_states (settle_call w e c) = cc_states c"
  by (simp_all add: settle_call_def)

lemma pump_turn_same [simp]:
  "cc_partitions (pump_turn now s w c) = cc_partitions c"
  "cc_maxConcurrency (pump_turn now s w c) = cc_maxConcurrency c"
  "cc_fibers (pump_turn now s w c) = cc_fibers c" "cc_closed (pump_turn now s w c) = cc_closed c"
  "cc_budget (pump_turn now s w c) = cc_budget c" "cc_maxPartitions (pump_turn now s w c) = cc_maxPartitions c"
  "cc_maxQueueSize (pump_turn now s w c) = cc_maxQueueSize c"
  "ps_key (cc_states (pump_turn now s w c) t) = ps_key (cc_states c t)"
  by (simp_all add: pump_turn_def Let_def case_prod_unfold split: option.split)

lemma pump_turn_frame: "t \<noteq> s \<Longrightarrow> cc_states (pump_turn now s w c) t = cc_states c t"
  by (simp add: pump_turn_def Let_def case_prod_unfold pruneBudget_def set_state_def split: option.split)

lemma base_pump_turn:
  assumes "cc_base c" "ps_waiters (cc_states c s) = w # ws"
    and "\<And>n. cc_maxConcurrency c = Some n \<Longrightarrow> ps_active (cc_states c s) < n"
  shows "cc_base (pump_turn now s w (shift_waiter s c))"
proof -
  let ?c = "shift_waiter s c" and ?p = "pruneBudget s now (shift_waiter s c)"
  note f = shift_facts [OF assms(1,2)]
  have settle: "cc_base (settle_call (cw_id w) e d)"
    if "cc_base d" "cc_next c \<le> cc_next d" "\<And>t. ps_waiters (cc_states d t) = ps_waiters (cc_states ?c t)" for d e
    using that f(2,3) by (intro base_settle) (auto simp: queued_in_def)
  have "cc_base (snd (cc_admit s now x ?p))" for x
    using f(1,5) assms(3) by (intro base_admit) auto
  then show ?thesis
    using f(1) by (auto simp: pump_turn_def Let_def case_prod_unfold intro!: settle split: option.split)
qed

lemma pump_loop_induct:
  assumes "P c"
    and "\<And>c w ws. P c \<Longrightarrow> ps_waiters (cc_states c s) = w # ws \<Longrightarrow> ps_active (cc_states c s) < n
      \<Longrightarrow> P (pump_turn now s w (shift_waiter s c))"
  shows "P (pump_loop now s n c)"
  using assms
proof (induction now s n c rule: pump_loop.induct)
  case (1 now s n c)
  show ?case
  proof (cases "\<exists>w ws. ps_waiters (cc_states c s) = w # ws \<and> ps_active (cc_states c s) < n")
    case True
    then obtain w ws where w: "ps_waiters (cc_states c s) = w # ws" "ps_active (cc_states c s) < n" by blast
    have "P (pump_loop now s n (pump_turn now s w (shift_waiter s c)))"
      by (rule "1.IH" [OF w]) (use "1.prems" w in blast)+
    with w show ?thesis by (simp add: pump_loop.simps [of now s n c])
  next
    case False
    then have "pump_loop now s n c = c" by (subst pump_loop.simps) (auto split: list.split)
    with "1.prems"(1) show ?thesis by simp
  qed
qed

lemma pump_loop_end:
  "ps_waiters (cc_states (pump_loop now s n c) s) = [] \<or> n \<le> ps_active (cc_states (pump_loop now s n c) s)"
proof (induction now s n c rule: pump_loop.induct)
  case (1 now s n c)
  then show ?case by (subst (1 2) pump_loop.simps) (auto split: list.split)
qed

lemma pump_loop_frame: "t \<noteq> s \<Longrightarrow> cc_states (pump_loop now s n c) t = cc_states c t"
  by (rule pump_loop_induct [where P = "\<lambda>d. cc_states d t = cc_states c t"]) (simp_all add: pump_turn_frame)

lemma pump_loop_same [simp]:
  "cc_partitions (pump_loop now s n c) = cc_partitions c"
  "cc_maxConcurrency (pump_loop now s n c) = cc_maxConcurrency c"
  "cc_fibers (pump_loop now s n c) = cc_fibers c" "cc_closed (pump_loop now s n c) = cc_closed c"
  "cc_budget (pump_loop now s n c) = cc_budget c" "cc_maxPartitions (pump_loop now s n c) = cc_maxPartitions c"
  "cc_maxQueueSize (pump_loop now s n c) = cc_maxQueueSize c"
proof -
  let ?same = "\<lambda>d. cc_partitions d = cc_partitions c \<and> cc_maxConcurrency d = cc_maxConcurrency c \<and>
    cc_fibers d = cc_fibers c \<and> cc_closed d = cc_closed c \<and> cc_budget d = cc_budget c \<and>
    cc_maxPartitions d = cc_maxPartitions c \<and> cc_maxQueueSize d = cc_maxQueueSize c"
  have "?same (pump_loop now s n c)" by (rule pump_loop_induct [where P = ?same]) simp_all
  then show "cc_partitions (pump_loop now s n c) = cc_partitions c"
    "cc_maxConcurrency (pump_loop now s n c) = cc_maxConcurrency c"
    "cc_fibers (pump_loop now s n c) = cc_fibers c" "cc_closed (pump_loop now s n c) = cc_closed c"
    "cc_budget (pump_loop now s n c) = cc_budget c" "cc_maxPartitions (pump_loop now s n c) = cc_maxPartitions c"
    "cc_maxQueueSize (pump_loop now s n c) = cc_maxQueueSize c" by blast+
qed

lemma pump_same [simp]:
  "cc_partitions (cc_pump now s c) = cc_partitions c" "cc_maxConcurrency (cc_pump now s c) = cc_maxConcurrency c"
  "cc_fibers (cc_pump now s c) = cc_fibers c" "cc_closed (cc_pump now s c) = cc_closed c"
  "cc_budget (cc_pump now s c) = cc_budget c" "cc_maxPartitions (cc_pump now s c) = cc_maxPartitions c"
  "cc_maxQueueSize (cc_pump now s c) = cc_maxQueueSize c"
  by (simp_all add: cc_pump_def split: option.split)

lemma base_pump:
  assumes "cc_base c"
  shows "cc_base (cc_pump now s c)"
proof -
  have "cc_base (pump_loop now s n c)" if n: "cc_maxConcurrency c = Some n" for n
  proof -
    have "cc_base (pump_loop now s n c) \<and> cc_maxConcurrency (pump_loop now s n c) = Some n"
      by (rule pump_loop_induct [where P = "\<lambda>d. cc_base d \<and> cc_maxConcurrency d = Some n"])
         (auto simp: assms n intro: base_pump_turn)
    then show ?thesis ..
  qed
  then show ?thesis using assms by (simp add: cc_pump_def split: option.split)
qed

text \<open>After a pump nobody waits beside a free slot of its partition; other partitions are untouched.\<close>

lemma wake_pump:
  assumes "cc_base c" "\<And>t. t \<noteq> s \<Longrightarrow> wake_ok c t"
  shows "wake_ok (cc_pump now s c) t"
proof (cases "cc_closed c \<or> cc_maxConcurrency c = None")
  case True
  then have "ps_waiters (cc_states c t) = []" using base_state [OF assms(1), of t] by (auto simp: state_ok_def Let_def)
  with True show ?thesis by (auto simp: wake_ok_def cc_pump_def split: option.split)
next
  case False
  then obtain n where n: "cc_maxConcurrency c = Some n" "cc_pump now s c = pump_loop now s n c"
    by (auto simp: cc_pump_def)
  show ?thesis
  proof (cases "t = s")
    case True
    then show ?thesis using pump_loop_end [of now s n c] n by (auto simp: wake_ok_def)
  next
    case ts: False
    then show ?thesis using assms(2) [OF ts] n pump_loop_frame [OF ts, of now n c] by (simp add: wake_ok_def)
  qed
qed

definition cc_wf :: "call_controller \<Rightarrow> bool" where
  "cc_wf c \<longleftrightarrow> cc_base c \<and> (\<forall>s. wake_ok c s)"

text \<open>A permit given back: its slot is free and its partition is pumped.\<close>

lemma base_give_back:
  assumes "cc_base c" "map_of (cc_permits c) pid = Some s"
  shows "cc_base (set_state s (\<lambda>p. if 0 < ps_active p then p\<lparr>ps_active := ps_active p - 1\<rparr> else p)
    (c\<lparr>cc_permits := map_delete pid (cc_permits c)\<rparr>))" (is "cc_base ?d")
proof -
  have d: "distinct (map fst (cc_permits c))" using base_dir [OF assms(1)] by (simp add: dir_ok_def)
  have count: "length (filter (\<lambda>e. snd e = t) (map_delete pid (cc_permits c))) =
      in_flight c t - (if t = s then 1 else 0)" for t
  proof -
    have "filter (\<lambda>e. snd e = t) (map_delete pid (cc_permits c)) =
        map_delete pid (filter (\<lambda>e. snd e = t) (cc_permits c))"
      unfolding map_delete_def filter_filter by (rule filter_cong) auto
    moreover have "map_has pid (filter (\<lambda>e. snd e = t) (cc_permits c)) \<longleftrightarrow> t = s"
      using assms(2) d by (auto simp: map_has_def image_iff dest: map_of_SomeD eq_key_imp_eq_value)
    moreover have "distinct (map fst (filter (\<lambda>e. snd e = t) (cc_permits c)))" using d by (rule distinct_map_filter)
    ultimately show ?thesis by (simp add: length_map_delete in_flight_def)
  qed
  have "(pid, s) \<in> set (cc_permits c)" using assms(2) by (rule map_of_SomeD)
  then have "in_flight c s \<noteq> 0" by (force simp: in_flight_def filter_empty_conv)
  moreover have "dir_ok ?d" using base_dir [OF assms(1)] by (auto simp: dir_ok_def set_state_def)
  moreover have "state_ok ?d t" for t
    using base_state [OF assms(1), of t] count [of t] calculation(1)
    by (auto simp: state_ok_def Let_def set_state_def waiter_ok_def in_flight_def)
  ultimately show ?thesis by (simp add: cc_base_def)
qed

lemma wf_release:
  assumes "cc_wf c"
  shows "cc_wf (cc_release now pid c)"
proof (cases "map_of (cc_permits c) pid")
  case (Some s)
  have w: "wake_ok c t" for t using assms by (simp add: cc_wf_def)
  have b: "cc_base c" using assms by (simp add: cc_wf_def)
  show ?thesis
    unfolding cc_release_def Some option.case cc_wf_def
    using base_give_back [OF b Some] w
    by (auto intro!: base_pump wake_pump simp: wake_ok_def set_state_def)
qed (simp add: cc_release_def assms)

lemma map_set_absent: "k \<notin> fst ` set m \<Longrightarrow> map_set k v m = m @ [(k, v)]"
  by (induction k v m rule: map_set.induct) auto

text \<open>The other turns. A turn that neither adds waiters nor takes slots away keeps every wake-up.\<close>

lemma wf_mono:
  assumes "cc_wf c" "cc_base d" "cc_maxConcurrency d = cc_maxConcurrency c"
    and "\<And>t. ps_waiters (cc_states d t) \<noteq> [] \<Longrightarrow> ps_waiters (cc_states c t) \<noteq> []"
    and "\<And>t. ps_active (cc_states c t) \<le> ps_active (cc_states d t)"
  shows "cc_wf d"
proof -
  have "wake_ok d t" for t
    using assms(1,3) assms(4) [of t] assms(5) [of t] unfolding cc_wf_def wake_ok_def by (metis order_trans)
  with assms(2) show ?thesis by (simp add: cc_wf_def)
qed

lemma wf_base: "cc_wf c \<Longrightarrow> cc_base c" by (simp add: cc_wf_def)

lemma maybeDelete_same [simp]:
  "cc_maxConcurrency (maybeDeletePartition k s now c) = cc_maxConcurrency c"
  "cc_permits (maybeDeletePartition k s now c) = cc_permits c" "cc_fibers (maybeDeletePartition k s now c) = cc_fibers c"
  "cc_outcomes (maybeDeletePartition k s now c) = cc_outcomes c" "cc_next (maybeDeletePartition k s now c) = cc_next c"
  "cc_closed (maybeDeletePartition k s now c) = cc_closed c" "cc_log (maybeDeletePartition k s now c) = cc_log c"
  "cc_budget (maybeDeletePartition k s now c) = cc_budget c"
  "cc_maxPartitions (maybeDeletePartition k s now c) = cc_maxPartitions c"
  "cc_maxQueueSize (maybeDeletePartition k s now c) = cc_maxQueueSize c"
  "ps_active (cc_states (maybeDeletePartition k s now c) t) = ps_active (cc_states c t)"
  "ps_waiters (cc_states (maybeDeletePartition k s now c) t) = ps_waiters (cc_states c t)"
  "ps_key (cc_states (maybeDeletePartition k s now c) t) = ps_key (cc_states c t)"
  by (simp_all add: maybeDeletePartition_def Let_def)

lemma maybeDelete_partitions:
  "set (cc_partitions c) - {e. fst e = k} \<subseteq> set (cc_partitions (maybeDeletePartition k s now c))"
  "set (cc_partitions (maybeDeletePartition k s now c)) \<subseteq> set (cc_partitions c)"
  by (auto simp: maybeDeletePartition_def Let_def)

lemma wf_maybeDelete:
  assumes "cc_wf c" "(key, s) \<in> set (cc_partitions c)"
  shows "cc_wf (maybeDeletePartition key s now c)"
  by (rule wf_mono [OF assms(1) base_maybeDelete [OF wf_base [OF assms(1)] assms(2)]]) simp_all

text \<open>What every deletion of one idle partition keeps, an eviction keeps.\<close>

lemma evict_induct:
  assumes "P c" "distinct (map fst (cc_partitions c))"
    and "\<And>d k s. P d \<Longrightarrow> (k, s) \<in> set (cc_partitions d) \<Longrightarrow> P (maybeDeletePartition k s now d)"
  shows "P (evictIdlePartitions now c)"
proof -
  have "P (fold (\<lambda>(key, s). maybeDeletePartition key s now) xs d)"
    if "P d" "distinct (map fst xs)" "set xs \<subseteq> set (cc_partitions d)" for xs d
    using that
  proof (induction xs arbitrary: d)
    case (Cons x xs)
    obtain k s where x: "x = (k, s)" by (cases x)
    let ?d = "maybeDeletePartition k s now d"
    have "set xs \<subseteq> set (cc_partitions d) - {e. fst e = k}" using Cons.prems(2,3) x by (auto simp: image_iff)
    then have "set xs \<subseteq> set (cc_partitions ?d)" using maybeDelete_partitions(1) [of d k s now] by blast
    moreover have "P ?d" using assms(3) [OF Cons.prems(1)] Cons.prems(3) x by simp
    ultimately show ?case using Cons.IH [of ?d] Cons.prems(2) x by simp
  qed simp
  from this [of c "cc_partitions c"] assms(1,2) show ?thesis by (simp add: evictIdlePartitions_def)
qed

lemma wf_distinct: "cc_wf c \<Longrightarrow> distinct (map fst (cc_partitions c))"
  by (simp add: cc_wf_def cc_base_def dir_ok_def)

lemma wf_evict: "cc_wf c \<Longrightarrow> cc_wf (evictIdlePartitions now c)"
  by (rule evict_induct) (auto intro: wf_maybeDelete wf_distinct)

lemma evict_partitions:
  "distinct (map fst (cc_partitions c)) \<Longrightarrow> set (cc_partitions (evictIdlePartitions now c)) \<subseteq> set (cc_partitions c)"
  by (rule evict_induct [where P = "\<lambda>d. set (cc_partitions d) \<subseteq> set (cc_partitions c)"])
     (auto dest: maybeDelete_partitions(2) [THEN subsetD])

lemma base_new_partition:
  assumes "cc_base c" "map_of (cc_partitions c) key = None" "length (cc_partitions c) < cc_maxPartitions c"
  shows "cc_base (new_partition key c)"
proof -
  have unused: "in_flight c (cc_next c) = 0" "ps_waiters (cc_states c (cc_next c)) = []"
    using base_state [OF assms(1), of "cc_next c"] base_dir [OF assms(1)]
    by (force simp: state_ok_def Let_def dir_ok_def)+
  have fresh: "key \<notin> fst ` set (cc_partitions c)" using assms(2) by (simp add: map_of_eq_None_iff)
  then have add: "map_set key (cc_next c) (cc_partitions c) = cc_partitions c @ [(key, cc_next c)]"
    by (rule map_set_absent)
  have "dir_ok (new_partition key c)"
    using base_dir [OF assms(1)] assms(3) fresh by (force simp: dir_ok_def new_partition_def add fresh_state_def)
  moreover have "state_ok (new_partition key c) t" for t
    using base_state [OF assms(1), of t] unused
    by (auto simp: state_ok_def Let_def new_partition_def add fresh_state_def in_flight_def waiter_ok_def)
  ultimately show ?thesis by (simp add: cc_base_def)
qed

lemma wf_new_partition:
  assumes "cc_wf c" "map_of (cc_partitions c) key = None" "length (cc_partitions c) < cc_maxPartitions c"
  shows "cc_wf (new_partition key c)"
proof -
  have "ps_active (cc_states c (cc_next c)) = 0"
    using in_use [OF wf_base [OF assms(1)], of "cc_next c"] base_dir [OF wf_base [OF assms(1)]]
    unfolding dir_ok_def by blast
  then show ?thesis
    by (intro wf_mono [OF assms(1) base_new_partition [OF wf_base [OF assms(1)] assms(2,3)]])
       (auto simp: new_partition_def fresh_state_def split: if_splits)
qed

lemma wf_counters [simp]:
  "cc_wf (c\<lparr>cc_rejectedTotal := n\<rparr>) = cc_wf c" "cc_wf (c\<lparr>cc_rateLimitedTotal := n\<rparr>) = cc_wf c"
  "cc_wf (c\<lparr>cc_cancelledTotal := n\<rparr>) = cc_wf c" "cc_wf (count_rejected c) = cc_wf c" "cc_wf (count_cancelled c) = cc_wf c"
  by (simp_all add: cc_wf_def wake_ok_def count_rejected_def count_cancelled_def)

lemma wf_prune: "cc_wf c \<Longrightarrow> cc_wf (pruneBudget s now c)"
  by (rule wf_mono [OF _ base_prune]) (auto intro: wf_base)

lemma admit_active: "ps_active (cc_states (snd (cc_admit s now x c)) t) =
    (if t = s then Suc (ps_active (cc_states c t)) else ps_active (cc_states c t))"
  by (simp add: cc_admit_def push_admission_def set_state_def Let_def)

lemma wf_enqueue:
  assumes "cc_wf c" "(key, s) \<in> set (cc_partitions c)" "\<not> cc_closed c"
    and "cc_maxConcurrency c = Some n" "n \<le> ps_active (cc_states c s)"
    and "length (ps_waiters (cc_states c s)) < cc_maxQueueSize c"
  shows "cc_wf (enqueue_call key s t0 c)"
proof -
  let ?d = "enqueue_call key s t0 c"
  have key: "ps_key (cc_states c s) = key" "s < cc_next c"
    using base_dir [OF wf_base [OF assms(1)]] assms(2) by (auto simp: dir_ok_def)
  have "dir_ok ?d"
    using base_dir [OF wf_base [OF assms(1)]] key by (auto simp: dir_ok_def enqueue_call_def set_state_def less_SucI)
  moreover have "state_ok ?d t" for t
  proof -
    have ok: "state_ok c t" and out: "cc_outcomes c (cc_next c) = None"
      using wf_base [OF assms(1)] by (auto simp: cc_base_def dir_ok_def)
    have old: "cw_id w < cc_next c" if "w \<in> set (ps_waiters (cc_states c t))" for w
      using ok that by (auto simp: state_ok_def Let_def waiter_ok_def)
    have wok: "waiter_ok ?d t (cw_id w)" if "w \<in> set (ps_waiters (cc_states c t))" for w
      using ok old [OF that] that
      by (auto simp: state_ok_def Let_def waiter_ok_def enqueue_call_def set_state_def)
    have new: "waiter_ok ?d s (cc_next c)"
      using key out by (simp add: waiter_ok_def enqueue_call_def set_state_def)
    let ?ws = "ps_waiters (cc_states ?d t)"
    have ws: "?ws = (if t = s then ps_waiters (cc_states c s) @ [\<lparr>cw_id = cc_next c, cw_queuedAt = t0\<rparr>]
        else ps_waiters (cc_states c t))"
      by (simp add: enqueue_call_def set_state_def)
    have "\<forall>w \<in> set ?ws. waiter_ok ?d t (cw_id w)" using wok new by (auto simp: ws)
    moreover have "cc_next c \<notin> cw_id ` set (ps_waiters (cc_states c t))"
      by (metis imageE less_irrefl old)
    then have "distinct (map cw_id ?ws)"
      using ok by (auto simp: ws state_ok_def Let_def)
    moreover have "length ?ws \<le> cc_maxQueueSize c" using ok assms(6) by (auto simp: ws state_ok_def Let_def)
    ultimately show ?thesis
      using ok assms(2-5) key
      by (auto simp: state_ok_def Let_def in_flight_def ws) (auto simp: enqueue_call_def set_state_def in_flight_def)
  qed
  ultimately have "cc_base ?d" by (simp add: cc_base_def)
  moreover have "wake_ok ?d t" for t
    using assms(1,4,5) by (auto simp: cc_wf_def wake_ok_def enqueue_call_def set_state_def)
  ultimately show ?thesis by (simp add: cc_wf_def)
qed

lemma wf_decide:
  assumes "cc_wf c" "(key, s) \<in> set (cc_partitions c)" "\<not> cc_closed c"
  shows "cc_wf (snd (decide_in key s now c))"
proof -
  let ?c = "pruneBudget s now c"
  have wf: "cc_wf ?c" using assms(1) by (rule wf_prune)
  have key: "ps_key (cc_states ?c s) = key"
    using base_dir [OF wf_base [OF wf]] assms(2) by (auto simp: dir_ok_def)
  have admit: "cc_wf (snd (cc_admit s now 0 ?c))"
    if "case cc_maxConcurrency ?c of None \<Rightarrow> True | Some n \<Rightarrow> ps_active (cc_states ?c s) < n"
    using that assms(2) key wf
    by (intro wf_mono [OF wf base_admit [OF wf_base [OF wf]]]) (auto simp: admit_active)
  have queue: "cc_wf (enqueue_call key s now ?c)"
    if busy: "\<not> (case cc_maxConcurrency ?c of None \<Rightarrow> True | Some n \<Rightarrow> ps_active (cc_states ?c s) < n)"
      and space: "\<not> cc_maxQueueSize ?c \<le> length (ps_waiters (cc_states ?c s))"
  proof -
    obtain n where "cc_maxConcurrency ?c = Some n" "n \<le> ps_active (cc_states ?c s)"
      using busy by (auto split: option.splits)
    with space assms(2,3) wf show ?thesis by (intro wf_enqueue) auto
  qed
  show ?thesis
    using wf admit queue
    by (auto simp: decide_in_def Let_def case_prod_unfold split: option.split)
qed

lemma evict_closed [simp]: "distinct (map fst (cc_partitions c)) \<Longrightarrow> cc_closed (evictIdlePartitions now c) = cc_closed c"
  by (rule evict_induct [where P = "\<lambda>d. cc_closed d = cc_closed c"]) simp_all

lemma wf_acquire:
  assumes "cc_wf c"
  shows "cc_wf (snd (cc_acquire now input signal signal' c))"
proof -
  let ?e = "evictIdlePartitions now c"
  note d = wf_distinct [OF assms]
  have wfe: "cc_wf ?e" using assms by (rule wf_evict)
  have found: "cc_wf (snd (decide_in key s now c))"
    if "map_of (cc_partitions c) key = Some s" "\<not> cc_closed c" for key s
    using assms map_of_SomeD [OF that(1)] that(2) by (rule wf_decide)
  have made: "cc_wf (snd (decide_in key (cc_next ?e) now (new_partition key ?e)))"
    if none: "map_of (cc_partitions c) key = None" and "\<not> cc_closed c"
      and size: "\<not> cc_maxPartitions ?e \<le> length (cc_partitions ?e)" for key
  proof -
    have "map_of (cc_partitions ?e) key = None"
      using none evict_partitions [OF d, of now] by (auto simp: map_of_eq_None_iff)
    then have "cc_wf (new_partition key ?e)" using wf_new_partition [OF wfe] size by simp
    moreover have "(key, cc_next ?e) \<in> set (cc_partitions (new_partition key ?e))"
      using map_of_map_set [of key "cc_next ?e" "cc_partitions ?e"]
      by (simp add: new_partition_def map_of_SomeD)
    moreover have "\<not> cc_closed (new_partition key ?e)" using that(2) d by (simp add: new_partition_def)
    ultimately show ?thesis by (rule wf_decide)
  qed
  show ?thesis
    using assms wfe found made
    by (auto simp: cc_acquire_def Let_def split: option.split key_outcome.split)
qed

lemma push_same [simp]:
  "cc_partitions (push_admission s now c) = cc_partitions c" "cc_maxConcurrency (push_admission s now c) = cc_maxConcurrency c"
  "cc_permits (push_admission s now c) = cc_permits c" "cc_outcomes (push_admission s now c) = cc_outcomes c"
  "cc_closed (push_admission s now c) = cc_closed c" "cc_budget (push_admission s now c) = cc_budget c"
  "ps_active (cc_states (push_admission s now c) t) = ps_active (cc_states c t)"
  "ps_waiters (cc_states (push_admission s now c) t) = ps_waiters (cc_states c t)"
  "ps_key (cc_states (push_admission s now c) t) = ps_key (cc_states c t)"
  "cc_log (push_admission s now c) = cc_log c @ [(ps_key (cc_states c s), now)]"
  by (simp_all add: push_admission_def set_state_def Let_def)

lemma wf_charge:
  assumes "cc_wf c"
  shows "cc_wf (snd (chargeCallBudget now pid signal c))"
proof -
  have push: "cc_wf (push_admission s now d)" if d: "cc_wf d" for s d
  proof -
    have "cc_base (push_admission s now d)" using wf_base [OF d] by (simp add: push_admission_def Let_def)
    then show ?thesis by (rule wf_mono [OF d]) simp_all
  qed
  show ?thesis
    using assms by (auto simp: chargeCallBudget_def Let_def intro!: push wf_prune split: option.split)
qed

lemma wf_removed:
  assumes "cc_wf c" "removeWaiter s w c = (True, d)"
  shows "cc_wf d" "(ps_key (cc_states c s), s) \<in> set (cc_partitions c)" "cc_partitions d = cc_partitions c"
proof -
  let ?ws = "filter (\<lambda>x. cw_id x \<noteq> w) (ps_waiters (cc_states c s))"
  have d: "d = set_state s (\<lambda>p. p\<lparr>ps_waiters := ?ws\<rparr>) c" and q: "queued_in s w c"
    using assms(2) by (auto simp: removeWaiter_def set_state_def)
  have "distinct (map cw_id (ps_waiters (cc_states c s)))"
    using base_state [OF wf_base [OF assms(1)], of s] by (simp add: state_ok_def Let_def)
  then have "cc_base d"
    unfolding d by (intro base_waiters wf_base assms(1)) (auto intro: distinct_map_filter)
  then show "cc_wf d"
    by (rule wf_mono [OF assms(1)]) (auto simp: d set_state_def filter_empty_conv split: if_splits)
  show "(ps_key (cc_states c s), s) \<in> set (cc_partitions c)"
    using q by (intro in_use wf_base assms(1)) (auto simp: queued_in_def)
  show "cc_partitions d = cc_partitions c" by (simp add: d set_state_def)
qed

lemma fiber_key: "cc_wf c \<Longrightarrow> cc_fibers c w = Some (key, s) \<Longrightarrow> ps_key (cc_states c s) = key"
  by (auto simp: cc_wf_def cc_base_def dir_ok_def)

lemma counted_partitions [simp]:
  "cc_partitions (count_rejected c) = cc_partitions c" "cc_partitions (count_cancelled c) = cc_partitions c"
  by (simp_all add: count_rejected_def count_cancelled_def)

lemma wf_giveUp:
  assumes "cc_wf c" "cc_fibers c w = Some (key, s)"
  shows "cc_wf (snd (giveUp now abort key s w c))"
proof (cases "removeWaiter s w c")
  case (Pair gone d)
  have "cc_wf (maybeDeletePartition key s now e)"
    if "gone" "cc_wf e" "cc_partitions e = cc_partitions c" for e
    using that wf_removed [OF assms(1), of s w d] Pair fiber_key [OF assms] by (auto intro!: wf_maybeDelete)
  then show ?thesis
    using assms(1) wf_removed [OF assms(1), of s w d] Pair
    by (cases gone; cases abort) (auto simp: giveUp_def)
qed

lemma wf_cleanup:
  assumes "cc_wf c" "cc_fibers c w = Some (key, s)"
  shows "cc_wf (cleanupWaiter now key s w c)"
proof (cases "removeWaiter s w c")
  case (Pair gone d)
  have "cc_wf (maybeDeletePartition key s now (count_cancelled d))" if gone
    using that wf_removed [OF assms(1), of s w d] Pair fiber_key [OF assms] by (auto intro!: wf_maybeDelete)
  then show ?thesis
    using assms(1) Pair by (cases gone) (auto simp: cleanupWaiter_def wf_release split: option.split sum.split)
qed

text \<open>Closing answers every waiter of every partition.\<close>

lemma fold_settle_states [simp]: "cc_states (fold (\<lambda>w. settle_call (cw_id w) e) ws c) = cc_states c"
  by (induction ws arbitrary: c) simp_all

lemma fold_settle_same [simp]:
  "cc_partitions (fold (\<lambda>w. settle_call (cw_id w) e) ws c) = cc_partitions c"
  "cc_maxConcurrency (fold (\<lambda>w. settle_call (cw_id w) e) ws c) = cc_maxConcurrency c"
  "cc_permits (fold (\<lambda>w. settle_call (cw_id w) e) ws c) = cc_permits c"
  "cc_fibers (fold (\<lambda>w. settle_call (cw_id w) e) ws c) = cc_fibers c"
  "cc_next (fold (\<lambda>w. settle_call (cw_id w) e) ws c) = cc_next c"
  "cc_closed (fold (\<lambda>w. settle_call (cw_id w) e) ws c) = cc_closed c"
  "cc_log (fold (\<lambda>w. settle_call (cw_id w) e) ws c) = cc_log c"
  "cc_budget (fold (\<lambda>w. settle_call (cw_id w) e) ws c) = cc_budget c"
  "cc_maxPartitions (fold (\<lambda>w. settle_call (cw_id w) e) ws c) = cc_maxPartitions c"
  "cc_maxQueueSize (fold (\<lambda>w. settle_call (cw_id w) e) ws c) = cc_maxQueueSize c"
  by (induction ws arbitrary: c) simp_all

lemma fold_settle_outcomes:
  "cc_outcomes (fold (\<lambda>w. settle_call (cw_id w) e) ws c) x =
     (if cc_outcomes c x = None \<and> x \<in> cw_id ` set ws then Some e else cc_outcomes c x)"
  by (induction ws arbitrary: c) (auto simp: settle_call_def)

text \<open>What closing a list of partitions leaves: their queues empty, their waiters answered, the rest as it was.\<close>

lemma fold_close_same [simp]:
  "cc_partitions (fold (\<lambda>(key, s). close_partition s) xs c) = cc_partitions c"
  "cc_maxConcurrency (fold (\<lambda>(key, s). close_partition s) xs c) = cc_maxConcurrency c"
  "cc_permits (fold (\<lambda>(key, s). close_partition s) xs c) = cc_permits c"
  "cc_fibers (fold (\<lambda>(key, s). close_partition s) xs c) = cc_fibers c"
  "cc_next (fold (\<lambda>(key, s). close_partition s) xs c) = cc_next c"
  "cc_closed (fold (\<lambda>(key, s). close_partition s) xs c) = cc_closed c"
  "cc_log (fold (\<lambda>(key, s). close_partition s) xs c) = cc_log c"
  "cc_budget (fold (\<lambda>(key, s). close_partition s) xs c) = cc_budget c"
  "cc_maxPartitions (fold (\<lambda>(key, s). close_partition s) xs c) = cc_maxPartitions c"
  "cc_maxQueueSize (fold (\<lambda>(key, s). close_partition s) xs c) = cc_maxQueueSize c"
  by (induction xs arbitrary: c) (simp_all add: close_partition_def set_state_def case_prod_unfold)

lemma fold_close_states:
  "cc_states (fold (\<lambda>(key, s). close_partition s) xs c) t =
     (if t \<in> snd ` set xs then (cc_states c t)\<lparr>ps_waiters := []\<rparr> else cc_states c t)"
  by (induction xs arbitrary: c) (auto simp: close_partition_def set_state_def)

lemma fold_close_outcomes:
  "cc_outcomes (fold (\<lambda>(key, s). close_partition s) xs c) x = Some y \<Longrightarrow>
     cc_outcomes c x = Some y \<or> cc_outcomes c x = None \<and> (\<exists>s \<in> snd ` set xs. queued_in s x c)"
proof (induction xs arbitrary: c)
  case (Cons e xs)
  obtain k s where e: "e = (k, s)" by (cases e)
  have "cc_outcomes (close_partition s c) x = Some y \<or> cc_outcomes (close_partition s c) x = None \<and>
      (\<exists>t \<in> snd ` set xs. queued_in t x (close_partition s c))"
    using Cons.IH [of "close_partition s c"] Cons.prems e by simp
  then show ?case
    using e by (auto simp: close_partition_def fold_settle_outcomes queued_in_def set_state_def split: if_splits)
qed simp

lemma wf_close:
  assumes "cc_wf c"
  shows "cc_wf (cc_close c)"
proof (cases "cc_closed c")
  case False
  let ?xs = "cc_partitions c" and ?c = "c\<lparr>cc_closed := True\<rparr>"
  let ?d = "fold (\<lambda>(key, s). close_partition s) ?xs ?c"
  note b = wf_base [OF assms]
  have d: "cc_close c = ?d" using False by (simp add: cc_close_def)
  have keys: "ps_key (cc_states ?d t) = ps_key (cc_states c t)"
    "ps_active (cc_states ?d t) = ps_active (cc_states c t)" for t
    by (simp_all add: fold_close_states)
  have empty: "ps_waiters (cc_states ?d t) = []" for t
    using in_use [OF b, of t] by (force simp: fold_close_states)
  have old: "x < cc_next c" if "queued_in s x c" for s x
    using base_state [OF b, of s] that by (auto simp: queued_in_def state_ok_def Let_def waiter_ok_def)
  have "cc_outcomes ?d w = None" if "cc_next c \<le> w" for w
  proof (rule ccontr)
    assume "cc_outcomes ?d w \<noteq> None"
    then obtain y where "cc_outcomes ?d w = Some y" by blast
    then have "cc_outcomes c w = Some y \<or> (\<exists>s. queued_in s w c)"
      using fold_close_outcomes [of ?xs ?c w y] by (auto simp: queued_in_def)
    moreover have "cc_outcomes c w = None" using that base_dir [OF b] by (simp add: dir_ok_def)
    ultimately show False using that old [of _ w] by force
  qed
  then have "dir_ok ?d" using base_dir [OF b] by (simp add: dir_ok_def keys)
  moreover have "state_ok ?d t" for t
    using base_state [OF b, of t] by (auto simp: state_ok_def Let_def keys empty in_flight_def)
  ultimately have "cc_base ?d" by (simp add: cc_base_def)
  then show ?thesis unfolding d by (rule wf_mono [OF assms]) (simp_all add: keys empty)
qed (simp add: cc_close_def assms)

section \<open>The rolling window\<close>

definition log_of :: "call_controller \<Rightarrow> jstr \<Rightarrow> int list" where
  "log_of c k = map snd (filter (\<lambda>e. fst e = k) (cc_log c))"

definition in_window :: "int \<Rightarrow> nat \<Rightarrow> int list \<Rightarrow> nat" where
  "in_window t w xs = length (filter (\<lambda>x. t \<le> x \<and> x < t + int w) xs)"

text \<open>
  One key's history under a budget at time \<open>T\<close>: no window of it is over budget, and the timestamps kept
  for it are a final piece of it, within the budget, all earlier starts having left the window.
\<close>

definition key_budget :: "int \<Rightarrow> rolling_budget \<Rightarrow> int list \<Rightarrow> int list \<Rightarrow> bool" where
  "key_budget T b hist kept \<longleftrightarrow>
     (\<forall>t. in_window t (windowMs b) hist \<le> maxCalls b) \<and> length kept \<le> maxCalls b \<and>
     (\<exists>old. hist = old @ kept \<and> (\<forall>x \<in> set old. x + int (windowMs b) \<le> T))"

definition kept_for :: "call_controller \<Rightarrow> jstr \<Rightarrow> int list" where
  "kept_for c k = (case map_of (cc_partitions c) k of None \<Rightarrow> [] | Some s \<Rightarrow> ps_admittedAt (cc_states c s))"

definition budget_inv :: "int \<Rightarrow> call_controller \<Rightarrow> bool" where
  "budget_inv T c \<longleftrightarrow>
     (\<forall>b. cc_budget c = Some b \<longrightarrow> 0 < maxCalls b \<and> (\<forall>k. key_budget T b (log_of c k) (kept_for c k)))"

lemma budget_frame:
  assumes "budget_inv T c" "T \<le> T'" "cc_budget d = cc_budget c" "cc_log d = cc_log c"
    and "\<And>k. kept_for d k = kept_for c k"
  shows "budget_inv T' d"
  using assms by (fastforce simp: budget_inv_def log_of_def key_budget_def)

lemma key_budget_prune:
  assumes "key_budget T b hist kept"
  shows "key_budget T b hist (dropWhile (\<lambda>a. a + int (windowMs b) \<le> T) kept)"
proof -
  let ?P = "\<lambda>a. a + int (windowMs b) \<le> T"
  obtain old where old: "hist = old @ kept" "\<forall>x \<in> set old. ?P x"
    using assms unfolding key_budget_def by blast
  then have "hist = (old @ takeWhile ?P kept) @ dropWhile ?P kept" "\<forall>x \<in> set (old @ takeWhile ?P kept). ?P x"
    by (auto dest: set_takeWhileD)
  moreover have "length (dropWhile ?P kept) \<le> maxCalls b"
    using assms length_dropWhile_le [of ?P kept] by (simp add: key_budget_def)
  ultimately show ?thesis using assms unfolding key_budget_def by blast
qed

text \<open>
  The step that matters: with fewer than the budgeted starts still kept, one more start at \<open>now\<close> puts no
  window over budget, because whatever shares a window with it is still kept.
\<close>

lemma key_budget_push:
  assumes "key_budget now b hist kept" "length kept < maxCalls b"
  shows "key_budget now b (hist @ [now]) (kept @ [now])"
proof -
  obtain old where old: "hist = old @ kept" "\<forall>x \<in> set old. x + int (windowMs b) \<le> now"
    using assms(1) unfolding key_budget_def by blast
  have "in_window t (windowMs b) (hist @ [now]) \<le> maxCalls b" for t
  proof (cases "t \<le> now \<and> now < t + int (windowMs b)")
    case True
    then have "filter (\<lambda>x. t \<le> x \<and> x < t + int (windowMs b)) old = []"
      using old(2) by (fastforce simp: filter_empty_conv)
    then have "in_window t (windowMs b) hist \<le> length kept" by (simp add: in_window_def old(1))
    with True assms(2) show ?thesis by (simp add: in_window_def)
  next
    case False
    then show ?thesis using assms(1) by (auto simp: key_budget_def in_window_def)
  qed
  with old assms(2) show ?thesis unfolding key_budget_def by (metis Suc_leI append_assoc length_append_singleton)
qed

lemma kept_at:
  assumes "cc_base c" "(k, s) \<in> set (cc_partitions c)"
  shows "map_of (cc_partitions c) k = Some s" "ps_key (cc_states c s) = k"
  using base_dir [OF assms(1)] assms(2) by (auto simp: dir_ok_def)

lemma map_of_state:
  assumes "cc_base c" "map_of (cc_partitions c) k = Some s"
  shows "ps_key (cc_states c s) = k"
  using kept_at(2) [OF assms(1) map_of_SomeD [OF assms(2)]] .

lemma budget_prune:
  assumes "cc_base c" "budget_inv now c"
  shows "budget_inv now (pruneBudget s now c)"
proof (cases "cc_budget c")
  case (Some b)
  have "kept_for (pruneBudget s now c) k = kept_for c k \<or>
      kept_for (pruneBudget s now c) k = dropWhile (\<lambda>a. a + int (windowMs b) \<le> now) (kept_for c k)" for k
    by (auto simp: kept_for_def pruneBudget_def Some set_state_def split: option.split)
  then show ?thesis
    using assms(2) Some key_budget_prune
    by (simp add: budget_inv_def log_of_def) metis
qed (simp add: pruneBudget_def assms)

lemma budget_push:
  assumes "cc_base c" "budget_inv now c" "(k, s) \<in> set (cc_partitions c)" "budgetRetryAfterMs s now c = None"
    and "cc_budget d = cc_budget c" "cc_partitions d = cc_partitions c" "cc_log d = cc_log c @ [(k, now)]"
    and "cc_budget c \<noteq> None \<Longrightarrow> ps_admittedAt (cc_states d s) = ps_admittedAt (cc_states c s) @ [now]"
    and "\<And>t. t \<noteq> s \<Longrightarrow> ps_admittedAt (cc_states d t) = ps_admittedAt (cc_states c t)"
  shows "budget_inv now d"
proof -
  have "0 < maxCalls b \<and> key_budget now b (log_of d j) (kept_for d j)" if b: "cc_budget c = Some b" for b j
  proof (cases "j = k")
    case True
    have kept: "kept_for c k = ps_admittedAt (cc_states c s)" using kept_at [OF assms(1,3)] by (simp add: kept_for_def)
    have inv: "0 < maxCalls b" "key_budget now b (log_of c k) (kept_for c k)"
      using assms(2) b by (simp_all add: budget_inv_def)
    have "length (kept_for c k) < maxCalls b"
      using assms(4) inv(1) by (auto simp: kept budgetRetryAfterMs_def b split: if_splits list.splits)
    from key_budget_push [OF inv(2) this] show ?thesis
      using inv(1) assms(6-8) b kept kept_at [OF assms(1,3)] True by (simp add: log_of_def kept_for_def)
  next
    case False
    have "map_of (cc_partitions c) j \<noteq> Some s" using map_of_state [OF assms(1)] kept_at [OF assms(1,3)] False by blast
    then have "kept_for d j = kept_for c j" using assms(6,9) by (auto simp: kept_for_def split: option.split)
    then show ?thesis using assms(2,7) b False by (simp add: budget_inv_def log_of_def)
  qed
  then show ?thesis using assms(5) by (simp add: budget_inv_def)
qed

lemma stamps_same [simp]:
  "t \<noteq> s \<Longrightarrow> cc_states (push_admission s now c) t = cc_states c t"
  "cc_budget c \<noteq> None \<Longrightarrow>
     ps_admittedAt (cc_states (push_admission s now c) s) = ps_admittedAt (cc_states c s) @ [now]"
  "cc_budget c \<noteq> None \<Longrightarrow>
     ps_admittedAt (cc_states (snd (cc_admit s now x c)) s) = ps_admittedAt (cc_states c s) @ [now]"
  by (auto simp: push_admission_def cc_admit_def Let_def set_state_def)

lemma budget_admit:
  assumes "cc_base c" "budget_inv now c" "(k, s) \<in> set (cc_partitions c)" "budgetRetryAfterMs s now c = None"
  shows "budget_inv now (snd (cc_admit s now x c))"
  by (rule budget_push [OF assms]) (use kept_at [OF assms(1,3)] in simp_all)

lemma budget_push_admission:
  assumes "cc_base c" "budget_inv now c" "(k, s) \<in> set (cc_partitions c)" "budgetRetryAfterMs s now c = None"
  shows "budget_inv now (push_admission s now c)"
  by (rule budget_push [OF assms]) (use kept_at [OF assms(1,3)] in simp_all)

lemma budget_same:
  assumes "budget_inv T c" "cc_budget d = cc_budget c" "cc_log d = cc_log c" "cc_partitions d = cc_partitions c"
    and "\<And>t. ps_admittedAt (cc_states d t) = ps_admittedAt (cc_states c t)"
  shows "budget_inv T d"
  by (rule budget_frame [OF assms(1) order_refl assms(2,3)]) (use assms(4,5) in \<open>simp add: kept_for_def split: option.split\<close>)

lemma budget_pump_turn:
  assumes "cc_base c" "budget_inv now c" "ps_waiters (cc_states c s) = w # ws"
  shows "budget_inv now (pump_turn now s w (shift_waiter s c))"
proof -
  let ?c = "shift_waiter s c" and ?p = "pruneBudget s now (shift_waiter s c)"
  note f = shift_facts [OF assms(1,3)]
  have c: "budget_inv now ?c" by (rule budget_same [OF assms(2)]) simp_all
  then have p: "budget_inv now ?p" by (rule budget_prune [OF f(1)])
  have settled: "budget_inv now (settle_call x e d)" if "budget_inv now d" for x e d
    by (rule budget_same [OF that]) simp_all
  have counted: "budget_inv now (d\<lparr>cc_rejectedTotal := n\<rparr>)" "budget_inv now (d\<lparr>cc_rateLimitedTotal := n\<rparr>)"
    if "budget_inv now d" for d n
    by (rule budget_same [OF that]; simp)+
  have "budget_inv now (snd (cc_admit s now x ?p))" if "budgetRetryAfterMs s now ?p = None" for x
    using budget_admit [OF base_prune [OF f(1)] p _ that] f(5) by simp
  then show ?thesis
    using c p by (auto simp: pump_turn_def Let_def case_prod_unfold intro!: settled counted split: option.split)
qed

lemma budget_pump:
  assumes "cc_base c" "budget_inv now c"
  shows "budget_inv now (cc_pump now s c)"
proof -
  have "budget_inv now (pump_loop now s n c)" if n: "cc_maxConcurrency c = Some n" for n
  proof -
    let ?P = "\<lambda>d. cc_base d \<and> cc_maxConcurrency d = Some n \<and> budget_inv now d"
    have "?P (pump_loop now s n c)"
      by (rule pump_loop_induct [where P = ?P]) (auto simp: assms n intro: base_pump_turn budget_pump_turn)
    then show ?thesis by blast
  qed
  then show ?thesis using assms by (simp add: cc_pump_def split: option.split)
qed

lemma budget_release:
  assumes "cc_base c" "budget_inv now c"
  shows "budget_inv now (cc_release now pid c)"
proof (cases "map_of (cc_permits c) pid")
  case (Some s)
  show ?thesis
    unfolding cc_release_def Some option.case
    by (rule budget_pump [OF base_give_back [OF assms(1) Some]], rule budget_same [OF assms(2)])
       (simp_all add: set_state_def)
qed (simp add: cc_release_def assms)

text \<open>Dropping an idle partition forgets nothing: it has no timestamp left that a window could still hold.\<close>

lemma budget_maybeDelete:
  assumes "cc_base c" "budget_inv now c" "(key, s) \<in> set (cc_partitions c)"
  shows "budget_inv now (maybeDeletePartition key s now c)"
proof -
  let ?p = "pruneBudget s now c"
  have p: "budget_inv now ?p" by (rule budget_prune [OF assms(1,2)])
  have "budget_inv now (?p\<lparr>cc_partitions := map_delete key (cc_partitions ?p)\<rparr>)"
    if "ps_admittedAt (cc_states ?p s) = []"
    by (rule budget_frame [OF p order_refl]) (use that kept_at [OF assms(1,3)] in \<open>auto simp: kept_for_def split: option.split\<close>)
  with p show ?thesis by (simp add: maybeDeletePartition_def Let_def)
qed

lemma budget_evict:
  assumes "cc_wf c" "budget_inv now c"
  shows "budget_inv now (evictIdlePartitions now c)"
proof -
  let ?P = "\<lambda>d. cc_base d \<and> budget_inv now d"
  have "?P (evictIdlePartitions now c)"
    by (rule evict_induct [where P = ?P])
       (use assms in \<open>auto intro: wf_base wf_distinct base_maybeDelete budget_maybeDelete\<close>)
  then show ?thesis ..
qed

lemma budget_new_partition:
  assumes "cc_base c" "budget_inv T c" "map_of (cc_partitions c) key = None"
  shows "budget_inv T (new_partition key c)"
proof (rule budget_frame [OF assms(2) order_refl])
  fix k
  have "map_of (cc_partitions c) k \<noteq> Some (cc_next c)"
    using base_dir [OF assms(1)] by (auto simp: dir_ok_def dest!: map_of_SomeD)
  then show "kept_for (new_partition key c) k = kept_for c k"
    using assms(3) by (auto simp: kept_for_def new_partition_def fresh_state_def split: option.split)
qed (simp_all add: new_partition_def)

lemma budget_counters [simp]:
  "budget_inv T (c\<lparr>cc_rejectedTotal := n\<rparr>) = budget_inv T c" "budget_inv T (c\<lparr>cc_rateLimitedTotal := n\<rparr>) = budget_inv T c"
  "budget_inv T (c\<lparr>cc_cancelledTotal := n\<rparr>) = budget_inv T c"
  "budget_inv T (count_rejected c) = budget_inv T c" "budget_inv T (count_cancelled c) = budget_inv T c"
  by (simp_all add: budget_inv_def log_of_def kept_for_def count_rejected_def count_cancelled_def cong: option.case_cong)

lemma budget_decide:
  assumes "cc_base c" "budget_inv now c" "(key, s) \<in> set (cc_partitions c)"
  shows "budget_inv now (snd (decide_in key s now c))"
proof -
  let ?c = "pruneBudget s now c"
  have p: "budget_inv now ?c" by (rule budget_prune [OF assms(1,2)])
  have "budget_inv now (enqueue_call key s now ?c)"
    by (rule budget_same [OF p]) (simp_all add: enqueue_call_def set_state_def)
  moreover have "budget_inv now (snd (cc_admit s now 0 ?c))" if "budgetRetryAfterMs s now ?c = None"
    using budget_admit [OF base_prune [OF assms(1)] p _ that] assms(3) by simp
  ultimately show ?thesis
    using p by (auto simp: decide_in_def Let_def case_prod_unfold split: option.split)
qed

lemma budget_acquire:
  assumes "cc_wf c" "budget_inv now c"
  shows "budget_inv now (snd (cc_acquire now input signal signal' c))"
proof -
  let ?e = "evictIdlePartitions now c"
  have e: "cc_wf ?e" "budget_inv now ?e" using assms by (simp_all add: wf_evict budget_evict)
  have found: "budget_inv now (snd (decide_in key s now c))" if "map_of (cc_partitions c) key = Some s" for key s
    using wf_base [OF assms(1)] assms(2) map_of_SomeD [OF that] by (rule budget_decide)
  have made: "budget_inv now (snd (decide_in key (cc_next ?e) now (new_partition key ?e)))"
    if none: "map_of (cc_partitions c) key = None"
      and size: "\<not> cc_maxPartitions ?e \<le> length (cc_partitions ?e)" for key
  proof -
    have n: "map_of (cc_partitions ?e) key = None"
      using none evict_partitions [OF wf_distinct [OF assms(1)], of now] by (auto simp: map_of_eq_None_iff)
    then have "cc_wf (new_partition key ?e)" using wf_new_partition [OF e(1)] size by simp
    moreover have "(key, cc_next ?e) \<in> set (cc_partitions (new_partition key ?e))"
      using map_of_map_set [of key "cc_next ?e" "cc_partitions ?e"] by (simp add: new_partition_def map_of_SomeD)
    ultimately show ?thesis
      using budget_new_partition [OF wf_base [OF e(1)] e(2) n] by (intro budget_decide wf_base)
  qed
  show ?thesis
    using assms(2) e(2) found made by (auto simp: cc_acquire_def Let_def split: option.split key_outcome.split)
qed

lemma budget_charge:
  assumes "cc_wf c" "budget_inv now c"
  shows "budget_inv now (snd (chargeCallBudget now pid signal c))"
proof -
  have "budget_inv now (push_admission s now (pruneBudget s now c))"
    if s: "map_of (cc_permits c) pid = Some s" and r: "budgetRetryAfterMs s now (pruneBudget s now c) = None" for s
  proof -
    have "ps_active (cc_states c s) \<noteq> 0"
      using base_state [OF wf_base [OF assms(1)], of s] map_of_SomeD [OF s]
      by (force simp: state_ok_def Let_def in_flight_def filter_empty_conv)
    then have "(ps_key (cc_states c s), s) \<in> set (cc_partitions c)" using in_use [OF wf_base [OF assms(1)]] by blast
    then show ?thesis
      using budget_push_admission [OF base_prune [OF wf_base [OF assms(1)]]
          budget_prune [OF wf_base [OF assms(1)] assms(2)] _ r] by simp
  qed
  then show ?thesis
    using assms(2) budget_prune [OF wf_base [OF assms(1)] assms(2)]
    by (auto simp: chargeCallBudget_def Let_def split: option.split)
qed

lemma budget_removed:
  assumes "cc_wf c" "budget_inv now c" "cc_fibers c w = Some (key, s)" "removeWaiter s w c = (True, d)"
  shows "budget_inv now (maybeDeletePartition key s now (count_rejected d))"
    "budget_inv now (maybeDeletePartition key s now (count_cancelled d))"
proof -
  have d: "budget_inv now d"
    by (rule budget_same [OF assms(2)]) (use assms(4) in \<open>auto simp: removeWaiter_def set_state_def\<close>)
  have m: "(key, s) \<in> set (cc_partitions d)" "cc_wf d"
    using wf_removed [OF assms(1,4)] fiber_key [OF assms(1,3)] by simp_all
  show "budget_inv now (maybeDeletePartition key s now (count_rejected d))"
    "budget_inv now (maybeDeletePartition key s now (count_cancelled d))"
    using d m by (auto intro!: budget_maybeDelete wf_base)
qed

lemma budget_close:
  assumes "cc_wf c" "budget_inv T c"
  shows "budget_inv T (cc_close c)"
  using assms(2) by (auto simp: cc_close_def fold_close_states intro!: budget_same [OF assms(2)])

text \<open>The invariant of the controller at the time of its latest turn.\<close>

definition cc_inv :: "int \<times> call_controller \<Rightarrow> bool" where
  "cc_inv tc \<longleftrightarrow> cc_wf (snd tc) \<and> budget_inv (fst tc) (snd tc)"

lemma whole_field_least:
  assumes "whole_field m v = Inr n"
  shows "m \<le> n"
proof (cases v)
  case (Finite q)
  with assms have "of_nat m \<le> q" "n = nat \<lfloor>q\<rfloor>" by (auto simp: whole_field_def split: if_splits)
  then have "int m \<le> \<lfloor>q\<rfloor>" by (simp add: le_floor_iff)
  with \<open>n = nat \<lfloor>q\<rfloor>\<close> show ?thesis by simp
qed (use assms in \<open>simp add: whole_field_def\<close>)

lemma optional_field_Some:
  "optional_field f v = Inr (Some y) \<Longrightarrow> \<exists>x. v = Some x \<and> f x = Inr y"
  by (auto simp: optional_field_def bind_sum_Inr split: option.splits)

lemma parse_rule_bounds:
  assumes "parse_rule r = Inr rule"
  shows "rule_maxConcurrency rule \<noteq> Some 0" "rule_budget rule = Some b \<Longrightarrow> 0 < maxCalls b"
proof -
  have c: "optional_field (whole_field 1) (ri_maxConcurrency r) = Inr (rule_maxConcurrency rule)"
    and b: "optional_field parse_budget (ri_budget r) = Inr (rule_budget rule)"
    using assms by (auto simp: parse_rule_def bind_sum_Inr)
  show "rule_maxConcurrency rule \<noteq> Some 0"
  proof
    assume "rule_maxConcurrency rule = Some 0"
    then show False using optional_field_Some c by (fastforce dest: whole_field_least)
  qed
  assume "rule_budget rule = Some b"
  then obtain x where "parse_budget x = Inr b" using optional_field_Some b by fastforce
  then have "\<exists>v. whole_field 1 v = Inr (maxCalls b)"
    by (auto simp: parse_budget_def bind_sum_Inr required_field_def split: if_splits option.splits)
  then show "0 < maxCalls b" by (auto dest: whole_field_least)
qed

lemma new_call_controller_rule:
  assumes "new_call_controller cid p = Inr c"
  obtains r rule where "parse_rule r = Inr rule" "cc_maxConcurrency c = rule_maxConcurrency rule"
    "cc_budget c = rule_budget rule"
proof -
  obtain policy where pol: "parse_policy p = Inr policy" "cc_maxConcurrency c = rule_maxConcurrency (hd (policy_rules policy))"
      "cc_budget c = rule_budget (hd (policy_rules policy))"
    using assms by (auto simp: new_call_controller_def bind_sum_Inr Let_def)
  then obtain rs rule where rs: "parse_rules rs = Inr (policy_rules policy)" "single_rule (policy_rules policy) = Inr rule"
    by (auto simp: parse_policy_def bind_sum_Inr required_field_def split: option.splits)
  from rs(2) obtain rule' where one: "policy_rules policy = [rule']"
    by (cases "policy_rules policy" rule: single_rule.cases) auto
  from rs(1) obtain r where "parse_rule r = Inr rule'"
    unfolding one by (cases rs) (auto simp: bind_sum_Inr)
  with pol one that show thesis by simp
qed

lemma cc_inv_init:
  assumes "cc_init tc"
  shows "cc_inv tc"
proof -
  obtain T c where tc: "tc = (T, c)" by (cases tc)
  obtain cid p where n: "new_call_controller cid p = Inr c" using assms tc by (auto simp: cc_init_def)
  then obtain r rule where r: "parse_rule r = Inr rule" "cc_maxConcurrency c = rule_maxConcurrency rule"
    "cc_budget c = rule_budget rule" by (rule new_call_controller_rule)
  have fresh: "cc_partitions c = []" "cc_permits c = []" "cc_fibers c = Map.empty"
    "cc_outcomes c = Map.empty" "cc_log c = []" "cc_states c = (\<lambda>_. fresh_state [])"
    using n by (auto simp: new_call_controller_def bind_sum_Inr Let_def)
  have "cc_wf c"
    using parse_rule_bounds(1) [OF r(1)]
    by (simp add: cc_wf_def wake_ok_def base_defs fresh r(2) fresh_state_def)
  moreover have "budget_inv T c"
    using parse_rule_bounds(2) [OF r(1)]
    by (simp add: budget_inv_def key_budget_def in_window_def log_of_def kept_for_def fresh r(3))
  ultimately show ?thesis by (simp add: cc_inv_def tc)
qed

lemma budget_time: "budget_inv T c \<Longrightarrow> T \<le> T' \<Longrightarrow> budget_inv T' c"
  by (rule budget_frame) simp_all

lemma cc_inv_step:
  assumes "cc_inv tc" "cc_step tc td"
  shows "cc_inv td"
  using assms(2,1)
proof (induction rule: cc_step.induct)
  case (give_up T now c w key s abort)
  then have i: "cc_wf c" "budget_inv now c" by (auto simp: cc_inv_def intro: budget_time)
  show ?case
  proof (cases "removeWaiter s w c")
    case (Pair gone d)
    then show ?thesis
      using i wf_giveUp [OF i(1) give_up.hyps(2), of now abort] budget_removed [OF i give_up.hyps(2), of d]
      by (cases gone; cases abort) (auto simp: cc_inv_def giveUp_def)
  qed
next
  case (interrupted T now c w key s)
  then have i: "cc_wf c" "budget_inv now c" by (auto simp: cc_inv_def intro: budget_time)
  show ?case
  proof (cases "removeWaiter s w c")
    case (Pair gone d)
    then show ?thesis
      using i wf_cleanup [OF i(1) interrupted.hyps(2), of now] budget_removed [OF i interrupted.hyps(2), of d]
        budget_release [OF wf_base [OF i(1)] i(2)]
      by (cases gone) (auto simp: cc_inv_def cleanupWaiter_def split: option.splits sum.splits)
  qed
next
  case (closing T now c)
  then have "cc_wf c" "budget_inv now c" by (auto simp: cc_inv_def intro: budget_time)
  then show ?case by (simp add: cc_inv_def wf_close budget_close)
qed (auto simp: cc_inv_def cc_received_def isIdle_def Let_def dest: budget_time
      intro: wf_acquire budget_acquire wf_release budget_release wf_charge budget_charge wf_evict budget_evict wf_base)

section \<open>Answers and shutdown\<close>

lemma settle_le: "cc_outcomes c \<subseteq>\<^sub>m cc_outcomes (settle_call w e c)"
  by (auto simp: map_le_def settle_call_def)

lemma pump_turn_le: "cc_outcomes c \<subseteq>\<^sub>m cc_outcomes (pump_turn now s w c)"
  by (auto simp: pump_turn_def Let_def case_prod_unfold map_le_def settle_call_def split: option.split)

lemma pump_le: "cc_outcomes c \<subseteq>\<^sub>m cc_outcomes (cc_pump now s c)"
proof -
  have "cc_outcomes c \<subseteq>\<^sub>m cc_outcomes (pump_loop now s n c)" for n
    by (rule pump_loop_induct [where P = "\<lambda>e. cc_outcomes c \<subseteq>\<^sub>m cc_outcomes e"])
       (auto intro: pump_turn_le [THEN map_le_trans [rotated]])
  then show ?thesis by (simp add: cc_pump_def split: option.split)
qed

lemma release_le: "cc_outcomes c \<subseteq>\<^sub>m cc_outcomes (cc_release now pid c)"
proof (cases "map_of (cc_permits c) pid")
  case (Some s)
  show ?thesis
    unfolding cc_release_def Some option.case
    by (rule map_le_trans [OF _ pump_le]) (simp add: set_state_def)
qed (simp add: cc_release_def)

lemma close_le: "cc_outcomes c \<subseteq>\<^sub>m cc_outcomes (cc_close c)"
proof -
  have "cc_outcomes d \<subseteq>\<^sub>m cc_outcomes (fold (\<lambda>(key, s). close_partition s) xs d)" for xs d
  proof (induction xs arbitrary: d)
    case (Cons x xs)
    have "cc_outcomes d \<subseteq>\<^sub>m cc_outcomes (close_partition (snd x) d)"
      by (auto simp: map_le_def close_partition_def fold_settle_outcomes set_state_def)
    with Cons.IH [of "close_partition (snd x) d"] show ?case by (auto simp: case_prod_unfold intro: map_le_trans)
  qed simp
  from this [of "c\<lparr>cc_closed := True\<rparr>" "cc_partitions c"] show ?thesis by (simp add: cc_close_def)
qed

lemma evict_same [simp]:
  assumes "distinct (map fst (cc_partitions c))"
  shows "cc_outcomes (evictIdlePartitions now c) = cc_outcomes c" "cc_permits (evictIdlePartitions now c) = cc_permits c"
    "ps_waiters (cc_states (evictIdlePartitions now c) s) = ps_waiters (cc_states c s)"
proof -
  let ?same = "\<lambda>d. cc_outcomes d = cc_outcomes c \<and> cc_permits d = cc_permits c \<and>
    ps_waiters (cc_states d s) = ps_waiters (cc_states c s)"
  have "?same (evictIdlePartitions now c)" by (rule evict_induct [where P = ?same, OF _ assms]) simp_all
  then show "cc_outcomes (evictIdlePartitions now c) = cc_outcomes c" "cc_permits (evictIdlePartitions now c) = cc_permits c"
    "ps_waiters (cc_states (evictIdlePartitions now c) s) = ps_waiters (cc_states c s)" by blast+
qed

lemma counted_same [simp]:
  "cc_outcomes (count_rejected c) = cc_outcomes c" "cc_outcomes (count_cancelled c) = cc_outcomes c"
  "cc_permits (count_rejected c) = cc_permits c" "cc_permits (count_cancelled c) = cc_permits c"
  "cc_closed (count_rejected c) = cc_closed c" "cc_closed (count_cancelled c) = cc_closed c"
  by (simp_all add: count_rejected_def count_cancelled_def)

lemma decide_outcomes [simp]: "cc_outcomes (snd (decide_in key s now c)) = cc_outcomes c"
  by (simp add: decide_in_def Let_def case_prod_unfold enqueue_call_def set_state_def split: option.split)

lemma removed_same:
  assumes "removeWaiter s w c = (g, d)"
  shows "cc_outcomes d = cc_outcomes c" "cc_permits d = cc_permits c" "cc_closed d = cc_closed c"
  using assms by (auto simp: removeWaiter_def set_state_def)

lemma cc_step_answers:
  assumes "cc_step tc td" "cc_wf (snd tc)"
  shows "cc_outcomes (snd tc) \<subseteq>\<^sub>m cc_outcomes (snd td)"
  using assms
proof (induction rule: cc_step.induct)
  case (give_up T now c w key s abort)
  show ?case
    by (cases "removeWaiter s w c") (auto simp: giveUp_def removed_same split: bool.split option.split)
next
  case (interrupted T now c w key s)
  show ?case
    by (cases "removeWaiter s w c")
       (auto simp: cleanupWaiter_def removed_same release_le split: bool.split option.split sum.split)
qed (auto simp: cc_acquire_def chargeCallBudget_def cc_received_def isIdle_def Let_def new_partition_def
      release_le close_le wf_distinct split: option.split key_outcome.split)

text \<open>A closed controller stays closed and hands out no permit.\<close>

lemma closed_release:
  assumes "cc_closed c"
  shows "cc_closed (cc_release now pid c)" "set (cc_permits (cc_release now pid c)) \<subseteq> set (cc_permits c)"
  using assms by (auto simp: cc_release_def cc_pump_def set_state_def split: option.split)

lemma cc_step_closed:
  assumes "cc_step tc td" "cc_wf (snd tc)" "cc_closed (snd tc)"
  shows "cc_closed (snd td) \<and> set (cc_permits (snd td)) \<subseteq> set (cc_permits (snd tc))"
  using assms
proof (induction rule: cc_step.induct)
  case (give_up T now c w key s abort)
  then show ?case
    by (cases "removeWaiter s w c") (auto simp: giveUp_def removed_same split: bool.split option.split)
next
  case (interrupted T now c w key s)
  then show ?case
    using closed_release [of c]
    by (cases "removeWaiter s w c")
       (auto simp: cleanupWaiter_def removed_same split: bool.split option.split sum.split)
qed (auto simp: cc_acquire_def chargeCallBudget_def cc_received_def isIdle_def cc_close_def Let_def
      closed_release wf_distinct dest: closed_release(2) [THEN subsetD])

section \<open>The interfaces it provides\<close>

text \<open>
  The unreleased permits and the queue of one partition key. Permits are counted wherever their state object
  is, so a partition dropped and made again would show.
\<close>

definition active_for :: "jstr \<Rightarrow> call_controller \<Rightarrow> nat" where
  "active_for k c = length (filter (\<lambda>e. ps_key (cc_states c (snd e)) = k) (cc_permits c))"

definition queued_for :: "jstr \<Rightarrow> call_controller \<Rightarrow> nat" where
  "queued_for k c = (case map_of (cc_partitions c) k of None \<Rightarrow> 0 | Some s \<Rightarrow> length (ps_waiters (cc_states c s)))"

lemma permit_state:
  assumes "cc_base c" "e \<in> set (cc_permits c)"
  shows "(ps_key (cc_states c (snd e)), snd e) \<in> set (cc_partitions c)"
proof (rule in_use [OF assms(1)])
  show "ps_waiters (cc_states c (snd e)) \<noteq> [] \<or> ps_active (cc_states c (snd e)) \<noteq> 0"
    using base_state [OF assms(1), of "snd e"] assms(2)
    by (auto simp: state_ok_def Let_def in_flight_def filter_empty_conv)
qed

lemma active_for_state:
  assumes "cc_base c"
  shows "active_for k c = (case map_of (cc_partitions c) k of None \<Rightarrow> 0 | Some s \<Rightarrow> ps_active (cc_states c s))"
proof (cases "map_of (cc_partitions c) k")
  case None
  have "ps_key (cc_states c (snd e)) \<noteq> k" if "e \<in> set (cc_permits c)" for e
    using kept_at(1) [OF assms permit_state [OF assms that]] None by auto
  then have "filter (\<lambda>e. ps_key (cc_states c (snd e)) = k) (cc_permits c) = []" by (simp add: filter_empty_conv)
  with None show ?thesis by (simp add: active_for_def)
next
  case (Some s)
  have "ps_key (cc_states c (snd e)) = k \<longleftrightarrow> snd e = s" if "e \<in> set (cc_permits c)" for e
    using kept_at(1) [OF assms permit_state [OF assms that]] map_of_state [OF assms Some] Some
    by (metis option.inject)
  then have "active_for k c = in_flight c s" by (simp add: active_for_def in_flight_def cong: filter_cong)
  with Some base_state [OF assms, of s] show ?thesis by (simp add: state_ok_def Let_def)
qed

lemma sum_in_flight:
  "distinct (map snd xs) \<Longrightarrow>
     sum_list (map (\<lambda>e. in_flight c (snd e)) xs) = length (filter (\<lambda>p. snd p \<in> snd ` set xs) (cc_permits c))"
proof (induction xs)
  case (Cons x xs)
  have "length (filter (\<lambda>p. snd p = snd x \<or> snd p \<in> snd ` set xs) ps) =
      length (filter (\<lambda>p. snd p = snd x) ps) + length (filter (\<lambda>p. snd p \<in> snd ` set xs) ps)" for ps :: "(nat \<times> nat) list"
    using Cons.prems by (induction ps) auto
  with Cons show ?case by (simp add: in_flight_def)
qed simp

lemma partitions_hold_permits:
  assumes "cc_base c"
  shows "sum_list (map (\<lambda>e. ps_active (cc_states c (snd e))) (cc_partitions c)) = length (cc_permits c)"
proof -
  have "inj_on snd (set (cc_partitions c))"
  proof (rule inj_onI, clarify)
    fix k s k' t
    assume "(k, s) \<in> set (cc_partitions c)" "(k', t) \<in> set (cc_partitions c)" "snd (k, s) = snd (k', t)"
    then show "k = k' \<and> s = t" using kept_at(2) [OF assms] by (metis snd_conv)
  qed
  moreover have "distinct (cc_partitions c)" using base_dir [OF assms] by (auto simp: dir_ok_def distinct_map)
  ultimately have "distinct (map snd (cc_partitions c))" by (simp add: distinct_map)
  from sum_in_flight [OF this, of c]
  have "sum_list (map (\<lambda>e. in_flight c (snd e)) (cc_partitions c)) =
      length (filter (\<lambda>p. snd p \<in> snd ` set (cc_partitions c)) (cc_permits c))" .
  also have "filter (\<lambda>p. snd p \<in> snd ` set (cc_partitions c)) (cc_permits c) = cc_permits c"
    using permit_state [OF assms] by (force simp: filter_id_conv)
  finally show ?thesis using base_state [OF assms] by (simp add: state_ok_def Let_def)
qed

lemma state_bounds:
  assumes "cc_base c"
  shows "cc_maxConcurrency c = Some n \<Longrightarrow> ps_active (cc_states c s) \<le> n"
    "length (ps_waiters (cc_states c s)) \<le> cc_maxQueueSize c"
    "cc_closed c \<Longrightarrow> ps_waiters (cc_states c s) = []"
  using base_state [OF assms, of s] unfolding state_ok_def Let_def by blast+

lemma cc_inv_base: "cc_inv tc \<Longrightarrow> cc_base (snd tc)"
  by (simp add: cc_inv_def cc_wf_def)

lemma cc_inv_active: "cc_inv tc \<Longrightarrow> cc_maxConcurrency (snd tc) = Some n \<Longrightarrow> active_for k (snd tc) \<le> n"
  by (auto simp: active_for_state cc_inv_base state_bounds(1) split: option.split)

lemma cc_inv_queued: "cc_inv tc \<Longrightarrow> queued_for k (snd tc) \<le> cc_maxQueueSize (snd tc)"
  by (auto simp: queued_for_def cc_inv_base state_bounds(2) split: option.split)

lemma cc_inv_closed_queue: "cc_inv tc \<Longrightarrow> cc_closed (snd tc) \<Longrightarrow> queued_for k (snd tc) = 0"
  by (auto simp: queued_for_def cc_inv_base state_bounds(3) split: option.split)

interpretation call_pool: slot_pool cc_init cc_step cc_inv
  "\<lambda>tc. active_for k (snd tc)" "\<lambda>tc. queued_for k (snd tc)" "\<lambda>tc. cc_maxConcurrency (snd tc)"
  "\<lambda>tc. cc_maxQueueSize (snd tc)" for k
  by unfold_locales (fact cc_inv_init cc_inv_step cc_inv_active cc_inv_queued)+

interpretation call_shutdown: shutdown_pool cc_init cc_step cc_inv
  "\<lambda>tc. active_for k (snd tc)" "\<lambda>tc. queued_for k (snd tc)" "\<lambda>tc. cc_maxConcurrency (snd tc)"
  "\<lambda>tc. cc_maxQueueSize (snd tc)" "\<lambda>tc. cc_closed (snd tc)" "\<lambda>tc. set (cc_permits (snd tc))" for k
  by unfold_locales (auto simp: cc_inv_closed_queue dest: cc_step_closed simp: cc_inv_def)

text \<open>A concrete run: one slot, two starts in any ten milliseconds, one call in flight and one waiting.\<close>

definition demo_policy :: policy_input where
  "demo_policy = \<lparr>pi_maxPartitions = None, pi_rules = Some [\<lparr>ri_maxConcurrency = Some (Finite 1),
     ri_maxQueueSize = Some (Finite 1), ri_queueTimeoutMs = None, ri_retryAfterMs = None, ri_partitionKey = None,
     ri_budget = Some \<lparr>bi_kind = Str (lit ''rolling-window''), bi_maxCalls = Some (Finite 2),
       bi_windowMs = Some (Finite 10)\<rparr>\<rparr>]\<rparr>"

definition demo_call :: call_input where
  "demo_call = \<lparr>ci_toolName = lit ''search'', ci_args = J_Null\<rparr>"

definition demo_admission :: call_controller where
  "demo_admission = (case new_call_controller (lit ''github'') demo_policy of Inr c \<Rightarrow> c | Inl _ \<Rightarrow> undefined)"

definition demo_one :: call_controller where
  "demo_one = snd (cc_acquire 0 demo_call None None demo_admission)"

definition demo_two :: call_controller where
  "demo_two = snd (cc_acquire 1 demo_call None None demo_one)"

lemmas demo_admission_eval = demo_admission_def demo_policy_def new_call_controller_def parse_policy_def
  parse_rule_def optional_field_def required_field_def parse_budget_def whole_field_def Let_def

lemma demo_admission_init: "cc_init (0, demo_admission)"
  unfolding cc_init_def
  by (rule exI [of _ "lit ''github''"], rule exI [of _ demo_policy]) (simp add: demo_admission_eval)

lemma demo_admission_fields [simp]:
  "cc_partitions demo_admission = []" "cc_closed demo_admission = False" "cc_partitionKey demo_admission = None"
  "cc_maxConcurrency demo_admission = Some 1" "cc_maxQueueSize demo_admission = 1"
  "cc_budget demo_admission = Some \<lparr>maxCalls = 2, windowMs = 10\<rparr>" "cc_next demo_admission = 0"
  "cc_maxPartitions demo_admission = 1024" "cc_permits demo_admission = []" "cc_outcomes demo_admission = Map.empty"
  by (simp_all add: demo_admission_eval)

lemmas demo_step_eval = cc_acquire_def partition_key_def evictIdlePartitions_def new_partition_def decide_in_def
  cc_admit_def push_admission_def pruneBudget_def set_state_def budgetRetryAfterMs_def enqueue_call_def
  fresh_state_def Let_def

lemma demo_one_fields [simp]:
  "cc_partitions demo_one = [([], 0)]" "cc_closed demo_one = False" "cc_partitionKey demo_one = None"
  "cc_maxConcurrency demo_one = Some 1" "cc_maxQueueSize demo_one = 1"
  "cc_budget demo_one = Some \<lparr>maxCalls = 2, windowMs = 10\<rparr>" "cc_next demo_one = 2"
  "cc_permits demo_one = [(1, 0)]" "cc_outcomes demo_one = Map.empty"
  "cc_states demo_one 0 = \<lparr>ps_active = 1, ps_waiters = [], ps_admittedAt = [0], ps_key = []\<rparr>"
  by (simp_all add: demo_one_def demo_step_eval)

lemma demo_two_fields [simp]:
  "cc_partitions demo_two = [([], 0)]" "cc_closed demo_two = False"
  "cc_maxConcurrency demo_two = Some 1" "cc_maxQueueSize demo_two = 1"
  "cc_budget demo_two = Some \<lparr>maxCalls = 2, windowMs = 10\<rparr>"
  "cc_permits demo_two = [(1, 0)]" "cc_outcomes demo_two = Map.empty"
  "cc_states demo_two 0 =
     \<lparr>ps_active = 1, ps_waiters = [\<lparr>cw_id = 2, cw_queuedAt = 1\<rparr>], ps_admittedAt = [0], ps_key = []\<rparr>"
  by (simp_all add: demo_two_def demo_step_eval)

lemma demo_one_reachable: "reachable cc_init cc_step (0, demo_one)"
  unfolding demo_one_def by (rule reachable.step, rule reachable.start, rule demo_admission_init) (rule cc_step.acquire, simp)

lemma demo_two_reachable: "reachable cc_init cc_step (1, demo_two)"
  unfolding demo_two_def by (rule reachable.step [OF demo_one_reachable]) (rule cc_step.acquire, simp)

lemma demo_closed_calls: "reachable cc_init cc_step (1, cc_close demo_two)" "cc_closed (cc_close demo_two)"
  by (rule reachable.step [OF demo_two_reachable], rule cc_step.closing, simp)
     (simp add: cc_close_def close_partition_def set_state_def)

section \<open>Properties\<close>

text \<open>
  C16. Whatever the sequence of turns, the calls in flight for one partition key (the permits issued and not
  yet released, counted also over partitions that were dropped and made again) never exceed
  \<^verbatim>\<open>maxConcurrency\<close>, its queue never exceeds \<^verbatim>\<open>maxQueueSize\<close>, nobody
  waits beside a free slot, and the controller keeps at most \<^verbatim>\<open>maxPartitions\<close> partitions.
\<close>

theorem call_capacity:
  assumes "reachable cc_init cc_step (T, c)"
  shows "(\<forall>n. cc_maxConcurrency c = Some n \<longrightarrow>
      active_for k c \<le> n \<and> (queued_for k c \<noteq> 0 \<longrightarrow> active_for k c = n)) \<and>
    queued_for k c \<le> cc_maxQueueSize c \<and> length (cc_partitions c) \<le> cc_maxPartitions c"
proof -
  have wf: "cc_wf c" using call_pool.reachable_invar [OF assms] by (simp add: cc_inv_def)
  have "n \<le> active_for k c" if "cc_maxConcurrency c = Some n" "queued_for k c \<noteq> 0" for n
    using that wf by (auto simp: queued_for_def active_for_state [OF wf_base] cc_wf_def wake_ok_def split: option.splits)
  then show ?thesis
    using call_pool.never_over_capacity [OF assms, of k] base_dir [OF wf_base [OF wf]]
    by (auto simp: dir_ok_def intro: le_antisym)
qed

theorem call_capacity_witness: "queued_for [] demo_two \<noteq> 0 \<and> active_for [] demo_two = 1"
proof -
  have "queued_for [] demo_two \<noteq> 0" by (simp add: queued_for_def)
  then show ?thesis using call_capacity [OF demo_two_reachable, of "[]"] by simp
qed

text \<open>
  C15. The rolling budget is exact: in every reachable state, for every partition key, no half-open window of
  \<^verbatim>\<open>windowMs\<close> milliseconds contains more than \<^verbatim>\<open>maxCalls\<close> admitted call
  starts, whether admitted at once, from the queue or charged to a held permit, and whatever partitions were
  evicted in between.
\<close>

theorem call_budget_window:
  assumes "reachable cc_init cc_step (T, c)" and "cc_budget c = Some b"
  shows "in_window t (windowMs b) (log_of c k) \<le> maxCalls b"
  using call_pool.reachable_invar [OF assms(1)] assms(2) by (simp add: cc_inv_def budget_inv_def key_budget_def)

theorem call_budget_window_witness: "in_window (-3) 10 (log_of demo_two []) \<le> 2"
  using call_budget_window [OF demo_two_reachable, of "\<lparr>maxCalls = 2, windowMs = 10\<rparr>" "-3" "[]"] by simp

text \<open>
  C37. The wait a budget refusal names is exact: it is positive, and if nothing more is admitted to the
  partition meanwhile, a call is still over budget at every earlier time and within it from then on.
\<close>

theorem budget_retry_exact:
  assumes "reachable cc_init cc_step (T, c)" "T \<le> now" "map_of (cc_partitions c) k = Some s"
    and "budgetRetryAfterMs s now (pruneBudget s now c) = Some ms" "now \<le> later"
  shows "0 < ms \<and>
    (budgetRetryAfterMs s later (pruneBudget s later (pruneBudget s now c)) = None \<longleftrightarrow> now + ms \<le> later)"
proof -
  let ?p = "pruneBudget s now c"
  have i: "cc_wf c" "budget_inv now c"
    using call_pool.reachable_invar [OF assms(1)] assms(2) by (auto simp: cc_inv_def intro: budget_time)
  obtain b where b: "cc_budget c = Some b" using assms(4) by (auto simp: budgetRetryAfterMs_def split: option.splits)
  let ?gone = "\<lambda>u a. a + int (windowMs b) \<le> u"
  let ?kept = "dropWhile (?gone now) (ps_admittedAt (cc_states c s))"
  have kept: "ps_admittedAt (cc_states ?p s) = ?kept" by (simp add: pruneBudget_def b set_state_def)
  have "length ?kept \<le> maxCalls b"
  proof -
    have "key_budget now b (log_of ?p k) (kept_for ?p k)"
      using budget_prune [OF wf_base [OF i(1)] i(2), of s] b by (simp add: budget_inv_def)
    then show ?thesis using assms(3) kept by (simp add: key_budget_def kept_for_def)
  qed
  moreover obtain a rest where a: "?kept = a # rest" "maxCalls b \<le> Suc (length rest)" "ms = max 0 (a + int (windowMs b) - now)"
    using assms(4) by (auto simp: budgetRetryAfterMs_def b kept split: if_splits list.splits)
  moreover have "\<not> ?gone now a" using hd_dropWhile [of "?gone now" "ps_admittedAt (cc_states c s)"] a(1) by simp
  moreover have "ps_admittedAt (cc_states (pruneBudget s later ?p) s) = dropWhile (?gone later) (a # rest)"
    unfolding pruneBudget_def [of s later] using kept a(1) b by (simp add: set_state_def)
  moreover have "length (dropWhile (?gone later) rest) \<le> length rest" by (rule length_dropWhile_le)
  ultimately show ?thesis by (auto simp: budgetRetryAfterMs_def b)
qed

theorem budget_retry_exact_witness:
  "budgetRetryAfterMs 0 10 (pruneBudget 0 10 (pruneBudget 0 6 (snd (chargeCallBudget 5 1 None demo_one)))) = None"
proof -
  let ?c = "snd (chargeCallBudget 5 1 None demo_one)"
  have r: "reachable cc_init cc_step (5, ?c)"
    by (rule reachable.step [OF demo_one_reachable]) (rule cc_step.charge, simp)
  have "map_of (cc_partitions ?c) [] = Some 0" "budgetRetryAfterMs 0 6 (pruneBudget 0 6 ?c) = Some 4"
    by (simp_all add: chargeCallBudget_def demo_step_eval)
  from budget_retry_exact [OF r _ this, of 10] show ?thesis by simp
qed

text \<open>
  C36. Shutdown is final: after \<^verbatim>\<open>close()\<close>, every later sequence of turns keeps the
  controller closed, every queue empty and every live permit one that was live before; a new call and a charge
  to a held permit are refused, and a grant heard late is given back.
\<close>

theorem call_shutdown_final:
  assumes "reachable cc_init cc_step tc" "cc_closed (snd tc)" "reachable (\<lambda>x. x = tc) cc_step td"
  shows "cc_closed (snd td) \<and> set (cc_permits (snd td)) \<subseteq> set (cc_permits (snd tc)) \<and> queued_for k (snd td) = 0 \<and>
    fst (cc_acquire now input signal signal' (snd td)) = Denied (closed_refusal (snd td)) \<and>
    fst (chargeCallBudget now pid signal (snd td)) = Some (closed_refusal (snd td)) \<and>
    fst (cc_received now permit (snd td)) = Inl (closed_refusal (snd td)) \<and>
    map_of (cc_permits (snd (cc_received now permit (snd td)))) (permit_id permit) = None"
  using call_shutdown.shutdown_final [OF assms, of k]
  by (auto simp: cc_acquire_def chargeCallBudget_def cc_received_def cc_release_def cc_pump_def set_state_def
      split: option.split)

theorem call_shutdown_final_witness:
  "fst (cc_acquire 7 demo_call None None (cc_close demo_two)) = Denied (closed_refusal (cc_close demo_two))"
  using call_shutdown_final [OF demo_closed_calls(1), of "(1, cc_close demo_two)" "[]" 7 demo_call None None]
    demo_closed_calls(2) by (simp add: reachable.start)

text \<open>
  The snapshot's gauges are exact: in every reachable state \<^verbatim>\<open>active\<close> is the number of
  permits issued and not yet released, and a controller whose \<^verbatim>\<open>isIdle()\<close> answers true has
  none of them and nobody waiting.
\<close>

lemma call_snapshot_exact:
  assumes "reachable cc_init cc_step (T, c)" "T \<le> now"
  shows "cs_active (cc_snapshot c) = length (cc_permits c) \<and>
    (fst (isIdle now c) \<longrightarrow> cc_permits c = [] \<and> cs_queued (cc_snapshot c) = 0)"
proof -
  let ?e = "evictIdlePartitions now c"
  have wf: "cc_wf c" using call_pool.reachable_invar [OF assms(1)] by (simp add: cc_inv_def)
  note same = evict_same [OF wf_distinct [OF wf], of now]
  have "cs_active (cc_snapshot c) = length (cc_permits c)" using partitions_hold_permits [OF wf_base [OF wf]]
    by (simp add: cc_snapshot_def)
  moreover have "cc_permits c = [] \<and> cs_queued (cc_snapshot c) = 0" if "cc_partitions ?e = []"
  proof -
    have e: "cc_base ?e" using wf by (simp add: wf_evict wf_base)
    have "cc_permits c = []" using permit_state [OF e] that same(2) by (cases "cc_permits c") auto
    moreover have "ps_waiters (cc_states c s) = []" for s
      using in_use [OF e, of s] that same(3) [of s] by auto
    ultimately show ?thesis by (simp add: cc_snapshot_def)
  qed
  ultimately show ?thesis by (simp add: isIdle_def Let_def)
qed

end
