(* ===== verification/Storage_Keys.thy ===== *)
theory Storage_Keys
  imports Connecta_Prelude
begin

text \<open>
  Every key the program stores: the scopes, the key families and the builders of
  \<^verbatim>\<open>src/storage/keys.ts\<close>. All subsystems share one key-value store, so what has to hold is
  that no two families, and no two owners, ever use one physical key.
\<close>

section \<open>Families\<close>

datatype key_scope = Root_Scope | Partition_Scope | Connector_Scope

datatype version_place = In_Key | In_Value | Untagged

datatype codec = Text_Codec | Json_Codec

datatype key_ttl = Durable | Fixed nat | Configured jstr

record key_family =
  kf_name :: jstr
  kf_scope :: key_scope
  kf_prefixes :: "jstr list"
  kf_version :: nat
  kf_tagged :: version_place
  kf_codec :: codec
  kf_ttl :: key_ttl
  kf_durable :: bool

datatype key_error = Nul_In_Key

text \<open>A key with U+0000 is refused.\<close>

definition validateStorageKey :: "jstr \<Rightarrow> key_error + jstr" where
  "validateStorageKey key = (if has_unit key 0 then Inl Nul_In_Key else Inr key)"

text \<open>A template string, validated.\<close>

definition keyed :: "jstr list \<Rightarrow> key_error + jstr" where
  "keyed parts = validateStorageKey (concat parts)"

section \<open>Scopes\<close>

definition scopes_principal :: "jstr \<Rightarrow> key_error + jstr" where
  "scopes_principal principalKey = keyed [lit ''principal:'', principalKey, lit '':'']"

definition scopes_connector :: "jstr \<Rightarrow> key_error + jstr" where
  "scopes_connector connectorId = keyed [lit ''conn:'', connectorId, lit '':'']"

definition scopes_results :: jstr where
  "scopes_results = lit ''results:''"

definition scopes_subject :: "jstr \<Rightarrow> key_error + jstr" where
  "scopes_subject subjectKey = keyed [lit ''subject:'', subjectKey, lit '':'']"

section \<open>The families and their builders\<close>

text \<open>\<^verbatim>\<open>resultKeys\<close>: a stashed result's chunks.\<close>

definition resultKeys_family :: key_family where
  "resultKeys_family = \<lparr>kf_name = lit ''result'', kf_scope = Partition_Scope,
     kf_prefixes = [lit ''result:''],
     kf_version = 4, kf_tagged = In_Value, kf_codec = Text_Codec, kf_ttl = Fixed 900, kf_durable = False\<rparr>"

definition resultKeys_chunk :: "jstr \<Rightarrow> nat \<Rightarrow> key_error + jstr" where
  "resultKeys_chunk rid index = (if index = 0 then keyed [lit ''result:'', rid] else keyed [lit ''result:'', rid, lit ''#'', decimal index])"

text \<open>\<^verbatim>\<open>operatorViewerKeys\<close>: the key of operator viewer partitions.\<close>

definition operatorViewerKeys_family :: key_family where
  "operatorViewerKeys_family = \<lparr>kf_name = lit ''operator-viewer-key'', kf_scope = Root_Scope,
     kf_prefixes = [lit ''operator-viewer:v1:''],
     kf_version = 1, kf_tagged = In_Key, kf_codec = Text_Codec, kf_ttl = Durable, kf_durable = False\<rparr>"

definition operatorViewerKeys_signingKey :: jstr where
  "operatorViewerKeys_signingKey = lit ''operator-viewer:v1:signing''"

text \<open>\<^verbatim>\<open>continuationKeys\<close>: the key of bound continuation cursors.\<close>

definition continuationKeys_family :: key_family where
  "continuationKeys_family = \<lparr>kf_name = lit ''continuation-key'', kf_scope = Root_Scope,
     kf_prefixes = [lit ''continuation-key:v1:''],
     kf_version = 1, kf_tagged = In_Key, kf_codec = Text_Codec, kf_ttl = Durable, kf_durable = True\<rparr>"

definition continuationKeys_signingKey :: jstr where
  "continuationKeys_signingKey = lit ''continuation-key:v1:signing''"

text \<open>\<^verbatim>\<open>stashLedgerKeys\<close>: the result stash ledger.\<close>

definition stashLedgerKeys_family :: key_family where
  "stashLedgerKeys_family = \<lparr>kf_name = lit ''result-stash-ledger'', kf_scope = Root_Scope,
     kf_prefixes = [lit ''result-stash:v1:''],
     kf_version = 1, kf_tagged = In_Key, kf_codec = Json_Codec, kf_ttl = Configured (lit ''latest live stash reservation deadline''), kf_durable = False\<rparr>"

definition stashLedgerKeys_ledger :: jstr where
  "stashLedgerKeys_ledger = lit ''result-stash:v1:ledger''"

text \<open>\<^verbatim>\<open>stashExpiryKeys\<close>: proof that a stash charge's deadline has passed.\<close>

definition stashExpiryKeys_family :: key_family where
  "stashExpiryKeys_family = \<lparr>kf_name = lit ''result-stash-expiry'', kf_scope = Root_Scope,
     kf_prefixes = [lit ''result-stash-expiry:v1:''],
     kf_version = 1, kf_tagged = In_Key, kf_codec = Text_Codec, kf_ttl = Configured (lit ''probed stash charge deadline''), kf_durable = False\<rparr>"

definition stashExpiryKeys_deadline :: "int \<Rightarrow> jstr" where
  "stashExpiryKeys_deadline expiresAtMs = lit ''result-stash-expiry:v1:'' @ int_text expiresAtMs"

text \<open>\<^verbatim>\<open>catalogKeys\<close>: a persisted downstream catalog.\<close>

definition catalogKeys_family :: key_family where
  "catalogKeys_family = \<lparr>kf_name = lit ''catalog'', kf_scope = Root_Scope,
     kf_prefixes = [lit ''catalog:''],
     kf_version = 3, kf_tagged = In_Value, kf_codec = Text_Codec, kf_ttl = Configured (lit ''retired catalog layout; expires on its original TTL''), kf_durable = False\<rparr>"

definition catalogKeys_manifest :: "jstr \<Rightarrow> key_error + jstr" where
  "catalogKeys_manifest connectorId = keyed [lit ''catalog:'', connectorId]"

definition catalogKeys_chunk :: "jstr \<Rightarrow> jstr \<Rightarrow> nat \<Rightarrow> key_error + jstr" where
  "catalogKeys_chunk connectorId revision index = keyed [lit ''catalog:'', connectorId, lit '':chunk:'', revision, lit '':'', decimal index]"

text \<open>\<^verbatim>\<open>connectorHealthKeys\<close>: connector health.\<close>

definition connectorHealthKeys_family :: key_family where
  "connectorHealthKeys_family = \<lparr>kf_name = lit ''connector-health'', kf_scope = Root_Scope,
     kf_prefixes = [lit ''connector-health:v1:''],
     kf_version = 1, kf_tagged = In_Key, kf_codec = Json_Codec, kf_ttl = Configured (lit ''discovery: retry time plus 60 seconds; status: 120 seconds''), kf_durable = False\<rparr>"

definition connectorHealthKeys_discovery :: "jstr \<Rightarrow> jstr \<Rightarrow> key_error + jstr" where
  "connectorHealthKeys_discovery connectorId partitionDigest = keyed [lit ''connector-health:v1:'', connectorId, lit '':'', partitionDigest, lit '':discovery'']"

definition connectorHealthKeys_status :: "jstr \<Rightarrow> jstr \<Rightarrow> key_error + jstr" where
  "connectorHealthKeys_status connectorId partitionDigest = keyed [lit ''connector-health:v1:'', connectorId, lit '':'', partitionDigest, lit '':status'']"

text \<open>\<^verbatim>\<open>responseCacheKeys\<close>: the catalog response cache.\<close>

definition responseCacheKeys_family :: key_family where
  "responseCacheKeys_family = \<lparr>kf_name = lit ''response-cache'', kf_scope = Root_Scope,
     kf_prefixes = [lit ''response-cache:v1:''],
     kf_version = 1, kf_tagged = In_Key, kf_codec = Text_Codec, kf_ttl = Configured (lit ''bounded downstream ttlMs; generations, refusal fences and hash refresh baselines expire after 48 hours''), kf_durable = False\<rparr>"

definition responseCacheKeys_prefix :: "jstr \<Rightarrow> key_error + jstr" where
  "responseCacheKeys_prefix rid = keyed [lit ''response-cache:v1:'', rid, lit '':'']"

definition responseCacheKeys_generation :: "jstr \<Rightarrow> key_error + jstr" where
  "responseCacheKeys_generation rid = keyed [lit ''response-cache:v1:'', rid, lit '':generation'']"

definition responseCacheKeys_locatorPrefix :: "jstr \<Rightarrow> jstr \<Rightarrow> key_error + jstr" where
  "responseCacheKeys_locatorPrefix rid config = keyed [lit ''response-cache:v1:'', rid, lit '':'', config, lit '':'']"

definition responseCacheKeys_namespace :: "jstr \<Rightarrow> jstr \<Rightarrow> jstr \<Rightarrow> key_error + jstr" where
  "responseCacheKeys_namespace rid config generation = bind_sum (responseCacheKeys_locatorPrefix rid config) (\<lambda>p. keyed [p, generation, lit '':''])"

definition responseCacheKeys_locatedEntry :: "jstr \<Rightarrow> jstr \<Rightarrow> jstr \<Rightarrow> key_error + jstr" where
  "responseCacheKeys_locatedEntry locator generation part = keyed [locator, generation, lit '':'', part]"

definition responseCacheKeys_entry :: "jstr \<Rightarrow> jstr \<Rightarrow> key_error + jstr" where
  "responseCacheKeys_entry namespace part = keyed [namespace, part]"

definition responseCacheKeys_refreshDigest :: "jstr \<Rightarrow> jstr \<Rightarrow> jstr \<Rightarrow> key_error + jstr" where
  "responseCacheKeys_refreshDigest rid config part = keyed [lit ''response-cache:v1:'', rid, lit '':refresh-digest:'', config, lit '':'', part]"

definition responseCacheKeys_chunk :: "jstr \<Rightarrow> jstr \<Rightarrow> nat \<Rightarrow> key_error + jstr" where
  "responseCacheKeys_chunk entry revision index = keyed [entry, lit '':chunk:'', revision, lit '':'', decimal index]"

text \<open>\<^verbatim>\<open>oauthHandoffKeys\<close>: the principal that started an OAuth flow.\<close>

definition oauthHandoffKeys_family :: key_family where
  "oauthHandoffKeys_family = \<lparr>kf_name = lit ''oauth-handoff'', kf_scope = Root_Scope,
     kf_prefixes = [lit ''oauth-handoff:v1:''],
     kf_version = 1, kf_tagged = In_Key, kf_codec = Text_Codec, kf_ttl = Fixed (15 * 60), kf_durable = False\<rparr>"

definition oauthHandoffKeys_handoff :: "jstr \<Rightarrow> jstr \<Rightarrow> key_error + jstr" where
  "oauthHandoffKeys_handoff connectorId stateHash = keyed [lit ''oauth-handoff:v1:'', connectorId, lit '':'', stateHash]"

text \<open>\<^verbatim>\<open>accessTokenKeys\<close>: access tokens issued by the gateway.\<close>

definition accessTokenKeys_family :: key_family where
  "accessTokenKeys_family = \<lparr>kf_name = lit ''access-token'', kf_scope = Root_Scope,
     kf_prefixes = [lit ''access-token:v1:''],
     kf_version = 1, kf_tagged = In_Key, kf_codec = Json_Codec, kf_ttl = Durable, kf_durable = True\<rparr>"

definition accessTokenKeys_record :: "jstr \<Rightarrow> key_error + jstr" where
  "accessTokenKeys_record rid = keyed [lit ''access-token:v1:record:'', rid]"

definition accessTokenKeys_lookup :: "jstr \<Rightarrow> key_error + jstr" where
  "accessTokenKeys_lookup tokenHash = keyed [lit ''access-token:v1:lookup:'', tokenHash]"

definition accessTokenKeys_agent :: "jstr \<Rightarrow> key_error + jstr" where
  "accessTokenKeys_agent agent = keyed [lit ''access-token:v1:agent:'', agent]"

definition accessTokenKeys_adopted :: "jstr \<Rightarrow> key_error + jstr" where
  "accessTokenKeys_adopted legacyRecordId = keyed [lit ''access-token:v1:adopted:'', legacyRecordId]"

definition accessTokenKeys_active :: jstr where
  "accessTokenKeys_active = lit ''access-token:v1:active''"

text \<open>\<^verbatim>\<open>agentObservationKeys\<close>: the latest admission of an agent.\<close>

definition agentObservationKeys_family :: key_family where
  "agentObservationKeys_family = \<lparr>kf_name = lit ''agent-observation'', kf_scope = Root_Scope,
     kf_prefixes = [lit ''agent-observation:v1:''],
     kf_version = 1, kf_tagged = In_Key, kf_codec = Text_Codec, kf_ttl = Durable, kf_durable = True\<rparr>"

definition agentObservationKeys_agent :: "jstr \<Rightarrow> key_error + jstr" where
  "agentObservationKeys_agent agent = keyed [lit ''agent-observation:v1:'', agent]"

text \<open>\<^verbatim>\<open>credentialKeys\<close>: a vault credential.\<close>

definition credentialKeys_family :: key_family where
  "credentialKeys_family = \<lparr>kf_name = lit ''credential'', kf_scope = Connector_Scope,
     kf_prefixes = [lit ''credential:v1''],
     kf_version = 1, kf_tagged = In_Key, kf_codec = Json_Codec, kf_ttl = Durable, kf_durable = True\<rparr>"

definition credentialKeys_text :: jstr where
  "credentialKeys_text = lit ''credential:v1''"

text \<open>\<^verbatim>\<open>oauthGrantKeys\<close>: the downstream OAuth grant.\<close>

definition oauthGrantKeys_family :: key_family where
  "oauthGrantKeys_family = \<lparr>kf_name = lit ''oauth-grant'', kf_scope = Connector_Scope,
     kf_prefixes = [lit ''oauth:grant''],
     kf_version = 3, kf_tagged = In_Value, kf_codec = Json_Codec, kf_ttl = Durable, kf_durable = True\<rparr>"

definition oauthGrantKeys_grant :: jstr where
  "oauthGrantKeys_grant = lit ''oauth:grant''"

text \<open>\<^verbatim>\<open>oauthFlowKeys\<close>: one consent.\<close>

definition oauthFlowKeys_family :: key_family where
  "oauthFlowKeys_family = \<lparr>kf_name = lit ''oauth-flow'', kf_scope = Connector_Scope,
     kf_prefixes = [lit ''oauth:flow:''],
     kf_version = 1, kf_tagged = In_Value, kf_codec = Json_Codec, kf_ttl = Fixed (15 * 60), kf_durable = False\<rparr>"

definition oauthFlowKeys_flow :: "jstr \<Rightarrow> key_error + jstr" where
  "oauthFlowKeys_flow stateDigest = keyed [lit ''oauth:flow:'', stateDigest]"

text \<open>\<^verbatim>\<open>oauthRefreshKeys\<close>: a refresh lease.\<close>

definition oauthRefreshKeys_family :: key_family where
  "oauthRefreshKeys_family = \<lparr>kf_name = lit ''oauth-refresh'', kf_scope = Connector_Scope,
     kf_prefixes = [lit ''oauth:refresh:''],
     kf_version = 1, kf_tagged = In_Value, kf_codec = Json_Codec, kf_ttl = Durable, kf_durable = True\<rparr>"

definition oauthRefreshKeys_lease :: "jstr \<Rightarrow> jstr \<Rightarrow> key_error + jstr" where
  "oauthRefreshKeys_lease epoch tokenDigest = keyed [lit ''oauth:refresh:'', epoch, lit '':'', tokenDigest]"

text \<open>\<^verbatim>\<open>oauthRefreshSpentKeys\<close>: a dispatched refresh fingerprint.\<close>

definition oauthRefreshSpentKeys_family :: key_family where
  "oauthRefreshSpentKeys_family = \<lparr>kf_name = lit ''oauth-refresh-spent'', kf_scope = Connector_Scope,
     kf_prefixes = [lit ''oauth:refresh-spent:''],
     kf_version = 1, kf_tagged = In_Value, kf_codec = Json_Codec, kf_ttl = Durable, kf_durable = True\<rparr>"

definition oauthRefreshSpentKeys_spent :: "jstr \<Rightarrow> key_error + jstr" where
  "oauthRefreshSpentKeys_spent tokenDigest = keyed [lit ''oauth:refresh-spent:'', tokenDigest]"

text \<open>\<^verbatim>\<open>oauthRefreshActiveKeys\<close>: a live refresh holder.\<close>

definition oauthRefreshActiveKeys_family :: key_family where
  "oauthRefreshActiveKeys_family = \<lparr>kf_name = lit ''oauth-refresh-active'', kf_scope = Connector_Scope,
     kf_prefixes = [lit ''oauth:refresh-active:''],
     kf_version = 1, kf_tagged = In_Value, kf_codec = Json_Codec, kf_ttl = Fixed 120, kf_durable = False\<rparr>"

definition oauthRefreshActiveKeys_holder :: "jstr \<Rightarrow> jstr \<Rightarrow> key_error + jstr" where
  "oauthRefreshActiveKeys_holder epoch holder = keyed [lit ''oauth:refresh-active:'', epoch, lit '':'', holder]"

text \<open>\<^verbatim>\<open>oauthConnectKeys\<close>: single-use links, resets and rounds.\<close>

definition oauthConnectKeys_family :: key_family where
  "oauthConnectKeys_family = \<lparr>kf_name = lit ''oauth-connect'', kf_scope = Connector_Scope,
     kf_prefixes = [lit ''oauth:connect-used:'', lit ''oauth:connect-reset:'', lit ''oauth:request-used:''],
     kf_version = 1, kf_tagged = Untagged, kf_codec = Text_Codec, kf_ttl = Fixed (30 * 60), kf_durable = False\<rparr>"

definition oauthConnectKeys_used :: "jstr \<Rightarrow> key_error + jstr" where
  "oauthConnectKeys_used nonce = keyed [lit ''oauth:connect-used:'', nonce]"

definition oauthConnectKeys_reset :: "jstr \<Rightarrow> key_error + jstr" where
  "oauthConnectKeys_reset flow = keyed [lit ''oauth:connect-reset:'', flow]"

definition oauthConnectKeys_retry :: "jstr \<Rightarrow> key_error + jstr" where
  "oauthConnectKeys_retry nonce = keyed [lit ''oauth:request-used:'', nonce]"

text \<open>\<^verbatim>\<open>verificationKeys\<close>: the last verification of a credential.\<close>

definition verificationKeys_family :: key_family where
  "verificationKeys_family = \<lparr>kf_name = lit ''verification'', kf_scope = Connector_Scope,
     kf_prefixes = [lit ''verification:v1''],
     kf_version = 1, kf_tagged = In_Key, kf_codec = Json_Codec, kf_ttl = Durable, kf_durable = False\<rparr>"

definition verificationKeys_record :: jstr where
  "verificationKeys_record = lit ''verification:v1''"

text \<open>\<^verbatim>\<open>negotiationKeys\<close>: a downstream protocol verdict.\<close>

definition negotiationKeys_family :: key_family where
  "negotiationKeys_family = \<lparr>kf_name = lit ''negotiation'', kf_scope = Connector_Scope,
     kf_prefixes = [lit ''negotiation:v1:''],
     kf_version = 1, kf_tagged = In_Key, kf_codec = Json_Codec, kf_ttl = Fixed (6 * 60 * 60), kf_durable = False\<rparr>"

definition negotiationKeys_verdict :: "jstr \<Rightarrow> key_error + jstr" where
  "negotiationKeys_verdict partitionDigest = keyed [lit ''negotiation:v1:'', partitionDigest]"

text \<open>\<^verbatim>\<open>inputRetryKeys\<close>: a consumed downstream round.\<close>

definition inputRetryKeys_family :: key_family where
  "inputRetryKeys_family = \<lparr>kf_name = lit ''downstream-input-retry'', kf_scope = Connector_Scope,
     kf_prefixes = [lit ''input-retry:v1:''],
     kf_version = 1, kf_tagged = In_Key, kf_codec = Text_Codec, kf_ttl = Fixed (10 * 60), kf_durable = False\<rparr>"

definition inputRetryKeys_used :: "jstr \<Rightarrow> key_error + jstr" where
  "inputRetryKeys_used nonce = keyed [lit ''input-retry:v1:'', nonce]"

text \<open>The physical key of a credential: under its owner's partition when it is personal.\<close>

definition credentialKeys_credential :: "jstr \<Rightarrow> jstr option \<Rightarrow> key_error + jstr" where
  "credentialKeys_credential connectorId owner =
     bind_sum (case owner of None \<Rightarrow> Inr [] | Some p \<Rightarrow> if p = [] then Inr [] else scopes_principal p) (\<lambda>a.
     bind_sum (scopes_connector connectorId) (\<lambda>b. Inr (a @ b @ credentialKeys_text)))"

text \<open>The registry of families, in the order of the module.\<close>

definition families :: "key_family list" where
  "families = [resultKeys_family,
     operatorViewerKeys_family,
     continuationKeys_family,
     stashLedgerKeys_family,
     stashExpiryKeys_family,
     catalogKeys_family,
     connectorHealthKeys_family,
     responseCacheKeys_family,
     oauthHandoffKeys_family,
     accessTokenKeys_family,
     agentObservationKeys_family,
     credentialKeys_family,
     oauthGrantKeys_family,
     oauthFlowKeys_family,
     oauthRefreshKeys_family,
     oauthRefreshSpentKeys_family,
     oauthRefreshActiveKeys_family,
     oauthConnectKeys_family,
     verificationKeys_family,
     negotiationKeys_family,
     inputRetryKeys_family]"

text \<open>
  The keys inside its scope that a family's builders make. A located entry starts from a locator prefix, an
  entry from a namespace and a chunk from an entry of the same family.
\<close>

inductive built :: "key_family \<Rightarrow> jstr \<Rightarrow> bool" where
  result_chunk: "resultKeys_chunk rid index = Inr k \<Longrightarrow> built resultKeys_family k"
| operatorViewer_signingKey: "built operatorViewerKeys_family operatorViewerKeys_signingKey"
| continuation_signingKey: "built continuationKeys_family continuationKeys_signingKey"
| stashLedger_ledger: "built stashLedgerKeys_family stashLedgerKeys_ledger"
| stashExpiry_deadline: "built stashExpiryKeys_family (stashExpiryKeys_deadline expiresAtMs)"
| catalog_manifest: "catalogKeys_manifest connectorId = Inr k \<Longrightarrow> built catalogKeys_family k"
| catalog_chunk: "catalogKeys_chunk connectorId revision index = Inr k \<Longrightarrow> built catalogKeys_family k"
| connectorHealth_discovery: "connectorHealthKeys_discovery connectorId partitionDigest = Inr k \<Longrightarrow> built connectorHealthKeys_family k"
| connectorHealth_status: "connectorHealthKeys_status connectorId partitionDigest = Inr k \<Longrightarrow> built connectorHealthKeys_family k"
| responseCache_prefix: "responseCacheKeys_prefix rid = Inr k \<Longrightarrow> built responseCacheKeys_family k"
| responseCache_generation: "responseCacheKeys_generation rid = Inr k \<Longrightarrow> built responseCacheKeys_family k"
| responseCache_locatorPrefix: "responseCacheKeys_locatorPrefix rid config = Inr k \<Longrightarrow> built responseCacheKeys_family k"
| responseCache_namespace: "responseCacheKeys_namespace rid config generation = Inr k \<Longrightarrow> built responseCacheKeys_family k"
| responseCache_refreshDigest: "responseCacheKeys_refreshDigest rid config part = Inr k \<Longrightarrow> built responseCacheKeys_family k"
| oauthHandoff_handoff: "oauthHandoffKeys_handoff connectorId stateHash = Inr k \<Longrightarrow> built oauthHandoffKeys_family k"
| accessToken_record: "accessTokenKeys_record rid = Inr k \<Longrightarrow> built accessTokenKeys_family k"
| accessToken_lookup: "accessTokenKeys_lookup tokenHash = Inr k \<Longrightarrow> built accessTokenKeys_family k"
| accessToken_agent: "accessTokenKeys_agent agent = Inr k \<Longrightarrow> built accessTokenKeys_family k"
| accessToken_adopted: "accessTokenKeys_adopted legacyRecordId = Inr k \<Longrightarrow> built accessTokenKeys_family k"
| accessToken_active: "built accessTokenKeys_family accessTokenKeys_active"
| agentObservation_agent: "agentObservationKeys_agent agent = Inr k \<Longrightarrow> built agentObservationKeys_family k"
| credential_text: "built credentialKeys_family credentialKeys_text"
| oauthGrant_grant: "built oauthGrantKeys_family oauthGrantKeys_grant"
| oauthFlow_flow: "oauthFlowKeys_flow stateDigest = Inr k \<Longrightarrow> built oauthFlowKeys_family k"
| oauthRefresh_lease: "oauthRefreshKeys_lease epoch tokenDigest = Inr k \<Longrightarrow> built oauthRefreshKeys_family k"
| oauthRefreshSpent_spent: "oauthRefreshSpentKeys_spent tokenDigest = Inr k \<Longrightarrow> built oauthRefreshSpentKeys_family k"
| oauthRefreshActive_holder: "oauthRefreshActiveKeys_holder epoch holder = Inr k \<Longrightarrow> built oauthRefreshActiveKeys_family k"
| oauthConnect_used: "oauthConnectKeys_used nonce = Inr k \<Longrightarrow> built oauthConnectKeys_family k"
| oauthConnect_reset: "oauthConnectKeys_reset flow = Inr k \<Longrightarrow> built oauthConnectKeys_family k"
| oauthConnect_retry: "oauthConnectKeys_retry nonce = Inr k \<Longrightarrow> built oauthConnectKeys_family k"
| verification_record: "built verificationKeys_family verificationKeys_record"
| negotiation_verdict: "negotiationKeys_verdict partitionDigest = Inr k \<Longrightarrow> built negotiationKeys_family k"
| inputRetry_used: "inputRetryKeys_used nonce = Inr k \<Longrightarrow> built inputRetryKeys_family k"
| responseCache_located: "responseCacheKeys_locatorPrefix rid config = Inr p \<Longrightarrow>
    responseCacheKeys_locatedEntry p generation part = Inr k \<Longrightarrow> built responseCacheKeys_family k"
| responseCache_entry: "responseCacheKeys_namespace rid config generation = Inr n \<Longrightarrow>
    responseCacheKeys_entry n part = Inr k \<Longrightarrow> built responseCacheKeys_family k"
| responseCache_chunk: "built responseCacheKeys_family e \<Longrightarrow>
    responseCacheKeys_chunk e revision index = Inr k \<Longrightarrow> built responseCacheKeys_family k"

section \<open>Physical keys\<close>

text \<open>Where a key sits: at the root, in a result partition, or in a connector's namespace, shared or personal.\<close>

datatype key_space = Root_Space | Results_Space | Subject_Space jstr | Connector_Space "jstr option" jstr

fun space_scope :: "key_space \<Rightarrow> key_scope" where
  "space_scope Root_Space = Root_Scope"
| "space_scope Results_Space = Partition_Scope"
| "space_scope (Subject_Space s) = Partition_Scope"
| "space_scope (Connector_Space p i) = Connector_Scope"

text \<open>The prefix \<^verbatim>\<open>namespaced\<close> puts before every key of the space.\<close>

fun space_prefix :: "key_space \<Rightarrow> key_error + jstr" where
  "space_prefix Root_Space = Inr []"
| "space_prefix Results_Space = Inr scopes_results"
| "space_prefix (Subject_Space s) = scopes_subject s"
| "space_prefix (Connector_Space None i) = scopes_connector i"
| "space_prefix (Connector_Space (Some p) i) =
     bind_sum (scopes_principal p) (\<lambda>a. bind_sum (scopes_connector i) (\<lambda>b. Inr (a @ b)))"

text \<open>Names without a colon: connector ids are slugs, principal and subject keys are digests.\<close>

fun plain_space :: "key_space \<Rightarrow> bool" where
  "plain_space (Subject_Space s) = (\<not> has_unit s 0x3a)"
| "plain_space (Connector_Space p i) = ((case p of None \<Rightarrow> True | Some x \<Rightarrow> \<not> has_unit x 0x3a) \<and> \<not> has_unit i 0x3a)"
| "plain_space _ = True"

section \<open>Lemmas\<close>

text \<open>A family claims a key that starts with one of its prefixes.\<close>

definition claims :: "key_family \<Rightarrow> jstr \<Rightarrow> bool" where
  "claims f k = list_ex (starts_with k) (kf_prefixes f)"

definition apart :: "key_family \<Rightarrow> key_family \<Rightarrow> bool" where
  "apart f g \<longleftrightarrow> kf_scope f = kf_scope g \<longrightarrow>
     list_all (\<lambda>p. list_all (\<lambda>q. \<not> starts_with p q \<and> \<not> starts_with q p) (kf_prefixes g)) (kf_prefixes f)"

lemmas family_defs =
  resultKeys_family_def operatorViewerKeys_family_def continuationKeys_family_def stashLedgerKeys_family_def
  stashExpiryKeys_family_def catalogKeys_family_def connectorHealthKeys_family_def responseCacheKeys_family_def
  oauthHandoffKeys_family_def accessTokenKeys_family_def agentObservationKeys_family_def credentialKeys_family_def
  oauthGrantKeys_family_def oauthFlowKeys_family_def oauthRefreshKeys_family_def oauthRefreshSpentKeys_family_def
  oauthRefreshActiveKeys_family_def oauthConnectKeys_family_def verificationKeys_family_def negotiationKeys_family_def
  inputRetryKeys_family_def

lemmas builder_defs =
  resultKeys_chunk_def operatorViewerKeys_signingKey_def continuationKeys_signingKey_def
  stashLedgerKeys_ledger_def stashExpiryKeys_deadline_def catalogKeys_manifest_def
  catalogKeys_chunk_def connectorHealthKeys_discovery_def connectorHealthKeys_status_def
  responseCacheKeys_prefix_def responseCacheKeys_generation_def responseCacheKeys_locatorPrefix_def
  responseCacheKeys_namespace_def responseCacheKeys_locatedEntry_def responseCacheKeys_entry_def
  responseCacheKeys_refreshDigest_def responseCacheKeys_chunk_def oauthHandoffKeys_handoff_def
  accessTokenKeys_record_def accessTokenKeys_lookup_def accessTokenKeys_agent_def
  accessTokenKeys_adopted_def accessTokenKeys_active_def agentObservationKeys_agent_def
  credentialKeys_text_def oauthGrantKeys_grant_def oauthFlowKeys_flow_def
  oauthRefreshKeys_lease_def oauthRefreshSpentKeys_spent_def oauthRefreshActiveKeys_holder_def
  oauthConnectKeys_used_def oauthConnectKeys_reset_def oauthConnectKeys_retry_def
  verificationKeys_record_def negotiationKeys_verdict_def inputRetryKeys_used_def

lemma starts_with_lit [simp]:
  "starts_with (lit s) (lit [])" "\<not> starts_with (lit []) (lit (d # t))"
  "starts_with (lit (c # s)) (lit (d # t)) \<longleftrightarrow> c = d \<and> starts_with (lit s) (lit t)"
  by (simp_all add: lit_def of_char_unit_eq)

lemma families_apart: "sorted_wrt apart families"
  by (simp add: families_def apart_def family_defs)

lemma starts_with_both: "starts_with k p \<Longrightarrow> starts_with k q \<Longrightarrow> starts_with p q \<or> starts_with q p"
  by (auto simp: starts_with_iff append_eq_append_conv2)

lemma apart_claims:
  assumes "apart f g" "kf_scope f = kf_scope g" "claims f k"
  shows "\<not> claims g k"
  using assms starts_with_both [of k] by (fastforce simp: apart_def claims_def list_all_iff list_ex_iff)

lemma claimed_once:
  assumes "f \<in> set families" "g \<in> set families" "kf_scope f = kf_scope g" "claims f k" "claims g k"
  shows "f = g"
proof -
  obtain i j where ij: "i < length families" "f = families ! i" "j < length families" "g = families ! j"
    using assms(1,2) by (auto simp: in_set_conv_nth)
  have "i = j"
  proof (rule linorder_cases [of i j])
    assume "i < j"
    then have "apart f g" using families_apart ij by (auto simp: sorted_wrt_iff_nth_less)
    with assms(3-5) show ?thesis by (auto dest: apart_claims)
  next
    assume "j < i"
    then have "apart g f" using families_apart ij by (auto simp: sorted_wrt_iff_nth_less)
    with assms(3-5) show ?thesis by (auto dest: apart_claims)
  qed
  with ij show ?thesis by simp
qed

lemma keyed_Inr: "keyed ps = Inr k \<longleftrightarrow> k = concat ps \<and> \<not> has_unit (concat ps) 0"
  by (auto simp: keyed_def validateStorageKey_def)

lemma built_listed: "built f k \<Longrightarrow> f \<in> set families"
  by (induction rule: built.induct) (simp_all add: families_def)

lemma starts_with_more: "starts_with s p \<Longrightarrow> starts_with (s @ r) p"
  by (auto simp: starts_with_iff)

lemma built_claims: "built f k \<Longrightarrow> claims f k"
proof (induction rule: built.induct)
  case (responseCache_chunk e revision index k)
  then show ?case
    by (auto simp: responseCacheKeys_chunk_def keyed_Inr claims_def list_ex_iff intro: starts_with_more)
qed (auto simp: claims_def family_defs builder_defs keyed_Inr bind_sum_Inr starts_with_more split: if_splits)

text \<open>The first segment of a physical key tells its space apart.\<close>

definition segment :: "jstr \<Rightarrow> jstr" where
  "segment k = takeWhile (\<lambda>c. c \<noteq> 0x3a) k"

lemma colon: "(0x3a :: code_unit) = of_char CHR '':''"
  by simp

lemma segment_lit: "segment (lit s) = lit (takeWhile (\<lambda>c. c \<noteq> CHR '':'') s)"
  unfolding segment_def lit_def takeWhile_map comp_def colon of_char_unit_eq ..

lemma has_colon_lit: "0x3a \<in> set (lit s) \<longleftrightarrow> CHR '':'' \<in> set s"
  unfolding lit_def colon set_map image_iff of_char_unit_eq by blast

lemma segment_append: "0x3a \<in> set p \<Longrightarrow> segment (p @ r) = segment p"
  unfolding segment_def by (rule takeWhile_append1) auto

lemma segment_name: "\<not> has_unit s 0x3a \<Longrightarrow> segment (s @ lit '':'' @ r) = s"
  by (induction s) (auto simp: segment_def has_unit_def lit_Cons)

definition root_segments :: "jstr list" where
  "root_segments = map lit [''operator-viewer'', ''continuation-key'', ''result-stash'', ''result-stash-expiry'',
     ''catalog'', ''connector-health'', ''response-cache'', ''oauth-handoff'', ''access-token'', ''agent-observation'']"

lemma root_segment:
  assumes "f \<in> set families" "kf_scope f = Root_Scope" "claims f k"
  shows "segment k \<in> set root_segments"
proof -
  have "list_all (\<lambda>f. kf_scope f = Root_Scope \<longrightarrow>
      list_all (\<lambda>p. 0x3a \<in> set p \<and> segment p \<in> set root_segments) (kf_prefixes f)) families"
    by (simp add: families_def family_defs segment_lit has_colon_lit root_segments_def)
  with assms obtain p r where "k = p @ r" "0x3a \<in> set p" "segment p \<in> set root_segments"
    by (auto simp: list_all_iff list_ex_iff claims_def starts_with_iff)
  then show ?thesis by (simp add: segment_append)
qed

fun space_segment :: "key_space \<Rightarrow> jstr option" where
  "space_segment Root_Space = None"
| "space_segment Results_Space = Some (lit ''results'')"
| "space_segment (Subject_Space s) = Some (lit ''subject'')"
| "space_segment (Connector_Space None i) = Some (lit ''conn'')"
| "space_segment (Connector_Space (Some p) i) = Some (lit ''principal'')"

lemma space_segment:
  assumes "space_prefix n = Inr a" "space_segment n = Some g"
  shows "segment (a @ k) = g \<and> g \<notin> set root_segments"
  using assms
  by (cases n rule: space_segment.cases)
     (auto simp: scopes_results_def scopes_subject_def scopes_connector_def scopes_principal_def keyed_Inr bind_sum_Inr
        segment_append segment_lit has_colon_lit root_segments_def)

lemma name_split:
  assumes "\<not> has_unit s 0x3a" "\<not> has_unit t 0x3a"
  shows "s @ lit '':'' @ k = t @ lit '':'' @ l \<longleftrightarrow> s = t \<and> k = l"
  using segment_name [OF assms(1), of k] segment_name [OF assms(2), of l] by auto

text \<open>A key in a named space starts with that space's segment; at the root, with a root family's.\<close>

lemma same_segment:
  assumes "built f k" "built g l" "kf_scope f = space_scope n" "kf_scope g = space_scope m"
    and "space_prefix n = Inr a" "space_prefix m = Inr b" "a @ k = b @ l"
  shows "space_segment n = space_segment m"
proof -
  have root: "segment (c @ j) \<in> set root_segments"
    if "built h j" "kf_scope h = space_scope q" "space_prefix q = Inr c" "space_segment q = None" for h j q c
    using that root_segment [OF built_listed _ built_claims]
    by (cases q rule: space_segment.cases) auto
  show ?thesis
  proof (cases "space_segment n"; cases "space_segment m")
    fix y assume "space_segment n = None" "space_segment m = Some y"
    then show ?thesis using root [OF assms(1,3,5)] space_segment [OF assms(6)] assms(7) by metis
  next
    fix x assume "space_segment n = Some x" "space_segment m = None"
    then show ?thesis using root [OF assms(2,4,6)] space_segment [OF assms(5)] assms(7) by metis
  next
    fix x y assume "space_segment n = Some x" "space_segment m = Some y"
    then show ?thesis using space_segment [OF assms(5)] space_segment [OF assms(6)] assms(7) by metis
  qed simp
qed

lemma same_space:
  assumes "space_segment n = space_segment m" "plain_space n" "plain_space m"
    and "space_prefix n = Inr a" "space_prefix m = Inr b" "a @ k = b @ l"
  shows "n = m \<and> k = l"
  using assms
  by (cases n rule: space_segment.cases; cases m rule: space_segment.cases)
     (auto simp: scopes_subject_def scopes_connector_def scopes_principal_def keyed_Inr bind_sum_Inr name_split)

section \<open>Properties\<close>

text \<open>
  C28. Two subsystems never share a stored key: if two keys made by the builders, each put in a space of its
  family's scope (the root, a result partition, a connector's namespace, shared or of one principal), are the
  same physical key, then the spaces, the keys and the families are the same. Names of spaces contain no colon.
\<close>

theorem physical_keys_disjoint:
  assumes "built f k" "built g l" "kf_scope f = space_scope n" "kf_scope g = space_scope m"
    and "plain_space n" "plain_space m" "space_prefix n = Inr a" "space_prefix m = Inr b" "a @ k = b @ l"
  shows "n = m \<and> k = l \<and> f = g"
proof -
  have "space_segment n = space_segment m" by (rule same_segment [OF assms(1-4,7-9)])
  then have nm: "n = m" "k = l" using same_space [OF _ assms(5-9)] by blast+
  moreover have "f = g"
    using claimed_once [OF built_listed [OF assms(1)] built_listed [OF assms(2)]]
      built_claims [OF assms(1)] built_claims [OF assms(2)] assms(3,4) nm by simp
  ultimately show ?thesis by simp
qed

theorem physical_keys_disjoint_witness:
  "built catalogKeys_family (lit ''catalog:a:chunk:r:1'') \<and>
   catalogKeys_manifest (lit ''a:chunk:r:1'') = catalogKeys_chunk (lit ''a'') (lit ''r'') 1"
proof -
  have one: "decimal (Suc 0) = lit ''1''" by (subst decimal.simps) (simp add: lit_def)
  have spell: "lit ''catalog:'' @ lit ''a:chunk:r:1'' = lit ''catalog:a:chunk:r:1''"
    "lit ''catalog:'' @ lit ''a'' @ lit '':chunk:'' @ lit ''r'' @ lit '':'' @ lit ''1'' = lit ''catalog:a:chunk:r:1''"
    by (simp_all add: lit_def)
  have plain: "\<not> has_unit (lit ''catalog:a:chunk:r:1'') 0" by (simp add: has_unit_def lit_def)
  have m: "catalogKeys_manifest (lit ''a:chunk:r:1'') = Inr (lit ''catalog:a:chunk:r:1'')"
    using plain by (simp add: catalogKeys_manifest_def keyed_Inr spell)
  have c: "catalogKeys_chunk (lit ''a'') (lit ''r'') 1 = Inr (lit ''catalog:'' @ lit ''a:chunk:r:1'')"
    using plain by (simp add: catalogKeys_chunk_def keyed_Inr spell one)
  from physical_keys_disjoint [OF built.catalog_manifest [OF m] built.catalog_chunk [OF c], of Root_Space Root_Space "[]" "[]"]
  show ?thesis using m c built.catalog_manifest [OF m] by (simp add: catalogKeys_family_def spell)
qed

end
