(* ===== verification/Memory_Storage.thy ===== *)
theory Memory_Storage
  imports Storage_Keys "HOL-Library.List_Lexorder"
begin

text \<open>
  The key-value store every subsystem shares: the contract of \<^verbatim>\<open>KVStorage\<close>
  (\<^verbatim>\<open>src/types.ts\<close>) as an abstract store of values with expiry times and as the interface
  (a locale) its clients rely on; the in-memory adapter of \<^verbatim>\<open>src/storage/memory.ts\<close> with its
  lazy expiry and its rotating sweep; and \<^verbatim>\<open>namespaced\<close> of
  \<^verbatim>\<open>src/registry.ts\<close>. Each call settles in one synchronous turn, which reads one time
  \<open>now\<close>; numbers are rationals, so an expiry never overflows.
\<close>

section \<open>Calls and replies\<close>

record set_options =
  so_ttlSeconds :: "js_number option"
  so_expiresAtMs :: "js_number option"

datatype storage_error = Bad_Key | Bad_Expiry

datatype storage_op =
    Get jstr
  | Set_Key jstr jstr set_options
  | Delete jstr
  | List_Keys jstr
  | Compare_And_Set jstr "jstr option" "jstr option" set_options

datatype storage_reply = Got "jstr option" | Done | Listed "jstr list" | Swapped bool | Failed storage_error

section \<open>The contract\<close>

text \<open>A value is live until its expiry time, if it has one.\<close>

type_synonym timed = "jstr \<times> rat option"

definition live :: "rat \<Rightarrow> timed \<Rightarrow> bool" where
  "live now e = (case snd e of None \<Rightarrow> True | Some x \<Rightarrow> now < x)"

definition alive :: "rat \<Rightarrow> (jstr \<rightharpoonup> timed) \<Rightarrow> (jstr \<rightharpoonup> timed)" where
  "alive now a = (\<lambda>k. case a k of None \<Rightarrow> None | Some e \<Rightarrow> if live now e then Some e else None)"

definition safe_integer :: "js_number \<Rightarrow> bool" where
  "safe_integer v = (case v of Finite q \<Rightarrow> is_whole v \<and> \<bar>q\<bar> \<le> 9007199254740991 | Non_Finite \<Rightarrow> False)"

text \<open>The expiry time of a write: absolute, relative, or none (also for a zero \<^verbatim>\<open>ttlSeconds\<close>).\<close>

definition expiry :: "rat \<Rightarrow> set_options \<Rightarrow> storage_error + rat option" where
  "expiry now opts =
     (if (case so_expiresAtMs opts of None \<Rightarrow> False | Some e \<Rightarrow> \<not> safe_integer e \<or> so_ttlSeconds opts \<noteq> None)
        then Inl Bad_Expiry
      else if so_ttlSeconds opts = Some Non_Finite then Inl Bad_Expiry
      else Inr (case so_expiresAtMs opts of
                  Some (Finite q) \<Rightarrow> Some q
                | _ \<Rightarrow> (case so_ttlSeconds opts of
                          Some (Finite q) \<Rightarrow> if q = 0 then None else Some (now + q * 1000)
                        | _ \<Rightarrow> None)))"

definition key_ok :: "jstr \<Rightarrow> bool" where
  "key_ok k = (validateStorageKey k = Inr k)"

text \<open>The abstract store: one call at time \<open>now\<close> on the values live then.\<close>

fun spec_act :: "rat \<Rightarrow> storage_op \<Rightarrow> (jstr \<rightharpoonup> timed) \<Rightarrow> storage_reply \<times> (jstr \<rightharpoonup> timed)" where
  "spec_act now (Get k) a = (if \<not> key_ok k then (Failed Bad_Key, a) else (Got (map_option fst (a k)), a))"
| "spec_act now (Set_Key k v opts) a =
     (if \<not> key_ok k then (Failed Bad_Key, a)
      else case expiry now opts of Inl e \<Rightarrow> (Failed e, a) | Inr x \<Rightarrow> (Done, a(k \<mapsto> (v, x))))"
| "spec_act now (Delete k) a = (if \<not> key_ok k then (Failed Bad_Key, a) else (Done, a(k := None)))"
| "spec_act now (List_Keys p) a =
     (if \<not> key_ok p then (Failed Bad_Key, a) else (Listed (sorted_list_of_set {k \<in> dom a. starts_with k p}), a))"
| "spec_act now (Compare_And_Set k expected new opts) a =
     (if \<not> key_ok k then (Failed Bad_Key, a)
      else if map_option fst (a k) \<noteq> expected then (Swapped False, a)
      else case new of
             None \<Rightarrow> (Swapped True, a(k := None))
           | Some v \<Rightarrow> (case expiry now opts of Inl e \<Rightarrow> (Failed e, a) | Inr x \<Rightarrow> (Swapped True, a(k \<mapsto> (v, x)))))"

text \<open>A sequence of calls, each at its time, and the replies.\<close>

fun replies :: "(rat \<Rightarrow> storage_op \<Rightarrow> 's \<Rightarrow> storage_reply \<times> 's) \<Rightarrow> (rat \<times> storage_op) list \<Rightarrow> 's \<Rightarrow> storage_reply list" where
  "replies act [] s = []"
| "replies act ((now, call) # calls) s = fst (act now call s) # replies act calls (snd (act now call s))"

text \<open>The abstract store forgets what has expired before each call.\<close>

definition spec_store :: "rat \<Rightarrow> storage_op \<Rightarrow> (jstr \<rightharpoonup> timed) \<Rightarrow> storage_reply \<times> (jstr \<rightharpoonup> timed)" where
  "spec_store now call a = spec_act now call (alive now a)"

section \<open>The in-memory adapter\<close>

record mem_entry =
  me_value :: jstr
  me_exp :: "rat option"

text \<open>
  \<^verbatim>\<open>map\<close> in insertion order, each key with the number of its insertion, and
  \<^verbatim>\<open>sweep\<close>, a live iterator over its keys: the number it continues from. An iterator skips keys
  deleted before it comes to them and reaches keys inserted after it was made.
\<close>

record mem_store =
  ms_map :: "(jstr \<times> nat \<times> mem_entry) list"
  ms_sweep :: nat
  ms_next :: nat

definition memoryStorage :: mem_store where
  "memoryStorage = \<lparr>ms_map = [], ms_sweep = 0, ms_next = 0\<rparr>"

definition fresh :: "rat \<Rightarrow> jstr \<Rightarrow> mem_store \<Rightarrow> mem_entry option \<times> mem_store" where
  "fresh now key m =
     (case map_of (ms_map m) key of
        None \<Rightarrow> (None, m)
      | Some (i, e) \<Rightarrow>
          if (case me_exp e of None \<Rightarrow> False | Some x \<Rightarrow> x \<le> now)
          then (None, m\<lparr>ms_map := map_delete key (ms_map m)\<rparr>)
          else (Some e, m))"

text \<open>At most so many keys are checked; an exhausted iterator starts over and ends the round.\<close>

fun sweep_round :: "rat \<Rightarrow> nat \<Rightarrow> mem_store \<Rightarrow> mem_store" where
  "sweep_round now 0 m = m"
| "sweep_round now (Suc n) m =
     (case find (\<lambda>e. ms_sweep m \<le> fst (snd e)) (ms_map m) of
        None \<Rightarrow> m\<lparr>ms_sweep := 0\<rparr>
      | Some (key, i, _) \<Rightarrow> sweep_round now n (snd (fresh now key (m\<lparr>ms_sweep := Suc i\<rparr>))))"

definition map_write :: "jstr \<Rightarrow> mem_entry \<Rightarrow> mem_store \<Rightarrow> mem_store" where
  "map_write key e m =
     (case map_of (ms_map m) key of
        Some (i, _) \<Rightarrow> m\<lparr>ms_map := map_set key (i, e) (ms_map m)\<rparr>
      | None \<Rightarrow> m\<lparr>ms_map := map_set key (ms_next m, e) (ms_map m), ms_next := Suc (ms_next m)\<rparr>)"

definition mem_write :: "rat \<Rightarrow> jstr \<Rightarrow> jstr \<Rightarrow> set_options \<Rightarrow> mem_store \<Rightarrow> storage_error option \<times> mem_store" where
  "mem_write now key val opts m =
     (case expiry now opts of
        Inl e \<Rightarrow> (Some e, m)
      | Inr x \<Rightarrow> (None, map_write key \<lparr>me_value = val, me_exp = x\<rparr> (sweep_round now 16 m)))"

text \<open>The filter of \<^verbatim>\<open>list\<close>: every key is checked for expiry as it is met.\<close>

fun list_live :: "rat \<Rightarrow> jstr \<Rightarrow> jstr list \<Rightarrow> mem_store \<Rightarrow> jstr list \<times> mem_store" where
  "list_live now p [] m = ([], m)"
| "list_live now p (key # keys) m =
     (let m1 = snd (fresh now key m);
          kept = starts_with key p \<and> map_has key (ms_map m1);
          (rest, m2) = list_live now p keys m1
      in (if kept then key # rest else rest, m2))"

fun mem_act :: "rat \<Rightarrow> storage_op \<Rightarrow> mem_store \<Rightarrow> storage_reply \<times> mem_store" where
  "mem_act now (Get k) m =
     (if validateStorageKey k \<noteq> Inr k then (Failed Bad_Key, m)
      else let (e, m') = fresh now k m in (Got (map_option me_value e), m'))"
| "mem_act now (Set_Key k v opts) m =
     (if validateStorageKey k \<noteq> Inr k then (Failed Bad_Key, m)
      else let (err, m') = mem_write now k v opts m in (case err of None \<Rightarrow> Done | Some e \<Rightarrow> Failed e, m'))"
| "mem_act now (Delete k) m =
     (if validateStorageKey k \<noteq> Inr k then (Failed Bad_Key, m)
      else (Done, m\<lparr>ms_map := map_delete k (ms_map m)\<rparr>))"
| "mem_act now (List_Keys p) m =
     (if validateStorageKey p \<noteq> Inr p then (Failed Bad_Key, m)
      else let (ks, m') = list_live now p (map fst (ms_map m)) m in (Listed (sort ks), m'))"
| "mem_act now (Compare_And_Set k expected new opts) m =
     (if validateStorageKey k \<noteq> Inr k then (Failed Bad_Key, m)
      else let (e, m1) = fresh now k m in
        if map_option me_value e \<noteq> expected then (Swapped False, m1)
        else case new of
               None \<Rightarrow> (Swapped True, m1\<lparr>ms_map := map_delete k (ms_map m1)\<rparr>)
             | Some v \<Rightarrow>
                 let (err, m2) = mem_write now k v opts m1
                 in (case err of None \<Rightarrow> Swapped True | Some x \<Rightarrow> Failed x, m2))"

section \<open>Namespaces\<close>

text \<open>\<^verbatim>\<open>namespaced(storage, prefix)\<close>, over any store.\<close>

fun namespaced ::
    "(rat \<Rightarrow> storage_op \<Rightarrow> 's \<Rightarrow> storage_reply \<times> 's) \<Rightarrow> jstr \<Rightarrow> rat \<Rightarrow> storage_op \<Rightarrow> 's \<Rightarrow> storage_reply \<times> 's" where
  "namespaced act p now (Get k) s = act now (Get (p @ k)) s"
| "namespaced act p now (Set_Key k v opts) s = act now (Set_Key (p @ k) v opts) s"
| "namespaced act p now (Delete k) s = act now (Delete (p @ k)) s"
| "namespaced act p now (List_Keys q) s =
     (let (r, s') = act now (List_Keys (p @ q)) s
      in (case r of Listed ks \<Rightarrow> Listed (map (drop (length p)) ks) | _ \<Rightarrow> r, s'))"
| "namespaced act p now (Compare_And_Set k expected new opts) s = act now (Compare_And_Set (p @ k) expected new opts) s"

section \<open>Lemmas\<close>

lemma key_ok_iff: "key_ok k \<longleftrightarrow> \<not> has_unit k 0"
  by (simp add: key_ok_def validateStorageKey_def)

lemma alive_alive [simp]: "now \<le> later \<Longrightarrow> alive later (alive now a) = alive later a"
  by (auto simp: alive_def live_def fun_eq_iff split: option.splits)

lemma alive_upd [simp]: "alive now (a(k \<mapsto> e)) = (alive now a)(k := (if live now e then Some e else None))"
  by (auto simp: alive_def fun_eq_iff)

lemma alive_del [simp]: "alive now (a(k := None)) = (alive now a)(k := None)"
  by (auto simp: alive_def fun_eq_iff)

lemma alive_empty [simp]: "alive now Map.empty = Map.empty"
  by (simp add: alive_def)

section \<open>The interface of a store\<close>

text \<open>
  What a subsystem relies on, whatever the adapter: what a reader sees at a time is a function of the state;
  time alone only removes expired values; and a call answers, and changes what is seen from then on, as the
  contract says.
\<close>

locale kv_store =
  fixes act :: "rat \<Rightarrow> storage_op \<Rightarrow> 's \<Rightarrow> storage_reply \<times> 's"
    and view :: "rat \<Rightarrow> 's \<Rightarrow> (jstr \<rightharpoonup> timed)"
    and invar :: "'s \<Rightarrow> bool"
  assumes act_invar: "invar s \<Longrightarrow> invar (snd (act now call s))"
    and view_finite: "invar s \<Longrightarrow> finite (dom (view now s))"
    and view_later: "invar s \<Longrightarrow> now \<le> later \<Longrightarrow> view later s = alive later (view now s)"
    and act_reply: "invar s \<Longrightarrow> fst (act now call s) = fst (spec_act now call (view now s))"
    and act_view: "invar s \<Longrightarrow> now \<le> later \<Longrightarrow>
      view later (snd (act now call s)) = alive later (snd (spec_act now call (view now s)))"
begin

lemma replies_spec:
  assumes "invar s" "sorted (map fst calls)" "\<And>c. c \<in> set calls \<Longrightarrow> T \<le> fst c"
    and "\<And>later. T \<le> later \<Longrightarrow> view later s = alive later a"
  shows "replies act calls s = replies spec_store calls a"
  using assms
proof (induction calls arbitrary: s a T)
  case (Cons c calls)
  obtain now call where c: "c = (now, call)" by (cases c)
  let ?s = "snd (act now call s)" and ?a = "snd (spec_store now call a)"
  have now: "T \<le> now" using Cons.prems(3) [of c] c by simp
  have v: "view now s = alive now a" using Cons.prems(4) now by simp
  have "replies act calls ?s = replies spec_store calls ?a"
  proof (rule Cons.IH [where T = now])
    show "invar ?s" using Cons.prems(1) by (rule act_invar)
    show "sorted (map fst calls)" "\<And>c. c \<in> set calls \<Longrightarrow> now \<le> fst c"
      using Cons.prems(2) c by (auto simp: sorted_simps)
    show "view later ?s = alive later ?a" if "now \<le> later" for later
      using act_view [OF Cons.prems(1) that] by (simp add: v spec_store_def)
  qed
  with c v act_reply [OF Cons.prems(1)] show ?case by (simp add: spec_store_def [of now call a])
qed simp

text \<open>Of many claims of one absent key, made without an expiry, exactly the first succeeds.\<close>

lemma one_claim_wins:
  assumes "invar s" "key_ok k" "sorted (map fst tries)" "tries \<noteq> []" "view (fst (hd tries)) s k = None"
    and opts: "so_ttlSeconds opts = None" "so_expiresAtMs opts = None"
  shows "replies act (map (\<lambda>(now, v). (now, Compare_And_Set k None (Some v) opts)) tries) s =
    Swapped True # replicate (length tries - 1) (Swapped False)"
proof -
  let ?call = "\<lambda>(now, v). (now, Compare_And_Set k None (Some v) opts)"
  have later: "replies spec_store (map ?call cs) b = replicate (length cs) (Swapped False)"
    if "b k = Some (v, None)" for cs b v
    using that
  proof (induction cs arbitrary: b)
    case (Cons c cs)
    have "alive (fst c) b k = Some (v, None)" using Cons.prems by (simp add: alive_def live_def)
    with Cons.IH [of "alive (fst c) b"] assms(2) show ?case by (simp add: spec_store_def case_prod_unfold)
  qed simp
  obtain t v cs where tries: "tries = (t, v) # cs" using assms(4) by (cases tries) auto
  have fsts: "map fst (map ?call tries) = map fst tries" by auto
  have "replies act (map ?call tries) s = replies spec_store (map ?call tries) (view t s)"
  proof (rule replies_spec [where T = t, OF assms(1)])
    show "sorted (map fst (map ?call tries))" unfolding fsts by (rule assms(3))
    show "t \<le> fst c" if "c \<in> set (map ?call tries)" for c
      using that assms(3) tries by (auto simp: sorted_simps)
  qed (rule view_later [OF assms(1)])
  moreover have "alive t (view t s) k = None" using assms(5) tries by (simp add: alive_def)
  moreover have "expiry t opts = Inr None" using opts by (simp add: expiry_def)
  ultimately show ?thesis
    using later [of _ v cs] assms(2) by (simp add: tries spec_store_def)
qed

end

section \<open>The adapter keeps the contract\<close>

definition contents :: "mem_store \<Rightarrow> (jstr \<rightharpoonup> timed)" where
  "contents m = (\<lambda>k. map_option (\<lambda>(i, e). (me_value e, me_exp e)) (map_of (ms_map m) k))"

definition mem_view :: "rat \<Rightarrow> mem_store \<Rightarrow> (jstr \<rightharpoonup> timed)" where
  "mem_view now m = alive now (contents m)"

definition mem_wf :: "mem_store \<Rightarrow> bool" where
  "mem_wf m \<longleftrightarrow> distinct (map fst (ms_map m))"

lemma contents_simps [simp]:
  "contents (m\<lparr>ms_sweep := i\<rparr>) = contents m"
  "contents (m\<lparr>ms_map := map_delete k (ms_map m)\<rparr>) = (contents m)(k := None)"
  "contents (map_write k e m) = (contents m)(k \<mapsto> (me_value e, me_exp e))"
  by (auto simp: contents_def fun_eq_iff map_write_def split: option.split)

lemma mem_wf_simps [simp]:
  "mem_wf (m\<lparr>ms_sweep := i\<rparr>) = mem_wf m"
  "mem_wf m \<Longrightarrow> mem_wf (m\<lparr>ms_map := map_delete k (ms_map m)\<rparr>)"
  "mem_wf m \<Longrightarrow> mem_wf (map_write k e m)"
  by (auto simp: mem_wf_def map_write_def split: option.split)

lemma fresh_wf [simp]: "mem_wf m \<Longrightarrow> mem_wf (snd (fresh now k m))"
  by (auto simp: fresh_def split: option.split prod.split)

text \<open>Checking a key for expiry answers what is alive and hides nothing that is.\<close>

lemma fresh_entry:
  "map_option (\<lambda>e. (me_value e, me_exp e)) (fst (fresh now k m)) = mem_view now m k"
  by (auto simp: fresh_def mem_view_def alive_def contents_def live_def split: option.split prod.split)

lemma fresh_value: "map_option me_value (fst (fresh now k m)) = map_option fst (mem_view now m k)"
  unfolding fresh_entry [symmetric] by (simp add: option.map_comp comp_def)

lemma fresh_view [simp]:
  "now \<le> later \<Longrightarrow> mem_view later (snd (fresh now k m)) = mem_view later m"
  by (auto simp: fresh_def mem_view_def alive_def contents_def live_def fun_eq_iff split: option.splits prod.splits)

lemma sweep_wf [simp]: "mem_wf m \<Longrightarrow> mem_wf (sweep_round now n m)"
  by (induction now n m rule: sweep_round.induct) (auto split: option.split)

lemma view_sweep_field [simp]: "mem_view now (m\<lparr>ms_sweep := i\<rparr>) = mem_view now m"
  by (simp add: mem_view_def)

lemma sweep_view [simp]: "now \<le> later \<Longrightarrow> mem_view later (sweep_round now n m) = mem_view later m"
  by (induction now n m rule: sweep_round.induct) (auto split: option.split)

lemma write_view:
  "expiry now opts = Inr x \<Longrightarrow> now \<le> later \<Longrightarrow>
     mem_view later (snd (mem_write now k v opts m)) = alive later ((mem_view later m)(k \<mapsto> (v, x)))"
  using sweep_view [of now later 16 m] by (simp add: mem_write_def mem_view_def)

lemma write_wf [simp]: "mem_wf m \<Longrightarrow> mem_wf (snd (mem_write now k v opts m))"
  by (simp add: mem_write_def split: sum.split)

text \<open>A listing holds the live keys with the prefix, each once.\<close>

lemma fresh_keeps:
  assumes "mem_wf m"
  shows "map_has k (ms_map (snd (fresh now k m))) \<longleftrightarrow> mem_view now m k \<noteq> None"
  by (auto simp: fresh_def mem_view_def alive_def contents_def live_def map_has_iff split: option.splits prod.splits)

lemma list_live_spec:
  assumes "mem_wf m"
  shows "fst (list_live now p keys m) = filter (\<lambda>k. starts_with k p \<and> mem_view now m k \<noteq> None) keys"
    "now \<le> later \<Longrightarrow> mem_view later (snd (list_live now p keys m)) = mem_view later m"
    "mem_wf (snd (list_live now p keys m))"
proof -
  have "fst (list_live now p keys m) = filter (\<lambda>k. starts_with k p \<and> mem_view now m k \<noteq> None) keys \<and>
      (\<forall>later. now \<le> later \<longrightarrow> mem_view later (snd (list_live now p keys m)) = mem_view later m) \<and>
      mem_wf (snd (list_live now p keys m))"
    using assms
  proof (induction now p keys m rule: list_live.induct)
    case (2 now p key keys m)
    then show ?case
      using fresh_keeps [OF "2.prems", of key now] by (auto simp: Let_def case_prod_unfold)
  qed simp
  then show "fst (list_live now p keys m) = filter (\<lambda>k. starts_with k p \<and> mem_view now m k \<noteq> None) keys"
    "now \<le> later \<Longrightarrow> mem_view later (snd (list_live now p keys m)) = mem_view later m"
    "mem_wf (snd (list_live now p keys m))" by blast+
qed

lemma view_dom: "dom (mem_view now m) \<subseteq> fst ` set (ms_map m)"
  by (auto simp: mem_view_def alive_def contents_def dom_def image_iff split: option.splits dest!: map_of_SomeD)
     force

lemma listing:
  assumes "mem_wf m"
  shows "sort (fst (list_live now p (map fst (ms_map m)) m)) =
    sorted_list_of_set {k \<in> dom (mem_view now m). starts_with k p}"
proof -
  let ?ks = "filter (\<lambda>k. starts_with k p \<and> mem_view now m k \<noteq> None) (map fst (ms_map m))"
  have "set ?ks = {k \<in> dom (mem_view now m). starts_with k p}" using view_dom [of now m] by auto
  moreover have "distinct ?ks" using assms by (simp add: mem_wf_def)
  ultimately show ?thesis
    using list_live_spec(1) [OF assms] sorted_list_of_set_sort_remdups [of ?ks] by (simp add: distinct_remdups_id)
qed

lemma mem_act_wf: "mem_wf m \<Longrightarrow> mem_wf (snd (mem_act now call m))"
  by (cases call) (auto simp: Let_def case_prod_unfold list_live_spec(3) split: option.split)

lemma mem_act_reply: "mem_wf m \<Longrightarrow> fst (mem_act now call m) = fst (spec_act now call (mem_view now m))"
  by (cases call)
     (auto simp: Let_def case_prod_unfold key_ok_def fresh_value listing mem_write_def split: option.split sum.split)

lemma mem_act_view:
  assumes "mem_wf m" "now \<le> later"
  shows "mem_view later (snd (mem_act now call m)) = alive later (snd (spec_act now call (mem_view now m)))"
proof -
  have mv: "mem_view later m = alive later (mem_view now m)" using assms(2) by (simp add: mem_view_def)
  have del: "mem_view later (n\<lparr>ms_map := map_delete k (ms_map n)\<rparr>) = (mem_view later n)(k := None)" for n k
    by (simp add: mem_view_def)
  have bad: "expiry now opts = Inl e \<Longrightarrow> snd (mem_write now k v opts n) = n" for opts e k v n
    by (simp add: mem_write_def)
  show ?thesis
    using assms by (cases call)
      (auto simp: Let_def case_prod_unfold key_ok_def fresh_value list_live_spec(2) write_view bad del mv
        split: option.split sum.split)
qed

interpretation memory_store: kv_store mem_act mem_view mem_wf
proof
  show "finite (dom (mem_view now m))" for now m
    by (rule finite_subset [OF view_dom]) simp
qed (auto simp: mem_act_wf mem_act_reply mem_act_view, simp add: mem_view_def)

section \<open>A namespace of a store is a store\<close>

fun ns_call :: "jstr \<Rightarrow> storage_op \<Rightarrow> storage_op" where
  "ns_call p (Get k) = Get (p @ k)"
| "ns_call p (Set_Key k v opts) = Set_Key (p @ k) v opts"
| "ns_call p (Delete k) = Delete (p @ k)"
| "ns_call p (List_Keys q) = List_Keys (p @ q)"
| "ns_call p (Compare_And_Set k e n opts) = Compare_And_Set (p @ k) e n opts"

lemma snd_namespaced [simp]: "snd (namespaced act p now call s) = snd (act now (ns_call p call) s)"
  by (cases call) (simp_all add: Let_def case_prod_unfold)

lemma key_ok_append: "\<not> has_unit p 0 \<Longrightarrow> key_ok (p @ k) = key_ok k"
  by (simp add: key_ok_iff has_unit_def)

lemma spec_ns_inside:
  assumes "\<not> has_unit p 0"
  shows "snd (spec_act now (ns_call p call) a) (p @ k) = snd (spec_act now call (\<lambda>k. a (p @ k))) k"
  using key_ok_append [OF assms]
  by (cases call) (auto split: option.split sum.split)

lemma spec_ns_outside: "\<not> starts_with j p \<Longrightarrow> snd (spec_act now (ns_call p call) a) j = a j"
  by (cases call) (auto split: option.split sum.split)

text \<open>Keys under one prefix sort as their rests do.\<close>

lemma append_less: "p @ x < p @ y \<longleftrightarrow> x < (y :: jstr)"
  by (induction p) auto

lemma sorted_under_prefix:
  fixes D :: "jstr set"
  assumes "finite D"
  shows "sorted_list_of_set ((@) p ` D) = map ((@) p) (sorted_list_of_set D)"
proof (rule sorted_list_of_set_unique [THEN iffD1])
  have "sorted_wrt (<) (sorted_list_of_set D)" by (rule strict_sorted_list_of_set)
  then show "sorted_wrt (<) (map ((@) p) (sorted_list_of_set D)) \<and>
      set (map ((@) p) (sorted_list_of_set D)) = (@) p ` D \<and>
      length (map ((@) p) (sorted_list_of_set D)) = card ((@) p ` D)"
    using assms by (simp add: sorted_wrt_map append_less card_image inj_on_def)
qed (simp add: assms)

lemma listed_under:
  fixes a :: "jstr \<rightharpoonup> timed"
  assumes "finite (dom a)"
  shows "map (drop (length p)) (sorted_list_of_set {k \<in> dom a. starts_with k (p @ q)}) =
    sorted_list_of_set {k \<in> dom (\<lambda>k. a (p @ k)). starts_with k q}"
proof -
  let ?D = "{k \<in> dom (\<lambda>k. a (p @ k)). starts_with k q}"
  have "{k \<in> dom a. starts_with k (p @ q)} = (@) p ` ?D" by (auto simp: starts_with_iff image_iff)
  moreover from this assms have "finite ((@) p ` ?D)" by (metis (no_types, lifting) finite_subset mem_Collect_eq subsetI)
  then have "finite ?D" by (rule finite_imageD) (simp add: inj_on_def)
  ultimately show ?thesis by (simp add: sorted_under_prefix comp_def)
qed

locale namespaced_store = kv_store act view invar
  for act :: "rat \<Rightarrow> storage_op \<Rightarrow> 's \<Rightarrow> storage_reply \<times> 's" and view invar +
  fixes p :: jstr
  assumes plain_prefix: "\<not> has_unit p 0"
begin

lemma others_untouched:
  assumes "invar s" "now \<le> later" "\<not> starts_with j p"
  shows "view later (snd (namespaced act p now call s)) j = view later s j"
  using act_view [OF assms(1,2), of "ns_call p call"] view_later [OF assms(1,2)]
  by (simp add: alive_def spec_ns_outside [OF assms(3)])

end

sublocale namespaced_store \<subseteq> inner: kv_store "namespaced act p" "\<lambda>now s k. view now s (p @ k)" invar
proof
  fix s now call
  assume s: "invar s"
  show "invar (snd (namespaced act p now call s))" using act_invar [OF s] by simp
  have fin: "finite (dom (view now s))" using s by (rule view_finite)
  have "dom (\<lambda>k. view now s (p @ k)) \<subseteq> drop (length p) ` dom (view now s)" by (force simp: image_iff)
  then show "finite (dom (\<lambda>k. view now s (p @ k)))" using fin by (rule finite_subset [OF _ finite_imageI])
  show "fst (namespaced act p now call s) = fst (spec_act now call (\<lambda>k. view now s (p @ k)))"
    using act_reply [OF s, of now "ns_call p call"] key_ok_append [OF plain_prefix] listed_under [OF fin]
    by (cases call) (auto simp: Let_def case_prod_unfold split: option.splits sum.splits storage_reply.splits)
  fix later :: rat
  assume later: "now \<le> later"
  show "(\<lambda>k. view later s (p @ k)) = alive later (\<lambda>k. view now s (p @ k))"
    using view_later [OF s later] by (simp add: alive_def)
  show "(\<lambda>k. view later (snd (namespaced act p now call s)) (p @ k)) =
      alive later (snd (spec_act now call (\<lambda>k. view now s (p @ k))))"
    using act_view [OF s later, of "ns_call p call"] spec_ns_inside [OF plain_prefix, of now call "view now s"]
    by (simp add: alive_def fun_eq_iff)
qed

context namespaced_store
begin

lemma inner_reply:
  "invar s \<Longrightarrow> fst (namespaced act p now call s) = fst (spec_act now call (\<lambda>k. view now s (p @ k)))"
  by (rule inner.act_reply)

end

text \<open>Every namespace of the in-memory adapter, for instance the root result partition.\<close>

lemma memory_namespace: "\<not> has_unit p 0 \<Longrightarrow> namespaced_store mem_act mem_view mem_wf p"
  by (intro namespaced_store.intro namespaced_store_axioms.intro memory_store.kv_store_axioms)

interpretation results_store: namespaced_store mem_act mem_view mem_wf scopes_results
  by (rule memory_namespace) (simp add: scopes_results_def has_unit_def lit_def)

section \<open>Properties\<close>

text \<open>
  C20. The in-memory adapter implements the storage contract: any sequence of calls, each at a time no earlier
  than the one before, gets from a new adapter exactly the replies of the abstract store in which a value is
  there until its expiry; lazy deletion, insertion order and the rotating sweep never show.
\<close>

theorem memory_refines_contract:
  assumes "sorted (map fst calls)"
  shows "replies mem_act calls memoryStorage = replies spec_store calls Map.empty"
proof (rule memory_store.replies_spec [where T = "fst (hd calls)"])
  show "mem_wf memoryStorage" by (simp add: mem_wf_def memoryStorage_def)
  show "mem_view later memoryStorage = alive later Map.empty" for later
    by (simp add: mem_view_def contents_def memoryStorage_def)
  show "fst (hd calls) \<le> fst c" if "c \<in> set calls" for c
    using assms that by (cases calls) auto
qed (rule assms)

definition one_second :: set_options where
  "one_second = \<lparr>so_ttlSeconds = Some (Finite 1), so_expiresAtMs = None\<rparr>"

theorem memory_refines_contract_witness:
  "replies mem_act [(0, Set_Key (lit ''k'') (lit ''v'') one_second), (999, Get (lit ''k'')), (1000, Get (lit ''k''))]
     memoryStorage = [Done, Got (Some (lit ''v'')), Got None]"
proof -
  have "key_ok (lit ''k'')" by (simp add: key_ok_iff has_unit_def lit_def)
  with memory_refines_contract [of "[(0, Set_Key (lit ''k'') (lit ''v'') one_second), (999, Get (lit ''k'')), (1000, Get (lit ''k''))]"]
  show ?thesis by (simp add: spec_store_def expiry_def one_second_def live_def)
qed

text \<open>
  C21. A namespace is a store of its own and touches nothing else: a call through
  \<^verbatim>\<open>namespaced(storage, prefix)\<close> on the in-memory adapter is answered by the contract on the keys
  under the prefix alone, and no key without the prefix changes for any reader from then on.
\<close>

theorem namespace_isolated:
  assumes "mem_wf m" "\<not> has_unit p 0" "now \<le> later"
  shows "fst (namespaced mem_act p now call m) = fst (spec_act now call (\<lambda>k. mem_view now m (p @ k))) \<and>
    (\<not> starts_with j p \<longrightarrow> mem_view later (snd (namespaced mem_act p now call m)) j = mem_view later m j)"
proof -
  have ns: "namespaced_store mem_act mem_view mem_wf p" using assms(2) by (rule memory_namespace)
  show ?thesis
    using namespaced_store.inner_reply [OF ns assms(1)] namespaced_store.others_untouched [OF ns assms(1,3)] by blast
qed

theorem namespace_isolated_witness:
  "fst (namespaced mem_act scopes_results 0 (Get []) memoryStorage) = fst (spec_act 0 (Get []) (\<lambda>k. mem_view 0 memoryStorage (scopes_results @ k)))"
  using namespace_isolated [of memoryStorage scopes_results 0 0 "Get []"]
  by (simp add: mem_wf_def memoryStorage_def results_store.plain_prefix)

text \<open>
  Of any number of \<^verbatim>\<open>compareAndSet(key, null, value)\<close> claims on an absent key of the in-memory
  adapter, at times that do not run backwards and without an expiry, exactly the first returns true.
\<close>

lemma one_claim_wins_in_memory:
  assumes "mem_wf m" "validateStorageKey k = Inr k" "sorted (map fst tries)" "tries \<noteq> []"
    and "mem_view (fst (hd tries)) m k = None" "so_ttlSeconds opts = None" "so_expiresAtMs opts = None"
  shows "replies mem_act (map (\<lambda>(now, v). (now, Compare_And_Set k None (Some v) opts)) tries) m =
    Swapped True # replicate (length tries - 1) (Swapped False)"
  using assms by (intro memory_store.one_claim_wins) (simp_all add: key_ok_def)

end
