(* ===== verification/Program_Writes.thy ===== *)
theory Program_Writes
  imports Write_Outcome
begin

text \<open>
  The accounting of the writes one program sends, \<^verbatim>\<open>src/program-writes.ts\<close>: how each
  dispatched write ended, and what the program's result says about them. Results are JSON values; the
  redaction of sent credentials (\<^verbatim>\<open>src/sent-secrets.ts\<close>) is a parameter, a pair of
  functions on text.
\<close>

section \<open>Results\<close>

text \<open>
  An object literal with spreads: a later entry for a key replaces the earlier one in its place.
  \<^verbatim>\<open>undefined\<close> parts are absent.
\<close>

type_synonym fields = "(jstr \<times> json) list"

definition spread :: "fields \<Rightarrow> fields \<Rightarrow> fields" where
  "spread extra base = fold (\<lambda>(k, v). map_set k v) extra base"

definition opt_field :: "string \<Rightarrow> json option \<Rightarrow> fields" where
  "opt_field k v = (case v of None \<Rightarrow> [] | Some x \<Rightarrow> [(lit k, x)])"

definition flag_field :: "string \<Rightarrow> bool \<Rightarrow> fields" where
  "flag_field k b = (if b then [(lit k, J_Bool True)] else [])"

record tool_result =
  tr_content :: "jstr list"
  tr_isError :: bool
  tr_structured :: "fields option"

definition toolError :: "json \<Rightarrow> tool_result" where
  "toolError err =
     (let structured = [(lit ''error'', err)]
      in \<lparr>tr_content = [json_text (J_Obj structured)], tr_isError = True, tr_structured = Some structured\<rparr>)"

definition serializedBytes :: "json \<Rightarrow> nat" where
  "serializedBytes v = length (utf8 (json_text v))"

text \<open>
  \<^verbatim>\<open>fitted\<close>: the budget shrinks with what the last attempt took, until its JSON string fits or
  nothing is left to shrink.
\<close>

lemma serialized_quote_pos: "0 < serializedBytes (J_Str s)"
  by (simp add: serializedBytes_def json_quote_def utf8_Cons_plain utf8_ascii high_surrogate_def del: utf8.simps(3))

lemma shrinks: "0 < (n :: int) \<Longrightarrow> room < n \<Longrightarrow> 0 < budget \<Longrightarrow> budget * room div n - 1 < budget"
proof -
  assume a: "0 < n" "room < n" "0 < budget"
  then have "budget * room \<le> budget * n" by (simp add: mult_left_mono)
  then have "budget * room div n \<le> budget * n div n" using a(1) by (rule zdiv_mono1)
  with a(1) show ?thesis by simp
qed

function fitted_loop :: "jstr \<Rightarrow> int \<Rightarrow> int \<Rightarrow> jstr \<Rightarrow> jstr option" where
  "fitted_loop s room budget cur =
     (let size = int (serializedBytes (J_Str cur))
      in if size \<le> room then Some cur
         else if budget \<le> 0 then None
         else let budget' = budget * room div size - 1
              in fitted_loop s room budget' (clipText s (max 0 budget')))"
  by pat_completeness auto

termination
  by (relation "measure (\<lambda>(s, room, budget, cur). nat budget)")
     (auto simp: shrinks serialized_quote_pos)

declare fitted_loop.simps [simp del]

definition fitted :: "jstr \<Rightarrow> int \<Rightarrow> jstr option" where
  "fitted s room = fitted_loop s room room (clipText s room)"

section \<open>How a write ended\<close>

text \<open>What \<^verbatim>\<open>CallErrorDetails\<close> adds for a failed call; \<open>ie_known\<close> tells whether that object is marked as a known failure.\<close>

record invocation_error = call_error_details +
  ie_known :: bool
  ie_toolAnswered :: bool
  ie_connector :: "jstr option"
  ie_recovery :: "json option"
  ie_nextAction :: "json option"
  ie_retry :: "json option"
  ie_uncertainCall :: "json option"
  ie_operation :: "json option"
  ie_stage :: "json option"
  ie_elapsedMs :: "json option"
  ie_deadlineMs :: "json option"

datatype invocation_outcome =
    Outcome_Ok bool
  | Outcome_Failed (oc_dispatched: bool) (oc_error: invocation_error) (oc_answered: "bool option")
      (oc_failureText: "jstr option") (oc_resolved: "(jstr \<times> jstr) option")

record unknown_write =
  uw_address :: "jstr option"
  uw_code :: classification_code
  uw_toolAnswered :: bool
  uw_text :: jstr
  uw_cut :: bool

record write_handoff =
  wh_code :: classification_code
  wh_connector :: jstr
  wh_recovery :: "json option"
  wh_nextAction :: json
  wh_retry :: "json option"

datatype write_completion =
    Plain write_state
  | Unknown_Completion unknown_write "json option" "fields option" "write_handoff option"

definition retained_units :: nat where
  "retained_units = 4 * 4096"

definition authorize_action :: "jstr \<Rightarrow> json" where
  "authorize_action connector =
     J_Obj [(lit ''tool'', J_Str (lit ''authorize_connector'')),
            (lit ''arguments'', J_Obj [(lit ''connector'', J_Str connector)]),
            (lit ''operatorHandoff'', J_Str (lit ''Give the URL and instructions it returns to the operator.''))]"

definition handoff_of :: "invocation_error \<Rightarrow> write_handoff option" where
  "handoff_of e =
     (if (cd_code e = C_auth_required \<or> cd_code e = C_downstream_oauth_required) \<and> ie_nextAction e \<noteq> None
      then case ie_connector e of None \<Rightarrow> None
           | Some c \<Rightarrow> Some \<lparr>wh_code = cd_code e, wh_connector = c, wh_recovery = ie_recovery e,
                              wh_nextAction = authorize_action c, wh_retry = ie_retry e\<rparr>
      else None)"

definition deadline_of :: "invocation_error \<Rightarrow> fields option" where
  "deadline_of e =
     (if ie_uncertainCall e \<noteq> None
      then case ie_stage e of None \<Rightarrow> None
           | Some st \<Rightarrow> Some (opt_field ''operation'' (ie_operation e) @ [(lit ''stage'', st)] @
               opt_field ''elapsedMs'' (ie_elapsedMs e) @ opt_field ''deadlineMs'' (ie_deadlineMs e))
      else None)"

definition writeStateOf :: "invocation_outcome \<Rightarrow> write_completion" where
  "writeStateOf outcome =
     (case outcome of
        Outcome_Ok dispatched \<Rightarrow> Plain (classifyWriteOutcome True dispatched False None)
      | Outcome_Failed dispatched e answered failureText resolved \<Rightarrow>
          let state = classifyWriteOutcome False dispatched (answered = Some True)
                        (Some (call_error_details.truncate e, ie_known e))
          in if state \<noteq> W_Unknown then Plain state
             else let said = (case failureText of Some t \<Rightarrow> t | None \<Rightarrow> cd_message e)
                  in Unknown_Completion
                       \<lparr>uw_address = map_option (\<lambda>(c, t). c @ lit ''.'' @ t) resolved, uw_code = cd_code e,
                        uw_toolAnswered = ie_toolAnswered e, uw_text = take retained_units said,
                        uw_cut = (retained_units < length said)\<rparr>
                       (ie_uncertainCall e) (deadline_of e) (handoff_of e))"

section \<open>The writes of one program\<close>

text \<open>A write in flight is named by the promise \<^verbatim>\<open>begin\<close> made; a recorded one is no longer there.\<close>

record program_writes =
  wr_closed :: bool
  wr_inFlight :: "nat list"
  wr_states :: "write_state list"
  wr_unknown :: "unknown_write list"
  wr_unknownTruncated :: bool
  wr_uncertain :: "json list"
  wr_uncertainTruncated :: bool
  wr_deadlines :: "fields list"
  wr_handoff :: "write_handoff option"
  wr_next :: nat

definition new_program_writes :: program_writes where
  "new_program_writes = \<lparr>wr_closed = False, wr_inFlight = [], wr_states = [], wr_unknown = [], wr_unknownTruncated = False,
     wr_uncertain = [], wr_uncertainTruncated = False, wr_deadlines = [], wr_handoff = None, wr_next = 0\<rparr>"

definition hasSucceeded :: "program_writes \<Rightarrow> bool" where
  "hasSucceeded p = (W_Ok \<in> set (wr_states p))"

definition close_writes :: "program_writes \<Rightarrow> program_writes" where
  "close_writes p = p\<lparr>wr_closed := True\<rparr>"

definition begin_write :: "program_writes \<Rightarrow> nat \<times> program_writes" where
  "begin_write p = (wr_next p, p\<lparr>wr_inFlight := wr_inFlight p @ [wr_next p], wr_next := Suc (wr_next p)\<rparr>)"

definition completion_state :: "write_completion \<Rightarrow> write_state" where
  "completion_state c = (case c of Plain st \<Rightarrow> st | Unknown_Completion _ _ _ _ \<Rightarrow> W_Unknown)"

definition note_unknown ::
    "unknown_write \<Rightarrow> json option \<Rightarrow> fields option \<Rightarrow> write_handoff option \<Rightarrow> program_writes \<Rightarrow> program_writes" where
  "note_unknown failure uncertain deadline handoff p =
     (let p1 = (if length (wr_unknown p) < 10 then p\<lparr>wr_unknown := wr_unknown p @ [failure]\<rparr>
                else p\<lparr>wr_unknownTruncated := True\<rparr>);
          p2 = (case uncertain of None \<Rightarrow> p1
                | Some u \<Rightarrow> if length (wr_uncertain p1) < 10 then p1\<lparr>wr_uncertain := wr_uncertain p1 @ [u]\<rparr>
                             else p1\<lparr>wr_uncertainTruncated := True\<rparr>);
          p3 = (case deadline of None \<Rightarrow> p2
                | Some d \<Rightarrow> if length (wr_deadlines p2) < 10 then p2\<lparr>wr_deadlines := wr_deadlines p2 @ [d]\<rparr> else p2)
      in p3\<lparr>wr_handoff := (case wr_handoff p3 of None \<Rightarrow> handoff | Some h \<Rightarrow> Some h)\<rparr>)"

text \<open>The function \<^verbatim>\<open>begin\<close> returned: only its first call records.\<close>

definition record_write :: "nat \<Rightarrow> write_completion \<Rightarrow> program_writes \<Rightarrow> program_writes" where
  "record_write w completion p =
     (if w \<notin> set (wr_inFlight p) then p
      else let p1 = (case completion of Plain _ \<Rightarrow> p
                     | Unknown_Completion failure uncertain deadline handoff \<Rightarrow>
                         note_unknown failure uncertain deadline handoff p)
           in p1\<lparr>wr_states := wr_states p1 @ [completion_state completion],
                 wr_inFlight := filter (\<lambda>x. x \<noteq> w) (wr_inFlight p1)\<rparr>)"

definition sent_writes :: "program_writes \<Rightarrow> bool" where
  "sent_writes p \<longleftrightarrow> wr_states p \<noteq> [] \<or> wr_inFlight p \<noteq> []"

text \<open>\<^verbatim>\<open>drain\<close> waits until nothing is in flight.\<close>

definition drained :: "program_writes \<Rightarrow> bool" where
  "drained p \<longleftrightarrow> wr_inFlight p = []"

section \<open>The report\<close>

text \<open>The credentials of the run: whole-text redaction, and redaction of a text whose tail was cut.\<close>

record sent_secrets =
  ss_text :: "jstr \<Rightarrow> jstr"
  ss_redactOpenTail :: "jstr \<Rightarrow> jstr"

record report_entry =
  re_address :: "jstr option"
  re_code :: classification_code
  re_toolAnswered :: bool
  re_message :: "jstr option"

definition entry_facts :: "unknown_write \<Rightarrow> fields" where
  "entry_facts u = opt_field ''address'' (map_option J_Str (uw_address u)) @ [(lit ''code'', J_Str (code_name (uw_code u)))] @
     flag_field ''toolAnswered'' (uw_toolAnswered u)"

fun report_loop :: "sent_secrets \<Rightarrow> unknown_write list \<Rightarrow> int \<Rightarrow> bool \<Rightarrow> report_entry list \<times> bool" where
  "report_loop secrets [] left truncated = ([], truncated)"
| "report_loop secrets (u # us) left truncated =
     (let left1 = left - (int (serializedBytes (J_Obj (entry_facts u))) + 12)
      in if left1 < 0 then ([], True)
         else let message = fitted (if uw_cut u then ss_redactOpenTail secrets (uw_text u) else ss_text secrets (uw_text u))
                              (min left1 4096);
                  truncated1 = (truncated \<or> message = None);
                  left2 = (case message of None \<Rightarrow> left1 | Some m \<Rightarrow> left1 - int (serializedBytes (J_Str m)));
                  (entries, t) = report_loop secrets us left2 truncated1
              in (\<lparr>re_address = uw_address u, re_code = uw_code u, re_toolAnswered = uw_toolAnswered u,
                   re_message = message\<rparr> # entries, t))"

definition report :: "sent_secrets \<Rightarrow> int \<Rightarrow> program_writes \<Rightarrow> report_entry list \<times> bool" where
  "report secrets room p = report_loop secrets (wr_unknown p) room (wr_unknownTruncated p)"

section \<open>The program's result\<close>

definition count_of :: "write_state \<Rightarrow> program_writes \<Rightarrow> nat" where
  "count_of st p = length (filter (\<lambda>x. x = st) (wr_states p))"

definition writes_json :: "program_writes \<Rightarrow> json" where
  "writes_json p = J_Obj [(lit ''succeeded'', J_Num (decimal (count_of W_Ok p))),
     (lit ''failed'', J_Num (decimal (count_of W_Failed p))), (lit ''unknown'', J_Num (decimal (count_of W_Unknown p)))]"

definition handoff_fields :: "write_handoff \<Rightarrow> fields" where
  "handoff_fields h =
     [(lit ''code'', J_Str (code_name (wh_code h))), (lit ''connector'', J_Str (wh_connector h))] @
     opt_field ''recovery'' (wh_recovery h) @ [(lit ''nextAction'', wh_nextAction h)] @ opt_field ''retry'' (wh_retry h)"

definition uncertain_fields :: "program_writes \<Rightarrow> fields" where
  "uncertain_fields p =
     (case wr_uncertain p of
        [] \<Rightarrow> []
      | [u] \<Rightarrow> [(lit ''uncertainCall'', u)]
      | us \<Rightarrow> [(lit ''uncertainCalls'', J_Arr us)])"

definition unknown_facts :: "program_writes \<Rightarrow> fields" where
  "unknown_facts p =
     spread
       ((case wr_handoff p of None \<Rightarrow> []
         | Some h \<Rightarrow> handoff_fields h @
             [(lit ''reconciliationRequired'', J_Bool True), (lit ''writeOutcome'', J_Str (lit ''unknown''))]) @
        (if wr_deadlines p = [] then [] else [(lit ''details'', J_Obj (hd (wr_deadlines p)))]) @
        (if 1 < length (wr_deadlines p) then [(lit ''timeouts'', J_Arr (map J_Obj (wr_deadlines p)))] else []) @
        uncertain_fields p @ flag_field ''uncertainCallsTruncated'' (wr_uncertainTruncated p) @
        [(lit ''writes'', writes_json p)])
       [(lit ''code'', J_Str (case wr_handoff p of Some h \<Rightarrow> code_name (wh_code h)
                              | None \<Rightarrow> lit ''write_outcome_unknown'')),
        (lit ''retryable'', J_Bool False)]"

definition check_unknown :: jstr where
  "check_unknown = lit ''Read its target to see whether it applied before anything depends on it.''"

definition no_rerun :: jstr where
  "no_rerun = lit ''Do not rerun this program: writes it already sent would repeat. If a tool's words call for a further call, send only that operation, as a new call.''"

definition unknown_args :: jstr where
  "unknown_args = lit ''Echoed arguments may be partial or absent; use your original arguments for further calls.''"

definition advice :: "bool \<Rightarrow> jstr" where
  "advice handed =
     (if handed
      then lit ''A write this program sent failed authorization after it left, so its outcome is unknown and the program's return was discarded. It will not be resent. '' @
        check_unknown @ lit '' Then give what nextAction returns to the operator to recover the connector. '' @
        no_rerun @ lit '' '' @ unknown_args
      else lit ''A write this program sent has an unknown outcome, and the program's return was discarded. It will not be resent. '' @
        check_unknown @ lit '' '' @ no_rerun @ lit '' '' @ unknown_args)"

definition quotable :: "report_entry \<Rightarrow> bool" where
  "quotable e \<longleftrightarrow> re_toolAnswered e \<and> re_message e \<noteq> None"

text \<open>The quoted entry gives up its message, which leads the result instead.\<close>

fun unquote :: "report_entry list \<Rightarrow> report_entry list" where
  "unquote [] = []"
| "unquote (e # es) = (if quotable e then e\<lparr>re_message := None\<rparr> # es else e # unquote es)"

definition entry_json :: "report_entry \<Rightarrow> json" where
  "entry_json e = J_Obj (opt_field ''address'' (map_option J_Str (re_address e)) @
     [(lit ''code'', J_Str (code_name (re_code e)))] @ flag_field ''toolAnswered'' (re_toolAnswered e) @
     opt_field ''message'' (map_option J_Str (re_message e)))"

definition lead :: "report_entry option \<Rightarrow> jstr \<Rightarrow> jstr" where
  "lead quoted words =
     (case quoted of None \<Rightarrow> words
      | Some e \<Rightarrow>
          (case re_address e of Some a \<Rightarrow> a | None \<Rightarrow> lit ''A tool'') @ lit '' answered: '' @
          (case re_message e of Some m \<Rightarrow> m | None \<Rightarrow> []) @ [0x0a, 0x0a] @
          lit ''Give the user any approval link or request id above. '' @ words)"

definition unknown_result :: "sent_secrets \<Rightarrow> int \<Rightarrow> program_writes \<Rightarrow> tool_result" where
  "unknown_result secrets maxResultChars p =
     (let facts = unknown_facts p;
          words = advice (wr_handoff p \<noteq> None);
          taken = serializedBytes (J_Obj [(lit ''error'', J_Obj (spread [(lit ''message'', J_Str words)] facts))]);
          (entries, truncated) = report secrets (min 8192 (maxResultChars - 256 - int taken)) p;
          quoted = (if wr_handoff p \<noteq> None then None else find quotable entries);
          shown = (if quoted = None then entries else unquote entries)
      in toolError (J_Obj (spread facts
           ([(lit ''message'', J_Str (lead quoted words))] @
            (if shown = [] then [] else [(lit ''unknownWrites'', J_Arr (map entry_json shown))]) @
            flag_field ''unknownWritesTruncated'' truncated))))"

text \<open>The own enumerable properties of an object that is not null; an array has its indices.\<close>

definition object_fields :: "json option \<Rightarrow> fields option" where
  "object_fields v =
     (case v of
        Some (J_Obj fs) \<Rightarrow> Some fs
      | Some (J_Arr xs) \<Rightarrow> Some (map (\<lambda>i. (decimal i, xs ! i)) [0..<length xs])
      | _ \<Rightarrow> None)"

definition landed_note :: "bool \<Rightarrow> jstr" where
  "landed_note landed =
     (if landed
      then lit ''This run completed writes, counted in writes, and they are not undone. Running this program again would repeat them: check them, then send only what is left.''
      else lit ''This run attempted writes, counted in writes, and none applied. Check them before running the task again.'')"

text \<open>The failure being annotated, without its wait: the result's own error, or one made for it.\<close>

definition own_error :: "tool_result \<Rightarrow> fields option" where
  "own_error result =
     object_fields (case tr_structured result of None \<Rightarrow> None | Some fs \<Rightarrow> map_of fs (lit ''error''))"

definition failure_fields :: "tool_result \<Rightarrow> fields" where
  "failure_fields result =
     (case own_error result of
        Some fs \<Rightarrow> map_delete (lit ''retryAfterMs'') fs
      | None \<Rightarrow> [(lit ''code'', J_Str (lit ''executor_failed'')),
                 (lit ''message'', J_Str (case tr_content result of t # _ \<Rightarrow> t | [] \<Rightarrow> [])),
                 (lit ''retryable'', J_Bool False)])"

definition withWrites :: "tool_result \<Rightarrow> program_writes \<Rightarrow> tool_result" where
  "withWrites result p =
     (let wait = Option.bind (own_error result) (\<lambda>fs. map_of fs (lit ''retryAfterMs''));
          landed = 0 < count_of W_Ok p;
          annotated = toolError (J_Obj (spread
            ((if landed then [(lit ''retryable'', J_Bool False)] else opt_field ''retryAfterMs'' wait) @
             [(lit ''writes'', writes_json p), (lit ''note'', J_Str (landed_note landed))]) (failure_fields result)))
      in case (tr_structured result, own_error result) of
           (Some fs, Some _) \<Rightarrow>
             let rest = map_delete (lit ''error'') fs @
                   opt_field ''error'' (Option.bind (tr_structured annotated) (\<lambda>a. map_of a (lit ''error'')))
             in annotated\<lparr>tr_structured := Some rest, tr_content := [json_text (J_Obj rest)]\<rparr>
         | _ \<Rightarrow> annotated)"

definition finish :: "tool_result \<Rightarrow> sent_secrets \<Rightarrow> int \<Rightarrow> program_writes \<Rightarrow> tool_result" where
  "finish result secrets maxResultChars p =
     (if wr_states p = [] then result
      else if 0 < count_of W_Unknown p then unknown_result secrets maxResultChars p
      else if tr_isError result then withWrites result p
      else result)"

section \<open>Transitions\<close>

text \<open>A program's run: writes begin and are recorded in any order, and may be recorded after the program has settled.\<close>

inductive wr_step :: "program_writes \<Rightarrow> program_writes \<Rightarrow> bool" where
  begin_write: "wr_step p (snd (begin_write p))"
| record_write: "wr_step p (record_write w completion p)"
| close_writes: "wr_step p (close_writes p)"

definition wr_init :: "program_writes \<Rightarrow> bool" where
  "wr_init p \<longleftrightarrow> p = new_program_writes"

section \<open>Lemmas\<close>

lemma map_of_spread:
  "map_of (spread extra base) k = (case map_of (rev extra) k of Some v \<Rightarrow> Some v | None \<Rightarrow> map_of base k)"
  by (induction extra arbitrary: base) (auto simp: spread_def map_add_def split: option.split)

lemma map_of_opt_field [simp]:
  "map_of (opt_field n v) (lit k) = (if k = n then v else None)"
  "map_of (rev (opt_field n v)) (lit k) = (if k = n then v else None)"
  by (auto simp: opt_field_def split: option.split)

lemma map_of_flag_field [simp]:
  "map_of (flag_field n b) (lit k) = (if k = n \<and> b then Some (J_Bool True) else None)"
  "map_of (rev (flag_field n b)) (lit k) = (if k = n \<and> b then Some (J_Bool True) else None)"
  by (auto simp: flag_field_def)

lemma spread_absent: "k \<notin> fst ` set extra \<Longrightarrow> map_of (spread extra base) k = map_of base k"
  by (simp add: map_of_spread map_of_eq_None_iff [THEN iffD2] split: option.split)

lemma spread_last: "map_of (spread (extra @ [(k, v)]) base) k = Some v"
  by (simp add: map_of_spread)

lemma distinct_spread: "distinct (map fst base) \<Longrightarrow> distinct (map fst (spread extra base))"
  by (induction extra arbitrary: base) (auto simp: spread_def)

lemma lookup_rev: "distinct (map fst xs) \<Longrightarrow> map_of (rev xs) = map_of xs"
  by (rule map_of_inject_set [THEN iffD2]) (simp_all flip: rev_map)

lemma spread_middle:
  "map_of (rev rest) k = None \<Longrightarrow> k \<noteq> j \<Longrightarrow> map_of (rev hand) k = Some v \<Longrightarrow>
     map_of (spread ((hand @ rest) @ [(j, w)]) base) k = Some v"
  by (simp add: map_of_spread map_add_def)

text \<open>The facts about an unknown write that lead the result.\<close>

definition unknown_code :: "program_writes \<Rightarrow> jstr" where
  "unknown_code p = (case wr_handoff p of Some h \<Rightarrow> code_name (wh_code h) | None \<Rightarrow> lit ''write_outcome_unknown'')"

lemma keys_uncertain: "fst ` set (uncertain_fields p) \<subseteq> {lit ''uncertainCall'', lit ''uncertainCalls''}"
proof (cases "wr_uncertain p")
  case (Cons u us)
  then show ?thesis by (cases us) (simp_all add: uncertain_fields_def)
qed (simp add: uncertain_fields_def)

lemma unknown_facts_fields:
  "map_of (unknown_facts p) (lit ''retryable'') = Some (J_Bool False)"
  "map_of (unknown_facts p) (lit ''code'') = Some (J_Str (unknown_code p))"
  "map_of (unknown_facts p) (lit ''writes'') = Some (writes_json p)"
  "map_of (unknown_facts p) (lit ''retryAfterMs'') = None"
proof -
  let ?hand = "case wr_handoff p of None \<Rightarrow> [] | Some h \<Rightarrow> handoff_fields h @
    [(lit ''reconciliationRequired'', J_Bool True), (lit ''writeOutcome'', J_Str (lit ''unknown''))]"
  let ?rest = "(if wr_deadlines p = [] then [] else [(lit ''details'', J_Obj (hd (wr_deadlines p)))]) @
    (if 1 < length (wr_deadlines p) then [(lit ''timeouts'', J_Arr (map J_Obj (wr_deadlines p)))] else []) @
    uncertain_fields p @ flag_field ''uncertainCallsTruncated'' (wr_uncertainTruncated p)"
  let ?base = "[(lit ''code'', J_Str (unknown_code p)), (lit ''retryable'', J_Bool False)]"
  have f: "unknown_facts p = spread ((?hand @ ?rest) @ [(lit ''writes'', writes_json p)]) ?base"
    by (simp only: unknown_facts_def unknown_code_def append_assoc)
  have hand: "fst ` set ?hand \<subseteq> {lit ''code'', lit ''connector'', lit ''recovery'', lit ''nextAction'', lit ''retry'',
      lit ''reconciliationRequired'', lit ''writeOutcome''}"
    by (auto simp: handoff_fields_def opt_field_def split: option.splits)
  have rest: "fst ` set ?rest \<subseteq> {lit ''details'', lit ''timeouts'', lit ''uncertainCall'', lit ''uncertainCalls'',
      lit ''uncertainCallsTruncated''}"
    using keys_uncertain [of p] by (auto simp: flag_field_def)
  have absent: "map_of (unknown_facts p) (lit k) = map_of ?base (lit k)"
    if "k \<notin> {''code'', ''connector'', ''recovery'', ''nextAction'', ''retry'', ''reconciliationRequired'', ''writeOutcome'',
      ''details'', ''timeouts'', ''uncertainCall'', ''uncertainCalls'', ''uncertainCallsTruncated'', ''writes''}" for k
    unfolding f using that hand rest by (intro spread_absent) (auto simp only: set_append image_Un lit_eq_iff, auto)
  show "map_of (unknown_facts p) (lit ''retryable'') = Some (J_Bool False)"
    "map_of (unknown_facts p) (lit ''retryAfterMs'') = None"
    by (simp_all add: absent)
  show "map_of (unknown_facts p) (lit ''writes'') = Some (writes_json p)" unfolding f by (rule spread_last)
  show "map_of (unknown_facts p) (lit ''code'') = Some (J_Str (unknown_code p))"
  proof (cases "wr_handoff p")
    case None
    have "lit ''code'' \<notin> fst ` set ((?hand @ ?rest) @ [(lit ''writes'', writes_json p)])" using rest None by auto
    then show ?thesis unfolding f by (simp add: spread_absent)
  next
    case (Some h)
    have "map_of (rev ?rest) (lit ''code'') = None" using rest by (auto simp: map_of_eq_None_iff)
    moreover have "map_of (rev ?hand) (lit ''code'') = Some (J_Str (unknown_code p))"
      by (simp add: Some handoff_fields_def unknown_code_def map_add_def opt_field_def split: option.split)
    ultimately show ?thesis unfolding f by (intro spread_middle) simp_all
  qed
qed

text \<open>The error object of a result with an unknown write carries exactly those facts.\<close>

definition error_object :: "tool_result \<Rightarrow> fields option" where
  "error_object r = (case tr_structured r of None \<Rightarrow> None
     | Some fs \<Rightarrow> (case map_of fs (lit ''error'') of Some (J_Obj es) \<Rightarrow> Some es | _ \<Rightarrow> None))"

lemma unknown_result_error:
  obtains es where "error_object (unknown_result secrets n p) = Some es"
    "tr_isError (unknown_result secrets n p)"
    "map_of es (lit ''retryable'') = Some (J_Bool False)"
    "map_of es (lit ''code'') = Some (J_Str (unknown_code p))"
    "map_of es (lit ''writes'') = Some (writes_json p)" "map_of es (lit ''retryAfterMs'') = None"
proof -
  have "\<exists>words shown truncated. unknown_result secrets n p = toolError (J_Obj (spread (unknown_facts p)
      ([(lit ''message'', J_Str words)] @ (if shown = [] then [] else [(lit ''unknownWrites'', J_Arr (map entry_json shown))]) @
       flag_field ''unknownWritesTruncated'' truncated)))"
    unfolding unknown_result_def Let_def case_prod_unfold by blast
  then obtain base where r: "unknown_result secrets n p = toolError (J_Obj (spread (unknown_facts p) base))"
    and base: "map_of base (lit ''retryAfterMs'') = None"
    by (auto simp: flag_field_def split: if_splits)
  have dist: "map_of (rev (unknown_facts p)) = map_of (unknown_facts p)"
    unfolding unknown_facts_def by (rule lookup_rev) (simp add: distinct_spread)
  show thesis
    by (rule that [of "spread (unknown_facts p) base"])
       (simp_all add: r error_object_def toolError_def Let_def map_of_spread dist unknown_facts_fields base)
qed

text \<open>An error result of a run that landed a write is not retryable and names no wait.\<close>

lemma withWrites_error:
  assumes "0 < count_of W_Ok p"
  obtains es where "error_object (withWrites r p) = Some es" "tr_isError (withWrites r p)"
    "map_of es (lit ''retryable'') = Some (J_Bool False)" "map_of es (lit ''retryAfterMs'') = None"
    "map_of es (lit ''writes'') = Some (writes_json p)"
proof -
  let ?es = "spread [(lit ''retryable'', J_Bool False), (lit ''writes'', writes_json p),
    (lit ''note'', J_Str (landed_note True))] (failure_fields r)"
  have base: "map_of (failure_fields r) (lit ''retryAfterMs'') = None"
    by (simp add: failure_fields_def split: option.split)
  have es: "map_of ?es (lit ''retryable'') = Some (J_Bool False)" "map_of ?es (lit ''retryAfterMs'') = None"
    "map_of ?es (lit ''writes'') = Some (writes_json p)"
    by (simp_all add: map_of_spread base)
  have "error_object (withWrites r p) = Some ?es \<and> tr_isError (withWrites r p)"
    using assms by (cases "tr_structured r"; cases "own_error r")
      (simp_all add: withWrites_def Let_def toolError_def error_object_def opt_field_def map_add_def)
  with that es show thesis by blast
qed

section \<open>Every write is accounted for\<close>

definition wr_inv :: "program_writes \<Rightarrow> bool" where
  "wr_inv p \<longleftrightarrow> distinct (wr_inFlight p) \<and> (\<forall>w \<in> set (wr_inFlight p). w < wr_next p) \<and>
     length (wr_states p) + length (wr_inFlight p) = wr_next p"

lemma note_unknown_same [simp]:
  "wr_states (note_unknown f u d h p) = wr_states p" "wr_inFlight (note_unknown f u d h p) = wr_inFlight p"
  "wr_next (note_unknown f u d h p) = wr_next p"
  by (auto simp: note_unknown_def Let_def split: option.split)

lemma length_remove_one: "distinct xs \<Longrightarrow> w \<in> set xs \<Longrightarrow> Suc (length (filter (\<lambda>x. x \<noteq> w) xs)) = length xs"
proof (induction xs)
  case (Cons x xs)
  have "filter (\<lambda>y. y \<noteq> w) xs = xs" if "w \<notin> set xs" using that by (induction xs) auto
  with Cons show ?case by auto
qed simp

lemma wr_inv_record: "wr_inv p \<Longrightarrow> wr_inv (record_write w c p)"
  using length_remove_one [of "wr_inFlight p" w]
  by (auto simp: wr_inv_def record_write_def Let_def split: write_completion.split)

lemma wr_reachable: "reachable wr_init wr_step p \<Longrightarrow> wr_inv p"
proof (erule reachable_invariant)
  show "wr_inv q" if "wr_inv p" "wr_step p q" for p q
    using that(2,1) by (induction rule: wr_step.induct)
      (auto simp: wr_inv_record, auto simp: wr_inv_def begin_write_def close_writes_def)
qed (simp add: wr_inv_def wr_init_def new_program_writes_def)

lemma counts_total: "count_of W_Ok p + count_of W_Failed p + count_of W_Unknown p = length (wr_states p)"
proof -
  have "length (filter (\<lambda>x. x = W_Ok) xs) + length (filter (\<lambda>x. x = W_Failed) xs) +
      length (filter (\<lambda>x. x = W_Unknown) xs) = length xs" for xs
  proof (induction xs)
    case (Cons x xs)
    then show ?case by (cases x) auto
  qed simp
  then show ?thesis by (simp add: count_of_def)
qed

lemma count_pos: "0 < count_of st p \<longleftrightarrow> st \<in> set (wr_states p)"
  by (auto simp: count_of_def filter_empty_conv)

section \<open>Fitting a message\<close>

lemma fitted_loop_fits: "fitted_loop s room budget cur = Some c \<Longrightarrow> int (serializedBytes (J_Str c)) \<le> room"
proof (induction s room budget cur rule: fitted_loop.induct)
  case (1 s room budget cur)
  then show ?case by (auto simp: fitted_loop.simps [of s room budget cur] Let_def split: if_splits)
qed

lemma clipText_nothing: "clipText s 0 = (if s = [] then [] else clipped)"
proof (cases "s = []")
  case False
  then have "utf8 s \<noteq> []" by (cases s) (auto simp: utf8_Cons utf8_unit_nonempty utf8_pair_def Let_def split: list.split)
  with False show ?thesis
    by (simp add: clipText_def Let_def trimEnd_def utf8_decode_def)
qed (simp add: clipText_def Let_def)

lemma fitted_loop_none:
  "fitted_loop s room budget cur = None \<Longrightarrow> cur = clipText s (max 0 budget) \<Longrightarrow>
     room < int (serializedBytes (J_Str (clipText s 0)))"
proof (induction s room budget cur rule: fitted_loop.induct)
  case (1 s room budget cur)
  let ?n = "int (serializedBytes (J_Str cur))"
  show ?case
  proof (cases "?n \<le> room \<or> budget \<le> 0")
    case True
    with "1.prems"(1) have "\<not> ?n \<le> room" "budget \<le> 0"
      by (auto simp: fitted_loop.simps [of s room budget cur] Let_def)
    with "1.prems"(2) show ?thesis by (simp add: max_absorb1)
  next
    case False
    with "1.prems"(1) have "fitted_loop s room (budget * room div ?n - 1) (clipText s (max 0 (budget * room div ?n - 1))) = None"
      by (simp add: fitted_loop.simps [of s room budget cur] Let_def)
    with "1.IH" False show ?thesis by blast
  qed
qed

lemma empty_shorter: "serializedBytes (J_Str []) \<le> serializedBytes (J_Str clipped)"
proof -
  have "2 \<le> length (utf8 (0x22 # r @ [0x22]))" for r :: jstr
  proof -
    have "utf8 (r @ [0x22]) = utf8 r @ utf8 [0x22]" by (rule utf8_append) (simp add: low_surrogate_def)
    then show ?thesis by (simp add: utf8_Cons_plain utf8_ascii high_surrogate_def del: utf8.simps(3))
  qed
  then show ?thesis
    by (simp add: serializedBytes_def json_quote_def utf8_Cons_plain utf8_ascii high_surrogate_def del: utf8.simps(3))
qed

text \<open>A run of a program: two writes sent, the first applied, the second without an answer, both recorded.\<close>

definition demo_unknown :: unknown_write where
  "demo_unknown = \<lparr>uw_address = Some (lit ''crm.create''), uw_code = C_timeout, uw_toolAnswered = False,
     uw_text = lit ''timed out'', uw_cut = False\<rparr>"

definition demo_landed :: program_writes where
  "demo_landed = record_write 0 (Plain W_Ok) (snd (begin_write new_program_writes))"

definition demo_run :: program_writes where
  "demo_run = record_write 1 (Unknown_Completion demo_unknown None None None) (snd (begin_write demo_landed))"

lemmas demo_run_eval = demo_run_def demo_landed_def begin_write_def record_write_def new_program_writes_def
  note_unknown_def completion_state_def Let_def

lemma demo_run_reachable: "reachable wr_init wr_step demo_run"
  unfolding demo_run_def demo_landed_def
  by (rule reachable.step, rule reachable.step, rule reachable.step, rule reachable.step, rule reachable.start)
     (simp add: wr_init_def, rule wr_step.begin_write, rule wr_step.record_write, rule wr_step.begin_write,
      rule wr_step.record_write)

lemma demo_run_states: "wr_states demo_run = [W_Ok, W_Unknown]" "wr_inFlight demo_run = []"
  by (simp_all add: demo_run_eval)

section \<open>Properties\<close>

text \<open>
  C10. A program's result never hides a write whose outcome is unknown: once every write the run sent has been
  recorded and one of them is unknown, whatever the program itself returned, the result is an error that is not
  retryable, under the code of an authorization handoff or \<^verbatim>\<open>write_outcome_unknown\<close>, and its counts add up to all
  writes the run sent.
\<close>

theorem finish_reports_unknown:
  assumes "reachable wr_init wr_step p" "drained p" "W_Unknown \<in> set (wr_states p)"
  shows "tr_isError (finish result secrets n p) \<and>
    (\<exists>es. error_object (finish result secrets n p) = Some es \<and>
      map_of es (lit ''retryable'') = Some (J_Bool False) \<and> map_of es (lit ''code'') = Some (J_Str (unknown_code p)) \<and>
      map_of es (lit ''writes'') = Some (writes_json p)) \<and>
    count_of W_Ok p + count_of W_Failed p + count_of W_Unknown p = wr_next p"
proof -
  have "finish result secrets n p = unknown_result secrets n p"
    using assms(3) count_pos [of W_Unknown p] by (auto simp: finish_def)
  moreover have "length (wr_states p) = wr_next p"
    using wr_reachable [OF assms(1)] assms(2) by (simp add: wr_inv_def drained_def)
  ultimately show ?thesis
    using counts_total [of p] by (metis unknown_result_error)
qed

theorem finish_reports_unknown_witness:
  "tr_isError (finish \<lparr>tr_content = [], tr_isError = False, tr_structured = None\<rparr>
     \<lparr>ss_text = (\<lambda>t. t), ss_redactOpenTail = (\<lambda>t. t)\<rparr> 50000 demo_run)"
proof -
  have "drained demo_run" "W_Unknown \<in> set (wr_states demo_run)" by (simp_all add: drained_def demo_run_states)
  from finish_reports_unknown [OF demo_run_reachable this] show ?thesis by blast
qed

text \<open>
  C11. A run that landed a write never invites its own repetition: whenever a recorded write succeeded and the
  final result is an error, that error is marked as not retryable, names no wait and carries the counts.
\<close>

theorem landed_never_retryable:
  assumes "hasSucceeded p" "tr_isError (finish result secrets n p)"
  shows "\<exists>es. error_object (finish result secrets n p) = Some es \<and>
    map_of es (lit ''retryable'') = Some (J_Bool False) \<and> map_of es (lit ''retryAfterMs'') = None \<and>
    map_of es (lit ''writes'') = Some (writes_json p)"
proof (cases "0 < count_of W_Unknown p")
  case True
  have "finish result secrets n p = unknown_result secrets n p"
    using True count_pos [of W_Unknown p] by (auto simp: finish_def)
  then show ?thesis by (metis unknown_result_error)
next
  case False
  have landed: "0 < count_of W_Ok p" using assms(1) by (simp add: hasSucceeded_def count_pos)
  then have "finish result secrets n p = withWrites result p"
    using False assms count_pos [of W_Ok p] by (auto simp: finish_def split: if_splits)
  then show ?thesis using landed by (metis withWrites_error)
qed

theorem landed_never_retryable_witness:
  "\<exists>es. error_object (finish (toolError (J_Obj [(lit ''retryAfterMs'', J_Num (lit ''5''))]))
     \<lparr>ss_text = (\<lambda>t. t), ss_redactOpenTail = (\<lambda>t. t)\<rparr> 50000 demo_landed) = Some es \<and>
   map_of es (lit ''retryable'') = Some (J_Bool False) \<and> map_of es (lit ''retryAfterMs'') = None"
proof -
  let ?r = "toolError (J_Obj [(lit ''retryAfterMs'', J_Num (lit ''5''))])"
  have st: "wr_states demo_landed = [W_Ok]" by (simp add: demo_run_eval)
  have "hasSucceeded demo_landed" by (simp add: hasSucceeded_def st)
  moreover have "tr_isError (finish ?r \<lparr>ss_text = (\<lambda>t. t), ss_redactOpenTail = (\<lambda>t. t)\<rparr> 50000 demo_landed)"
    by (simp add: finish_def st count_of_def withWrites_def Let_def toolError_def split: option.split)
  ultimately show ?thesis using landed_never_retryable by blast
qed

text \<open>
  C39. Fitting a message into a report always comes to an end: either with a text whose JSON string fits the room,
  or with nothing, and with nothing only if not even the truncation marker fits.
\<close>

theorem fitted_fits:
  "case fitted s room of
     Some c \<Rightarrow> int (serializedBytes (J_Str c)) \<le> room
   | None \<Rightarrow> room < int (serializedBytes (J_Str clipped))"
proof (cases "fitted s room")
  case None
  have "room < int (serializedBytes (J_Str clipped))"
  proof (cases "0 < room")
    case True
    then have "max 0 room = room" by simp
    with None have "room < int (serializedBytes (J_Str (clipText s 0)))"
      unfolding fitted_def by (metis fitted_loop_none)
    moreover have "serializedBytes (J_Str (clipText s 0)) \<le> serializedBytes (J_Str clipped)"
      by (metis clipText_nothing empty_shorter order_refl)
    ultimately show ?thesis by linarith
  next
    case False
    then show ?thesis using serialized_quote_pos [of clipped] by linarith
  qed
  with None show ?thesis by simp
next
  case (Some c)
  then show ?thesis using fitted_loop_fits [of s room room "clipText s room" c] by (simp add: fitted_def)
qed

end
