(* ===== verification/Url_Safety.thy ===== *)
theory Url_Safety
  imports Connecta_Prelude
begin

unbundle bit_operations_syntax

text \<open>
  Which URLs learned from a downstream may be fetched: \<^verbatim>\<open>src/url-safety.ts\<close>. The WHATWG
  parser belongs to the platform and is a parameter: the host name it settles on for a text, or nothing where
  it throws. The reference definitions are the registries of special-purpose addresses as prefix tables over
  whole addresses; the code's comparisons of octets and 16-bit pieces are proved equal to them, and its reader
  of bracketed literals is proved to read back every spelling of an address.
\<close>

section \<open>Text helpers of the language\<close>

text \<open>\<^verbatim>\<open>split\<close> by one unit, and by a unit written twice (from the left, not overlapping).\<close>

fun split_unit :: "code_unit \<Rightarrow> jstr \<Rightarrow> jstr list" where
  "split_unit c [] = [[]]"
| "split_unit c (x # xs) =
     (if x = c then [] # split_unit c xs else (x # hd (split_unit c xs)) # tl (split_unit c xs))"

fun split_pair :: "code_unit \<Rightarrow> jstr \<Rightarrow> jstr list" where
  "split_pair c [] = [[]]"
| "split_pair c [x] = [[x]]"
| "split_pair c (x # y # zs) =
     (if x = c \<and> y = c then [] # split_pair c zs
      else (x # hd (split_pair c (y # zs))) # tl (split_pair c (y # zs)))"

definition hex_unit :: "code_unit \<Rightarrow> bool" where
  "hex_unit c \<longleftrightarrow> digit_unit c \<or> (0x61 \<le> c \<and> c \<le> 0x66)"

definition hex_value :: "code_unit \<Rightarrow> nat" where
  "hex_value c = (if digit_unit c then unat c - 0x30 else unat c - 0x57)"

text \<open>\<^verbatim>\<open>Number\<close> of decimal digits and \<^verbatim>\<open>Number.parseInt\<close> of hexadecimal ones.\<close>

definition digits_value :: "nat \<Rightarrow> jstr \<Rightarrow> nat" where
  "digits_value base s = foldl (\<lambda>n c. n * base + hex_value c) 0 s"

text \<open>A position of an array literal pattern with the default zero.\<close>

definition nth0 :: "nat list \<Rightarrow> nat \<Rightarrow> nat" where
  "nth0 xs i = (if i < length xs then xs ! i else 0)"

section \<open>Classes of hosts\<close>

datatype HostClass = Loopback | Private | Public

definition classifyIpv4 :: "nat list \<Rightarrow> HostClass" where
  "classifyIpv4 octets =
     (let a = nth0 octets 0; b = nth0 octets 1; c = nth0 octets 2 in
      if a = 127 then Loopback
      else if a = 0 \<or> a = 10 \<or> (a = 172 \<and> 16 \<le> b \<and> b \<le> 31) \<or> (a = 192 \<and> b = 168) \<or> (a = 169 \<and> b = 254) \<or>
        (a = 100 \<and> 64 \<le> b \<and> b \<le> 127) \<or> (a = 192 \<and> b = 0 \<and> (c = 0 \<or> c = 2)) \<or> (a = 192 \<and> b = 88 \<and> c = 99) \<or>
        (a = 198 \<and> (b = 18 \<or> b = 19)) \<or> (a = 198 \<and> b = 51 \<and> c = 100) \<or> (a = 203 \<and> b = 0 \<and> c = 113) \<or> 224 \<le> a
      then Private
      else Public)"

text \<open>The pattern \<^verbatim>\<open>IPV4\<close>: four groups of one to three digits between dots.\<close>

definition ipv4_group :: "jstr \<Rightarrow> bool" where
  "ipv4_group g \<longleftrightarrow> list_all digit_unit g \<and> 1 \<le> length g \<and> length g \<le> 3"

definition ipv4Octets :: "jstr \<Rightarrow> nat list option" where
  "ipv4Octets host =
     (let groups = split_unit 0x2e host in
      if length groups = 4 \<and> list_all ipv4_group groups then
        let octets = map (digits_value 10) groups
        in if list_all (\<lambda>n. n \<le> 255) octets then Some octets else None
      else None)"

definition hextet :: "jstr \<Rightarrow> bool" where
  "hextet g \<longleftrightarrow> list_all hex_unit g \<and> 1 \<le> length g \<and> length g \<le> 4"

text \<open>The inner \<^verbatim>\<open>pieces\<close>: an absent or empty part has none.\<close>

definition part_pieces :: "jstr option \<Rightarrow> nat list option" where
  "part_pieces part =
     (case part of None \<Rightarrow> Some []
      | Some s \<Rightarrow>
          if s = [] then Some []
          else let gs = split_unit 0x3a s
               in if list_all hextet gs then Some (map (digits_value 16) gs) else None)"

definition ipv6Pieces :: "jstr \<Rightarrow> nat list option" where
  "ipv6Pieces host =
     (let body = butlast (drop 1 host); halves = split_pair 0x3a body in
      if 2 < length halves then None
      else case (part_pieces (Some (hd halves)), part_pieces (if length halves = 1 then None else Some (halves ! 1))) of
        (Some hs, Some ts) \<Rightarrow>
          let missing = 8 - int (length hs) - int (length ts) in
          if (if length halves = 1 then missing \<noteq> 0 else missing < 0) then None
          else Some (hs @ replicate (nat missing) 0 @ ts)
      | _ \<Rightarrow> None)"

text \<open>The inner \<^verbatim>\<open>v4\<close> and \<^verbatim>\<open>carried\<close>.\<close>

definition v4_in :: "nat \<Rightarrow> nat \<Rightarrow> HostClass" where
  "v4_in high low = classifyIpv4 [drop_bit 8 high, high AND 0xff, drop_bit 8 low, low AND 0xff]"

definition carried :: "nat \<Rightarrow> nat \<Rightarrow> HostClass" where
  "carried high low = (if v4_in high low = Public then Public else Private)"

definition classifyIpv6 :: "nat list \<Rightarrow> HostClass" where
  "classifyIpv6 pieces =
     (let p0 = nth0 pieces 0; p1 = nth0 pieces 1; p2 = nth0 pieces 2; p3 = nth0 pieces 3;
          p4 = nth0 pieces 4; p5 = nth0 pieces 5; p6 = nth0 pieces 6; p7 = nth0 pieces 7;
          zeros = (p0 = 0 \<and> p1 = 0 \<and> p2 = 0 \<and> p3 = 0)
      in if zeros \<and> p4 = 0 \<and> p5 = 0xffff then v4_in p6 p7
         else if zeros \<and> p4 = 0 \<and> p5 = 0 then (if p6 = 0 \<and> p7 = 1 then Loopback else carried p6 p7)
         else if zeros \<and> p4 = 0xffff \<and> p5 = 0 then carried p6 p7
         else if p0 = 0x64 \<and> p1 = 0xff9b \<and> p2 = 0 \<and> p3 = 0 \<and> p4 = 0 \<and> p5 = 0 then carried p6 p7
         else if p0 = 0x2002 then carried p1 p2
         else if p0 AND 0xe000 \<noteq> 0x2000 \<or> (p0 = 0x2001 \<and> (p1 < 0x200 \<or> p1 = 0xdb8)) \<or> (p0 = 0x3fff \<and> p1 < 0x1000)
         then Private
         else Public)"

section \<open>Hosts and learned URLs\<close>

text \<open>The platform's parser: the \<^verbatim>\<open>hostname\<close> of \<^verbatim>\<open>new URL(text)\<close>, nothing where it throws.\<close>

type_synonym url_parser = "jstr \<Rightarrow> jstr option"

definition canonicalHost :: "url_parser \<Rightarrow> jstr \<Rightarrow> jstr option" where
  "canonicalHost parser hostname =
     (if list_ex (\<lambda>c. c = 0x2f \<or> c = 0x5c \<or> c = 0x3f \<or> c = 0x23 \<or> c = 0x40) hostname then None
      else let bracketed = (if has_unit hostname 0x3a \<and> \<not> starts_with hostname [0x5b]
                            then [0x5b] @ hostname @ [0x5d] else hostname)
           in parser (lit ''http://'' @ bracketed @ lit ''/''))"

definition classifyHost :: "url_parser \<Rightarrow> jstr \<Rightarrow> HostClass" where
  "classifyHost parser hostname =
     (case canonicalHost parser hostname of None \<Rightarrow> Private
      | Some host \<Rightarrow>
          if host = [] then Private
          else if starts_with host [0x5b] then
            (case ipv6Pieces host of Some pieces \<Rightarrow> classifyIpv6 pieces | None \<Rightarrow> Private)
          else case ipv4Octets host of Some octets \<Rightarrow> classifyIpv4 octets
          | None \<Rightarrow>
              let name = (if ends_with host [0x2e] then butlast host else host)
              in if name = lit ''localhost'' \<or> ends_with name (lit ''.localhost'') then Loopback else Public)"

record url =
  url_protocol :: jstr
  url_host :: jstr
  url_hostname :: jstr
  url_origin :: jstr

definition learnedUrlRefusal :: "url_parser \<Rightarrow> url \<Rightarrow> url \<Rightarrow> jstr option" where
  "learnedUrlRefusal parser configured target =
     (if url_protocol target \<noteq> lit ''https:'' \<and> url_protocol target \<noteq> lit ''http:'' then
        Some ((if url_host target = [] then lit ''the target'' else url_host target) @ lit '' uses '' @
          url_protocol target @ lit '', not HTTPS'')
      else if url_origin target = url_origin configured then None
      else let targetClass = classifyHost parser (url_hostname target) in
        if targetClass = Loopback \<and> classifyHost parser (url_hostname configured) = Loopback then None
        else if targetClass \<noteq> Public then Some (url_host target @ lit '' is a private, loopback, or link-local address'')
        else if url_protocol target \<noteq> lit ''https:'' then Some (url_host target @ lit '' is not HTTPS'')
        else None)"

section \<open>Reference definitions\<close>

text \<open>An IPv4 address is a number below \<open>2 ^ 32\<close>; a block is a base address and the length of its prefix.\<close>

definition octets4 :: "nat \<Rightarrow> nat list" where
  "octets4 n = [n div 2 ^ 24, n div 2 ^ 16 mod 256, n div 2 ^ 8 mod 256, n mod 256]"

definition address4 :: "nat \<Rightarrow> nat \<Rightarrow> nat \<Rightarrow> nat \<Rightarrow> nat" where
  "address4 a b c d = a * 2 ^ 24 + b * 2 ^ 16 + c * 2 ^ 8 + d"

definition in_block4 :: "nat \<Rightarrow> nat \<times> nat \<Rightarrow> bool" where
  "in_block4 n blk \<longleftrightarrow> n div 2 ^ (32 - snd blk) = fst blk div 2 ^ (32 - snd blk)"

definition loopback4 :: "nat \<times> nat" where
  "loopback4 = (address4 127 0 0 0, 8)"

definition special4 :: "(nat \<times> nat) list" where
  "special4 =
     [(address4 0 0 0 0, 8), (address4 10 0 0 0, 8), (address4 172 16 0 0, 12), (address4 192 168 0 0, 16),
      (address4 169 254 0 0, 16), (address4 100 64 0 0, 10), (address4 192 0 0 0, 24), (address4 192 0 2 0, 24),
      (address4 192 88 99 0, 24), (address4 198 18 0 0, 15), (address4 198 51 100 0, 24), (address4 203 0 113 0, 24),
      (address4 224 0 0 0, 3)]"

definition class4 :: "nat \<Rightarrow> HostClass" where
  "class4 n = (if in_block4 n loopback4 then Loopback else if list_ex (in_block4 n) special4 then Private else Public)"

text \<open>An IPv6 address is eight 16-bit pieces; a block is compared on the 128-bit number they spell.\<close>

definition joined_pieces :: "nat list \<Rightarrow> nat" where
  "joined_pieces ps = foldl (\<lambda>n p. n * 2 ^ 16 + p) 0 ps"

definition in_block6 :: "nat list \<Rightarrow> nat list \<times> nat \<Rightarrow> bool" where
  "in_block6 ps blk \<longleftrightarrow> joined_pieces ps div 2 ^ (128 - snd blk) = joined_pieces (fst blk) div 2 ^ (128 - snd blk)"

definition address6 :: "nat list \<Rightarrow> bool" where
  "address6 ps \<longleftrightarrow> length ps = 8 \<and> list_all (\<lambda>p. p < 2 ^ 16) ps"

text \<open>The transitional forms, each with the position of the IPv4 address it carries.\<close>

definition mapped6 :: "nat list \<times> nat" where
  "mapped6 = ([0, 0, 0, 0, 0, 0xffff, 0, 0], 96)"

definition carriers6 :: "((nat list \<times> nat) \<times> nat) list" where
  "carriers6 =
     [(([0, 0, 0, 0, 0, 0, 0, 0], 96), 6), (([0, 0, 0, 0, 0xffff, 0, 0, 0], 96), 6),
      (([0x64, 0xff9b, 0, 0, 0, 0, 0, 0], 96), 6), (([0x2002, 0, 0, 0, 0, 0, 0, 0], 16), 1)]"

definition global6 :: "nat list \<times> nat" where
  "global6 = ([0x2000, 0, 0, 0, 0, 0, 0, 0], 3)"

definition special6 :: "(nat list \<times> nat) list" where
  "special6 =
     [([0x2001, 0, 0, 0, 0, 0, 0, 0], 23), ([0x2001, 0xdb8, 0, 0, 0, 0, 0, 0], 32), ([0x3fff, 0, 0, 0, 0, 0, 0, 0], 20)]"

definition address_at :: "nat list \<Rightarrow> nat \<Rightarrow> nat" where
  "address_at ps i = ps ! i * 2 ^ 16 + ps ! Suc i"

definition class6 :: "nat list \<Rightarrow> HostClass" where
  "class6 ps =
     (if in_block6 ps mapped6 then class4 (address_at ps 6)
      else if ps = [0, 0, 0, 0, 0, 0, 0, 1] then Loopback
      else case find (\<lambda>(blk, _). in_block6 ps blk) carriers6 of
        Some (_, i) \<Rightarrow> if class4 (address_at ps i) = Public then Public else Private
      | None \<Rightarrow> if in_block6 ps global6 \<and> \<not> list_ex (in_block6 ps) special6 then Public else Private)"

text \<open>The spellings of an address: dotted decimal; hextets without leading zeros, with or without one gap of zeros.\<close>

definition ipv4_text :: "nat \<Rightarrow> jstr" where
  "ipv4_text n =
     decimal (n div 2 ^ 24) @ [0x2e] @ decimal (n div 2 ^ 16 mod 256) @ [0x2e] @ decimal (n div 2 ^ 8 mod 256) @ [0x2e] @
       decimal (n mod 256)"

fun hex_text :: "nat \<Rightarrow> jstr" where
  "hex_text n = (if n < 16 then [hex_digit n] else hex_text (n div 16) @ [hex_digit (n mod 16)])"

declare hex_text.simps [simp del]

fun hextets :: "nat list \<Rightarrow> jstr" where
  "hextets [] = []"
| "hextets [p] = hex_text p"
| "hextets (p # q # ps) = hex_text p @ [0x3a] @ hextets (q # ps)"

text \<open>A gap is the interval of positions left out; every piece in it is zero.\<close>

definition gap_ok :: "nat list \<Rightarrow> (nat \<times> nat) option \<Rightarrow> bool" where
  "gap_ok ps gap =
     (case gap of None \<Rightarrow> True
      | Some (i, j) \<Rightarrow> i \<le> j \<and> j \<le> length ps \<and> list_all (\<lambda>p. p = 0) (take (j - i) (drop i ps)))"

definition ipv6_text :: "nat list \<Rightarrow> (nat \<times> nat) option \<Rightarrow> jstr" where
  "ipv6_text ps gap =
     [0x5b] @ (case gap of None \<Rightarrow> hextets ps
               | Some (i, j) \<Rightarrow> hextets (take i ps) @ [0x3a, 0x3a] @ hextets (drop j ps)) @ [0x5d]"

section \<open>Addresses as numbers\<close>

lemma digits_eq:
  fixes a b x y B :: nat
  assumes "b < B" "y < B"
  shows "a * B + b = x * B + y \<longleftrightarrow> a = x \<and> b = y"
proof
  assume eq: "a * B + b = x * B + y"
  then have "(a * B + b) div B = (x * B + y) div B" "(a * B + b) mod B = (x * B + y) mod B" by simp_all
  with assms show "a = x \<and> b = y" by simp
qed simp

lemma div_is: "0 < q \<Longrightarrow> n div q = k \<longleftrightarrow> k * q \<le> n \<and> n < k * q + (q :: nat)"
  using div_nat_eqI [of q k n] dividend_less_div_times [of q n] by (auto simp: mult.commute)

text \<open>The leading bits of an address, by the length of the prefix.\<close>

lemma address_div:
  assumes "b < 256" "c < 256" "d < 256"
  shows "address4 a b c d div 2 ^ 29 = a div 32"
    and "address4 a b c d div 2 ^ 24 = a"
    and "address4 a b c d div 2 ^ 22 = a * 4 + b div 64"
    and "address4 a b c d div 2 ^ 20 = a * 16 + b div 16"
    and "address4 a b c d div 2 ^ 17 = a * 128 + b div 2"
    and "address4 a b c d div 2 ^ 16 = a * 256 + b"
    and "address4 a b c d div 2 ^ 8 = (a * 256 + b) * 256 + c"
proof -
  have one: "(x * 256 + y) div 256 = x" if "y < 256" for x y :: nat using that by simp
  have n: "address4 a b c d = ((a * 256 + b) * 256 + c) * 256 + d" by (simp add: address4_def)
  show c8: "address4 a b c d div 2 ^ 8 = (a * 256 + b) * 256 + c" using one [OF assms(3)] by (simp add: n)
  have "address4 a b c d div 2 ^ 16 = address4 a b c d div 2 ^ 8 div 2 ^ 8" by (simp add: div_mult2_eq)
  also have "\<dots> = ((a * 256 + b) * 256 + c) div 256" by (simp only: c8) simp
  finally show c16: "address4 a b c d div 2 ^ 16 = a * 256 + b" using one [OF assms(2)] by simp
  have up: "address4 a b c d div 2 ^ (16 + k) = (a * 256 + b) div 2 ^ k" for k
    using c16 by (simp only: power_add div_mult2_eq)
  show "address4 a b c d div 2 ^ 24 = a" using up [of 8] one [OF assms(1)] by simp
  show "address4 a b c d div 2 ^ 29 = a div 32" using up [of 13] assms(1) by simp
  show "address4 a b c d div 2 ^ 22 = a * 4 + b div 64" using up [of 6] by simp
  show "address4 a b c d div 2 ^ 20 = a * 16 + b div 16" using up [of 4] by simp
  show "address4 a b c d div 2 ^ 17 = a * 128 + b div 2" using up [of 1] by simp
qed

lemma octets_of_address:
  assumes "b < 256" "c < 256" "d < 256"
  shows "octets4 (address4 a b c d) = [a, b, c, d]"
proof -
  have "address4 a b c d = ((a * 256 + b) * 256 + c) * 256 + d" by (simp add: address4_def)
  then have "address4 a b c d mod 256 = d" using assms(3) by (simp only: mod_mult_self3 mod_less)
  then show ?thesis
    unfolding octets4_def address_div [OF assms] using assms by (simp only: mod_mult_self3 mod_less)
qed

lemma octets_address:
  assumes "n < 2 ^ 32"
  obtains a b c d where "octets4 n = [a, b, c, d]" "a < 256" "b < 256" "c < 256" "d < 256" "n = address4 a b c d"
proof -
  define m k where "m = n div 256" and "k = m div 256"
  define a b c d where "a = k div 256" and "b = k mod 256" and "c = m mod 256" and "d = n mod 256"
  have "n = m * 256 + d" "m = k * 256 + c" "k = a * 256 + b"
    unfolding a_def b_def c_def d_def k_def m_def by (rule div_mult_mod_eq [symmetric])+
  then have n: "n = address4 a b c d" by (simp add: address4_def)
  have bounds: "b < 256" "c < 256" "d < 256" by (simp_all add: b_def c_def d_def)
  moreover have "a < 256" using assms n unfolding address4_def by simp
  moreover have "octets4 n = [a, b, c, d]" unfolding n by (rule octets_of_address [OF bounds])
  ultimately show ?thesis using n that by blast
qed

lemma block_tests:
  assumes "a < 256" "b < 256" "c < 256" "d < 256"
  shows "in_block4 (address4 a b c d) (address4 x 0 0 0, 8) \<longleftrightarrow> a = x"
    and "in_block4 (address4 a b c d) (address4 224 0 0 0, 3) \<longleftrightarrow> 224 \<le> a"
    and "y < 256 \<Longrightarrow> in_block4 (address4 a b c d) (address4 x y 0 0, 16) \<longleftrightarrow> a = x \<and> b = y"
    and "y < 256 \<Longrightarrow> z < 256 \<Longrightarrow> in_block4 (address4 a b c d) (address4 x y z 0, 24) \<longleftrightarrow> a = x \<and> b = y \<and> c = z"
    and "in_block4 (address4 a b c d) (address4 100 64 0 0, 10) \<longleftrightarrow> a = 100 \<and> 64 \<le> b \<and> b \<le> 127"
    and "in_block4 (address4 a b c d) (address4 172 16 0 0, 12) \<longleftrightarrow> a = 172 \<and> 16 \<le> b \<and> b \<le> 31"
    and "in_block4 (address4 a b c d) (address4 198 18 0 0, 15) \<longleftrightarrow> a = 198 \<and> (b = 18 \<or> b = 19)"
proof -
  note divs = address_div [of b c d a, OF assms(2-4)]
  have ranges: "a div 32 = 7 \<longleftrightarrow> 224 \<le> a" "a * 4 + b div 64 = 401 \<longleftrightarrow> a = 100 \<and> 64 \<le> b \<and> b \<le> 127"
    "a * 16 + b div 16 = 2753 \<longleftrightarrow> a = 172 \<and> 16 \<le> b \<and> b \<le> 31" "a * 128 + b div 2 = 25353 \<longleftrightarrow> a = 198 \<and> (b = 18 \<or> b = 19)"
    using digits_eq [of "b div 64" 4 1 a 100] digits_eq [of "b div 16" 16 1 a 172] digits_eq [of "b div 2" 128 9 a 198]
      assms(1,2) by (auto simp: div_is)
  show "in_block4 (address4 a b c d) (address4 x 0 0 0, 8) \<longleftrightarrow> a = x"
    using divs(2) address_div(2) [of 0 0 0 x] by (simp add: in_block4_def)
  show "in_block4 (address4 a b c d) (address4 224 0 0 0, 3) \<longleftrightarrow> 224 \<le> a"
    using divs(1) address_div(1) [of 0 0 0 224] ranges(1) by (simp add: in_block4_def)
  show "in_block4 (address4 a b c d) (address4 x y 0 0, 16) \<longleftrightarrow> a = x \<and> b = y" if "y < 256"
    using divs(6) address_div(6) [of y 0 0 x] digits_eq [OF assms(2) that] that by (simp add: in_block4_def)
  show "in_block4 (address4 a b c d) (address4 x y z 0, 24) \<longleftrightarrow> a = x \<and> b = y \<and> c = z" if "y < 256" "z < 256"
  proof -
    have "in_block4 (address4 a b c d) (address4 x y z 0, 24) \<longleftrightarrow> (a * 256 + b) * 256 + c = (x * 256 + y) * 256 + z"
      using divs(7) address_div(7) [of y z 0 x] that by (simp add: in_block4_def)
    then show ?thesis using that assms(2,3) by (simp only: digits_eq conj_assoc)
  qed
  show "in_block4 (address4 a b c d) (address4 100 64 0 0, 10) \<longleftrightarrow> a = 100 \<and> 64 \<le> b \<and> b \<le> 127"
    using divs(3) address_div(3) [of 64 0 0 100] ranges(2) by (simp add: in_block4_def)
  show "in_block4 (address4 a b c d) (address4 172 16 0 0, 12) \<longleftrightarrow> a = 172 \<and> 16 \<le> b \<and> b \<le> 31"
    using divs(4) address_div(4) [of 16 0 0 172] ranges(3) by (simp add: in_block4_def)
  show "in_block4 (address4 a b c d) (address4 198 18 0 0, 15) \<longleftrightarrow> a = 198 \<and> (b = 18 \<or> b = 19)"
    using divs(5) address_div(5) [of 18 0 0 198] ranges(4) by (simp add: in_block4_def)
qed

lemma nth0_Cons: "nth0 (x # xs) 0 = x" "nth0 (x # xs) (Suc i) = nth0 xs i" "nth0 [] i = 0"
  by (simp_all add: nth0_def)

lemma classify_octets:
  assumes "n < 2 ^ 32"
  shows "classifyIpv4 (octets4 n) = class4 n"
proof -
  obtain a b c d where o: "octets4 n = [a, b, c, d]" and bounds: "a < 256" "b < 256" "c < 256" "d < 256"
    and n: "n = address4 a b c d" using octets_address [OF assms] .
  have "in_block4 n loopback4 \<longleftrightarrow> a = 127" by (simp add: n loopback4_def block_tests [OF bounds])
  moreover have "list_ex (in_block4 n) special4 \<longleftrightarrow>
      a = 0 \<or> a = 10 \<or> (a = 172 \<and> 16 \<le> b \<and> b \<le> 31) \<or> (a = 192 \<and> b = 168) \<or> (a = 169 \<and> b = 254) \<or>
      (a = 100 \<and> 64 \<le> b \<and> b \<le> 127) \<or> (a = 192 \<and> b = 0 \<and> (c = 0 \<or> c = 2)) \<or> (a = 192 \<and> b = 88 \<and> c = 99) \<or>
      (a = 198 \<and> (b = 18 \<or> b = 19)) \<or> (a = 198 \<and> b = 51 \<and> c = 100) \<or> (a = 203 \<and> b = 0 \<and> c = 113) \<or> 224 \<le> a"
    unfolding special4_def n by (simp add: block_tests [OF bounds] conj_disj_distribL)
  ultimately show ?thesis
    by (simp only: o class4_def classifyIpv4_def Let_def nth0_Cons One_nat_def numeral_2_eq_2)
qed

text \<open>The number of eight pieces, and its leading bits.\<close>

lemma pieces_snoc [simp]: "joined_pieces (ps @ [p]) = joined_pieces ps * 2 ^ 16 + p"
  by (simp add: joined_pieces_def)

lemma joined_div:
  "list_all (\<lambda>p. p < 2 ^ 16) qs \<Longrightarrow> joined_pieces (ps @ qs) div 2 ^ (16 * length qs) = joined_pieces ps"
proof (induction qs rule: rev_induct)
  case (snoc q qs)
  have "(2 :: nat) ^ (16 * length (qs @ [q])) = 2 ^ 16 * 2 ^ (16 * length qs)" by (simp add: power_add)
  then have "joined_pieces (ps @ qs @ [q]) div 2 ^ (16 * length (qs @ [q])) =
      (joined_pieces (ps @ qs) * 2 ^ 16 + q) div 2 ^ 16 div 2 ^ (16 * length qs)"
    using pieces_snoc [of "ps @ qs" q] by (simp only: append_assoc div_mult2_eq)
  with snoc show ?case by simp
qed simp

lemma joined_inject:
  assumes "length ps = length qs" "list_all (\<lambda>p. p < 2 ^ 16) ps" "list_all (\<lambda>p. p < 2 ^ 16) qs"
  shows "joined_pieces ps = joined_pieces qs \<longleftrightarrow> ps = qs"
  using assms
proof (induction ps arbitrary: qs rule: rev_induct)
  case (snoc p ps)
  then obtain q rs where qs: "qs = rs @ [q]" by (cases qs rule: rev_cases) auto
  with snoc show ?case using digits_eq [of p "2 ^ 16" q "joined_pieces ps" "joined_pieces rs"] by simp
qed simp

lemma block6_prefix:
  assumes "list_all (\<lambda>p. p < 2 ^ 16) (ps @ qs)" "list_all (\<lambda>p. p < 2 ^ 16) (bs @ cs)"
    and "length ps = length bs" "length ps + length qs = 8" "length bs + length cs = 8" "length ps = Suc k" "len = 16 * Suc k - e" "e \<le> 16"
  shows "in_block6 (ps @ qs) (bs @ cs, len) \<longleftrightarrow> joined_pieces ps div 2 ^ e = joined_pieces bs div 2 ^ e"
proof -
  have len: "128 - len = 16 * length qs + e" "128 - len = 16 * length cs + e" using assms(3-8) by simp_all
  have "joined_pieces (ps @ qs) div 2 ^ (128 - len) = joined_pieces ps div 2 ^ e"
    unfolding len(1) power_add div_mult2_eq using joined_div [of qs ps] assms(1) by simp
  moreover have "joined_pieces (bs @ cs) div 2 ^ (128 - len) = joined_pieces bs div 2 ^ e"
    unfolding len(2) power_add div_mult2_eq using joined_div [of cs bs] assms(2) by simp
  ultimately show ?thesis by (simp add: in_block6_def)
qed

lemma block6_whole:
  assumes "address6 ps" "address6 bs" "0 < n" "n \<le> 8"
  shows "in_block6 ps (bs, 16 * n) \<longleftrightarrow> take n ps = take n bs"
proof -
  obtain k where n: "n = Suc k" using assms(3) gr0_implies_Suc by blast
  have bounds: "list_all (\<lambda>p. p < 2 ^ 16) (take n ps @ drop n ps)" "list_all (\<lambda>p. p < 2 ^ 16) (take n bs @ drop n bs)"
    using assms(1,2) by (simp_all add: address6_def)
  have "in_block6 (take n ps @ drop n ps) (take n bs @ drop n bs, 16 * n) \<longleftrightarrow>
      joined_pieces (take n ps) div 2 ^ 0 = joined_pieces (take n bs) div 2 ^ 0"
    using assms by (intro block6_prefix [OF bounds, where k = k]) (auto simp: address6_def n)
  also have "\<dots> \<longleftrightarrow> take n ps = take n bs"
    using bounds assms(1,2) joined_inject [of "take n ps" "take n bs"] unfolding list_all_append by (simp add: address6_def)
  finally show ?thesis by simp
qed

text \<open>The bit operations of the code on numbers in range.\<close>

lemma carried_octets:
  assumes "high < 2 ^ 16" "low < 2 ^ 16"
  shows "[drop_bit 8 high, high AND 0xff, drop_bit 8 low, low AND 0xff] = octets4 (high * 2 ^ 16 + low)"
proof -
  have mask: "n AND 0xff = n mod 256" for n :: nat
    using take_bit_eq_mask [of 8 n] by (simp add: take_bit_eq_mod mask_eq_exp_minus_1)
  have bounds: "low div 256 < 256" "low mod 256 < 256" "high mod 256 < 256" using assms by simp_all
  define x y z w where "x = high div 256" and "y = high mod 256" and "z = low div 256" and "w = low mod 256"
  have "high = x * 256 + y" "low = z * 256 + w"
    unfolding x_def y_def z_def w_def by (rule div_mult_mod_eq [symmetric])+
  then have "high * 2 ^ 16 + low = address4 x y z w" by (simp add: address4_def)
  then have "high * 2 ^ 16 + low = address4 (high div 256) (high mod 256) (low div 256) (low mod 256)"
    by (simp only: x_def y_def z_def w_def)
  then show ?thesis
    using octets_of_address [OF bounds(3,1,2), of "high div 256"] by (simp add: drop_bit_eq_div mask)
qed

lemma v4_in_class: "high < 2 ^ 16 \<Longrightarrow> low < 2 ^ 16 \<Longrightarrow> v4_in high low = class4 (high * 2 ^ 16 + low)"
  unfolding v4_in_def by (subst carried_octets, assumption+, rule classify_octets) simp

lemma unicast_bits:
  assumes "p < 2 ^ 16"
  shows "p AND 0xe000 = 0x2000 \<longleftrightarrow> p div 2 ^ 13 = (1 :: nat)"
proof -
  have "p AND push_bit 13 m = push_bit 13 (drop_bit 13 p AND m)" for m
    by (rule bit_eqI) (auto simp: bit_simps)
  from this [of 7] have "p AND push_bit 13 7 = push_bit 13 (drop_bit 13 p AND 7)" .
  moreover have "push_bit 13 7 = (0xe000 :: nat)" by (simp add: push_bit_eq_mult)
  moreover have "drop_bit 13 p AND 7 = p div 2 ^ 13"
    using take_bit_eq_mask [of 3 "drop_bit 13 p"] assms by (simp add: take_bit_eq_mod drop_bit_eq_div mask_eq_exp_minus_1 div_less_iff_less_mult)
  ultimately show ?thesis by (simp add: push_bit_eq_mult)
qed

lemma partial_blocks:
  assumes "address6 [p0, p1, p2, p3, p4, p5, p6, p7]"
  shows "in_block6 [p0, p1, p2, p3, p4, p5, p6, p7] global6 \<longleftrightarrow> p0 div 2 ^ 13 = 1"
    and "in_block6 [p0, p1, p2, p3, p4, p5, p6, p7] ([0x2001, 0, 0, 0, 0, 0, 0, 0], 23) \<longleftrightarrow> p0 = 0x2001 \<and> p1 < 0x200"
    and "in_block6 [p0, p1, p2, p3, p4, p5, p6, p7] ([0x3fff, 0, 0, 0, 0, 0, 0, 0], 20) \<longleftrightarrow> p0 = 0x3fff \<and> p1 < 0x1000"
proof -
  have b: "p1 < 2 ^ 16" using assms by (simp add: address6_def)
  have bounds: "list_all (\<lambda>p. p < 2 ^ 16) ([p0] @ [p1, p2, p3, p4, p5, p6, p7])"
    "list_all (\<lambda>p. p < 2 ^ 16) ([p0, p1] @ [p2, p3, p4, p5, p6, p7])" using assms by (simp_all add: address6_def)
  have base: "list_all (\<lambda>p. p < 2 ^ 16) ([0x2000 :: nat] @ [0, 0, 0, 0, 0, 0, 0])"
    "list_all (\<lambda>p. p < 2 ^ 16) ([0x2001 :: nat, 0] @ [0, 0, 0, 0, 0, 0])" "list_all (\<lambda>p. p < 2 ^ 16) ([0x3fff :: nat, 0] @ [0, 0, 0, 0, 0, 0])"
    by simp_all
  show "in_block6 [p0, p1, p2, p3, p4, p5, p6, p7] global6 \<longleftrightarrow> p0 div 2 ^ 13 = 1"
  proof -
    have "in_block6 ([p0] @ [p1, p2, p3, p4, p5, p6, p7]) ([0x2000] @ [0, 0, 0, 0, 0, 0, 0], 3) \<longleftrightarrow>
        joined_pieces [p0] div 2 ^ 13 = joined_pieces [0x2000] div 2 ^ 13"
      by (rule block6_prefix [OF bounds(1) base(1), where k = 0]) simp_all
    moreover have "joined_pieces [p0] = p0" "joined_pieces [0x2000] = 0x2000" by (simp_all add: joined_pieces_def)
    ultimately show ?thesis unfolding global6_def by simp
  qed
  have "p1 div 512 < 128" "p1 div 4096 < 16" using b by (simp_all add: div_less_iff_less_mult)
  then have "p0 * 128 + p1 div 512 = 0x2001 * 128 + 0 \<longleftrightarrow> p0 = 0x2001 \<and> p1 div 512 = 0"
    "p0 * 16 + p1 div 4096 = 0x3fff * 16 + 0 \<longleftrightarrow> p0 = 0x3fff \<and> p1 div 4096 = 0"
    by (intro digits_eq; simp)+
  then show "in_block6 [p0, p1, p2, p3, p4, p5, p6, p7] ([0x2001, 0, 0, 0, 0, 0, 0, 0], 23) \<longleftrightarrow> p0 = 0x2001 \<and> p1 < 0x200"
    "in_block6 [p0, p1, p2, p3, p4, p5, p6, p7] ([0x3fff, 0, 0, 0, 0, 0, 0, 0], 20) \<longleftrightarrow> p0 = 0x3fff \<and> p1 < 0x1000"
    using block6_prefix [OF bounds(2) base(2), of 1 23 9] block6_prefix [OF bounds(2) base(3), of 1 20 12]
      div_mult_self3 [of 512 "p0 * 128" p1] div_mult_self3 [of 4096 "p0 * 16" p1]
    by (simp_all add: joined_pieces_def div_eq_0_iff mult.commute [of p0])
qed

lemma classify_pieces:
  assumes "address6 ps"
  shows "classifyIpv6 ps = class6 ps"
proof -
  from assms have "length ps = 8" by (simp add: address6_def)
  then obtain p0 p1 p2 p3 p4 p5 p6 p7 where ps: "ps = [p0, p1, p2, p3, p4, p5, p6, p7]"
    by (auto simp: numeral_eq_Suc length_Suc_conv)
  have bounds: "p0 < 2 ^ 16" "p1 < 2 ^ 16" "p2 < 2 ^ 16" "p6 < 2 ^ 16" "p7 < 2 ^ 16" using assms by (simp_all add: ps address6_def)
  have whole: "in_block6 ps (bs, 16 * n) \<longleftrightarrow> take n ps = take n bs" if "address6 bs" "0 < n" "n \<le> 8" for bs n
    using block6_whole [OF assms that] .
  have ninety: "in_block6 ps (bs, 96) \<longleftrightarrow> take 6 ps = take 6 bs" if "address6 bs" for bs
    using whole [OF that, of 6] by simp
  note part = partial_blocks [OF assms [unfolded ps], folded ps]
  have blocks: "in_block6 ps mapped6 \<longleftrightarrow> p0 = 0 \<and> p1 = 0 \<and> p2 = 0 \<and> p3 = 0 \<and> p4 = 0 \<and> p5 = 0xffff"
    unfolding mapped6_def by (subst ninety) (simp_all add: address6_def ps)
  have zero: "in_block6 ps ([0, 0, 0, 0, 0, 0, 0, 0], 96) \<longleftrightarrow> p0 = 0 \<and> p1 = 0 \<and> p2 = 0 \<and> p3 = 0 \<and> p4 = 0 \<and> p5 = 0"
    by (subst ninety) (simp_all add: address6_def ps)
  have trans: "in_block6 ps ([0, 0, 0, 0, 0xffff, 0, 0, 0], 96) \<longleftrightarrow> p0 = 0 \<and> p1 = 0 \<and> p2 = 0 \<and> p3 = 0 \<and> p4 = 0xffff \<and> p5 = 0"
    by (subst ninety) (simp_all add: address6_def ps)
  have nat64: "in_block6 ps ([0x64, 0xff9b, 0, 0, 0, 0, 0, 0], 96) \<longleftrightarrow> p0 = 0x64 \<and> p1 = 0xff9b \<and> p2 = 0 \<and> p3 = 0 \<and> p4 = 0 \<and> p5 = 0"
    by (subst ninety) (simp_all add: address6_def ps)
  have six: "in_block6 ps ([0x2002, 0, 0, 0, 0, 0, 0, 0], 16) \<longleftrightarrow> p0 = 0x2002"
    using whole [of "[0x2002, 0, 0, 0, 0, 0, 0, 0]" 1] by (simp add: address6_def ps)
  have doc: "in_block6 ps ([0x2001, 0xdb8, 0, 0, 0, 0, 0, 0], 32) \<longleftrightarrow> p0 = 0x2001 \<and> p1 = 0xdb8"
    using whole [of "[0x2001, 0xdb8, 0, 0, 0, 0, 0, 0]" 2] by (simp add: address6_def ps)
  have atp: "address_at ps 6 = p6 * 2 ^ 16 + p7" "address_at ps 1 = p1 * 2 ^ 16 + p2" by (simp_all add: address_at_def ps)
  have one: "ps = [0, 0, 0, 0, 0, 0, 0, 1] \<longleftrightarrow>
      p0 = 0 \<and> p1 = 0 \<and> p2 = 0 \<and> p3 = 0 \<and> p4 = 0 \<and> p5 = 0 \<and> p6 = 0 \<and> p7 = 1" by (simp add: ps)
  have nths: "nth0 ps 0 = p0" "nth0 ps 1 = p1" "nth0 ps 2 = p2" "nth0 ps 3 = p3" "nth0 ps 4 = p4" "nth0 ps 5 = p5"
    "nth0 ps 6 = p6" "nth0 ps 7 = p7" by (simp_all add: nth0_def ps)
  have rest: "in_block6 ps global6 \<and> \<not> list_ex (in_block6 ps) special6 \<longleftrightarrow>
      \<not> (p0 AND 0xe000 \<noteq> 0x2000 \<or> (p0 = 0x2001 \<and> (p1 < 0x200 \<or> p1 = 0xdb8)) \<or> (p0 = 0x3fff \<and> p1 < 0x1000))"
    unfolding special6_def list_ex_Cons_iff list_ex_Nil_iff part doc unicast_bits [OF bounds(1)] by blast
  have swap: "(if \<not> P then x else y) = (if P then y else x)" for P and x y :: HostClass by simp
  have code: "classifyIpv6 ps =
      (if in_block6 ps mapped6 then v4_in p6 p7
       else if in_block6 ps ([0, 0, 0, 0, 0, 0, 0, 0], 96) then (if p6 = 0 \<and> p7 = 1 then Loopback else carried p6 p7)
       else if in_block6 ps ([0, 0, 0, 0, 0xffff, 0, 0, 0], 96) then carried p6 p7
       else if in_block6 ps ([0x64, 0xff9b, 0, 0, 0, 0, 0, 0], 96) then carried p6 p7
       else if in_block6 ps ([0x2002, 0, 0, 0, 0, 0, 0, 0], 16) then carried p1 p2
       else if in_block6 ps global6 \<and> \<not> list_ex (in_block6 ps) special6 then Public else Private)"
    unfolding classifyIpv6_def Let_def nths blocks zero trans nat64 six rest swap by (simp only: conj_assoc)
  have one': "ps = [0, 0, 0, 0, 0, 0, 0, 1] \<longleftrightarrow> in_block6 ps ([0, 0, 0, 0, 0, 0, 0, 0], 96) \<and> p6 = 0 \<and> p7 = 1"
    unfolding one zero by (simp only: conj_assoc)
  have at: "class4 (address_at ps 6) = v4_in p6 p7" "class4 (address_at ps 1) = v4_in p1 p2"
    unfolding atp using v4_in_class [OF bounds(4,5)] v4_in_class [OF bounds(2,3)] by simp_all
  show ?thesis
    unfolding code class6_def carriers6_def one' carried_def at
    by (cases "in_block6 ps mapped6"; cases "in_block6 ps ([0, 0, 0, 0, 0, 0, 0, 0], 96)";
        cases "in_block6 ps ([0, 0, 0, 0, 0xffff, 0, 0, 0], 96)"; cases "in_block6 ps ([0x64, 0xff9b, 0, 0, 0, 0, 0, 0], 96)";
        cases "in_block6 ps ([0x2002, 0, 0, 0, 0, 0, 0, 0], 16)"; simp only: at find.simps case_prod_conv option.case if_True if_False simp_thms)
qed

section \<open>Reading spellings back\<close>

lemma split_unit_none: "c \<notin> set s \<Longrightarrow> split_unit c s = [s]"
  by (induction s) auto

lemma split_unit_sep: "c \<notin> set s \<Longrightarrow> split_unit c (s @ c # r) = s # split_unit c r"
  by (induction s) auto

lemma split_unit_not_Nil: "split_unit c s \<noteq> []"
  by (cases s) auto

text \<open>A text in which a unit never stands twice in a row is one part; one double separator makes two.\<close>

fun no_double :: "code_unit \<Rightarrow> jstr \<Rightarrow> bool" where
  "no_double c (x # y # zs) = (\<not> (x = c \<and> y = c) \<and> no_double c (y # zs))"
| "no_double c _ = True"

lemma split_pair_none: "no_double c s \<Longrightarrow> split_pair c s = [s]"
  by (induction c s rule: no_double.induct) auto

lemma split_pair_sep:
  "no_double c s \<Longrightarrow> (s = [] \<or> last s \<noteq> c) \<Longrightarrow> no_double c r \<Longrightarrow> split_pair c (s @ c # c # r) = [s, r]"
proof (induction s)
  case Nil
  then show ?case by (simp add: split_pair_none)
next
  case (Cons x s)
  show ?case
  proof (cases s)
    case Nil
    with Cons.prems show ?thesis by (simp add: split_pair_none)
  next
    case (Cons y zs)
    with Cons.prems Cons.IH show ?thesis by auto
  qed
qed

lemma unat_hex_digit: "n < 16 \<Longrightarrow> unat (hex_digit n) = (if n < 10 then 0x30 + n else 0x57 + n)"
  by (simp add: hex_digit_def unsigned_of_nat take_bit_nat_eq_self del: of_nat_add)

lemma digit_of_value: "n < 10 \<Longrightarrow> digit_unit (hex_digit n) \<and> hex_value (hex_digit n) = n"
  using unat_hex_digit [of n] by (simp add: digit_unit_def hex_value_def word_le_nat_alt)

lemma hex_of_value: "n < 16 \<Longrightarrow> hex_unit (hex_digit n) \<and> hex_value (hex_digit n) = n"
  using unat_hex_digit [of n] by (auto simp: hex_unit_def digit_unit_def hex_value_def word_le_nat_alt)

lemma digits_value_snoc: "digits_value base (s @ [c]) = digits_value base s * base + hex_value c"
  by (simp add: digits_value_def)

lemma decimal_digits: "list_all digit_unit (decimal n) \<and> decimal n \<noteq> [] \<and> digits_value 10 (decimal n) = n"
proof (induction n rule: decimal.induct)
  case (1 n)
  have eq: "decimal n = (if n < 10 then [hex_digit n] else decimal (n div 10) @ [hex_digit (n mod 10)])"
    by (subst decimal.simps) (simp add: hex_digit_def)
  show ?case
    using 1 digit_of_value [of n] digit_of_value [of "n mod 10"]
    by (auto simp: eq digits_value_snoc) (simp add: digits_value_def)
qed

lemma hex_digits: "list_all hex_unit (hex_text n) \<and> hex_text n \<noteq> [] \<and> digits_value 16 (hex_text n) = n"
proof (induction n rule: hex_text.induct)
  case (1 n)
  then show ?case
    using hex_of_value [of n] hex_of_value [of "n mod 16"] hex_text.simps [of n]
    by (auto simp: digits_value_snoc) (simp add: digits_value_def)
qed

lemma decimal_length: "n < 1000 \<Longrightarrow> length (decimal n) \<le> 3"
  using decimal.simps [of n] decimal.simps [of "n div 10"] decimal.simps [of "n div 10 div 10"] by auto

lemma hex_length: "n < 2 ^ 16 \<Longrightarrow> length (hex_text n) \<le> 4"
  using hex_text.simps [of n] hex_text.simps [of "n div 16"] hex_text.simps [of "n div 16 div 16"]
    hex_text.simps [of "n div 16 div 16 div 16"] by auto

lemma decimal_no_dot: "0x2e \<notin> set (decimal n)"
  using decimal_digits [of n] by (auto simp: list_all_iff digit_unit_def)

lemma decimal_group: "n < 256 \<Longrightarrow> ipv4_group (decimal n)"
  using decimal_digits [of n] decimal_length [of n] by (simp add: ipv4_group_def Suc_le_eq)

lemma ipv4Octets_text:
  assumes "n < 2 ^ 32"
  shows "ipv4Octets (ipv4_text n) = Some (octets4 n)"
proof -
  obtain a b c d where o: "octets4 n = [a, b, c, d]" and bounds: "a < 256" "b < 256" "c < 256" "d < 256"
    using octets_address [OF assms] .
  then have "ipv4_text n = decimal a @ 0x2e # decimal b @ 0x2e # decimal c @ 0x2e # decimal d"
    by (simp add: ipv4_text_def octets4_def)
  then have "split_unit 0x2e (ipv4_text n) = [decimal a, decimal b, decimal c, decimal d]"
    by (simp add: split_unit_sep split_unit_none decimal_no_dot)
  then show ?thesis using bounds by (simp add: ipv4Octets_def Let_def decimal_group decimal_digits o)
qed

lemma ipv4_text_plain: "\<not> starts_with (ipv4_text n) [0x5b]" "ipv4_text n \<noteq> []"
proof -
  obtain c r where "decimal (n div 2 ^ 24) = c # r" "digit_unit c"
    using decimal_digits [of "n div 2 ^ 24"] by (cases "decimal (n div 2 ^ 24)") auto
  then show "\<not> starts_with (ipv4_text n) [0x5b]" "ipv4_text n \<noteq> []" by (auto simp: ipv4_text_def digit_unit_def)
qed

lemma hex_no_colon: "0x3a \<notin> set (hex_text n)"
  using hex_digits [of n] by (auto simp: list_all_iff hex_unit_def digit_unit_def)

lemma no_double_plain: "c \<notin> set s \<Longrightarrow> no_double c s"
  by (induction c s rule: no_double.induct) auto

lemma no_double_sep: "c \<notin> set s \<Longrightarrow> r \<noteq> [] \<Longrightarrow> hd r \<noteq> c \<Longrightarrow> no_double c r \<Longrightarrow> no_double c (s @ c # r)"
proof (induction s)
  case Nil
  then show ?case by (cases r) auto
next
  case (Cons x s)
  then show ?case by (cases s) auto
qed

lemma hextets_shape:
  "ps \<noteq> [] \<Longrightarrow> hextets ps \<noteq> [] \<and> hd (hextets ps) \<noteq> 0x3a \<and> last (hextets ps) \<noteq> 0x3a \<and> no_double 0x3a (hextets ps) \<and>
    split_unit 0x3a (hextets ps) = map hex_text ps"
proof (induction ps rule: hextets.induct)
  case (2 p)
  then show ?case
    using hex_digits [of p] hex_no_colon [of p] by (auto simp: split_unit_none no_double_plain dest: hd_in_set last_in_set)
next
  case (3 p q ps)
  then show ?case
    using hex_digits [of p] hex_no_colon [of p]
    by (auto simp: split_unit_sep no_double_sep hd_append dest: hd_in_set)
qed simp

lemma hextets_no_double: "no_double 0x3a (hextets ps)" "hextets ps = [] \<or> last (hextets ps) \<noteq> 0x3a"
  using hextets_shape [of ps] by (cases ps; simp)+

lemma part_pieces_text: "list_all (\<lambda>p. p < 2 ^ 16) ps \<Longrightarrow> part_pieces (Some (hextets ps)) = Some ps"
proof (cases "ps = []")
  case False
  assume bounds: "list_all (\<lambda>p. p < 2 ^ 16) ps"
  then have "list_all hextet (map hex_text ps)"
    using hex_digits hex_length by (auto simp: list_all_iff hextet_def Suc_le_eq)
  moreover have "map (digits_value 16) (map hex_text ps) = ps" using hex_digits by (simp add: map_idI)
  ultimately show ?thesis using hextets_shape [OF False] by (simp add: part_pieces_def Let_def)
qed (simp add: part_pieces_def)

lemma ipv6Pieces_text:
  assumes "address6 ps" "gap_ok ps gap"
  shows "ipv6Pieces (ipv6_text ps gap) = Some ps"
proof (cases gap)
  case None
  have "part_pieces (Some (hextets ps)) = Some ps" using assms(1) by (intro part_pieces_text) (simp add: address6_def)
  moreover have "part_pieces None = Some []" by (simp add: part_pieces_def)
  ultimately show ?thesis
    using assms(1) by (simp add: ipv6Pieces_def ipv6_text_def None split_pair_none hextets_no_double address6_def)
next
  case (Some g)
  obtain i j where g: "g = (i, j)" by (cases g)
  have ij: "i \<le> j" "j \<le> 8" "length ps = 8" and zeros: "list_all (\<lambda>p. p = 0) (take (j - i) (drop i ps))"
    using assms by (simp_all add: gap_ok_def Some g address6_def)
  have len: "length (take (j - i) (drop i ps)) = j - i" using ij by simp
  have mid: "take (j - i) (drop i ps) = replicate (j - i) 0"
    using zeros len by (metis (full_types) list_all_iff replicate_eqI)
  have "ps = take i ps @ take (j - i) (drop i ps) @ drop j ps"
    using ij(1) by (metis append_take_drop_id drop_drop le_add_diff_inverse2)
  then have ps: "take i ps @ replicate (j - i) 0 @ drop j ps = ps" by (simp only: mid)
  have "part_pieces (Some (hextets (take i ps))) = Some (take i ps)" "part_pieces (Some (hextets (drop j ps))) = Some (drop j ps)"
    using assms(1) set_take_subset [of i ps] set_drop_subset [of j ps]
    by (auto intro!: part_pieces_text simp: address6_def list_all_iff subset_eq)
  moreover have "split_pair 0x3a (hextets (take i ps) @ 0x3a # 0x3a # hextets (drop j ps)) = [hextets (take i ps), hextets (drop j ps)]"
    by (intro split_pair_sep hextets_no_double)
  moreover have "nat (8 - int i - int (8 - j)) = j - i" "\<not> 8 - int i - int (8 - j) < 0" using ij by simp_all
  ultimately show ?thesis
    using ij ps by (simp add: ipv6Pieces_def ipv6_text_def Some g butlast_append Let_def)
qed

section \<open>Properties\<close>

text \<open>An address with one of its spellings, and its class in the tables.\<close>

datatype ip_address = V4 nat | V6 "nat list" "(nat \<times> nat) option"

fun address_ok :: "ip_address \<Rightarrow> bool" where
  "address_ok (V4 n) = (n < 2 ^ 32)"
| "address_ok (V6 ps gap) = (address6 ps \<and> gap_ok ps gap)"

fun address_text :: "ip_address \<Rightarrow> jstr" where
  "address_text (V4 n) = ipv4_text n"
| "address_text (V6 ps gap) = ipv6_text ps gap"

fun address_class :: "ip_address \<Rightarrow> HostClass" where
  "address_class (V4 n) = class4 n"
| "address_class (V6 ps gap) = class6 ps"

lemma classify_literal:
  assumes "address_ok a" "canonicalHost parser h = Some (address_text a)"
  shows "classifyHost parser h = address_class a"
proof (cases a)
  case (V4 n)
  with assms show ?thesis
    by (simp add: classifyHost_def ipv4_text_plain ipv4Octets_text classify_octets)
next
  case (V6 ps gap)
  have "starts_with (ipv6_text ps gap) [0x5b]" "ipv6_text ps gap \<noteq> []" by (simp_all add: ipv6_text_def)
  with V6 assms show ?thesis by (simp add: classifyHost_def ipv6Pieces_text classify_pieces)
qed

text \<open>
  C25. Every IPv4 and IPv6 literal is classified as the registries say, however it is spelled: when the platform's
  parser settles on the dotted decimal text of an address, or on its bracketed hexadecimal text with or without
  one gap of zeros, \<^verbatim>\<open>classifyHost\<close> returns the class of that address in the prefix tables of
  special-purpose blocks, transitional forms judged by the IPv4 address they carry.
\<close>

theorem host_literal_exact:
  assumes "address_ok a" and "canonicalHost parser h = Some (address_text a)"
  shows "classifyHost parser h = address_class a"
  using assms by (rule classify_literal)

text \<open>A parser that keeps the host of a plain URL, for concrete inputs.\<close>

definition plain_parser :: url_parser where
  "plain_parser s = Some (takeWhile (\<lambda>c. c \<noteq> 0x2f) (drop 7 s))"

theorem host_literal_exact_witness:
  "classifyHost plain_parser (lit ''[::ffff:a9fe:a9fe]'') = Private"
proof -
  let ?ps = "[0, 0, 0, 0, 0, 0xffff, 0xa9fe, 0xa9fe]"
  have hex: "hex_text 0xffff = lit ''ffff''" "hex_text 0xa9fe = lit ''a9fe''"
    by (simp_all add: hex_text.simps hex_digit_def lit_def)
  have spelled: "address_text (V6 ?ps (Some (0, 5))) = lit ''[::ffff:a9fe:a9fe]''"
    by (simp add: ipv6_text_def hex) (simp add: lit_def)
  have "address_ok (V6 ?ps (Some (0, 5)))" by (simp add: address6_def gap_ok_def)
  moreover have "canonicalHost plain_parser (lit ''[::ffff:a9fe:a9fe]'') = Some (lit ''[::ffff:a9fe:a9fe]'')"
    by (simp add: canonicalHost_def plain_parser_def has_unit_def lit_def)
  ultimately have "classifyHost plain_parser (lit ''[::ffff:a9fe:a9fe]'') = class6 ?ps"
    using host_literal_exact [of "V6 ?ps (Some (0, 5))" plain_parser "lit ''[::ffff:a9fe:a9fe]''"] spelled by simp
  also have "\<dots> = Private"
    by (simp add: class6_def in_block6_def joined_pieces_def mapped6_def address_at_def class4_def in_block4_def
        loopback4_def special4_def address4_def)
  finally show ?thesis .
qed

text \<open>
  C24. Exactly which learned URLs are fetched. A target whose host is an address literal is let through by
  \<^verbatim>\<open>learnedUrlRefusal\<close> if and only if it is HTTP or HTTPS and one of three holds: it is of the
  configured origin, which the operator wrote down, whatever its address; or its address and the configured host are
  both loopback; or it is HTTPS and its address is global (no loopback, private, link-local, shared, reserved or
  documentation block, and no transitional form that carries one). And whatever its host, a target of another origin
  is let through only over HTTPS, unless the configured host is loopback.
\<close>

theorem learned_url_exact:
  "(\<forall>a. address_ok a \<and> canonicalHost parser (url_hostname target) = Some (address_text a) \<longrightarrow>
      (learnedUrlRefusal parser configured target = None \<longleftrightarrow>
         (url_protocol target = lit ''https:'' \<or> url_protocol target = lit ''http:'') \<and>
         (url_origin target = url_origin configured \<or>
          (address_class a = Loopback \<and> classifyHost parser (url_hostname configured) = Loopback) \<or>
          (url_protocol target = lit ''https:'' \<and> address_class a = Public)))) \<and>
   (learnedUrlRefusal parser configured target = None \<and> url_origin target \<noteq> url_origin configured \<and>
      classifyHost parser (url_hostname configured) \<noteq> Loopback \<longrightarrow> url_protocol target = lit ''https:'')"
proof (intro conjI allI impI)
  fix a assume a: "address_ok a \<and> canonicalHost parser (url_hostname target) = Some (address_text a)"
  then have "classifyHost parser (url_hostname target) = address_class a" using classify_literal by blast
  then show "learnedUrlRefusal parser configured target = None \<longleftrightarrow>
      (url_protocol target = lit ''https:'' \<or> url_protocol target = lit ''http:'') \<and>
      (url_origin target = url_origin configured \<or>
       (address_class a = Loopback \<and> classifyHost parser (url_hostname configured) = Loopback) \<or>
       (url_protocol target = lit ''https:'' \<and> address_class a = Public))"
    by (cases "address_class a") (auto simp: learnedUrlRefusal_def Let_def)
qed (auto simp: learnedUrlRefusal_def Let_def split: if_splits)

definition example_url :: "string \<Rightarrow> url" where
  "example_url host = \<lparr>url_protocol = lit ''https:'', url_host = lit host, url_hostname = lit host,
     url_origin = lit ''https://'' @ lit host\<rparr>"

theorem learned_url_exact_witness:
  "class4 (address4 8 8 8 8) = Public \<and> learnedUrlRefusal plain_parser (example_url ''mcp.example'') (example_url ''8.8.8.8'') = None"
proof -
  let ?a = "V4 (address4 8 8 8 8)"
  have "address_ok ?a" by (simp add: address4_def)
  moreover have "canonicalHost plain_parser (url_hostname (example_url ''8.8.8.8'')) = Some (address_text ?a)"
    by (simp add: canonicalHost_def plain_parser_def has_unit_def example_url_def ipv4_text_def address4_def decimal.simps lit_def)
  moreover have global: "address_class ?a = Public"
    by (simp add: class4_def in_block4_def loopback4_def special4_def address4_def)
  moreover have "url_protocol (example_url ''8.8.8.8'') = lit ''https:''" by (simp add: example_url_def)
  ultimately have "learnedUrlRefusal plain_parser (example_url ''mcp.example'') (example_url ''8.8.8.8'') = None"
    using learned_url_exact [of plain_parser "example_url ''8.8.8.8''" "example_url ''mcp.example''"] by blast
  with global show ?thesis by simp
qed

end
