(* ===== verification/Discovery_Health.thy ===== *)
theory Discovery_Health
  imports Call_Errors Memory_Storage
begin

text \<open>
  Bounded health of connectors between requests, \<^verbatim>\<open>src/discovery-health.ts\<close>: a failed discovery
  leaves a JSON record in the store, later requests skip the connector while it is current, and one of them claims
  the next probe by compare-and-set. The operations are written over any store that keeps the contract of
  \<^verbatim>\<open>Memory_Storage\<close> and their lemmas are proved once for all such stores. Times are numbers of
  milliseconds. The digest in a record's key comes from the platform's keyed hash and is an argument.
\<close>

section \<open>Records\<close>

definition DISCOVERY_RETRY_MS :: int where
  "DISCOVERY_RETRY_MS = 60000"

definition SLOW_FAILURE_MS :: rat where
  "SLOW_FAILURE_MS = 1000"

definition CONNECTOR_HEALTH_LINGER_MS :: rat where
  "CONNECTOR_HEALTH_LINGER_MS = 60000"

record health_slot =
  hs_key :: jstr
  hs_generation :: "jstr option"
  hs_raw :: "jstr option"

record health_verdict =
  hv_slot :: "health_slot option"
  hv_skip :: "(classification_code \<times> rat) option"
  hv_recorded :: "bool option"

record health_fact =
  hf_code :: classification_code
  hf_observedAt :: rat
  hf_retryAt :: rat
  hf_generation :: "jstr option"

definition string_item :: "json option \<Rightarrow> js_item" where
  "string_item v = (case v of Some (J_Str s) \<Rightarrow> Str s | _ \<Rightarrow> Other_Value)"

definition parseFact :: "jstr option \<Rightarrow> health_fact option" where
  "parseFact raw =
     (case Option.bind raw json_parse of None \<Rightarrow> None
      | Some v \<Rightarrow>
          (case (finite_number (json_field v ''v''), classificationCode (string_item (json_field v ''code'')),
                 finite_number (json_field v ''observedAt''), finite_number (json_field v ''retryAt''),
                 json_field v ''generation'') of
             (Some one, Some code, Some observedAt, Some retryAt, Some generation) \<Rightarrow>
               if one \<noteq> 1 then None
               else (case generation of
                       J_Null \<Rightarrow> Some \<lparr>hf_code = code, hf_observedAt = observedAt, hf_retryAt = retryAt, hf_generation = None\<rparr>
                     | J_Str g \<Rightarrow> Some \<lparr>hf_code = code, hf_observedAt = observedAt, hf_retryAt = retryAt, hf_generation = Some g\<rparr>
                     | _ \<Rightarrow> None)
           | _ \<Rightarrow> None))"

definition fact_json :: "health_fact \<Rightarrow> json" where
  "fact_json hf = J_Obj
     [(lit ''v'', J_Num (lit ''1'')), (lit ''code'', J_Str (code_name (hf_code hf))),
      (lit ''observedAt'', J_Num (number_text (hf_observedAt hf))), (lit ''retryAt'', J_Num (number_text (hf_retryAt hf))),
      (lit ''generation'', case hf_generation hf of None \<Rightarrow> J_Null | Some g \<Rightarrow> J_Str g)]"

definition encodeFact :: "health_fact \<Rightarrow> jstr \<times> int" where
  "encodeFact hf = (json_text (fact_json hf), \<lceil>hf_retryAt hf + CONNECTOR_HEALTH_LINGER_MS\<rceil>)"

section \<open>Reading\<close>

text \<open>Where one connector's record sits: the store it is in, the digest of its partition, the key of its generation.\<close>

record health_address =
  ha_store :: nat
  ha_digest :: jstr
  ha_generationKey :: jstr

text \<open>\<^verbatim>\<open>storageGetMany\<close> of an adapter without it: one read after another; a failed one fails all.\<close>

fun storageGetMany ::
    "(rat \<Rightarrow> storage_op \<Rightarrow> 's \<Rightarrow> storage_reply \<times> 's) \<Rightarrow> rat \<Rightarrow> jstr list \<Rightarrow> 's \<Rightarrow> jstr option list option \<times> 's" where
  "storageGetMany act now [] s = (Some [], s)"
| "storageGetMany act now (k # ks) s =
     (case act now (Get k) s of
        (Got v, s1) \<Rightarrow> let (rest, s2) = storageGetMany act now ks s1 in (map_option ((#) v) rest, s2)
      | (_, s1) \<Rightarrow> (None, s1))"

text \<open>The indexes of each store, the stores in the order they are first met.\<close>

definition store_groups :: "health_address option list \<Rightarrow> (nat \<times> nat list) list" where
  "store_groups addresses =
     fold (\<lambda>(index, address) groups. case address of None \<Rightarrow> groups
           | Some a \<Rightarrow> map_set (ha_store a) ((case map_of groups (ha_store a) of None \<Rightarrow> [] | Some idx \<Rightarrow> idx) @ [index]) groups)
       (zip [0..<length addresses] addresses) []"

definition slot_verdict :: "bool \<Rightarrow> health_slot \<Rightarrow> health_verdict" where
  "slot_verdict skip slot =
     (case parseFact (hs_raw slot) of
        Some hf \<Rightarrow>
          if \<not> skip \<or> hf_generation hf \<noteq> hs_generation slot
          then \<lparr>hv_slot = Some slot, hv_skip = None, hv_recorded = None\<rparr>
          else \<lparr>hv_slot = Some slot, hv_skip = Some (hf_code hf, hf_retryAt hf), hv_recorded = None\<rparr>
      | None \<Rightarrow> \<lparr>hv_slot = Some slot, hv_skip = None, hv_recorded = None\<rparr>)"

definition no_verdict :: health_verdict where
  "no_verdict = \<lparr>hv_slot = None, hv_skip = None, hv_recorded = None\<rparr>"

text \<open>The keys of one group, each record's followed by its generation's; building a key may throw.\<close>

fun group_keys :: "jstr list \<Rightarrow> health_address option list \<Rightarrow> nat list \<Rightarrow> key_error + jstr list" where
  "group_keys ids addresses [] = Inr []"
| "group_keys ids addresses (i # idx) =
     (case addresses ! i of None \<Rightarrow> group_keys ids addresses idx
      | Some a \<Rightarrow>
          bind_sum (connectorHealthKeys_discovery (ids ! i) (ha_digest a)) (\<lambda>key.
          bind_sum (group_keys ids addresses idx) (\<lambda>rest. Inr (key # ha_generationKey a # rest))))"

definition group_verdicts ::
    "bool \<Rightarrow> nat list \<Rightarrow> jstr list \<Rightarrow> jstr option list \<Rightarrow> health_verdict list \<Rightarrow> health_verdict list" where
  "group_verdicts skip indexes ks vals verdicts =
     fold (\<lambda>(position, index) vs. vs[index := slot_verdict skip
         \<lparr>hs_key = ks ! (position * 2), hs_generation = vals ! (position * 2 + 1), hs_raw = vals ! (position * 2)\<rparr>])
       (zip [0..<length indexes] indexes) verdicts"

fun read_groups ::
    "(rat \<Rightarrow> storage_op \<Rightarrow> 's \<Rightarrow> storage_reply \<times> 's) \<Rightarrow> rat \<Rightarrow> bool \<Rightarrow> jstr list \<Rightarrow> health_address option list \<Rightarrow>
      (nat \<times> nat list) list \<Rightarrow> health_verdict list \<Rightarrow> (nat \<Rightarrow> 's) \<Rightarrow> key_error + health_verdict list \<times> (nat \<Rightarrow> 's)" where
  "read_groups act now skip ids addresses [] verdicts stores = Inr (verdicts, stores)"
| "read_groups act now skip ids addresses ((store, indexes) # groups) verdicts stores =
     bind_sum (group_keys ids addresses indexes) (\<lambda>ks.
       let (vals, s) = storageGetMany act now ks (stores store)
       in read_groups act now skip ids addresses groups
            (case vals of None \<Rightarrow> verdicts | Some vs \<Rightarrow> group_verdicts skip indexes ks vs verdicts)
            (stores(store := s)))"

definition readDiscoveryHealth ::
    "(rat \<Rightarrow> storage_op \<Rightarrow> 's \<Rightarrow> storage_reply \<times> 's) \<Rightarrow> rat \<Rightarrow> bool \<Rightarrow> jstr list \<Rightarrow> health_address option list \<Rightarrow>
      (nat \<Rightarrow> 's) \<Rightarrow> key_error + health_verdict list \<times> (nat \<Rightarrow> 's)" where
  "readDiscoveryHealth act now skip ids addresses stores =
     read_groups act now skip ids addresses (store_groups addresses) (map (\<lambda>_. no_verdict) ids) stores"

section \<open>Claiming and settling\<close>

definition expires_at :: "int \<Rightarrow> set_options" where
  "expires_at t = \<lparr>so_ttlSeconds = None, so_expiresAtMs = Some (Finite (of_int t))\<rparr>"

definition no_expiry :: set_options where
  "no_expiry = \<lparr>so_ttlSeconds = None, so_expiresAtMs = None\<rparr>"

text \<open>The lease a claim writes, where it may write one: the record it read, or a new one where there was none, with the end of the lease as retry time.\<close>

definition lease_fact :: "rat \<Rightarrow> health_slot \<Rightarrow> rat \<Rightarrow> health_fact option" where
  "lease_fact now slot lease = map_option (\<lambda>hf. hf\<lparr>hf_retryAt := lease\<rparr>)
     (case hs_raw slot of
        None \<Rightarrow> Some \<lparr>hf_code = C_timeout, hf_observedAt = now, hf_retryAt = lease, hf_generation = hs_generation slot\<rparr>
      | Some _ \<Rightarrow> parseFact (hs_raw slot))"

definition claimDiscoveryProbe ::
    "(rat \<Rightarrow> storage_op \<Rightarrow> 's \<Rightarrow> storage_reply \<times> 's) \<Rightarrow> rat \<Rightarrow> health_slot \<Rightarrow> rat \<Rightarrow> 's \<Rightarrow> bool \<times> health_slot \<times> 's" where
  "claimDiscoveryProbe act now slot leaseUntil s =
     (case lease_fact now slot leaseUntil of
        None \<Rightarrow> (False, slot, s)
      | Some hf \<Rightarrow>
          let (raw, expiresAtMs) = encodeFact hf
          in case act now (Compare_And_Set (hs_key slot) (hs_raw slot) (Some raw) (expires_at expiresAtMs)) s of
               (Swapped claimed, s') \<Rightarrow> (claimed, if claimed then slot\<lparr>hs_raw := Some raw\<rparr> else slot, s')
             | (_, s') \<Rightarrow> (False, slot, s'))"

definition reachable_codes :: "classification_code list" where
  "reachable_codes = [C_auth_required, C_downstream_oauth_required, C_provider_permission_denied]"

datatype probe_outcome = Probe_Ok | Probe_Failed (po_failure: thrown) (po_timedOut: bool) (po_elapsedMs: rat)

text \<open>What a settled probe means for its record: cleared, written, or left as it is.\<close>

datatype health_action = Clear_Record | Write_Record health_fact | Leave_Record

definition settled_action ::
    "'a failure_world_scheme \<Rightarrow> rat \<Rightarrow> health_slot \<Rightarrow> probe_outcome \<Rightarrow> health_action" where
  "settled_action w now slot outcome =
     (case outcome of Probe_Ok \<Rightarrow> Clear_Record
      | Probe_Failed failure timedOut elapsedMs \<Rightarrow>
          let classified = (if timedOut then None else Some (classifyCallError w failure C_catalog_lookup_failed));
              code = (case classified of None \<Rightarrow> Some C_timeout | Some d \<Rightarrow> classificationCode (Str (code_name (cd_code d))));
              retryAfterMs = Option.bind classified cd_retryAfterMs
          in if (case classified of None \<Rightarrow> False | Some d \<Rightarrow> cd_code d \<in> set reachable_codes) then Clear_Record
             else case code of
               Some c \<Rightarrow>
                 if timedOut \<or> (case classified of None \<Rightarrow> False
                      | Some d \<Rightarrow> cd_retryable d \<and> (SLOW_FAILURE_MS \<le> elapsedMs \<or> cd_retryAfterMs d \<noteq> None))
                 then let window = (case retryAfterMs of Some ms \<Rightarrow> min DISCOVERY_RETRY_MS (max 1000 ms) | None \<Rightarrow> DISCOVERY_RETRY_MS)
                      in Write_Record \<lparr>hf_code = c, hf_observedAt = now, hf_retryAt = now + of_int window,
                           hf_generation = hs_generation slot\<rparr>
                 else Leave_Record
             | None \<Rightarrow> Leave_Record)"

definition settleDiscoveryHealth ::
    "(rat \<Rightarrow> storage_op \<Rightarrow> 's \<Rightarrow> storage_reply \<times> 's) \<Rightarrow> 'a failure_world_scheme \<Rightarrow> rat \<Rightarrow> health_slot \<Rightarrow> probe_outcome \<Rightarrow>
      's \<Rightarrow> health_verdict \<times> 's" where
  "settleDiscoveryHealth act w now slot outcome s =
     (case settled_action w now slot outcome of
        Leave_Record \<Rightarrow> (\<lparr>hv_slot = Some slot, hv_skip = None, hv_recorded = None\<rparr>, s)
      | Clear_Record \<Rightarrow>
          if hs_raw slot = None then (\<lparr>hv_slot = Some slot, hv_skip = None, hv_recorded = None\<rparr>, s)
          else (case act now (Compare_And_Set (hs_key slot) (hs_raw slot) None no_expiry) s of
                  (Swapped cleared, s') \<Rightarrow>
                    (\<lparr>hv_slot = Some (if cleared then slot\<lparr>hs_raw := None\<rparr> else slot), hv_skip = None, hv_recorded = None\<rparr>, s')
                | (_, s') \<Rightarrow> (\<lparr>hv_slot = Some slot, hv_skip = None, hv_recorded = None\<rparr>, s'))
      | Write_Record hf \<Rightarrow>
          let (raw, expiresAtMs) = encodeFact hf; skip = Some (hf_code hf, hf_retryAt hf)
          in case act now (Compare_And_Set (hs_key slot) (hs_raw slot) (Some raw) (expires_at expiresAtMs)) s of
               (Swapped recorded, s') \<Rightarrow>
                 (\<lparr>hv_slot = Some (if recorded then slot\<lparr>hs_raw := Some raw\<rparr> else slot), hv_skip = skip, hv_recorded = Some recorded\<rparr>, s')
             | (_, s') \<Rightarrow> (\<lparr>hv_slot = Some slot, hv_skip = skip, hv_recorded = None\<rparr>, s'))"

section \<open>What was encoded is parsed back\<close>

definition whole_ms :: "rat \<Rightarrow> bool" where
  "whole_ms q \<longleftrightarrow> of_int \<lfloor>q\<rfloor> = q \<and> \<bar>q\<bar> < 2 ^ 53"

lemma whole_number:
  assumes "whole_ms q"
  shows "number_token (number_text q)" "finite_number (Some (J_Num (number_text q))) = Some q"
proof -
  obtain i where q: "q = of_int i" using assms by (metis whole_ms_def)
  have "\<bar>i\<bar> < 2 ^ 53" using assms by (simp add: whole_ms_def q)
  then have "\<bar>i\<bar> < 2 ^ 1024" by (rule less_trans) (intro power_strict_increasing, simp_all)
  then show "number_token (number_text q)" "finite_number (Some (J_Num (number_text q))) = Some q"
    by (simp_all add: q int_token finite_number_def int_token_value)
qed

lemma one_text: "number_text 1 = lit ''1''" "whole_ms 1"
  by (simp_all add: whole_ms_def number_text_def int_text_def decimal.simps lit_def)

definition timed_whole :: "health_fact \<Rightarrow> bool" where
  "timed_whole hf \<longleftrightarrow> whole_ms (hf_observedAt hf) \<and> whole_ms (hf_retryAt hf)"

lemma wf_fact: "timed_whole hf \<Longrightarrow> wf_json (fact_json hf)"
  using whole_number(1) [of 1] one_text by (simp add: fact_json_def timed_whole_def whole_number split: option.split)

lemma parse_encoded:
  assumes "timed_whole hf"
  shows "parseFact (Some (fst (encodeFact hf))) = Some hf"
proof -
  have "json_parse (fst (encodeFact hf)) = Some (fact_json hf)"
    using json_roundtrip [OF wf_fact [OF assms]] by (simp add: encodeFact_def)
  moreover have "finite_number (Some (J_Num (lit ''1''))) = Some 1"
    using whole_number(2) [of 1] one_text by simp
  ultimately show ?thesis
    using assms
    by (simp add: parseFact_def json_field_def fact_json_def whole_number timed_whole_def string_item_def classificationCode_def
        find_code_name split: option.split)
qed

section \<open>Any store that keeps the contract\<close>

text \<open>Probe claims one after another, each by its own request at its own time.\<close>

fun claim_run ::
    "(rat \<Rightarrow> storage_op \<Rightarrow> 's \<Rightarrow> storage_reply \<times> 's) \<Rightarrow> (rat \<times> health_slot \<times> rat) list \<Rightarrow> 's \<Rightarrow> bool list" where
  "claim_run act [] s = []"
| "claim_run act ((now, slot, lease) # tries) s =
     (let (claimed, slot', s') = claimDiscoveryProbe act now slot lease s in claimed # claim_run act tries s')"

definition expiry_ok :: "int \<Rightarrow> bool" where
  "expiry_ok t \<longleftrightarrow> \<bar>t\<bar> \<le> 9007199254740991"

lemma expiry_at: "expiry_ok t \<Longrightarrow> expiry now (expires_at t) = Inr (Some (of_int t))"
proof -
  assume "expiry_ok t"
  then have "\<bar>of_int t :: rat\<bar> \<le> 9007199254740991"
    unfolding expiry_ok_def by (metis of_int_abs of_int_le_iff of_int_numeral)
  then show ?thesis by (simp add: expiry_def expires_at_def safe_integer_def)
qed

lemma expiry_none: "expiry now no_expiry = Inr None"
  by (simp add: expiry_def no_expiry_def)

context kv_store
begin

lemma cas_write:
  assumes "invar s" "key_ok k" "expiry_ok t"
  shows "fst (act now (Compare_And_Set k e (Some v) (expires_at t)) s) = Swapped (map_option fst (view now s k) = e)"
    and "now \<le> later \<Longrightarrow> view later (snd (act now (Compare_And_Set k e (Some v) (expires_at t)) s)) =
      (if map_option fst (view now s k) = e
       then (view later s)(k := (if later < of_int t then Some (v, Some (of_int t)) else None)) else view later s)"
  using act_reply [OF assms(1), of now "Compare_And_Set k e (Some v) (expires_at t)"]
    act_view [OF assms(1), of now later "Compare_And_Set k e (Some v) (expires_at t)"] view_later [OF assms(1), of now later]
    assms(2) expiry_at [OF assms(3)] by (auto simp: live_def)

lemma cas_clear:
  assumes "invar s" "key_ok k"
  shows "fst (act now (Compare_And_Set k e None no_expiry) s) = Swapped (map_option fst (view now s k) = e)"
    and "now \<le> later \<Longrightarrow> view later (snd (act now (Compare_And_Set k e None no_expiry) s)) =
      (if map_option fst (view now s k) = e then (view later s)(k := None) else view later s)"
  using act_reply [OF assms(1), of now "Compare_And_Set k e None no_expiry"]
    act_view [OF assms(1), of now later "Compare_And_Set k e None no_expiry"] view_later [OF assms(1), of now later] assms(2)
  by auto

lemma claim_cases:
  assumes "invar s" "key_ok (hs_key slot)" "expiry_ok \<lceil>lease + CONNECTOR_HEALTH_LINGER_MS\<rceil>" "now \<le> later"
  shows "case lease_fact now slot lease of
      None \<Rightarrow> claimDiscoveryProbe act now slot lease s = (False, slot, s)
    | Some hf \<Rightarrow>
        fst (claimDiscoveryProbe act now slot lease s) = (map_option fst (view now s (hs_key slot)) = hs_raw slot) \<and>
        invar (snd (snd (claimDiscoveryProbe act now slot lease s))) \<and>
        view later (snd (snd (claimDiscoveryProbe act now slot lease s))) =
          (if map_option fst (view now s (hs_key slot)) = hs_raw slot
           then (view later s)(hs_key slot :=
             (if later < of_int \<lceil>lease + CONNECTOR_HEALTH_LINGER_MS\<rceil>
              then Some (fst (encodeFact hf), Some (of_int \<lceil>lease + CONNECTOR_HEALTH_LINGER_MS\<rceil>)) else None))
           else view later s)"
proof (cases "lease_fact now slot lease")
  case None
  then show ?thesis by (simp add: claimDiscoveryProbe_def)
next
  case (Some hf)
  let ?t = "\<lceil>lease + CONNECTOR_HEALTH_LINGER_MS\<rceil>"
  have "snd (encodeFact hf) = ?t" using Some by (auto simp: encodeFact_def lease_fact_def split: option.splits)
  then obtain raw where enc: "encodeFact hf = (raw, ?t)" by (cases "encodeFact hf") simp
  let ?call = "Compare_And_Set (hs_key slot) (hs_raw slot) (Some raw) (expires_at ?t)"
  have "claimDiscoveryProbe act now slot lease s =
      (case act now ?call s of
         (Swapped claimed, s') \<Rightarrow> (claimed, if claimed then slot\<lparr>hs_raw := Some raw\<rparr> else slot, s')
       | (_, s') \<Rightarrow> (False, slot, s'))"
    using Some by (simp only: claimDiscoveryProbe_def enc option.case Let_def prod.case)
  then show ?thesis
    using Some enc cas_write(1) [OF assms(1,2,3), of now "hs_raw slot" raw] cas_write(2) [OF assms(1,2,3), of now later "hs_raw slot" raw] assms(4) act_invar [OF assms(1), of now ?call]
    by (cases "act now ?call s") auto
qed

text \<open>A claim whose expected value is not the one stored is refused, and so is every one after it.\<close>

lemma all_refused:
  assumes "invar s" "key_ok k" "sorted (T # map fst tries)"
    and "\<And>c. c \<in> set tries \<Longrightarrow> fst c < U \<and> hs_key (fst (snd c)) = k \<and> hs_raw (fst (snd c)) = raw \<and>
      expiry_ok \<lceil>snd (snd c) + CONNECTOR_HEALTH_LINGER_MS\<rceil>"
    and "\<And>t. T \<le> t \<Longrightarrow> t < U \<Longrightarrow> map_option fst (view t s k) \<noteq> raw"
  shows "claim_run act tries s = replicate (length tries) False"
  using assms
proof (induction tries arbitrary: s T)
  case (Cons c tries)
  obtain now slot lease where c: "c = (now, slot, lease)" by (cases c)
  have slot: "hs_key slot = k" "hs_raw slot = raw" "expiry_ok \<lceil>lease + CONNECTOR_HEALTH_LINGER_MS\<rceil>" "now < U" "T \<le> now"
    using Cons.prems(3) Cons.prems(4) [of c] c by simp_all
  let ?r = "claimDiscoveryProbe act now slot lease s"
  have step: "\<not> fst ?r \<and> invar (snd (snd ?r)) \<and> view t (snd (snd ?r)) k = view t s k" if "now \<le> t" for t
    using claim_cases [of s slot lease now t] Cons.prems(1,2) Cons.prems(5) [of now] slot that
    by (cases "lease_fact now slot lease") auto
  have "claim_run act tries (snd (snd ?r)) = replicate (length tries) False"
  proof (rule Cons.IH [where T = now])
    show "sorted (now # map fst tries)" using Cons.prems(3) c by simp
    show "map_option fst (view t (snd (snd ?r)) k) \<noteq> raw" if "now \<le> t" "t < U" for t
      using step [OF that(1)] Cons.prems(5) [of t] that slot(5) by simp
  qed (use step [of now] Cons.prems(2,4) in auto)
  then show ?case using step [of now] by (simp add: c case_prod_unfold)
qed simp

lemma one_claimant:
  assumes "invar s" "key_ok k" "sorted (map fst tries)" "tries = (now, slot, lease) # rest"
    and "\<And>c. c \<in> set tries \<Longrightarrow> hs_key (fst (snd c)) = k \<and> hs_raw (fst (snd c)) = raw \<and>
      expiry_ok \<lceil>snd (snd c) + CONNECTOR_HEALTH_LINGER_MS\<rceil>"
    and "map_option fst (view now s k) = raw" and "lease_fact now slot lease = Some hf" "timed_whole hf"
    and "raw = None \<Longrightarrow> (\<forall>c \<in> set rest. fst c < lease + CONNECTOR_HEALTH_LINGER_MS)"
    and "\<And>old. parseFact raw = Some old \<Longrightarrow> hf_retryAt old \<noteq> lease"
  shows "claim_run act tries s = True # replicate (length rest) False"
proof -
  let ?r = "claimDiscoveryProbe act now slot lease s" and ?t = "\<lceil>lease + CONNECTOR_HEALTH_LINGER_MS\<rceil>"
  have slot: "hs_key slot = k" "hs_raw slot = raw" "expiry_ok ?t" using assms(4) assms(5) [of "(now, slot, lease)"] by simp_all
  have first: "fst ?r \<and> invar (snd (snd ?r)) \<and>
      view t (snd (snd ?r)) k = (if t < of_int ?t then Some (fst (encodeFact hf), Some (of_int ?t)) else None)" if "now \<le> t" for t
    using claim_cases [of s slot lease now t] assms(1,2,6,7) slot that by simp
  have new: "raw \<noteq> Some (fst (encodeFact hf))"
  proof
    assume "raw = Some (fst (encodeFact hf))"
    then have "parseFact raw = Some hf" using parse_encoded [OF assms(8)] by simp
    moreover have "hf_retryAt hf = lease" using assms(7) by (auto simp: lease_fact_def)
    ultimately show False using assms(10) by blast
  qed
  let ?U = "if raw = None then of_int ?t else (1 + Max (insert 0 (set (map fst rest))))"
  have "claim_run act rest (snd (snd ?r)) = replicate (length rest) False"
  proof (rule all_refused [where T = now and U = ?U and k = k and raw = raw])
    show "sorted (now # map fst rest)" using assms(3,4) by simp
    show "fst c < ?U \<and> hs_key (fst (snd c)) = k \<and> hs_raw (fst (snd c)) = raw \<and>
        expiry_ok \<lceil>snd (snd c) + CONNECTOR_HEALTH_LINGER_MS\<rceil>" if "c \<in> set rest" for c
    proof -
      have "fst c < ?U"
      proof (cases "raw = None")
        case True
        then have "fst c < lease + CONNECTOR_HEALTH_LINGER_MS" using assms(9) that by blast
        also have "\<dots> \<le> of_int ?t" by (rule le_of_int_ceiling)
        finally show ?thesis using True by simp
      next
        case False
        have "fst c \<le> Max (insert 0 (set (map fst rest)))" using that by (intro Max_ge) auto
        with False show ?thesis by auto
      qed
      with assms(4) assms(5) [of c] that show ?thesis by simp
    qed
    show "map_option fst (view t (snd (snd ?r)) k) \<noteq> raw" if "now \<le> t" "t < ?U" for t
      using first [OF that(1)] that(2) new by (auto split: if_splits)
  qed (use first [of now] assms(2) in auto)
  then show ?thesis using first [of now] by (simp add: assms(4) case_prod_unfold)
qed

end

section \<open>Reading in batches\<close>

text \<open>The verdict of one connector read on its own: the reference for the batched read.\<close>

definition own_verdict ::
    "bool \<Rightarrow> (jstr \<Rightarrow> jstr option) \<Rightarrow> jstr \<Rightarrow> health_address \<Rightarrow> health_verdict" where
  "own_verdict skip seen key a =
     slot_verdict skip \<lparr>hs_key = key, hs_generation = seen (ha_generationKey a), hs_raw = seen key\<rparr>"

definition discovery_key :: "jstr \<Rightarrow> health_address \<Rightarrow> jstr" where
  "discovery_key connectorId a = lit ''connector-health:v1:'' @ connectorId @ lit '':'' @ ha_digest a @ lit '':discovery''"

text \<open>An address whose keys the store accepts.\<close>

definition address_plain :: "jstr \<Rightarrow> health_address \<Rightarrow> bool" where
  "address_plain connectorId a \<longleftrightarrow> key_ok (discovery_key connectorId a) \<and> key_ok (ha_generationKey a)"

lemma built_key: "address_plain connectorId a \<Longrightarrow> connectorHealthKeys_discovery connectorId (ha_digest a) = Inr (discovery_key connectorId a)"
  by (simp add: address_plain_def connectorHealthKeys_discovery_def keyed_def discovery_key_def key_ok_def)

lemma pairs_nth:
  "p < length xs \<Longrightarrow> concat (map (\<lambda>i. [f i, g i]) xs) ! (p * 2) = f (xs ! p) \<and>
     concat (map (\<lambda>i. [f i, g i]) xs) ! (p * 2 + 1) = g (xs ! p)"
proof (induction xs arbitrary: p)
  case (Cons x xs)
  then show ?case by (cases p) auto
qed simp

definition group_step ::
    "nat \<times> health_address option \<Rightarrow> (nat \<times> nat list) list \<Rightarrow> (nat \<times> nat list) list" where
  "group_step e groups =
     (case snd e of None \<Rightarrow> groups
      | Some a \<Rightarrow> map_set (ha_store a) ((case map_of groups (ha_store a) of None \<Rightarrow> [] | Some idx \<Rightarrow> idx) @ [fst e]) groups)"

lemma store_groups_step: "store_groups addresses = fold group_step (zip [0..<length addresses] addresses) []"
  by (simp add: store_groups_def group_step_def [abs_def] case_prod_unfold)

definition in_store :: "health_address option list \<Rightarrow> nat \<Rightarrow> nat \<Rightarrow> bool" where
  "in_store addresses st i = (case addresses ! i of None \<Rightarrow> False | Some a \<Rightarrow> ha_store a = st)"

lemma store_groups_of:
  "distinct (map fst (store_groups as)) \<and>
   (\<forall>st. map_of (store_groups as) st =
      (if filter (in_store as st) [0..<length as] = [] then None else Some (filter (in_store as st) [0..<length as])))"
proof (induction as rule: rev_induct)
  case (snoc x as)
  have step: "store_groups (as @ [x]) = group_step (length as, x) (store_groups as)" by (simp add: store_groups_step)
  have "filter (in_store (as @ [x]) st) [0..<length as] = filter (in_store as st) [0..<length as]" for st
    by (rule filter_cong) (simp_all add: in_store_def nth_append)
  then have grown: "filter (in_store (as @ [x]) st) [0..<length (as @ [x])] =
      filter (in_store as st) [0..<length as] @ (if \<exists>a. x = Some a \<and> ha_store a = st then [length as] else [])" for st
    by (simp add: in_store_def [of "as @ [x]" st "length as"] split: option.split)
  have d: "distinct (map fst (store_groups as))" using snoc by blast
  have m: "map_of (store_groups as) st =
      (if filter (in_store as st) [0..<length as] = [] then None else Some (filter (in_store as st) [0..<length as]))" for st
    using snoc by blast
  show ?case unfolding step grown
    using d by (cases x) (simp_all add: group_step_def m)
qed (simp add: store_groups_def)

lemma store_groups_mem: "(st, idx) \<in> set (store_groups as) \<Longrightarrow> idx = filter (in_store as st) [0..<length as]"
  using store_groups_of [of as] by (metis (no_types, lifting) map_of_is_SomeI option.distinct(1) option.sel)

lemma store_groups_covers:
  assumes "i < length as" "as ! i = Some a"
  obtains idx where "(ha_store a, idx) \<in> set (store_groups as)" "i \<in> set idx"
proof -
  have "i \<in> set (filter (in_store as (ha_store a)) [0..<length as])" using assms by (simp add: in_store_def)
  then show ?thesis using store_groups_of [of as] that map_of_SomeD by (metis (no_types, lifting) empty_iff list.set(1))
qed

lemma fold_upd:
  "i < length vs \<Longrightarrow> fold (\<lambda>j us. us[j := f j]) idx vs ! i = (if i \<in> set idx then f i else vs ! i)"
  by (induction idx arbitrary: vs) (auto simp: nth_list_update)

lemma length_fold_upd [simp]: "length (fold (\<lambda>j us. us[j := f j]) idx vs) = length vs"
  by (induction idx arbitrary: vs) auto

lemma group_keys_of:
  assumes "\<And>i. i \<in> set idx \<Longrightarrow> \<exists>a. addresses ! i = Some a \<and> address_plain (ids ! i) a"
  shows "group_keys ids addresses idx =
    Inr (concat (map (\<lambda>i. [discovery_key (ids ! i) (the (addresses ! i)), ha_generationKey (the (addresses ! i))]) idx))"
  using assms
proof (induction idx)
  case (Cons i idx)
  then obtain a where "addresses ! i = Some a" "address_plain (ids ! i) a" by auto
  with Cons show ?case by (simp add: built_key)
qed simp

lemma group_verdicts_of:
  assumes "vals = map seen ks" "ks = concat (map (\<lambda>i. [key i, ha_generationKey (addr i)]) idx)"
  shows "group_verdicts skip idx ks vals verdicts = fold (\<lambda>i vs. vs[i := own_verdict skip seen (key i) (addr i)]) idx verdicts"
proof -
  have len: "length ks = 2 * length idx" unfolding assms(2) by (induction idx) auto
  have at: "ks ! (p * 2) = key (idx ! p)" "ks ! (p * 2 + 1) = ha_generationKey (addr (idx ! p))" if "p < length idx" for p
    using pairs_nth [OF that, of key "\<lambda>i. ha_generationKey (addr i)"] unfolding assms(2) by simp_all
  have "fold (\<lambda>(position, index) vs. vs[index := slot_verdict skip
         \<lparr>hs_key = ks ! (position * 2), hs_generation = vals ! (position * 2 + 1), hs_raw = vals ! (position * 2)\<rparr>])
       (zip [0..<length idx] idx) verdicts =
      fold (\<lambda>(position, index) vs. vs[index := own_verdict skip seen (key index) (addr index)]) (zip [0..<length idx] idx) verdicts"
  proof (rule fold_cong [OF refl refl])
    fix e assume "e \<in> set (zip [0..<length idx] idx)"
    then obtain p where p: "p < length idx" "e = (p, idx ! p)" by (auto simp: set_zip)
    then have "p * 2 < length ks" "p * 2 + 1 < length ks" using len by simp_all
    with p at [OF p(1)] show "(\<lambda>(position, index) vs. vs[index := slot_verdict skip
         \<lparr>hs_key = ks ! (position * 2), hs_generation = vals ! (position * 2 + 1), hs_raw = vals ! (position * 2)\<rparr>]) e =
        (\<lambda>(position, index) vs. vs[index := own_verdict skip seen (key index) (addr index)]) e"
      by (simp add: own_verdict_def assms(1))
  qed
  also have "\<dots> = fold (\<lambda>i vs. vs[i := own_verdict skip seen (key i) (addr i)]) (map snd (zip [0..<length idx] idx)) verdicts"
    by (simp only: fold_map comp_def case_prod_unfold)
  finally show ?thesis unfolding group_verdicts_def by simp
qed

context kv_store
begin

lemma get_many:
  assumes "invar s" "list_all key_ok ks"
  shows "fst (storageGetMany act now ks s) = Some (map (\<lambda>k. map_option fst (view now s k)) ks) \<and>
    invar (snd (storageGetMany act now ks s)) \<and> (\<forall>t \<ge> now. view t (snd (storageGetMany act now ks s)) = view t s)"
  using assms
proof (induction ks arbitrary: s)
  case (Cons k ks)
  have reply: "fst (act now (Get k) s) = Got (map_option fst (view now s k))"
    using act_reply [OF Cons.prems(1), of now "Get k"] Cons.prems(2) by simp
  have same: "view t (snd (act now (Get k) s)) = view t s" if "now \<le> t" for t
    using act_view [OF Cons.prems(1) that, of "Get k"] view_later [OF Cons.prems(1) that] Cons.prems(2) by simp
  have "invar (snd (act now (Get k) s))" using Cons.prems(1) by (rule act_invar)
  with Cons.IH [of "snd (act now (Get k) s)"] Cons.prems(2) reply same show ?case
    by (cases "act now (Get k) s") (simp add: case_prod_unfold)
qed simp

text \<open>What the store of an address shows at a time, and the verdict each connector gets from it.\<close>

lemma read_groups_of:
  assumes "\<And>i. invar (stores i)" "length verdicts = length addresses"
    and "\<forall>g \<in> set groups. snd g = filter (in_store addresses (fst g)) [0..<length addresses]"
    and "\<forall>i a. i < length addresses \<longrightarrow> addresses ! i = Some a \<longrightarrow> address_plain (ids ! i) a"
  shows "\<exists>vs stores'. read_groups act now skip ids addresses groups verdicts stores = Inr (vs, stores') \<and>
    length vs = length verdicts \<and>
    (\<forall>i < length addresses. vs ! i =
      (case addresses ! i of None \<Rightarrow> verdicts ! i
       | Some a \<Rightarrow> if ha_store a \<in> fst ` set groups
           then own_verdict skip (\<lambda>k. map_option fst (view now (stores (ha_store a)) k)) (discovery_key (ids ! i) a) a
           else verdicts ! i)) \<and>
    (\<forall>j. invar (stores' j) \<and> (\<forall>t \<ge> now. view t (stores' j) = view t (stores j)))"
  using assms
proof (induction groups arbitrary: verdicts stores)
  case Nil
  then show ?case by (auto split: option.split)
next
  case (Cons g groups)
  obtain st idx where g: "g = (st, idx)" by (cases g)
  have idx: "idx = filter (in_store addresses st) [0..<length addresses]" using Cons.prems(3) g by simp
  let ?a = "\<lambda>i. the (addresses ! i)" and ?s = "stores st"
  let ?key = "\<lambda>i. discovery_key (ids ! i) (?a i)"
  let ?ks = "concat (map (\<lambda>i. [?key i, ha_generationKey (?a i)]) idx)"
  let ?seen = "\<lambda>k. map_option fst (view now ?s k)"
  have mem: "i \<in> set idx \<longleftrightarrow> i < length addresses \<and> (\<exists>a. addresses ! i = Some a \<and> ha_store a = st)" for i
    by (auto simp: idx in_store_def split: option.splits)
  then have plain: "\<exists>a. addresses ! i = Some a \<and> address_plain (ids ! i) a" if "i \<in> set idx" for i using that Cons.prems(4) by blast
  have keys: "group_keys ids addresses idx = Inr ?ks" by (rule group_keys_of) (rule plain)
  have "list_all key_ok ?ks" using plain by (fastforce simp: list_all_iff address_plain_def)
  note many = get_many [OF Cons.prems(1) this, of now st]
  define S where "S = stores(st := snd (storageGetMany act now ?ks ?s))"
  define V where "V = fold (\<lambda>i vs. vs[i := own_verdict skip ?seen (?key i) (?a i)]) idx verdicts"
  have gv: "group_verdicts skip idx ?ks (map ?seen ?ks) verdicts = V" unfolding V_def by (rule group_verdicts_of) simp_all
  have views: "invar (S j)" "t \<ge> now \<Longrightarrow> view t (S j) = view t (stores j)" for j t
    using many Cons.prems(1) [of j] by (cases "j = st"; simp add: S_def)+
  have step: "read_groups act now skip ids addresses (g # groups) verdicts stores = read_groups act now skip ids addresses groups V S"
    using many gv by (simp add: g keys case_prod_unfold S_def)
  have len: "length V = length verdicts" by (simp add: V_def)
  have lenV: "length V = length addresses" using len Cons.prems(2) by simp
  have "\<forall>g \<in> set groups. snd g = filter (in_store addresses (fst g)) [0..<length addresses]" using Cons.prems(3) by simp
  from Cons.IH [of S V, OF views(1) lenV this Cons.prems(4)] obtain us stores' where us: "read_groups act now skip ids addresses groups V S = Inr (us, stores')" "length us = length V"
      "\<forall>i < length addresses. us ! i = (case addresses ! i of None \<Rightarrow> V ! i
         | Some a \<Rightarrow> if ha_store a \<in> fst ` set groups
             then own_verdict skip (\<lambda>k. map_option fst (view now (S (ha_store a)) k)) (discovery_key (ids ! i) a) a
             else V ! i)"
      "\<forall>j. invar (stores' j) \<and> (\<forall>t \<ge> now. view t (stores' j) = view t (S j))"
    by (elim exE conjE) (rule that)
  have vi: "V ! i = (if i \<in> set idx then own_verdict skip ?seen (?key i) (?a i) else verdicts ! i)" if "i < length addresses" for i
    using that Cons.prems(2) unfolding V_def by (simp add: fold_upd)
  have "us ! i = (case addresses ! i of None \<Rightarrow> verdicts ! i
         | Some a \<Rightarrow> if ha_store a \<in> fst ` set (g # groups)
             then own_verdict skip (\<lambda>k. map_option fst (view now (stores (ha_store a)) k)) (discovery_key (ids ! i) a) a
             else verdicts ! i)" if i: "i < length addresses" for i
    using us(3) [rule_format, OF i] vi [OF i] mem [of i] i views(2) [of now]
    by (cases "addresses ! i") (simp_all add: g)
  moreover have "\<forall>j. invar (stores' j) \<and> (\<forall>t \<ge> now. view t (stores' j) = view t (stores j))" using us(4) views(2) by simp
  ultimately show ?case unfolding step us(1) using us(2) len by (intro exI [of _ us] exI [of _ stores']) simp
qed

lemma batch_read:
  assumes "\<And>i. invar (stores i)" "length ids = length addresses"
    and "\<And>i a. i < length addresses \<Longrightarrow> addresses ! i = Some a \<Longrightarrow> address_plain (ids ! i) a"
  shows "\<exists>stores'. readDiscoveryHealth act now skip ids addresses stores =
    Inr (map (\<lambda>(connectorId, address). case address of None \<Rightarrow> no_verdict
           | Some a \<Rightarrow> own_verdict skip (\<lambda>k. map_option fst (view now (stores (ha_store a)) k)) (discovery_key connectorId a) a)
         (zip ids addresses), stores') \<and> (\<forall>j. \<forall>t \<ge> now. view t (stores' j) = view t (stores j))"
proof -
  let ?v0 = "map (\<lambda>_. no_verdict) ids"
  have len: "length ?v0 = length addresses" using assms(2) by simp
  have groups: "\<forall>g \<in> set (store_groups addresses). snd g = filter (in_store addresses (fst g)) [0..<length addresses]"
    using store_groups_mem [of _ _ addresses] by (metis prod.collapse)
  have plain: "\<forall>i a. i < length addresses \<longrightarrow> addresses ! i = Some a \<longrightarrow> address_plain (ids ! i) a" using assms(3) by blast
  from read_groups_of [where stores = stores, OF assms(1) len groups plain, where now = now and skip = skip]
  obtain vs stores' where vs: "readDiscoveryHealth act now skip ids addresses stores = Inr (vs, stores')"
    "length vs = length ?v0" "\<forall>i < length addresses. vs ! i =
      (case addresses ! i of None \<Rightarrow> ?v0 ! i
       | Some a \<Rightarrow> if ha_store a \<in> fst ` set (store_groups addresses)
           then own_verdict skip (\<lambda>k. map_option fst (view now (stores (ha_store a)) k)) (discovery_key (ids ! i) a) a
           else ?v0 ! i)"
    "\<forall>j. invar (stores' j) \<and> (\<forall>t \<ge> now. view t (stores' j) = view t (stores j))"
    unfolding readDiscoveryHealth_def [symmetric] by (elim exE conjE) (rule that)
  have covered: "ha_store a \<in> fst ` set (store_groups addresses)" if "i < length addresses" "addresses ! i = Some a" for i a
    by (rule store_groups_covers [OF that]) (erule rev_image_eqI, simp)
  have "vs = map (\<lambda>(connectorId, address). case address of None \<Rightarrow> no_verdict
           | Some a \<Rightarrow> own_verdict skip (\<lambda>k. map_option fst (view now (stores (ha_store a)) k)) (discovery_key connectorId a) a)
         (zip ids addresses)"
    by (rule nth_equalityI) (use vs(2,3) assms(2) covered in \<open>auto split: option.split\<close>)
  with vs(1,4) show ?thesis by blast
qed

text \<open>What a reader sees after a probe was settled.\<close>

lemma settle_effect:
  assumes "invar s" "key_ok (hs_key slot)" "now \<le> later"
    and "\<forall>hf. settled_action w now slot outcome = Write_Record hf \<longrightarrow> expiry_ok (snd (encodeFact hf))"
  shows "view later (snd (settleDiscoveryHealth act w now slot outcome s)) =
    (if map_option fst (view now s (hs_key slot)) \<noteq> hs_raw slot then view later s
     else case settled_action w now slot outcome of
       Leave_Record \<Rightarrow> view later s
     | Clear_Record \<Rightarrow> (view later s)(hs_key slot := None)
     | Write_Record hf \<Rightarrow> (view later s)(hs_key slot :=
         (if later < of_int (snd (encodeFact hf)) then Some (fst (encodeFact hf), Some (of_int (snd (encodeFact hf)))) else None))) \<and>
    hv_recorded (fst (settleDiscoveryHealth act w now slot outcome s)) =
      (case settled_action w now slot outcome of
         Write_Record _ \<Rightarrow> Some (map_option fst (view now s (hs_key slot)) = hs_raw slot) | _ \<Rightarrow> None) \<and>
    invar (snd (settleDiscoveryHealth act w now slot outcome s))"
proof (cases "settled_action w now slot outcome")
  case Leave_Record
  then show ?thesis using assms(1) by (simp add: settleDiscoveryHealth_def)
next
  case Clear_Record
  let ?call = "Compare_And_Set (hs_key slot) (hs_raw slot) None no_expiry"
  show ?thesis
  proof (cases "hs_raw slot")
    case None
    have "(view later s)(hs_key slot := None) = view later s" if "view now s (hs_key slot) = None"
      using view_later [OF assms(1,3)] that by (auto simp: alive_def)
    with None Clear_Record assms(1) show ?thesis by (cases "view now s (hs_key slot)") (auto simp: settleDiscoveryHealth_def)
  next
    case (Some r)
    with Clear_Record show ?thesis
      using cas_clear(1) [OF assms(1,2), of now "hs_raw slot"] cas_clear(2) [OF assms(1,2,3), of "hs_raw slot"]
        act_invar [OF assms(1), of now ?call]
      by (cases "act now ?call s") (auto simp: settleDiscoveryHealth_def)
  qed
next
  case (Write_Record hf)
  obtain raw t where enc: "encodeFact hf = (raw, t)" by (cases "encodeFact hf")
  let ?call = "Compare_And_Set (hs_key slot) (hs_raw slot) (Some raw) (expires_at t)"
  have t: "expiry_ok t" using assms(4) Write_Record enc by simp
  show ?thesis
    using cas_write(1) [OF assms(1,2) t, of now "hs_raw slot" raw] cas_write(2) [OF assms(1,2) t assms(3), of "hs_raw slot" raw]
      act_invar [OF assms(1), of now ?call] Write_Record enc
    by (cases "act now ?call s") (auto simp: settleDiscoveryHealth_def)
qed

end

section \<open>Properties\<close>

text \<open>A recorded failure: seen now, to be retried within a minute and not before a second, of the generation read.\<close>

lemma written_fact:
  assumes "settled_action w now slot outcome = Write_Record hf"
  obtains ms where "hf_observedAt hf = now" "hf_retryAt hf = now + of_int ms" "1000 \<le> ms" "ms \<le> 60000"
    "hf_generation hf = hs_generation slot"
  using assms
  by (auto simp: settled_action_def Let_def DISCOVERY_RETRY_MS_def split: probe_outcome.splits if_splits option.splits)

definition fresh_fact :: "rat \<Rightarrow> health_slot \<Rightarrow> health_fact \<Rightarrow> bool" where
  "fresh_fact now slot hf \<longleftrightarrow> hf_observedAt hf = now \<and> now + 1000 \<le> hf_retryAt hf \<and> hf_retryAt hf \<le> now + 60000 \<and>
     hf_generation hf = hs_generation slot"

lemma written_fresh: "settled_action w now slot outcome = Write_Record hf \<Longrightarrow> fresh_fact now slot hf"
  by (erule written_fact) (simp add: fresh_fact_def)

lemma written_expiry:
  assumes "settled_action w now slot outcome = Write_Record hf" "whole_ms now" "now \<le> 2 ^ 52" "0 \<le> now"
  shows "timed_whole hf" "of_int (snd (encodeFact hf)) = hf_retryAt hf + 60000" "expiry_ok (snd (encodeFact hf))"
proof -
  obtain ms where hf: "hf_observedAt hf = now" "hf_retryAt hf = now + of_int ms" "1000 \<le> ms" "ms \<le> 60000"
    using written_fact [OF assms(1)] by metis
  obtain i where i: "now = of_int i" using assms(2) by (metis whole_ms_def)
  have bounds: "0 \<le> i" "i \<le> 2 ^ 52" using assms(3,4) i by simp_all
  have sum: "hf_retryAt hf = of_int (i + ms)" using hf(2) i by simp
  have "of_int (i + ms) < (2 :: rat) ^ 53" using bounds hf(4) by (simp only: of_int_less_numeral_power_cancel_iff) simp
  moreover have "0 \<le> (of_int (i + ms) :: rat)" using bounds hf(3) by simp
  ultimately show "timed_whole hf" using assms(2) hf(1) by (simp only: timed_whole_def whole_ms_def sum floor_of_int abs_of_nonneg)
  have "hf_retryAt hf + CONNECTOR_HEALTH_LINGER_MS = of_int (i + ms + 60000)" by (simp add: sum CONNECTOR_HEALTH_LINGER_MS_def)
  then have t: "snd (encodeFact hf) = i + ms + 60000" by (simp only: encodeFact_def snd_conv ceiling_of_int)
  show "of_int (snd (encodeFact hf)) = hf_retryAt hf + 60000" unfolding t by (simp add: sum)
  show "expiry_ok (snd (encodeFact hf))" unfolding t expiry_ok_def using bounds hf(3,4) by simp
qed

text \<open>
  C26. Exactly one request claims the next probe of a connector: when several requests read the same record (or its
  absence) and claim it one after another, the first \<^verbatim>\<open>claimDiscoveryProbe\<close> returns true and every other
  one false, as long as the claimed lease differs from the retry time of the record it replaces and, where there was
  no record, the lease has not lapsed from the store.
\<close>

theorem discovery_one_claimant:
  assumes "mem_wf m" "key_ok k" "sorted (map fst ((now, slot, lease) # rest))"
    and "\<And>c. c \<in> set ((now, slot, lease) # rest) \<Longrightarrow> hs_key (fst (snd c)) = k \<and> hs_raw (fst (snd c)) = raw \<and>
      expiry_ok \<lceil>snd (snd c) + CONNECTOR_HEALTH_LINGER_MS\<rceil>"
    and "map_option fst (mem_view now m k) = raw" and "lease_fact now slot lease = Some hf" "timed_whole hf"
    and "raw = None \<Longrightarrow> (\<forall>c \<in> set rest. fst c < lease + CONNECTOR_HEALTH_LINGER_MS)"
    and "\<And>old. parseFact raw = Some old \<Longrightarrow> hf_retryAt old \<noteq> lease"
  shows "claim_run mem_act ((now, slot, lease) # rest) m = True # replicate (length rest) False"
  by (rule memory_store.one_claimant [OF assms(1-3) refl assms(4-9)])

definition absent_slot :: health_slot where
  "absent_slot = \<lparr>hs_key = lit ''k'', hs_generation = None, hs_raw = None\<rparr>"

theorem discovery_one_claimant_witness:
  "claim_run mem_act [(0, absent_slot, 5000), (1, absent_slot, 6000), (64999, absent_slot, 70000)] memoryStorage = [True, False, False]"
proof -
  let ?rest = "[(1, absent_slot, 6000), (64999, absent_slot, 70000)] :: (rat \<times> health_slot \<times> rat) list"
  let ?hf = "\<lparr>hf_code = C_timeout, hf_observedAt = 0, hf_retryAt = 5000, hf_generation = None\<rparr>"
  have "key_ok (lit ''k'')" by (simp add: key_ok_iff has_unit_def lit_def)
  moreover have "mem_wf memoryStorage" "map_option fst (mem_view 0 memoryStorage (lit ''k'')) = None"
    by (simp_all add: mem_wf_def memoryStorage_def mem_view_def contents_def alive_def)
  moreover have "lease_fact 0 absent_slot 5000 = Some ?hf" by (simp add: lease_fact_def absent_slot_def)
  moreover have "timed_whole ?hf" by (simp add: timed_whole_def whole_ms_def)
  ultimately have "claim_run mem_act ((0, absent_slot, 5000) # ?rest) memoryStorage = True # replicate (length ?rest) False"
    by (intro discovery_one_claimant [where k = "lit ''k''" and raw = None and hf = ?hf])
      (auto simp: absent_slot_def CONNECTOR_HEALTH_LINGER_MS_def expiry_ok_def parseFact_def)
  then show ?thesis by (simp add: numeral_2_eq_2)
qed

text \<open>
  Settling a probe touches only the record it read: other keys never change; if the stored record is no longer the
  one the request read, nothing changes and the request is told it recorded nothing; otherwise a success leaves no
  record, and a recorded failure leaves one that carries the time, the generation read and a retry time between one
  and sixty seconds away, and that the store keeps until a minute past it.
\<close>

theorem settle_touches_own_record:
  assumes "mem_wf m" "key_ok (hs_key slot)" "whole_ms now" "0 \<le> now" "now \<le> 2 ^ 52" "now \<le> later"
  shows "let r = settleDiscoveryHealth mem_act w now slot outcome m; own = (map_option fst (mem_view now m (hs_key slot)) = hs_raw slot)
    in (\<forall>k. k \<noteq> hs_key slot \<longrightarrow> mem_view later (snd r) k = mem_view later m k) \<and>
       (\<not> own \<longrightarrow> mem_view later (snd r) = mem_view later m \<and> hv_recorded (fst r) \<noteq> Some True) \<and>
       (own \<and> outcome = Probe_Ok \<longrightarrow> mem_view later (snd r) (hs_key slot) = None) \<and>
       (hv_recorded (fst r) = Some True \<longrightarrow> own \<and>
         (\<exists>hf. hv_skip (fst r) = Some (hf_code hf, hf_retryAt hf) \<and> fresh_fact now slot hf \<and>
            mem_view later (snd r) (hs_key slot) =
              (if later < hf_retryAt hf + 60000 then Some (fst (encodeFact hf), Some (hf_retryAt hf + 60000)) else None)))"
proof -
  have "\<forall>hf. settled_action w now slot outcome = Write_Record hf \<longrightarrow> expiry_ok (snd (encodeFact hf))"
    using written_expiry(3) [OF _ assms(3,5,4)] by blast
  note effect = memory_store.settle_effect [OF assms(1,2,6) this]
  show ?thesis
  proof (cases "settled_action w now slot outcome")
    case (Write_Record hf)
    let ?r = "settleDiscoveryHealth mem_act w now slot outcome m"
    have "outcome \<noteq> Probe_Ok" using Write_Record by (auto simp: settled_action_def)
    moreover have "hv_skip (fst ?r) = Some (hf_code hf, hf_retryAt hf)"
      using Write_Record by (simp add: settleDiscoveryHealth_def Let_def case_prod_unfold split: storage_reply.split)
    moreover note written_fresh [OF Write_Record] written_expiry(2) [OF Write_Record assms(3,5,4)]
    ultimately show ?thesis
      using effect Write_Record unfolding Let_def by (auto intro!: exI [of _ hf])
  next
    case Clear_Record
    with effect show ?thesis unfolding Let_def by auto
  next
    case Leave_Record
    moreover from this have "outcome \<noteq> Probe_Ok" by (auto simp: settled_action_def)
    ultimately show ?thesis using effect unfolding Let_def by auto
  qed
qed

definition quiet_world :: failure_world where
  "quiet_world = \<lparr>w_http_origin = (\<lambda>_. None), w_objects = Map.empty, w_next = 0, w_resendAdvices = Map.empty, w_keyAdvices = Map.empty\<rparr>"

text \<open>A timeout settled at time zero on an empty store.\<close>

definition timeout_settled :: "health_slot \<Rightarrow> health_verdict \<times> mem_store" where
  "timeout_settled slot = settleDiscoveryHealth mem_act quiet_world 0 slot (Probe_Failed Undefined_Value True 0) memoryStorage"

lemma timeout_settled_recorded:
  assumes "key_ok (hs_key slot)" "hs_raw slot = None"
  shows "hv_recorded (fst (timeout_settled slot)) = Some True" "hv_skip (fst (timeout_settled slot)) = Some (C_timeout, 60000)"
    and "mem_wf (snd (timeout_settled slot))"
proof -
  let ?hf = "\<lparr>hf_code = C_timeout, hf_observedAt = 0, hf_retryAt = 60000, hf_generation = hs_generation slot\<rparr>"
  have a: "settled_action quiet_world 0 slot (Probe_Failed Undefined_Value True 0) = Write_Record ?hf"
    by (simp add: settled_action_def DISCOVERY_RETRY_MS_def)
  have "whole_ms 0" by (simp add: whole_ms_def)
  then have e: "\<forall>hf. settled_action quiet_world 0 slot (Probe_Failed Undefined_Value True 0) = Write_Record hf \<longrightarrow> expiry_ok (snd (encodeFact hf))"
    using written_expiry(3) by (metis order_refl zero_le_numeral zero_le_power)
  have "mem_wf memoryStorage" "map_option fst (mem_view 0 memoryStorage (hs_key slot)) = None"
    by (simp_all add: mem_wf_def memoryStorage_def mem_view_def contents_def alive_def)
  with memory_store.settle_effect [OF _ assms(1) order_refl e] a assms(2)
  show "hv_recorded (fst (timeout_settled slot)) = Some True" "mem_wf (snd (timeout_settled slot))"
    by (auto simp: timeout_settled_def)
  show "hv_skip (fst (timeout_settled slot)) = Some (C_timeout, 60000)"
    using a by (simp add: timeout_settled_def settleDiscoveryHealth_def Let_def case_prod_unfold split: storage_reply.split)
qed

lemma absent_ok: "key_ok (hs_key absent_slot)" "hs_raw absent_slot = None"
  by (simp_all add: absent_slot_def key_ok_iff has_unit_def lit_def)

theorem settle_touches_own_record_witness:
  "\<exists>hf. hv_skip (fst (timeout_settled absent_slot)) = Some (hf_code hf, hf_retryAt hf) \<and> fresh_fact 0 absent_slot hf"
  using settle_touches_own_record [of memoryStorage absent_slot 0 0 quiet_world "Probe_Failed Undefined_Value True 0"]
    absent_ok timeout_settled_recorded(1) [OF absent_ok]
  unfolding timeout_settled_def Let_def by (auto simp: mem_wf_def memoryStorage_def whole_ms_def)

text \<open>
  C27. Reading the health of many connectors in one round trip per store gives each connector exactly the verdict of
  its own record and its own generation, in the order of the request; connectors without an address get none, and
  reading changes nothing anyone sees.
\<close>

theorem batch_read_exact:
  assumes "\<And>j. mem_wf (stores j)" "length ids = length addresses"
    and "\<And>i a. i < length addresses \<Longrightarrow> addresses ! i = Some a \<Longrightarrow> address_plain (ids ! i) a"
  shows "\<exists>stores'. readDiscoveryHealth mem_act now skip ids addresses stores =
    Inr (map (\<lambda>(connectorId, address). case address of None \<Rightarrow> no_verdict
           | Some a \<Rightarrow> own_verdict skip (\<lambda>k. map_option fst (mem_view now (stores (ha_store a)) k)) (discovery_key connectorId a) a)
         (zip ids addresses), stores') \<and> (\<forall>j. \<forall>t \<ge> now. mem_view t (stores' j) = mem_view t (stores j))"
  using memory_store.batch_read [OF assms] .

definition example_address :: health_address where
  "example_address = \<lparr>ha_store = 0, ha_digest = lit ''d'', ha_generationKey = lit ''g''\<rparr>"

lemma example_plain: "address_plain (lit ''c'') example_address"
  by (simp add: address_plain_def example_address_def discovery_key_def key_ok_iff has_unit_def lit_def)

theorem batch_read_exact_witness:
  "\<exists>stores'. readDiscoveryHealth mem_act 0 True [lit ''a'', lit ''c''] [None, Some example_address] (\<lambda>_. memoryStorage) =
     Inr ([no_verdict, own_verdict True (\<lambda>k. None) (discovery_key (lit ''c'') example_address) example_address], stores')"
proof -
  have "mem_wf memoryStorage" "mem_view 0 memoryStorage k = None" for k
    by (simp_all add: mem_wf_def memoryStorage_def mem_view_def contents_def alive_def)
  moreover have "address_plain ([lit ''a'', lit ''c''] ! i) a" if "i < length [None, Some example_address]"
      "[None, Some example_address] ! i = Some a" for i a
    using that example_plain by (cases i) auto
  ultimately show ?thesis
    using batch_read_exact [of "\<lambda>_. memoryStorage" "[lit ''a'', lit ''c'']" "[None, Some example_address]" 0 True] by auto
qed

text \<open>
  A recorded failure is found again: after \<^verbatim>\<open>settleDiscoveryHealth\<close> has recorded a failure, every
  \<^verbatim>\<open>readDiscoveryHealth\<close> of that connector's partition, alone or among others, until a minute past the
  retry time tells the request to skip it with the recorded code and retry time, unless the catalog generation has
  been rotated, when it tells nothing.
\<close>

theorem recorded_failure_skipped:
  assumes "mem_wf m" "hs_key slot = discovery_key connectorId a" "whole_ms now" "0 \<le> now" "now \<le> 2 ^ 52"
    and "settleDiscoveryHealth mem_act w now slot outcome m = (v, m')" "hv_recorded v = Some True" "hv_skip v = Some (code, retryAt)"
    and "now \<le> later" "later < retryAt + 60000"
    and "\<And>j. mem_wf (stores j)" "stores (ha_store a) = m'" "length ids = length addresses"
    and "\<And>i b. i < length addresses \<Longrightarrow> addresses ! i = Some b \<Longrightarrow> address_plain (ids ! i) b"
    and "i < length addresses" "ids ! i = connectorId" "addresses ! i = Some a"
  shows "\<exists>vs stores'. readDiscoveryHealth mem_act later True ids addresses stores = Inr (vs, stores') \<and>
    hv_skip (vs ! i) = (if map_option fst (mem_view later m' (ha_generationKey a)) = hs_generation slot then Some (code, retryAt) else None)"
proof -
  have plain: "address_plain connectorId a" using assms(14) [of i a] assms(15-17) by simp
  then have key: "key_ok (hs_key slot)" using assms(2) by (simp add: address_plain_def)
  have "\<forall>hf. settled_action w now slot outcome = Write_Record hf \<longrightarrow> expiry_ok (snd (encodeFact hf))"
    using written_expiry(3) [OF _ assms(3,5,4)] by blast
  note effect = memory_store.settle_effect [OF assms(1) key assms(9) this, unfolded assms(6) fst_conv snd_conv]
  obtain hf where hf: "settled_action w now slot outcome = Write_Record hf" and own: "map_option fst (mem_view now m (hs_key slot)) = hs_raw slot"
    using effect assms(7) by (cases "settled_action w now slot outcome") auto
  have skip: "hf_code hf = code" "hf_retryAt hf = retryAt"
    using hf assms(6,8) by (auto simp: settleDiscoveryHealth_def Let_def case_prod_unfold split: storage_reply.splits)
  have gen: "hf_generation hf = hs_generation slot" using written_fresh [OF hf] by (simp add: fresh_fact_def)
  have "mem_view later m' (hs_key slot) = Some (fst (encodeFact hf), Some (retryAt + 60000))"
    using effect hf own assms(10) written_expiry(2) [OF hf assms(3,5,4)] skip by auto
  then have raw: "map_option fst (mem_view later m' (discovery_key connectorId a)) = Some (fst (encodeFact hf))" using assms(2) by simp
  have parse: "parseFact (Some (fst (encodeFact hf))) = Some hf" by (rule parse_encoded [OF written_expiry(1) [OF hf assms(3,5,4)]])
  have "hv_skip (own_verdict True (\<lambda>k. map_option fst (mem_view later m' k)) (discovery_key connectorId a) a) =
      (if map_option fst (mem_view later m' (ha_generationKey a)) = hs_generation slot then Some (code, retryAt) else None)"
    using skip gen by (auto simp: own_verdict_def slot_verdict_def raw parse)
  moreover obtain stores' where "readDiscoveryHealth mem_act later True ids addresses stores =
    Inr (map (\<lambda>(connectorId, address). case address of None \<Rightarrow> no_verdict
           | Some a \<Rightarrow> own_verdict True (\<lambda>k. map_option fst (mem_view later (stores (ha_store a)) k)) (discovery_key connectorId a) a)
         (zip ids addresses), stores')"
    using memory_store.batch_read [where stores = stores, OF assms(11,13,14), of later True] by blast
  ultimately show ?thesis using assms(12,13,15-17) by (intro exI conjI) (assumption, simp)
qed

definition example_slot :: health_slot where
  "example_slot = \<lparr>hs_key = discovery_key (lit ''c'') example_address, hs_generation = None, hs_raw = None\<rparr>"

theorem recorded_failure_skipped_witness:
  "\<exists>vs stores'. readDiscoveryHealth mem_act 119999 True [lit ''c''] [Some example_address] (\<lambda>_. snd (timeout_settled example_slot)) =
     Inr (vs, stores') \<and>
   hv_skip (vs ! 0) = (if map_option fst (mem_view 119999 (snd (timeout_settled example_slot)) (lit ''g'')) = None
     then Some (C_timeout, 60000) else None)"
proof -
  have ok: "key_ok (hs_key example_slot)" "hs_raw example_slot = None" "hs_generation example_slot = None"
    "hs_key example_slot = discovery_key (lit ''c'') example_address"
    using example_plain by (simp_all add: example_slot_def address_plain_def)
  note rec = timeout_settled_recorded [OF ok(1,2)]
  have "mem_wf memoryStorage" by (simp add: mem_wf_def memoryStorage_def)
  moreover have "settleDiscoveryHealth mem_act quiet_world 0 example_slot (Probe_Failed Undefined_Value True 0) memoryStorage =
      (fst (timeout_settled example_slot), snd (timeout_settled example_slot))" by (simp add: timeout_settled_def)
  moreover have "address_plain ([lit ''c''] ! i) b" if "i < length [Some example_address]" "[Some example_address] ! i = Some b" for i b
    using that example_plain by simp
  moreover have "whole_ms 0" "ha_generationKey example_address = lit ''g''" by (simp_all add: whole_ms_def example_address_def)
  ultimately show ?thesis
    using recorded_failure_skipped [of memoryStorage example_slot "lit ''c''" example_address 0 quiet_world
      "Probe_Failed Undefined_Value True 0" "fst (timeout_settled example_slot)" "snd (timeout_settled example_slot)" C_timeout 60000
      119999 "\<lambda>_. snd (timeout_settled example_slot)" "[lit ''c'']" "[Some example_address]" 0] rec ok
    by simp
qed

end
