(* ===== verification/Executor_Progress.thy ===== *)
theory Executor_Progress
  imports Executor_Admission
begin

text \<open>
  Progress of executor admission (\<^verbatim>\<open>src/executor-admission.ts\<close>): a queued caller is answered. No turn moves
  it back, every lease given back moves the queue on by one, and a caller leaves the queue only with a recorded
  outcome or by its own timeout, abort or interruption, after which nothing is ever recorded for it.
\<close>

section \<open>Places in the queue\<close>

text \<open>How many callers are ahead of this one.\<close>

definition place :: "nat \<Rightarrow> ac_waiter list \<Rightarrow> nat" where
  "place w ws = length (takeWhile (\<lambda>x. waiter_id x \<noteq> w) ws)"

lemma place_filter:
  "w \<in> waiter_id ` set (filter P ws) \<Longrightarrow> distinct (map waiter_id ws) \<Longrightarrow> place w (filter P ws) \<le> place w ws"
  by (induction ws) (auto simp: place_def)

lemma place_drop:
  "w \<in> waiter_id ` set (drop k ws) \<Longrightarrow> distinct (map waiter_id ws) \<Longrightarrow> place w (drop k ws) + k = place w ws"
proof (induction k arbitrary: ws)
  case (Suc k)
  obtain x xs where ws: "ws = x # xs" using Suc.prems(1) by (cases ws) auto
  then have "w \<in> waiter_id ` set (drop k xs)" "distinct (map waiter_id xs)" using Suc.prems by auto
  moreover have "waiter_id x \<noteq> w" using Suc.prems ws set_drop_subset [of k xs] by auto
  ultimately show ?case using Suc.IH [of xs] ws by (simp add: place_def)
qed simp

lemma place_append: "w \<in> waiter_id ` set ws \<Longrightarrow> place w (ws @ vs) = place w ws"
  by (auto simp: place_def takeWhile_append)

text \<open>The caller has its answer, or it still waits, at least \<open>n\<close> places further on.\<close>

definition serves :: "nat \<Rightarrow> nat \<Rightarrow> admission_controller \<Rightarrow> admission_controller \<Rightarrow> bool" where
  "serves n w c d \<longleftrightarrow> (is_waiting w c \<longrightarrow> ac_outcomes d w \<noteq> None \<or>
     (is_waiting w d \<and> place w (ac_waiters d) + n \<le> place w (ac_waiters c)))"

lemma serves_refl: "ac_waiters d = ac_waiters c \<Longrightarrow> serves 0 w c d"
  by (simp add: serves_def is_waiting_def)

lemma serves_trans:
  "serves m w c d \<Longrightarrow> serves n w d e \<Longrightarrow> (\<And>x. ac_outcomes d w = Some x \<Longrightarrow> ac_outcomes e w = Some x) \<Longrightarrow> serves (m + n) w c e"
  by (force simp: serves_def)

lemma serves_less: "serves m w c d \<Longrightarrow> n \<le> m \<Longrightarrow> serves n w c d"
  by (auto simp: serves_def)

section \<open>What each turn does for a waiting caller\<close>

lemma fold_settle_answers:
  "v \<in> f ` set ws \<Longrightarrow> \<exists>x. ac_outcomes (fold (\<lambda>w. settle (f w) (g w)) ws c) v = Some x"
proof (induction ws arbitrary: c)
  case (Cons w ws)
  have "\<exists>x. ac_outcomes (settle (f w) (g w) c) (f w) = Some x"
    by (cases "ac_outcomes c (f w)") (auto simp: settle_outcome)
  with Cons show ?case by (auto dest: fold_settle_mono)
qed simp

lemma prune_answers:
  "x \<in> set (ac_waiters c) \<Longrightarrow> waiter_expired now c x \<Longrightarrow> \<exists>y. ac_outcomes (pruneExpiredWaiters now c) (waiter_id x) = Some y"
  by (subst pruneExpiredWaiters_def) (simp add: Let_def, rule fold_settle_answers, simp)

lemma prune_serves: "ac_base c \<Longrightarrow> serves 0 w c (pruneExpiredWaiters now c)"
  unfolding serves_def
proof (intro impI)
  assume base: "ac_base c" and w: "is_waiting w c"
  then obtain x where x: "x \<in> set (ac_waiters c)" "w = waiter_id x" by (auto simp: is_waiting_def)
  show "ac_outcomes (pruneExpiredWaiters now c) w \<noteq> None \<or> (is_waiting w (pruneExpiredWaiters now c) \<and>
      place w (ac_waiters (pruneExpiredWaiters now c)) + 0 \<le> place w (ac_waiters c))"
  proof (cases "waiter_expired now c x")
    case True
    with prune_answers [OF x(1)] x show ?thesis by auto
  next
    case False
    then have "w \<in> waiter_id ` set (filter (\<lambda>x. \<not> waiter_expired now c x) (ac_waiters c))" using x by auto
    with place_filter [OF this] base show ?thesis by (simp add: is_waiting_def ac_base_def)
  qed
qed

lemma fill_serves:
  assumes "ac_base c"
  shows "serves (min 1 (ac_concurrency c - length (ac_leases c))) w c (fill_loop now (ac_waiters c) c)"
  unfolding serves_def
proof (intro impI)
  let ?d = "fill_loop now (ac_waiters c) c" and ?free = "ac_concurrency c - length (ac_leases c)"
  let ?k = "min (length (ac_waiters c)) ?free"
  assume w: "is_waiting w c"
  have "ac_base (c\<lparr>ac_waiters := ac_waiters c\<rparr>)" using assms by (simp add: ac_base_def)
  from fill_loop_prefix [OF this, of now]
  have q: "ac_waiters ?d = drop ?k (ac_waiters c)"
    and served: "\<forall>x \<in> set (take ?k (ac_waiters c)). \<exists>l. ac_outcomes ?d (waiter_id x) = Some (Inr l)" by blast+
  have "w \<in> waiter_id ` (set (take ?k (ac_waiters c)) \<union> set (drop ?k (ac_waiters c)))"
    using w by (metis append_take_drop_id is_waiting_def set_append)
  then consider "w \<in> waiter_id ` set (take ?k (ac_waiters c))" | "w \<in> waiter_id ` set (drop ?k (ac_waiters c))" by auto
  then show "ac_outcomes ?d w \<noteq> None \<or> (is_waiting w ?d \<and> place w (ac_waiters ?d) + min 1 ?free \<le> place w (ac_waiters c))"
  proof cases
    case 1
    with served show ?thesis by auto
  next
    case 2
    then have "0 < length (ac_waiters c)" by (cases "ac_waiters c") auto
    moreover have "place w (ac_waiters ?d) + ?k = place w (ac_waiters c)"
      using place_drop [OF 2] assms by (simp add: q ac_base_def)
    ultimately show ?thesis using 2 by (auto simp: is_waiting_def q)
  qed
qed

lemma fillSlots_serves:
  assumes "ac_base c"
  shows "serves (min 1 (ac_concurrency c - length (ac_leases c))) w c (fillSlots now c)"
proof -
  have "serves (0 + min 1 (ac_concurrency c - length (ac_leases c))) w c (fillSlots now c)"
    using fill_serves [OF ac_base_prune [OF assms, of now], of w now]
    by (intro serves_trans [OF prune_serves [OF assms]]) (auto simp: fillSlots_def Let_def intro: fill_loop_mono)
  then show ?thesis by simp
qed

lemma release_serves:
  assumes "ac_inv c"
  shows "serves 0 w c (release now l c)" "map_has l (ac_leases c) \<Longrightarrow> serves 1 w c (release now l c)"
proof -
  show one: "serves 1 w c (release now l c)" if l: "map_has l (ac_leases c)"
  proof (cases "is_waiting w c")
    case True
    let ?d = "c\<lparr>ac_leases := map_delete l (ac_leases c), ac_active := ac_active c - 1\<rparr>"
    have queue: "ac_waiters c \<noteq> []" using True by (auto simp: is_waiting_def)
    then have full: "length (ac_leases c) = ac_concurrency c" and "\<not> ac_closed c"
      and act: "ac_active c = int (length (ac_leases c))" and d: "distinct (map fst (ac_leases c))"
      using assms by (auto simp: ac_inv_def)
    have pos: "0 < length (ac_leases c)" using l by (auto simp: map_has_def)
    have len: "length (map_delete l (ac_leases c)) = length (ac_leases c) - 1"
      using length_map_delete [OF d, of l] l by simp
    have base: "ac_base ?d"
      using len act pos
      by (intro ac_base_fewer_leases [OF ac_inv_base [OF assms], where P = "\<lambda>e. fst e \<noteq> l"]) (simp_all add: map_delete_def of_nat_diff Suc_le_eq)
    have "serves 1 w ?d (fillSlots now ?d)" using fillSlots_serves [OF base, of w now] len full pos by simp
    moreover have "release now l c = fillSlots now ?d"
      using l pos act \<open>\<not> ac_closed c\<close> by (simp add: release_def releaseSlot_def)
    ultimately show ?thesis by (simp add: serves_def is_waiting_def)
  qed (simp add: serves_def)
  show "serves 0 w c (release now l c)"
    using serves_less [OF one] by (cases "map_has l (ac_leases c)") (simp_all add: release_def serves_refl)
qed

lemma reap_serves:
  assumes "ac_inv c"
  shows "serves 0 w c (reapExpired now c)"
proof -
  let ?c1 = "pruneExpiredWaiters now c"
  let ?c2 = "?c1\<lparr>ac_leases := filter (\<lambda>l. \<not> lease_expired now l) (ac_leases ?c1),
                  ac_active := ac_active ?c1 - int (length (filter (lease_expired now) (ac_leases ?c1)))\<rparr>"
  have base1: "ac_base ?c1" by (rule ac_base_prune [OF ac_inv_base [OF assms]])
  have "length (filter (\<lambda>l. \<not> lease_expired now l) (ac_leases c)) + length (filter (lease_expired now) (ac_leases c)) = length (ac_leases c)"
    using sum_length_filter_compl [of "lease_expired now" "ac_leases c"] by simp
  moreover have "ac_active c = int (length (ac_leases c))" using assms by (simp add: ac_inv_def)
  ultimately have base: "ac_base ?c2"
    by (intro ac_base_fewer_leases [OF base1, where P = "\<lambda>l. \<not> lease_expired now l"]) auto
  have first: "serves 0 w c ?c1" by (rule prune_serves [OF ac_inv_base [OF assms]])
  have same: "serves 0 w ?c1 ?c2" by (rule serves_refl) simp
  have "serves (0 + 0) w c ?c2" by (rule serves_trans [OF first same]) simp
  then have "serves (0 + 0) w c (fillSlots now ?c2)"
    by (intro serves_trans [OF _ serves_less [OF fillSlots_serves [OF base]]]) (auto intro: fillSlots_mono)
  with first \<open>serves (0 + 0) w c ?c2\<close> show ?thesis by (auto simp: reapExpired_def Let_def)
qed

lemma acquire_serves:
  assumes "ac_inv c"
  shows "serves 0 w c (snd (acquire now aborted wait c))"
proof -
  have "serves 0 w (reapExpired now c) (snd (acquire now aborted wait c))"
    by (auto simp: acquire_def Let_def makeLease_def serves_def is_waiting_def place_append)
  then have "serves (0 + 0) w c (snd (acquire now aborted wait c))"
    by (rule serves_trans [OF reap_serves [OF assms]]) (auto simp: acquire_def Let_def makeLease_def)
  then show ?thesis by simp
qed

lemma remove_serves:
  assumes "ac_inv c" "v \<noteq> w"
  shows "serves 0 w c (remove_waiter v c)"
proof -
  have "w \<in> waiter_id ` set (filter (\<lambda>x. waiter_id x \<noteq> v) (ac_waiters c))" if "is_waiting w c"
    using that assms(2) by (auto simp: is_waiting_def)
  with assms(1) show ?thesis
    by (auto simp: serves_def remove_waiter_def is_waiting_def ac_inv_def intro!: place_filter)
qed

lemma close_serves:
  assumes "ac_inv c"
  shows "serves 0 w c (close c)"
proof (cases "ac_closed c")
  case False
  have "ac_outcomes (close c) w = Some (Inl closed_error)" if "is_waiting w c"
    using that assms False by (auto simp: close_def is_waiting_def ac_inv_def intro!: close_fold(10))
  then show ?thesis by (simp add: serves_def)
qed (simp add: close_def serves_refl)

section \<open>Callers that left\<close>

text \<open>Who is not in the queue never comes back, and its outcome, or that it has none, never changes.\<close>

definition gone :: "nat \<Rightarrow> (exec_error + ac_lease) option \<Rightarrow> admission_controller \<Rightarrow> bool" where
  "gone v x c \<longleftrightarrow> v < ac_next c \<and> \<not> is_waiting v c \<and> ac_outcomes c v = x"

lemma gone_frame:
  "gone v x c \<Longrightarrow> ac_next d = ac_next c \<Longrightarrow> set (ac_waiters d) \<subseteq> set (ac_waiters c) \<Longrightarrow>
   ac_outcomes d v = ac_outcomes c v \<Longrightarrow> gone v x d"
  by (auto simp: gone_def is_waiting_def)

lemma gone_counters [simp]:
  "gone v x (c\<lparr>ac_closedTotal := n\<rparr>) = gone v x c" "gone v x (c\<lparr>ac_cancelledTotal := n\<rparr>) = gone v x c"
  "gone v x (c\<lparr>ac_rejectedTotal := n\<rparr>) = gone v x c" "gone v x (c\<lparr>ac_leases := ls\<rparr>) = gone v x c"
  "gone v x (c\<lparr>ac_active := k\<rparr>) = gone v x c" "gone v x (c\<lparr>ac_leases := ls, ac_active := k\<rparr>) = gone v x c"
  by (simp_all add: gone_def is_waiting_def)

lemma gone_prune: "gone v x c \<Longrightarrow> gone v x (pruneExpiredWaiters now c)"
  by (rule gone_frame) (auto simp: gone_def is_waiting_def intro!: prune_outcome)

lemma gone_fill:
  "v < ac_next c \<Longrightarrow> v \<notin> waiter_id ` set ws \<Longrightarrow> ac_outcomes c v = x \<Longrightarrow> gone v x (fill_loop now ws c)"
  by (induction now ws c rule: fill_loop.induct) (auto simp: gone_def is_waiting_def grant_slot_outcome)

lemma gone_fillSlots: assumes "gone v x c" shows "gone v x (fillSlots now c)"
proof -
  let ?p = "pruneExpiredWaiters now c"
  have "gone v x ?p" using assms by (rule gone_prune)
  then have "v < ac_next ?p" "v \<notin> waiter_id ` set (ac_waiters ?p)" "ac_outcomes ?p v = x"
    unfolding gone_def is_waiting_def by blast+
  then have "gone v x (fill_loop now (ac_waiters ?p) ?p)" by (rule gone_fill)
  then show ?thesis by (simp only: fillSlots_def Let_def)
qed

lemma gone_release: "gone v x c \<Longrightarrow> gone v x (release now l c)"
  by (auto simp: release_def releaseSlot_def Let_def intro!: gone_fillSlots)

lemma gone_reap: "gone v x c \<Longrightarrow> gone v x (reapExpired now c)"
  using gone_prune [of v x c now] by (auto simp: reapExpired_def Let_def intro!: gone_fillSlots)

lemma gone_remove: "gone v x c \<Longrightarrow> gone v x (remove_waiter w c)"
  by (rule gone_frame) (auto simp: remove_waiter_def)

lemma gone_close: "gone v x c \<Longrightarrow> gone v x (close c)"
  by (rule gone_frame) (auto simp: close_def close_fold gone_def is_waiting_def intro!: close_fold(8))

lemma gone_acquire: "gone v x c \<Longrightarrow> gone v x (snd (acquire now aborted wait c))"
  using gone_reap [of v x c now] by (auto simp: acquire_def makeLease_def Let_def gone_def is_waiting_def)

lemma gone_step: "ac_step c d \<Longrightarrow> gone v x c \<Longrightarrow> gone v x d"
  by (induction rule: ac_step.induct)
    (auto simp: give_up_timeout_def give_up_abort_def received_def cleanup_def snapshot_def Let_def gone_remove gone_close
      gone_acquire gone_release gone_reap split: option.split sum.split)

section \<open>Runs\<close>

text \<open>
  Any turns of anybody, with the number of live leases given back on the way and whether this caller ended its own
  wait: its timeout or its abort took it out of the queue, with the error that turn answers, or its waiting fiber
  was interrupted.
\<close>

inductive turns :: "nat \<Rightarrow> admission_controller \<Rightarrow> nat \<Rightarrow> bool \<Rightarrow> admission_controller \<Rightarrow> bool" for w c where
  here: "turns w c 0 False c"
| freed: "turns w c n g d \<Longrightarrow> map_has l (ac_leases d) \<Longrightarrow> turns w c (Suc n) g (release now l d)"
| acquire: "turns w c n g d \<Longrightarrow> turns w c n g (snd (acquire now aborted wait d))"
| reap: "turns w c n g d \<Longrightarrow> turns w c n g (reapExpired now d)"
| timeout: "turns w c n g d \<Longrightarrow>
    turns w c n (g \<or> (v = w \<and> fst (give_up_timeout v d) \<noteq> None)) (snd (give_up_timeout v d))"
| abort: "turns w c n g d \<Longrightarrow> turns w c n (g \<or> (v = w \<and> fst (give_up_abort v d) \<noteq> None)) (snd (give_up_abort v d))"
| received: "turns w c n g d \<Longrightarrow> turns w c n g (snd (received now lease d))"
| cleanup: "turns w c n g d \<Longrightarrow> turns w c n (g \<or> (v = w \<and> is_waiting v d)) (cleanup now v d)"
| close: "turns w c n g d \<Longrightarrow> turns w c n g (close d)"
| snapshot: "turns w c n g d \<Longrightarrow> turns w c n g (snd (snapshot now d))"

lemma serves_counters [simp]:
  "serves n w c (d\<lparr>ac_closedTotal := m\<rparr>) = serves n w c d" "serves n w c (d\<lparr>ac_cancelledTotal := m\<rparr>) = serves n w c d"
  "serves n w c (d\<lparr>ac_rejectedTotal := m\<rparr>) = serves n w c d"
  by (simp_all add: serves_def is_waiting_def)

lemma step_serves:
  assumes "ac_inv d"
  shows "v \<noteq> w \<Longrightarrow> serves 0 w d (snd (give_up_timeout v d))" "v \<noteq> w \<Longrightarrow> serves 0 w d (snd (give_up_abort v d))"
    "serves 0 w d (snd (received now lease d))" "v \<noteq> w \<Longrightarrow> serves 0 w d (cleanup now v d)" "serves 0 w d (snd (snapshot now d))"
  using assms remove_serves [OF assms] release_serves(1) [OF assms] reap_serves [OF assms]
  by (auto simp: give_up_timeout_def give_up_abort_def received_def cleanup_def snapshot_def Let_def serves_refl
      split: option.split sum.split)

lemma run_step: "serves n w c d \<Longrightarrow> serves 0 w d e \<Longrightarrow> ac_step d e \<Longrightarrow> serves n w c e"
  using serves_trans [of n w c d 0 e] ac_step_mono by simp

text \<open>What a run keeps: the caller was served so far, or it ended its own wait, unanswered, and is gone.\<close>

definition run_ok :: "nat \<Rightarrow> admission_controller \<Rightarrow> nat \<Rightarrow> bool \<Rightarrow> admission_controller \<Rightarrow> bool" where
  "run_ok w c n g d \<longleftrightarrow> ac_inv d \<and> (if g then gone w None d else serves n w c d)"

lemma run_ok_step: "run_ok w c n g d \<Longrightarrow> ac_step d e \<Longrightarrow> serves 0 w d e \<Longrightarrow> run_ok w c n g e"
  by (auto simp: run_ok_def intro: ac_step_inv gone_step run_step)

lemma ended_gone:
  assumes "ac_inv d" "is_waiting w d"
  shows "gone w None (remove_waiter w d)"
  using assms by (auto simp: gone_def remove_waiter_def is_waiting_def ac_inv_def)

lemma not_own_serves:
  assumes "ac_inv d" "\<not> (v = w \<and> is_waiting w d)"
  shows "serves 0 w d (snd (give_up_timeout v d))" "serves 0 w d (snd (give_up_abort v d))" "serves 0 w d (cleanup now v d)"
  using assms step_serves(1,2,4) [OF assms(1), of v w] by (cases "v = w"; simp add: serves_def)+

lemma run_ok_ended:
  assumes "run_ok w c n g d" "is_waiting w d" "ac_step d e" "gone w None e"
  shows "run_ok w c n True e"
  using assms by (auto simp: run_ok_def intro: ac_step_inv)

lemma turns_ok:
  assumes "turns w c n g d" "ac_inv c"
  shows "run_ok w c n g d"
  using assms(1)
proof (induction rule: turns.induct)
  case here
  then show ?case by (simp add: run_ok_def assms(2) serves_refl)
next
  case (freed n g d l now)
  then have "serves (n + 1) w c (release now l d)" if "\<not> g"
    using that by (intro serves_trans [OF _ release_serves(2)]) (auto simp: run_ok_def intro: release_mono)
  with freed show ?case by (auto simp: run_ok_def release_inv gone_release)
next
  case (timeout n g d v)
  note step = ac_step.timeout [of d v]
  show ?case
  proof (cases "v = w \<and> is_waiting w d")
    case True
    with timeout.IH have "gone w None (snd (give_up_timeout v d))"
      by (auto simp: run_ok_def give_up_timeout_def intro: ended_gone)
    with run_ok_ended [OF timeout.IH _ step] True show ?thesis by (simp add: give_up_timeout_def)
  next
    case False
    then have "(g \<or> (v = w \<and> fst (give_up_timeout v d) \<noteq> None)) = g" "serves 0 w d (snd (give_up_timeout v d))"
      using timeout.IH not_own_serves(1) [of d v w] by (auto simp: run_ok_def) (auto simp: give_up_timeout_def)
    with run_ok_step [OF timeout.IH step] show ?thesis by simp
  qed
next
  case (abort n g d v)
  note step = ac_step.abort [of d v]
  show ?case
  proof (cases "v = w \<and> is_waiting w d")
    case True
    with abort.IH have "gone w None (snd (give_up_abort v d))"
      by (auto simp: run_ok_def give_up_abort_def intro: ended_gone)
    with run_ok_ended [OF abort.IH _ step] True show ?thesis by (simp add: give_up_abort_def)
  next
    case False
    then have "(g \<or> (v = w \<and> fst (give_up_abort v d) \<noteq> None)) = g" "serves 0 w d (snd (give_up_abort v d))"
      using abort.IH not_own_serves(2) [of d v w] by (auto simp: run_ok_def) (auto simp: give_up_abort_def)
    with run_ok_step [OF abort.IH step] show ?thesis by simp
  qed
next
  case (cleanup n g d v now)
  note step = ac_step.cleanup [of d now v]
  show ?case
  proof (cases "v = w \<and> is_waiting w d")
    case True
    with cleanup.IH have "gone w None (cleanup now v d)"
      by (auto simp: run_ok_def cleanup_def intro: ended_gone)
    with run_ok_ended [OF cleanup.IH _ step] True show ?thesis by simp
  next
    case False
    then have "serves 0 w d (cleanup now v d)"
      using cleanup.IH not_own_serves(3) [of d v w] by (auto simp: run_ok_def)
    moreover have "(g \<or> (v = w \<and> is_waiting v d)) = g" using False by auto
    ultimately show ?thesis using run_ok_step [OF cleanup.IH step] by simp
  qed
qed (rule run_ok_step, assumption, rule ac_step.intros, simp add: run_ok_def acquire_serves reap_serves close_serves step_serves)+

section \<open>Properties\<close>

text \<open>
  C19. A queued caller is answered, once: after any turns at all (of other callers, of its own timers, of shutdown) in
  which at least one more live lease was given back than there were callers ahead of it, it no longer waits. Either
  its own timeout, abort or interruption ended its wait, and then no outcome is recorded for it, or its outcome is
  recorded.
\<close>

theorem queued_caller_answered:
  assumes "reachable ac_init ac_step c" "is_waiting w c" "turns w c n g d" "place w (ac_waiters c) < n"
  shows "\<not> is_waiting w d \<and> (g \<longleftrightarrow> ac_outcomes d w = None)"
proof -
  have ok: "run_ok w c n g d" by (rule turns_ok [OF assms(3) executor_pool.reachable_invar [OF assms(1)]])
  show ?thesis
  proof (cases g)
    case True
    with ok show ?thesis by (simp add: run_ok_def gone_def)
  next
    case False
    with ok assms(2,4) have "ac_outcomes d w \<noteq> None" by (auto simp: run_ok_def serves_def)
    with ok False show ?thesis by (auto simp: run_ok_def ac_inv_def is_waiting_def)
  qed
qed

theorem queued_caller_answered_witness:
  "ac_outcomes (release 5 0 demo_busy) 1 \<noteq> None \<and> place 1 (ac_waiters demo_busy) = 0 \<and> ac_outcomes demo_busy 1 = None"
proof -
  have waits: "is_waiting 1 demo_busy" "place 1 (ac_waiters demo_busy) < Suc 0"
    by (simp_all add: is_waiting_def place_def demo_busy_waiters)
  have "map_has 0 (ac_leases demo_busy)" by (simp add: demo_eval map_has_def)
  then have "turns 1 demo_busy (Suc 0) False (release 5 0 demo_busy)" by (rule turns.freed [OF turns.here])
  with queued_caller_answered [OF demo_busy_reachable waits(1) _ waits(2)] waits(2) show ?thesis by (auto simp: demo_eval)
qed

end
