(* ===== verification/Call_Answers.thy ===== *)
theory Call_Answers
  imports Call_Admission
begin

text \<open>
  How often a queued call is answered (\<^verbatim>\<open>src/call-admission.ts\<close>). Two parties can answer it: the
  pump or \<^verbatim>\<open>close()\<close> through its settlement, and the waiting fiber itself, by its timeout or its
  abort. \<^verbatim>\<open>removeWaiter\<close> arbitrates. The answers of both are listed here as they are given, so that
  an answer given twice would show.
\<close>

section \<open>What a turn does to one waiter\<close>

text \<open>
  It stays where it is, with the outcome it has or still without one, or it leaves the queue with an outcome. It is
  put in no queue, and an outcome is recorded for a waiter of a queue only.
\<close>

definition moves :: "nat \<Rightarrow> call_controller \<Rightarrow> call_controller \<Rightarrow> bool" where
  "moves w c d \<longleftrightarrow> (w < cc_next c \<longrightarrow>
     w < cc_next d \<and> (\<forall>s. queued_in s w d \<longrightarrow> queued_in s w c) \<and>
     (cc_outcomes d w = cc_outcomes c w \<or> (cc_outcomes c w = None \<and> (\<exists>s. queued_in s w c))) \<and>
     (\<forall>s. queued_in s w c \<longrightarrow> queued_in s w d \<or> cc_outcomes d w \<noteq> None))"

lemma moves_refl [simp]: "moves w c c"
  by (simp add: moves_def)
















section \<open>Runs\<close>

text \<open>The turns that are nobody's giving up.\<close>

inductive plain_turn :: "int \<times> call_controller \<Rightarrow> int \<times> call_controller \<Rightarrow> bool" where
  acquire: "T \<le> now \<Longrightarrow> plain_turn (T, c) (now, snd (cc_acquire now input signal signal' c))"
| release: "T \<le> now \<Longrightarrow> plain_turn (T, c) (now, cc_release now pid c)"
| charge: "T \<le> now \<Longrightarrow> plain_turn (T, c) (now, snd (chargeCallBudget now pid signal c))"
| received: "T \<le> now \<Longrightarrow> plain_turn (T, c) (now, snd (cc_received now permit c))"
| closing: "T \<le> now \<Longrightarrow> plain_turn (T, c) (now, cc_close c)"
| idle_check: "T \<le> now \<Longrightarrow> plain_turn (T, c) (now, snd (isIdle now c))"

lemma plain_turn_step: "plain_turn tc td \<Longrightarrow> cc_step tc td"
  by (induction rule: plain_turn.induct) (blast intro: cc_step.intros)+













section \<open>Properties\<close>




end
