(* ===== verification/Auth_Flow.thy ===== *)
theory Auth_Flow
  imports Memory_Storage Json_Text
begin

text \<open>
  The programs of \<^verbatim>\<open>src/auth\<close>: a body driven by \<^verbatim>\<open>authFlow\<close> is a sequence of
  storage calls, token requests, random names, clock readings and looks at a signal, with exceptions and with fields it
  mutates between them (\<^verbatim>\<open>auth/native.ts\<close>). A program is the tree of its continuations. Many programs
  run at once over one store: a call may be answered, or lose its answer and take effect later or never, and a program
  may stop for good at any point. The second half is a calculus for such programs: a discipline says which calls a
  program may make in which phase, a weakest precondition checks one program against it, and an invariant every
  disciplined action keeps then holds however the programs interleave.
\<close>

section \<open>Programs\<close>

text \<open>The signals that end a wait: the caller's own, the preparation and request deadline, the commit deadline.\<close>

datatype abort_signal = Caller_Signal | Waiting_Signal | Completion_Signal

text \<open>A token endpoint's answer: its status, the header \<^verbatim>\<open>retry-after\<close> and what reading its body gave.\<close>

datatype body_read = No_Body | Body_Text jstr | Body_Oversized | Body_Lost

record http_answer =
  ha_status :: nat
  ha_retryAfter :: "jstr option"
  ha_body :: body_read

datatype ('l, 'e, 'a) prog =
    Ret 'a
  | Throw 'e
  | Store storage_op "storage_reply option \<Rightarrow> ('l, 'e, 'a) prog"
  | Uuid "jstr \<Rightarrow> ('l, 'e, 'a) prog"
  | Nonce "jstr \<Rightarrow> ('l, 'e, 'a) prog"
  | Clock "int \<Rightarrow> ('l, 'e, 'a) prog"
  | Halted abort_signal "bool \<Rightarrow> ('l, 'e, 'a) prog"
  | Peek "'l \<Rightarrow> ('l, 'e, 'a) prog"
  | Poke 'l "('l, 'e, 'a) prog"
  | Send "jstr option" "('l, 'e, 'a) prog"
  | Await "http_answer option \<Rightarrow> ('l, 'e, 'a) prog"

text \<open>\<^verbatim>\<open>yield\<close>: go on with the result of a program, unless it throws.\<close>

primrec after :: "('l, 'e, 'a) prog \<Rightarrow> ('a \<Rightarrow> ('l, 'e, 'b) prog) \<Rightarrow> ('l, 'e, 'b) prog" where
  "after (Ret a) f = f a"
| "after (Throw e) f = Throw e"
| "after (Store c k) f = Store c (\<lambda>r. after (k r) f)"
| "after (Uuid k) f = Uuid (\<lambda>u. after (k u) f)"
| "after (Nonce k) f = Nonce (\<lambda>u. after (k u) f)"
| "after (Clock k) f = Clock (\<lambda>t. after (k t) f)"
| "after (Halted g k) f = Halted g (\<lambda>b. after (k b) f)"
| "after (Peek k) f = Peek (\<lambda>l. after (k l) f)"
| "after (Poke l p) f = Poke l (after p f)"
| "after (Send t p) f = Send t (after p f)"
| "after (Await k) f = Await (\<lambda>r. after (k r) f)"

text \<open>A \<^verbatim>\<open>catch\<close> clause, also \<^verbatim>\<open>authCatch\<close>.\<close>

primrec attempt :: "('l, 'e, 'a) prog \<Rightarrow> ('e \<Rightarrow> ('l, 'e, 'a) prog) \<Rightarrow> ('l, 'e, 'a) prog" where
  "attempt (Ret a) h = Ret a"
| "attempt (Throw e) h = h e"
| "attempt (Store c k) h = Store c (\<lambda>r. attempt (k r) h)"
| "attempt (Uuid k) h = Uuid (\<lambda>u. attempt (k u) h)"
| "attempt (Nonce k) h = Nonce (\<lambda>u. attempt (k u) h)"
| "attempt (Clock k) h = Clock (\<lambda>t. attempt (k t) h)"
| "attempt (Halted g k) h = Halted g (\<lambda>b. attempt (k b) h)"
| "attempt (Peek k) h = Peek (\<lambda>l. attempt (k l) h)"
| "attempt (Poke l p) h = Poke l (attempt p h)"
| "attempt (Send t p) h = Send t (attempt p h)"
| "attempt (Await k) h = Await (\<lambda>r. attempt (k r) h)"

text \<open>
  A race against a signal, \<^verbatim>\<open>authAwait\<close>: when the signal wins, the program is interrupted where it
  waits. Its own catch clauses do not see that, since they are already part of the tree; a call in flight keeps its
  effect.
\<close>

primrec interruptible :: "abort_signal \<Rightarrow> 'e \<Rightarrow> ('l, 'e, 'a) prog \<Rightarrow> ('l, 'e, 'a) prog" where
  "interruptible g x (Ret a) = Ret a"
| "interruptible g x (Throw e) = Throw e"
| "interruptible g x (Store c k) = Store c (\<lambda>r. Halted g (\<lambda>b. if b then Throw x else interruptible g x (k r)))"
| "interruptible g x (Uuid k) = Uuid (\<lambda>u. interruptible g x (k u))"
| "interruptible g x (Nonce k) = Nonce (\<lambda>u. interruptible g x (k u))"
| "interruptible g x (Clock k) = Clock (\<lambda>t. interruptible g x (k t))"
| "interruptible g x (Halted i k) = Halted i (\<lambda>b. interruptible g x (k b))"
| "interruptible g x (Peek k) = Peek (\<lambda>l. interruptible g x (k l))"
| "interruptible g x (Poke l p) = Poke l (interruptible g x p)"
| "interruptible g x (Send t p) = Send t (interruptible g x p)"
| "interruptible g x (Await k) = Await (\<lambda>r. Halted g (\<lambda>b. if b then Throw x else interruptible g x (k r)))"

text \<open>A look at a signal that throws, \<^verbatim>\<open>if (signal.aborted) throw aborted(signal)\<close>.\<close>

definition check_signal :: "abort_signal \<Rightarrow> 'e \<Rightarrow> ('l, 'e, unit) prog" where
  "check_signal g x = Halted g (\<lambda>b. if b then Throw x else Ret ())"

text \<open>\<^verbatim>\<open>RefreshWait.run\<close>: checked before and after, raced in between.\<close>

definition wait_run :: "abort_signal \<Rightarrow> 'e \<Rightarrow> ('l, 'e, 'a) prog \<Rightarrow> ('l, 'e, 'a) prog" where
  "wait_run g x p = after (check_signal g x) (\<lambda>_. after (interruptible g x p) (\<lambda>a. after (check_signal g x) (\<lambda>_. Ret a)))"

section \<open>Many programs over one store\<close>

datatype flow_event = Sent nat "jstr option" | Answered nat http_answer

record ('l, 'e, 'a, 's) world =
  wd_now :: rat
  wd_store :: 's
  wd_limbo :: "storage_op list"
  wd_uuids :: "jstr set"
  wd_log :: "flow_event list"
  wd_local :: "nat \<Rightarrow> 'l"
  wd_prog :: "nat \<Rightarrow> ('l, 'e, 'a) prog"

abbreviation goes_on :: "nat \<Rightarrow> ('l, 'e, 'a) prog \<Rightarrow> ('l, 'e, 'a, 's) world \<Rightarrow> ('l, 'e, 'a, 's) world" where
  "goes_on i p w \<equiv> w\<lparr>wd_prog := (wd_prog w)(i := p)\<rparr>"

text \<open>
  One action. The store's own clock does not run backwards; the clocks programs read, their signals and the answers of
  the token endpoint are arbitrary. \<open>foreign\<close> says which calls other code may make at any time.
\<close>

inductive flow_step ::
    "(rat \<Rightarrow> storage_op \<Rightarrow> 's \<Rightarrow> storage_reply \<times> 's) \<Rightarrow> (storage_op \<Rightarrow> bool) \<Rightarrow>
     ('l, 'e, 'a, 's) world \<Rightarrow> ('l, 'e, 'a, 's) world \<Rightarrow> bool"
  for act foreign where
  call_answered: "wd_prog w i = Store c k \<Longrightarrow> wd_now w \<le> t \<Longrightarrow>
    flow_step act foreign w
      (goes_on i (k (Some (fst (act t c (wd_store w))))) (w\<lparr>wd_now := t, wd_store := snd (act t c (wd_store w))\<rparr>))"
| call_lost: "wd_prog w i = Store c k \<Longrightarrow>
    flow_step act foreign w (goes_on i (k None) (w\<lparr>wd_limbo := c # wd_limbo w\<rparr>))"
| call_lands: "c \<in> set (wd_limbo w) \<Longrightarrow> wd_now w \<le> t \<Longrightarrow>
    flow_step act foreign w
      (w\<lparr>wd_now := t, wd_store := snd (act t c (wd_store w)), wd_limbo := remove1 c (wd_limbo w)\<rparr>)"
| foreign_call: "foreign c \<Longrightarrow> wd_now w \<le> t \<Longrightarrow>
    flow_step act foreign w (w\<lparr>wd_now := t, wd_store := snd (act t c (wd_store w))\<rparr>)"
| new_uuid: "wd_prog w i = Uuid k \<Longrightarrow> u \<notin> wd_uuids w \<Longrightarrow>
    flow_step act foreign w (goes_on i (k u) (w\<lparr>wd_uuids := insert u (wd_uuids w)\<rparr>))"
| new_nonce: "wd_prog w i = Nonce k \<Longrightarrow> flow_step act foreign w (goes_on i (k u) w)"
| clock_read: "wd_prog w i = Clock k \<Longrightarrow> flow_step act foreign w (goes_on i (k now) w)"
| signal_read: "wd_prog w i = Halted g k \<Longrightarrow> flow_step act foreign w (goes_on i (k b) w)"
| local_read: "wd_prog w i = Peek k \<Longrightarrow> flow_step act foreign w (goes_on i (k (wd_local w i)) w)"
| local_write: "wd_prog w i = Poke l p \<Longrightarrow>
    flow_step act foreign w (goes_on i p (w\<lparr>wd_local := (wd_local w)(i := l)\<rparr>))"
| request_sent: "wd_prog w i = Send tok p \<Longrightarrow>
    flow_step act foreign w (goes_on i p (w\<lparr>wd_log := wd_log w @ [Sent i tok]\<rparr>))"
| answer_arrives: "wd_prog w i = Await k \<Longrightarrow>
    flow_step act foreign w (goes_on i (k (Some a)) (w\<lparr>wd_log := wd_log w @ [Answered i a]\<rparr>))"
| answer_lost: "wd_prog w i = Await k \<Longrightarrow> flow_step act foreign w (goes_on i (k None) w)"

section \<open>The calculus\<close>

text \<open>
  A discipline: which calls are permitted in a phase, and how a call's reply, a new name, a send and an answer change
  the phase.
\<close>

record 'g discipline =
  dc_call :: "'g \<Rightarrow> storage_op \<Rightarrow> bool"
  dc_reply :: "'g \<Rightarrow> storage_op \<Rightarrow> storage_reply option \<Rightarrow> 'g"
  dc_uuid :: "'g \<Rightarrow> jstr \<Rightarrow> 'g"
  dc_send :: "'g \<Rightarrow> jstr option \<Rightarrow> bool"
  dc_sent :: "'g \<Rightarrow> 'g"
  dc_answer :: "'g \<Rightarrow> http_answer \<Rightarrow> 'g"

text \<open>Replies a program has to reckon with: a listing holds only keys that start with the prefix.\<close>

fun plausible :: "storage_op \<Rightarrow> storage_reply option \<Rightarrow> bool" where
  "plausible (List_Keys p) (Some (Listed ks)) = list_all (\<lambda>k. starts_with k p) ks"
| "plausible _ _ = True"

lemma plausible_lost [simp]: "plausible c None"
  by (cases c) auto

lemma listing_plausible: "finite (dom a) \<Longrightarrow> plausible c (Some (fst (spec_act t c a)))"
  by (cases c) (auto simp: list_all_iff split: option.split sum.split)

text \<open>What a store looks like after a call at a later time.\<close>

context kv_store
begin

lemma seen_next:
  assumes "invar s" "t \<le> t'"
  shows "view t' (snd (act t' c s)) = alive t' (snd (spec_act t' c (alive t' (view t s))))"
  using act_view [OF assms(1) order_refl] view_later [OF assms] by simp

lemma reply_next:
  "invar s \<Longrightarrow> t \<le> t' \<Longrightarrow> fst (act t' c s) = fst (spec_act t' c (alive t' (view t s)))"
  using act_reply view_later by simp

end

text \<open>
  The weakest precondition of a program for a postcondition on its phase, its fields and its result; \<open>J\<close> holds
  wherever an interruption may strike.
\<close>

primrec wp ::
    "'g discipline \<Rightarrow> ('g \<Rightarrow> 'l \<Rightarrow> bool) \<Rightarrow> ('l, 'e, 'a) prog \<Rightarrow> ('g \<Rightarrow> 'l \<Rightarrow> 'e + 'a \<Rightarrow> bool) \<Rightarrow> 'g \<Rightarrow> 'l \<Rightarrow> bool" where
  "wp D J (Ret a) = (\<lambda>Q g l. Q g l (Inr a))"
| "wp D J (Throw e) = (\<lambda>Q g l. Q g l (Inl e))"
| "wp D J (Store c k) = (\<lambda>Q g l. dc_call D g c \<and>
     (\<forall>r. plausible c r \<longrightarrow> J (dc_reply D g c r) l \<and> wp D J (k r) Q (dc_reply D g c r) l))"
| "wp D J (Uuid k) = (\<lambda>Q g l. \<forall>u. wp D J (k u) Q (dc_uuid D g u) l)"
| "wp D J (Nonce k) = (\<lambda>Q g l. \<forall>u. wp D J (k u) Q g l)"
| "wp D J (Clock k) = (\<lambda>Q g l. \<forall>t. wp D J (k t) Q g l)"
| "wp D J (Halted s k) = (\<lambda>Q g l. \<forall>b. wp D J (k b) Q g l)"
| "wp D J (Peek k) = (\<lambda>Q g l. wp D J (k l) Q g l)"
| "wp D J (Poke l' p) = (\<lambda>Q g l. wp D J p Q g l')"
| "wp D J (Send t p) = (\<lambda>Q g l. dc_send D g t \<and> wp D J p Q (dc_sent D g) l)"
| "wp D J (Await k) = (\<lambda>Q g l. J g l \<and> wp D J (k None) Q g l \<and>
     (\<forall>a. J (dc_answer D g a) l \<and> wp D J (k (Some a)) Q (dc_answer D g a) l))"

lemma wp_mono:
  "wp D J p Q g l \<Longrightarrow> (\<And>g l r. Q g l r \<Longrightarrow> R g l r) \<Longrightarrow> wp D J p R g l"
  by (induction p arbitrary: g l) auto

lemma wp_after [simp]:
  "wp D J (after p f) Q g l =
   wp D J p (\<lambda>g l r. case r of Inl e \<Rightarrow> Q g l (Inl e) | Inr a \<Rightarrow> wp D J (f a) Q g l) g l"
  by (induction p arbitrary: g l) auto

lemma wp_attempt [simp]:
  "wp D J (attempt p h) Q g l =
   wp D J p (\<lambda>g l r. case r of Inl e \<Rightarrow> wp D J (h e) Q g l | Inr a \<Rightarrow> Q g l (Inr a)) g l"
  by (induction p arbitrary: g l) auto

lemma wp_interruptible:
  "wp D J p Q g l \<Longrightarrow> (\<And>g l. J g l \<Longrightarrow> Q g l (Inl x)) \<Longrightarrow> wp D J (interruptible s x p) Q g l"
  by (induction p arbitrary: g l) auto

lemma wp_weaken: "wp D J p Q g l \<Longrightarrow> (\<And>g l. J g l \<Longrightarrow> K g l) \<Longrightarrow> wp D K p Q g l"
  by (induction p arbitrary: g l) auto

subsection \<open>Normal results\<close>

text \<open>A condition on normal results, while \<open>J\<close> holds throughout, also where the program throws.\<close>

definition ensures ::
    "'g discipline \<Rightarrow> ('g \<Rightarrow> 'l \<Rightarrow> bool) \<Rightarrow> ('l, 'e, 'a) prog \<Rightarrow> ('g \<Rightarrow> 'l \<Rightarrow> 'a \<Rightarrow> bool) \<Rightarrow> 'g \<Rightarrow> 'l \<Rightarrow> bool" where
  "ensures D J p P g l = wp D J p (\<lambda>g l r. J g l \<and> (case r of Inl _ \<Rightarrow> True | Inr a \<Rightarrow> P g l a)) g l"

lemma ensures_simps [simp]:
  "ensures D J (Ret a) P g l \<longleftrightarrow> J g l \<and> P g l a"
  "ensures D J (Throw e) P g l \<longleftrightarrow> J g l"
  "ensures D J (Store c k) P g l \<longleftrightarrow> dc_call D g c \<and>
     (\<forall>r. plausible c r \<longrightarrow> J (dc_reply D g c r) l \<and> ensures D J (k r) P (dc_reply D g c r) l)"
  "ensures D J (Uuid ku) P g l \<longleftrightarrow> (\<forall>u. ensures D J (ku u) P (dc_uuid D g u) l)"
  "ensures D J (Nonce ku) P g l \<longleftrightarrow> (\<forall>u. ensures D J (ku u) P g l)"
  "ensures D J (Clock kt) P g l \<longleftrightarrow> (\<forall>t. ensures D J (kt t) P g l)"
  "ensures D J (Halted s kb) P g l \<longleftrightarrow> (\<forall>b. ensures D J (kb b) P g l)"
  "ensures D J (Peek kl) P g l \<longleftrightarrow> ensures D J (kl l) P g l"
  "ensures D J (Poke l' p) P g l \<longleftrightarrow> ensures D J p P g l'"
  "ensures D J (Send tok p) P g l \<longleftrightarrow> dc_send D g tok \<and> ensures D J p P (dc_sent D g) l"
  "ensures D J (Await ka) P g l \<longleftrightarrow> J g l \<and> ensures D J (ka None) P g l \<and>
     (\<forall>a. J (dc_answer D g a) l \<and> ensures D J (ka (Some a)) P (dc_answer D g a) l)"
  by (simp_all add: ensures_def)

lemma ensures_mono:
  "ensures D J p P g l \<Longrightarrow> (\<And>g l a. J g l \<Longrightarrow> P g l a \<Longrightarrow> R g l a) \<Longrightarrow> ensures D J p R g l"
  unfolding ensures_def by (erule wp_mono) (auto split: sum.splits)

lemma ensures_after:
  assumes "ensures D J p (\<lambda>g l a. ensures D J (f a) P g l) g l"
  shows "ensures D J (after p f) P g l"
  unfolding ensures_def wp_after
  apply (rule wp_mono [OF assms [unfolded ensures_def [of D J p]]])
  subgoal for g l r by (cases r) (simp_all add: ensures_def)
  done

lemma ensures_attempt:
  assumes "ensures D J p P g l" "\<And>e g l. J g l \<Longrightarrow> ensures D J (h e) P g l"
  shows "ensures D J (attempt p h) P g l"
  unfolding ensures_def wp_attempt
  apply (rule wp_mono [OF assms(1) [unfolded ensures_def]])
  subgoal for g l r using assms(2) by (cases r) (simp_all add: ensures_def)
  done

lemma ensures_interruptible: "ensures D J p P g l \<Longrightarrow> ensures D J (interruptible s x p) P g l"
  unfolding ensures_def by (rule wp_interruptible) auto

lemma ensures_check: "ensures D J (check_signal s x) P g l \<longleftrightarrow> J g l \<and> P g l ()"
  by (auto simp: check_signal_def split: if_splits)

lemma ensures_wait_run: "ensures D J p P g l \<Longrightarrow> J g l \<Longrightarrow> ensures D J (wait_run s x p) P g l"
  unfolding wait_run_def
  by (rule ensures_after, simp add: ensures_check, rule ensures_after, rule ensures_interruptible, erule ensures_mono)
    (auto intro!: ensures_after simp: ensures_check)

subsection \<open>Programs that keep to themselves\<close>

text \<open>
  A quiet program makes only calls of one kind, draws no names, sends nothing and leaves a part of its fields as it is.
\<close>

primrec quiet :: "(storage_op \<Rightarrow> bool) \<Rightarrow> ('l \<Rightarrow> 'x) \<Rightarrow> 'x \<Rightarrow> ('l, 'e, 'a) prog \<Rightarrow> bool" where
  "quiet A F x (Ret a) = True"
| "quiet A F x (Throw e) = True"
| "quiet A F x (Store c k) = (A c \<and> (\<forall>r. plausible c r \<longrightarrow> quiet A F x (k r)))"
| "quiet A F x (Uuid k) = False"
| "quiet A F x (Nonce k) = (\<forall>u. quiet A F x (k u))"
| "quiet A F x (Clock k) = (\<forall>t. quiet A F x (k t))"
| "quiet A F x (Halted g k) = (\<forall>b. quiet A F x (k b))"
| "quiet A F x (Peek k) = (\<forall>l. F l = x \<longrightarrow> quiet A F x (k l))"
| "quiet A F x (Poke l p) = (F l = x \<and> quiet A F x p)"
| "quiet A F x (Send t p) = False"
| "quiet A F x (Await k) = False"

named_theorems quiet_intros "programs that keep to themselves"

lemma quiet_after [quiet_intros]: "quiet A F x p \<Longrightarrow> (\<And>a. quiet A F x (f a)) \<Longrightarrow> quiet A F x (after p f)"
  by (induction p) auto

lemma quiet_attempt [quiet_intros]: "quiet A F x p \<Longrightarrow> (\<And>e. quiet A F x (h e)) \<Longrightarrow> quiet A F x (attempt p h)"
  by (induction p) auto

lemma quiet_interruptible [quiet_intros]: "quiet A F x p \<Longrightarrow> quiet A F x (interruptible g e p)"
  by (induction p) auto

lemma quiet_check [quiet_intros]: "quiet A F x (check_signal g e)"
  by (simp add: check_signal_def)

lemma quiet_wait [quiet_intros]: "quiet A F x p \<Longrightarrow> quiet A F x (wait_run g e p)"
  by (auto simp: wait_run_def intro!: quiet_intros)

text \<open>What a program may return, whatever it is answered.\<close>

primrec yields :: "('a \<Rightarrow> bool) \<Rightarrow> ('l, 'e, 'a) prog \<Rightarrow> bool" where
  "yields R (Ret a) = R a"
| "yields R (Throw e) = True"
| "yields R (Store c k) = (\<forall>r. plausible c r \<longrightarrow> yields R (k r))"
| "yields R (Uuid k) = (\<forall>u. yields R (k u))"
| "yields R (Nonce k) = (\<forall>u. yields R (k u))"
| "yields R (Clock k) = (\<forall>t. yields R (k t))"
| "yields R (Halted g k) = (\<forall>b. yields R (k b))"
| "yields R (Peek k) = (\<forall>l. yields R (k l))"
| "yields R (Poke l p) = yields R p"
| "yields R (Send t p) = yields R p"
| "yields R (Await k) = (\<forall>a. yields R (k a))"

lemma yields_True: "yields (\<lambda>_. True) p"
  by (induction p) auto

lemma yields_after: "(\<And>a. yields R (f a)) \<Longrightarrow> yields R (after p f)"
  by (induction p) auto

lemma yields_attempt: "yields R p \<Longrightarrow> (\<And>e. yields R (h e)) \<Longrightarrow> yields R (attempt p h)"
  by (induction p) auto

lemma yields_bind: "yields R p \<Longrightarrow> (\<And>a. R a \<Longrightarrow> yields S (f a)) \<Longrightarrow> yields S (after p f)"
  by (induction p) auto

lemma quiet_bind: "quiet A F x p \<Longrightarrow> yields R p \<Longrightarrow> (\<And>a. R a \<Longrightarrow> quiet A F x (f a)) \<Longrightarrow> quiet A F x (after p f)"
  by (induction p) auto

lemma ensures_quiet:
  assumes "quiet A F x p" "yields R p" "F l = x" "\<And>c. A c \<Longrightarrow> dc_call D g c \<and> (\<forall>r. dc_reply D g c r = g)"
    and "\<And>l. F l = x \<Longrightarrow> J g l" "\<And>l a. F l = x \<Longrightarrow> R a \<Longrightarrow> P g l a"
  shows "ensures D J p P g l"
  using assms(1-3)
proof (induction p arbitrary: l)
  case (Store c k)
  with assms(4) [of c] assms(5) show ?case by auto
qed (use assms(5, 6) in auto)

text \<open>A modest program may draw names, too.\<close>

primrec modest :: "(storage_op \<Rightarrow> bool) \<Rightarrow> ('l \<Rightarrow> 'x) \<Rightarrow> 'x \<Rightarrow> ('l, 'e, 'a) prog \<Rightarrow> bool" where
  "modest A F x (Ret a) = True"
| "modest A F x (Throw e) = True"
| "modest A F x (Store c k) = (A c \<and> (\<forall>r. plausible c r \<longrightarrow> modest A F x (k r)))"
| "modest A F x (Uuid k) = (\<forall>u. modest A F x (k u))"
| "modest A F x (Nonce k) = (\<forall>u. modest A F x (k u))"
| "modest A F x (Clock k) = (\<forall>t. modest A F x (k t))"
| "modest A F x (Halted g k) = (\<forall>b. modest A F x (k b))"
| "modest A F x (Peek k) = (\<forall>l. F l = x \<longrightarrow> modest A F x (k l))"
| "modest A F x (Poke l p) = (F l = x \<and> modest A F x p)"
| "modest A F x (Send t p) = False"
| "modest A F x (Await k) = False"

lemma quiet_modest: "quiet A F x p \<Longrightarrow> modest A F x p"
  by (induction p) auto

lemma modest_after: "modest A F x p \<Longrightarrow> (\<And>a. modest A F x (f a)) \<Longrightarrow> modest A F x (after p f)"
  by (induction p) auto

lemma wp_modest:
  assumes "modest A F x p" "R g" "F l = x" "\<And>g c r. R g \<Longrightarrow> A c \<Longrightarrow> dc_call D g c \<and> R (dc_reply D g c r)"
    and "\<And>g u. R g \<Longrightarrow> R (dc_uuid D g u)"
  shows "wp D (\<lambda>_ _. True) p (\<lambda>_ _ _. True) g l"
  using assms(1-3)
proof (induction p arbitrary: g l)
  case (Store c k)
  then show ?case using assms(4) [of g c] by auto
qed (use assms(5) in auto)

subsection \<open>Every interleaving\<close>

text \<open>The phases of all programs, beside an invariant of the shared state that every permitted action keeps.\<close>

locale flow_discipline =
  fixes act :: "rat \<Rightarrow> storage_op \<Rightarrow> 's \<Rightarrow> storage_reply \<times> 's"
    and foreign :: "storage_op \<Rightarrow> bool"
    and D :: "'g discipline"
    and I :: "rat \<Rightarrow> 's \<Rightarrow> storage_op list \<Rightarrow> jstr set \<Rightarrow> flow_event list \<Rightarrow> (nat \<Rightarrow> 'g) \<Rightarrow> bool"
  assumes replies_plausible: "I t s L U lg G \<Longrightarrow> plausible c (Some (fst (act t' c s)))"
    and call_kept: "I t s L U lg G \<Longrightarrow> dc_call D (G i) c \<Longrightarrow> t \<le> t' \<Longrightarrow>
      I t' (snd (act t' c s)) L U lg (G(i := dc_reply D (G i) c (Some (fst (act t' c s)))))"
    and lost_kept: "I t s L U lg G \<Longrightarrow> dc_call D (G i) c \<Longrightarrow> I t s (c # L) U lg (G(i := dc_reply D (G i) c None))"
    and lands_kept: "I t s L U lg G \<Longrightarrow> c \<in> set L \<Longrightarrow> t \<le> t' \<Longrightarrow> I t' (snd (act t' c s)) (remove1 c L) U lg G"
    and foreign_kept: "I t s L U lg G \<Longrightarrow> foreign c \<Longrightarrow> t \<le> t' \<Longrightarrow> I t' (snd (act t' c s)) L U lg G"
    and uuid_kept: "I t s L U lg G \<Longrightarrow> u \<notin> U \<Longrightarrow> I t s L (insert u U) lg (G(i := dc_uuid D (G i) u))"
    and send_kept: "I t s L U lg G \<Longrightarrow> dc_send D (G i) tok \<Longrightarrow> I t s L U (lg @ [Sent i tok]) (G(i := dc_sent D (G i)))"
    and answer_kept: "I t s L U lg G \<Longrightarrow> I t s L U (lg @ [Answered i a]) (G(i := dc_answer D (G i) a))"
begin

text \<open>Each program goes on towards its own postcondition.\<close>

definition kept ::
    "(nat \<Rightarrow> 'g \<Rightarrow> 'l \<Rightarrow> 'e + 'a \<Rightarrow> bool) \<Rightarrow> ('l, 'e, 'a, 's) world \<Rightarrow> (nat \<Rightarrow> 'g) \<Rightarrow> bool" where
  "kept Q w G \<longleftrightarrow> I (wd_now w) (wd_store w) (wd_limbo w) (wd_uuids w) (wd_log w) G \<and>
     (\<forall>i. wp D (\<lambda>_ _. True) (wd_prog w i) (Q i) (G i) (wd_local w i))"

lemma step_kept:
  assumes "flow_step act foreign w w'" "kept Q w G"
  shows "\<exists>G'. kept Q w' G'"
proof -
  have all: "\<forall>i. wp D (\<lambda>_ _. True) (wd_prog w i) (Q i) (G i) (wd_local w i)"
    and inv: "I (wd_now w) (wd_store w) (wd_limbo w) (wd_uuids w) (wd_log w) G"
    using assms(2) by (auto simp: kept_def)
  from assms(1) show ?thesis
  proof (cases rule: flow_step.cases)
    case (call_answered i c k t)
    with all spec [OF all, of i] show ?thesis
      by (intro exI [of _ "G(i := dc_reply D (G i) c (Some (fst (act t c (wd_store w)))))"])
        (auto simp: kept_def intro!: call_kept [OF inv] replies_plausible [OF inv])
  next
    case (call_lost i c k)
    with all spec [OF all, of i] show ?thesis
      by (intro exI [of _ "G(i := dc_reply D (G i) c None)"]) (auto simp: kept_def intro!: lost_kept [OF inv])
  next
    case (call_lands c t)
    with all show ?thesis by (intro exI [of _ G]) (auto simp: kept_def intro!: lands_kept [OF inv])
  next
    case (foreign_call c t)
    with all show ?thesis by (intro exI [of _ G]) (auto simp: kept_def intro!: foreign_kept [OF inv])
  next
    case (new_uuid i k u)
    with all spec [OF all, of i] show ?thesis
      by (intro exI [of _ "G(i := dc_uuid D (G i) u)"]) (auto simp: kept_def intro!: uuid_kept [OF inv])
  next
    case (new_nonce i k u)
    with all spec [OF all, of i] inv show ?thesis by (intro exI [of _ G]) (auto simp: kept_def)
  next
    case (clock_read i k now)
    with all spec [OF all, of i] inv show ?thesis by (intro exI [of _ G]) (auto simp: kept_def)
  next
    case (signal_read i g k b)
    with all spec [OF all, of i] inv show ?thesis by (intro exI [of _ G]) (auto simp: kept_def)
  next
    case (local_read i k)
    with all spec [OF all, of i] inv show ?thesis by (intro exI [of _ G]) (auto simp: kept_def)
  next
    case (local_write i l p)
    with all spec [OF all, of i] inv show ?thesis by (intro exI [of _ G]) (auto simp: kept_def)
  next
    case (request_sent i tok p)
    with all spec [OF all, of i] show ?thesis
      by (intro exI [of _ "G(i := dc_sent D (G i))"]) (auto simp: kept_def intro!: send_kept [OF inv])
  next
    case (answer_arrives i k a)
    with all spec [OF all, of i] show ?thesis
      by (intro exI [of _ "G(i := dc_answer D (G i) a)"]) (auto simp: kept_def intro!: answer_kept [OF inv])
  next
    case (answer_lost i k)
    with all spec [OF all, of i] inv show ?thesis by (intro exI [of _ G]) (auto simp: kept_def)
  qed
qed

lemma reachable_kept:
  assumes "reachable (\<lambda>w. kept Q w (\<lambda>_. g0)) (flow_step act foreign) w"
  shows "\<exists>G. kept Q w G"
  by (rule reachable_invariant [OF assms]) (auto dest: step_kept)

end

section \<open>One program alone\<close>

text \<open>
  A run of one process at one time, with the names it draws; it stops where it waits for an answer when there is none, and
  where there is no name left.
\<close>

primrec run_alone ::
    "nat \<Rightarrow> http_answer option \<Rightarrow> ('l, 'e, 'a) prog \<Rightarrow> jstr list \<Rightarrow> ('l, 'e, 'a, mem_store) world \<Rightarrow> ('l, 'e, 'a, mem_store) world" where
  "run_alone i a (Ret x) us w = goes_on i (Ret x) w"
| "run_alone i a (Throw e) us w = goes_on i (Throw e) w"
| "run_alone i a (Store c k) us w =
     run_alone i a (k (Some (fst (mem_act (wd_now w) c (wd_store w))))) us (w\<lparr>wd_store := snd (mem_act (wd_now w) c (wd_store w))\<rparr>)"
| "run_alone i a (Uuid k) us w =
     (case us of
        [] \<Rightarrow> goes_on i (Uuid k) w
      | u # us' \<Rightarrow>
          if u \<in> wd_uuids w then goes_on i (Uuid k) w
          else run_alone i a (k u) us' (w\<lparr>wd_uuids := insert u (wd_uuids w)\<rparr>))"
| "run_alone i a (Nonce k) us w = run_alone i a (k []) us w"
| "run_alone i a (Clock k) us w = run_alone i a (k 0) us w"
| "run_alone i a (Halted g k) us w = run_alone i a (k False) us w"
| "run_alone i a (Peek k) us w = run_alone i a (k (wd_local w i)) us w"
| "run_alone i a (Poke l p) us w = run_alone i a p us (w\<lparr>wd_local := (wd_local w)(i := l)\<rparr>)"
| "run_alone i a (Send tok p) us w = run_alone i a p us (w\<lparr>wd_log := wd_log w @ [Sent i tok]\<rparr>)"
| "run_alone i a (Await k) us w =
     (case a of
        None \<Rightarrow> goes_on i (Await k) w
      | Some x \<Rightarrow> run_alone i a (k (Some x)) us (w\<lparr>wd_log := wd_log w @ [Answered i x]\<rparr>))"

lemma steps_on:
  "flow_step act f (goes_on i (Store c kc) w)
     (goes_on i (kc (Some (fst (act (wd_now w) c (wd_store w))))) (w\<lparr>wd_store := snd (act (wd_now w) c (wd_store w))\<rparr>))"
  "u \<notin> wd_uuids w \<Longrightarrow> flow_step act f (goes_on i (Uuid ku) w) (goes_on i (ku u) (w\<lparr>wd_uuids := insert u (wd_uuids w)\<rparr>))"
  "flow_step act f (goes_on i (Nonce ku) w) (goes_on i (ku u) w)"
  "flow_step act f (goes_on i (Clock kt) w) (goes_on i (kt t) w)"
  "flow_step act f (goes_on i (Halted g kb) w) (goes_on i (kb b) w)"
  "flow_step act f (goes_on i (Peek kl) w) (goes_on i (kl (wd_local w i)) w)"
  "flow_step act f (goes_on i (Poke l p) w) (goes_on i p (w\<lparr>wd_local := (wd_local w)(i := l)\<rparr>))"
  "flow_step act f (goes_on i (Send tok p) w) (goes_on i p (w\<lparr>wd_log := wd_log w @ [Sent i tok]\<rparr>))"
  "flow_step act f (goes_on i (Await ka) w) (goes_on i (ka (Some a)) (w\<lparr>wd_log := wd_log w @ [Answered i a]\<rparr>))"
  using flow_step.call_answered [of "goes_on i (Store c kc) w" i c kc "wd_now w" act f]
    flow_step.new_uuid [of "goes_on i (Uuid ku) w" i ku u act f] flow_step.new_nonce [of "goes_on i (Nonce ku) w" i ku act f u]
    flow_step.clock_read [of "goes_on i (Clock kt) w" i kt act f t] flow_step.signal_read [of "goes_on i (Halted g kb) w" i g kb act f b]
    flow_step.local_read [of "goes_on i (Peek kl) w" i kl act f] flow_step.local_write [of "goes_on i (Poke l p) w" i l p act f]
    flow_step.request_sent [of "goes_on i (Send tok p) w" i tok p act f] flow_step.answer_arrives [of "goes_on i (Await ka) w" i ka act f a]
  by simp_all

lemma run_alone_reaches:
  assumes "reachable I (flow_step mem_act f) (goes_on i p w)"
  shows "reachable I (flow_step mem_act f) (run_alone i a p us w)"
  using assms
proof (induction p arbitrary: us w)
  case (Store c k)
  show ?case unfolding run_alone.simps by (rule Store.IH [OF rangeI, OF reachable.step [OF Store.prems steps_on(1)]])
next
  case (Uuid k)
  then show ?case
    using Uuid.IH [OF rangeI, OF reachable.step [OF Uuid.prems steps_on(2)]] by (simp split: list.split del: fun_upd_apply)
next
  case (Nonce k)
  show ?case unfolding run_alone.simps by (rule Nonce.IH [OF rangeI, OF reachable.step [OF Nonce.prems steps_on(3)]])
next
  case (Clock k)
  show ?case unfolding run_alone.simps by (rule Clock.IH [OF rangeI, OF reachable.step [OF Clock.prems steps_on(4)]])
next
  case (Halted g k)
  show ?case unfolding run_alone.simps by (rule Halted.IH [OF rangeI, OF reachable.step [OF Halted.prems steps_on(5)]])
next
  case (Peek k)
  show ?case unfolding run_alone.simps by (rule Peek.IH [OF rangeI, OF reachable.step [OF Peek.prems steps_on(6)]])
next
  case (Poke l p)
  show ?case unfolding run_alone.simps by (rule Poke.IH [OF reachable.step [OF Poke.prems steps_on(7)]])
next
  case (Send tok p)
  show ?case unfolding run_alone.simps by (rule Send.IH [OF reachable.step [OF Send.prems steps_on(8)]])
next
  case (Await k)
  then show ?case
    using Await.IH [OF rangeI, OF reachable.step [OF Await.prems steps_on(9)]] by (cases a) (simp_all del: fun_upd_apply)
qed simp_all

end
