(* ===== verification/OAuth_Grant.thy ===== *)
theory OAuth_Grant
  imports Auth_Flow
begin

text \<open>
  The stored grant of one owner at one connector (\<^verbatim>\<open>auth/downstream-oauth/grant-store.ts\<close>,
  \<^verbatim>\<open>auth/oauth-grant.ts\<close> and the helpers of \<^verbatim>\<open>auth/downstream-oauth.ts\<close>): its record
  and epochs, sealing, reads, compare-and-set writes, resets. Values of the record are JSON, an object being the list of
  its properties; spreading an object and setting a property keeps the place of one that was there. The vault, the digest
  and the check for credentials inside metadata are fields of an environment.
\<close>

section \<open>Values\<close>

type_synonym fields = "(jstr \<times> json) list"

definition field :: "fields \<Rightarrow> string \<Rightarrow> json option" where
  "field fs name = map_of fs (lit name)"

definition with_field :: "string \<Rightarrow> json \<Rightarrow> fields \<Rightarrow> fields" where
  "with_field name v fs = map_set (lit name) v fs"

definition without_field :: "string \<Rightarrow> fields \<Rightarrow> fields" where
  "without_field name fs = map_delete (lit name) fs"

text \<open>A conditional spread \<^verbatim>\<open>...(v !== undefined ? { name: v } : {})\<close> of a literal.\<close>

definition given :: "string \<Rightarrow> json option \<Rightarrow> fields" where
  "given name v = (case v of None \<Rightarrow> [] | Some x \<Rightarrow> [(lit name, x)])"

definition string_of :: "json option \<Rightarrow> jstr option" where
  "string_of v = (case v of Some (J_Str s) \<Rightarrow> Some s | _ \<Rightarrow> None)"

definition plainObject :: "json option \<Rightarrow> fields option" where
  "plainObject v = (case v of Some (J_Obj fs) \<Rightarrow> Some fs | _ \<Rightarrow> None)"

definition parsed :: "jstr \<Rightarrow> json option" where
  "parsed raw = json_parse raw"

definition fingerprint :: "json option \<Rightarrow> jstr option" where
  "fingerprint v = map_option json_text v"

definition whole :: "int \<Rightarrow> json" where
  "whole i = J_Num (int_text i)"

section \<open>Failures, the environment and the provider\<close>

datatype oauth_error =
    Flow_Superseded
  | Credential_Write_Error
  | Refresh_Contended_Error
  | Unauthorized string
  | Aborted abort_signal
  | Storage_Error
  | Key_Refused
  | Revision_Exhausted
  | Credential_In_Metadata
  | Vault_Error
  | Fetch_Error
  | Response_Unclassified
  | Refresh_Refused

record vault_sealer =
  vs_seal :: "jstr \<Rightarrow> jstr \<Rightarrow> jstr \<Rightarrow> jstr option"
  vs_open :: "jstr \<Rightarrow> jstr \<Rightarrow> jstr option"

record oauth_env =
  en_sealer :: "vault_sealer option"
  en_digest :: "jstr \<Rightarrow> jstr"
  en_localeSorted :: "fields \<Rightarrow> fields"
  en_credentialFree :: "fields \<Rightarrow> bool"
  en_clientBinding :: "jstr option"
  en_clientMetadataUrl :: "jstr option"
  en_configuredClient :: bool

datatype refresh_failure = Dead | Contended

record refresh_basis =
  rb_accessToken :: json
  rb_epoch :: jstr
  rb_issuer :: jstr

record observed_grant =
  og_epoch :: jstr
  og_revision :: int
  og_accessToken :: "json option"
  og_refreshable :: bool
  og_expiresAt :: "json option"

text \<open>The mutable fields of \<^verbatim>\<open>KvOAuthProvider\<close> that the grant and refresh programs use.\<close>

record provider =
  pv_epoch :: "jstr option"
  pv_bound :: bool
  pv_codeExchange :: bool
  pv_refreshFailure :: "refresh_failure option"
  pv_refreshBasis :: "refresh_basis option"
  pv_storedRefresh :: "json option"
  pv_tokenRequestSent :: "int option"
  pv_seenClient :: "jstr option"
  pv_seenTokens :: "jstr option"
  pv_observed :: "observed_grant option"
  pv_observedTokens :: "fields option"

section \<open>The record of a grant\<close>

definition GRANT :: jstr where
  "GRANT = oauthGrantKeys_grant"

definition INITIAL_EPOCH :: jstr where
  "INITIAL_EPOCH = lit ''initial''"

definition UNREADABLE_EPOCH :: jstr where
  "UNREADABLE_EPOCH = lit ''unreadable''"

definition ACTIVE_EPOCH_PREFIX :: jstr where
  "ACTIVE_EPOCH_PREFIX = lit ''v3:''"

definition DISCONNECTED_EPOCH_PREFIX :: jstr where
  "DISCONNECTED_EPOCH_PREFIX = lit ''disconnected:''"

definition MAX_GRANT_WRITES :: nat where
  "MAX_GRANT_WRITES = 32"

datatype grant_outcome = Accepted | Refused

fun outcome_name :: "grant_outcome \<Rightarrow> jstr" where
  "outcome_name Accepted = lit ''accepted''"
| "outcome_name Refused = lit ''refused''"

record grant =
  gr_tokenRevision :: "int option"
  gr_observation :: "(int \<times> grant_outcome) option"
  gr_epoch :: jstr
  gr_flow :: "jstr option"
  gr_body :: fields

definition revision_of :: "grant \<Rightarrow> int" where
  "revision_of gr = (case gr_tokenRevision gr of None \<Rightarrow> 0 | Some n \<Rightarrow> n)"

definition MAX_SAFE_INTEGER :: int where
  "MAX_SAFE_INTEGER = 9007199254740991"

text \<open>\<^verbatim>\<open>Number.isSafeInteger(v) && v >= 0\<close>, as the number.\<close>

definition counter_of :: "json option \<Rightarrow> int option" where
  "counter_of v =
     (case finite_number v of
        Some q \<Rightarrow> if safe_integer (Finite q) \<and> 0 \<le> q then Some \<lfloor>q\<rfloor> else None
      | None \<Rightarrow> None)"

definition storedGrant :: "jstr \<Rightarrow> fields option" where
  "storedGrant raw =
     (case plainObject (parsed raw) of
        None \<Rightarrow> None
      | Some fs \<Rightarrow>
          if finite_number (field fs ''connectaOAuth'') = Some 3 \<and>
             string_of (field fs ''epoch'') \<noteq> None \<and>
             (field fs ''tokenRevision'' = None \<or> counter_of (field fs ''tokenRevision'') \<noteq> None) \<and>
             (field fs ''flow'' = None \<or> string_of (field fs ''flow'') \<noteq> None) \<and>
             (field fs ''sealed'' = None \<or> string_of (field fs ''sealed'') \<noteq> None)
          then Some fs else None)"

definition stored_epoch :: "fields \<Rightarrow> jstr" where
  "stored_epoch fs = (case string_of (field fs ''epoch'') of Some e \<Rightarrow> e | None \<Rightarrow> [])"

definition epochOf :: "jstr option \<Rightarrow> jstr" where
  "epochOf raw =
     (case raw of None \<Rightarrow> INITIAL_EPOCH
      | Some r \<Rightarrow> (case storedGrant r of Some fs \<Rightarrow> stored_epoch fs | None \<Rightarrow> UNREADABLE_EPOCH))"

definition isDisconnectedEpoch :: "jstr \<Rightarrow> bool" where
  "isDisconnectedEpoch epoch = starts_with epoch DISCONNECTED_EPOCH_PREFIX"

text \<open>\<^verbatim>\<open>discoveryIssuer\<close> of \<^verbatim>\<open>auth/oauth-grant.ts\<close>.\<close>

definition discoveryIssuer :: "json option \<Rightarrow> jstr option" where
  "discoveryIssuer state =
     (case plainObject state of
        None \<Rightarrow> None
      | Some fs \<Rightarrow>
          (case string_of (field fs ''authorizationServerUrl'') of
             None \<Rightarrow> None
           | Some url \<Rightarrow>
               (let metadata = plainObject (field fs ''authorizationServerMetadata'');
                    issuer = (case Option.bind metadata (\<lambda>m. string_of (field m ''issuer'')) of Some i \<Rightarrow> i | None \<Rightarrow> url)
                in if issuer = [] then None else Some issuer)))"

definition known_path :: "json option \<Rightarrow> json option" where
  "known_path v = (if v \<in> {Some (J_Str (lit ''cimd'')), Some (J_Str (lit ''dcr'')), Some (J_Str (lit ''static''))} then v else None)"

definition clientBody :: "json option \<Rightarrow> json option" where
  "clientBody client =
     (case plainObject client of
        None \<Rightarrow> None
      | Some c \<Rightarrow>
          (case plainObject (field c ''value'') of
             None \<Rightarrow> None
           | Some v \<Rightarrow>
               if string_of (field v ''client_id'') = None then None
               else Some (J_Obj (given ''value'' (Some (J_Obj v)) @
                      given ''binding'' (map_option J_Str (string_of (field c ''binding''))) @
                      given ''carried'' (if field c ''carried'' = Some (J_Bool True) then Some (J_Bool True) else None) @
                      given ''registrationPath'' (known_path (field c ''registrationPath''))))))"

definition tokensBody :: "json option \<Rightarrow> fields option" where
  "tokensBody tokens =
     (case plainObject tokens of
        Some t \<Rightarrow> if string_of (field t ''access_token'') \<noteq> None then Some t else None
      | None \<Rightarrow> None)"

definition consentBody :: "json option \<Rightarrow> json option" where
  "consentBody refreshConsent =
     (case plainObject refreshConsent of
        None \<Rightarrow> None
      | Some c \<Rightarrow>
          (case (string_of (field c ''digest''), string_of (field c ''resolution'')) of
             (Some d, Some r) \<Rightarrow> Some (J_Obj [(lit ''digest'', J_Str d), (lit ''resolution'', J_Str r)])
           | _ \<Rightarrow> None))"

definition grantBody :: "json option \<Rightarrow> fields" where
  "grantBody v =
     (case plainObject v of
        None \<Rightarrow> []
      | Some fs \<Rightarrow>
          (let tokens = tokensBody (field fs ''tokens'') in
           given ''issuer'' (map_option J_Str (string_of (field fs ''issuer''))) @
           given ''client'' (clientBody (field fs ''client'')) @
           given ''tokens'' (map_option J_Obj tokens) @
           given ''expiresAt''
             (if tokens \<noteq> None \<and> finite_number (field fs ''expiresAt'') \<noteq> None then field fs ''expiresAt'' else None) @
           given ''discovery'' (if discoveryIssuer (field fs ''discovery'') \<noteq> None then field fs ''discovery'' else None) @
           given ''refreshConsent'' (consentBody (field fs ''refreshConsent''))))"

text \<open>The tokens of a body, when it has any.\<close>

definition body_tokens :: "fields \<Rightarrow> fields option" where
  "body_tokens body = plainObject (field body ''tokens'')"

definition body_issuer :: "fields \<Rightarrow> jstr option" where
  "body_issuer body = string_of (field body ''issuer'')"

definition tokenExpiry :: "fields \<Rightarrow> int \<Rightarrow> rat option" where
  "tokenExpiry tokens issuedAt =
     (case finite_number (field tokens ''expires_in'') of
        Some lifetime \<Rightarrow> if 0 \<le> lifetime then Some (of_int issuedAt + lifetime * 1000) else None
      | None \<Rightarrow> None)"

definition nextTokenGrant :: "grant \<Rightarrow> fields \<Rightarrow> oauth_error + grant" where
  "nextTokenGrant gr body =
     (let revision = revision_of gr + 1 in
      if MAX_SAFE_INTEGER < revision then Inl Revision_Exhausted
      else Inr (gr\<lparr>gr_body := body, gr_tokenRevision := Some revision, gr_observation := None\<rparr>))"

text \<open>The object \<^verbatim>\<open>encodeGrant\<close> prints, with the sealed text or the plain body.\<close>

definition grant_fields :: "grant \<Rightarrow> jstr option \<Rightarrow> fields" where
  "grant_fields gr sealed =
     [(lit ''connectaOAuth'', whole 3), (lit ''epoch'', J_Str (gr_epoch gr))] @
     given ''tokenRevision'' (map_option whole (gr_tokenRevision gr)) @
     given ''observation''
       (map_option (\<lambda>(r, x). J_Obj [(lit ''revision'', whole r), (lit ''outcome'', J_Str (outcome_name x))]) (gr_observation gr)) @
     given ''flow'' (map_option J_Str (gr_flow gr)) @
     (if gr_body gr = [] then []
      else case sealed of Some s \<Rightarrow> [(lit ''sealed'', J_Str s)] | None \<Rightarrow> [(lit ''body'', J_Obj (gr_body gr))])"

definition stored_observation :: "fields \<Rightarrow> (int \<times> grant_outcome) option" where
  "stored_observation fs =
     (let revision = (case counter_of (field fs ''tokenRevision'') of Some n \<Rightarrow> n | None \<Rightarrow> 0);
          seen = (case field fs ''observation'' of Some ob \<Rightarrow> ob | None \<Rightarrow> J_Null)
      in if finite_number (json_field seen ''revision'') \<noteq> Some (of_int revision) then None
         else if json_field seen ''outcome'' = Some (J_Str (outcome_name Accepted)) then Some (revision, Accepted)
         else if json_field seen ''outcome'' = Some (J_Str (outcome_name Refused)) then Some (revision, Refused)
         else None)"

text \<open>The grant a record names, with its body opened.\<close>

definition opened_grant :: "fields \<Rightarrow> json option \<Rightarrow> grant" where
  "opened_grant fs body =
     \<lparr>gr_tokenRevision = counter_of (field fs ''tokenRevision''), gr_observation = stored_observation fs,
      gr_epoch = stored_epoch fs, gr_flow = string_of (field fs ''flow''), gr_body = grantBody body\<rparr>"

definition grantLabel :: "jstr \<Rightarrow> jstr" where
  "grantLabel epoch = GRANT @ lit '':'' @ epoch"

section \<open>Programs\<close>

type_synonym ('z, 'a) oauth = "('z provider_scheme, oauth_error, 'a) prog"

definition modify :: "('l \<Rightarrow> 'l) \<Rightarrow> ('l, 'e, unit) prog" where
  "modify f = Peek (\<lambda>l. Poke (f l) (Ret ()))"

definition of_sum :: "'e + 'a \<Rightarrow> ('l, 'e, 'a) prog" where
  "of_sum r = (case r of Inl e \<Rightarrow> Throw e | Inr a \<Rightarrow> Ret a)"

text \<open>A key builder refuses a NUL; the calls it is an argument of are then never made.\<close>

definition built_key :: "key_error + jstr \<Rightarrow> ('l, oauth_error, jstr) prog" where
  "built_key k = (case k of Inl _ \<Rightarrow> Throw Key_Refused | Inr s \<Rightarrow> Ret s)"

definition plain_write :: set_options where
  "plain_write = \<lparr>so_ttlSeconds = None, so_expiresAtMs = None\<rparr>"

text \<open>\<^verbatim>\<open>authStorage\<close>: a refused or lost call throws.\<close>

definition storage_get :: "jstr \<Rightarrow> ('l, oauth_error, jstr option) prog" where
  "storage_get k = Store (Get k) (\<lambda>r. case r of Some (Got v) \<Rightarrow> Ret v | _ \<Rightarrow> Throw Storage_Error)"

definition storage_list :: "jstr \<Rightarrow> ('l, oauth_error, jstr list) prog" where
  "storage_list p = Store (List_Keys p) (\<lambda>r. case r of Some (Listed ks) \<Rightarrow> Ret ks | _ \<Rightarrow> Throw Storage_Error)"

definition storage_cas :: "jstr \<Rightarrow> jstr option \<Rightarrow> jstr option \<Rightarrow> ('l, oauth_error, bool) prog" where
  "storage_cas k expected new =
     Store (Compare_And_Set k expected new plain_write) (\<lambda>r. case r of Some (Swapped b) \<Rightarrow> Ret b | _ \<Rightarrow> Throw Storage_Error)"

definition storage_set :: "jstr \<Rightarrow> jstr \<Rightarrow> set_options \<Rightarrow> ('l, oauth_error, unit) prog" where
  "storage_set k v opts = Store (Set_Key k v opts) (\<lambda>r. case r of Some Done \<Rightarrow> Ret () | _ \<Rightarrow> Throw Storage_Error)"

definition storage_delete :: "jstr \<Rightarrow> ('l, oauth_error, unit) prog" where
  "storage_delete k = Store (Delete k) (\<lambda>r. case r of Some Done \<Rightarrow> Ret () | _ \<Rightarrow> Throw Storage_Error)"

text \<open>
  \<^verbatim>\<open>wait\<close>: a signal, or none for work the coordinator or a reset owns.
\<close>

definition provider_wait :: "abort_signal option \<Rightarrow> ('l, oauth_error, 'a) prog \<Rightarrow> ('l, oauth_error, 'a) prog" where
  "provider_wait sig p = (case sig of None \<Rightarrow> p | Some g \<Rightarrow> wait_run g (Aborted g) p)"

definition check_option :: "abort_signal option \<Rightarrow> ('l, oauth_error, unit) prog" where
  "check_option sig = (case sig of None \<Rightarrow> Ret () | Some g \<Rightarrow> check_signal g (Aborted g))"

definition observe :: "grant \<Rightarrow> 'z provider_scheme \<Rightarrow> 'z provider_scheme" where
  "observe gr pv =
     (let tokens = body_tokens (gr_body gr) in
      pv\<lparr>pv_observedTokens := tokens,
         pv_observed := map_option (\<lambda>t.
           \<lparr>og_epoch = gr_epoch gr, og_revision = revision_of gr, og_accessToken = field t ''access_token'',
            og_refreshable = (case string_of (field t ''refresh_token'') of Some s \<Rightarrow> s \<noteq> [] | None \<Rightarrow> False),
            og_expiresAt = field (gr_body gr) ''expiresAt''\<rparr>) tokens\<rparr>)"

definition encodeGrant :: "oauth_env \<Rightarrow> abort_signal option \<Rightarrow> grant \<Rightarrow> ('z, jstr) oauth" where
  "encodeGrant env sig gr =
     (if \<not> en_credentialFree env (gr_body gr) then Throw Credential_In_Metadata
      else case (gr_body gr, en_sealer env) of
             (_ # _, Some sl) \<Rightarrow>
               after (provider_wait sig (Nonce (\<lambda>n.
                   case vs_seal sl n (grantLabel (gr_epoch gr)) (json_text (J_Obj (gr_body gr))) of
                     None \<Rightarrow> Throw Vault_Error | Some s \<Rightarrow> Ret s)))
                 (\<lambda>s. Ret (json_text (J_Obj (grant_fields gr (Some s)))))
           | _ \<Rightarrow> Ret (json_text (J_Obj (grant_fields gr None))))"

definition opened_body :: "oauth_env \<Rightarrow> abort_signal option \<Rightarrow> fields \<Rightarrow> ('z, json option) oauth" where
  "opened_body env sig fs =
     (case string_of (field fs ''sealed'') of
        None \<Rightarrow> Ret (field fs ''body'')
      | Some s \<Rightarrow>
          attempt
            (case en_sealer env of
               None \<Rightarrow> Ret None
             | Some sl \<Rightarrow>
                 after (provider_wait sig
                     (case vs_open sl (grantLabel (stored_epoch fs)) s of None \<Rightarrow> Throw Vault_Error | Some t \<Rightarrow> Ret t))
                   (\<lambda>t. Ret (parsed t)))
            (\<lambda>_. after (check_option sig) (\<lambda>_. Ret None)))"

definition openGrant :: "oauth_env \<Rightarrow> abort_signal option \<Rightarrow> jstr option \<Rightarrow> ('z, grant) oauth" where
  "openGrant env sig raw =
     (case Option.bind raw storedGrant of
        None \<Rightarrow>
          after (modify (\<lambda>pv. pv\<lparr>pv_observed := None\<rparr>)) (\<lambda>_.
          Ret \<lparr>gr_tokenRevision = None, gr_observation = None,
               gr_epoch = (if raw = None then INITIAL_EPOCH else UNREADABLE_EPOCH), gr_flow = None, gr_body = []\<rparr>)
      | Some fs \<Rightarrow>
          after (opened_body env sig fs) (\<lambda>body.
          after (modify (observe (opened_grant fs body))) (\<lambda>_. Ret (opened_grant fs body))))"

text \<open>
  \<^verbatim>\<open>readGrant\<close>: the scan for retired keys only warns; a plain body is sealed where it lies when a vault is
  there.
\<close>

definition readGrant :: "oauth_env \<Rightarrow> abort_signal option \<Rightarrow> ('z, jstr option \<times> grant) oauth" where
  "readGrant env sig =
     after (provider_wait sig (storage_get GRANT)) (\<lambda>raw.
     after (if raw = None then after (provider_wait sig (storage_list (lit ''oauth:''))) (\<lambda>_. Ret ()) else Ret ()) (\<lambda>_.
     after (openGrant env sig raw) (\<lambda>gr.
     if raw \<noteq> None \<and> en_sealer env \<noteq> None \<and> Option.bind (Option.bind raw storedGrant) (\<lambda>fs. field fs ''body'') \<noteq> None
     then after (encodeGrant env sig gr) (\<lambda>sealed.
          after (provider_wait sig (attempt (storage_cas GRANT raw (Some sealed)) (\<lambda>_. Ret False))) (\<lambda>written.
          Ret (if written then Some sealed else raw, gr)))
     else Ret (raw, gr))))"

definition boundGrant :: "oauth_env \<Rightarrow> abort_signal option \<Rightarrow> ('z, grant) oauth" where
  "boundGrant env sig =
     after (readGrant env sig) (\<lambda>(raw, gr).
     Peek (\<lambda>pv. if pv_bound pv \<and> Some (gr_epoch gr) \<noteq> pv_epoch pv then Throw Flow_Superseded else Ret gr))"

record update_options =
  uo_epoch :: "jstr option"
  uo_quiet :: bool
  uo_commit :: bool
  uo_transfer :: bool
  uo_signal :: "abort_signal option"

definition no_options :: update_options where
  "no_options = \<lparr>uo_epoch = None, uo_quiet = False, uo_commit = False, uo_transfer = False, uo_signal = None\<rparr>"

text \<open>\<^verbatim>\<open>options.epoch ?? (this.epoch ??= grant.epoch)\<close>.\<close>

definition flow_epoch_or :: "update_options \<Rightarrow> jstr \<Rightarrow> ('z, jstr) oauth" where
  "flow_epoch_or opts current =
     (case uo_epoch opts of
        Some e \<Rightarrow> Ret e
      | None \<Rightarrow> Peek (\<lambda>pv. case pv_epoch pv of Some e \<Rightarrow> Ret e | None \<Rightarrow> Poke (pv\<lparr>pv_epoch := Some current\<rparr>) (Ret current)))"

text \<open>The loop of \<^verbatim>\<open>updateGrant\<close>, with the attempts that are left.\<close>

primrec update_attempts ::
    "oauth_env \<Rightarrow> (grant \<Rightarrow> ('z, grant option) oauth) \<Rightarrow> update_options \<Rightarrow> abort_signal option \<Rightarrow> nat \<Rightarrow> ('z, bool) oauth" where
  "update_attempts env change opts sig 0 = Throw Credential_Write_Error"
| "update_attempts env change opts sig (Suc n) =
     Halted Caller_Signal (\<lambda>gone. if \<not> uo_commit opts \<and> gone then Ret False else
     after (readGrant env sig) (\<lambda>(raw, gr).
     after (flow_epoch_or opts (gr_epoch gr)) (\<lambda>epoch.
     if gr_epoch gr \<noteq> epoch then
       Peek (\<lambda>pv. if uo_quiet opts \<or> \<not> pv_bound pv then Ret False else Throw Flow_Superseded)
     else if isDisconnectedEpoch epoch then Ret False
     else
       after (change gr) (\<lambda>next.
       case next of
         None \<Rightarrow> Ret True
       | Some gr' \<Rightarrow>
           after (encodeGrant env sig gr') (\<lambda>encoded.
           Halted Caller_Signal (\<lambda>gone. if \<not> uo_commit opts \<and> gone then Ret False else
           after (attempt
               (provider_wait sig
                 (after (if uo_transfer opts then check_signal Waiting_Signal (Aborted Waiting_Signal) else Ret ()) (\<lambda>_.
                  storage_cas GRANT raw (Some encoded))))
               (\<lambda>_. after (check_option sig) (\<lambda>_. Throw Credential_Write_Error)))
             (\<lambda>written.
              if written then
                after (modify (\<lambda>pv. observe gr' (if gr_epoch gr' \<noteq> gr_epoch gr then pv\<lparr>pv_epoch := Some (gr_epoch gr')\<rparr> else pv)))
                  (\<lambda>_. Ret True)
              else update_attempts env change opts sig n)))))))"

definition updateGrant :: "oauth_env \<Rightarrow> (grant \<Rightarrow> ('z, grant option) oauth) \<Rightarrow> update_options \<Rightarrow> ('z, bool) oauth" where
  "updateGrant env change opts =
     update_attempts env change opts
       (case uo_signal opts of Some g \<Rightarrow> Some g | None \<Rightarrow> if uo_commit opts then None else Some Caller_Signal)
       MAX_GRANT_WRITES"

section \<open>Credentials and observations\<close>

definition withIssuer :: "grant \<Rightarrow> fields \<Rightarrow> ('z, grant) oauth" where
  "withIssuer gr body =
     (if body_issuer (gr_body gr) \<noteq> None \<and> body_issuer (gr_body gr) \<noteq> body_issuer body then
        Peek (\<lambda>pv. if pv_codeExchange pv then Throw Flow_Superseded
        else Uuid (\<lambda>u. Ret \<lparr>gr_tokenRevision = None, gr_observation = None, gr_epoch = ACTIVE_EPOCH_PREFIX @ u,
                            gr_flow = None, gr_body = body\<rparr>))
      else Ret (gr\<lparr>gr_body := body\<rparr>))"

definition with_expiry :: "rat option \<Rightarrow> fields \<Rightarrow> fields" where
  "with_expiry x body = (case x of None \<Rightarrow> body | Some q \<Rightarrow> with_field ''expiresAt'' (J_Num (number_text q)) body)"

datatype credential = Client_Credential fields | Tokens_Credential fields

text \<open>The body \<^verbatim>\<open>writeCredential\<close> stores; a value of another server replaces it whole.\<close>

definition credential_body :: "credential \<Rightarrow> jstr option \<Rightarrow> json option \<Rightarrow> int \<Rightarrow> fields \<Rightarrow> fields" where
  "credential_body c issuer refreshConsent issuedAt stored =
     (let body = (case issuer of
                    Some i \<Rightarrow> if body_issuer stored \<noteq> Some i then [(lit ''issuer'', J_Str i)] else stored
                  | None \<Rightarrow> stored)
      in case c of
           Client_Credential v \<Rightarrow> with_field ''client'' (J_Obj v) body
         | Tokens_Credential tokens \<Rightarrow>
             (let kept = Option.bind (body_tokens body) (\<lambda>t. field t ''access_token'') = field tokens ''access_token'' \<and>
                         field body ''expiresAt'' \<noteq> None;
                  stripped = without_field ''expiresAt'' (with_field ''tokens'' (J_Obj tokens) body);
                  dated = (if kept then with_field ''expiresAt'' (the (field body ''expiresAt'')) stripped
                           else with_expiry (tokenExpiry tokens issuedAt) stripped);
                  plain = without_field ''refreshConsent'' dated
              in case refreshConsent of None \<Rightarrow> plain | Some r \<Rightarrow> with_field ''refreshConsent'' r plain))"

definition writeCredential :: "oauth_env \<Rightarrow> credential \<Rightarrow> jstr option \<Rightarrow> json option \<Rightarrow> ('z, unit) oauth" where
  "writeCredential env c issuer refreshConsent =
     Peek (\<lambda>pv.
     after (case (c, pv_tokenRequestSent pv) of (Tokens_Credential _, Some t) \<Rightarrow> Ret t | _ \<Rightarrow> Clock Ret) (\<lambda>issuedAt.
     after (updateGrant env
         (\<lambda>gr. let body = credential_body c issuer refreshConsent issuedAt (gr_body gr) in
           after (withIssuer gr body) (\<lambda>next.
           case c of
             Client_Credential _ \<Rightarrow> Ret (Some next)
           | Tokens_Credential _ \<Rightarrow> after (of_sum (nextTokenGrant next body)) (\<lambda>gr'. Ret (Some gr'))))
         no_options) (\<lambda>_.
     modify (\<lambda>pv. case c of
         Client_Credential v \<Rightarrow> pv\<lparr>pv_seenClient := fingerprint (field v ''value'')\<rparr>
       | Tokens_Credential t \<Rightarrow> pv\<lparr>pv_tokenRequestSent := None, pv_seenTokens := fingerprint (Some (J_Obj t))\<rparr>))))"

definition recordTokenOutcome :: "oauth_env \<Rightarrow> jstr \<Rightarrow> int \<Rightarrow> grant_outcome \<Rightarrow> ('z, bool) oauth" where
  "recordTokenOutcome env epoch revision outcome =
     updateGrant env
       (\<lambda>gr. Ret (
          if gr_epoch gr \<noteq> epoch \<or> revision_of gr \<noteq> revision \<or> body_tokens (gr_body gr) = None then None
          else if gr_observation gr = Some (revision, outcome) then None
          else Some (gr\<lparr>gr_observation := Some (revision, outcome)\<rparr>)))
       (no_options\<lparr>uo_epoch := Some epoch, uo_quiet := True\<rparr>)"

text \<open>\<open>configured\<close> is \<^verbatim>\<open>issuer ?? this.clientOptions?.client?.issuer\<close>.\<close>

definition storedAuthorization :: "oauth_env \<Rightarrow> jstr option \<Rightarrow> ('z, bool) oauth" where
  "storedAuthorization env configured =
     attempt
       (after (storage_get GRANT) (\<lambda>raw.
        after (openGrant env (Some Caller_Signal) raw) (\<lambda>gr.
        if isDisconnectedEpoch (gr_epoch gr) then Ret False
        else let body = gr_body gr; discovered = field body ''discovery'' in
          if (configured = None \<or> configured = Some []) \<and>
             (case plainObject discovered of
                None \<Rightarrow> True
              | Some d \<Rightarrow> Option.bind (plainObject (field d ''authorizationServerMetadata'')) (\<lambda>m. field m ''issuer'')
                           \<noteq> field d ''authorizationServerUrl'')
          then Ret False
          else let expected = (case configured of Some c \<Rightarrow> Some c | None \<Rightarrow> discoveryIssuer discovered) in
            Ret (expected \<noteq> None \<and> expected \<noteq> Some [] \<and> body_issuer body = expected \<and>
                 (case body_tokens body of Some t \<Rightarrow> field t ''access_token'' \<noteq> Some (J_Str []) | None \<Rightarrow> False)))))
       (\<lambda>_. Ret False)"

definition peekGrant ::
    "oauth_env \<Rightarrow> ('z, jstr \<times> fields option \<times> jstr option \<times> (int \<times> grant_outcome) option) oauth" where
  "peekGrant env =
     after (provider_wait (Some Caller_Signal) (storage_get GRANT)) (\<lambda>raw.
     after (openGrant env (Some Caller_Signal) raw) (\<lambda>gr.
     Ret (gr_epoch gr, body_tokens (gr_body gr), body_issuer (gr_body gr), gr_observation gr)))"

section \<open>Epochs\<close>

definition liveEpoch :: "oauth_env \<Rightarrow> ('z, jstr) oauth" where
  "liveEpoch env = after (readGrant env (Some Caller_Signal)) (\<lambda>(raw, gr). Ret (gr_epoch gr))"

definition operatorDisconnected :: "oauth_env \<Rightarrow> ('z, bool) oauth" where
  "operatorDisconnected env = after (liveEpoch env) (\<lambda>e. Ret (isDisconnectedEpoch e))"

definition beginFlow :: "oauth_env \<Rightarrow> jstr option \<Rightarrow> ('z, jstr) oauth" where
  "beginFlow env expectedEpoch =
     after (liveEpoch env) (\<lambda>epoch.
     if expectedEpoch \<noteq> None \<and> expectedEpoch \<noteq> Some epoch then Throw Flow_Superseded
     else after (modify (\<lambda>pv. pv\<lparr>pv_epoch := Some epoch, pv_bound := True\<rparr>)) (\<lambda>_. Ret epoch))"

definition flowEpoch :: "oauth_env \<Rightarrow> ('z, jstr) oauth" where
  "flowEpoch env = Peek (\<lambda>pv. case pv_epoch pv of Some e \<Rightarrow> Ret e | None \<Rightarrow> liveEpoch env)"

definition OAUTH_REFRESH_SKEW_MS :: rat where
  "OAUTH_REFRESH_SKEW_MS = 60000"

definition renewalDue :: "'z provider_scheme \<Rightarrow> int \<Rightarrow> json option" where
  "renewalDue pv now =
     (case pv_observed pv of
        None \<Rightarrow> None
      | Some seen \<Rightarrow>
          (case (og_refreshable seen, finite_number (og_expiresAt seen)) of
             (True, Some expiresAt) \<Rightarrow>
               if pv_bound pv \<and> Some (og_epoch seen) \<noteq> pv_epoch pv then None
               else if expiresAt - OAUTH_REFRESH_SKEW_MS \<le> of_int now then og_accessToken seen else None
           | _ \<Rightarrow> None))"

definition observedExpiry :: "'z provider_scheme \<Rightarrow> json \<Rightarrow> json option" where
  "observedExpiry pv accessToken =
     (case pv_observed pv of
        Some seen \<Rightarrow> if og_accessToken seen = Some accessToken then og_expiresAt seen else None
      | None \<Rightarrow> None)"

section \<open>Restart and disconnect\<close>

text \<open>The registration a forced restart may carry; \<open>now\<close> is \<^verbatim>\<open>Date.now()\<close>.\<close>

definition carriableClient :: "oauth_env \<Rightarrow> int \<Rightarrow> grant \<Rightarrow> fields option" where
  "carriableClient env now gr =
     (case (body_issuer (gr_body gr), plainObject (field (gr_body gr) ''client'')) of
        (Some issuer, Some client) \<Rightarrow>
          (let held = (case plainObject (field client ''value'') of Some v \<Rightarrow> v | None \<Rightarrow> []);
               clientId = string_of (field held ''client_id'');
               path = field client ''registrationPath'';
               binding = string_of (field client ''binding'')
           in if en_clientBinding env = None \<or> en_clientBinding env = Some [] \<or> binding \<noteq> en_clientBinding env \<or>
                 clientId = None \<or> path = Some (J_Str (lit ''cimd'')) \<or> path = Some (J_Str (lit ''static'')) \<or>
                 (path = None \<and> clientId = en_clientMetadataUrl env) \<or> en_configuredClient env \<or>
                 (case finite_number (field held ''client_secret_expires_at'') of
                    Some x \<Rightarrow> 0 < x \<and> x * 1000 \<le> of_int now | None \<Rightarrow> False) \<or>
                 (field client ''carried'' \<noteq> None \<and> body_tokens (gr_body gr) = None)
              then None
              else Some [(lit ''issuer'', J_Str issuer),
                         (lit ''client'', J_Obj (given ''value'' (field client ''value'') @
                            given ''binding'' (map_option J_Str binding) @
                            [(lit ''carried'', J_Bool True)] @ given ''registrationPath'' path))])
      | _ \<Rightarrow> None)"

text \<open>The records under a prefix, read one by one.\<close>

primrec read_records :: "jstr list \<Rightarrow> ('l, oauth_error, (jstr \<times> jstr) list) prog" where
  "read_records [] = Ret []"
| "read_records (key # keys) =
     after (storage_get key) (\<lambda>raw.
     after (read_records keys) (\<lambda>rest.
     Ret (case raw of None \<Rightarrow> rest | Some r \<Rightarrow> (key, r) # rest)))"

primrec delete_records :: "(jstr \<times> jstr \<Rightarrow> bool) \<Rightarrow> (jstr \<times> jstr) list \<Rightarrow> ('l, oauth_error, unit) prog" where
  "delete_records stale [] = Ret ()"
| "delete_records stale (e # es) =
     after (if stale e then after (storage_cas (fst e) (Some (snd e)) None) (\<lambda>_. Ret ()) else Ret ()) (\<lambda>_.
     delete_records stale es)"

definition sweepConsents :: "('z, unit) oauth" where
  "sweepConsents =
     attempt
       (after (storage_list (lit ''oauth:flow:'')) (\<lambda>keys.
        after (read_records keys) (\<lambda>consents.
        after (storage_get GRANT) (\<lambda>raw.
        delete_records
          (\<lambda>e. (case plainObject (parsed (snd e)) of Some fs \<Rightarrow> field fs ''epoch'' | None \<Rightarrow> None) \<noteq> Some (J_Str (epochOf raw)))
          consents))))
       (\<lambda>_. Ret ())"

definition sweepRefreshLeases :: "('z, unit) oauth" where
  "sweepRefreshLeases =
     attempt
       (after (storage_list (lit ''oauth:refresh:'')) (\<lambda>keys.
        after (read_records keys) (\<lambda>records.
        after (storage_get GRANT) (\<lambda>raw.
        delete_records (\<lambda>e. \<not> starts_with (fst e) (lit ''oauth:refresh:'' @ epochOf raw @ lit '':'')) records))))
       (\<lambda>_. Ret ())"

text \<open>
  The loop of \<^verbatim>\<open>performReset\<close> for the new epoch. \<open>revoke\<close> is the best-effort revocation request of a
  disconnect, which runs after the sweeps whether or not they throw.
\<close>

primrec reset_attempts ::
    "oauth_env \<Rightarrow> jstr \<Rightarrow> bool \<Rightarrow> bool \<Rightarrow> (fields \<Rightarrow> ('z, unit) oauth) option \<Rightarrow> (jstr \<times> int) option \<Rightarrow> nat \<Rightarrow> ('z, unit) oauth" where
  "reset_attempts env epoch disconnected preserveClient revoke refused 0 = Throw Credential_Write_Error"
| "reset_attempts env epoch disconnected preserveClient revoke refused (Suc n) =
     after (readGrant env None) (\<lambda>(raw, gr).
     if (case refused of
           Some (e, revision) \<Rightarrow> gr_epoch gr \<noteq> e \<or> revision_of gr \<noteq> revision \<or>
             map_option snd (gr_observation gr) \<noteq> Some Refused
         | None \<Rightarrow> False)
     then Ret ()
     else Clock (\<lambda>now.
       let carried = (if preserveClient \<and> \<not> disconnected then carriableClient env now gr else None) in
       after (encodeGrant env None \<lparr>gr_tokenRevision = None, gr_observation = None, gr_epoch = epoch, gr_flow = None,
                gr_body = (case carried of Some b \<Rightarrow> b | None \<Rightarrow> [])\<rparr>) (\<lambda>encoded.
       after (attempt (storage_cas GRANT raw (Some encoded)) (\<lambda>_. Throw Credential_Write_Error)) (\<lambda>written.
       if written then
         let revoked = (case revoke of Some f \<Rightarrow> f (gr_body gr) | None \<Rightarrow> Ret ()) in
         after (attempt (after sweepConsents (\<lambda>_. sweepRefreshLeases)) (\<lambda>e. after revoked (\<lambda>_. Throw e))) (\<lambda>_. revoked)
       else reset_attempts env epoch disconnected preserveClient revoke refused n))))"

definition performReset ::
    "oauth_env \<Rightarrow> bool \<Rightarrow> bool \<Rightarrow> (fields \<Rightarrow> ('z, unit) oauth) option \<Rightarrow> (jstr \<times> int) option \<Rightarrow> ('z, unit) oauth" where
  "performReset env disconnected preserveClient revoke refused =
     Uuid (\<lambda>u. reset_attempts env ((if disconnected then DISCONNECTED_EPOCH_PREFIX else ACTIVE_EPOCH_PREFIX) @ u)
       disconnected preserveClient revoke refused MAX_GRANT_WRITES)"

section \<open>Properties of objects\<close>

lemma field_with [simp]: "field (with_field m v fs) n = (if m = n then Some v else field fs n)"
  by (simp add: field_def with_field_def)

lemma field_without [simp]: "field (without_field m fs) n = (if m = n then None else field fs n)"
  by (simp add: field_def without_field_def)

lemma field_Cons [simp]: "field ((lit m, v) # fs) n = (if m = n then Some v else field fs n)"
  by (simp add: field_def)

lemma field_Nil [simp]: "field [] n = None"
  by (simp add: field_def)

lemma field_append: "field (fs @ es) n = (case field fs n of Some v \<Rightarrow> Some v | None \<Rightarrow> field es n)"
  by (simp add: field_def map_add_def split: option.split)

lemma field_given [simp]: "field (given m v) n = (if m = n then v else None)"
  by (auto simp: given_def split: option.split)

definition wf_fields :: "fields \<Rightarrow> bool" where
  "wf_fields fs \<longleftrightarrow> wf_json (J_Obj fs)"

lemma wf_whole [simp]: "wf_json (whole i)"
  by (simp add: whole_def int_token)

lemma wf_with [simp]: "wf_fields fs \<Longrightarrow> wf_json v \<Longrightarrow> wf_fields (with_field n v fs)"
  using set_map_set_subset [of "lit n" v fs] by (auto simp: wf_fields_def with_field_def list_all_iff)

lemma wf_without [simp]: "wf_fields fs \<Longrightarrow> wf_fields (without_field n fs)"
  by (auto simp: wf_fields_def without_field_def list_all_iff)

lemma wf_field: "wf_fields fs \<Longrightarrow> field fs n = Some v \<Longrightarrow> wf_json v"
  by (auto simp: wf_fields_def field_def list_all_iff dest!: map_of_SomeD)

lemma parsed_wf: "plainObject (parsed raw) = Some fs \<Longrightarrow> wf_fields fs"
  using json_parse_wf [of raw] by (auto simp: plainObject_def parsed_def wf_fields_def split: option.splits json.splits)

lemma parsed_text: "wf_fields fs \<Longrightarrow> plainObject (parsed (json_text (J_Obj fs))) = Some fs"
  using json_roundtrip [of "J_Obj fs"] by (simp add: plainObject_def parsed_def wf_fields_def)

lemma finite_whole: "\<bar>i\<bar> < 2 ^ 1024 \<Longrightarrow> finite_number (Some (whole i)) = Some (of_int i)"
  by (simp add: finite_number_def whole_def int_token_value)

lemma string_of_Some [simp]: "string_of (Some (J_Str s)) = Some s" "string_of None = None"
  by (simp_all add: string_of_def)

lemma string_of_eq: "string_of v = Some s \<longleftrightarrow> v = Some (J_Str s)"
  by (auto simp: string_of_def split: option.splits json.splits)

section \<open>Which calls the grant's programs make\<close>

text \<open>
  Reads, and compare-and-sets of the grant's own key; the fields a redemption adds to the provider stay as they are.
\<close>

definition grant_calls :: "(storage_op \<Rightarrow> bool) \<Rightarrow> bool" where
  "grant_calls A \<longleftrightarrow> (\<forall>k. A (Get k)) \<and> (\<forall>p. A (List_Keys p)) \<and> (\<forall>expected new opts. A (Compare_And_Set GRANT expected new opts))"

lemma quiet_modify: "(\<And>l. F (f l) = F l) \<Longrightarrow> quiet A F x (modify f)"
  by (simp add: modify_def)

lemma quiet_get: "grant_calls A \<Longrightarrow> quiet A F x (storage_get k)"
  by (auto simp: storage_get_def grant_calls_def split: option.split storage_reply.split)

lemma quiet_list: "grant_calls A \<Longrightarrow> quiet A F x (storage_list k)"
  by (auto simp: storage_list_def grant_calls_def split: option.split storage_reply.split)

lemma quiet_cas: "(\<And>opts. A (Compare_And_Set k expected new opts)) \<Longrightarrow> quiet A F x (storage_cas k expected new)"
  by (auto simp: storage_cas_def split: option.split storage_reply.split)

lemma quiet_cas_grant: "grant_calls A \<Longrightarrow> quiet A F x (storage_cas GRANT expected new)"
  by (auto simp: grant_calls_def intro: quiet_cas)

lemma quiet_provider_wait: "quiet A F x p \<Longrightarrow> quiet A F x (provider_wait sig p)"
  by (auto simp: provider_wait_def intro: quiet_wait split: option.split)

lemma quiet_check_option: "quiet A F x (check_option sig)"
  by (auto simp: check_option_def intro: quiet_check split: option.split)

lemma quiet_of_sum: "quiet A F x (of_sum r)"
  by (simp add: of_sum_def split: sum.split)

lemma more_observe [simp]: "provider.more (observe gr pv) = provider.more pv"
  by (simp add: observe_def Let_def)

lemmas quiet_calls = quiet_get quiet_list quiet_cas_grant quiet_provider_wait quiet_check_option quiet_of_sum quiet_intros

lemma quiet_encodeGrant: "grant_calls A \<Longrightarrow> quiet A provider.more x (encodeGrant env sig gr)"
  by (auto simp: encodeGrant_def intro!: quiet_calls split: list.split option.split)

lemma quiet_openGrant: "grant_calls A \<Longrightarrow> quiet A provider.more x (openGrant env sig raw)"
  by (auto simp: openGrant_def opened_body_def intro!: quiet_calls quiet_modify split: option.split)

lemma quiet_readGrant: "grant_calls A \<Longrightarrow> quiet A provider.more x (readGrant env sig)"
  unfolding readGrant_def by (auto intro!: quiet_calls quiet_openGrant quiet_encodeGrant)

lemma quiet_boundGrant: "grant_calls A \<Longrightarrow> quiet A provider.more x (boundGrant env sig)"
  by (auto simp: boundGrant_def intro!: quiet_calls quiet_readGrant)

lemma modest_update_attempts:
  assumes "grant_calls A" "\<And>gr. modest A provider.more x (change gr)"
  shows "modest A provider.more x (update_attempts env change opts sig n)"
proof -
  have parts: "modest A provider.more x (readGrant env sig)" "modest A provider.more x (encodeGrant env sig gr)"
    "modest A provider.more x (attempt (provider_wait sig (storage_cas GRANT raw encoded))
       (\<lambda>_. after (check_option sig) (\<lambda>_. Throw Credential_Write_Error)))"
    "modest A provider.more x (attempt (provider_wait sig (after (check_signal g e) (\<lambda>_. storage_cas GRANT raw encoded)))
       (\<lambda>_. after (check_option sig) (\<lambda>_. Throw Credential_Write_Error)))"
    "modest A provider.more x (modify (\<lambda>pv. observe gr (if b then pv\<lparr>pv_epoch := n\<rparr> else pv)))" for gr raw encoded b e g n
    by (rule quiet_modest, auto intro!: quiet_readGrant quiet_encodeGrant quiet_calls quiet_modify assms(1))+
  show ?thesis
    by (induction n) (auto simp: flow_epoch_or_def intro!: modest_after assms(2) parts split: option.split)
qed

lemma quiet_update_attempts:
  "grant_calls A \<Longrightarrow> (\<And>gr. quiet A provider.more x (change gr)) \<Longrightarrow> quiet A provider.more x (update_attempts env change opts sig n)"
  by (induction n)
    (auto simp: flow_epoch_or_def intro!: quiet_calls quiet_readGrant quiet_encodeGrant quiet_modify split: option.split)

lemma quiet_updateGrant:
  "grant_calls A \<Longrightarrow> (\<And>gr. quiet A provider.more x (change gr)) \<Longrightarrow> quiet A provider.more x (updateGrant env change opts)"
  by (simp add: updateGrant_def quiet_update_attempts)

lemma quiet_flowEpoch: "grant_calls A \<Longrightarrow> quiet A provider.more x (flowEpoch env)"
  by (auto simp: flowEpoch_def liveEpoch_def intro!: quiet_calls quiet_readGrant split: option.split)

lemma quiet_grant_programs:
  assumes "grant_calls A"
  shows "quiet A provider.more x (recordTokenOutcome env epoch revision outcome)"
    "quiet A provider.more x (liveEpoch env)" "quiet A provider.more x (beginFlow env expected)"
    "quiet A provider.more x (storedAuthorization env configured)"
  using assms
  by (auto simp: recordTokenOutcome_def liveEpoch_def beginFlow_def storedAuthorization_def Let_def
      intro!: quiet_updateGrant quiet_calls quiet_readGrant quiet_openGrant quiet_modify)

lemma modest_writeCredential:
  fixes x :: 'z
  assumes "grant_calls A"
  shows "modest A provider.more x (writeCredential env c issuer refreshConsent)"
proof -
  have issuer: "modest A provider.more y (withIssuer gr body)" for y :: 'z and gr body
    by (simp add: withIssuer_def)
  show ?thesis
    unfolding writeCredential_def updateGrant_def Let_def
    by (auto intro!: modest_after modest_update_attempts assms issuer quiet_modest [OF quiet_of_sum]
        quiet_modest [OF quiet_modify] split: credential.split option.split)
qed

end
