(* ===== verification/Grant_Records.thy ===== *)
theory Grant_Records
  imports OAuth_Grant
begin

text \<open>
  What a grant read from the store looks like (\<^verbatim>\<open>openGrant\<close>, \<^verbatim>\<open>grantBody\<close> and
  \<^verbatim>\<open>encodeGrant\<close> of \<^verbatim>\<open>auth/downstream-oauth/grant-store.ts\<close>): every property it has passed
  the guard the code has for it, whatever text was stored and whatever the vault opened; and a grant that is written
  is read back unchanged. The guards are partial: of stored tokens only \<^verbatim>\<open>access_token\<close> is looked at,
  of a client only \<^verbatim>\<open>client_id\<close> and Connecta's own fields, and the rest is kept as it was stored.
\<close>

section \<open>Grants whose parts passed their guards\<close>

definition client_typed :: "json \<Rightarrow> bool" where
  "client_typed v =
     (case plainObject (Some v) of
        None \<Rightarrow> False
      | Some c \<Rightarrow>
          (case plainObject (field c ''value'') of Some held \<Rightarrow> string_of (field held ''client_id'') \<noteq> None | None \<Rightarrow> False) \<and>
          (field c ''binding'' = None \<or> string_of (field c ''binding'') \<noteq> None) \<and>
          (field c ''carried'' = None \<or> field c ''carried'' = Some (J_Bool True)) \<and>
          field c ''registrationPath'' \<in> {None, Some (J_Str (lit ''cimd'')), Some (J_Str (lit ''dcr'')), Some (J_Str (lit ''static''))})"

definition tokens_typed :: "json \<Rightarrow> bool" where
  "tokens_typed v = (case plainObject (Some v) of Some t \<Rightarrow> string_of (field t ''access_token'') \<noteq> None | None \<Rightarrow> False)"

definition consent_typed :: "json \<Rightarrow> bool" where
  "consent_typed v =
     (case plainObject (Some v) of
        None \<Rightarrow> False
      | Some c \<Rightarrow> string_of (field c ''digest'') \<noteq> None \<and> string_of (field c ''resolution'') \<noteq> None)"

definition body_names :: "jstr list" where
  "body_names = map lit [''issuer'', ''client'', ''tokens'', ''expiresAt'', ''discovery'', ''refreshConsent'']"

text \<open>
  What the guards make certain of a \<^verbatim>\<open>GrantBody\<close>: no other property, and each of the six of the shape
  its guard asks for; an expiry comes only with tokens.
\<close>

definition typed_body :: "fields \<Rightarrow> bool" where
  "typed_body b \<longleftrightarrow>
     list_all (\<lambda>e. fst e \<in> set body_names) b \<and> distinct (map fst b) \<and>
     (case field b ''issuer'' of None \<Rightarrow> True | Some v \<Rightarrow> string_of (Some v) \<noteq> None) \<and>
     (case field b ''client'' of None \<Rightarrow> True | Some v \<Rightarrow> client_typed v) \<and>
     (case field b ''tokens'' of None \<Rightarrow> True | Some v \<Rightarrow> tokens_typed v) \<and>
     (case field b ''expiresAt'' of None \<Rightarrow> True | Some v \<Rightarrow> finite_number (Some v) \<noteq> None \<and> field b ''tokens'' \<noteq> None) \<and>
     (case field b ''discovery'' of None \<Rightarrow> True | Some v \<Rightarrow> discoveryIssuer (Some v) \<noteq> None) \<and>
     (case field b ''refreshConsent'' of None \<Rightarrow> True | Some v \<Rightarrow> consent_typed v)"

text \<open>
  The same of a \<^verbatim>\<open>Grant\<close>: a body in the order it is written in, a counter that is a safe integer, and
  an outcome only of the current tokens.
\<close>

definition typed_grant :: "grant \<Rightarrow> bool" where
  "typed_grant gr \<longleftrightarrow>
     typed_body (gr_body gr) \<and> grantBody (Some (J_Obj (gr_body gr))) = gr_body gr \<and> wf_fields (gr_body gr) \<and>
     0 \<le> revision_of gr \<and> revision_of gr \<le> MAX_SAFE_INTEGER \<and>
     (case gr_observation gr of None \<Rightarrow> True | Some (r, _) \<Rightarrow> r = revision_of gr)"

section \<open>Lemmas\<close>


declare json_text.simps [simp del]

lemma plain_obj [simp]: "plainObject (Some (J_Obj fs)) = Some fs" "plainObject None = None"
  by (simp_all add: plainObject_def)

lemma plain_Some: "plainObject v = Some fs \<longleftrightarrow> v = Some (J_Obj fs)"
  by (auto simp: plainObject_def split: option.splits json.splits)

lemma field_given_append [simp]:
  "field (given m v @ fs) n = (if m = n then (case v of None \<Rightarrow> field fs n | Some x \<Rightarrow> Some x) else field fs n)"
  by (simp add: field_append)

lemma known_path_again [simp]: "known_path (known_path v) = known_path v"
  by (simp add: known_path_def)

lemma client_body_cases:
  assumes "clientBody v = Some c"
  obtains held b k r where "c = J_Obj (given ''value'' (Some (J_Obj held)) @ given ''binding'' (map_option J_Str b) @
      given ''carried'' (if k then Some (J_Bool True) else None) @ given ''registrationPath'' (known_path r))"
    "string_of (field held ''client_id'') \<noteq> None"
proof -
  obtain fs where fs: "plainObject v = Some fs" using assms by (cases "plainObject v") (auto simp: clientBody_def)
  obtain held where held: "plainObject (field fs ''value'') = Some held"
    using assms fs by (cases "plainObject (field fs ''value'')") (auto simp: clientBody_def)
  have "string_of (field held ''client_id'') \<noteq> None" using assms fs held by (auto simp: clientBody_def split: if_split_asm)
  with assms fs held that [of held "string_of (field fs ''binding'')" "field fs ''carried'' = Some (J_Bool True)" "field fs ''registrationPath''"]
  show thesis by (simp add: clientBody_def)
qed

lemma client_body_typed: "clientBody v = Some c \<Longrightarrow> client_typed c"
  by (erule client_body_cases) (auto simp: client_typed_def known_path_def split: option.split)

lemma client_body_again: "clientBody v = Some c \<Longrightarrow> clientBody (Some c) = Some c"
  by (erule client_body_cases) (auto simp: clientBody_def map_option_case split: option.split)

lemma consent_body_typed: "consentBody v = Some c \<Longrightarrow> consent_typed c"
  by (auto simp: consentBody_def consent_typed_def split: option.splits)

lemma consent_body_again: "consentBody v = Some c \<Longrightarrow> consentBody (Some c) = Some c"
  by (auto simp: consentBody_def split: option.splits)

lemma tokens_body_again: "tokensBody v = Some t \<Longrightarrow> tokensBody (Some (J_Obj t)) = Some t"
  by (auto simp: tokensBody_def plain_Some split: option.splits if_splits)

lemma tokens_body_typed: "tokensBody v = Some t \<Longrightarrow> tokens_typed (J_Obj t)"
  by (auto simp: tokensBody_def tokens_typed_def plain_Some split: option.splits if_splits)

lemma grant_body_field:
  "field (grantBody (Some (J_Obj fs))) n =
     (if n = ''issuer'' then map_option J_Str (string_of (field fs ''issuer''))
      else if n = ''client'' then clientBody (field fs ''client'')
      else if n = ''tokens'' then map_option J_Obj (tokensBody (field fs ''tokens''))
      else if n = ''expiresAt'' then
        (if tokensBody (field fs ''tokens'') \<noteq> None \<and> finite_number (field fs ''expiresAt'') \<noteq> None then field fs ''expiresAt'' else None)
      else if n = ''discovery'' then (if discoveryIssuer (field fs ''discovery'') \<noteq> None then field fs ''discovery'' else None)
      else if n = ''refreshConsent'' then consentBody (field fs ''refreshConsent'')
      else None)"
  by (simp add: grantBody_def Let_def field_append split: option.split)

lemma grant_body_again: "grantBody (Some (J_Obj (grantBody v))) = grantBody v"
proof (cases "plainObject v")
  case None
  then show ?thesis by (simp add: grantBody_def [of v]) (simp add: grantBody_def given_def clientBody_def tokensBody_def discoveryIssuer_def consentBody_def)
next
  case (Some fs)
  then have v: "v = Some (J_Obj fs)" by (simp add: plain_Some)
  have client: "clientBody (clientBody x) = clientBody x" for x
    by (cases "clientBody x") (simp_all add: client_body_again, simp add: clientBody_def)
  have consent: "consentBody (consentBody x) = consentBody x" for x
    by (cases "consentBody x") (simp_all add: consent_body_again, simp add: consentBody_def)
  have tokens: "tokensBody (map_option J_Obj (tokensBody x)) = tokensBody x" for x
    by (cases "tokensBody x") (simp_all add: tokens_body_again, simp add: tokensBody_def)
  show ?thesis
    unfolding v
    by (subst grantBody_def)
      (simp add: grant_body_field client consent tokens Let_def, simp add: grantBody_def Let_def,
        auto simp: finite_number_def discoveryIssuer_def string_of_def map_option_case split: option.splits json.splits)
qed

lemma given_keys:
  "lit n \<in> N \<Longrightarrow> list_all (\<lambda>e. fst e \<in> N) (given n v)" "distinct (map fst (given n v))"
  "n \<noteq> m \<Longrightarrow> fst ` set (given n v) \<inter> fst ` set (given m u) = {}"
  by (auto simp: given_def split: option.split)

lemma grant_body_names: "list_all (\<lambda>e. fst e \<in> set body_names) (grantBody v)" "distinct (map fst (grantBody v))"
proof -
  have "lit ''issuer'' \<in> set body_names" "lit ''client'' \<in> set body_names" "lit ''tokens'' \<in> set body_names"
    "lit ''expiresAt'' \<in> set body_names" "lit ''discovery'' \<in> set body_names" "lit ''refreshConsent'' \<in> set body_names"
    by (simp_all add: body_names_def)
  then show "list_all (\<lambda>e. fst e \<in> set body_names) (grantBody v)"
    by (simp add: grantBody_def Let_def given_keys(1) split: option.split)
  show "distinct (map fst (grantBody v))"
    by (simp add: grantBody_def Let_def given_keys(2, 3) image_Un Int_Un_distrib split: option.split)
qed

lemma grant_body_typed: "typed_body (grantBody v)"
proof (cases "plainObject v")
  case None
  then show ?thesis by (simp add: grantBody_def typed_body_def)
next
  case (Some fs)
  then have v: "v = Some (J_Obj fs)" by (simp add: plain_Some)
  show ?thesis
    unfolding typed_body_def v
    using grant_body_names [of "Some (J_Obj fs)"]
    by (auto simp: grant_body_field client_body_typed consent_body_typed tokens_body_typed split: option.splits if_splits)
qed

text \<open>A body made of printable parts is printable.\<close>

lemma wf_given: "list_all (\<lambda>e. wf_json (snd e)) (given n v) \<longleftrightarrow> (case v of None \<Rightarrow> True | Some x \<Rightarrow> wf_json x)"
  by (simp add: given_def split: option.split)

lemma wf_client:
  assumes "clientBody v = Some c" "\<And>x. v = Some x \<Longrightarrow> wf_json x"
  shows "wf_json c"
proof -
  obtain fs where fs: "v = Some (J_Obj fs)" using assms(1) by (cases "plainObject v") (auto simp: clientBody_def plain_Some)
  then have "wf_fields fs" using assms(2) by (simp add: wf_fields_def)
  then have parts: "\<And>n x. field fs n = Some x \<Longrightarrow> wf_json x" by (rule wf_field)
  obtain held where held: "field fs ''value'' = Some (J_Obj held)"
    using assms(1) fs by (cases "plainObject (field fs ''value'')") (auto simp: clientBody_def plain_Some)
  show ?thesis
    using assms(1) fs held parts [OF held]
    by (auto simp: clientBody_def wf_given known_path_def given_def split: option.splits if_splits)
qed

lemma wf_grant_body:
  assumes "\<And>x. v = Some x \<Longrightarrow> wf_json x"
  shows "wf_fields (grantBody v)"
proof (cases "plainObject v")
  case None
  then show ?thesis by (simp add: grantBody_def wf_fields_def)
next
  case (Some fs)
  then have v: "v = Some (J_Obj fs)" by (simp add: plain_Some)
  with assms have "wf_fields fs" by (simp add: wf_fields_def)
  then have parts: "\<And>n x. field fs n = Some x \<Longrightarrow> wf_json x" by (rule wf_field)
  have "wf_json x" if "clientBody (field fs ''client'') = Some x" for x by (rule wf_client [OF that parts])
  moreover have "wf_json x" if "consentBody (field fs ''refreshConsent'') = Some x" for x
    using that by (auto simp: consentBody_def split: option.splits)
  moreover have "wf_json (J_Obj t)" if "tokensBody (field fs ''tokens'') = Some t" for t
    using that parts [of "''tokens''" "J_Obj t"] by (auto simp: tokensBody_def plain_Some split: option.splits if_splits)
  ultimately have "list_all (\<lambda>e. wf_json (snd e)) (grantBody v)"
    using parts unfolding v by (auto simp: grantBody_def Let_def wf_given split: option.splits)
  with grant_body_names(2) show ?thesis by (simp add: wf_fields_def)
qed

text \<open>A refresh token that is not a string is kept: the guard of tokens does not look at it.\<close>

lemma refresh_token_unchecked:
  "field (grantBody (Some (J_Obj [(lit ''tokens'',
      J_Obj [(lit ''access_token'', J_Str (lit ''a'')), (lit ''refresh_token'', J_Bool True)])]))) ''tokens'' =
   Some (J_Obj [(lit ''access_token'', J_Str (lit ''a'')), (lit ''refresh_token'', J_Bool True)])"
  by (simp add: grant_body_field tokensBody_def)

subsection \<open>Opening\<close>

lemma counter_bounds: "counter_of v = Some n \<Longrightarrow> 0 \<le> n \<and> n \<le> MAX_SAFE_INTEGER"
  by (auto simp: counter_of_def safe_integer_def MAX_SAFE_INTEGER_def floor_le_iff split: option.splits if_splits)

lemma observed_revision: "stored_observation fs = Some (r, x) \<Longrightarrow>
    r = (case counter_of (field fs ''tokenRevision'') of Some n \<Rightarrow> n | None \<Rightarrow> 0)"
  by (auto simp: stored_observation_def Let_def split: if_splits)

lemma opened_typed:
  assumes "\<And>x. body = Some x \<Longrightarrow> wf_json x"
  shows "typed_grant (opened_grant fs body)"
  using wf_grant_body [OF assms] counter_bounds [of "field fs ''tokenRevision''"]
  by (auto simp: typed_grant_def opened_grant_def grant_body_typed grant_body_again revision_of_def MAX_SAFE_INTEGER_def
      dest!: observed_revision split: option.splits)



subsection \<open>Writing and reading back\<close>

text \<open>A program that cannot throw, whatever it is answered.\<close>

primrec unfailing :: "('l, 'e, 'a) prog \<Rightarrow> bool" where
  "unfailing (Ret a) = True"
| "unfailing (Throw e) = False"
| "unfailing (Store c k) = (\<forall>r. unfailing (k r))"
| "unfailing (Uuid k) = (\<forall>u. unfailing (k u))"
| "unfailing (Nonce k) = (\<forall>u. unfailing (k u))"
| "unfailing (Clock k) = (\<forall>t. unfailing (k t))"
| "unfailing (Halted g k) = (\<forall>b. unfailing (k b))"
| "unfailing (Peek k) = (\<forall>l. unfailing (k l))"
| "unfailing (Poke l p) = unfailing p"
| "unfailing (Send t p) = unfailing p"
| "unfailing (Await k) = (\<forall>a. unfailing (k a))"

text \<open>What the keyring promises: it opens what it sealed under the same label.\<close>

definition vault_lawful :: "oauth_env \<Rightarrow> bool" where
  "vault_lawful env =
     (case en_sealer env of None \<Rightarrow> True | Some sl \<Rightarrow> \<forall>n label t. \<exists>s. vs_seal sl n label t = Some s \<and> vs_open sl label s = Some t)"

lemma counter_whole: "0 \<le> n \<Longrightarrow> n \<le> MAX_SAFE_INTEGER \<Longrightarrow> counter_of (Some (whole n)) = Some n"
  by (simp add: counter_of_def finite_whole MAX_SAFE_INTEGER_def safe_integer_def)

lemma wf_grant_fields: "wf_fields (gr_body gr) \<Longrightarrow> wf_fields (grant_fields gr sealed)"
  by (auto simp: wf_fields_def grant_fields_def given_def split: option.split prod.split)

lemma grant_fields_stored:
  assumes "typed_grant gr"
  shows "storedGrant (json_text (J_Obj (grant_fields gr sealed))) = Some (grant_fields gr sealed)"
proof -
  have wf: "wf_fields (gr_body gr)" using assms by (simp add: typed_grant_def)
  have "counter_of (Some (whole r)) = Some r" if "gr_tokenRevision gr = Some r" for r
    using that assms by (intro counter_whole) (simp_all add: typed_grant_def revision_of_def)
  with parsed_text [OF wf_grant_fields [OF wf]] show ?thesis
    by (auto simp: storedGrant_def grant_fields_def finite_whole field_append split: option.splits prod.splits)
qed

lemma grant_fields_opened:
  assumes "typed_grant gr" "grantBody body = gr_body gr"
  shows "opened_grant (grant_fields gr sealed) body = gr"
proof -
  have r: "counter_of (Some (whole r)) = Some r" if "gr_tokenRevision gr = Some r" for r
    using that assms by (intro counter_whole) (simp_all add: typed_grant_def revision_of_def)
  have rev: "field (grant_fields gr sealed) ''tokenRevision'' = map_option whole (gr_tokenRevision gr)"
    by (simp add: grant_fields_def field_append split: option.split)
  have counter: "counter_of (field (grant_fields gr sealed) ''tokenRevision'') = gr_tokenRevision gr"
    unfolding rev by (cases "gr_tokenRevision gr") (simp_all add: r, simp add: counter_of_def finite_number_def)
  have flow: "string_of (field (grant_fields gr sealed) ''flow'') = gr_flow gr" "stored_epoch (grant_fields gr sealed) = gr_epoch gr"
    by (auto simp: stored_epoch_def grant_fields_def field_append split: option.split)
  have seen: "field (grant_fields gr sealed) ''observation'' =
      map_option (\<lambda>(r, x). J_Obj [(lit ''revision'', whole r), (lit ''outcome'', J_Str (outcome_name x))]) (gr_observation gr)"
    by (auto simp: grant_fields_def field_append split: option.split prod.split)
  have revision: "(case gr_tokenRevision gr of None \<Rightarrow> 0 | Some n \<Rightarrow> n) = revision_of gr" by (simp add: revision_of_def)
  have "stored_observation (grant_fields gr sealed) = gr_observation gr"
  proof (cases "gr_observation gr")
    case None
    then show ?thesis by (simp add: stored_observation_def seen counter json_field_def finite_number_def Let_def)
  next
    case (Some ob)
    obtain r x where ob: "ob = (r, x)" by (cases ob)
    have "r = revision_of gr" "\<bar>r\<bar> < 2 ^ 1024" using assms(1) Some ob by (simp_all add: typed_grant_def MAX_SAFE_INTEGER_def)
    then show ?thesis
      using Some ob
      by (cases x) (simp_all add: stored_observation_def seen counter revision Let_def json_field_def finite_whole lit_def)
  qed
  with counter flow assms(2) show ?thesis by (simp add: opened_grant_def)
qed


lemma typed_roundtrip:
  assumes "typed_grant gr" "en_credentialFree env (gr_body gr)" "vault_lawful env"
  shows "unfailing (encodeGrant env None gr) \<and>
    yields (\<lambda>s. openGrant env None (Some s) = after (modify (observe gr)) (\<lambda>_. Ret gr)) (encodeGrant env None gr)"
proof -
  have again: "grantBody (Some (J_Obj (gr_body gr))) = gr_body gr" and wf: "wf_fields (gr_body gr)"
    using assms(1) by (simp_all add: typed_grant_def)
  have plain: "openGrant env None (Some (json_text (J_Obj (grant_fields gr None)))) = after (modify (observe gr)) (\<lambda>_. Ret gr)"
  proof -
    have "grantBody (field (grant_fields gr None) ''body'') = gr_body gr" "field (grant_fields gr None) ''sealed'' = None"
      using again by (auto simp: grant_fields_def field_append grantBody_def [of None] split: option.split)
    with grant_fields_opened [OF assms(1)] grant_fields_stored [OF assms(1), of None] show ?thesis
      by (simp add: openGrant_def opened_body_def)
  qed
  have sealed: "openGrant env None (Some (json_text (J_Obj (grant_fields gr (Some s))))) = after (modify (observe gr)) (\<lambda>_. Ret gr)"
    if "en_sealer env = Some sl" "vs_open sl (grantLabel (gr_epoch gr)) s = Some (json_text (J_Obj (gr_body gr)))" "gr_body gr \<noteq> []" for sl s
  proof -
    have "field (grant_fields gr (Some s)) ''sealed'' = Some (J_Str s)" "stored_epoch (grant_fields gr (Some s)) = gr_epoch gr"
      using that(3) by (auto simp: stored_epoch_def grant_fields_def field_append split: option.split)
    moreover have "parsed (json_text (J_Obj (gr_body gr))) = Some (J_Obj (gr_body gr))"
      using wf json_roundtrip [of "J_Obj (gr_body gr)"] by (simp add: parsed_def wf_fields_def)
    ultimately show ?thesis
      using that(1, 2) grant_fields_opened [OF assms(1) again] grant_fields_stored [OF assms(1), of "Some s"]
      by (simp add: openGrant_def opened_body_def provider_wait_def)
  qed
  show ?thesis
  proof (cases "gr_body gr = [] \<or> en_sealer env = None")
    case True
    then show ?thesis using assms(2) plain by (auto simp: encodeGrant_def split: list.split)
  next
    case False
    then obtain sl where sl: "en_sealer env = Some sl" and body: "gr_body gr \<noteq> []" by auto
    have law: "\<exists>s. vs_seal sl n label t = Some s \<and> vs_open sl label s = Some t" for n label t
      using assms(3) sl by (simp add: vault_lawful_def)
    have opens: "openGrant env None (Some (json_text (J_Obj (grant_fields gr (Some s))))) = after (modify (observe gr)) (\<lambda>_. Ret gr)"
      if "vs_seal sl n (grantLabel (gr_epoch gr)) (json_text (J_Obj (gr_body gr))) = Some s" for n s
      using law [of n "grantLabel (gr_epoch gr)" "json_text (J_Obj (gr_body gr))"] that by (intro sealed [OF sl _ body]) auto
    have "vs_seal sl n label t \<noteq> None" for n label t using law [of n label t] by auto
    with assms(2) sl body opens show ?thesis
      by (cases "gr_body gr") (auto simp: encodeGrant_def provider_wait_def split: option.split)
  qed
qed

section \<open>Properties\<close>


text \<open>
  C14. A written grant is read back: printing a well-typed grant, sealed or plain, cannot fail when its metadata hides no
  credential and the keyring works, and opening what was printed gives exactly that grant and notes it as observed.
\<close>

theorem grant_roundtrip:
  assumes "typed_grant gr" "en_credentialFree env (gr_body gr)" "vault_lawful env"
  shows "unfailing (encodeGrant env None gr) \<and>
    yields (\<lambda>s. openGrant env None (Some s) = after (modify (observe gr)) (\<lambda>_. Ret gr)) (encodeGrant env None gr)"
  using assms by (rule typed_roundtrip)

definition demo_vault :: oauth_env where
  "demo_vault = \<lparr>en_sealer = Some \<lparr>vs_seal = (\<lambda>n label t. Some (label @ t)), vs_open = (\<lambda>label s. Some (drop (length label) s))\<rparr>,
     en_digest = (\<lambda>s. s), en_localeSorted = (\<lambda>fs. fs), en_credentialFree = (\<lambda>_. True),
     en_clientBinding = None, en_clientMetadataUrl = None, en_configuredClient = False\<rparr>"

definition demo_opened :: grant where
  "demo_opened = opened_grant [] (Some (J_Obj [(lit ''tokens'', J_Obj [(lit ''access_token'', J_Str (lit ''a''))])]))"


theorem grant_roundtrip_witness:
  "gr_body demo_opened = [(lit ''tokens'', J_Obj [(lit ''access_token'', J_Str (lit ''a''))])] \<and>
   unfailing (encodeGrant demo_vault None demo_opened :: (provider, oauth_error, jstr) prog)"
proof -
  have "typed_grant demo_opened"
    unfolding demo_opened_def by (rule opened_typed) (simp add: lit_def)
  moreover have "vault_lawful demo_vault" by (simp add: vault_lawful_def demo_vault_def)
  ultimately have "unfailing (encodeGrant demo_vault None demo_opened :: (provider, oauth_error, jstr) prog)"
    by (intro conjunct1 [OF grant_roundtrip]) (simp_all add: demo_vault_def)
  then show ?thesis
    by (simp add: demo_opened_def opened_grant_def grantBody_def given_def tokensBody_def clientBody_def discoveryIssuer_def consentBody_def)
qed

end
