(* ===== verification/Token_Response.thy ===== *)
theory Token_Response
  imports OAuth_Grant
begin

text \<open>
  The token endpoint's answers (\<^verbatim>\<open>auth/oauth-token-response.ts\<close>): what counts as a token response, which
  answer settles a refresh, and what of a failure the SDK gets to see. An answer is its status, one header and the
  outcome of the bounded read of its body.
\<close>

section \<open>Numbers in a token response\<close>

text \<open>
  \<^verbatim>\<open>Number.isFinite(Number(v))\<close> of a parsed value: the language's conversion of texts, and of arrays
  through their joined text; an object converts to no number.
\<close>

definition js_white :: "code_unit \<Rightarrow> bool" where
  "js_white c \<longleftrightarrow>
     c \<in> {0x09, 0x0a, 0x0b, 0x0c, 0x0d, 0x20, 0xa0, 0x1680, 0x2028, 0x2029, 0x202f, 0x205f, 0x3000, 0xfeff} \<or>
     0x2000 \<le> c \<and> c \<le> 0x200a"

definition js_trim :: "jstr \<Rightarrow> jstr" where
  "js_trim s = rev (dropWhile js_white (rev (dropWhile js_white s)))"

definition double_range :: "rat \<Rightarrow> bool" where
  "double_range q \<longleftrightarrow> \<bar>q\<bar> < 2 ^ 1024"

definition radix_value :: "nat \<Rightarrow> jstr \<Rightarrow> nat option" where
  "radix_value radix ds =
     foldl (\<lambda>acc c. case (acc, hex_of c) of
              (Some n, Some d) \<Rightarrow> if d < radix then Some (n * radix + d) else None
            | _ \<Rightarrow> None) (if ds = [] then None else Some 0) ds"

definition radix_prefix :: "jstr \<Rightarrow> nat option" where
  "radix_prefix s =
     (case s of
        z # x # _ \<Rightarrow> if z \<noteq> 0x30 then None
          else if x = 0x78 \<or> x = 0x58 then Some 16 else if x = 0x6f \<or> x = 0x4f then Some 8
          else if x = 0x62 \<or> x = 0x42 then Some 2 else None
      | _ \<Rightarrow> None)"

definition decimal_finite :: "jstr \<Rightarrow> bool" where
  "decimal_finite s =
     (let unsigned = (if starts_with s [0x2d] \<or> starts_with s [0x2b] then drop 1 s else s);
          ds = takeWhile digit_unit unsigned; r = dropWhile digit_unit unsigned;
          fs = (if starts_with r [0x2e] then takeWhile digit_unit (drop 1 r) else []);
          r' = (if starts_with r [0x2e] then dropWhile digit_unit (drop 1 r) else r)
      in ds @ fs \<noteq> [] \<and>
         (case exp_part r' of
            Some ((neg, es), []) \<Rightarrow>
              double_range (parts_value \<lparr>np_negative = False, np_int = ds, np_frac = fs, np_exp_negative = neg, np_exp = es\<rparr>)
          | _ \<Rightarrow> False))"

definition text_finite :: "jstr \<Rightarrow> bool" where
  "text_finite s =
     (let t = js_trim s in
      t = [] \<or>
      (case radix_prefix t of
         Some radix \<Rightarrow> (case radix_value radix (drop 2 t) of Some n \<Rightarrow> double_range (of_nat n) | None \<Rightarrow> False)
       | None \<Rightarrow> decimal_finite t))"

fun array_text :: "json \<Rightarrow> jstr" where
  "array_text J_Null = []"
| "array_text (J_Bool b) = (if b then lit ''true'' else lit ''false'')"
| "array_text (J_Num t) = t"
| "array_text (J_Str s) = s"
| "array_text (J_Arr xs) = joined (map array_text xs)"
| "array_text (J_Obj _) = lit ''[object Object]''"

definition number_finite :: "json \<Rightarrow> bool" where
  "number_finite v =
     (case v of
        J_Null \<Rightarrow> True
      | J_Bool _ \<Rightarrow> True
      | J_Num t \<Rightarrow> token_number t \<noteq> Non_Finite
      | J_Str s \<Rightarrow> text_finite s
      | J_Arr _ \<Rightarrow> text_finite (array_text v)
      | J_Obj _ \<Rightarrow> False)"

section \<open>Token responses\<close>

definition sdkAcceptsOAuthTokens :: "json option \<Rightarrow> fields option" where
  "sdkAcceptsOAuthTokens v =
     (case plainObject v of
        None \<Rightarrow> None
      | Some fs \<Rightarrow>
          if string_of (field fs ''access_token'') = None \<or> string_of (field fs ''token_type'') = None then None
          else if list_ex (\<lambda>key. field fs key \<noteq> None \<and> string_of (field fs key) = None) [''id_token'', ''scope'', ''refresh_token'']
            then None
          else if (case field fs ''expires_in'' of Some x \<Rightarrow> \<not> number_finite x | None \<Rightarrow> False) then None
          else Some fs)"

datatype read_failure = Oversized_Response | Body_Read_Failed | Syntax_Error

definition readRefreshResponse :: "http_answer \<Rightarrow> read_failure + json option" where
  "readRefreshResponse a =
     (case ha_body a of
        No_Body \<Rightarrow> Inr None
      | Body_Oversized \<Rightarrow> Inl Oversized_Response
      | Body_Lost \<Rightarrow> Inl Body_Read_Failed
      | Body_Text t \<Rightarrow> (case json_parse t of Some v \<Rightarrow> Inr (Some v) | None \<Rightarrow> Inl Syntax_Error))"

definition oauthErrorCode :: "json option \<Rightarrow> jstr option" where
  "oauthErrorCode body = Option.bind (plainObject body) (\<lambda>fs. string_of (field fs ''error''))"

section \<open>Failures as the SDK sees them\<close>

definition SDK_TOKEN_ERROR_DESCRIPTIONS :: "(string \<times> string) list" where
  "SDK_TOKEN_ERROR_DESCRIPTIONS =
     [(''invalid_request'', ''The authorization server refused the token request.''),
      (''invalid_client'', ''The authorization server refused the client.''),
      (''invalid_grant'', ''The authorization server refused the grant.''),
      (''unauthorized_client'', ''The authorization server refused the client for this grant.''),
      (''unsupported_grant_type'', ''The authorization server refused the grant type.''),
      (''invalid_scope'', ''The authorization server refused the requested scope.''),
      (''invalid_target'', ''The authorization server refused the requested resource.''),
      (''server_error'', ''The authorization server is temporarily unavailable.''),
      (''temporarily_unavailable'', ''The authorization server is temporarily unavailable.''),
      (''invalid_dpop_proof'', ''The authorization server refused the DPoP proof.''),
      (''use_dpop_nonce'', ''The authorization server requires a DPoP nonce.'')]"

text \<open>
  The operator \<^verbatim>\<open>in\<close> also finds what every object literal inherits. All of it is functions, which JSON
  leaves out, but for \<^verbatim>\<open>__proto__\<close>, an object without properties of its own to print.
\<close>

definition inherited_names :: "string list" where
  "inherited_names =
     [''constructor'', ''__defineGetter__'', ''__defineSetter__'', ''hasOwnProperty'', ''__lookupGetter__'',
      ''__lookupSetter__'', ''isPrototypeOf'', ''propertyIsEnumerable'', ''toString'', ''valueOf'', ''__proto__'',
      ''toLocaleString'']"

definition registered_code :: "jstr \<Rightarrow> bool" where
  "registered_code code \<longleftrightarrow> code \<in> lit ` fst ` set SDK_TOKEN_ERROR_DESCRIPTIONS"

definition in_descriptions :: "jstr \<Rightarrow> bool" where
  "in_descriptions code \<longleftrightarrow> registered_code code \<or> code \<in> lit ` set inherited_names"

definition description_of :: "jstr \<Rightarrow> json option" where
  "description_of code =
     (case map_of (map (\<lambda>(c, d). (lit c, lit d)) SDK_TOKEN_ERROR_DESCRIPTIONS) code of
        Some d \<Rightarrow> Some (J_Str d)
      | None \<Rightarrow> if code = lit ''__proto__'' then Some (J_Obj []) else None)"

record sdk_failure =
  sf_status :: nat
  sf_retryAfter :: "jstr option"
  sf_body :: fields

definition sdkTokenFailure :: "http_answer \<Rightarrow> jstr \<Rightarrow> nat \<Rightarrow> sdk_failure" where
  "sdkTokenFailure original code status =
     (let known = (if in_descriptions code then code else lit ''invalid_request'') in
      \<lparr>sf_status = status, sf_retryAfter = ha_retryAfter original,
       sf_body = (lit ''error'', J_Str known) # given ''error_description'' (description_of known)\<rparr>)"

definition answer_ok :: "http_answer \<Rightarrow> bool" where
  "answer_ok a \<longleftrightarrow> 200 \<le> ha_status a \<and> ha_status a < 300"

definition answer_redirects :: "http_answer \<Rightarrow> bool" where
  "answer_redirects a \<longleftrightarrow> 300 \<le> ha_status a \<and> ha_status a < 400"

text \<open>
  What the platform's \<^verbatim>\<open>Response.json\<close> refuses to build: a status out of range, or one that may not have
  a body. \<open>None\<close> is the error it throws.
\<close>

definition json_response :: "sdk_failure \<Rightarrow> sdk_failure option" where
  "json_response f =
     (if sf_status f < 200 \<or> 599 < sf_status f \<or> sf_status f \<in> {204, 205, 304} then None else Some f)"

text \<open>
  \<^verbatim>\<open>sdkSafeTokenResponse\<close>: the accepted tokens, for which the caller's hook runs before the original answer
  is returned, or the rebuilt failure; \<open>None\<close> where rebuilding throws.
\<close>

definition sdkSafeTokenResponse :: "http_answer \<Rightarrow> (sdk_failure + fields) option" where
  "sdkSafeTokenResponse a =
     (let failed = (\<lambda>code status. map_option Inl (json_response (sdkTokenFailure a code status))) in
      if answer_redirects a then failed (lit ''invalid_request'') 400
      else case readRefreshResponse a of
             Inl _ \<Rightarrow> failed (lit ''server_error'') (ha_status a)
           | Inr body \<Rightarrow>
               (case (answer_ok a, sdkAcceptsOAuthTokens body) of
                  (True, Some tokens) \<Rightarrow> Some (Inr tokens)
                | _ \<Rightarrow> failed (case oauthErrorCode body of Some c \<Rightarrow> c | None \<Rightarrow> lit ''server_error'') (ha_status a)))"

section \<open>What settles a refresh\<close>

datatype refresh_outcome = Refresh_Failed sdk_failure | Refresh_Tokens fields

definition has_token_field :: "json option \<Rightarrow> bool" where
  "has_token_field body =
     (case plainObject body of Some fs \<Rightarrow> field fs ''access_token'' \<noteq> None \<or> field fs ''refresh_token'' \<noteq> None | None \<Rightarrow> False)"

definition client_refusal :: "jstr option \<Rightarrow> jstr" where
  "client_refusal code =
     (case code of
        Some c \<Rightarrow> if c = lit ''invalid_client'' \<or> c = lit ''unauthorized_client'' then c else lit ''invalid_grant''
      | None \<Rightarrow> lit ''invalid_grant'')"

text \<open>\<open>None\<close> where the classification throws: the answer does not say what became of the refresh token.\<close>

definition refreshResponseOutcome :: "http_answer \<Rightarrow> refresh_outcome option" where
  "refreshResponseOutcome a =
     (if answer_redirects a then Some (Refresh_Failed (sdkTokenFailure a (lit ''invalid_grant'') 400))
      else if \<not> answer_ok a then
        (case readRefreshResponse a of
           Inl Syntax_Error \<Rightarrow> Some (Refresh_Failed (sdkTokenFailure a (client_refusal None) 400))
         | Inl _ \<Rightarrow> None
         | Inr body \<Rightarrow>
             if has_token_field body then None
             else Some (Refresh_Failed (sdkTokenFailure a (client_refusal (oauthErrorCode body)) 400)))
      else
        (case readRefreshResponse a of
           Inl _ \<Rightarrow> None
         | Inr body \<Rightarrow>
             (case sdkAcceptsOAuthTokens body of
                Some fs \<Rightarrow> Some (Refresh_Tokens (without_field ''issuer'' fs))
              | None \<Rightarrow>
                  if oauthErrorCode body \<noteq> None then Some (Refresh_Failed (sdkTokenFailure a (lit ''invalid_grant'') 400))
                  else None)))"

text \<open>An answer that settles the fate of the refresh token it answers.\<close>

definition definitive :: "http_answer \<Rightarrow> bool" where
  "definitive a \<longleftrightarrow> refreshResponseOutcome a \<noteq> None"

section \<open>Properties\<close>

definition error_code :: "sdk_failure \<Rightarrow> jstr option" where
  "error_code f = string_of (field (sf_body f) ''error'')"

lemma failure_code: "error_code (sdkTokenFailure a code status) = Some (if in_descriptions code then code else lit ''invalid_request'')"
  by (simp add: error_code_def sdkTokenFailure_def Let_def)

lemma failure_status [simp]: "sf_status (sdkTokenFailure a code status) = status"
  by (simp add: sdkTokenFailure_def Let_def)

lemma registered_known: "lit c \<in> lit ` fst ` set SDK_TOKEN_ERROR_DESCRIPTIONS \<Longrightarrow> in_descriptions (lit c)"
  by (simp add: in_descriptions_def registered_code_def)

text \<open>
  C23. A refresh that the token endpoint refused is reported to the SDK as a client error 400 with one of three codes,
  \<^verbatim>\<open>invalid_grant\<close>, \<^verbatim>\<open>invalid_client\<close> or \<^verbatim>\<open>unauthorized_client\<close>, whatever the
  endpoint sent; and an answer whose body was lost or too long to read settles nothing, whatever its status but a
  redirect's.
\<close>

theorem refresh_refusal_codes:
  "(\<forall>f. refreshResponseOutcome a = Some (Refresh_Failed f) \<longrightarrow> sf_status f = 400 \<and>
      error_code f \<in> {Some (lit ''invalid_grant''), Some (lit ''invalid_client''), Some (lit ''unauthorized_client'')}) \<and>
   (ha_body a \<in> {Body_Lost, Body_Oversized} \<and> \<not> answer_redirects a \<longrightarrow> refreshResponseOutcome a = None)"
proof -
  have "in_descriptions (lit ''invalid_grant'')" "in_descriptions (lit ''invalid_client'')" "in_descriptions (lit ''unauthorized_client'')"
    by (rule registered_known, simp add: SDK_TOKEN_ERROR_DESCRIPTIONS_def)+
  moreover have "client_refusal c \<in> {lit ''invalid_grant'', lit ''invalid_client'', lit ''unauthorized_client''}" for c
    by (auto simp: client_refusal_def split: option.split)
  moreover from calculation have "in_descriptions (client_refusal c)" for c by (metis insertE singletonD)
  ultimately have codes: "error_code (sdkTokenFailure a (lit ''invalid_grant'') 400) = Some (lit ''invalid_grant'')"
    "error_code (sdkTokenFailure a (client_refusal c) 400) \<in> {Some (lit ''invalid_grant''), Some (lit ''invalid_client''), Some (lit ''unauthorized_client'')}" for c
    unfolding failure_code by auto
  show ?thesis
    using codes(1) codes(2)
    by (auto simp: refreshResponseOutcome_def readRefreshResponse_def split: option.splits sum.splits read_failure.splits if_splits body_read.splits)
qed

theorem refresh_refusal_codes_witness:
  "\<exists>f. refreshResponseOutcome \<lparr>ha_status = 503, ha_retryAfter = None, ha_body = No_Body\<rparr> = Some (Refresh_Failed f) \<and>
     sf_status f = 400 \<and>
     error_code f \<in> {Some (lit ''invalid_grant''), Some (lit ''invalid_client''), Some (lit ''unauthorized_client'')} \<and>
     refreshResponseOutcome \<lparr>ha_status = 200, ha_retryAfter = None, ha_body = Body_Lost\<rparr> = None"
proof -
  let ?a = "\<lparr>ha_status = 503, ha_retryAfter = None, ha_body = No_Body\<rparr> :: http_answer"
  have "refreshResponseOutcome ?a = Some (Refresh_Failed (sdkTokenFailure ?a (lit ''invalid_grant'') 400))"
    by (simp add: refreshResponseOutcome_def readRefreshResponse_def answer_redirects_def answer_ok_def has_token_field_def
        client_refusal_def oauthErrorCode_def plainObject_def)
  then show ?thesis
    using refresh_refusal_codes [of ?a]
      refresh_refusal_codes [of "\<lparr>ha_status = 200, ha_retryAfter = None, ha_body = Body_Lost\<rparr>"]
    by (simp add: answer_redirects_def)
qed

text \<open>
  C40. What the SDK sees of a failed code exchange is a known code: the failure \<^verbatim>\<open>sdkSafeTokenResponse\<close> builds
  has an error code of the registered set, or one of the names every object inherits, which the operator
  \<^verbatim>\<open>in\<close> finds too: an endpoint that answers with the code \<^verbatim>\<open>toString\<close> gets it through. An answer with the
  status 204 gets no failure at all, since the platform builds no response with a body at that status.
\<close>

theorem sdk_failure_codes:
  "(\<forall>f. sdkSafeTokenResponse a = Some (Inl f) \<longrightarrow>
      (\<exists>c. error_code f = Some c \<and> (registered_code c \<or> c \<in> lit ` set inherited_names))) \<and>
   \<not> registered_code (lit ''toString'') \<and>
   (\<exists>f. sdkSafeTokenResponse \<lparr>ha_status = 400, ha_retryAfter = None,
        ha_body = Body_Text (json_text (J_Obj [(lit ''error'', J_Str (lit ''toString''))]))\<rparr> = Some (Inl f) \<and>
      error_code f = Some (lit ''toString'')) \<and>
   sdkSafeTokenResponse \<lparr>ha_status = 204, ha_retryAfter = None, ha_body = No_Body\<rparr> = None"
proof -
  have "in_descriptions (lit ''invalid_request'')" by (rule registered_known) (simp add: SDK_TOKEN_ERROR_DESCRIPTIONS_def)
  then have known: "\<exists>c. error_code (sdkTokenFailure a code status) = Some c \<and> (registered_code c \<or> c \<in> lit ` set inherited_names)"
    for code status by (auto simp: failure_code in_descriptions_def)
  have "in_descriptions (lit ''toString'')" by (simp add: in_descriptions_def inherited_names_def)
  moreover have "json_parse (json_text (J_Obj [(lit ''error'', J_Str (lit ''toString''))])) = Some (J_Obj [(lit ''error'', J_Str (lit ''toString''))])"
    by (rule json_roundtrip) (simp add: lit_def)
  moreover have "sdkAcceptsOAuthTokens (Some (J_Obj [(lit ''error'', J_Str (lit ''toString''))])) = None"
    by (simp add: sdkAcceptsOAuthTokens_def plainObject_def)
  ultimately have "\<exists>f. sdkSafeTokenResponse \<lparr>ha_status = 400, ha_retryAfter = None,
        ha_body = Body_Text (json_text (J_Obj [(lit ''error'', J_Str (lit ''toString''))]))\<rparr> = Some (Inl f) \<and>
      error_code f = Some (lit ''toString'')"
    by (simp add: sdkSafeTokenResponse_def answer_redirects_def answer_ok_def readRefreshResponse_def failure_code oauthErrorCode_def plainObject_def
        json_response_def del: json_text.simps)
  moreover have "\<not> registered_code (lit ''toString'')"
    by (simp add: registered_code_def SDK_TOKEN_ERROR_DESCRIPTIONS_def)
  moreover have "sdkSafeTokenResponse \<lparr>ha_status = 204, ha_retryAfter = None, ha_body = No_Body\<rparr> = None"
    by (simp add: sdkSafeTokenResponse_def answer_redirects_def answer_ok_def readRefreshResponse_def sdkAcceptsOAuthTokens_def
        plainObject_def json_response_def)
  moreover have "\<exists>code status. f = sdkTokenFailure a code status" if "sdkSafeTokenResponse a = Some (Inl f)" for f
    using that unfolding sdkSafeTokenResponse_def json_response_def Let_def
    by (auto split: sum.splits option.splits if_splits bool.splits)
  ultimately show ?thesis using known by fast
qed

theorem sdk_failure_codes_witness:
  "\<exists>f c. sdkSafeTokenResponse \<lparr>ha_status = 500, ha_retryAfter = None, ha_body = Body_Lost\<rparr> = Some (Inl f) \<and>
     error_code f = Some c \<and> (registered_code c \<or> c \<in> lit ` set inherited_names)"
proof -
  let ?a = "\<lparr>ha_status = 500, ha_retryAfter = None, ha_body = Body_Lost\<rparr> :: http_answer"
  have "sdkSafeTokenResponse ?a = Some (Inl (sdkTokenFailure ?a (lit ''server_error'') 500))"
    by (simp add: sdkSafeTokenResponse_def readRefreshResponse_def answer_redirects_def json_response_def)
  then show ?thesis using sdk_failure_codes [of ?a] by auto
qed

end
