(* ===== verification/OAuth_Refresh.thy ===== *)
theory OAuth_Refresh
  imports Token_Response
begin

text \<open>
  Redeeming a refresh token once (\<^verbatim>\<open>auth/downstream-oauth/refresh-records.ts\<close> and \<^verbatim>\<open>redeem\<close>
  of \<^verbatim>\<open>auth/downstream-oauth/refresh-coordinator.ts\<close>): the lease and the spent record in shared storage,
  the claim with its polls, the dispatch, the release, the commit of new tokens and the refusal of a dead grant. The main
  theorem is about any number of such programs over one store: a refresh token is sent again only after an answer that
  settled its previous send.
\<close>

section \<open>Records\<close>

record refresh_lease =
  rl_spentKey :: jstr
  rl_spentExpected :: "jstr option"
  rl_spentRaw :: "jstr option"
  rl_key :: jstr
  rl_raw :: jstr

datatype flight_outcome = Flight_Refreshed fields | Flight_Retired | Flight_Failed oauth_error "refresh_failure option"

text \<open>The variables of one \<^verbatim>\<open>redeem\<close>, beside the provider's fields.\<close>

record redeemer = provider +
  rd_lease :: refresh_lease
  rd_dispatched :: bool
  rd_issuedAt :: int
  rd_settled :: "flight_outcome option"

text \<open>What the SDK is answered: tokens without their issuer, a fixed refusal, or the rebuilt failure.\<close>

datatype refresh_response = Tokens_Response fields | Invalid_Grant_Response | Failure_Response sdk_failure

definition OAUTH_REFRESH_LEASE_SECONDS :: int where
  "OAUTH_REFRESH_LEASE_SECONDS = 120"

definition spent_states :: "fields \<Rightarrow> bool" where
  "spent_states fs \<longleftrightarrow>
     field fs ''state'' = Some (J_Str (lit ''outstanding'')) \<or> field fs ''state'' = Some (J_Str (lit ''ambiguous'')) \<or>
     (field fs ''state'' = Some (J_Str (lit ''resolved'')) \<and> finite_number (field fs ''resolvedAt'') \<noteq> None)"

definition storedRefreshSpent :: "jstr option \<Rightarrow> fields option" where
  "storedRefreshSpent raw =
     (case plainObject (Option.bind raw parsed) of
        None \<Rightarrow> None
      | Some fs \<Rightarrow>
          if finite_number (field fs ''connectaOAuthRefreshSpent'') = Some 1 \<and>
             string_of (field fs ''epoch'') \<noteq> None \<and> string_of (field fs ''holder'') \<noteq> None \<and>
             string_of (field fs ''activeKey'') \<noteq> None \<and> spent_states fs
          then Some fs else None)"

definition in_state :: "fields \<Rightarrow> string \<Rightarrow> bool" where
  "in_state fs s \<longleftrightarrow> field fs ''state'' = Some (J_Str (lit s))"

definition requested_json :: "jstr option \<Rightarrow> json" where
  "requested_json requested = (case requested of None \<Rightarrow> J_Null | Some t \<Rightarrow> J_Str t)"

text \<open>\<^verbatim>\<open>tokens?.refresh_token === requested\<close>.\<close>

definition holds_token :: "fields option \<Rightarrow> jstr option \<Rightarrow> bool" where
  "holds_token tokens requested \<longleftrightarrow> Option.bind tokens (\<lambda>t. field t ''refresh_token'') = Some (requested_json requested)"

definition tokenResponse :: "fields \<Rightarrow> refresh_response" where
  "tokenResponse tokens = Tokens_Response (without_field ''issuer'' tokens)"

definition refreshTokensDigest :: "oauth_env \<Rightarrow> fields \<Rightarrow> jstr" where
  "refreshTokensDigest env tokens = en_digest env (json_text (J_Obj (en_localeSorted env (without_field ''issuer'' tokens))))"

definition refreshedSinceRead :: "'z provider_scheme \<Rightarrow> fields \<Rightarrow> jstr \<Rightarrow> bool" where
  "refreshedSinceRead pv current epoch =
     (case pv_refreshBasis pv of
        Some basis \<Rightarrow> rb_epoch basis = epoch \<and> Some (rb_accessToken basis) \<noteq> field current ''access_token''
      | None \<Rightarrow> False)"

definition refreshIssuer :: "'z provider_scheme \<Rightarrow> jstr \<Rightarrow> jstr option" where
  "refreshIssuer pv epoch =
     (case pv_refreshBasis pv of Some basis \<Rightarrow> if rb_epoch basis = epoch then Some (rb_issuer basis) else None | None \<Rightarrow> None)"

definition recordRefreshFailure :: "refresh_failure option \<Rightarrow> ('z, unit) oauth" where
  "recordRefreshFailure x = modify (\<lambda>pv. pv\<lparr>pv_refreshFailure := x\<rparr>)"

definition refreshContended :: "('z, 'a) oauth" where
  "refreshContended = after (recordRefreshFailure (Some Contended)) (\<lambda>_. Throw Refresh_Contended_Error)"

definition adoptRefresh :: "fields \<Rightarrow> ('z, refresh_response) oauth" where
  "adoptRefresh tokens =
     after (modify (\<lambda>pv. pv\<lparr>pv_storedRefresh := field tokens ''access_token''\<rparr>)) (\<lambda>_. Ret (tokenResponse tokens))"

text \<open>\<^verbatim>\<open>RefreshWait.run\<close> of the shared wait, and a write submitted under \<^verbatim>\<open>transfer\<close>.\<close>

definition waiting_run :: "('l, oauth_error, 'a) prog \<Rightarrow> ('l, oauth_error, 'a) prog" where
  "waiting_run p = wait_run Waiting_Signal (Aborted Waiting_Signal) p"

definition transferred :: "('l, oauth_error, 'a) prog \<Rightarrow> ('l, oauth_error, 'a) prog" where
  "transferred p = waiting_run (after (check_signal Waiting_Signal (Aborted Waiting_Signal)) (\<lambda>_. p))"

section \<open>Tokens in the grant\<close>

definition storedTokens :: "oauth_env \<Rightarrow> abort_signal option \<Rightarrow> ('z, fields option) oauth" where
  "storedTokens env sig = after (boundGrant env sig) (\<lambda>gr. Ret (body_tokens (gr_body gr)))"

definition rotated_body :: "fields \<Rightarrow> fields \<Rightarrow> int \<Rightarrow> fields" where
  "rotated_body body committed issuedAt =
     with_expiry (tokenExpiry committed issuedAt) (with_field ''tokens'' (J_Obj committed) (without_field ''expiresAt'' body))"

text \<open>
  One attempt of \<^verbatim>\<open>storeRefresh\<close>; \<open>None\<close> when another writer won. What it throws is swallowed, and
  the loop reads and tries again.
\<close>

definition store_attempt ::
    "oauth_env \<Rightarrow> jstr \<Rightarrow> jstr option \<Rightarrow> fields \<Rightarrow> jstr option \<Rightarrow> int \<Rightarrow> ('z, fields option option) oauth" where
  "store_attempt env epoch requested tokens issuer issuedAt =
     after (readGrant env None) (\<lambda>(raw, gr).
     if gr_epoch gr \<noteq> epoch \<or> (issuer \<noteq> None \<and> body_issuer (gr_body gr) \<noteq> issuer) then Ret (Some None)
     else if \<not> holds_token (body_tokens (gr_body gr)) requested then Ret (Some (body_tokens (gr_body gr)))
     else
       let committed = (case issuer of Some i \<Rightarrow> with_field ''issuer'' (J_Str i) tokens | None \<Rightarrow> tokens) in
       after (of_sum (nextTokenGrant gr (rotated_body (gr_body gr) committed issuedAt))) (\<lambda>next.
       after (encodeGrant env None next) (\<lambda>encoded.
       after (storage_cas GRANT raw (Some encoded)) (\<lambda>written.
       if written then after (modify (observe next)) (\<lambda>_. Ret (Some (Some committed))) else Ret None))))"

primrec store_attempts ::
    "oauth_env \<Rightarrow> jstr \<Rightarrow> jstr option \<Rightarrow> fields \<Rightarrow> jstr option \<Rightarrow> int \<Rightarrow> nat \<Rightarrow> ('z, fields option) oauth" where
  "store_attempts env epoch requested tokens issuer issuedAt 0 = Throw Credential_Write_Error"
| "store_attempts env epoch requested tokens issuer issuedAt (Suc n) =
     after (attempt (store_attempt env epoch requested tokens issuer issuedAt) (\<lambda>_. Ret None)) (\<lambda>r.
     case r of Some committed \<Rightarrow> Ret committed | None \<Rightarrow> store_attempts env epoch requested tokens issuer issuedAt n)"

definition storeRefresh ::
    "oauth_env \<Rightarrow> jstr \<Rightarrow> jstr option \<Rightarrow> fields \<Rightarrow> jstr option \<Rightarrow> int \<Rightarrow> ('z, fields option) oauth" where
  "storeRefresh env epoch requested tokens issuer issuedAt =
     store_attempts env epoch requested tokens issuer issuedAt MAX_GRANT_WRITES"

text \<open>\<open>shared\<close> when called from the claim, with its wait as \<^verbatim>\<open>beforeWrite\<close> and \<^verbatim>\<open>signal\<close>.\<close>

definition discardRefusedGrant :: "oauth_env \<Rightarrow> jstr option \<Rightarrow> jstr \<Rightarrow> bool \<Rightarrow> ('z, unit) oauth" where
  "discardRefusedGrant env refreshToken epoch shared =
     attempt
       (after (updateGrant env
           (\<lambda>gr. Ret (if \<not> holds_token (body_tokens (gr_body gr)) refreshToken then None
              else Some (gr\<lparr>gr_body := without_field ''expiresAt'' (without_field ''tokens'' (gr_body gr))\<rparr>)))
           \<lparr>uo_epoch = Some epoch, uo_quiet = True, uo_commit = True, uo_transfer = shared,
            uo_signal = (if shared then Some Waiting_Signal else None)\<rparr>) (\<lambda>_. Ret ()))
       (\<lambda>_. Ret ())"

section \<open>Release\<close>

datatype resolution = Resolved | Ambiguous

definition resolution_name :: "resolution \<Rightarrow> jstr" where
  "resolution_name r = (case r of Resolved \<Rightarrow> lit ''resolved'' | Ambiguous \<Rightarrow> lit ''ambiguous'')"

text \<open>The properties of a lease's text.\<close>

definition lease_fields :: "jstr \<Rightarrow> fields" where
  "lease_fields raw = (case plainObject (parsed raw) of Some fs \<Rightarrow> fs | None \<Rightarrow> [])"

definition settled_spent :: "resolution \<Rightarrow> int \<Rightarrow> fields \<Rightarrow> fields" where
  "settled_spent state now spent =
     (let named = with_field ''state'' (J_Str (resolution_name state)) spent
      in if state = Resolved then with_field ''resolvedAt'' (whole now) named else named)"

definition resolveRefreshSpent :: "refresh_lease \<Rightarrow> resolution \<Rightarrow> ('z, unit) oauth" where
  "resolveRefreshSpent lease state =
     attempt
       (after (case rl_spentRaw lease of Some s \<Rightarrow> Ret (Some s) | None \<Rightarrow> storage_get (rl_spentKey lease)) (\<lambda>raw.
        case storedRefreshSpent raw of
          None \<Rightarrow> Ret ()
        | Some spent \<Rightarrow>
            if \<not> in_state spent ''outstanding'' \<or> field spent ''holder'' \<noteq> field (lease_fields (rl_raw lease)) ''holder'' then Ret ()
            else Clock (\<lambda>now.
              after (storage_cas (rl_spentKey lease) raw (Some (json_text (J_Obj (settled_spent state now spent))))) (\<lambda>_. Ret ()))))
       (\<lambda>_. Ret ())"

definition truthy :: "json option \<Rightarrow> bool" where
  "truthy v \<longleftrightarrow> string_of v \<noteq> None \<and> string_of v \<noteq> Some []"

text \<open>The next text of a released lease; nothing removes it.\<close>

definition released_lease :: "oauth_env \<Rightarrow> fields \<Rightarrow> fields option \<Rightarrow> jstr option" where
  "released_lease env stored tokens =
     (if in_state stored ''claimed'' then
        (case (truthy (field stored ''predecessor''), truthy (field stored ''tokenDigest''), field stored ''predecessor'') of
           (True, True, Some p) \<Rightarrow>
             Some (json_text (J_Obj (with_field ''completed'' (J_Bool True)
               (with_field ''state'' (J_Str (lit ''dispatched'')) (with_field ''holder'' p stored)))))
         | _ \<Rightarrow> None)
      else
        Some (json_text (J_Obj (case tokens of
           Some t \<Rightarrow> with_field ''tokenDigest'' (J_Str (refreshTokensDigest env t)) (with_field ''completed'' (J_Bool True) stored)
         | None \<Rightarrow> with_field ''verdict'' (J_Obj [(lit ''kind'', J_Str (lit ''dead''))]) stored))))"

definition releaseRefresh ::
    "oauth_env \<Rightarrow> refresh_lease \<Rightarrow> refresh_failure option \<Rightarrow> fields option \<Rightarrow> resolution \<Rightarrow> ('z, unit) oauth" where
  "releaseRefresh env lease verdict tokens state =
     (let stored = lease_fields (rl_raw lease) in
      after (case verdict of Some x \<Rightarrow> recordRefreshFailure (Some x) | None \<Rightarrow> Ret ()) (\<lambda>_.
      after (resolveRefreshSpent lease state) (\<lambda>_.
      after (attempt (storage_cas (rl_key lease) (Some (rl_raw lease)) (released_lease env stored tokens)) (\<lambda>_. Ret False)) (\<lambda>released.
      case (released \<and> truthy (field stored ''activeKey''), string_of (field stored ''activeKey'')) of
        (True, Some key) \<Rightarrow> attempt (storage_delete key) (\<lambda>_. Ret ())
      | _ \<Rightarrow> Ret ()))))"

section \<open>The claim\<close>

datatype claim = Claim_Answer refresh_response | Claim_Lease refresh_lease

text \<open>
  What one poll reads: the lease first, then the grant, the spent record and the liveness key a previous poll named. A
  store that reads them in one batch shows fewer interleavings.
\<close>

record polled =
  po_lease :: "jstr option"
  po_grant :: grant
  po_spent :: "jstr option"
  po_active :: "jstr option"

definition poll :: "oauth_env \<Rightarrow> jstr \<Rightarrow> jstr \<Rightarrow> jstr option \<Rightarrow> ('z, polled) oauth" where
  "poll env key spentKey activeKey = waiting_run
     (after (storage_get key) (\<lambda>lease.
      after (storage_get GRANT) (\<lambda>raw.
      after (storage_get spentKey) (\<lambda>spent.
      after (case activeKey of Some k \<Rightarrow> storage_get k | None \<Rightarrow> Ret None) (\<lambda>active.
      after (openGrant env (Some Waiting_Signal) raw) (\<lambda>gr.
      Peek (\<lambda>pv. if pv_bound pv \<and> Some (gr_epoch gr) \<noteq> pv_epoch pv then Throw Flow_Superseded
        else Ret \<lparr>po_lease = lease, po_grant = gr, po_spent = spent, po_active = active\<rparr>)))))))"

definition dead_end :: "oauth_env \<Rightarrow> jstr option \<Rightarrow> jstr \<Rightarrow> string \<Rightarrow> ('z, 'a) oauth" where
  "dead_end env requested epoch message =
     after (recordRefreshFailure (Some Dead)) (\<lambda>_.
     after (waiting_run (discardRefusedGrant env requested epoch True)) (\<lambda>_. Throw (Unauthorized message)))"

text \<open>Whether the tokens a lease proves committed are the stored ones, \<^verbatim>\<open>committed\<close>.\<close>

definition proof_lease :: "fields \<Rightarrow> bool" where
  "proof_lease stored \<longleftrightarrow>
     field stored ''completed'' = Some (J_Bool True) \<or>
     (in_state stored ''claimed'' \<and> string_of (field stored ''predecessor'') \<noteq> None)"

definition lease_committed :: "oauth_env \<Rightarrow> fields option \<Rightarrow> fields \<Rightarrow> ('z, bool) oauth" where
  "lease_committed env stored current =
     (case stored of
        Some fs \<Rightarrow>
          if proof_lease fs then
            after (waiting_run (Ret (refreshTokensDigest env current))) (\<lambda>d. Ret (field fs ''tokenDigest'' = Some (J_Str d)))
          else Ret False
      | None \<Rightarrow> Ret False)"

definition is_completed :: "fields option \<Rightarrow> bool" where
  "is_completed stored = (case stored of Some fs \<Rightarrow> field fs ''completed'' = Some (J_Bool True) | None \<Rightarrow> False)"

text \<open>Whether a resolved spent record lets this claim send again.\<close>

definition may_respend ::
    "jstr \<Rightarrow> jstr \<Rightarrow> fields option \<Rightarrow> bool \<Rightarrow> fields \<Rightarrow> jstr \<Rightarrow> bool" where
  "may_respend epoch digest stored committed body spentExpected =
     (case storedRefreshSpent (Some spentExpected) of
        None \<Rightarrow> False
      | Some spent \<Rightarrow>
          in_state spent ''resolved'' \<and>
          ((committed \<and> field spent ''epoch'' = Some (J_Str epoch) \<and>
            (case stored of
               Some fs \<Rightarrow> field spent ''holder'' = field fs (if is_completed stored then ''holder'' else ''predecessor'')
             | None \<Rightarrow> False)) \<or>
           (field spent ''epoch'' \<noteq> Some (J_Str epoch) \<and>
            (case plainObject (field body ''refreshConsent'') of
               Some c \<Rightarrow> field c ''digest'' = Some (J_Str digest) \<and> field c ''resolution'' = Some (J_Str spentExpected)
             | None \<Rightarrow> False))))"

text \<open>A number that is at most \<open>now\<close>; a token below every double is minus infinity.\<close>

definition expired_by :: "json option \<Rightarrow> int \<Rightarrow> bool" where
  "expired_by v now =
     (case v of
        Some (J_Num t) \<Rightarrow> (case token_number t of Finite q \<Rightarrow> q \<le> of_int now | Non_Finite \<Rightarrow> starts_with t [0x2d])
      | _ \<Rightarrow> False)"

definition claimed_lease :: "jstr \<Rightarrow> int \<Rightarrow> fields option \<Rightarrow> bool \<Rightarrow> fields" where
  "claimed_lease holder now stored committed =
     (let fs = (case stored of Some fs \<Rightarrow> fs | None \<Rightarrow> []);
          predecessor = (if committed \<and> is_completed stored then field fs ''holder'' else field fs ''predecessor'')
      in [(lit ''connectaOAuthRefresh'', whole 1), (lit ''holder'', J_Str holder), (lit ''state'', J_Str (lit ''claimed'')),
          (lit ''expiresAt'', whole (now + OAUTH_REFRESH_LEASE_SECONDS * 1000))] @
         (case (committed, string_of predecessor, string_of (field fs ''tokenDigest'')) of
            (True, Some p, Some d) \<Rightarrow> [(lit ''predecessor'', J_Str p), (lit ''tokenDigest'', J_Str d)]
          | _ \<Rightarrow> []))"

text \<open>
  The won claim: the stored tokens are read once more, and a claim that lost its reason is released.
\<close>

definition claim_won :: "oauth_env \<Rightarrow> jstr \<Rightarrow> jstr option \<Rightarrow> refresh_lease \<Rightarrow> ('z, claim) oauth" where
  "claim_won env epoch requested lease =
     attempt
       (after (waiting_run (storedTokens env (Some Waiting_Signal))) (\<lambda>latest.
        Peek (\<lambda>pv.
        if \<not> holds_token latest requested \<or> (case latest of Some t \<Rightarrow> refreshedSinceRead pv t epoch | None \<Rightarrow> False) then
          after (waiting_run (releaseRefresh env lease None None Ambiguous)) (\<lambda>_.
          case latest of
            Some t \<Rightarrow> after (adoptRefresh t) (\<lambda>r. Ret (Claim_Answer r))
          | None \<Rightarrow> Ret (Claim_Answer Invalid_Grant_Response))
        else Ret (Claim_Lease lease))))
       (\<lambda>e. Halted Waiting_Signal (\<lambda>gone.
          if gone then Throw e
          else after (waiting_run (releaseRefresh env lease None None Ambiguous)) (\<lambda>_. Throw e)))"

text \<open>A token that was already spent: the record is at most blurred.\<close>

definition already_spent ::
    "oauth_env \<Rightarrow> jstr \<Rightarrow> jstr option \<Rightarrow> jstr \<Rightarrow> jstr \<Rightarrow> polled \<Rightarrow> ('z, claim option) oauth" where
  "already_spent env epoch requested key spentKey polled =
     after (waiting_run (storage_get key)) (\<lambda>latestLease.
     if latestLease \<noteq> po_lease polled then Ret None
     else
       after (case storedRefreshSpent (po_spent polled) of
                Some spent \<Rightarrow>
                  if in_state spent ''outstanding'' then
                    after (waiting_run (storage_get (case string_of (field spent ''activeKey'') of Some k \<Rightarrow> k | None \<Rightarrow> []))) (\<lambda>active.
                    if active = None then
                      after (transferred (storage_cas spentKey (po_spent polled)
                        (Some (json_text (J_Obj (with_field ''state'' (J_Str (lit ''ambiguous'')) spent)))))) (\<lambda>_. Ret ())
                    else Ret ())
                  else Ret ()
              | None \<Rightarrow> Ret ()) (\<lambda>_.
       dead_end env requested epoch ''OAuth refresh token was already spent; authorization required.''))"

text \<open>
  One round of the loop of \<^verbatim>\<open>claimRefresh\<close>: a result, or the liveness key to read with the next poll. The
  sleep between rounds has no effect of its own.
\<close>

definition claim_unsent ::
    "oauth_env \<Rightarrow> jstr \<Rightarrow> jstr option \<Rightarrow> jstr \<Rightarrow> jstr \<Rightarrow> polled \<Rightarrow> fields option \<Rightarrow> bool \<Rightarrow> ('z, claim option) oauth" where
  "claim_unsent env epoch requested key spentKey polled stored committed =
     (let raw = po_lease polled; spentExpected = po_spent polled; completed = committed \<and> is_completed stored;
          digest = en_digest env (case requested of Some t \<Rightarrow> t | None \<Rightarrow> [])
      in
      if (case spentExpected of
            Some s \<Rightarrow> \<not> may_respend epoch digest stored committed (gr_body (po_grant polled)) s
          | None \<Rightarrow> False) then
        already_spent env epoch requested key spentKey polled
      else
        Clock (\<lambda>now.
        if raw = None \<or> completed \<or> (case stored of Some fs \<Rightarrow> expired_by (field fs ''expiresAt'') now | None \<Rightarrow> False) then
          Uuid (\<lambda>holder. Clock (\<lambda>now.
          let text = json_text (J_Obj (claimed_lease holder now stored committed));
              lease = \<lparr>rl_spentKey = spentKey, rl_spentExpected = spentExpected, rl_spentRaw = None, rl_key = key, rl_raw = text\<rparr>
          in after (attempt (transferred (storage_cas key raw (Some text))) (\<lambda>_. Throw Credential_Write_Error)) (\<lambda>won.
             if won then after (claim_won env epoch requested lease) (\<lambda>c. Ret (Some c)) else Ret None)))
        else Ret None))"

definition claim_sent ::
    "oauth_env \<Rightarrow> jstr \<Rightarrow> jstr option \<Rightarrow> jstr \<Rightarrow> jstr \<Rightarrow> polled \<Rightarrow> fields \<Rightarrow> jstr option \<Rightarrow> ('z, unit) oauth" where
  "claim_sent env epoch requested key spentKey polled stored activeKey =
     (let named = string_of (field stored ''activeKey''); raw = po_lease polled in
      after (case named of
               None \<Rightarrow> Ret None
             | Some k \<Rightarrow> if named = activeKey then Ret (po_active polled) else waiting_run (storage_get k)) (\<lambda>active.
      if active \<noteq> None then Ret ()
      else
        after (transferred (storage_cas key raw
          (Some (json_text (J_Obj (with_field ''verdict'' (J_Obj [(lit ''kind'', J_Str (lit ''dead''))]) stored)))))) (\<lambda>won.
        if \<not> won then Ret ()
        else
          after (waiting_run (resolveRefreshSpent
            \<lparr>rl_spentKey = spentKey, rl_spentExpected = None, rl_spentRaw = None, rl_key = key,
             rl_raw = (case raw of Some r \<Rightarrow> r | None \<Rightarrow> [])\<rparr> Ambiguous)) (\<lambda>_.
          dead_end env requested epoch ''OAuth refresh outcome is unknown; authorization required.''))))"

definition claim_judged ::
    "oauth_env \<Rightarrow> jstr \<Rightarrow> jstr option \<Rightarrow> jstr \<Rightarrow> jstr \<Rightarrow> jstr option \<Rightarrow> polled \<Rightarrow> fields option \<Rightarrow> bool \<Rightarrow>
     ('z, claim option \<times> jstr option) oauth" where
  "claim_judged env epoch requested key spentKey activeKey polled stored committed =
     (if (case stored of
            Some fs \<Rightarrow> plainObject (field fs ''verdict'') \<noteq> None \<or> (is_completed stored \<and> \<not> committed)
          | None \<Rightarrow> False) then
        dead_end env requested epoch ''OAuth refresh grant is no longer active.''
      else if (case stored of Some fs \<Rightarrow> \<not> in_state fs ''claimed'' | None \<Rightarrow> False) \<and> \<not> (committed \<and> is_completed stored) then
        after (claim_sent env epoch requested key spentKey polled (the stored) activeKey) (\<lambda>_.
        Ret (None, string_of (field (the stored) ''activeKey'')))
      else
        after (claim_unsent env epoch requested key spentKey polled stored committed) (\<lambda>c. Ret (c, activeKey)))"

definition claim_round ::
    "oauth_env \<Rightarrow> jstr \<Rightarrow> jstr option \<Rightarrow> jstr \<Rightarrow> jstr \<Rightarrow> jstr option \<Rightarrow> ('z, claim option \<times> jstr option) oauth" where
  "claim_round env epoch requested key spentKey activeKey =
     after (poll env key spentKey activeKey) (\<lambda>polled.
     Peek (\<lambda>pv.
     case body_tokens (gr_body (po_grant polled)) of
       None \<Rightarrow> after (recordRefreshFailure (Some Dead)) (\<lambda>_. Ret (Some (Claim_Answer Invalid_Grant_Response), activeKey))
     | Some current \<Rightarrow>
         if \<not> holds_token (Some current) requested \<or> refreshedSinceRead pv current epoch then
           after (adoptRefresh current) (\<lambda>r. Ret (Some (Claim_Answer r), activeKey))
         else
           let stored = Option.bind (po_lease polled) (\<lambda>r. plainObject (parsed r)) in
           after (lease_committed env stored current) (\<lambda>committed.
           claim_judged env epoch requested key spentKey activeKey polled stored committed)))"

primrec claim_rounds ::
    "oauth_env \<Rightarrow> jstr \<Rightarrow> jstr option \<Rightarrow> jstr \<Rightarrow> jstr \<Rightarrow> nat \<Rightarrow> jstr option \<Rightarrow> ('z, claim option) oauth" where
  "claim_rounds env epoch requested key spentKey 0 activeKey = Ret None"
| "claim_rounds env epoch requested key spentKey (Suc n) activeKey =
     Halted Waiting_Signal (\<lambda>gone. if gone then Ret None else
     after (claim_round env epoch requested key spentKey activeKey) (\<lambda>(c, named).
     case c of Some r \<Rightarrow> Ret (Some r) | None \<Rightarrow> claim_rounds env epoch requested key spentKey n named))"

text \<open>
  \<^verbatim>\<open>claimRefresh\<close>. The deadline ends its loop; \<open>rounds\<close> is the number of polls that fit before it.
\<close>

definition claimRefresh :: "oauth_env \<Rightarrow> nat \<Rightarrow> jstr \<Rightarrow> jstr option \<Rightarrow> ('z, claim) oauth" where
  "claimRefresh env rounds epoch requested =
     after
       (attempt
         (after (waiting_run (Ret (en_digest env (case requested of Some t \<Rightarrow> t | None \<Rightarrow> [])))) (\<lambda>digest.
          after (built_key (oauthRefreshKeys_lease epoch digest)) (\<lambda>key.
          after (built_key (oauthRefreshSpentKeys_spent digest)) (\<lambda>spentKey.
          claim_rounds env epoch requested key spentKey rounds None))))
         (\<lambda>e. Halted Waiting_Signal (\<lambda>gone. if gone then Ret None else Throw e)))
       (\<lambda>c. case c of Some r \<Rightarrow> Ret r | None \<Rightarrow> refreshContended)"

section \<open>The dispatch\<close>

type_synonym ('y, 'a) redeeming = "('y redeemer_scheme, oauth_error, 'a) prog"

definition lease_ttl :: set_options where
  "lease_ttl = \<lparr>so_ttlSeconds = Some (Finite (of_int OAUTH_REFRESH_LEASE_SECONDS)), so_expiresAtMs = None\<rparr>"

definition spent_record :: "jstr \<Rightarrow> json \<Rightarrow> jstr \<Rightarrow> fields" where
  "spent_record epoch holder activeKey =
     [(lit ''connectaOAuthRefreshSpent'', whole 1), (lit ''epoch'', J_Str epoch), (lit ''holder'', holder),
      (lit ''activeKey'', J_Str activeKey), (lit ''state'', J_Str (lit ''outstanding''))]"

definition holder_of :: "fields \<Rightarrow> jstr" where
  "holder_of fs = (case string_of (field fs ''holder'') of Some h \<Rightarrow> h | None \<Rightarrow> [])"

text \<open>The callback \<^verbatim>\<open>send\<close> of \<^verbatim>\<open>redeem\<close>: it starts the request's deadline and submits.\<close>

definition send_refresh :: "jstr option \<Rightarrow> ('y, http_answer) redeeming" where
  "send_refresh requested =
     after (check_signal Waiting_Signal (Aborted Waiting_Signal)) (\<lambda>_.
     Clock (\<lambda>now.
     after (modify (\<lambda>r. r\<lparr>rd_dispatched := True, rd_issuedAt := now\<rparr>)) (\<lambda>_.
     Send requested (Await (\<lambda>a. case a of Some x \<Rightarrow> Ret x | None \<Rightarrow> Throw Fetch_Error)))))"

text \<open>From the compare-and-set of the spent record on: only its winner sends.\<close>

definition spend_and_send :: "jstr option \<Rightarrow> refresh_lease \<Rightarrow> jstr \<Rightarrow> ('y, http_answer) redeeming" where
  "spend_and_send requested lease spentRaw =
     after (modify (\<lambda>r. r\<lparr>rd_lease := (rd_lease r)\<lparr>rl_spentRaw := Some spentRaw\<rparr>\<rparr>)) (\<lambda>_.
     after (attempt (waiting_run (storage_cas (rl_spentKey lease) (rl_spentExpected lease) (Some spentRaw)))
         (\<lambda>_. after (recordRefreshFailure (Some Dead)) (\<lambda>_.
            Throw (Unauthorized ''OAuth refresh dispatch could not be recorded; authorization required.'')))) (\<lambda>unspent.
     if \<not> unspent then
       after (recordRefreshFailure (Some Dead)) (\<lambda>_.
       Throw (Unauthorized ''OAuth refresh token was already spent; authorization required.''))
     else
       after (check_signal Waiting_Signal (Aborted Waiting_Signal)) (\<lambda>_.
       send_refresh requested)))"

text \<open>The lease becomes dispatched by compare-and-set; who loses it sends nothing.\<close>

definition mark_and_send :: "jstr option \<Rightarrow> refresh_lease \<Rightarrow> jstr \<Rightarrow> jstr \<Rightarrow> ('y, http_answer) redeeming" where
  "mark_and_send requested lease epoch activeKey =
     (let stored = lease_fields (rl_raw lease);
          dispatched = json_text (J_Obj (with_field ''activeKey'' (J_Str activeKey)
            (with_field ''state'' (J_Str (lit ''dispatched'')) stored)))
      in
      after (waiting_run (storage_cas (rl_key lease) (Some (rl_raw lease)) (Some dispatched))) (\<lambda>won.
      if \<not> won then refreshContended
      else
        after (modify (\<lambda>r. r\<lparr>rd_lease := (rd_lease r)\<lparr>rl_raw := dispatched\<rparr>\<rparr>)) (\<lambda>_.
        after (check_signal Waiting_Signal (Aborted Waiting_Signal)) (\<lambda>_.
        spend_and_send requested lease (json_text (J_Obj (spent_record epoch (J_Str (holder_of stored)) activeKey)))))))"

definition dispatchRefresh :: "oauth_env \<Rightarrow> jstr option \<Rightarrow> ('y, http_answer) redeeming" where
  "dispatchRefresh env requested =
     Peek (\<lambda>r. let lease = rd_lease r in
     after (waiting_run (flowEpoch env)) (\<lambda>epoch.
     after (built_key (oauthRefreshActiveKeys_holder epoch (holder_of (lease_fields (rl_raw lease))))) (\<lambda>activeKey.
     after (waiting_run (storage_set activeKey (json_text (J_Obj [(lit ''connectaOAuthRefresh'', whole 1)])) lease_ttl)) (\<lambda>_.
     mark_and_send requested lease epoch activeKey))))"

section \<open>The redemption\<close>

definition settle_flight :: "flight_outcome \<Rightarrow> ('y, unit) redeeming" where
  "settle_flight x = modify (\<lambda>r. case rd_settled r of None \<Rightarrow> r\<lparr>rd_settled := Some x\<rparr> | Some _ \<Rightarrow> r)"

definition fail_flight :: "oauth_error \<Rightarrow> refresh_failure option \<Rightarrow> ('y, unit) redeeming" where
  "fail_flight e verdict =
     after (case verdict of Some x \<Rightarrow> recordRefreshFailure (Some x) | None \<Rightarrow> Ret ()) (\<lambda>_. settle_flight (Flight_Failed e verdict))"

definition unknownOutcome :: oauth_error where
  "unknownOutcome = Unauthorized ''OAuth refresh outcome is unknown; authorization required.''"

text \<open>One budget for the whole commit phase.\<close>

definition completing :: "('l, oauth_error, 'a) prog \<Rightarrow> ('l, oauth_error, 'a) prog" where
  "completing p =
     attempt (wait_run Completion_Signal (Aborted Completion_Signal) p)
       (\<lambda>e. Halted Completion_Signal (\<lambda>gone. Throw (if gone then unknownOutcome else e)))"

definition releaseLease :: "oauth_env \<Rightarrow> refresh_failure option \<Rightarrow> resolution \<Rightarrow> ('y, unit) redeeming" where
  "releaseLease env verdict state = Peek (\<lambda>r. releaseRefresh env (rd_lease r) verdict None state)"

definition acquire_lease :: "oauth_env \<Rightarrow> nat \<Rightarrow> jstr \<Rightarrow> jstr option \<Rightarrow> ('y, refresh_response + refresh_lease) redeeming" where
  "acquire_lease env rounds epoch requested =
     attempt
       (after (claimRefresh env rounds epoch requested) (\<lambda>c.
        case c of
          Claim_Lease lease \<Rightarrow> Ret (Inr lease)
        | Claim_Answer response \<Rightarrow>
            after (waiting_run (storedTokens env (Some Waiting_Signal))) (\<lambda>tokens.
            after (settle_flight (case tokens of Some t \<Rightarrow> Flight_Refreshed t | None \<Rightarrow> Flight_Retired)) (\<lambda>_.
            Ret (Inl response)))))
       (\<lambda>e. Peek (\<lambda>r. after (fail_flight e (pv_refreshFailure r)) (\<lambda>_. Throw e)))"

text \<open>What follows a dispatch that threw: nothing was sent, or the outcome of a send is not known.\<close>

definition release_unsent :: "oauth_env \<Rightarrow> jstr \<Rightarrow> jstr option \<Rightarrow> ('y, unit) redeeming" where
  "release_unsent env epoch requested =
     after (attempt (waiting_run (releaseLease env None Ambiguous)) (\<lambda>_. Ret ())) (\<lambda>_.
     Peek (\<lambda>r. if pv_refreshFailure r = Some Dead
       then attempt (waiting_run (discardRefusedGrant env requested epoch False)) (\<lambda>_. Ret ()) else Ret ()))"

definition dispatch_failed :: "oauth_env \<Rightarrow> jstr \<Rightarrow> jstr option \<Rightarrow> oauth_error \<Rightarrow> ('y, 'a) redeeming" where
  "dispatch_failed env epoch requested e =
     Peek (\<lambda>r.
     if \<not> rd_dispatched r then
       Halted Waiting_Signal (\<lambda>gone.
       after (if gone then Ret () else release_unsent env epoch requested) (\<lambda>_.
       Halted Waiting_Signal (\<lambda>gone.
       after (if gone then recordRefreshFailure (Some Contended) else Ret ()) (\<lambda>_.
       let failure = (if gone then Refresh_Contended_Error else e) in
       Peek (\<lambda>r. after (fail_flight failure (pv_refreshFailure r)) (\<lambda>_. Throw failure))))))
     else
       after (completing
         (after (releaseLease env (Some Dead) Ambiguous) (\<lambda>_. discardRefusedGrant env requested epoch False))) (\<lambda>_.
       after (fail_flight unknownOutcome (Some Dead)) (\<lambda>_. Throw unknownOutcome)))"

definition dispatch_and_read :: "oauth_env \<Rightarrow> jstr option \<Rightarrow> ('y, refresh_outcome) redeeming" where
  "dispatch_and_read env requested =
     after (interruptible Waiting_Signal (Aborted Waiting_Signal)
         (after (dispatchRefresh env requested) (\<lambda>response.
          after (check_signal Waiting_Signal (Aborted Waiting_Signal)) (\<lambda>_.
          case refreshResponseOutcome response of Some x \<Rightarrow> Ret x | None \<Rightarrow> Throw Response_Unclassified)))) (\<lambda>outcome.
     after (check_signal Waiting_Signal (Aborted Waiting_Signal)) (\<lambda>_. Ret outcome))"

definition accepted_tokens :: "fields \<Rightarrow> jstr option \<Rightarrow> fields" where
  "accepted_tokens tokens requested =
     (case (field tokens ''refresh_token'', requested) of
        (None, Some t) \<Rightarrow> with_field ''refresh_token'' (J_Str t) tokens
      | _ \<Rightarrow> tokens)"

definition commit_outcome ::
    "oauth_env \<Rightarrow> jstr \<Rightarrow> jstr option \<Rightarrow> jstr option \<Rightarrow> refresh_outcome \<Rightarrow> ('y, refresh_response) redeeming" where
  "commit_outcome env epoch requested issuer outcome =
     (case outcome of
        Refresh_Failed forSdk \<Rightarrow>
          after (discardRefusedGrant env requested epoch False) (\<lambda>_.
          after (releaseLease env (Some Dead) Resolved) (\<lambda>_.
          after (fail_flight Refresh_Refused (Some Dead)) (\<lambda>_. Ret (Failure_Response forSdk))))
      | Refresh_Tokens tokens \<Rightarrow>
          Peek (\<lambda>r.
          after (attempt (after (storeRefresh env epoch requested (accepted_tokens tokens requested) issuer (rd_issuedAt r)) (\<lambda>c. Ret (Inr c)))
              (\<lambda>_. Ret (Inl ()))) (\<lambda>committed.
          case committed of
            Inl _ \<Rightarrow>
              (let failure = Unauthorized ''OAuth refresh could not be committed; authorization required.'' in
               after (releaseLease env (Some Dead) Resolved) (\<lambda>_.
               after (discardRefusedGrant env requested epoch False) (\<lambda>_.
               after (fail_flight failure (Some Dead)) (\<lambda>_. Throw failure))))
          | Inr None \<Rightarrow>
              (let failure = Unauthorized ''OAuth refresh grant is no longer active.'' in
               after (releaseLease env (Some Dead) Resolved) (\<lambda>_.
               after (fail_flight failure (Some Dead)) (\<lambda>_. Throw failure)))
          | Inr (Some t) \<Rightarrow>
              Peek (\<lambda>r. after (releaseRefresh env (rd_lease r) None (Some t) Resolved) (\<lambda>_.
              after (settle_flight (Flight_Refreshed t)) (\<lambda>_. adoptRefresh t))))))"

definition redeem :: "oauth_env \<Rightarrow> nat \<Rightarrow> jstr \<Rightarrow> jstr option \<Rightarrow> ('y, refresh_response) redeeming" where
  "redeem env rounds epoch requested =
     attempt
       (Peek (\<lambda>r. let issuer = refreshIssuer r epoch in
        after (acquire_lease env rounds epoch requested) (\<lambda>claim.
        case claim of
          Inl response \<Rightarrow> Ret response
        | Inr lease \<Rightarrow>
            after (modify (\<lambda>r. r\<lparr>rd_lease := lease\<rparr>)) (\<lambda>_.
            after (attempt (dispatch_and_read env requested) (dispatch_failed env epoch requested)) (\<lambda>outcome.
            completing (commit_outcome env epoch requested issuer outcome))))))
       (\<lambda>e. Peek (\<lambda>r.
          after (fail_flight e (if rd_dispatched r then Some Dead else pv_refreshFailure r)) (\<lambda>_. Throw e)))"

end
