(* ===== verification/Refresh_Protocol.thy ===== *)
theory Refresh_Protocol
  imports OAuth_Refresh
begin

text \<open>
  Why a refresh token is not sent twice (\<^verbatim>\<open>auth/downstream-oauth/refresh-records.ts\<close>). Every program of the
  provider follows a discipline on the spent records: a record is opened only by a new holder where none is or the last
  one is resolved, it is blurred to ambiguous by anybody, and it is resolved only by its own holder after an answer that
  settled the send. The invariant is that whoever may send, or has sent and has no such answer, is named by the record.
\<close>

declare json_text.simps [simp del]

section \<open>Spent records\<close>

definition spent_key :: "jstr \<Rightarrow> bool" where
  "spent_key k \<longleftrightarrow> starts_with k (lit ''oauth:refresh-spent:'')"

text \<open>A record of this holder that is not resolved; no record, or a resolved one.\<close>

definition held_by :: "jstr option \<Rightarrow> jstr \<Rightarrow> bool" where
  "held_by raw h \<longleftrightarrow>
     (\<exists>fs. storedRefreshSpent raw = Some fs \<and> \<not> in_state fs ''resolved'' \<and> field fs ''holder'' = Some (J_Str h))"

definition open_for :: "jstr option \<Rightarrow> bool" where
  "open_for raw \<longleftrightarrow> raw = None \<or> (\<exists>fs. storedRefreshSpent raw = Some fs \<and> in_state fs ''resolved'')"

lemma held_unique: "held_by raw h \<Longrightarrow> held_by raw h' \<Longrightarrow> h = h'"
  by (auto simp: held_by_def)

lemma spent_None [simp]: "storedRefreshSpent None = None"
  by (simp add: storedRefreshSpent_def plainObject_def)

lemma held_not_open: "held_by raw h \<Longrightarrow> \<not> open_for raw"
  by (cases raw) (auto simp: held_by_def open_for_def)

lemma spent_wf: "storedRefreshSpent raw = Some fs \<Longrightarrow> wf_fields fs"
  by (cases raw) (auto simp: storedRefreshSpent_def intro: parsed_wf split: option.splits if_splits simp del: spent_None dest: sym simp: plainObject_def [of None])

lemma spent_text:
  assumes "wf_fields fs" "finite_number (field fs ''connectaOAuthRefreshSpent'') = Some 1"
    "string_of (field fs ''epoch'') \<noteq> None" "string_of (field fs ''holder'') \<noteq> None"
    "string_of (field fs ''activeKey'') \<noteq> None" "spent_states fs"
  shows "storedRefreshSpent (Some (json_text (J_Obj fs))) = Some fs"
  using assms parsed_text [OF assms(1)] by (simp add: storedRefreshSpent_def)

text \<open>Marking a record ambiguous keeps its holder.\<close>

lemma blurred_held:
  assumes "storedRefreshSpent raw = Some fs" "field fs ''holder'' = Some (J_Str h)"
  shows "held_by (Some (json_text (J_Obj (with_field ''state'' (J_Str (lit ''ambiguous'')) fs)))) h"
proof -
  let ?fs = "with_field ''state'' (J_Str (lit ''ambiguous'')) fs"
  have "storedRefreshSpent (Some (json_text (J_Obj ?fs))) = Some ?fs"
    using assms spent_wf [OF assms(1)]
    by (intro spent_text; simp add: storedRefreshSpent_def spent_states_def split: option.splits if_splits)
  then show ?thesis using assms(2) by (simp add: held_by_def in_state_def)
qed

lemma new_record_held: "held_by (Some (json_text (J_Obj (spent_record epoch (J_Str h) activeKey)))) h"
proof -
  let ?fs = "spent_record epoch (J_Str h) activeKey"
  have "storedRefreshSpent (Some (json_text (J_Obj ?fs))) = Some ?fs"
    by (rule spent_text) (simp_all add: spent_record_def wf_fields_def finite_whole spent_states_def)
  then show ?thesis by (simp add: held_by_def in_state_def spent_record_def)
qed

lemma spent_holder: "storedRefreshSpent raw = Some fs \<Longrightarrow> \<exists>h. field fs ''holder'' = Some (J_Str h)"
  by (auto simp: storedRefreshSpent_def string_of_def split: option.splits if_splits json.splits)

lemma outstanding_held: "storedRefreshSpent raw = Some fs \<Longrightarrow> in_state fs ''outstanding'' \<Longrightarrow> field fs ''holder'' = Some (J_Str h) \<Longrightarrow> held_by raw h"
  by (auto simp: held_by_def in_state_def)

section \<open>The discipline\<close>

fun written_key :: "storage_op \<Rightarrow> jstr option" where
  "written_key (Set_Key k v opts) = Some k"
| "written_key (Delete k) = Some k"
| "written_key (Compare_And_Set k expected new opts) = Some k"
| "written_key _ = None"

definition harmless :: "storage_op \<Rightarrow> bool" where
  "harmless c \<longleftrightarrow> (case written_key c of Some k \<Rightarrow> \<not> spent_key k | None \<Rightarrow> True)"

definition blurs :: "storage_op \<Rightarrow> bool" where
  "blurs c \<longleftrightarrow> (\<exists>k expected new h. c = Compare_And_Set k expected (Some new) plain_write \<and> held_by expected h \<and> held_by (Some new) h)"

text \<open>Calls anybody may make at any time.\<close>

definition common_call :: "storage_op \<Rightarrow> bool" where
  "common_call c \<longleftrightarrow> harmless c \<or> blurs c"

text \<open>
  The phases of a redemption: nothing claimed, a holder's name drawn, the record opened (it may send), sent without an
  answer that settles it, and settled.
\<close>

datatype phase = Idle | Holding jstr | Armed jstr jstr | Flying jstr jstr | Landed jstr jstr

definition opens :: "jstr \<Rightarrow> jstr \<Rightarrow> storage_op \<Rightarrow> bool" where
  "opens k h c \<longleftrightarrow> (\<exists>expected new. c = Compare_And_Set k expected (Some new) plain_write \<and> spent_key k \<and> open_for expected \<and> held_by (Some new) h)"

definition closes :: "jstr \<Rightarrow> jstr \<Rightarrow> storage_op \<Rightarrow> bool" where
  "closes k h c \<longleftrightarrow> (\<exists>expected new opts. c = Compare_And_Set k expected new opts \<and> held_by expected h)"

definition permitted :: "phase \<Rightarrow> storage_op \<Rightarrow> bool" where
  "permitted g c \<longleftrightarrow> common_call c \<or> (\<exists>k h. g = Holding h \<and> opens k h c) \<or> (\<exists>k h. g = Landed k h \<and> closes k h c)"

definition after_reply :: "phase \<Rightarrow> storage_op \<Rightarrow> storage_reply option \<Rightarrow> phase" where
  "after_reply g c r =
     (case (g, c) of
        (Holding h, Compare_And_Set k expected new opts) \<Rightarrow>
          if common_call c then g else if r = Some (Swapped True) then Armed k h else Idle
      | _ \<Rightarrow> g)"

definition token_key :: "oauth_env \<Rightarrow> jstr option \<Rightarrow> key_error + jstr" where
  "token_key env requested = oauthRefreshSpentKeys_spent (en_digest env (case requested of Some t \<Rightarrow> t | None \<Rightarrow> []))"

definition refresh_discipline :: "oauth_env \<Rightarrow> phase discipline" where
  "refresh_discipline env =
     \<lparr>dc_call = permitted, dc_reply = after_reply,
      dc_uuid = (\<lambda>g u. case g of Idle \<Rightarrow> Holding u | Holding _ \<Rightarrow> Holding u | _ \<Rightarrow> g),
      dc_send = (\<lambda>g tok. \<exists>k h. g = Armed k h \<and> token_key env tok = Inr k),
      dc_sent = (\<lambda>g. case g of Armed k h \<Rightarrow> Flying k h | _ \<Rightarrow> g),
      dc_answer = (\<lambda>g a. case g of Flying k h \<Rightarrow> if definitive a then Landed k h else g | _ \<Rightarrow> g)\<rparr>"

lemma discipline_simps [simp]:
  "dc_call (refresh_discipline env) = permitted" "dc_reply (refresh_discipline env) = after_reply"
  "dc_uuid (refresh_discipline env) g u = (case g of Idle \<Rightarrow> Holding u | Holding _ \<Rightarrow> Holding u | _ \<Rightarrow> g)"
  "dc_send (refresh_discipline env) g tok \<longleftrightarrow> (\<exists>k h. g = Armed k h \<and> token_key env tok = Inr k)"
  "dc_sent (refresh_discipline env) g = (case g of Armed k h \<Rightarrow> Flying k h | _ \<Rightarrow> g)"
  "dc_answer (refresh_discipline env) g a = (case g of Flying k h \<Rightarrow> if definitive a then Landed k h else g | _ \<Rightarrow> g)"
  by (simp_all add: refresh_discipline_def)

lemma common_kept: "common_call c \<Longrightarrow> permitted g c \<and> (\<forall>r. after_reply g c r = g)"
  by (auto simp: permitted_def after_reply_def split: phase.split storage_op.split)

lemma opens_not_common: "opens k h c \<Longrightarrow> \<not> common_call c"
  by (auto simp: opens_def common_call_def harmless_def blurs_def dest: held_not_open)

lemma grant_key_apart: "\<not> spent_key GRANT"
  by (simp add: spent_key_def GRANT_def oauthGrantKeys_grant_def)

lemma grant_calls_common: "grant_calls common_call"
  by (auto simp: grant_calls_def common_call_def harmless_def grant_key_apart)

lemma lease_key_apart: "oauthRefreshKeys_lease epoch digest = Inr k \<Longrightarrow> \<not> spent_key k"
  by (auto simp: oauthRefreshKeys_lease_def keyed_Inr spent_key_def lit_def)

lemma active_key_apart: "oauthRefreshActiveKeys_holder epoch h = Inr k \<Longrightarrow> \<not> spent_key k"
  by (auto simp: oauthRefreshActiveKeys_holder_def keyed_Inr spent_key_def lit_def)

lemma spent_key_of: "token_key env tok = Inr k \<Longrightarrow> spent_key k"
  by (auto simp: token_key_def oauthRefreshSpentKeys_spent_def keyed_Inr spent_key_def)

section \<open>The programs follow it\<close>

text \<open>Calls of a release: its own keys are not spent records.\<close>

definition lease_ok :: "refresh_lease \<Rightarrow> bool" where
  "lease_ok lease \<longleftrightarrow> \<not> spent_key (rl_key lease) \<and>
     (\<forall>k. string_of (field (lease_fields (rl_raw lease)) ''activeKey'') = Some k \<longrightarrow> \<not> spent_key k)"

lemma quiet_waiting: "quiet A F x p \<Longrightarrow> quiet A F x (waiting_run p)"
  by (simp add: waiting_run_def quiet_wait)

lemma quiet_transferred: "quiet A F x p \<Longrightarrow> quiet A F x (transferred p)"
  by (auto simp: transferred_def intro!: quiet_waiting quiet_intros)

lemma quiet_record: "quiet A provider.more x (recordRefreshFailure f)"
  by (simp add: recordRefreshFailure_def quiet_modify)

lemma quiet_adopt: "quiet A provider.more x (adoptRefresh t)"
  by (auto simp: adoptRefresh_def intro!: quiet_intros quiet_modify)

lemma quiet_cas_harmless: "\<not> spent_key k \<Longrightarrow> quiet common_call F x (storage_cas k expected new)"
  by (rule quiet_cas) (simp add: common_call_def harmless_def)

lemma quiet_cas_blur:
  "held_by expected h \<Longrightarrow> held_by (Some new) h \<Longrightarrow> quiet common_call F x (storage_cas k expected (Some new))"
  by (auto simp: storage_cas_def common_call_def blurs_def split: option.split storage_reply.split)

lemma quiet_delete: "\<not> spent_key k \<Longrightarrow> quiet common_call F x (storage_delete k)"
  by (auto simp: storage_delete_def common_call_def harmless_def split: option.split storage_reply.split)

lemma quiet_set: "\<not> spent_key k \<Longrightarrow> quiet common_call F x (storage_set k v opts)"
  by (auto simp: storage_set_def common_call_def harmless_def split: option.split storage_reply.split)

lemmas quiet_common =
  quiet_waiting quiet_transferred quiet_record quiet_adopt quiet_get [OF grant_calls_common]
  quiet_openGrant [OF grant_calls_common] quiet_readGrant [OF grant_calls_common] quiet_encodeGrant [OF grant_calls_common]
  quiet_boundGrant [OF grant_calls_common] quiet_updateGrant [OF grant_calls_common] quiet_flowEpoch [OF grant_calls_common]
  quiet_cas_grant [OF grant_calls_common] quiet_list [OF grant_calls_common] quiet_of_sum quiet_intros

lemma quiet_storedTokens: "quiet common_call provider.more x (storedTokens env sig)"
  by (auto simp: storedTokens_def intro!: quiet_common)

lemma quiet_discard: "quiet common_call provider.more x (discardRefusedGrant env tok epoch shared)"
  by (auto simp: discardRefusedGrant_def intro!: quiet_common)

lemma quiet_storeRefresh: "quiet common_call provider.more x (storeRefresh env epoch requested tokens issuer issuedAt)"
proof -
  have "quiet common_call provider.more x (store_attempt env epoch requested tokens issuer issuedAt)"
    by (auto simp: store_attempt_def Let_def intro!: quiet_common quiet_modify)
  then have "quiet common_call provider.more x (store_attempts env epoch requested tokens issuer issuedAt n)" for n
    by (induction n) (auto intro!: quiet_common split: option.split)
  then show ?thesis by (simp add: storeRefresh_def)
qed

lemma settled_ambiguous: "settled_spent Ambiguous now fs = with_field ''state'' (J_Str (lit ''ambiguous'')) fs"
  by (simp add: settled_spent_def resolution_name_def)

lemma quiet_resolve_ambiguous: "quiet common_call provider.more x (resolveRefreshSpent lease Ambiguous)"
proof -
  have cas: "quiet common_call provider.more x
      (storage_cas (rl_spentKey lease) raw (Some (json_text (J_Obj (settled_spent Ambiguous now fs)))))"
    if fs: "storedRefreshSpent raw = Some fs" "in_state fs ''outstanding''" for raw fs now
  proof -
    obtain h where h: "field fs ''holder'' = Some (J_Str h)" using spent_holder [OF fs(1)] ..
    show ?thesis
      unfolding settled_ambiguous by (rule quiet_cas_blur [OF outstanding_held [OF fs h] blurred_held [OF fs(1) h]])
  qed
  show ?thesis by (auto simp: resolveRefreshSpent_def intro!: quiet_common cas split: option.split)
qed

lemma quiet_release:
  assumes "lease_ok lease"
  shows "quiet common_call provider.more x (releaseRefresh env lease verdict tokens Ambiguous)"
  using assms
  by (auto simp: releaseRefresh_def Let_def lease_ok_def truthy_def
      intro!: quiet_common quiet_resolve_ambiguous quiet_cas_harmless quiet_delete split: option.split bool.split)

lemma quiet_dead_end: "quiet common_call provider.more x (dead_end env requested epoch message)"
  by (auto simp: dead_end_def intro!: quiet_common quiet_discard)

lemma quiet_poll: "quiet common_call provider.more x (poll env key spentKey activeKey)"
  by (auto simp: poll_def intro!: quiet_common split: option.split)

lemma quiet_claim_won:
  "lease_ok lease \<Longrightarrow> quiet common_call provider.more x (claim_won env epoch requested lease)"
  by (auto simp: claim_won_def intro!: quiet_common quiet_storedTokens quiet_release split: option.split)

lemma quiet_claim_sent:
  "\<not> spent_key key \<Longrightarrow> quiet common_call provider.more x (claim_sent env epoch requested key spentKey polled stored activeKey)"
  by (auto simp: claim_sent_def Let_def intro!: quiet_common quiet_cas_harmless quiet_resolve_ambiguous quiet_dead_end split: option.split)

subsection \<open>The claim\<close>

abbreviation lease_kept :: "phase \<Rightarrow> 'y redeemer_scheme \<Rightarrow> bool" where
  "lease_kept g l \<equiv> lease_ok (rd_lease l)"

abbreviation follows ::
    "oauth_env \<Rightarrow> ('y redeemer_scheme, oauth_error, 'a) prog \<Rightarrow> (phase \<Rightarrow> 'y redeemer_scheme \<Rightarrow> 'a \<Rightarrow> bool) \<Rightarrow> phase \<Rightarrow> 'y redeemer_scheme \<Rightarrow> bool" where
  "follows env \<equiv> ensures (refresh_discipline env) lease_kept"

lemma same_more:
  fixes l :: "'y redeemer_scheme"
  assumes "provider.more l' = provider.more l"
  shows "rd_lease l' = rd_lease l" "rd_dispatched l' = rd_dispatched l" "rd_issuedAt l' = rd_issuedAt l"
  using assms by (cases l; cases l'; simp)+

text \<open>A quiet program leaves the phase and the redemption's own variables.\<close>

lemma follows_quiet:
  fixes l :: "'y redeemer_scheme"
  assumes "quiet common_call provider.more (provider.more l) p" "yields R p" "lease_ok (rd_lease l)"
    and "\<And>l' a. provider.more l' = provider.more l \<Longrightarrow> R a \<Longrightarrow> P g l' a"
  shows "follows env p P g l"
proof (rule ensures_quiet [OF assms(1, 2) refl])
  show "dc_call (refresh_discipline env) g c \<and> (\<forall>r. dc_reply (refresh_discipline env) g c r = g)" if "common_call c" for c
    using common_kept [OF that] by simp
  show "lease_ok (rd_lease l')" if "provider.more l' = provider.more l" for l' :: "'y redeemer_scheme"
    using assms(3) same_more(1) [OF that] by simp
qed (rule assms(4))

lemmas follows_any = follows_quiet [OF _ yields_True]

definition idle :: "phase \<Rightarrow> bool" where
  "idle g \<longleftrightarrow> g = Idle \<or> (\<exists>h. g = Holding h)"

text \<open>A claimed lease: its text names the holder, and the spent record it expects lets the holder send.\<close>

definition lease_for :: "oauth_env \<Rightarrow> jstr option \<Rightarrow> jstr \<Rightarrow> refresh_lease \<Rightarrow> bool" where
  "lease_for env requested h lease \<longleftrightarrow>
     lease_ok lease \<and> token_key env requested = Inr (rl_spentKey lease) \<and> open_for (rl_spentExpected lease) \<and>
     field (lease_fields (rl_raw lease)) ''holder'' = Some (J_Str h)"

definition claim_ok :: "oauth_env \<Rightarrow> jstr option \<Rightarrow> phase \<Rightarrow> claim option \<Rightarrow> bool" where
  "claim_ok env requested g c =
     (case c of Some (Claim_Lease lease) \<Rightarrow> \<exists>h. g = Holding h \<and> lease_for env requested h lease | _ \<Rightarrow> idle g)"

lemma claimed_text:
  "lease_fields (json_text (J_Obj (claimed_lease h now stored committed))) = claimed_lease h now stored committed"
proof -
  have "wf_fields (claimed_lease h now stored committed)"
    by (auto simp: claimed_lease_def wf_fields_def Let_def split: option.split bool.split)
  then show ?thesis by (simp add: lease_fields_def parsed_text)
qed

lemma claimed_fields:
  "field (claimed_lease h now stored committed) ''holder'' = Some (J_Str h)"
  "field (claimed_lease h now stored committed) ''activeKey'' = None"
  by (auto simp: claimed_lease_def Let_def split: option.split bool.split)

lemma claim_won_lease: "yields (\<lambda>c. \<forall>x. c = Claim_Lease x \<longrightarrow> x = lease) (claim_won env epoch requested lease)"
  by (auto simp: claim_won_def intro!: yields_attempt yields_after split: option.split)

lemma may_respend_open: "may_respend epoch digest stored committed body s \<Longrightarrow> open_for (Some s)"
  by (auto simp: may_respend_def open_for_def split: option.splits)

lemma follows_after: "follows env p (\<lambda>g l a. follows env (f a) P g l) g l \<Longrightarrow> follows env (after p f) P g l"
  by (rule ensures_after)

lemma quiet_already_spent: "quiet common_call provider.more x (already_spent env epoch requested key spentKey polled)"
proof -
  have cas: "quiet common_call provider.more x
      (storage_cas spentKey (po_spent polled) (Some (json_text (J_Obj (with_field ''state'' (J_Str (lit ''ambiguous'')) fs)))))"
    if fs: "storedRefreshSpent (po_spent polled) = Some fs" "in_state fs ''outstanding''" for fs
  proof -
    obtain h where h: "field fs ''holder'' = Some (J_Str h)" using spent_holder [OF fs(1)] ..
    show ?thesis by (rule quiet_cas_blur [OF outstanding_held [OF fs h] blurred_held [OF fs(1) h]])
  qed
  show ?thesis by (auto simp: already_spent_def intro!: quiet_common cas quiet_dead_end split: option.split)
qed

lemma yields_already_spent: "yields (\<lambda>c. c = None) (already_spent env epoch requested key spentKey polled)"
  by (auto simp: already_spent_def dead_end_def intro!: yields_after)

lemma claim_unsent_follows:
  fixes l :: "'y redeemer_scheme"
  assumes "\<not> spent_key key" "token_key env requested = Inr spentKey" "lease_ok (rd_lease l)" "idle g"
  shows "follows env (claim_unsent env epoch requested key spentKey polled stored committed) (\<lambda>g l c. claim_ok env requested g c) g l"
proof -
  let ?digest = "en_digest env (case requested of Some t \<Rightarrow> t | None \<Rightarrow> [])"
  let ?blocked = "case po_spent polled of
      Some s \<Rightarrow> \<not> may_respend epoch ?digest stored committed (gr_body (po_grant polled)) s | None \<Rightarrow> False"
  have dead: "follows env (already_spent env epoch requested key spentKey polled) (\<lambda>g l c. claim_ok env requested g c) g l"
    by (rule follows_quiet [OF quiet_already_spent yields_already_spent assms(3)]) (use assms(4) in \<open>simp add: claim_ok_def\<close>)
  have idle: "idle (dc_uuid (refresh_discipline env) g u) \<and> dc_uuid (refresh_discipline env) g u = Holding u" for u
    using assms(4) by (auto simp: idle_def)
  have claim: "follows env
      (after (attempt (transferred (storage_cas key (po_lease polled) (Some written))) (\<lambda>_. Throw Credential_Write_Error)) (\<lambda>won.
       if won then after (claim_won env epoch requested lease) (\<lambda>c. Ret (Some c)) else Ret None))
      (\<lambda>g l c. claim_ok env requested g c) (Holding u) l"
    if lease: "lease_for env requested u lease" for written lease u
  proof (rule follows_after, rule follows_any [OF _ assms(3)])
    show "quiet common_call provider.more (provider.more l)
        (attempt (transferred (storage_cas key (po_lease polled) (Some written))) (\<lambda>_. Throw Credential_Write_Error))"
      by (auto intro!: quiet_common quiet_cas_harmless assms(1))
    fix l' :: "'y redeemer_scheme" and won
    assume l': "provider.more l' = provider.more l"
    have ok: "lease_ok (rd_lease l')" using assms(3) same_more(1) [OF l'] by simp
    have "follows env (claim_won env epoch requested lease) (\<lambda>g l c. claim_ok env requested g (Some c)) (Holding u) l'"
      using lease
      by (intro follows_quiet [OF quiet_claim_won claim_won_lease ok])
        (auto simp: lease_for_def claim_ok_def idle_def split: claim.split)
    then show "follows env (if won then after (claim_won env epoch requested lease) (\<lambda>c. Ret (Some c)) else Ret None)
        (\<lambda>g l c. claim_ok env requested g c) (Holding u) l'"
      using ok by (auto simp: claim_ok_def idle_def intro!: follows_after elim!: ensures_mono split: claim.splits)
  qed
  show ?thesis
  proof (cases ?blocked)
    case True
    with dead show ?thesis by (simp add: claim_unsent_def already_spent_def Let_def)
  next
    case False
    then have "open_for (po_spent polled)" by (auto simp: open_for_def dest: may_respend_open split: option.splits)
    then have lease: "lease_for env requested u \<lparr>rl_spentKey = spentKey, rl_spentExpected = po_spent polled, rl_spentRaw = None,
        rl_key = key, rl_raw = json_text (J_Obj (claimed_lease u now stored committed))\<rparr>" for u now
      using assms(1, 2) by (simp add: lease_for_def lease_ok_def claimed_text claimed_fields)
    show ?thesis
      using False assms(3, 4) claim [OF lease] idle by (auto simp: claim_unsent_def Let_def claim_ok_def)
  qed
qed

lemma claim_round_follows:
  fixes l :: "'y redeemer_scheme"
  assumes "\<not> spent_key key" "token_key env requested = Inr spentKey" "lease_ok (rd_lease l)" "idle g"
  shows "follows env (claim_round env epoch requested key spentKey activeKey) (\<lambda>g l r. claim_ok env requested g (fst r)) g l"
proof -
  have quiet: "follows env (after p (\<lambda>a. Ret (f a))) (\<lambda>g l r. claim_ok env requested g (fst r)) g l'"
    if "quiet common_call provider.more (provider.more l') p" "lease_ok (rd_lease l')"
      "\<And>a. case fst (f a) of Some (Claim_Lease _) \<Rightarrow> False | _ \<Rightarrow> True"
    for p :: "('y redeemer_scheme, oauth_error, 'b) prog" and l' and f :: "'b \<Rightarrow> claim option \<times> jstr option"
  proof (rule follows_after, rule follows_any [OF that(1, 2)])
    fix l'' :: "'y redeemer_scheme" and a
    assume "provider.more l'' = provider.more l'"
    with that(2) same_more(1) have "lease_ok (rd_lease l'')" by metis
    with that(3) [of a] assms(4) show "follows env (Ret (f a)) (\<lambda>g l r. claim_ok env requested g (fst r)) g l''"
      by (auto simp: claim_ok_def split: option.splits claim.splits)
  qed
  have judged: "follows env (claim_judged env epoch requested key spentKey activeKey polled stored committed)
      (\<lambda>g l r. claim_ok env requested g (fst r)) g l'" if ok: "lease_ok (rd_lease l')" for l' :: "'y redeemer_scheme" and polled stored committed
  proof -
    have dead: "follows env (dead_end env requested epoch m) (\<lambda>g l (r :: claim option \<times> jstr option). claim_ok env requested g (fst r)) g l'" for m
      by (rule follows_quiet [OF quiet_dead_end _ ok, where R = "\<lambda>_. False"]) (auto simp: dead_end_def intro!: yields_after)
    have sent: "follows env (after (claim_sent env epoch requested key spentKey polled (the stored) activeKey) (\<lambda>_.
        Ret (None, string_of (field (the stored) ''activeKey'')))) (\<lambda>g l r. claim_ok env requested g (fst r)) g l'"
      by (rule quiet [OF quiet_claim_sent [OF assms(1)] ok]) simp
    have "follows env (after (claim_unsent env epoch requested key spentKey polled stored committed) (\<lambda>c. Ret (c, activeKey)))
        (\<lambda>g l r. claim_ok env requested g (fst r)) g l'"
      by (rule follows_after, rule ensures_mono [OF claim_unsent_follows [OF assms(1, 2) ok assms(4)]]) simp
    with dead sent show ?thesis unfolding claim_judged_def by simp
  qed
  have quiet_committed: "quiet common_call provider.more x (lease_committed env stored current)"
    for x :: "'y redeemer_ext" and stored current
    by (auto simp: lease_committed_def intro!: quiet_common split: option.split)
  show ?thesis
    unfolding claim_round_def
  proof (rule follows_after, rule follows_any [OF quiet_poll assms(3)])
    fix l1 :: "'y redeemer_scheme" and polled
    assume "provider.more l1 = provider.more l"
    with assms(3) same_more(1) have ok: "lease_ok (rd_lease l1)" by metis
    have judge: "follows env (after (lease_committed env stored current) (\<lambda>committed.
        claim_judged env epoch requested key spentKey activeKey polled stored committed)) (\<lambda>g l r. claim_ok env requested g (fst r)) g l1"
      for stored current
    proof (rule follows_after, rule follows_any [OF quiet_committed ok])
      fix l2 :: "'y redeemer_scheme" and c
      assume "provider.more l2 = provider.more l1"
      with ok same_more(1) have "lease_ok (rd_lease l2)" by metis
      then show "follows env (claim_judged env epoch requested key spentKey activeKey polled stored c)
          (\<lambda>g l r. claim_ok env requested g (fst r)) g l2" by (rule judged)
    qed
    show "follows env (Peek (\<lambda>pv.
       case body_tokens (gr_body (po_grant polled)) of
         None \<Rightarrow> after (recordRefreshFailure (Some Dead)) (\<lambda>_. Ret (Some (Claim_Answer Invalid_Grant_Response), activeKey))
       | Some current \<Rightarrow>
           if \<not> holds_token (Some current) requested \<or> refreshedSinceRead pv current epoch then
             after (adoptRefresh current) (\<lambda>r. Ret (Some (Claim_Answer r), activeKey))
           else
             let stored = Option.bind (po_lease polled) (\<lambda>r. plainObject (parsed r)) in
             after (lease_committed env stored current) (\<lambda>committed.
             claim_judged env epoch requested key spentKey activeKey polled stored committed)))
        (\<lambda>g l r. claim_ok env requested g (fst r)) g l1"
      using quiet [OF quiet_record ok, of "\<lambda>_. (Some (Claim_Answer Invalid_Grant_Response), activeKey)" "Some Dead"]
        quiet [OF quiet_adopt ok, of "\<lambda>r. (Some (Claim_Answer r), activeKey)"] judge
      by (simp add: Let_def split: option.split)
  qed
qed

lemma claim_ok_None: "claim_ok env requested g None = idle g"
  by (simp add: claim_ok_def)

lemma claim_rounds_follows:
  fixes l :: "'y redeemer_scheme"
  assumes "\<not> spent_key key" "token_key env requested = Inr spentKey" "lease_ok (rd_lease l)" "idle g"
  shows "follows env (claim_rounds env epoch requested key spentKey n activeKey) (\<lambda>g l c. claim_ok env requested g c) g l"
  using assms(3, 4)
proof (induction n arbitrary: activeKey g l)
  case (Suc n)
  have "follows env (after (claim_round env epoch requested key spentKey activeKey) (\<lambda>(c, named).
      case c of Some r \<Rightarrow> Ret (Some r) | None \<Rightarrow> claim_rounds env epoch requested key spentKey n named))
      (\<lambda>g l c. claim_ok env requested g c) g l"
    by (rule follows_after, rule ensures_mono [OF claim_round_follows [OF assms(1, 2) Suc.prems]])
      (auto intro!: Suc.IH simp: claim_ok_None split: option.splits)
  with Suc.prems show ?case by (auto simp: claim_ok_def)
qed (simp add: claim_ok_def)

lemma follows_built:
  "(\<And>k. b = Inr k \<Longrightarrow> follows env (f k) P g l) \<Longrightarrow> lease_ok (rd_lease l) \<Longrightarrow> follows env (after (built_key b) f) P g l"
  by (cases b) (auto simp: built_key_def)

lemma follows_waiting:
  "follows env p P g l \<Longrightarrow> lease_ok (rd_lease l) \<Longrightarrow> follows env (waiting_run p) P g l"
  unfolding waiting_run_def by (rule ensures_wait_run)

lemma claimRefresh_follows:
  fixes l :: "'y redeemer_scheme"
  assumes "lease_ok (rd_lease l)" "idle g"
  shows "follows env (claimRefresh env rounds epoch requested)
    (\<lambda>g l c. case c of Claim_Lease lease \<Rightarrow> \<exists>h. g = Holding h \<and> lease_for env requested h lease | Claim_Answer _ \<Rightarrow> True) g l"
proof -
  define Post where "Post = (\<lambda>g (l :: 'y redeemer_scheme) c. case c of None \<Rightarrow> True | Some r \<Rightarrow> claim_ok env requested g (Some r))"
  let ?digest = "en_digest env (case requested of Some t \<Rightarrow> t | None \<Rightarrow> [])"
  have rounds: "follows env (after (built_key (oauthRefreshKeys_lease epoch ?digest)) (\<lambda>key.
      after (built_key (oauthRefreshSpentKeys_spent ?digest)) (\<lambda>spentKey. claim_rounds env epoch requested key spentKey rounds None)))
      Post g l"
    using assms
    by (intro follows_built ensures_mono [OF claim_rounds_follows] lease_key_apart)
      (auto simp: Post_def token_key_def split: option.split)
  show ?thesis
    unfolding claimRefresh_def
  proof (rule follows_after, rule ensures_mono)
    show "follows env (attempt
         (after (waiting_run (Ret ?digest)) (\<lambda>digest.
          after (built_key (oauthRefreshKeys_lease epoch digest)) (\<lambda>key.
          after (built_key (oauthRefreshSpentKeys_spent digest)) (\<lambda>spentKey.
          claim_rounds env epoch requested key spentKey rounds None))))
         (\<lambda>e. Halted Waiting_Signal (\<lambda>gone. if gone then Ret None else Throw e))) Post g l"
      using rounds assms(1)
      by (intro ensures_attempt follows_after follows_waiting) (auto simp: Post_def)
  next
    fix g l c
    assume "lease_ok (rd_lease l)" "Post g l c"
    then show "follows env (case c of Some r \<Rightarrow> Ret r | None \<Rightarrow> refreshContended)
        (\<lambda>g l c. case c of Claim_Lease lease \<Rightarrow> \<exists>h. g = Holding h \<and> lease_for env requested h lease | Claim_Answer _ \<Rightarrow> True) g l"
      by (auto simp: Post_def claim_ok_def refreshContended_def recordRefreshFailure_def modify_def split: option.splits claim.splits)
  qed
qed

subsection \<open>The dispatch\<close>

text \<open>After a dispatch the lease carries the record its holder opened.\<close>

definition lease_spent :: "jstr \<Rightarrow> jstr \<Rightarrow> refresh_lease \<Rightarrow> bool" where
  "lease_spent k h lease \<longleftrightarrow> rl_spentKey lease = k \<and> (\<exists>s. rl_spentRaw lease = Some s \<and> held_by (Some s) h)"

definition sent_as :: "jstr \<Rightarrow> jstr \<Rightarrow> phase \<Rightarrow> refresh_lease \<Rightarrow> http_answer \<Rightarrow> bool" where
  "sent_as k h g lease a \<longleftrightarrow> g = (if definitive a then Landed k h else Flying k h) \<and> lease_spent k h lease"

lemma follows_opening:
  fixes l :: "'y redeemer_scheme"
  assumes "spent_key k" "open_for expected" "held_by (Some new) h" "lease_ok (rd_lease l)"
  shows "follows env (storage_cas k expected (Some new)) (\<lambda>g l' b. l' = l \<and> (b \<longrightarrow> g = Armed k h)) (Holding h) l"
proof -
  let ?c = "Compare_And_Set k expected (Some new) plain_write"
  have opens: "opens k h ?c" using assms by (auto simp: opens_def)
  have reply: "after_reply (Holding h) ?c r = (if r = Some (Swapped True) then Armed k h else Idle)" for r
    using opens_not_common [OF opens] by (simp add: after_reply_def)
  show ?thesis
    using opens assms(4) by (auto simp: storage_cas_def permitted_def reply split: option.split storage_reply.split)
qed

lemma send_follows:
  fixes l :: "'y redeemer_scheme"
  assumes "token_key env requested = Inr k" "lease_ok (rd_lease l)" "lease_spent k h (rd_lease l)"
  shows "follows env (send_refresh requested)
    (\<lambda>g l a. sent_as k h g (rd_lease l) a) (Armed k h) l"
  using assms
  by (auto simp: sent_as_def send_refresh_def modify_def ensures_check intro!: follows_after split: option.split)

lemma wf_lease_fields: "wf_fields (lease_fields raw)"
  using parsed_wf [of raw] by (auto simp: lease_fields_def wf_fields_def split: option.split)

lemma text_fields: "wf_fields fs \<Longrightarrow> lease_fields (json_text (J_Obj fs)) = fs"
  by (simp add: lease_fields_def parsed_text)

lemma spend_and_send_follows:
  fixes l :: "'y redeemer_scheme"
  assumes "token_key env requested = Inr k" "rl_spentKey lease = k" "open_for (rl_spentExpected lease)" "held_by (Some spentRaw) h"
    and "lease_ok (rd_lease l)" "rl_spentKey (rd_lease l) = k"
  shows "follows env (spend_and_send requested lease spentRaw)
    (\<lambda>g l a. sent_as k h g (rd_lease l) a) (Holding h) l"
proof -
  define l1 where "l1 = l\<lparr>rd_lease := (rd_lease l)\<lparr>rl_spentRaw := Some spentRaw\<rparr>\<rparr>"
  have ok: "lease_ok (rd_lease l1)" and spent: "lease_spent k h (rd_lease l1)"
    using assms by (auto simp: l1_def lease_ok_def lease_spent_def)
  have "follows env (attempt (waiting_run (storage_cas (rl_spentKey lease) (rl_spentExpected lease) (Some spentRaw)))
      (\<lambda>_. after (recordRefreshFailure (Some Dead)) (\<lambda>_.
         Throw (Unauthorized ''OAuth refresh dispatch could not be recorded; authorization required.''))))
      (\<lambda>g l b. l = l1 \<and> (b \<longrightarrow> g = Armed k h)) (Holding h) l1"
    using follows_opening [OF spent_key_of [OF assms(1)] assms(3, 4) ok] assms(2) ok
    by (intro ensures_attempt follows_waiting) (auto simp: recordRefreshFailure_def modify_def intro!: follows_after)
  then show ?thesis
    using send_follows [OF assms(1) ok spent] ok
    by (auto simp: spend_and_send_def modify_def ensures_check recordRefreshFailure_def l1_def [symmetric]
        intro!: follows_after elim!: ensures_mono)
qed

lemma dispatched_lease_ok:
  assumes "lease_ok lease" "oauthRefreshActiveKeys_holder epoch h = Inr activeKey"
  shows "lease_ok (lease\<lparr>rl_raw := json_text (J_Obj (with_field ''activeKey'' (J_Str activeKey)
    (with_field ''state'' (J_Str (lit ''dispatched'')) (lease_fields (rl_raw lease)))))\<rparr>)"
  using assms active_key_apart [OF assms(2)] by (simp add: lease_ok_def text_fields wf_lease_fields)

lemma mark_follows:
  fixes l :: "'y redeemer_scheme"
  assumes lease: "lease_for env requested h lease" and key: "token_key env requested = Inr k"
    and active: "oauthRefreshActiveKeys_holder epoch h = Inr activeKey" and l: "rd_lease l = lease"
  shows "follows env (mark_and_send requested lease epoch activeKey) (\<lambda>g l a. sent_as k h g (rd_lease l) a) (Holding h) l"
proof -
  have ok: "lease_ok lease" and k: "rl_spentKey lease = k" and expects: "open_for (rl_spentExpected lease)"
    and h: "holder_of (lease_fields (rl_raw lease)) = h"
    using lease key by (auto simp: lease_for_def holder_of_def)
  have key_ok: "\<not> spent_key (rl_key lease)" using ok by (simp add: lease_ok_def)
  show ?thesis
    unfolding mark_and_send_def Let_def h
  proof (rule follows_after, rule follows_any [OF quiet_waiting [OF quiet_cas_harmless [OF key_ok]]])
    show "lease_ok (rd_lease l)" using ok l by simp
    fix l' :: "'y redeemer_scheme" and won
    assume l': "provider.more l' = provider.more l"
    have rl: "rd_lease l' = lease" using same_more(1) [OF l'] l by simp
    have "follows env (spend_and_send requested lease (json_text (J_Obj (spent_record epoch (J_Str h) activeKey))))
        (\<lambda>g l a. sent_as k h g (rd_lease l) a) (Holding h)
        (l'\<lparr>rd_lease := lease\<lparr>rl_raw := json_text (J_Obj (with_field ''activeKey'' (J_Str activeKey)
              (with_field ''state'' (J_Str (lit ''dispatched'')) (lease_fields (rl_raw lease)))))\<rparr>\<rparr>)"
      using dispatched_lease_ok [OF ok active] k by (intro spend_and_send_follows [OF key k expects new_record_held]) simp_all
    then show "follows env (if \<not> won then refreshContended
        else after (modify (\<lambda>r. r\<lparr>rd_lease := (rd_lease r)\<lparr>rl_raw := json_text (J_Obj (with_field ''activeKey'' (J_Str activeKey)
              (with_field ''state'' (J_Str (lit ''dispatched'')) (lease_fields (rl_raw lease)))))\<rparr>\<rparr>)) (\<lambda>_.
          after (check_signal Waiting_Signal (Aborted Waiting_Signal)) (\<lambda>_.
          spend_and_send requested lease (json_text (J_Obj (spent_record epoch (J_Str h) activeKey))))))
        (\<lambda>g l a. sent_as k h g (rd_lease l) a) (Holding h) l'"
      using ok dispatched_lease_ok [OF ok active]
      by (auto simp: rl refreshContended_def recordRefreshFailure_def modify_def ensures_check intro!: follows_after)
  qed
qed

lemma dispatch_follows:
  fixes l :: "'y redeemer_scheme"
  assumes lease: "lease_for env requested h (rd_lease l)" and key: "token_key env requested = Inr k"
  shows "follows env (dispatchRefresh env requested) (\<lambda>g l a. sent_as k h g (rd_lease l) a) (Holding h) l"
proof -
  have ok: "lease_ok (rd_lease l)" and h: "holder_of (lease_fields (rl_raw (rd_lease l))) = h"
    using lease by (auto simp: lease_for_def holder_of_def)
  show ?thesis
    unfolding dispatchRefresh_def ensures_simps Let_def h
  proof (rule follows_after, rule follows_any [OF quiet_waiting [OF quiet_flowEpoch [OF grant_calls_common]] ok], rule follows_built)
    fix l1 :: "'y redeemer_scheme" and epoch activeKey
    assume l1: "provider.more l1 = provider.more l"
    then show ok1: "lease_ok (rd_lease l1)" using ok same_more(1) [OF l1] by simp
    assume active: "oauthRefreshActiveKeys_holder epoch h = Inr activeKey"
    show "follows env (after (waiting_run (storage_set activeKey (json_text (J_Obj [(lit ''connectaOAuthRefresh'', whole 1)])) lease_ttl))
        (\<lambda>_. mark_and_send requested (rd_lease l) epoch activeKey)) (\<lambda>g l a. sent_as k h g (rd_lease l) a) (Holding h) l1"
    proof (rule follows_after, rule follows_any [OF quiet_waiting [OF quiet_set [OF active_key_apart [OF active]]] ok1],
        rule mark_follows [OF lease key active])
      show "rd_lease l2 = rd_lease l" if "provider.more l2 = provider.more l1" for l2 :: "'y redeemer_scheme"
        using same_more(1) [OF that] same_more(1) [OF l1] by simp
    qed
  qed
qed

subsection \<open>The redemption\<close>

lemma follows_then:
  fixes l :: "'y redeemer_scheme"
  assumes "quiet common_call provider.more (provider.more l) p" "lease_ok (rd_lease l)"
    and "\<And>l' a. rd_lease l' = rd_lease l \<Longrightarrow> follows env (f a) P g l'"
  shows "follows env (after p f) P g l"
  by (rule follows_after, rule follows_any [OF assms(1, 2)], rule assms(3), rule same_more(1))

lemma follows_flight:
  "lease_ok (rd_lease l) \<Longrightarrow> follows env (fail_flight e v) (\<lambda>g' l' _. g' = g \<and> rd_lease l' = rd_lease l) g l"
  "lease_ok (rd_lease l) \<Longrightarrow> follows env (settle_flight x) (\<lambda>g' l' _. g' = g \<and> rd_lease l' = rd_lease l) g l"
  by (auto simp: fail_flight_def recordRefreshFailure_def settle_flight_def modify_def intro!: follows_after split: option.split)

lemma follows_release:
  "lease_ok (rd_lease l) \<Longrightarrow> follows env (releaseLease env' v Ambiguous) (\<lambda>g' l' _. g' = g \<and> rd_lease l' = rd_lease l) g l"
  by (auto simp: releaseLease_def intro!: follows_any [OF quiet_release] same_more(1))

lemma follows_completing: "follows env p P g l \<Longrightarrow> lease_ok (rd_lease l) \<Longrightarrow> follows env (completing p) P g l"
  unfolding completing_def by (auto intro!: ensures_attempt ensures_wait_run)

lemma dispatch_failed_follows:
  assumes "lease_ok (rd_lease l)"
  shows "follows env (dispatch_failed env epoch requested e) P g l"
proof -
  have unsent: "follows env (if gone then Ret () else release_unsent env epoch requested) (\<lambda>_ _ _. True) g l" for gone
    using assms
    by (auto simp: release_unsent_def
        intro!: follows_after ensures_attempt follows_waiting follows_any [OF quiet_discard] ensures_mono [OF follows_release])
  have sent: "follows env (completing (after (releaseLease env (Some Dead) Ambiguous) (\<lambda>_. discardRefusedGrant env requested epoch False)))
      (\<lambda>_ _ _. True) g l"
    using assms by (auto intro!: follows_completing follows_after follows_any [OF quiet_discard] ensures_mono [OF follows_release])
  have fail: "follows env (after (fail_flight x v) (\<lambda>_. Throw x)) P g' l'" if "lease_ok (rd_lease l')" for x v g' l'
    by (rule follows_after, rule ensures_mono [OF follows_flight(1) [OF that]]) (use that in simp)
  show ?thesis
  proof (cases "rd_dispatched l")
    case True
    then show ?thesis
      by (simp add: dispatch_failed_def) (rule follows_after, rule ensures_mono [OF sent], erule fail)
  next
    case False
    have "follows env (after (if gone then Ret () else release_unsent env epoch requested) (\<lambda>_.
        Halted Waiting_Signal (\<lambda>gone. after (if gone then recordRefreshFailure (Some Contended) else Ret ()) (\<lambda>_.
        let failure = (if gone then Refresh_Contended_Error else e) in
        Peek (\<lambda>r. after (fail_flight failure (pv_refreshFailure r)) (\<lambda>_. Throw failure)))))) P g l" for gone
      by (rule follows_after, rule ensures_mono [OF unsent])
        (auto simp: recordRefreshFailure_def modify_def intro!: fail)
    with False show ?thesis by (simp add: dispatch_failed_def del: if_split)
  qed
qed

lemma read_follows:
  fixes l :: "'y redeemer_scheme"
  assumes "lease_for env requested h (rd_lease l)" "token_key env requested = Inr k"
  shows "follows env (dispatch_and_read env requested) (\<lambda>g l _. g = Landed k h \<and> lease_spent k h (rd_lease l)) (Holding h) l"
  unfolding dispatch_and_read_def
  by (intro follows_after ensures_interruptible, rule ensures_mono [OF dispatch_follows [OF assms]])
    (auto simp: ensures_check sent_as_def definitive_def intro!: follows_after split: option.split)

lemma resolve_follows:
  fixes l :: "'y redeemer_scheme"
  assumes "lease_spent k h lease" "lease_ok (rd_lease l)"
  shows "follows env (resolveRefreshSpent lease Resolved) (\<lambda>g l' _. g = Landed k h \<and> l' = l) (Landed k h) l"
proof -
  obtain s where s: "rl_spentRaw lease = Some s" "held_by (Some s) h" "rl_spentKey lease = k"
    using assms(1) by (auto simp: lease_spent_def)
  have "permitted (Landed k h) (Compare_And_Set k (Some s) new opts)" for new opts
    using s(2) by (auto simp: permitted_def closes_def)
  then show ?thesis
    using assms(2) s
    by (auto simp: resolveRefreshSpent_def storage_cas_def after_reply_def
        intro!: ensures_attempt follows_after split: option.split storage_reply.split)
qed

lemma release_resolved_follows:
  fixes l :: "'y redeemer_scheme"
  assumes "lease_spent k h lease" "lease_ok lease" "lease_ok (rd_lease l)"
  shows "follows env (releaseRefresh env' lease v t Resolved) (\<lambda>_ _ _. True) (Landed k h) l"
proof -
  have keys: "\<not> spent_key (rl_key lease)"
    "string_of (field (lease_fields (rl_raw lease)) ''activeKey'') = Some key \<Longrightarrow> \<not> spent_key key" for key
    using assms(2) by (auto simp: lease_ok_def)
  have rest: "follows env (after (attempt (storage_cas (rl_key lease) (Some (rl_raw lease)) n) (\<lambda>_. Ret False)) (\<lambda>released.
      case (released \<and> truthy (field (lease_fields (rl_raw lease)) ''activeKey''), string_of (field (lease_fields (rl_raw lease)) ''activeKey'')) of
        (True, Some key) \<Rightarrow> attempt (storage_delete key) (\<lambda>_. Ret ())
      | _ \<Rightarrow> Ret ())) (\<lambda>_ _ _. True) g l'" if "lease_ok (rd_lease l')" for n g and l' :: "'y redeemer_scheme"
    using that
    by (intro follows_any) (auto intro!: quiet_common quiet_cas_harmless quiet_delete keys split: option.split bool.split)
  show ?thesis
    unfolding releaseRefresh_def Let_def
  proof (rule follows_then)
    show "quiet common_call provider.more (provider.more l) (case v of Some x \<Rightarrow> recordRefreshFailure (Some x) | None \<Rightarrow> Ret ())"
      by (auto intro: quiet_record split: option.split)
    show "lease_ok (rd_lease l)" by (rule assms(3))
    fix l' :: "'y redeemer_scheme"
    assume "rd_lease l' = rd_lease l"
    then have ok: "lease_ok (rd_lease l')" using assms(3) by simp
    show "follows env (after (resolveRefreshSpent lease Resolved) (\<lambda>_.
        after (attempt (storage_cas (rl_key lease) (Some (rl_raw lease)) (released_lease env' (lease_fields (rl_raw lease)) t)) (\<lambda>_. Ret False)) (\<lambda>released.
        case (released \<and> truthy (field (lease_fields (rl_raw lease)) ''activeKey''), string_of (field (lease_fields (rl_raw lease)) ''activeKey'')) of
          (True, Some key) \<Rightarrow> attempt (storage_delete key) (\<lambda>_. Ret ())
        | _ \<Rightarrow> Ret ()))) (\<lambda>_ _ _. True) (Landed k h) l'"
      by (rule follows_after, rule ensures_mono [OF resolve_follows [OF assms(1) ok]], rule rest)
  qed
qed

lemma releaseLease_follows:
  assumes "lease_spent k h (rd_lease l)" "lease_ok (rd_lease l)"
  shows "follows env (releaseLease env' v Resolved) (\<lambda>_ _ _. True) (Landed k h) l"
  using release_resolved_follows [OF assms assms(2)] by (simp add: releaseLease_def)

lemma commit_follows:
  fixes l :: "'y redeemer_scheme"
  assumes "lease_spent k h (rd_lease l)" "lease_ok (rd_lease l)"
  shows "follows env (commit_outcome env epoch requested issuer outcome) (\<lambda>_ _ _. True) (Landed k h) l"
proof -
  have rest: "follows env (after (releaseLease env v Resolved) (\<lambda>_. p)) (\<lambda>_ _ _. True) (Landed k h) l'"
    if "\<And>g l'. lease_ok (rd_lease l') \<Longrightarrow> follows env p (\<lambda>_ _ _. True) g l'" "rd_lease l' = rd_lease l"
    for v and p :: "('y redeemer_scheme, oauth_error, 'b) prog" and l' :: "'y redeemer_scheme"
    using that assms by (intro follows_after, intro ensures_mono [OF releaseLease_follows]) auto
  have flight: "follows env (after (fail_flight e v) (\<lambda>_. p)) (\<lambda>_ _ _. True) g l'"
    "follows env (after (settle_flight x) (\<lambda>_. p)) (\<lambda>_ _ _. True) g l'"
    if "\<And>g l'. lease_ok (rd_lease l') \<Longrightarrow> follows env p (\<lambda>_ _ _. True) g l'" "lease_ok (rd_lease l')"
    for e v x g and p :: "('y redeemer_scheme, oauth_error, 'b) prog" and l' :: "'y redeemer_scheme"
    using that by (auto intro!: follows_after ensures_mono [OF follows_flight(1)] ensures_mono [OF follows_flight(2)])
  have discard: "follows env (after (discardRefusedGrant env requested epoch False) (\<lambda>_. p)) (\<lambda>_ _ _. True) g l'"
    if "\<And>g l'. lease_ok (rd_lease l') \<Longrightarrow> follows env p (\<lambda>_ _ _. True) g l'" "lease_ok (rd_lease l')"
    for g and p :: "('y redeemer_scheme, oauth_error, 'b) prog" and l' :: "'y redeemer_scheme"
    using that by (auto intro!: follows_then quiet_discard)
  show ?thesis
  proof (cases outcome)
    case (Refresh_Failed forSdk)
    then show ?thesis
      using assms by (auto simp: commit_outcome_def intro!: follows_then [OF quiet_discard] rest flight)
  next
    case (Refresh_Tokens tokens)
    have store: "quiet common_call provider.more (provider.more l)
        (attempt (after (storeRefresh env epoch requested t issuer at_ms) (\<lambda>c. Ret (Inr c))) (\<lambda>_. Ret (Inl ())))" for t at_ms
      by (auto intro!: quiet_common quiet_storeRefresh)
    have committed: "follows env (after (releaseRefresh env (rd_lease l) None (Some t) Resolved) (\<lambda>_.
        after (settle_flight (Flight_Refreshed t)) (\<lambda>_. adoptRefresh t))) (\<lambda>_ _ _. True) (Landed k h) l'"
      if "rd_lease l' = rd_lease l" for l' :: "'y redeemer_scheme" and t
      using that assms
      by (intro follows_after [of _ "releaseRefresh env (rd_lease l) None (Some t) Resolved"])
        (auto intro!: ensures_mono [OF release_resolved_follows] flight(2) follows_any [OF quiet_adopt])
    show ?thesis
      unfolding commit_outcome_def Refresh_Tokens refresh_outcome.case ensures_simps
      by (rule follows_then [OF store assms(2)])
        (auto simp: Let_def intro!: rest flight discard committed split: sum.split option.split)
  qed
qed

lemma follows_fail:
  assumes "lease_ok (rd_lease l)"
  shows "follows env (after (fail_flight x v) (\<lambda>_. Throw x)) P g l"
  by (rule follows_after, rule ensures_mono [OF follows_flight(1) [OF assms]]) (use assms in simp)

lemma acquire_follows:
  fixes l :: "'y redeemer_scheme"
  assumes "lease_ok (rd_lease l)" "idle g"
  shows "follows env (acquire_lease env rounds epoch requested)
    (\<lambda>g l c. case c of Inr lease \<Rightarrow> \<exists>h. g = Holding h \<and> lease_for env requested h lease | Inl _ \<Rightarrow> True) g l"
    (is "follows env _ ?Post g l")
proof -
  have answered: "follows env (after (waiting_run (storedTokens env (Some Waiting_Signal))) (\<lambda>tokens.
      after (settle_flight (case tokens of Some t \<Rightarrow> Flight_Refreshed t | None \<Rightarrow> Flight_Retired)) (\<lambda>_. Ret (Inl response))))
      ?Post g' l'" if "lease_ok (rd_lease l')" for g' response and l' :: "'y redeemer_scheme"
  proof (rule follows_then [OF quiet_waiting [OF quiet_storedTokens] that])
    fix l'' :: "'y redeemer_scheme" and tokens
    assume "rd_lease l'' = rd_lease l'"
    with that have ok: "lease_ok (rd_lease l'')" by simp
    show "follows env (after (settle_flight (case tokens of Some t \<Rightarrow> Flight_Refreshed t | None \<Rightarrow> Flight_Retired))
        (\<lambda>_. Ret (Inl response))) ?Post g' l''"
      by (rule follows_after, rule ensures_mono [OF follows_flight(2) [OF ok]]) simp
  qed
  show ?thesis
    unfolding acquire_lease_def
  proof (rule ensures_attempt)
    show "follows env (after (claimRefresh env rounds epoch requested) (\<lambda>c.
        case c of
          Claim_Lease lease \<Rightarrow> Ret (Inr lease)
        | Claim_Answer response \<Rightarrow>
            after (waiting_run (storedTokens env (Some Waiting_Signal))) (\<lambda>tokens.
            after (settle_flight (case tokens of Some t \<Rightarrow> Flight_Refreshed t | None \<Rightarrow> Flight_Retired)) (\<lambda>_.
            Ret (Inl response))))) ?Post g l"
      by (rule follows_after, rule ensures_mono [OF claimRefresh_follows [OF assms]])
        (auto intro!: answered split: claim.split)
  qed (simp add: follows_fail)
qed

lemma redeem_follows:
  fixes l :: "'y redeemer_scheme"
  assumes "lease_ok (rd_lease l)" "idle g"
  shows "follows env (redeem env rounds epoch requested) (\<lambda>_ _ _. True) g l"
proof -
  have sent: "follows env (after (attempt (dispatch_and_read env requested) (dispatch_failed env epoch requested))
      (\<lambda>outcome. completing (commit_outcome env epoch requested issuer outcome))) (\<lambda>_ _ _. True) (Holding h) l'"
    if lease: "lease_for env requested h (rd_lease l')" for h issuer and l' :: "'y redeemer_scheme"
  proof -
    have ok: "lease_ok (rd_lease l')" and key: "token_key env requested = Inr (rl_spentKey (rd_lease l'))"
      using lease by (simp_all add: lease_for_def)
    show ?thesis
      by (rule follows_after, rule ensures_mono [OF ensures_attempt [OF read_follows [OF lease key] dispatch_failed_follows]])
        (auto intro!: follows_completing commit_follows)
  qed
  show ?thesis
    unfolding redeem_def Let_def
  proof (rule ensures_attempt)
    show "follows env (Peek (\<lambda>r. after (acquire_lease env rounds epoch requested) (\<lambda>claim.
        case claim of
          Inl response \<Rightarrow> Ret response
        | Inr lease \<Rightarrow>
            after (modify (\<lambda>r. r\<lparr>rd_lease := lease\<rparr>)) (\<lambda>_.
            after (attempt (dispatch_and_read env requested) (dispatch_failed env epoch requested)) (\<lambda>outcome.
            completing (commit_outcome env epoch requested (refreshIssuer r epoch) outcome))))))
        (\<lambda>_ _ _. True) g l"
      unfolding ensures_simps
      by (rule follows_after, rule ensures_mono [OF acquire_follows [OF assms]])
        (auto simp: modify_def intro!: sent split: sum.splits)
  qed (simp add: follows_fail)
qed

end
