(* ===== verification/Refresh_Once.thy ===== *)
theory Refresh_Once
  imports Refresh_Protocol
begin

text \<open>
  A refresh token is sent at most once without a settling answer, however the redemptions, resets and credential writes
  of any number of processes interleave, whatever calls are lost or land late and wherever a process stops: the invariant
  of the spent records, the requests that start the programs, and the theorem on the order of sends.
\<close>

section \<open>The invariant\<close>

fun holder_in :: "phase \<Rightarrow> jstr option" where
  "holder_in Idle = None"
| "holder_in (Holding h) = Some h"
| "holder_in (Armed k h) = Some h"
| "holder_in (Flying k h) = Some h"
| "holder_in (Landed k h) = Some h"

fun unsettled :: "phase \<Rightarrow> jstr \<Rightarrow> jstr \<Rightarrow> bool" where
  "unsettled (Armed k h) k' h' \<longleftrightarrow> k' = k \<and> h' = h"
| "unsettled (Flying k h) k' h' \<longleftrightarrow> k' = k \<and> h' = h"
| "unsettled _ k' h' \<longleftrightarrow> False"

lemma unsettled_holder: "unsettled g k h \<Longrightarrow> holder_in g = Some h"
  by (cases g) auto

definition own_holders :: "jstr set \<Rightarrow> (nat \<Rightarrow> phase) \<Rightarrow> bool" where
  "own_holders U G \<longleftrightarrow>
     (\<forall>i h. holder_in (G i) = Some h \<longrightarrow> h \<in> U \<and> (\<forall>j. holder_in (G j) = Some h \<longrightarrow> j = i))"

text \<open>Whoever may send, or waits for its answer, is named by the record.\<close>

definition recorded :: "(jstr \<rightharpoonup> timed) \<Rightarrow> (nat \<Rightarrow> phase) \<Rightarrow> bool" where
  "recorded a G \<longleftrightarrow> (\<forall>i k h. unsettled (G i) k h \<longrightarrow> spent_key k \<and> (\<exists>raw. a k = Some (raw, None) \<and> held_by (Some raw) h))"

definition limbo_ok :: "storage_op list \<Rightarrow> (nat \<Rightarrow> phase) \<Rightarrow> bool" where
  "limbo_ok L G \<longleftrightarrow>
     (\<forall>c\<in>set L. common_call c \<or> (\<exists>k h. opens k h c) \<or> (\<exists>i k h. G i = Landed k h \<and> closes k h c))"

definition settled_in :: "flow_event list \<Rightarrow> nat \<Rightarrow> bool" where
  "settled_in lg i \<longleftrightarrow> (\<exists>a. Answered i a \<in> set lg \<and> definitive a)"

definition sends_ok :: "oauth_env \<Rightarrow> flow_event list \<Rightarrow> (nat \<Rightarrow> phase) \<Rightarrow> bool" where
  "sends_ok env lg G \<longleftrightarrow>
     (\<forall>i tok. Sent i tok \<in> set lg \<longrightarrow>
       (\<exists>k h. token_key env tok = Inr k \<and> (G i = Flying k h \<or> (G i = Landed k h \<and> settled_in lg i))))"

definition orderly :: "oauth_env \<Rightarrow> flow_event list \<Rightarrow> bool" where
  "orderly env lg \<longleftrightarrow>
     (\<forall>xs q tok ys p tok'. lg = xs @ Sent q tok # ys \<longrightarrow> Sent p tok' \<in> set xs \<longrightarrow> token_key env tok' = token_key env tok \<longrightarrow>
       p \<noteq> q \<and> settled_in xs p)"

subsection \<open>Orders of sends\<close>

lemma settled_more: "settled_in lg i \<Longrightarrow> settled_in (lg @ es) i"
  by (auto simp: settled_in_def)

lemma last_split: "lg @ [e] = xs @ x # ys \<Longrightarrow> if ys = [] then lg = xs \<and> e = x else lg = xs @ x # butlast ys"
  by (cases ys rule: rev_cases) (auto dest: arg_cong [where f = butlast] simp: butlast_append)

lemma orderly_answer:
  assumes "orderly env lg"
  shows "orderly env (lg @ [Answered i a])"
  unfolding orderly_def
proof (intro allI impI)
  fix xs q tok ys p tok'
  assume split: "lg @ [Answered i a] = xs @ Sent q tok # ys"
    and earlier: "Sent p tok' \<in> set xs" "token_key env tok' = token_key env tok"
  have "lg = xs @ Sent q tok # butlast ys"
    using last_split [OF split] by (cases "ys = []") simp_all
  with assms earlier show "p \<noteq> q \<and> settled_in xs p" unfolding orderly_def by blast
qed

lemma orderly_send:
  assumes "orderly env lg"
    and new: "\<And>p tok'. Sent p tok' \<in> set lg \<Longrightarrow> token_key env tok' = token_key env tok \<Longrightarrow> p \<noteq> i \<and> settled_in lg p"
  shows "orderly env (lg @ [Sent i tok])"
  unfolding orderly_def
proof (intro allI impI)
  fix xs q t ys p tok'
  assume split: "lg @ [Sent i tok] = xs @ Sent q t # ys"
    and earlier: "Sent p tok' \<in> set xs" "token_key env tok' = token_key env t"
  show "p \<noteq> q \<and> settled_in xs p"
  proof (cases "ys = []")
    case True
    with last_split [OF split] new [of p tok'] earlier show ?thesis by simp
  next
    case False
    with last_split [OF split] have "lg = xs @ Sent q t # butlast ys" by simp
    with assms(1) earlier show ?thesis unfolding orderly_def by blast
  qed
qed

subsection \<open>Calls on the records\<close>

lemma plain_expiry: "expiry t plain_write = Inr None"
  by (simp add: expiry_def plain_write_def)

lemma alive_forever: "a k = Some (raw, None) \<Longrightarrow> alive t a k = Some (raw, None)"
  by (simp add: alive_def live_def)

lemma recorded_alive: "recorded a G \<Longrightarrow> recorded (alive t a) G"
  unfolding recorded_def using alive_forever by metis

text \<open>A call that does not touch a record, or swaps it for another of the same holder, or is made where nobody waits.\<close>

lemma harmless_view: "harmless c \<Longrightarrow> spent_key k \<Longrightarrow> snd (spec_act t c a) k = a k"
  by (cases c) (auto simp: harmless_def split: option.split sum.split)

lemma cas_view:
  "snd (spec_act t (Compare_And_Set k expected (Some new) plain_write) a) j =
     (if j = k \<and> key_ok k \<and> map_option fst (a k) = expected then Some (new, None) else a j)"
  by (auto simp: plain_expiry)

lemma recorded_cas:
  assumes "recorded a G" "\<And>i h. unsettled (G i) k h \<Longrightarrow> held_by expected h \<Longrightarrow> new \<noteq> None \<and> opts = plain_write \<and> held_by new h"
  shows "recorded (snd (spec_act t (Compare_And_Set k expected new opts) a)) G"
  unfolding recorded_def
proof (intro allI impI conjI)
  fix i j h
  assume g: "unsettled (G i) j h"
  then obtain raw where raw: "spent_key j" "a j = Some (raw, None)" "held_by (Some raw) h"
    using assms(1) unfolding recorded_def by metis
  show "spent_key j" by (rule raw(1))
  show "\<exists>raw. snd (spec_act t (Compare_And_Set k expected new opts) a) j = Some (raw, None) \<and> held_by (Some raw) h"
  proof (cases "j = k \<and> expected = Some raw")
    case True
    with assms(2) [of i h] g raw obtain n where "new = Some n" "opts = plain_write" "held_by (Some n) h" by auto
    with raw(2, 3) True show ?thesis unfolding \<open>opts = plain_write\<close> \<open>new = Some n\<close> cas_view by auto
  next
    case False
    with raw show ?thesis by (auto split: option.split sum.split)
  qed
qed

lemma recorded_harmless: "recorded a G \<Longrightarrow> harmless c \<Longrightarrow> recorded (snd (spec_act t c a)) G"
  unfolding recorded_def using harmless_view by metis

lemma recorded_common:
  assumes "recorded a G" "common_call c"
  shows "recorded (snd (spec_act t c a)) G"
proof (cases "harmless c")
  case False
  then obtain k expected new h where c: "c = Compare_And_Set k expected (Some new) plain_write" "held_by expected h" "held_by (Some new) h"
    using assms(2) by (auto simp: common_call_def blurs_def)
  show ?thesis unfolding c(1) by (rule recorded_cas [OF assms(1)]) (use c held_unique in blast)
qed (rule recorded_harmless [OF assms(1)])

lemma recorded_open: "recorded a G \<Longrightarrow> opens k h c \<Longrightarrow> recorded (snd (spec_act t c a)) G"
  using held_not_open by (auto simp: opens_def intro!: recorded_cas)

lemma recorded_close:
  assumes "recorded a G" "own_holders U G" "G i = Landed k h" "closes k h c"
  shows "recorded (snd (spec_act t c a)) G"
proof -
  obtain expected new opts where c: "c = Compare_And_Set k expected new opts" "held_by expected h"
    using assms(4) by (auto simp: closes_def)
  have "\<not> unsettled (G j) k h" for j
  proof
    assume j: "unsettled (G j) k h"
    then have "holder_in (G j) = Some h" by (rule unsettled_holder)
    then have "j = i" using assms(2, 3) unfolding own_holders_def by (metis holder_in.simps(5))
    with j assms(3) show False by simp
  qed
  then show ?thesis unfolding c(1) using c(2) held_unique by (intro recorded_cas [OF assms(1)]) blast
qed

text \<open>An opening that is answered with success leaves the new record there for good.\<close>

lemma opened:
  assumes "opens k h c" "fst (spec_act t c a) = Swapped True"
  shows "\<exists>raw. snd (spec_act t c a) k = Some (raw, None) \<and> held_by (Some raw) h"
  using assms by (auto simp: opens_def plain_expiry split: if_splits)

subsection \<open>Every permitted action keeps it\<close>

lemma own_same: "holder_in g = holder_in (G i) \<Longrightarrow> own_holders U G \<Longrightarrow> own_holders U (G(i := g))"
  unfolding own_holders_def by (metis fun_upd_apply)

lemma own_none: "own_holders U G \<Longrightarrow> own_holders U (G(i := Idle))"
  unfolding own_holders_def by (metis fun_upd_apply holder_in.simps(1) option.distinct(1))

lemma own_new: "own_holders U G \<Longrightarrow> u \<notin> U \<Longrightarrow> own_holders (insert u U) (G(i := Holding u))"
  unfolding own_holders_def by (metis fun_upd_apply holder_in.simps(2) insert_iff option.inject)

lemma own_grows: "own_holders U G \<Longrightarrow> own_holders (insert u U) G"
  unfolding own_holders_def by blast

lemma recorded_upd:
  "recorded a G \<Longrightarrow> (\<And>k h. unsettled g k h \<Longrightarrow> unsettled (G i) k h) \<Longrightarrow> recorded a (G(i := g))"
  unfolding recorded_def by (metis fun_upd_apply)

lemma limbo_upd: "limbo_ok L G \<Longrightarrow> (\<And>k h. G i = Landed k h \<Longrightarrow> g = G i) \<Longrightarrow> limbo_ok L (G(i := g))"
  unfolding limbo_ok_def by (metis fun_upd_apply)

lemma sends_upd:
  assumes "sends_ok env lg G" "\<And>k h. G i = Flying k h \<or> G i = Landed k h \<Longrightarrow> g = G i"
  shows "sends_ok env lg (G(i := g))"
  unfolding sends_ok_def
proof (intro allI impI)
  fix j tok
  assume "Sent j tok \<in> set lg"
  then obtain k h where "token_key env tok = Inr k" "G j = Flying k h \<or> (G j = Landed k h \<and> settled_in lg j)"
    using assms(1) unfolding sends_ok_def by blast
  with assms(2) [of k h] show "\<exists>k h. token_key env tok = Inr k \<and> ((G(i := g)) j = Flying k h \<or> ((G(i := g)) j = Landed k h \<and> settled_in lg j))"
    by (cases "j = i") auto
qed

text \<open>What a call does to the phase of its caller.\<close>

lemma reply_cases:
  assumes "permitted g c"
  obtains (same) "after_reply g c r = g"
    | (armed) k h where "g = Holding h" "opens k h c" "r = Some (Swapped True)" "after_reply g c r = Armed k h"
    | (idle) h where "g = Holding h" "after_reply g c r = Idle"
proof (cases "common_call c \<or> (\<forall>h. g \<noteq> Holding h)")
  case True
  then have "after_reply g c r = g" by (auto simp: after_reply_def split: phase.split storage_op.split)
  then show thesis by (rule same)
next
  case False
  with assms obtain k h where g: "g = Holding h" "opens k h c" "\<not> common_call c" by (auto simp: permitted_def)
  moreover from g(2) obtain e n where "c = Compare_And_Set k e n plain_write" by (auto simp: opens_def)
  ultimately show thesis
    using armed [of h k] idle [of h] by (cases "r = Some (Swapped True)") (simp_all add: after_reply_def)
qed

lemma landed_reply: "permitted g c \<Longrightarrow> g = Landed k h \<or> g = Flying k h \<Longrightarrow> after_reply g c r = g"
  by (auto simp: after_reply_def)

text \<open>The shared state of the redemptions over any store that keeps the contract.\<close>

locale refresh_store = kv_store act view invar
  for act :: "rat \<Rightarrow> storage_op \<Rightarrow> 's \<Rightarrow> storage_reply \<times> 's" and view invar +
  fixes env :: oauth_env
begin

definition spent_invariant :: "rat \<Rightarrow> 's \<Rightarrow> storage_op list \<Rightarrow> jstr set \<Rightarrow> flow_event list \<Rightarrow> (nat \<Rightarrow> phase) \<Rightarrow> bool" where
  "spent_invariant t s L U lg G \<longleftrightarrow>
     invar s \<and> own_holders U G \<and> recorded (view t s) G \<and> limbo_ok L G \<and> sends_ok env lg G \<and> orderly env lg"

lemma recorded_next:
  assumes "spent_invariant t s L U lg G" "t \<le> t'"
    and "common_call c \<or> (\<exists>k h. opens k h c) \<or> (\<exists>i k h. G i = Landed k h \<and> closes k h c)"
  shows "recorded (view t' (snd (act t' c s))) G"
proof -
  have s: "invar s" and own: "own_holders U G" and "recorded (alive t' (view t s)) G"
    using assms(1) by (auto simp: spent_invariant_def intro: recorded_alive)
  then have "recorded (snd (spec_act t' c (alive t' (view t s)))) G"
    using assms(3) by (auto intro: recorded_common recorded_open recorded_close [OF _ own])
  then show ?thesis unfolding seen_next [OF s assms(2)] by (rule recorded_alive)
qed

lemma permitted_call:
  "permitted (G i) c \<Longrightarrow> common_call c \<or> (\<exists>k h. opens k h c) \<or> (\<exists>i k h. G i = Landed k h \<and> closes k h c)"
  by (auto simp: permitted_def)

lemma call_keeps:
  assumes inv: "spent_invariant t s L U lg G" and call: "permitted (G i) c" and later: "t \<le> t'"
  shows "spent_invariant t' (snd (act t' c s)) L U lg (G(i := after_reply (G i) c (Some (fst (act t' c s)))))"
proof -
  have s: "invar s" and own: "own_holders U G" and L: "limbo_ok L G" and lg: "sends_ok env lg G" "orderly env lg"
    using inv by (simp_all add: spent_invariant_def)
  have seen: "recorded (view t' (snd (act t' c s))) G" by (rule recorded_next [OF inv later permitted_call [of G i, OF call]])
  show ?thesis
    using call
  proof (cases rule: reply_cases [where r = "Some (fst (act t' c s))"])
    case same
    with seen own L lg act_invar [OF s] show ?thesis by (simp add: spent_invariant_def)
  next
    case (armed k h)
    have swapped: "fst (spec_act t' c (alive t' (view t s))) = Swapped True" using armed(3) reply_next [OF s later] by simp
    obtain raw where raw: "view t' (snd (act t' c s)) k = Some (raw, None)" "held_by (Some raw) h"
      using opened [OF armed(2) swapped] alive_forever unfolding seen_next [OF s later] by metis
    have "spent_key k" using armed(2) by (auto simp: opens_def)
    with raw seen have "recorded (view t' (snd (act t' c s))) (G(i := Armed k h))"
      unfolding recorded_def by (metis fun_upd_apply unsettled.simps(1))
    with armed own L lg act_invar [OF s] show ?thesis
      by (auto simp: spent_invariant_def intro!: own_same limbo_upd sends_upd)
  next
    case (idle h)
    with seen own L lg act_invar [OF s] show ?thesis
      by (auto simp: spent_invariant_def intro!: own_none limbo_upd sends_upd recorded_upd)
  qed
qed

lemma lost_keeps:
  assumes inv: "spent_invariant t s L U lg G" and call: "permitted (G i) c"
  shows "spent_invariant t s (c # L) U lg (G(i := after_reply (G i) c None))"
proof -
  have rest: "own_holders U G" "recorded (view t s) G" "limbo_ok L G" "sends_ok env lg G" "orderly env lg" "invar s"
    using inv by (simp_all add: spent_invariant_def)
  then have L: "limbo_ok (c # L) G" using permitted_call [of G i, OF call] by (simp add: limbo_ok_def)
  show ?thesis
    using call
  proof (cases rule: reply_cases [where r = None])
    case same
    with rest L show ?thesis by (simp add: spent_invariant_def)
  next
    case (idle h)
    with rest L show ?thesis by (auto simp: spent_invariant_def intro!: own_none limbo_upd sends_upd recorded_upd)
  qed simp
qed

lemma landing_keeps:
  assumes inv: "spent_invariant t s L U lg G" and later: "t \<le> t'"
    and call: "common_call c \<or> (\<exists>k h. opens k h c) \<or> (\<exists>i k h. G i = Landed k h \<and> closes k h c)"
    and L: "set L' \<subseteq> set L"
  shows "spent_invariant t' (snd (act t' c s)) L' U lg G"
  using inv recorded_next [OF inv later call] L act_invar by (auto simp: spent_invariant_def limbo_ok_def)

lemma send_keeps:
  assumes inv: "spent_invariant t s L U lg G" and g: "G i = Armed k h" "token_key env tok = Inr k"
  shows "spent_invariant t s L U (lg @ [Sent i tok]) (G(i := Flying k h))"
proof -
  have rest: "own_holders U G" "recorded (view t s) G" "limbo_ok L G" "sends_ok env lg G" "orderly env lg" "invar s"
    using inv by (simp_all add: spent_invariant_def)
  have earlier: "p \<noteq> i \<and> settled_in lg p" if sent: "Sent p tok' \<in> set lg" "token_key env tok' = token_key env tok" for p tok'
  proof -
    obtain h' where p: "G p = Flying k h' \<or> (G p = Landed k h' \<and> settled_in lg p)"
      using rest(4) sent g(2) unfolding sends_ok_def by force
    have "h' = h" if "G p = Flying k h'"
      using rest(2) that g(1) unfolding recorded_def
      by (metis held_unique option.inject prod.inject unsettled.simps(1, 2))
    with p g(1) rest(1) show ?thesis unfolding own_holders_def by (metis holder_in.simps(3, 4) phase.distinct(15, 17))
  qed
  have "sends_ok env (lg @ [Sent i tok]) (G(i := Flying k h))"
    unfolding sends_ok_def
  proof (intro allI impI)
    fix j tk
    assume "Sent j tk \<in> set (lg @ [Sent i tok])"
    then consider "j = i" "tk = tok" | "Sent j tk \<in> set lg" by auto
    then show "\<exists>k' h'. token_key env tk = Inr k' \<and> ((G(i := Flying k h)) j = Flying k' h' \<or>
        ((G(i := Flying k h)) j = Landed k' h' \<and> settled_in (lg @ [Sent i tok]) j))"
    proof cases
      case 2
      with rest(4) g(1) show ?thesis unfolding sends_ok_def by (metis fun_upd_apply phase.distinct(15, 17) settled_more)
    qed (use g(2) in simp)
  qed
  with rest g orderly_send [OF rest(5) earlier] show ?thesis
    by (auto simp: spent_invariant_def intro!: own_same limbo_upd recorded_upd)
qed

lemma answer_keeps:
  assumes inv: "spent_invariant t s L U lg G"
  shows "spent_invariant t s L U (lg @ [Answered i a]) (G(i := dc_answer (refresh_discipline env) (G i) a))"
proof -
  let ?g = "dc_answer (refresh_discipline env) (G i) a"
  have rest: "own_holders U G" "recorded (view t s) G" "limbo_ok L G" "sends_ok env lg G" "orderly env lg" "invar s"
    using inv by (simp_all add: spent_invariant_def)
  have g: "holder_in ?g = holder_in (G i)" "\<And>k h. unsettled ?g k h \<Longrightarrow> unsettled (G i) k h" "\<And>k h. G i = Landed k h \<Longrightarrow> ?g = G i"
    by (auto split: phase.splits if_splits)
  have "sends_ok env (lg @ [Answered i a]) (G(i := ?g))"
    unfolding sends_ok_def
  proof (intro allI impI)
    fix j tok
    assume "Sent j tok \<in> set (lg @ [Answered i a])"
    then have "Sent j tok \<in> set lg" by simp
    then obtain k h where "token_key env tok = Inr k" "G j = Flying k h \<or> (G j = Landed k h \<and> settled_in lg j)"
      using rest(4) unfolding sends_ok_def by blast
    then show "\<exists>k h. token_key env tok = Inr k \<and> ((G(i := ?g)) j = Flying k h \<or>
        ((G(i := ?g)) j = Landed k h \<and> settled_in (lg @ [Answered i a]) j))"
      by (cases "j = i") (auto simp: settled_in_def)
  qed
  with rest g orderly_answer [OF rest(5)] show ?thesis
    by (auto simp: spent_invariant_def intro!: own_same limbo_upd recorded_upd)
qed

end

sublocale refresh_store \<subseteq> flow: flow_discipline act harmless "refresh_discipline env" spent_invariant
proof
  show "plausible c (Some (fst (act t' c s)))" if "spent_invariant t s L U lg G" for t s L U lg G c t'
    using that listing_plausible view_finite act_reply by (simp add: spent_invariant_def)
  show "spent_invariant t' (snd (act t' c s)) L U lg (G(i := dc_reply (refresh_discipline env) (G i) c (Some (fst (act t' c s)))))"
    if "spent_invariant t s L U lg G" "dc_call (refresh_discipline env) (G i) c" "t \<le> t'" for t s L U lg G i c t'
    using call_keeps that by simp
  show "spent_invariant t s (c # L) U lg (G(i := dc_reply (refresh_discipline env) (G i) c None))"
    if "spent_invariant t s L U lg G" "dc_call (refresh_discipline env) (G i) c" for t s L U lg G i c
    using lost_keeps that by simp
  show "spent_invariant t' (snd (act t' c s)) (remove1 c L) U lg G"
    if "spent_invariant t s L U lg G" "c \<in> set L" "t \<le> t'" for t s L U lg G c t'
    using that by (intro landing_keeps [OF that(1, 3)]) (auto simp: spent_invariant_def limbo_ok_def set_remove1_subset)
  show "spent_invariant t' (snd (act t' c s)) L U lg G"
    if "spent_invariant t s L U lg G" "harmless c" "t \<le> t'" for t s L U lg G c t'
    using that by (intro landing_keeps [OF that(1, 3)]) (auto simp: common_call_def)
  show "spent_invariant t s L (insert u U) lg (G(i := dc_uuid (refresh_discipline env) (G i) u))"
    if "spent_invariant t s L U lg G" "u \<notin> U" for t s L U lg G u i
    using that
    by (cases "G i") (auto simp: spent_invariant_def fun_upd_idem intro!: own_new limbo_upd sends_upd recorded_upd intro: own_grows)
  show "spent_invariant t s L U (lg @ [Sent i tok]) (G(i := dc_sent (refresh_discipline env) (G i)))"
    if "spent_invariant t s L U lg G" "dc_send (refresh_discipline env) (G i) tok" for t s L U lg G i tok
    using that send_keeps by auto
qed (rule answer_keeps)

interpretation memory_refresh: refresh_store mem_act mem_view mem_wf env for env
  by (intro refresh_store.intro memory_store.kv_store_axioms)

section \<open>The programs\<close>

text \<open>What a caller may ask of a provider; every request runs as a program of its own.\<close>

datatype flow_request =
    Redeem nat jstr "jstr option"
  | Reset bool bool "(jstr \<times> int) option"
  | Write_Credential credential "jstr option" "json option"
  | Record_Outcome jstr int grant_outcome
  | Begin_Flow "jstr option"
  | Stored_Authorization "jstr option"

primrec flow_program :: "oauth_env \<Rightarrow> flow_request \<Rightarrow> (redeemer, oauth_error, unit) prog" where
  "flow_program env (Redeem rounds epoch requested) = after (redeem env rounds epoch requested) (\<lambda>_. Ret ())"
| "flow_program env (Reset disconnected preserveClient refused) = performReset env disconnected preserveClient None refused"
| "flow_program env (Write_Credential c issuer refreshConsent) = writeCredential env c issuer refreshConsent"
| "flow_program env (Record_Outcome epoch revision outcome) = after (recordTokenOutcome env epoch revision outcome) (\<lambda>_. Ret ())"
| "flow_program env (Begin_Flow expected) = after (beginFlow env expected) (\<lambda>_. Ret ())"
| "flow_program env (Stored_Authorization configured) = after (storedAuthorization env configured) (\<lambda>_. Ret ())"

definition no_lease :: refresh_lease where
  "no_lease = \<lparr>rl_spentKey = [], rl_spentExpected = None, rl_spentRaw = None, rl_key = [], rl_raw = []\<rparr>"

lemma no_lease_ok: "lease_ok no_lease"
proof -
  have "lease_fields [] = []" by code_simp
  then show ?thesis by (simp add: lease_ok_def no_lease_def spent_key_def lit_def)
qed

text \<open>Processes start together, over any contents of the store, with nothing under way.\<close>

definition flows_start :: "oauth_env \<Rightarrow> (nat \<Rightarrow> flow_request) \<Rightarrow> (redeemer, oauth_error, unit, mem_store) world \<Rightarrow> bool" where
  "flows_start env reqs w \<longleftrightarrow>
     wd_prog w = (\<lambda>i. flow_program env (reqs i)) \<and> (\<forall>i. rd_lease (wd_local w i) = no_lease) \<and>
     mem_wf (wd_store w) \<and> wd_limbo w = [] \<and> wd_log w = []"

subsection \<open>Every program follows the discipline\<close>

lemma other_prefix:
  "starts_with k (lit ''oauth:flow:'') \<Longrightarrow> \<not> spent_key k" "starts_with k (lit ''oauth:refresh:'') \<Longrightarrow> \<not> spent_key k"
  by (auto simp: spent_key_def starts_with_iff lit_def)

lemma quiet_read_records: "quiet common_call F x (read_records keys)"
  by (induction keys) (auto intro!: quiet_common)

lemma yields_read_records:
  "yields (\<lambda>es. fst ` set es \<subseteq> set keys) (read_records keys :: ('l, oauth_error, (jstr \<times> jstr) list) prog)"
proof (induction keys)
  case (Cons key keys)
  have "yields (\<lambda>es. fst ` set es \<subseteq> set (key # keys))
      (after (read_records keys :: ('l, oauth_error, (jstr \<times> jstr) list) prog)
        (\<lambda>rest. Ret (case raw of None \<Rightarrow> rest | Some r \<Rightarrow> (key, r) # rest)))" for raw
    by (rule yields_bind [OF Cons.IH]) (auto split: option.split)
  then show ?case unfolding read_records.simps by (rule yields_after)
qed simp

lemma quiet_delete_records: "\<forall>e\<in>set es. \<not> spent_key (fst e) \<Longrightarrow> quiet common_call F x (delete_records stale es)"
  by (induction es) (auto intro!: quiet_common quiet_cas_harmless)

text \<open>A sweep deletes only keys it was listed.\<close>

lemma quiet_sweep:
  assumes "\<And>k. starts_with k p \<Longrightarrow> \<not> spent_key k"
  shows "quiet common_call F x (after (storage_list p) (\<lambda>keys. after (read_records keys) (\<lambda>es.
    after (storage_get GRANT) (\<lambda>raw. delete_records (stale raw) es))))"
proof -
  have "quiet common_call F x (after (read_records keys) (\<lambda>es.
      after (storage_get GRANT) (\<lambda>raw. delete_records (stale raw) es)))" if "list_all (\<lambda>k. starts_with k p) keys" for keys
    using that assms
    by (intro quiet_bind [OF quiet_read_records yields_read_records] quiet_common quiet_delete_records) (auto simp: list_all_iff)
  then show ?thesis
    by (auto simp: storage_list_def common_call_def harmless_def split: option.split storage_reply.split)
qed

lemma quiet_reset_attempts:
  "quiet common_call provider.more x (reset_attempts env epoch disconnected preserveClient None refused n)"
proof (induction n)
  case (Suc n)
  have "quiet common_call provider.more x sweepConsents" "quiet common_call provider.more x sweepRefreshLeases"
    unfolding sweepConsents_def sweepRefreshLeases_def
    by (intro quiet_attempt quiet_sweep; simp add: other_prefix)+
  with Suc show ?case by (auto simp: Let_def intro!: quiet_common)
qed simp

lemma idle_kept: "common_call c \<Longrightarrow> idle g \<Longrightarrow> permitted g c \<and> idle (after_reply g c r)"
  using common_kept by simp

lemma wp_calls:
  assumes "modest common_call provider.more (provider.more l) p" "idle g"
  shows "wp (refresh_discipline env) (\<lambda>_ _. True) p (\<lambda>_ _ _. True) g l"
  by (rule wp_modest [where R = idle, OF assms refl]) (auto simp: common_kept idle_def)

lemma follows_wp: "follows env p P g l \<Longrightarrow> wp (refresh_discipline env) (\<lambda>_ _. True) p (\<lambda>_ _ _. True) g l"
  unfolding ensures_def by (rule wp_weaken, erule wp_mono) simp_all

lemma program_follows:
  assumes "rd_lease l = no_lease"
  shows "wp (refresh_discipline env) (\<lambda>_ _. True) (flow_program env req) (\<lambda>_ _ _. True) Idle l"
proof (cases req)
  case (Redeem rounds epoch requested)
  have "follows env (redeem env rounds epoch requested) (\<lambda>_ _ _. True) Idle l"
    using assms no_lease_ok by (intro redeem_follows) (simp_all add: idle_def)
  from follows_wp [OF this] show ?thesis unfolding Redeem flow_program.simps wp_after by (rule wp_mono) (simp split: sum.split)
next
  case (Reset disconnected preserveClient refused)
  have "modest common_call provider.more (provider.more l) (flow_program env req)"
    by (simp add: Reset performReset_def quiet_modest quiet_reset_attempts)
  then show ?thesis by (rule wp_calls) (simp add: idle_def)
next
  case (Write_Credential c issuer refreshConsent)
  have "modest common_call provider.more (provider.more l) (flow_program env req)"
    by (simp add: Write_Credential modest_writeCredential [OF grant_calls_common])
  then show ?thesis by (rule wp_calls) (simp add: idle_def)
qed (auto intro!: wp_calls quiet_modest quiet_after quiet_grant_programs [OF grant_calls_common] simp: idle_def simp del: wp_after)

lemma start_kept:
  assumes "flows_start env reqs w"
  shows "memory_refresh.flow.kept env (\<lambda>_ _ _ _. True) w (\<lambda>_. Idle)"
  using assms program_follows
  by (auto simp: flows_start_def memory_refresh.flow.kept_def memory_refresh.spent_invariant_def own_holders_def recorded_def
      limbo_ok_def sends_ok_def orderly_def)

lemma reachable_orderly:
  assumes "reachable (flows_start env reqs) (flow_step mem_act harmless) w"
  shows "orderly env (wd_log w)"
proof -
  have "\<exists>G. memory_refresh.flow.kept env (\<lambda>_ _ _ _. True) w G"
    using assms by (rule reachable_invariant) (use start_kept memory_refresh.flow.step_kept in blast)+
  then obtain G where "memory_refresh.flow.kept env (\<lambda>_ _ _ _. True) w G" ..
  then show ?thesis by (simp add: memory_refresh.flow.kept_def memory_refresh.spent_invariant_def)
qed

section \<open>Properties\<close>

text \<open>
  Every repeated send of a token comes after an answer the provider classified, to the process that sent it before.
\<close>

definition single_use :: "flow_event list \<Rightarrow> bool" where
  "single_use lg \<longleftrightarrow>
     (\<forall>xs q tok ys p. lg = xs @ Sent q tok # ys \<longrightarrow> Sent p tok \<in> set xs \<longrightarrow>
       p \<noteq> q \<and> (\<exists>a. Answered p a \<in> set xs \<and> refreshResponseOutcome a \<noteq> None))"

text \<open>
  C1. A refresh token is never sent twice without an answer: in every state that any number of redemptions, resets,
  disconnects, credential writes and reads reach over the in-memory store, however they interleave, whichever calls
  are lost or take effect late, whatever clocks and deadlines say, wherever a process stops, and with any foreign calls
  that write no spent record, a token that was sent is sent again only by another redemption and only after the first
  one received an answer that \<^verbatim>\<open>refreshResponseOutcome\<close> classifies.
\<close>

theorem refresh_token_sent_once:
  assumes "reachable (flows_start env reqs) (flow_step mem_act harmless) w"
  shows "single_use (wd_log w)"
  using reachable_orderly [OF assms] unfolding single_use_def orderly_def settled_in_def definitive_def by blast

section \<open>A run\<close>

definition demo_env :: oauth_env where
  "demo_env = \<lparr>en_sealer = None, en_digest = (\<lambda>s. s), en_localeSorted = (\<lambda>fs. fs), en_credentialFree = (\<lambda>_. True),
     en_clientBinding = None, en_clientMetadataUrl = None, en_configuredClient = False\<rparr>"

definition demo_tokens :: fields where
  "demo_tokens = [(lit ''access_token'', J_Str (lit ''a'')), (lit ''refresh_token'', J_Str (lit ''r''))]"

definition demo_grant :: fields where
  "demo_grant = [(lit ''connectaOAuth'', whole 3), (lit ''epoch'', J_Str (lit ''e'')), (lit ''body'', J_Obj [(lit ''tokens'', J_Obj demo_tokens)])]"

definition demo_store :: mem_store where
  "demo_store = \<lparr>ms_map = [(GRANT, 0, \<lparr>me_value = json_text (J_Obj demo_grant), me_exp = None\<rparr>)], ms_sweep = 0, ms_next = 1\<rparr>"

definition demo_new :: fields where
  "demo_new = [(lit ''access_token'', J_Str (lit ''b'')), (lit ''token_type'', J_Str (lit ''t''))]"

definition demo_answer :: http_answer where
  "demo_answer = \<lparr>ha_status = 200, ha_retryAfter = None, ha_body = Body_Text (json_text (J_Obj demo_new))\<rparr>"

definition demo_local :: redeemer where
  "demo_local = \<lparr>pv_epoch = Some (lit ''e''), pv_bound = False, pv_codeExchange = False, pv_refreshFailure = None, pv_refreshBasis = None,
     pv_storedRefresh = None, pv_tokenRequestSent = None, pv_seenClient = None, pv_seenTokens = None, pv_observed = None,
     pv_observedTokens = None, rd_lease = no_lease, rd_dispatched = False, rd_issuedAt = 0, rd_settled = None\<rparr>"

definition demo_requests :: "nat \<Rightarrow> flow_request" where
  "demo_requests i = Redeem 1 (lit ''e'') (Some (lit ''r''))"

definition demo_prog :: "(redeemer, oauth_error, unit) prog" where
  "demo_prog = flow_program demo_env (Redeem 1 (lit ''e'') (Some (lit ''r'')))"

lemma run_demo: "run_alone i a demo_prog us w = run_alone i a (flow_program demo_env (Redeem 1 (lit ''e'') (Some (lit ''r'')))) us w"
  by (simp add: demo_prog_def)

definition demo_world :: "(redeemer, oauth_error, unit, mem_store) world" where
  "demo_world = \<lparr>wd_now = 0, wd_store = demo_store, wd_limbo = [], wd_uuids = {}, wd_log = [], wd_local = (\<lambda>_. demo_local),
     wd_prog = (\<lambda>_. demo_prog)\<rparr>"

lemma lazy: "p = p' \<Longrightarrow> after p f = after p' f" "p = p' \<Longrightarrow> attempt p h = attempt p' h" "p = p' \<Longrightarrow> interruptible g x p = interruptible g x p'"
  "c = c' \<Longrightarrow> Store c k = Store c' k" "Uuid ku = Uuid ku" "Clock kc = Clock kc" "Halted g kh = Halted g kh" "Peek kp = Peek kp" "Nonce kn = Nonce kn" "Await ka = Await ka"
  "Poke l p = Poke l p" "Send tk p = Send tk p" "wait_run g e p = wait_run g e p" "check_signal g e = check_signal g e"
  by simp_all

lemma demo_parsed: "plainObject (parsed (json_text (J_Obj demo_grant))) = Some demo_grant"
  by (rule parsed_text) (simp add: demo_grant_def demo_tokens_def wf_fields_def lit_def)

lemma demo_stored: "storedGrant (json_text (J_Obj demo_grant)) = Some demo_grant"
  using demo_parsed by (simp add: storedGrant_def demo_grant_def finite_whole)


lemma env_simps: "en_sealer demo_env = None" "en_digest demo_env x = x" "en_localeSorted demo_env fs = fs" "en_credentialFree demo_env fs"
  by (simp_all add: demo_env_def)

definition "demo_lease_key = lit ''oauth:refresh:e:r''"
definition "demo_spent_key = lit ''oauth:refresh-spent:r''"
definition "demo_next_key = lit ''oauth:refresh-active:e:g''"
definition "demo_active_key = lit ''oauth:refresh-active:e:h''"

lemma keys: "oauthRefreshKeys_lease (lit ''e'') (lit ''r'') = Inr demo_lease_key" "oauthRefreshSpentKeys_spent (lit ''r'') = Inr demo_spent_key"
  "oauthRefreshActiveKeys_holder (lit ''e'') (lit ''h'') = Inr demo_active_key" "oauthRefreshActiveKeys_holder (lit ''e'') (lit ''g'') = Inr demo_next_key"
  by (simp_all add: oauthRefreshKeys_lease_def oauthRefreshSpentKeys_spent_def oauthRefreshActiveKeys_holder_def keyed_def validateStorageKey_def
    demo_lease_key_def demo_spent_key_def demo_active_key_def demo_next_key_def has_unit_def lit_def)

lemma valid: "validateStorageKey GRANT = Inr GRANT" "validateStorageKey demo_lease_key = Inr demo_lease_key" "validateStorageKey demo_spent_key = Inr demo_spent_key" "validateStorageKey demo_active_key = Inr demo_active_key"
  "validateStorageKey demo_next_key = Inr demo_next_key"
  by (simp_all add: validateStorageKey_def GRANT_def oauthGrantKeys_grant_def demo_lease_key_def demo_spent_key_def demo_active_key_def demo_next_key_def has_unit_def lit_def)

lemma apart: "GRANT \<noteq> demo_lease_key" "GRANT \<noteq> demo_spent_key" "GRANT \<noteq> demo_active_key" "GRANT \<noteq> demo_next_key" "demo_lease_key \<noteq> demo_spent_key" "demo_lease_key \<noteq> demo_active_key" "demo_lease_key \<noteq> demo_next_key" "demo_spent_key \<noteq> demo_active_key" "demo_spent_key \<noteq> demo_next_key" "demo_active_key \<noteq> demo_next_key"
  by (simp_all add: GRANT_def oauthGrantKeys_grant_def demo_lease_key_def demo_spent_key_def demo_active_key_def demo_next_key_def)

lemmas apart' = apart apart [symmetric]

lemmas lazily = lazy option.case_cong_weak if_weak_cong prod.case_cong_weak sum.case_cong_weak json.case_cong_weak claim.case_cong_weak

lemmas run_defs = waiting_run_def wait_run_def check_signal_def readGrant_def storage_get_def provider_wait_def openGrant_def opened_body_def Let_def demo_stored modify_def
  fresh_def redeem_def acquire_lease_def claimRefresh_def claim_round_def claim_judged_def claim_unsent_def poll_def
  built_key_def transferred_def storage_cas_def storage_set_def claim_won_def storedTokens_def boundGrant_def dispatch_and_read_def
  dispatchRefresh_def mark_and_send_def spend_and_send_def send_refresh_def flowEpoch_def liveEpoch_def lease_committed_def
  settle_flight_def fail_flight_def recordRefreshFailure_def


definition demo_gr :: grant where
  "demo_gr = \<lparr>gr_tokenRevision = None, gr_observation = None, gr_epoch = lit ''e'', gr_flow = None, gr_body = [(lit ''tokens'', J_Obj demo_tokens)]\<rparr>"

lemma grant_facts: "string_of (field demo_grant ''sealed'') = None" "field demo_grant ''body'' = Some (J_Obj [(lit ''tokens'', J_Obj demo_tokens)])"
  "opened_grant demo_grant (Some (J_Obj [(lit ''tokens'', J_Obj demo_tokens)])) = demo_gr"
  "body_tokens (gr_body demo_gr) = Some demo_tokens" "gr_epoch demo_gr = lit ''e''" "holds_token (Some demo_tokens) (Some (lit ''r''))"
  by (simp_all add: demo_grant_def demo_gr_def opened_grant_def stored_observation_def stored_epoch_def counter_of_def finite_number_def
    grantBody_def plainObject_def tokensBody_def demo_tokens_def clientBody_def discoveryIssuer_def consentBody_def body_tokens_def json_field_def
    holds_token_def requested_json_def given_def)

lemma holder_fact: "holder_of (lease_fields (json_text (J_Obj (claimed_lease h now stored committed)))) = h"
  by (simp add: claimed_text holder_of_def claimed_fields)


lemma observe_simps:
  fixes l :: "'y redeemer_scheme"
  shows "pv_bound (observe gr l) = pv_bound l" "pv_epoch (observe gr l) = pv_epoch l" "pv_refreshBasis (observe gr l) = pv_refreshBasis l"
    "pv_refreshFailure (observe gr l) = pv_refreshFailure l" "rd_lease (observe gr l) = rd_lease l" "rd_dispatched (observe gr l) = rd_dispatched l"
  by (simp_all add: observe_def Let_def)


lemma ttl_fact: "expiry 0 lease_ttl = Inr (Some 120000)"
  by (simp add: expiry_def lease_ttl_def OAUTH_REFRESH_LEASE_SECONDS_def)


lemma new_text: "json_parse (json_text (J_Obj demo_new)) = Some (J_Obj demo_new)"
  by (rule json_roundtrip) (simp add: demo_new_def lit_def)

lemma outcome_fact: "refreshResponseOutcome demo_answer = Some (Refresh_Tokens demo_new)"
proof -
  have "sdkAcceptsOAuthTokens (Some (J_Obj demo_new)) = Some demo_new" by (simp add: sdkAcceptsOAuthTokens_def plainObject_def) (simp add: demo_new_def)
  moreover have "without_field ''issuer'' demo_new = demo_new" by (simp add: demo_new_def without_field_def map_delete_def)
  ultimately show ?thesis
    by (simp add: refreshResponseOutcome_def answer_redirects_def answer_ok_def demo_answer_def readRefreshResponse_def new_text)
qed

definition demo_held :: fields where
  "demo_held = demo_new @ [(lit ''refresh_token'', J_Str (lit ''r''))]"

definition demo_gr2 :: grant where
  "demo_gr2 = \<lparr>gr_tokenRevision = Some 1, gr_observation = None, gr_epoch = lit ''e'', gr_flow = None, gr_body = [(lit ''tokens'', J_Obj demo_held)]\<rparr>"

definition demo_grant2 :: fields where
  "demo_grant2 = [(lit ''connectaOAuth'', whole 3), (lit ''epoch'', J_Str (lit ''e'')), (lit ''tokenRevision'', whole 1), (lit ''body'', J_Obj [(lit ''tokens'', J_Obj demo_held)])]"

lemma commit_facts: "accepted_tokens demo_new (Some (lit ''r'')) = demo_held"
  "nextTokenGrant demo_gr (rotated_body (gr_body demo_gr) demo_held 0) = Inr demo_gr2" "body_issuer (gr_body demo_gr) = None"
  by (simp_all add: accepted_tokens_def demo_held_def demo_new_def with_field_def nextTokenGrant_def demo_gr_def demo_gr2_def revision_of_def
    MAX_SAFE_INTEGER_def rotated_body_def with_expiry_def tokenExpiry_def without_field_def map_delete_def finite_number_def body_issuer_def)

lemma encode_fact: "encodeGrant demo_env sig demo_gr2 = Ret (json_text (J_Obj demo_grant2))"
  by (simp add: encodeGrant_def env_simps demo_gr2_def grant_fields_def demo_grant2_def given_def)

definition demo_dispatched :: fields where
  "demo_dispatched = with_field ''activeKey'' (J_Str demo_active_key) (with_field ''state'' (J_Str (lit ''dispatched''))  (claimed_lease (lit ''h'') 0 None False))"

lemma wf_claimed: "wf_fields (claimed_lease h now stored committed)"
  by (auto simp: claimed_lease_def wf_fields_def Let_def split: option.split bool.split)

lemma dispatched_fact:
  "with_field ''activeKey'' (J_Str demo_active_key) (with_field ''state'' (J_Str (lit ''dispatched''))
     (lease_fields (json_text (J_Obj (claimed_lease (lit ''h'') 0 None False))))) = demo_dispatched"
  "lease_fields (json_text (J_Obj demo_dispatched)) = demo_dispatched"
  "field demo_dispatched ''holder'' = Some (J_Str (lit ''h''))" "field demo_dispatched ''activeKey'' = Some (J_Str demo_active_key)"
  "in_state demo_dispatched ''claimed'' = False"
  by (simp_all add: claimed_text demo_dispatched_def text_fields wf_claimed claimed_fields in_state_def)

definition "demo_spent = spent_record (lit ''e'') (J_Str (lit ''h'')) demo_active_key"

lemma spent_fact:
  "spent_record (lit ''e'') (J_Str (lit ''h'')) demo_active_key = demo_spent"
  "storedRefreshSpent (Some (json_text (J_Obj demo_spent))) = Some demo_spent" "in_state demo_spent ''outstanding''"
  "field demo_spent ''holder'' = Some (J_Str (lit ''h''))"
proof -
  show "storedRefreshSpent (Some (json_text (J_Obj demo_spent))) = Some demo_spent"
    by (rule spent_text) (simp_all add: demo_spent_def spent_record_def wf_fields_def finite_whole spent_states_def)
qed (simp_all add: demo_spent_def spent_record_def in_state_def)

definition "demo_completed = with_field ''tokenDigest'' (J_Str (refreshTokensDigest demo_env demo_held)) (with_field ''completed'' (J_Bool True) demo_dispatched)"

lemma released_fact: "released_lease demo_env demo_dispatched (Some demo_held) = Some (json_text (J_Obj demo_completed))"
  by (simp add: released_lease_def dispatched_fact demo_completed_def)

lemma active_truthy: "truthy (Some (J_Str demo_active_key))"
  by (simp add: truthy_def demo_active_key_def lit_def)

lemmas more_defs = commit_outcome_def storeRefresh_def store_attempt_def MAX_GRANT_WRITES_def completing_def refreshIssuer_def of_sum_def
  releaseRefresh_def resolveRefreshSpent_def storage_delete_def adoptRefresh_def

lemmas facts = commit_facts encode_fact dispatched_fact spent_fact released_fact active_truthy


definition brief :: "('l, 'e, unit, 's) world \<Rightarrow> rat \<times> 's \<times> jstr set \<times> flow_event list \<times> 'l \<times> ('l, 'e, unit) prog" where
  "brief w = (wd_now w, wd_store w, wd_uuids w, wd_log w, wd_local w 1, wd_prog w 1)"

lemma brief_literal: "brief \<lparr>wd_now = t, wd_store = s, wd_limbo = L, wd_uuids = U, wd_log = lg, wd_local = l, wd_prog = p\<rparr> = (t, s, U, lg, l 1, p 1)"
  by (simp add: brief_def)

definition "demo_resolved = settled_spent Resolved 0 demo_spent"

definition demo_store2 :: mem_store where
  "demo_store2 = \<lparr>ms_map = [(GRANT, 0, \<lparr>me_value = json_text (J_Obj demo_grant2), me_exp = None\<rparr>),
     (demo_lease_key, 1, \<lparr>me_value = json_text (J_Obj demo_completed), me_exp = None\<rparr>),
     (demo_spent_key, 3, \<lparr>me_value = json_text (J_Obj demo_resolved), me_exp = None\<rparr>)], ms_sweep = 0, ms_next = 4\<rparr>"

lemma first_run:
  "brief (run_alone 0 (Some demo_answer) demo_prog [lit ''h''] demo_world) =
     (0, demo_store2, {lit ''h''}, [Sent 0 (Some (lit ''r'')), Answered 0 demo_answer], demo_local, demo_prog)"
  by (simp cong: lazily add: run_demo run_defs more_defs facts outcome_fact env_simps keys valid apart' demo_world_def demo_store_def demo_local_def grant_facts refreshedSinceRead_def
    holder_fact mem_write_def map_write_def plain_expiry numeral_eq_Suc observe_simps ttl_fact brief_literal demo_store2_def map_delete_def demo_resolved_def)

lemma grant2_facts: "storedGrant (json_text (J_Obj demo_grant2)) = Some demo_grant2" "string_of (field demo_grant2 ''sealed'') = None" "field demo_grant2 ''body'' = Some (J_Obj [(lit ''tokens'', J_Obj demo_held)])"
  "opened_grant demo_grant2 (Some (J_Obj [(lit ''tokens'', J_Obj demo_held)])) = demo_gr2"
  "body_tokens (gr_body demo_gr2) = Some demo_held" "gr_epoch demo_gr2 = lit ''e''" "holds_token (Some demo_held) (Some (lit ''r''))"
proof -
  have "plainObject (parsed (json_text (J_Obj demo_grant2))) = Some demo_grant2"
    by (rule parsed_text) (simp add: demo_grant2_def demo_held_def demo_new_def wf_fields_def lit_def)
  moreover have "counter_of (Some (whole 1)) = Some 1" by (simp add: counter_of_def finite_whole safe_integer_def)
  ultimately show "storedGrant (json_text (J_Obj demo_grant2)) = Some demo_grant2" by (simp add: storedGrant_def demo_grant2_def finite_whole)
  show "opened_grant demo_grant2 (Some (J_Obj [(lit ''tokens'', J_Obj demo_held)])) = demo_gr2"
    using \<open>counter_of (Some (whole 1)) = Some 1\<close>
   by (simp add: demo_grant2_def demo_gr2_def opened_grant_def stored_observation_def stored_epoch_def finite_number_def
    grantBody_def plainObject_def tokensBody_def demo_held_def demo_new_def clientBody_def discoveryIssuer_def consentBody_def body_tokens_def json_field_def
    given_def)
qed (simp_all add: demo_grant2_def demo_gr2_def body_tokens_def plainObject_def demo_held_def demo_new_def holds_token_def requested_json_def)


lemma completed_facts:
  "plainObject None = None"
  "plainObject (parsed (json_text (J_Obj demo_completed))) = Some demo_completed"
  "proof_lease demo_completed" "field demo_completed ''tokenDigest'' = Some (J_Str (refreshTokensDigest demo_env demo_held))"
  "field demo_completed ''verdict'' = None" "is_completed (Some demo_completed)" "in_state demo_completed ''claimed'' = False"
proof -
  have "wf_fields demo_completed" by (simp add: demo_completed_def demo_dispatched_def wf_claimed)
  then show "plainObject (parsed (json_text (J_Obj demo_completed))) = Some demo_completed" by (rule parsed_text)
qed (simp_all add: plainObject_def demo_completed_def demo_dispatched_def proof_lease_def is_completed_def in_state_def claimed_lease_def)

lemma respend_fact: "may_respend (lit ''e'') (lit ''r'') (Some demo_completed) True body (json_text (J_Obj demo_resolved))"
proof -
  have "wf_fields demo_spent" by (simp add: demo_spent_def spent_record_def wf_fields_def)
  then have "storedRefreshSpent (Some (json_text (J_Obj demo_resolved))) = Some demo_resolved"
    by (intro spent_text) (simp_all add: demo_resolved_def settled_spent_def resolution_name_def spent_states_def finite_whole,
        simp_all add: demo_spent_def spent_record_def finite_whole)
  then show ?thesis
    by (simp add: may_respend_def completed_facts demo_resolved_def settled_spent_def in_state_def resolution_name_def)
      (simp add: demo_spent_def spent_record_def demo_completed_def demo_dispatched_def claimed_fields)
qed

lemma second_run:
  assumes "brief w = (0, demo_store2, {lit ''h''}, lg, demo_local, demo_prog)"
  shows "wd_log (run_alone 1 None demo_prog [lit ''g''] w) = lg @ [Sent 1 (Some (lit ''r''))]"
proof -
  have w: "wd_now w = 0" "wd_store w = demo_store2" "wd_uuids w = {lit ''h''}" "wd_log w = lg" "wd_local w (Suc 0) = demo_local"
    using assms by (simp_all add: brief_def)
  show ?thesis
    by (simp cong: lazily add: w run_demo run_defs env_simps keys valid apart' demo_local_def demo_store2_def grant2_facts refreshedSinceRead_def
        completed_facts respend_fact holder_fact mem_write_def map_write_def plain_expiry numeral_eq_Suc observe_simps ttl_fact)
qed

definition demo_end :: "(redeemer, oauth_error, unit, mem_store) world" where
  "demo_end = run_alone 1 None demo_prog [lit ''g''] (run_alone 0 (Some demo_answer) demo_prog [lit ''h''] demo_world)"

lemma demo_reachable: "reachable (flows_start demo_env demo_requests) (flow_step mem_act harmless) demo_end"
proof -
  let ?reach = "reachable (flows_start demo_env demo_requests) (flow_step mem_act harmless)"
  let ?w = "run_alone 0 (Some demo_answer) demo_prog [lit ''h''] demo_world"
  have "flows_start demo_env demo_requests demo_world"
    by (simp add: flows_start_def demo_world_def demo_prog_def demo_requests_def demo_local_def demo_store_def mem_wf_def)
  then have "?reach (goes_on 0 demo_prog demo_world)"
    by (simp add: demo_world_def reachable.start fun_upd_idem)
  then have "?reach ?w" by (rule run_alone_reaches)
  moreover have "goes_on 1 demo_prog ?w = ?w"
    using first_run by (simp add: brief_def fun_upd_idem)
  ultimately have "?reach (goes_on 1 demo_prog ?w)" by simp
  then show ?thesis unfolding demo_end_def by (rule run_alone_reaches)
qed

text \<open>The non-rotating server answers the first redemption, and the second one sends the same token again.\<close>

theorem refresh_token_sent_once_witness:
  "wd_log demo_end = [Sent 0 (Some (lit ''r'')), Answered 0 demo_answer, Sent 1 (Some (lit ''r''))] \<and> single_use (wd_log demo_end)"
  using refresh_token_sent_once [OF demo_reachable] second_run [OF first_run] by (simp add: demo_end_def)

end
