(* ===== verification/Auth_Admission.thy ===== *)
theory Auth_Admission
  imports Connecta_Prelude
begin

text \<open>
  Admission of inbound authentication (\<^verbatim>\<open>auth-admission.ts\<close>): counters shared by every request of an isolate, a
  charge per admitted authentication, and the releases that race for it. A charge is named by a number; the plain records
  of the module are a map from charges to their states. What happens to a charge (native work is tracked, work settles,
  its timer fires, the collector frees its token) is a step, in any order and also after the charge was released.
\<close>

section \<open>State\<close>

definition AUTHENTICATION_CONCURRENCY :: int where
  "AUTHENTICATION_CONCURRENCY = 16"

definition ABANDONED_ALLOWANCE :: int where
  "ABANDONED_ALLOWANCE = 16"

datatype charge_state = Active | Abandoned | Released

text \<open>
  The module's variables, with the variable \<^verbatim>\<open>remaining\<close> and the armed timer of every invocation; \<open>aa_overdue\<close>
  is the insertion-ordered set of overdue charges.
\<close>

record auth_admission =
  aa_active :: int
  aa_abandoned :: int
  aa_unreachable :: nat
  aa_overdue :: "nat list"
  aa_charges :: "nat \<rightharpoonup> charge_state"
  aa_remaining :: "nat \<Rightarrow> int"
  aa_timers :: "nat set"

definition aa_init :: "auth_admission \<Rightarrow> bool" where
  "aa_init s \<longleftrightarrow> s = \<lparr>aa_active = 0, aa_abandoned = 0, aa_unreachable = 0, aa_overdue = [], aa_charges = Map.empty,
     aa_remaining = (\<lambda>_. 0), aa_timers = {}\<rparr>"

record auth_snapshot =
  as_active :: int
  as_limit :: int
  as_abandoned :: int
  as_abandonedLimit :: int
  as_abandonedSaturated :: bool
  as_unreachableRelease :: bool

text \<open>
  The runtime modelled has a \<^verbatim>\<open>FinalizationRegistry\<close>, so the last field is true; on a
  runtime without one it is false and the step \<^verbatim>\<open>token_freed\<close> is never made.
\<close>

definition authenticationSnapshot :: "auth_admission \<Rightarrow> auth_snapshot" where
  "authenticationSnapshot s =
     \<lparr>as_active = aa_active s, as_limit = AUTHENTICATION_CONCURRENCY, as_abandoned = aa_abandoned s,
      as_abandonedLimit = ABANDONED_ALLOWANCE, as_abandonedSaturated = (ABANDONED_ALLOWANCE \<le> aa_abandoned s),
      as_unreachableRelease = True\<rparr>"

section \<open>Operations\<close>

definition abandon :: "nat \<Rightarrow> auth_admission \<Rightarrow> auth_admission" where
  "abandon c s =
     (if aa_charges s c \<noteq> Some Active then s
      else if ABANDONED_ALLOWANCE \<le> aa_abandoned s then
        s\<lparr>aa_overdue := (if c \<in> set (aa_overdue s) then aa_overdue s else aa_overdue s @ [c])\<rparr>
      else s\<lparr>aa_charges := (aa_charges s)(c \<mapsto> Abandoned), aa_active := aa_active s - 1, aa_abandoned := aa_abandoned s + 1\<rparr>)"

text \<open>The loop at the end of \<^verbatim>\<open>release\<close>: overdue charges move into the room that became free.\<close>

primrec admit_overdue :: "nat list \<Rightarrow> auth_admission \<Rightarrow> auth_admission" where
  "admit_overdue [] s = s"
| "admit_overdue (c # cs) s =
     (if ABANDONED_ALLOWANCE \<le> aa_abandoned s then s
      else admit_overdue cs (abandon c (s\<lparr>aa_overdue := remove1 c (aa_overdue s)\<rparr>)))"

definition charge_dropped :: "nat \<Rightarrow> auth_admission \<Rightarrow> auth_admission" where
  "charge_dropped c s =
     (let s1 = s\<lparr>aa_overdue := remove1 c (aa_overdue s)\<rparr>;
          s2 = (if aa_charges s c = Some Active then s1\<lparr>aa_active := aa_active s1 - 1\<rparr>
                else s1\<lparr>aa_abandoned := aa_abandoned s1 - 1\<rparr>)
      in s2\<lparr>aa_charges := (aa_charges s2)(c \<mapsto> Released)\<rparr>)"

definition release_charge :: "nat \<Rightarrow> auth_admission \<Rightarrow> bool \<times> auth_admission" where
  "release_charge c s =
     (if aa_charges s c = Some Released then (False, s)
      else let s1 = charge_dropped c s in (True, admit_overdue (aa_overdue s1) s1))"

text \<open>The callback of the collector.\<close>

definition collected :: "nat \<Rightarrow> auth_admission \<Rightarrow> auth_admission" where
  "collected c s = (case release_charge c s of
      (True, s1) \<Rightarrow> s1\<lparr>aa_unreachable := aa_unreachable s1 + 1\<rparr> | (False, s1) \<Rightarrow> s1)"

definition finish :: "nat \<Rightarrow> auth_admission \<Rightarrow> auth_admission" where
  "finish c s =
     (let s1 = s\<lparr>aa_remaining := (aa_remaining s)(c := aa_remaining s c - 1)\<rparr> in
      if aa_remaining s1 c \<noteq> 0 then s1
      else snd (release_charge c (s1\<lparr>aa_timers := aa_timers s1 - {c}\<rparr>)))"

definition track :: "nat \<Rightarrow> auth_admission \<Rightarrow> auth_admission" where
  "track c s = s\<lparr>aa_remaining := (aa_remaining s)(c := aa_remaining s c + 1)\<rparr>"

definition arm_deadline :: "nat \<Rightarrow> auth_admission \<Rightarrow> auth_admission" where
  "arm_deadline c s = s\<lparr>aa_timers := insert c (aa_timers s)\<rparr>"

datatype busy_reason = Authentication_Busy | Authentication_Abandoned_Saturated

text \<open>The synchronous entry of \<^verbatim>\<open>authenticate\<close>, up to the call of the adapter; \<open>c\<close> is a new charge.\<close>

definition authenticate :: "nat \<Rightarrow> auth_admission \<Rightarrow> (busy_reason + unit) \<times> auth_admission" where
  "authenticate c s =
     (let s1 = (if 0 < aa_unreachable s then s\<lparr>aa_unreachable := 0\<rparr> else s) in
      if AUTHENTICATION_CONCURRENCY \<le> aa_active s1 \<or> ABANDONED_ALLOWANCE \<le> aa_abandoned s1 then
        (Inl (if ABANDONED_ALLOWANCE \<le> aa_abandoned s1 then Authentication_Abandoned_Saturated else Authentication_Busy), s1)
      else
        (Inr (), arm_deadline c (s1\<lparr>aa_active := aa_active s1 + 1, aa_charges := (aa_charges s1)(c \<mapsto> Active),
           aa_remaining := (aa_remaining s1)(c := 1)\<rparr>)))"

section \<open>Steps\<close>

inductive aa_step :: "auth_admission \<Rightarrow> auth_admission \<Rightarrow> bool" where
  arrives: "aa_charges s c = None \<Longrightarrow> aa_step s (snd (authenticate c s))"
| tracks: "aa_charges s c \<noteq> None \<Longrightarrow> aa_step s (track c s)"
| rearms: "aa_charges s c \<noteq> None \<Longrightarrow> aa_step s (arm_deadline c s)"
| settles: "aa_charges s c \<noteq> None \<Longrightarrow> aa_step s (finish c s)"
| timer_fires: "c \<in> aa_timers s \<Longrightarrow> aa_step s (abandon c (s\<lparr>aa_timers := aa_timers s - {c}\<rparr>))"
| token_freed: "aa_charges s c \<noteq> None \<Longrightarrow> aa_step s (collected c s)"

section \<open>Invariant\<close>

definition in_charge :: "charge_state \<Rightarrow> auth_admission \<Rightarrow> nat set" where
  "in_charge x s = {c. aa_charges s c = Some x}"

text \<open>The counters count, the overdue charges are active ones, and none waits while there is room.\<close>

definition counted :: "auth_admission \<Rightarrow> bool" where
  "counted s \<longleftrightarrow> finite (dom (aa_charges s)) \<and>
     aa_active s = int (card (in_charge Active s)) \<and> aa_abandoned s = int (card (in_charge Abandoned s)) \<and>
     aa_active s \<le> AUTHENTICATION_CONCURRENCY \<and> aa_abandoned s \<le> ABANDONED_ALLOWANCE \<and>
     distinct (aa_overdue s) \<and> set (aa_overdue s) \<subseteq> in_charge Active s"

definition aa_inv :: "auth_admission \<Rightarrow> bool" where
  "aa_inv s \<longleftrightarrow> counted s \<and> (aa_overdue s \<noteq> [] \<longrightarrow> aa_abandoned s = ABANDONED_ALLOWANCE)"

lemma in_charge_finite [simp]: "finite (dom (aa_charges s)) \<Longrightarrow> finite (in_charge x s)"
  by (rule finite_subset [of _ "dom (aa_charges s)"]) (auto simp: in_charge_def)

lemma in_charge_simps [simp]:
  "in_charge x (s\<lparr>aa_active := a\<rparr>) = in_charge x s" "in_charge x (s\<lparr>aa_abandoned := a\<rparr>) = in_charge x s"
  "in_charge x (s\<lparr>aa_unreachable := u\<rparr>) = in_charge x s" "in_charge x (s\<lparr>aa_overdue := ov\<rparr>) = in_charge x s"
  "in_charge x (s\<lparr>aa_remaining := r\<rparr>) = in_charge x s" "in_charge x (s\<lparr>aa_timers := tm\<rparr>) = in_charge x s"
  by (simp_all add: in_charge_def)

lemma in_charge_update [simp]:
  "in_charge x (u\<lparr>aa_charges := (aa_charges s)(c \<mapsto> y)\<rparr>) = (if x = y then insert c (in_charge x s) else in_charge x s - {c})"
  by (auto simp: in_charge_def)

lemma counted_frame [simp]:
  "counted (s\<lparr>aa_unreachable := u\<rparr>) = counted s" "counted (s\<lparr>aa_remaining := r\<rparr>) = counted s"
  "counted (s\<lparr>aa_timers := tm\<rparr>) = counted s"
  by (simp_all add: counted_def)

lemma inv_frame [simp]:
  "aa_inv (s\<lparr>aa_unreachable := u\<rparr>) = aa_inv s" "aa_inv (s\<lparr>aa_remaining := r\<rparr>) = aa_inv s"
  "aa_inv (s\<lparr>aa_timers := tm\<rparr>) = aa_inv s"
  by (simp_all add: aa_inv_def)

lemma counted_abandon:
  assumes "counted s" "c \<notin> set (aa_overdue s) \<or> ABANDONED_ALLOWANCE \<le> aa_abandoned s"
  shows "counted (abandon c s)"
proof (cases "aa_charges s c = Some Active \<and> aa_abandoned s < ABANDONED_ALLOWANCE")
  case True
  then have "c \<in> in_charge Active s" "c \<notin> in_charge Abandoned s" by (auto simp: in_charge_def)
  with True assms card_gt_0_iff [of "in_charge Active s"] show ?thesis
    by (auto simp: abandon_def counted_def card_Diff_singleton int_ops)
next
  case False
  with assms show ?thesis by (auto simp: abandon_def counted_def in_charge_def)
qed

lemma inv_abandon:
  assumes "aa_inv s"
  shows "aa_inv (abandon c s)"
proof -
  have "c \<notin> set (aa_overdue s) \<or> ABANDONED_ALLOWANCE \<le> aa_abandoned s" using assms by (auto simp: aa_inv_def)
  with assms have "counted (abandon c s)" by (intro counted_abandon) (simp_all add: aa_inv_def)
  with assms show ?thesis by (auto simp: aa_inv_def abandon_def counted_def)
qed

lemma abandon_room:
  "c \<notin> set (aa_overdue s) \<Longrightarrow> \<not> ABANDONED_ALLOWANCE \<le> aa_abandoned s \<Longrightarrow> aa_overdue (abandon c s) = aa_overdue s"
  by (simp add: abandon_def)

text \<open>The loop restores what the release of an abandoned charge may break: either it fills the room or it empties the set.\<close>

lemma inv_admit_overdue:
  assumes "counted s" "aa_overdue s = cs"
  shows "aa_inv (admit_overdue cs s)"
  using assms
proof (induction cs arbitrary: s)
  case (Cons c cs)
  let ?s = "s\<lparr>aa_overdue := remove1 c (aa_overdue s)\<rparr>"
  have d: "c \<notin> set cs" "counted ?s" using Cons.prems by (auto simp: counted_def)
  show ?case
  proof (cases "ABANDONED_ALLOWANCE \<le> aa_abandoned s")
    case True
    with Cons.prems show ?thesis by (simp add: aa_inv_def counted_def)
  next
    case False
    have "counted (abandon c ?s)" using d Cons.prems(2) by (intro counted_abandon) auto
    with Cons.IH [of "abandon c ?s"] Cons.prems(2) d(1) False show ?thesis by (simp add: abandon_room)
  qed
qed (simp add: aa_inv_def)

lemma counted_dropped:
  assumes "counted s" "aa_charges s c \<in> {Some Active, Some Abandoned}"
  shows "counted (charge_dropped c s)"
proof (cases "aa_charges s c = Some Active")
  case True
  then have "c \<in> in_charge Active s" "c \<notin> in_charge Abandoned s" by (simp_all add: in_charge_def)
  with True assms(1) card_gt_0_iff [of "in_charge Active s"] show ?thesis
    by (auto simp: charge_dropped_def counted_def card_Diff_singleton int_ops)
next
  case False
  with assms(2) have "c \<notin> in_charge Active s" "c \<in> in_charge Abandoned s" by (simp_all add: in_charge_def)
  with False assms(1) card_gt_0_iff [of "in_charge Abandoned s"] show ?thesis
    by (auto simp: charge_dropped_def counted_def card_Diff_singleton int_ops remove1_idem subset_iff)
qed

lemma inv_release:
  assumes "aa_inv s" "aa_charges s c \<noteq> None"
  shows "aa_inv (snd (release_charge c s))"
proof (cases "aa_charges s c = Some Released")
  case False
  with assms(2) have "aa_charges s c \<in> {Some Active, Some Abandoned}" by (cases "the (aa_charges s c)") auto
  with assms(1) have "counted (charge_dropped c s)" by (intro counted_dropped) (simp_all add: aa_inv_def)
  with False show ?thesis by (simp add: release_charge_def Let_def inv_admit_overdue)
qed (use assms in \<open>simp add: release_charge_def\<close>)

lemma inv_authenticate:
  assumes "aa_inv s" "aa_charges s c = None"
  shows "aa_inv (snd (authenticate c s))"
proof -
  have "c \<notin> in_charge x s" for x using assms(2) by (simp add: in_charge_def)
  with assms show ?thesis
    by (auto simp: authenticate_def arm_deadline_def Let_def aa_inv_def counted_def)
qed

lemma inv_step: "aa_step s t \<Longrightarrow> aa_inv s \<Longrightarrow> aa_inv t"
  by (induction rule: aa_step.induct)
    (auto simp: inv_authenticate track_def arm_deadline_def finish_def Let_def inv_release inv_abandon collected_def
      split: prod.split bool.split dest: inv_release)

lemma inv_init: "aa_init s \<Longrightarrow> aa_inv s"
  by (simp add: aa_init_def aa_inv_def counted_def in_charge_def AUTHENTICATION_CONCURRENCY_def ABANDONED_ALLOWANCE_def)

lemma inv_bounds:
  assumes "aa_inv s"
  shows "card (in_charge Active s) \<le> 16" "card (in_charge Abandoned s) \<le> 16" "length (aa_overdue s) \<le> 16"
proof -
  show active: "card (in_charge Active s) \<le> 16" and "card (in_charge Abandoned s) \<le> 16"
    using assms by (simp_all add: aa_inv_def counted_def AUTHENTICATION_CONCURRENCY_def ABANDONED_ALLOWANCE_def)
  have "length (aa_overdue s) \<le> card (in_charge Active s)"
    using assms distinct_card [of "aa_overdue s"] card_mono [of "in_charge Active s" "set (aa_overdue s)"]
    by (simp add: aa_inv_def counted_def)
  with active show "length (aa_overdue s) \<le> 16" by simp
qed

interpretation auth_pool: slot_pool aa_init aa_step aa_inv "\<lambda>s. card (in_charge Active s)" "\<lambda>s. length (aa_overdue s)" "\<lambda>_. Some 16" "\<lambda>_. 16"
  by unfold_locales (auto intro: inv_init inv_step inv_bounds)

text \<open>A released charge stays released: of the releases that race for it, the first one counts.\<close>

lemma abandon_charges: "aa_charges s c = Some Released \<Longrightarrow> aa_charges (abandon d s) c = Some Released"
  by (auto simp: abandon_def)

lemma admit_overdue_charges: "aa_charges s c = Some Released \<Longrightarrow> aa_charges (admit_overdue cs s) c = Some Released"
  by (induction cs arbitrary: s) (auto simp: abandon_charges)

lemma release_charges: "aa_charges s c = Some Released \<Longrightarrow> aa_charges (snd (release_charge d s)) c = Some Released"
  by (auto simp: release_charge_def charge_dropped_def Let_def admit_overdue_charges)

lemma released_step: "aa_step s t \<Longrightarrow> aa_charges s c = Some Released \<Longrightarrow> aa_charges t c = Some Released"
proof (induction rule: aa_step.induct)
  case (token_freed s d)
  then have "aa_charges (snd (release_charge d s)) c = Some Released" by (intro release_charges)
  then show ?case by (cases "release_charge d s") (auto simp: collected_def split: bool.split)
qed (auto simp: authenticate_def Let_def arm_deadline_def track_def finish_def abandon_charges release_charges)

text \<open>
  C18. However authentications settle, stall, time out and are collected, at most sixteen are active and at most sixteen
  more are abandoned, which is what the health counters report; an overdue one keeps its active slot only while the
  allowance is full; and a charge once released is never counted again.
\<close>

theorem authentication_capacity:
  assumes "reachable aa_init aa_step s"
  shows "card (in_charge Active s) \<le> 16 \<and> card (in_charge Abandoned s) \<le> 16 \<and>
    as_active (authenticationSnapshot s) = int (card (in_charge Active s)) \<and>
    as_abandoned (authenticationSnapshot s) = int (card (in_charge Abandoned s)) \<and>
    (aa_overdue s \<noteq> [] \<longrightarrow> as_abandonedSaturated (authenticationSnapshot s)) \<and>
    (\<forall>t c. reachable (\<lambda>x. x = s) aa_step t \<and> aa_charges s c = Some Released \<longrightarrow> aa_charges t c = Some Released)"
proof -
  have inv: "aa_inv s" by (rule auth_pool.reachable_invar [OF assms])
  have "aa_charges t c = Some Released" if "reachable (\<lambda>x. x = s) aa_step t" "aa_charges s c = Some Released" for t c
    using that(1) by (rule reachable_invariant) (use that(2) in \<open>auto dest: released_step\<close>)
  with inv inv_bounds [OF inv] show ?thesis by (auto simp: authenticationSnapshot_def aa_inv_def counted_def)
qed

theorem authentication_capacity_witness:
  "\<exists>s t. reachable aa_init aa_step s \<and> card (in_charge Active s) \<le> 16 \<and> as_active (authenticationSnapshot s) = 0 \<and>
     reachable (\<lambda>x. x = s) aa_step t \<and> as_active (authenticationSnapshot t) = 1 \<and> aa_charges t 0 = Some Released \<and> aa_charges t 1 = Some Active"
proof -
  define s0 :: auth_admission where "s0 = \<lparr>aa_active = 0, aa_abandoned = 0, aa_unreachable = 0, aa_overdue = [],
    aa_charges = Map.empty, aa_remaining = (\<lambda>_. 0), aa_timers = {}\<rparr>"
  define s1 where "s1 = snd (authenticate 0 s0)"
  define s2 where "s2 = finish 0 s1"
  define s3 where "s3 = snd (authenticate 1 s2)"
  note defs = s3_def s2_def s1_def s0_def authenticate_def Let_def arm_deadline_def finish_def release_charge_def charge_dropped_def
    AUTHENTICATION_CONCURRENCY_def ABANDONED_ALLOWANCE_def authenticationSnapshot_def
  have "aa_step s0 s1" unfolding s1_def by (rule arrives) (simp add: s0_def)
  moreover have "aa_step s1 s2" unfolding s2_def by (rule settles) (simp add: defs)
  moreover have "reachable aa_init aa_step s0" by (rule reachable.start) (simp add: aa_init_def s0_def)
  ultimately have r: "reachable aa_init aa_step s2" by (meson reachable.step)
  have "aa_step s2 s3" unfolding s3_def by (rule arrives) (simp add: defs)
  then have t: "reachable (\<lambda>x. x = s2) aa_step s3"
    using reachable.start [of "\<lambda>x. x = s2" s2] by (auto intro: reachable.step)
  have released: "aa_charges s2 0 = Some Released" by (simp add: defs)
  have "as_active (authenticationSnapshot s2) = 0" "as_active (authenticationSnapshot s3) = 1" "aa_charges s3 1 = Some Active"
    by (simp_all add: defs)
  with authentication_capacity [OF r] r t released show ?thesis by blast
qed

end
