(* ===== verification/Access_Tokens.thy ===== *)
theory Access_Tokens
  imports Token_Response Membership
begin

text \<open>
  Agent tokens (\<^verbatim>\<open>access-tokens.ts\<close>): one slot per agent declared in code, which names the one record whose
  secret admits. Records, the lookups from a digest to a record, slots and adoption claims are JSON texts in the shared
  store; issuing, revoking and adopting are programs of storage calls, each inside the window of its operation. The
  programs have the form of \<^verbatim>\<open>Auth_Flow\<close>: \<open>Caller_Signal\<close> is the request's own signal and
  \<open>Waiting_Signal\<close> the timer of the window. Digests and the platform's reading of dates are fields of an
  environment.
\<close>

section \<open>Shapes\<close>

definition url64_unit :: "code_unit \<Rightarrow> bool" where
  "url64_unit c \<longleftrightarrow> 0x41 \<le> c \<and> c \<le> 0x5a \<or> 0x61 \<le> c \<and> c \<le> 0x7a \<or> digit_unit c \<or> c = 0x5f \<or> c = 0x2d"

definition hex_unit :: "code_unit \<Rightarrow> bool" where
  "hex_unit c \<longleftrightarrow> digit_unit c \<or> 0x61 \<le> c \<and> c \<le> 0x66"

definition TOKEN_PREFIX :: jstr where
  "TOKEN_PREFIX = lit ''cta_''"

text \<open>\<^verbatim>\<open>TOKEN_VALUE_RE\<close>, \<^verbatim>\<open>REVISION_RE\<close> and the prefix a record keeps of its token.\<close>

definition token_shaped :: "nat \<Rightarrow> jstr \<Rightarrow> bool" where
  "token_shaped n s \<longleftrightarrow> take 4 s = TOKEN_PREFIX \<and> length (drop 4 s) = n \<and> list_all url64_unit (drop 4 s)"

definition isSlotRevision :: "jstr \<Rightarrow> bool" where
  "isSlotRevision s \<longleftrightarrow> length s = 22 \<and> list_all url64_unit s"

definition id_shaped :: "jstr \<Rightarrow> bool" where
  "id_shaped s \<longleftrightarrow> length s = 36 \<and>
     list_all (\<lambda>i. if i \<in> {8, 13, 18, 23} then s ! i = 0x2d else hex_unit (s ! i)) [0..<36]"

definition hash_shaped :: "jstr \<Rightarrow> bool" where
  "hash_shaped s \<longleftrightarrow> length s = 64 \<and> list_all hex_unit s"

definition MAX_NAME_CHARACTERS :: nat where
  "MAX_NAME_CHARACTERS = 80"

text \<open>\<^verbatim>\<open>Array.from(s).length\<close>: a surrogate pair counts once.\<close>

fun character_count :: "jstr \<Rightarrow> nat" where
  "character_count (c # d # cs) =
     (if high_surrogate c \<and> low_surrogate d then Suc (character_count cs) else Suc (character_count (d # cs)))"
| "character_count [c] = 1"
| "character_count [] = 0"

section \<open>Times\<close>

text \<open>\<^verbatim>\<open>new Date(ms).toISOString()\<close>, by the calendar's cycle of 400 years.\<close>

definition civil_date :: "int \<Rightarrow> int \<times> int \<times> int" where
  "civil_date day =
     (let z = day + 719468; era = z div 146097; doe = z mod 146097;
          yoe = (doe - doe div 1460 + doe div 36524 - doe div 146096) div 365;
          doy = doe - (365 * yoe + yoe div 4 - yoe div 100);
          mp = (5 * doy + 2) div 153;
          m = (if mp < 10 then mp + 3 else mp - 9)
      in (yoe + era * 400 + (if m \<le> 2 then 1 else 0), m, doy - (153 * mp + 2) div 5 + 1))"

definition padded :: "nat \<Rightarrow> int \<Rightarrow> jstr" where
  "padded n i = (let d = decimal (nat i) in replicate (n - length d) 0x30 @ d)"

definition year_text :: "int \<Rightarrow> jstr" where
  "year_text y = (if 0 \<le> y \<and> y \<le> 9999 then padded 4 y else (if y < 0 then 0x2d else 0x2b) # padded 6 \<bar>y\<bar>)"

definition toISOString :: "int \<Rightarrow> jstr" where
  "toISOString ms =
     (let t = ms mod 86400000; (y, m, d) = civil_date (ms div 86400000) in
      year_text y @ lit ''-'' @ padded 2 m @ lit ''-'' @ padded 2 d @ lit ''T'' @ padded 2 (t div 3600000) @ lit '':'' @
      padded 2 (t div 60000 mod 60) @ lit '':'' @ padded 2 (t div 1000 mod 60) @ lit ''.'' @ padded 3 (t mod 1000) @ lit ''Z'')"

section \<open>Records\<close>

text \<open>
  The environment: declared agents in order, the digest of a token, the revision digest, and whether the platform's
  \<^verbatim>\<open>Date.parse\<close> reads a text, which for most texts is up to the platform.
\<close>

record token_env =
  te_agents :: "jstr list"
  te_sha256 :: "jstr \<Rightarrow> jstr"
  te_revision :: "jstr \<Rightarrow> jstr"
  te_dateParse :: "jstr \<Rightarrow> bool"

record stored_token =
  st_id :: jstr
  st_name :: jstr
  st_tokenHash :: jstr
  st_tokenPrefix :: jstr
  st_createdAt :: jstr
  st_createdBy :: jstr
  st_principal :: "identity_reference option"
  st_agent :: "jstr option"
  st_revokedAt :: "jstr option"

datatype stored_slot = Issued jstr jstr | Revoked jstr "json option"

datatype agent_slot =
    No_Slot jstr jstr
  | Issued_Slot jstr jstr jstr
  | Revoked_Slot jstr jstr jstr

text \<open>The codes of \<^verbatim>\<open>AccessTokenError\<close>, and what else a program may throw.\<close>

datatype token_error =
    Unknown_Agent_Name | Conflict | Slot_Changed | Not_Adoptable | Operation_Aborted | Outcome_Unknown
  | Stored_Corrupted | Store_Failed | Bad_Storage_Key | Timed_Out

definition is_access_token_error :: "token_error \<Rightarrow> bool" where
  "is_access_token_error e \<longleftrightarrow>
     e \<in> {Unknown_Agent_Name, Conflict, Slot_Changed, Not_Adoptable, Operation_Aborted, Outcome_Unknown}"

definition version_1 :: "fields \<Rightarrow> bool" where
  "version_1 fs \<longleftrightarrow> finite_number (field fs ''version'') = Some 1"

definition unreadable_claim :: jstr where
  "unreadable_claim = lit ''<unreadable claim>''"

definition parseClaim :: "jstr \<Rightarrow> jstr" where
  "parseClaim raw =
     (case plainObject (parsed raw) of
        None \<Rightarrow> unreadable_claim
      | Some fs \<Rightarrow>
          (case string_of (field fs ''agent'') of
             Some a \<Rightarrow> if version_1 fs \<and> isAgentName a then a else unreadable_claim
           | None \<Rightarrow> unreadable_claim))"

definition isTime :: "token_env \<Rightarrow> json option \<Rightarrow> bool" where
  "isTime env v = (case string_of v of Some s \<Rightarrow> s \<noteq> [] \<and> te_dateParse env s | None \<Rightarrow> False)"

definition principal_of :: "json option \<Rightarrow> identity_reference option" where
  "principal_of v =
     (case plainObject v of
        None \<Rightarrow> None
      | Some fs \<Rightarrow>
          (case (string_of (field fs ''namespace''), string_of (field fs ''id'')) of
             (Some n, Some i) \<Rightarrow> (let r = \<lparr>ref_namespace = n, ref_id = i\<rparr> in if validIdentityReference r then Some r else None)
           | _ \<Rightarrow> None))"

definition text_field :: "fields \<Rightarrow> string \<Rightarrow> jstr" where
  "text_field fs name = (case string_of (field fs name) of Some s \<Rightarrow> s | None \<Rightarrow> [])"

definition record_valid :: "token_env \<Rightarrow> fields \<Rightarrow> bool" where
  "record_valid env fs \<longleftrightarrow>
     version_1 fs \<and>
     string_of (field fs ''id'') \<noteq> None \<and> id_shaped (text_field fs ''id'') \<and>
     string_of (field fs ''name'') \<noteq> None \<and> js_trim (text_field fs ''name'') \<noteq> [] \<and>
     character_count (text_field fs ''name'') \<le> MAX_NAME_CHARACTERS \<and>
     string_of (field fs ''tokenHash'') \<noteq> None \<and> hash_shaped (text_field fs ''tokenHash'') \<and>
     string_of (field fs ''tokenPrefix'') \<noteq> None \<and> token_shaped 8 (text_field fs ''tokenPrefix'') \<and>
     isTime env (field fs ''createdAt'') \<and>
     string_of (field fs ''createdBy'') \<noteq> None \<and>
     (field fs ''principal'' = None \<or> principal_of (field fs ''principal'') \<noteq> None) \<and>
     (field fs ''agent'' = None \<or> (case string_of (field fs ''agent'') of Some a \<Rightarrow> isAgentName a | None \<Rightarrow> False)) \<and>
     (field fs ''revokedAt'' = None \<or> isTime env (field fs ''revokedAt'')) \<and>
     (field fs ''revokedBy'' = None \<or> string_of (field fs ''revokedBy'') \<noteq> None)"

definition parseRecord :: "token_env \<Rightarrow> jstr \<Rightarrow> token_error + stored_token" where
  "parseRecord env raw =
     (case plainObject (parsed raw) of
        None \<Rightarrow> Inl Stored_Corrupted
      | Some fs \<Rightarrow>
          if record_valid env fs then
            Inr \<lparr>st_id = text_field fs ''id'', st_name = text_field fs ''name'', st_tokenHash = text_field fs ''tokenHash'',
              st_tokenPrefix = text_field fs ''tokenPrefix'', st_createdAt = text_field fs ''createdAt'',
              st_createdBy = text_field fs ''createdBy'', st_principal = principal_of (field fs ''principal''),
              st_agent = string_of (field fs ''agent''), st_revokedAt = string_of (field fs ''revokedAt'')\<rparr>
          else Inl Stored_Corrupted)"

definition parseLookup :: "jstr \<Rightarrow> jstr option" where
  "parseLookup raw =
     (case plainObject (parsed raw) of
        None \<Rightarrow> None
      | Some fs \<Rightarrow>
          (case string_of (field fs ''id'') of
             Some i \<Rightarrow> if version_1 fs \<and> id_shaped i then Some i else None
           | None \<Rightarrow> None))"

definition parseSlot :: "token_env \<Rightarrow> jstr \<Rightarrow> jstr \<Rightarrow> token_error + stored_slot" where
  "parseSlot env raw ag =
     (case plainObject (parsed raw) of
        None \<Rightarrow> Inl Stored_Corrupted
      | Some fs \<Rightarrow>
          if version_1 fs \<and> field fs ''agent'' = Some (J_Str ag) then
            if field fs ''state'' = Some (J_Str (lit ''issued'')) then
              (case string_of (field fs ''tokenId'') of
                 Some i \<Rightarrow> if id_shaped i \<and> isTime env (field fs ''issuedAt'') then Inr (Issued i (text_field fs ''issuedAt''))
                   else Inl Stored_Corrupted
               | None \<Rightarrow> Inl Stored_Corrupted)
            else if field fs ''state'' = Some (J_Str (lit ''revoked'')) \<and> isTime env (field fs ''revokedAt'') then
              Inr (Revoked (text_field fs ''revokedAt'') (field fs ''revocationId''))
            else Inl Stored_Corrupted
          else Inl Stored_Corrupted)"

text \<open>The texts the programs write.\<close>

definition record_text :: "jstr \<Rightarrow> jstr \<Rightarrow> jstr \<Rightarrow> jstr \<Rightarrow> jstr \<Rightarrow> jstr \<Rightarrow> jstr" where
  "record_text rid ag hash prefix createdAt createdBy =
     json_text (J_Obj [(lit ''version'', whole 1), (lit ''id'', J_Str rid), (lit ''name'', J_Str ag),
       (lit ''tokenHash'', J_Str hash), (lit ''tokenPrefix'', J_Str prefix), (lit ''createdAt'', J_Str createdAt),
       (lit ''createdBy'', J_Str createdBy), (lit ''agent'', J_Str ag)])"

definition lookup_text :: "jstr \<Rightarrow> jstr" where
  "lookup_text rid = json_text (J_Obj [(lit ''version'', whole 1), (lit ''id'', J_Str rid)])"

definition claim_text :: "jstr \<Rightarrow> jstr" where
  "claim_text ag = json_text (J_Obj [(lit ''version'', whole 1), (lit ''agent'', J_Str ag)])"

definition issued_text :: "jstr \<Rightarrow> jstr \<Rightarrow> jstr \<Rightarrow> jstr" where
  "issued_text ag rid issuedAt =
     json_text (J_Obj [(lit ''version'', whole 1), (lit ''agent'', J_Str ag), (lit ''state'', J_Str (lit ''issued'')),
       (lit ''tokenId'', J_Str rid), (lit ''issuedAt'', J_Str issuedAt)])"

definition revokedSlot :: "jstr \<Rightarrow> jstr \<Rightarrow> jstr \<Rightarrow> jstr" where
  "revokedSlot ag revokedAt revocationId =
     json_text (J_Obj [(lit ''version'', whole 1), (lit ''agent'', J_Str ag), (lit ''state'', J_Str (lit ''revoked'')),
       (lit ''revokedAt'', J_Str revokedAt), (lit ''revocationId'', J_Str revocationId)])"

definition slotRevision :: "token_env \<Rightarrow> jstr \<Rightarrow> jstr option \<Rightarrow> jstr" where
  "slotRevision env ag raw =
     te_revision env (lit ''connecta:access-token-slot-revision:v1'' @ [0x0a] @ ag @ [0x0a] @
       (case raw of None \<Rightarrow> lit ''none'' | Some r \<Rightarrow> lit ''slot:'' @ r))"

definition matchesExpected :: "token_env \<Rightarrow> jstr \<Rightarrow> jstr option \<Rightarrow> jstr option \<Rightarrow> bool" where
  "matchesExpected env ag raw expect \<longleftrightarrow> expect = None \<or> Some (slotRevision env ag raw) = expect"

definition slotView :: "token_env \<Rightarrow> jstr \<Rightarrow> jstr option \<Rightarrow> stored_slot option \<Rightarrow> agent_slot" where
  "slotView env name raw slot =
     (case slot of
        None \<Rightarrow> No_Slot name (slotRevision env name raw)
      | Some (Issued _ issuedAt) \<Rightarrow> Issued_Slot name issuedAt (slotRevision env name raw)
      | Some (Revoked revokedAt _) \<Rightarrow> Revoked_Slot name revokedAt (slotRevision env name raw))"

section \<open>Storage calls and the window\<close>

text \<open>
  The variables of \<^verbatim>\<open>adopt\<close> that its handler reads: whether the claim's answer is awaited, and the record
  written for the agent with its text.
\<close>

record token_vars =
  tv_claimed :: bool
  tv_record :: "(jstr \<times> jstr) option"

type_synonym 'a tokens = "(token_vars, token_error, 'a) prog"

definition kv_get :: "key_error + jstr \<Rightarrow> jstr option tokens" where
  "kv_get k = (case k of Inl _ \<Rightarrow> Throw Bad_Storage_Key
     | Inr key \<Rightarrow> Store (Get key) (\<lambda>r. case r of Some (Got v) \<Rightarrow> Ret v | _ \<Rightarrow> Throw Store_Failed))"

definition kv_list :: "jstr \<Rightarrow> jstr list tokens" where
  "kv_list p = Store (List_Keys p) (\<lambda>r. case r of Some (Listed ks) \<Rightarrow> Ret ks | _ \<Rightarrow> Throw Store_Failed)"

definition kv_set :: "key_error + jstr \<Rightarrow> jstr \<Rightarrow> unit tokens" where
  "kv_set k v = (case k of Inl _ \<Rightarrow> Throw Bad_Storage_Key
     | Inr key \<Rightarrow> Store (Set_Key key v plain_write) (\<lambda>r. case r of Some Done \<Rightarrow> Ret () | _ \<Rightarrow> Throw Store_Failed))"

definition kv_cas :: "key_error + jstr \<Rightarrow> jstr option \<Rightarrow> jstr option \<Rightarrow> bool tokens" where
  "kv_cas k expected new = (case k of Inl _ \<Rightarrow> Throw Bad_Storage_Key
     | Inr key \<Rightarrow> Store (Compare_And_Set key expected new plain_write)
         (\<lambda>r. case r of Some (Swapped b) \<Rightarrow> Ret b | _ \<Rightarrow> Throw Store_Failed))"

definition throwIfAborted :: "unit tokens" where
  "throwIfAborted = check_signal Caller_Signal Operation_Aborted"

definition RECONCILE_ATTEMPTS :: nat where
  "RECONCILE_ATTEMPTS = 8"

definition OPERATION_WINDOW_MS :: int where
  "OPERATION_WINDOW_MS = 2000"

text \<open>\<^verbatim>\<open>OperationWindow\<close>, given by the time it ends at.\<close>

definition window_end :: "int option \<Rightarrow> int \<Rightarrow> int" where
  "window_end deadline now =
     (case deadline of None \<Rightarrow> now + OPERATION_WINDOW_MS | Some d \<Rightarrow> min (now + OPERATION_WINDOW_MS) d)"

definition window_settle :: "int \<Rightarrow> 'a \<Rightarrow> 'a tokens" where
  "window_settle endsAt v = Clock (\<lambda>now. if now < endsAt then Ret v else Throw Outcome_Unknown)"

definition window_run :: "int \<Rightarrow> 'a tokens \<Rightarrow> 'a tokens" where
  "window_run endsAt p =
     Clock (\<lambda>now. if endsAt - now \<le> 0 then Throw Outcome_Unknown else interruptible Waiting_Signal Outcome_Unknown p)"

text \<open>A loop of \<^verbatim>\<open>RECONCILE_ATTEMPTS\<close> rounds while the window is open; a round that gives nothing is followed by another.\<close>

primrec reconcile :: "nat \<Rightarrow> int \<Rightarrow> 'a option tokens \<Rightarrow> 'a tokens" where
  "reconcile 0 endsAt trial = Throw Outcome_Unknown"
| "reconcile (Suc n) endsAt trial =
     Clock (\<lambda>now. if endsAt \<le> now then Throw Outcome_Unknown
       else after trial (\<lambda>r. case r of Some v \<Rightarrow> Ret v | None \<Rightarrow> reconcile n endsAt trial))"

text \<open>What was thrown before anything was published: a caller that left hears \<^verbatim>\<open>aborted\<close>.\<close>

definition unless_aborted :: "token_error \<Rightarrow> 'a tokens" where
  "unless_aborted e = (if e = Outcome_Unknown then after throwIfAborted (\<lambda>_. Throw e) else Throw e)"

section \<open>Reads\<close>

definition parsed_or_throw :: "token_error + 'a \<Rightarrow> 'a tokens" where
  "parsed_or_throw r = (case r of Inl e \<Rightarrow> Throw e | Inr a \<Rightarrow> Ret a)"

definition read_record :: "token_env \<Rightarrow> jstr \<Rightarrow> stored_token option tokens" where
  "read_record env rid =
     (if \<not> id_shaped rid then Ret None
      else after (kv_get (accessTokenKeys_record rid)) (\<lambda>raw.
        case raw of
          None \<Rightarrow> Ret None
        | Some r \<Rightarrow>
            if r = [] then Ret None
            else after (parsed_or_throw (parseRecord env r)) (\<lambda>rec.
              if st_id rec \<noteq> rid then Throw Stored_Corrupted else Ret (Some rec))))"

definition readSlot :: "token_env \<Rightarrow> jstr \<Rightarrow> (jstr option \<times> stored_slot option) tokens" where
  "readSlot env name =
     after (kv_get (accessTokenKeys_agent name)) (\<lambda>raw.
     case raw of
       None \<Rightarrow> Ret (None, None)
     | Some r \<Rightarrow> after (parsed_or_throw (parseSlot env r name)) (\<lambda>slot. Ret (Some r, Some slot)))"

definition names_token :: "stored_slot option \<Rightarrow> jstr \<Rightarrow> bool" where
  "names_token slot rid = (case slot of Some (Issued i _) \<Rightarrow> i = rid | _ \<Rightarrow> False)"

text \<open>\<^verbatim>\<open>list\<close>; its slots are read side by side, here in order.\<close>

primrec list_slots :: "token_env \<Rightarrow> jstr list \<Rightarrow> agent_slot list tokens" where
  "list_slots env [] = Ret []"
| "list_slots env (name # names) =
     after (readSlot env name) (\<lambda>(raw, slot).
     after (list_slots env names) (\<lambda>rest. Ret (slotView env name raw slot # rest)))"

definition slotNames :: "token_env \<Rightarrow> int \<Rightarrow> jstr \<Rightarrow> jstr \<Rightarrow> bool tokens" where
  "slotNames env endsAt ag rid =
     reconcile RECONCILE_ATTEMPTS endsAt
       (attempt (after (window_run endsAt (readSlot env ag)) (\<lambda>(_, slot). Ret (Some (names_token slot rid))))
          (\<lambda>e. if e = Outcome_Unknown then Throw e else Ret None))"

section \<open>Revocation\<close>

definition revokeIfNamed :: "token_env \<Rightarrow> int \<Rightarrow> jstr \<Rightarrow> jstr \<Rightarrow> unit tokens" where
  "revokeIfNamed env endsAt ag rid =
     Uuid (\<lambda>revocationId.
     reconcile RECONCILE_ATTEMPTS endsAt
       (attempt
          (after (window_run endsAt (readSlot env ag)) (\<lambda>(raw, slot).
           if \<not> names_token slot rid then Ret (Some ())
           else Clock (\<lambda>now.
             after (window_run endsAt (kv_cas (accessTokenKeys_agent ag) raw (Some (revokedSlot ag (toISOString now) revocationId))))
               (\<lambda>swapped. Ret (if swapped then Some () else None)))))
          (\<lambda>e. if e = Outcome_Unknown then Throw e else Ret None)))"

definition slot_issued :: "stored_slot option \<Rightarrow> bool" where
  "slot_issued slot = (case slot of Some (Issued _ _) \<Rightarrow> True | _ \<Rightarrow> False)"

definition revoked_here :: "stored_slot option \<Rightarrow> jstr \<Rightarrow> bool" where
  "revoked_here slot revocationId = (case slot of Some (Revoked _ x) \<Rightarrow> x = Some (J_Str revocationId) | _ \<Rightarrow> False)"

text \<open>The slot a revocation stored, as it is shown.\<close>

definition revoked_view :: "token_env \<Rightarrow> jstr \<Rightarrow> jstr \<Rightarrow> jstr \<Rightarrow> agent_slot" where
  "revoked_view env ag revokedAt revocationId =
     slotView env ag (Some (revokedSlot ag revokedAt revocationId)) (Some (Revoked revokedAt (Some (J_Str revocationId))))"

text \<open>One more try from a given text of the slot; \<open>None\<close> when it was refused.\<close>

definition revoke_from :: "token_env \<Rightarrow> int \<Rightarrow> jstr \<Rightarrow> jstr option \<Rightarrow> jstr \<Rightarrow> agent_slot option tokens" where
  "revoke_from env endsAt ag raw revocationId =
     Clock (\<lambda>now. let since = toISOString now in
     after (window_run endsAt (kv_cas (accessTokenKeys_agent ag) raw (Some (revokedSlot ag since revocationId)))) (\<lambda>swapped.
     if swapped then after (window_settle endsAt (revoked_view env ag since revocationId)) (\<lambda>v. Ret (Some v)) else Ret None))"

definition settleRevocation :: "token_env \<Rightarrow> int \<Rightarrow> jstr \<Rightarrow> jstr option \<Rightarrow> jstr \<Rightarrow> agent_slot tokens" where
  "settleRevocation env endsAt ag raw revocationId =
     reconcile RECONCILE_ATTEMPTS endsAt
       (attempt
          (after (window_run endsAt (readSlot env ag)) (\<lambda>(current, slot).
           if revoked_here slot revocationId then
             after (window_settle endsAt (slotView env ag current slot)) (\<lambda>v. Ret (Some v))
           else if current \<noteq> raw then Throw Slot_Changed
           else revoke_from env endsAt ag raw revocationId))
          (\<lambda>e. if is_access_token_error e then Throw e else Ret None))"

definition revoke_whatever :: "token_env \<Rightarrow> int \<Rightarrow> jstr \<Rightarrow> jstr \<Rightarrow> agent_slot tokens" where
  "revoke_whatever env endsAt ag revocationId =
     reconcile RECONCILE_ATTEMPTS endsAt
       (attempt
          (after (window_run endsAt (readSlot env ag)) (\<lambda>(current, slot).
           if \<not> slot_issued slot then
             after (window_settle endsAt (slotView env ag current slot)) (\<lambda>v. Ret (Some v))
           else revoke_from env endsAt ag current revocationId))
          (\<lambda>e. if is_access_token_error e then Throw e else Ret None))"

text \<open>The commit of \<^verbatim>\<open>revoke\<close>: true, false, or not answered.\<close>

definition revoke_commit ::
    "token_env \<Rightarrow> int \<Rightarrow> jstr \<Rightarrow> jstr option \<Rightarrow> jstr option \<Rightarrow> jstr \<Rightarrow> jstr \<Rightarrow> agent_slot tokens" where
  "revoke_commit env endsAt ag raw expect since revocationId =
     after (attempt
         (after (window_run endsAt (kv_cas (accessTokenKeys_agent ag) raw (Some (revokedSlot ag since revocationId)))) (\<lambda>b. Ret (Some b)))
         (\<lambda>e. if e = Outcome_Unknown then Throw e else Ret None)) (\<lambda>answer.
     case answer of
       Some True \<Rightarrow> window_settle endsAt (revoked_view env ag since revocationId)
     | Some False \<Rightarrow> if expect \<noteq> None then Throw Slot_Changed else revoke_whatever env endsAt ag revocationId
     | None \<Rightarrow> if expect \<noteq> None then settleRevocation env endsAt ag raw revocationId
         else revoke_whatever env endsAt ag revocationId)"

definition revoke :: "token_env \<Rightarrow> jstr \<Rightarrow> int option \<Rightarrow> jstr option \<Rightarrow> agent_slot tokens" where
  "revoke env ag deadline expect =
     after throwIfAborted (\<lambda>_.
     if ag \<notin> set (te_agents env) then Throw Unknown_Agent_Name
     else Clock (\<lambda>now. let endsAt = window_end deadline now in
       after (attempt (window_run endsAt (readSlot env ag)) unless_aborted) (\<lambda>(raw, slot).
       if \<not> matchesExpected env ag raw expect then Throw Slot_Changed
       else if \<not> slot_issued slot then window_settle endsAt (slotView env ag raw slot)
       else after throwIfAborted (\<lambda>_.
         Uuid (\<lambda>revocationId. Clock (\<lambda>now. revoke_commit env endsAt ag raw expect (toISOString now) revocationId))))))"

section \<open>Rotation\<close>

text \<open>One conditional delete, whatever becomes of it.\<close>

definition drop_own :: "int \<Rightarrow> key_error + jstr \<Rightarrow> jstr \<Rightarrow> unit tokens" where
  "drop_own endsAt k raw = attempt (after (window_run endsAt (kv_cas k (Some raw) None)) (\<lambda>_. Ret ())) (\<lambda>_. Ret ())"

definition discard_own :: "int \<Rightarrow> jstr \<Rightarrow> jstr \<Rightarrow> jstr \<Rightarrow> unit tokens" where
  "discard_own endsAt hash rid recordRaw =
     after (drop_own endsAt (accessTokenKeys_lookup hash) (lookup_text rid)) (\<lambda>_.
     drop_own endsAt (accessTokenKeys_record rid) recordRaw)"

definition write_own :: "int \<Rightarrow> jstr \<Rightarrow> jstr \<Rightarrow> jstr \<Rightarrow> unit tokens" where
  "write_own endsAt hash rid recordRaw =
     after (window_run endsAt (kv_get (accessTokenKeys_lookup hash))) (\<lambda>found.
     if found \<noteq> None \<and> found \<noteq> Some [] then Throw Conflict
     else
       after throwIfAborted (\<lambda>_.
       after (window_run endsAt (kv_set (accessTokenKeys_record rid) recordRaw)) (\<lambda>_.
       after (window_run endsAt (kv_set (accessTokenKeys_lookup hash) (lookup_text rid))) (\<lambda>_.
       throwIfAborted))))"

text \<open>The commit of a rotation or an adoption; a commit without an answer is read back.\<close>

definition commit_slot :: "token_env \<Rightarrow> int \<Rightarrow> jstr \<Rightarrow> jstr option \<Rightarrow> jstr \<Rightarrow> jstr \<Rightarrow> bool tokens" where
  "commit_slot env endsAt ag raw nextRaw rid =
     attempt (window_run endsAt (kv_cas (accessTokenKeys_agent ag) raw (Some nextRaw)))
       (\<lambda>e. if e = Outcome_Unknown then Throw e
          else after (slotNames env endsAt ag rid) (\<lambda>named. if named then Ret True else Throw e))"

text \<open>From the new secret on.\<close>

definition issue_token ::
    "token_env \<Rightarrow> int \<Rightarrow> jstr \<Rightarrow> jstr option \<Rightarrow> jstr option \<Rightarrow> jstr \<Rightarrow> jstr \<Rightarrow> jstr \<Rightarrow> jstr \<Rightarrow> (jstr \<times> agent_slot) tokens" where
  "issue_token env endsAt ag raw expect issuedBy token rid createdAt =
     (let hash = te_sha256 env token;
          recordRaw = record_text rid ag hash (take 12 token) createdAt issuedBy;
          nextRaw = issued_text ag rid createdAt;
          shown = slotView env ag (Some nextRaw) (Some (Issued rid createdAt))
      in
      after (attempt (write_own endsAt hash rid recordRaw)
        (\<lambda>e. after (discard_own endsAt hash rid recordRaw) (\<lambda>_. unless_aborted e))) (\<lambda>_.
      after (commit_slot env endsAt ag raw nextRaw rid) (\<lambda>committed.
      if \<not> committed then
        after (discard_own endsAt hash rid recordRaw) (\<lambda>_. Throw (if expect \<noteq> None then Slot_Changed else Conflict))
      else Halted Caller_Signal (\<lambda>gone.
        if \<not> gone then window_settle endsAt (token, shown)
        else after (revokeIfNamed env endsAt ag rid) (\<lambda>_. Throw Operation_Aborted)))))"

text \<open>
  \<^verbatim>\<open>rotate\<close>. The random bytes of a token, as their 43 characters, are drawn like the identifiers: no two draws
  are the same.
\<close>

definition rotate :: "token_env \<Rightarrow> jstr \<Rightarrow> jstr \<Rightarrow> int option \<Rightarrow> jstr option \<Rightarrow> (jstr \<times> agent_slot) tokens" where
  "rotate env ag issuedBy deadline expect =
     after throwIfAborted (\<lambda>_.
     if ag \<notin> set (te_agents env) then Throw Unknown_Agent_Name
     else Clock (\<lambda>now. let endsAt = window_end deadline now in
       after (attempt (window_run endsAt (readSlot env ag)) unless_aborted) (\<lambda>(raw, _).
       if \<not> matchesExpected env ag raw expect then Throw Slot_Changed
       else Uuid (\<lambda>secret. Uuid (\<lambda>rid. Clock (\<lambda>now.
         issue_token env endsAt ag raw expect issuedBy (TOKEN_PREFIX @ secret) rid (toISOString now)))))))"

section \<open>Adoption\<close>

text \<open>
  \<^verbatim>\<open>completeAdoption\<close>: the digest's lookup moves from the legacy record to the record the slot names; when another
  agent's adoption took it first, the slot is revoked.
\<close>

definition completeAdoption ::
    "token_env \<Rightarrow> int \<Rightarrow> jstr \<Rightarrow> jstr \<Rightarrow> jstr \<Rightarrow> jstr option \<Rightarrow> stored_token \<Rightarrow> agent_slot tokens" where
  "completeAdoption env endsAt ag rid issuedAt slotRaw legacy =
     (let key = accessTokenKeys_lookup (st_tokenHash legacy);
          shown = slotView env ag slotRaw (Some (Issued rid issuedAt))
      in
      reconcile RECONCILE_ATTEMPTS endsAt
        (attempt
           (after (window_run endsAt (kv_get key)) (\<lambda>current.
            let found = Option.bind current parseLookup in
            if found = Some rid then Ret (Some shown)
            else if current = None \<or> found \<noteq> Some (st_id legacy) then
              after (revokeIfNamed env endsAt ag rid) (\<lambda>_. Throw Conflict)
            else
              after (window_run endsAt (kv_cas key current (Some (lookup_text rid)))) (\<lambda>swapped.
              Ret (if swapped then Some shown else None))))
           (\<lambda>e. if is_access_token_error e then Throw e else Ret None)))"

primrec agentCarrying :: "token_env \<Rightarrow> int \<Rightarrow> jstr \<Rightarrow> jstr list \<Rightarrow> jstr option tokens" where
  "agentCarrying env endsAt digest [] = Ret None"
| "agentCarrying env endsAt digest (name # names) =
     after (window_run endsAt (readSlot env name)) (\<lambda>(_, slot).
     case slot of
       Some (Issued rid _) \<Rightarrow>
         after (window_run endsAt (read_record env rid)) (\<lambda>named.
         if map_option st_tokenHash named = Some digest then Ret (Some name) else agentCarrying env endsAt digest names)
     | _ \<Rightarrow> agentCarrying env endsAt digest names)"

text \<open>The legacy record, if \<^verbatim>\<open>adopt\<close> may take it at all.\<close>

definition adoptable_record :: "token_env \<Rightarrow> int \<Rightarrow> jstr \<Rightarrow> stored_token tokens" where
  "adoptable_record env endsAt tokenId =
     after (window_run endsAt (read_record env tokenId)) (\<lambda>found.
     case found of
       None \<Rightarrow> Throw Not_Adoptable
     | Some legacy \<Rightarrow>
         if st_agent legacy \<noteq> None \<or> st_principal legacy \<noteq> None \<or> st_revokedAt legacy \<noteq> None then Throw Not_Adoptable
         else Ret legacy)"

text \<open>The write-once claim of a legacy record.\<close>

definition take_claim :: "int \<Rightarrow> jstr \<Rightarrow> jstr \<Rightarrow> unit tokens" where
  "take_claim endsAt ag legacyId =
     after (modify (\<lambda>v. v\<lparr>tv_claimed := True\<rparr>)) (\<lambda>_.
     after (window_run endsAt (kv_cas (accessTokenKeys_adopted legacyId) None (Some (claim_text ag)))) (\<lambda>won.
     after (if won then Ret ()
       else after (window_run endsAt (kv_get (accessTokenKeys_adopted legacyId))) (\<lambda>now.
         case now of
           None \<Rightarrow> Throw Not_Adoptable
         | Some r \<Rightarrow> if parseClaim r \<noteq> ag then Throw Not_Adoptable else Ret ())) (\<lambda>_.
     modify (\<lambda>v. v\<lparr>tv_claimed := False\<rparr>))))"

text \<open>The record of the adopting agent.\<close>

definition record_adoption :: "token_env \<Rightarrow> int \<Rightarrow> jstr \<Rightarrow> stored_token \<Rightarrow> unit tokens" where
  "record_adoption env endsAt ag legacy =
     Uuid (\<lambda>rid. Clock (\<lambda>now.
     let recordRaw = record_text rid ag (st_tokenHash legacy) (st_tokenPrefix legacy) (toISOString now) (lit ''adoption'') in
     after (modify (\<lambda>v. v\<lparr>tv_record := Some (rid, recordRaw)\<rparr>)) (\<lambda>_.
     after (window_run endsAt (kv_set (accessTokenKeys_record rid) recordRaw)) (\<lambda>_.
     throwIfAborted))))"

text \<open>The rest of the first part, once the slot was found empty: the lookup, other holders, the claim and the record.\<close>

definition prepare_adoption :: "token_env \<Rightarrow> int \<Rightarrow> jstr \<Rightarrow> stored_token \<Rightarrow> jstr option \<Rightarrow> unit tokens" where
  "prepare_adoption env endsAt ag legacy claimant =
     after (window_run endsAt (kv_get (accessTokenKeys_lookup (st_tokenHash legacy)))) (\<lambda>lookupRaw.
     if lookupRaw = Some [] \<or> Option.bind lookupRaw parseLookup \<noteq> Some (st_id legacy) then Throw Not_Adoptable
     else
       after (agentCarrying env endsAt (st_tokenHash legacy) (te_agents env)) (\<lambda>holder.
       if holder \<noteq> None then Throw Not_Adoptable
       else
         after throwIfAborted (\<lambda>_.
         after (if claimant = None then take_claim endsAt ag (st_id legacy) else Ret ()) (\<lambda>_.
         record_adoption env endsAt ag legacy))))"

text \<open>An adoption that was already committed is completed, \<open>Inl\<close>; otherwise the record is ready to commit.\<close>

definition resume_adoption ::
    "token_env \<Rightarrow> int \<Rightarrow> jstr \<Rightarrow> jstr option \<Rightarrow> stored_token \<Rightarrow> jstr \<Rightarrow> jstr \<Rightarrow> (agent_slot + stored_token \<times> jstr option) tokens" where
  "resume_adoption env endsAt ag slotRaw legacy rid issuedAt =
     after (window_run endsAt (read_record env rid)) (\<lambda>named.
     if map_option st_tokenHash named = Some (st_tokenHash legacy) then
       after (completeAdoption env endsAt ag rid issuedAt slotRaw legacy) (\<lambda>v.
       after (window_settle endsAt v) (\<lambda>v. Ret (Inl v)))
     else Throw Not_Adoptable)"

definition enter_slot ::
    "token_env \<Rightarrow> int \<Rightarrow> jstr \<Rightarrow> jstr option \<Rightarrow> stored_token \<Rightarrow> jstr option \<Rightarrow> (agent_slot + stored_token \<times> jstr option) tokens" where
  "enter_slot env endsAt ag expect legacy claimant =
     after (window_run endsAt (readSlot env ag)) (\<lambda>(slotRaw, slot).
     if \<not> matchesExpected env ag slotRaw expect then Throw Slot_Changed
     else case slot of
       Some (Issued rid issuedAt) \<Rightarrow> resume_adoption env endsAt ag slotRaw legacy rid issuedAt
     | Some (Revoked _ _) \<Rightarrow> Throw Not_Adoptable
     | None \<Rightarrow> after (prepare_adoption env endsAt ag legacy claimant) (\<lambda>_. Ret (Inr (legacy, slotRaw))))"

text \<open>The first part.\<close>

definition begin_adoption ::
    "token_env \<Rightarrow> int \<Rightarrow> jstr \<Rightarrow> jstr \<Rightarrow> jstr option \<Rightarrow> (agent_slot + stored_token \<times> jstr option) tokens" where
  "begin_adoption env endsAt tokenId ag expect =
     after (adoptable_record env endsAt tokenId) (\<lambda>legacy.
     after (window_run endsAt (kv_get (accessTokenKeys_adopted (st_id legacy)))) (\<lambda>claimRaw.
     let claimant = map_option parseClaim claimRaw in
     if claimant \<noteq> None \<and> claimant \<noteq> Some ag then Throw Not_Adoptable
     else enter_slot env endsAt ag expect legacy claimant))"

definition adoption_failed :: "int \<Rightarrow> token_error \<Rightarrow> 'a tokens" where
  "adoption_failed endsAt e =
     Peek (\<lambda>v.
     after (case tv_record v of
         Some (rid, recordRaw) \<Rightarrow> drop_own endsAt (accessTokenKeys_record rid) recordRaw | None \<Rightarrow> Ret ()) (\<lambda>_.
     if tv_claimed v then Throw e else unless_aborted e))"

text \<open>The second part, from the commit on.\<close>

definition finish_adoption ::
    "token_env \<Rightarrow> int \<Rightarrow> jstr \<Rightarrow> jstr option \<Rightarrow> stored_token \<Rightarrow> jstr option \<Rightarrow> jstr \<Rightarrow> jstr \<Rightarrow> agent_slot tokens" where
  "finish_adoption env endsAt ag expect legacy slotRaw rid recordRaw =
     (let nextRaw = issued_text ag rid (st_createdAt legacy) in
      after (commit_slot env endsAt ag slotRaw nextRaw rid) (\<lambda>committed.
      if committed then
        after (completeAdoption env endsAt ag rid (st_createdAt legacy) (Some nextRaw) legacy) (window_settle endsAt)
      else
        after (drop_own endsAt (accessTokenKeys_record rid) recordRaw) (\<lambda>_.
        if expect \<noteq> None then Throw Slot_Changed
        else
          after (window_run endsAt (readSlot env ag)) (\<lambda>(currentRaw, current).
          case current of
            Some (Issued i issuedAt) \<Rightarrow>
              after (window_run endsAt (read_record env i)) (\<lambda>named.
              if map_option st_tokenHash named = Some (st_tokenHash legacy) then
                after (completeAdoption env endsAt ag i issuedAt currentRaw legacy) (window_settle endsAt)
              else Throw Conflict)
          | _ \<Rightarrow> Throw Conflict))))"

definition adopt :: "token_env \<Rightarrow> jstr \<Rightarrow> jstr \<Rightarrow> int option \<Rightarrow> jstr option \<Rightarrow> agent_slot tokens" where
  "adopt env tokenId ag deadline expect =
     after throwIfAborted (\<lambda>_.
     if ag \<notin> set (te_agents env) then Throw Unknown_Agent_Name
     else Clock (\<lambda>now. let endsAt = window_end deadline now in
       Poke \<lparr>tv_claimed = False, tv_record = None\<rparr>
       (after (attempt (begin_adoption env endsAt tokenId ag expect) (adoption_failed endsAt)) (\<lambda>begun.
        case begun of
          Inl v \<Rightarrow> Ret v
        | Inr (legacy, slotRaw) \<Rightarrow>
            Peek (\<lambda>v. case tv_record v of
                Some (rid, recordRaw) \<Rightarrow> finish_adoption env endsAt ag expect legacy slotRaw rid recordRaw
              | None \<Rightarrow> Throw Store_Failed)))))"

section \<open>Legacy tokens\<close>

text \<open>\<^verbatim>\<open>unboundTokens\<close>: records that do not parse are passed over; the reads of one step are in order here.\<close>

primrec stored_records :: "token_env \<Rightarrow> jstr list \<Rightarrow> stored_token list tokens" where
  "stored_records env [] = Ret []"
| "stored_records env (k # ks) =
     after (kv_get (Inr k)) (\<lambda>raw.
     after (stored_records env ks) (\<lambda>rest.
     Ret (case raw of
        Some r \<Rightarrow> if r = [] then rest else (case parseRecord env r of Inr rec \<Rightarrow> rec # rest | Inl _ \<Rightarrow> rest)
      | None \<Rightarrow> rest)))"

primrec carried_digests :: "token_env \<Rightarrow> jstr list \<Rightarrow> jstr list tokens" where
  "carried_digests env [] = Ret []"
| "carried_digests env (name # names) =
     after (readSlot env name) (\<lambda>(_, slot).
     after (case slot of Some (Issued rid _) \<Rightarrow> read_record env rid | _ \<Rightarrow> Ret None) (\<lambda>named.
     after (carried_digests env names) (\<lambda>rest.
     Ret (case named of Some rec \<Rightarrow> st_tokenHash rec # rest | None \<Rightarrow> rest))))"

primrec still_adoptable :: "jstr list \<Rightarrow> stored_token list \<Rightarrow> stored_token list tokens" where
  "still_adoptable carried [] = Ret []"
| "still_adoptable carried (rec # recs) =
     (if st_agent rec \<noteq> None \<or> st_principal rec \<noteq> None \<or> st_revokedAt rec \<noteq> None \<or> st_tokenHash rec \<in> set carried
      then still_adoptable carried recs
      else after (kv_get (accessTokenKeys_adopted (st_id rec))) (\<lambda>claim.
        if claim \<noteq> None then still_adoptable carried recs
        else after (kv_get (accessTokenKeys_lookup (st_tokenHash rec))) (\<lambda>lookup.
          after (still_adoptable carried recs) (\<lambda>rest.
          Ret (if lookup \<noteq> Some [] \<and> Option.bind lookup parseLookup = Some (st_id rec) then rec # rest else rest)))))"

definition access_record_prefix :: jstr where
  "access_record_prefix = lit ''access-token:v1:record:''"

text \<open>The records before they are sorted by their creation times, for which the platform's collation is used.\<close>

definition unboundTokens :: "token_env \<Rightarrow> stored_token list tokens" where
  "unboundTokens env =
     after (kv_list access_record_prefix) (\<lambda>ks.
     after (stored_records env ks) (\<lambda>recs.
     after (carried_digests env (te_agents env)) (\<lambda>carried. still_adoptable carried recs)))"

section \<open>Authorization\<close>

text \<open>\<^verbatim>\<open>authorizationCredential\<close> of \<^verbatim>\<open>inbound-credential.ts\<close>: one separator and one token, schemes ignoring case.\<close>

datatype authorization_credential = Absent_Credential | Invalid_Credential | Bearer_Credential jstr

definition credential_unit :: "code_unit \<Rightarrow> bool" where
  "credential_unit c \<longleftrightarrow> url64_unit c \<or> c \<in> {0x2e, 0x7e, 0x2b, 0x2f}"

definition bearer_scheme :: "jstr \<Rightarrow> bool" where
  "bearer_scheme s \<longleftrightarrow> map (\<lambda>c. if 0x41 \<le> c \<and> c \<le> 0x5a then c + 0x20 else c) s = lit ''bearer ''"

definition authorizationCredential :: "jstr option \<Rightarrow> authorization_credential" where
  "authorizationCredential header =
     (case header of
        None \<Rightarrow> Absent_Credential
      | Some h \<Rightarrow>
          (let token = drop 7 h in
           if bearer_scheme (take 7 h) \<and> takeWhile credential_unit token \<noteq> [] \<and>
              list_all (\<lambda>c. c = 0x3d) (dropWhile credential_unit token)
           then Bearer_Credential token else Invalid_Credential))"

definition isMachineCredential :: "jstr option \<Rightarrow> bool" where
  "isMachineCredential header =
     (case authorizationCredential header of Bearer_Credential token \<Rightarrow> starts_with token TOKEN_PREFIX | _ \<Rightarrow> False)"

datatype auth_result = Refused_401 | Admitted jstr jstr

text \<open>The three reads of a shaped token, with its digest; every failure is a refusal.\<close>

definition admit_record :: "token_env \<Rightarrow> jstr \<Rightarrow> jstr \<Rightarrow> stored_token option \<Rightarrow> auth_result tokens" where
  "admit_record env token hash found =
     (let check = check_signal Caller_Signal Timed_Out in
      after check (\<lambda>_.
      case found of
        None \<Rightarrow> Ret Refused_401
      | Some rec \<Rightarrow>
          if st_revokedAt rec \<noteq> None \<or> st_tokenHash rec \<noteq> hash \<or> st_tokenPrefix rec \<noteq> take 12 token then Ret Refused_401
          else if st_principal rec \<noteq> None then Ret Refused_401
          else case st_agent rec of
            None \<Rightarrow> Ret Refused_401
          | Some ag \<Rightarrow>
              if ag \<notin> set (te_agents env) then Ret Refused_401
              else after (readSlot env ag) (\<lambda>(_, slot).
                after check (\<lambda>_.
                Ret (if names_token slot (st_id rec) then Admitted (agentSubjectId ag) ag else Refused_401)))))"

text \<open>
  The keys are read one by one, as on a store without \<^verbatim>\<open>accessToken\<close> (the in-memory one). A
  store over SQL may give \<^verbatim>\<open>authAccessToken\<close> one snapshot of the record, its lookup and its slot
  instead; that call is left out. It answers as these reads do when nothing happens between them.
\<close>

definition authorize_token :: "token_env \<Rightarrow> jstr \<Rightarrow> auth_result tokens" where
  "authorize_token env token =
     (let check = check_signal Caller_Signal Timed_Out; hash = te_sha256 env token in
      after check (\<lambda>_. after check (\<lambda>_.
      after (kv_get (accessTokenKeys_lookup hash)) (\<lambda>lookupRaw.
      after check (\<lambda>_.
      case Option.bind lookupRaw (\<lambda>r. if r = [] then None else parseLookup r) of
        None \<Rightarrow> Ret Refused_401
      | Some rid \<Rightarrow> after (read_record env rid) (admit_record env token hash))))))"

definition authorize :: "token_env \<Rightarrow> jstr option \<Rightarrow> auth_result tokens" where
  "authorize env header =
     attempt
       (case authorizationCredential header of
          Bearer_Credential token \<Rightarrow>
            if \<not> token_shaped 43 token then Ret Refused_401
            else interruptible Caller_Signal Timed_Out (interruptible Waiting_Signal Timed_Out
              (after (check_signal Caller_Signal Timed_Out) (\<lambda>_. authorize_token env token)))
        | _ \<Rightarrow> Ret Refused_401)
       (\<lambda>_. Ret Refused_401)"

end
