(* ===== verification/Token_Slots.thy ===== *)
theory Token_Slots
  imports Access_Tokens
begin

text \<open>
  The shared store of agent tokens under any interleaving of issuing, revoking and adopting. A discipline says which
  calls a program may make in which phase: an identifier it drew is bound to one digest and one agent when a record for
  it is first written, and is offered to a slot once. The invariant of the store then says that a slot names only
  identifiers offered to it, that a digest drawn here belongs to one identifier, and that a digest from before the first
  slot is only ever named by the agent that claimed it.
\<close>

section \<open>Keys and contents\<close>

definition record_key :: "jstr \<Rightarrow> jstr" where
  "record_key r = lit ''access-token:v1:record:'' @ r"

definition lookup_key :: "jstr \<Rightarrow> jstr" where
  "lookup_key h = lit ''access-token:v1:lookup:'' @ h"

definition slot_key :: "jstr \<Rightarrow> jstr" where
  "slot_key ag = lit ''access-token:v1:agent:'' @ ag"

definition claim_key :: "jstr \<Rightarrow> jstr" where
  "claim_key r = lit ''access-token:v1:adopted:'' @ r"

definition token_space :: "jstr \<Rightarrow> bool" where
  "token_space k \<longleftrightarrow> starts_with k (lit ''access-token:v1:'')"

lemma key_builders:
  "accessTokenKeys_record r = Inr k \<Longrightarrow> k = record_key r" "accessTokenKeys_lookup h = Inr k \<Longrightarrow> k = lookup_key h"
  "accessTokenKeys_agent ag = Inr k \<Longrightarrow> k = slot_key ag" "accessTokenKeys_adopted r = Inr k \<Longrightarrow> k = claim_key r"
  by (simp_all add: accessTokenKeys_record_def accessTokenKeys_lookup_def accessTokenKeys_agent_def accessTokenKeys_adopted_def
      keyed_Inr record_key_def lookup_key_def slot_key_def claim_key_def)

lemma keys_inj [simp]:
  "record_key r = record_key r' \<longleftrightarrow> r = r'" "lookup_key r = lookup_key r' \<longleftrightarrow> r = r'"
  "slot_key r = slot_key r' \<longleftrightarrow> r = r'" "claim_key r = claim_key r' \<longleftrightarrow> r = r'"
  by (simp_all add: record_key_def lookup_key_def slot_key_def claim_key_def)

lemma keys_apart [simp]:
  "record_key r \<noteq> lookup_key x" "record_key r \<noteq> slot_key x" "record_key r \<noteq> claim_key x"
  "lookup_key r \<noteq> record_key x" "lookup_key r \<noteq> slot_key x" "lookup_key r \<noteq> claim_key x"
  "slot_key r \<noteq> record_key x" "slot_key r \<noteq> lookup_key x" "slot_key r \<noteq> claim_key x"
  "claim_key r \<noteq> record_key x" "claim_key r \<noteq> lookup_key x" "claim_key r \<noteq> slot_key x"
  by (simp_all add: record_key_def lookup_key_def slot_key_def claim_key_def lit_def)

lemma keys_space [simp]:
  "token_space (record_key r)" "token_space (lookup_key r)" "token_space (slot_key r)" "token_space (claim_key r)"
  by (simp_all add: token_space_def record_key_def lookup_key_def slot_key_def claim_key_def lit_def)

text \<open>The part of a store that belongs to agent tokens, without expiry times: it has none.\<close>

type_synonym contents = "jstr \<rightharpoonup> jstr"

definition token_contents :: "(jstr \<rightharpoonup> timed) \<Rightarrow> contents" where
  "token_contents v = (\<lambda>k. if token_space k then map_option fst (v k) else None)"

definition durable :: "(jstr \<rightharpoonup> timed) \<Rightarrow> bool" where
  "durable v \<longleftrightarrow> (\<forall>k raw x. token_space k \<longrightarrow> v k = Some (raw, x) \<longrightarrow> x = None)"

definition names_id :: "token_env \<Rightarrow> jstr \<Rightarrow> jstr \<Rightarrow> jstr \<Rightarrow> bool" where
  "names_id env ag raw r \<longleftrightarrow> (\<exists>since. parseSlot env raw ag = Inr (Issued r since))"

definition slot_names :: "token_env \<Rightarrow> contents \<Rightarrow> jstr \<Rightarrow> jstr \<Rightarrow> bool" where
  "slot_names env m ag r \<longleftrightarrow> (case m (slot_key ag) of Some raw \<Rightarrow> names_id env ag raw r | None \<Rightarrow> False)"

lemma names_id_unique: "names_id env ag raw r \<Longrightarrow> names_id env ag raw r' \<Longrightarrow> r = r'"
  by (auto simp: names_id_def)

lemma slot_names_unique: "slot_names env m ag r \<Longrightarrow> slot_names env m ag r' \<Longrightarrow> r = r'"
  by (auto simp: slot_names_def dest: names_id_unique split: option.splits)

text \<open>The digest and the agent of a stored record, whether or not the rest of it is valid.\<close>

definition digest_of :: "jstr \<Rightarrow> jstr option" where
  "digest_of raw = Option.bind (plainObject (parsed raw)) (\<lambda>fs. string_of (field fs ''tokenHash''))"

definition agent_of :: "jstr \<Rightarrow> jstr option" where
  "agent_of raw = Option.bind (plainObject (parsed raw)) (\<lambda>fs. string_of (field fs ''agent''))"

lemma parsed_record: "parseRecord env raw = Inr rec \<Longrightarrow> digest_of raw = Some (st_tokenHash rec) \<and> agent_of raw = st_agent rec"
  by (auto simp: parseRecord_def digest_of_def agent_of_def record_valid_def text_field_def split: option.splits if_splits)

section \<open>The discipline\<close>

datatype id_state = Drawn | Used | Bound jstr jstr | Offered jstr jstr

text \<open>What a program drew, and which values it has seen under which keys.\<close>

record token_phase =
  tp_ids :: "jstr \<rightharpoonup> id_state"
  tp_seen :: "(jstr \<times> jstr) set"

definition fresh_phase :: token_phase where
  "fresh_phase = \<lparr>tp_ids = Map.empty, tp_seen = {}\<rparr>"

definition minted :: "token_env \<Rightarrow> jstr \<Rightarrow> jstr" where
  "minted env u = te_sha256 env (TOKEN_PREFIX @ u)"

text \<open>What a program that takes over a digest has seen: the record of an earlier token, its lookup and its claim.\<close>

definition saw_record :: "token_env \<Rightarrow> token_phase \<Rightarrow> jstr \<Rightarrow> jstr \<Rightarrow> bool" where
  "saw_record env g L h \<longleftrightarrow> (\<exists>raw rec. (record_key L, raw) \<in> tp_seen g \<and> parseRecord env raw = Inr rec \<and>
     st_agent rec = None \<and> st_tokenHash rec = h)"

definition took_over :: "token_env \<Rightarrow> token_phase \<Rightarrow> jstr \<Rightarrow> jstr \<Rightarrow> bool" where
  "took_over env g h ag \<longleftrightarrow> (\<exists>L claim pointer. saw_record env g L h \<and>
     (claim_key L, claim) \<in> tp_seen g \<and> parseClaim claim = ag \<and>
     (lookup_key h, pointer) \<in> tp_seen g \<and> parseLookup pointer = Some L)"

definition points_ok :: "jstr set \<Rightarrow> jstr \<Rightarrow> bool" where
  "points_ok A raw \<longleftrightarrow> (\<forall>r. parseLookup raw = Some r \<longrightarrow> r \<in> A)"

text \<open>The identifiers a program may point a lookup to: its own and those it saw in a slot.\<close>

definition known_ids :: "token_env \<Rightarrow> token_phase \<Rightarrow> jstr set" where
  "known_ids env g = dom (tp_ids g) \<union> {r. \<exists>ag raw. (slot_key ag, raw) \<in> tp_seen g \<and> names_id env ag raw r}"

fun token_call :: "token_env \<Rightarrow> token_phase \<Rightarrow> storage_op \<Rightarrow> bool" where
  "token_call env g (Get k) = True"
| "token_call env g (List_Keys p) = True"
| "token_call env g (Delete k) = (\<not> token_space k)"
| "token_call env g (Set_Key k raw opts) =
     (\<not> token_space k \<or> opts = plain_write \<and>
      ((\<exists>r h ag. k = record_key r \<and> tp_ids g r = Some Drawn \<and> digest_of raw = Some h \<and> agent_of raw = Some ag \<and>
          ((\<exists>u. tp_ids g u = Some Drawn \<and> h = minted env u) \<or> (\<exists>L. saw_record env g L h))) \<or>
       (\<exists>h. k = lookup_key h \<and> points_ok (known_ids env g) raw)))"
| "token_call env g (Compare_And_Set k e new opts) =
     (\<not> token_space k \<or> opts = plain_write \<and>
      ((\<exists>r. k = record_key r \<and> r \<in> dom (tp_ids g) \<and> new = None) \<or>
       (\<exists>h. k = lookup_key h \<and> (\<forall>raw. new = Some raw \<longrightarrow> points_ok (known_ids env g) raw)) \<or>
       (\<exists>L raw. k = claim_key L \<and> e = None \<and> new = Some raw) \<or>
       (\<exists>ag raw. k = slot_key ag \<and> new = Some raw \<and>
          (\<forall>r. names_id env ag raw r \<longrightarrow> (\<exists>h. tp_ids g r = Some (Bound h ag) \<and>
             ((\<exists>u. u \<in> dom (tp_ids g) \<and> h = minted env u) \<or> e = None \<and> took_over env g h ag))))))"

definition note_seen :: "jstr \<Rightarrow> jstr option \<Rightarrow> token_phase \<Rightarrow> token_phase" where
  "note_seen k v g = (case v of Some raw \<Rightarrow> g\<lparr>tp_seen := insert (k, raw) (tp_seen g)\<rparr> | None \<Rightarrow> g)"

text \<open>Writing a record binds its identifier and uses up the secret; offering an identifier to a slot is done once.\<close>

definition bind_ids :: "token_env \<Rightarrow> jstr \<Rightarrow> jstr \<Rightarrow> (jstr \<rightharpoonup> id_state) \<Rightarrow> (jstr \<rightharpoonup> id_state)" where
  "bind_ids env k raw ids =
     (\<lambda>x. if k = record_key x \<and> ids x = Some Drawn then
            (case (digest_of raw, agent_of raw) of (Some h, Some ag) \<Rightarrow> Some (Bound h ag) | _ \<Rightarrow> ids x)
          else if (\<exists>r. k = record_key r) \<and> ids x = Some Drawn \<and> digest_of raw = Some (minted env x) then Some Used
          else ids x)"

definition offer_ids :: "token_env \<Rightarrow> jstr \<Rightarrow> jstr \<Rightarrow> (jstr \<rightharpoonup> id_state) \<Rightarrow> (jstr \<rightharpoonup> id_state)" where
  "offer_ids env k raw ids =
     (\<lambda>x. case ids x of
        Some (Bound h ag) \<Rightarrow> if \<exists>ag. k = slot_key ag \<and> names_id env ag raw x then Some (Offered h ag) else ids x
      | _ \<Rightarrow> ids x)"

fun token_reply :: "token_env \<Rightarrow> token_phase \<Rightarrow> storage_op \<Rightarrow> storage_reply option \<Rightarrow> token_phase" where
  "token_reply env g (Get k) r = (case r of Some (Got v) \<Rightarrow> note_seen k v g | _ \<Rightarrow> g)"
| "token_reply env g (Set_Key k raw opts) r = g\<lparr>tp_ids := bind_ids env k raw (tp_ids g)\<rparr>"
| "token_reply env g (Compare_And_Set k e new opts) r =
     (case new of
        None \<Rightarrow> g
      | Some raw \<Rightarrow> (if r = Some (Swapped True) then note_seen k (Some raw) else (\<lambda>g. g))
          (g\<lparr>tp_ids := offer_ids env k raw (tp_ids g)\<rparr>))"
| "token_reply env g _ r = g"

definition draw_id :: "token_phase \<Rightarrow> jstr \<Rightarrow> token_phase" where
  "draw_id g u = (if u \<in> dom (tp_ids g) then g else g\<lparr>tp_ids := (tp_ids g)(u \<mapsto> Drawn)\<rparr>)"

definition token_discipline :: "token_env \<Rightarrow> token_phase discipline" where
  "token_discipline env =
     \<lparr>dc_call = token_call env, dc_reply = token_reply env, dc_uuid = draw_id, dc_send = (\<lambda>_ _. False),
      dc_sent = (\<lambda>g. g), dc_answer = (\<lambda>g _. g)\<rparr>"

lemma token_discipline_simps [simp]:
  "dc_call (token_discipline env) = token_call env" "dc_reply (token_discipline env) = token_reply env"
  "dc_uuid (token_discipline env) = draw_id" "\<not> dc_send (token_discipline env) g tok"
  "dc_sent (token_discipline env) g = g" "dc_answer (token_discipline env) g a = g"
  by (simp_all add: token_discipline_def)

section \<open>Texts\<close>

lemmas text_defs = record_text_def lookup_text_def claim_text_def issued_text_def revokedSlot_def

lemma text_parsed:
  "plainObject (parsed (record_text rid ag hash prefix createdAt createdBy)) =
     Some [(lit ''version'', whole 1), (lit ''id'', J_Str rid), (lit ''name'', J_Str ag), (lit ''tokenHash'', J_Str hash),
       (lit ''tokenPrefix'', J_Str prefix), (lit ''createdAt'', J_Str createdAt), (lit ''createdBy'', J_Str createdBy),
       (lit ''agent'', J_Str ag)]"
  "plainObject (parsed (lookup_text rid)) = Some [(lit ''version'', whole 1), (lit ''id'', J_Str rid)]"
  "plainObject (parsed (claim_text ag)) = Some [(lit ''version'', whole 1), (lit ''agent'', J_Str ag)]"
  "plainObject (parsed (issued_text ag rid since)) =
     Some [(lit ''version'', whole 1), (lit ''agent'', J_Str ag), (lit ''state'', J_Str (lit ''issued'')),
       (lit ''tokenId'', J_Str rid), (lit ''issuedAt'', J_Str since)]"
  "plainObject (parsed (revokedSlot ag since stamp)) =
     Some [(lit ''version'', whole 1), (lit ''agent'', J_Str ag), (lit ''state'', J_Str (lit ''revoked'')),
       (lit ''revokedAt'', J_Str since), (lit ''revocationId'', J_Str stamp)]"
  unfolding text_defs by (rule parsed_text; simp add: wf_fields_def lit_def)+

lemma record_says [simp]:
  "digest_of (record_text rid ag hash prefix createdAt createdBy) = Some hash"
  "agent_of (record_text rid ag hash prefix createdAt createdBy) = Some ag"
  by (simp_all add: digest_of_def agent_of_def text_parsed field_def lit_def)

lemma lookup_points: "r \<in> A \<Longrightarrow> points_ok A (lookup_text r)"
  by (auto simp: points_ok_def parseLookup_def text_parsed field_def lit_def split: if_splits)

lemma claim_says: "isAgentName ag \<Longrightarrow> parseClaim (claim_text ag) = ag"
  by (simp add: parseClaim_def text_parsed field_def lit_def version_1_def finite_whole)

lemma issued_names: "names_id env ag' (issued_text ag rid since) r \<Longrightarrow> r = rid"
  by (auto simp: names_id_def parseSlot_def text_parsed field_def lit_def split: if_splits)

lemma revoked_names: "\<not> names_id env ag' (revokedSlot ag since stamp) r"
  by (auto simp: names_id_def parseSlot_def text_parsed field_def lit_def split: if_splits)

section \<open>The invariant\<close>

text \<open>
  A store before the first slot: no agent has a slot, every record is an earlier one without an agent, and its identifier
  and the secret of its digest were drawn before. Digests of different tokens differ.
\<close>

definition origin :: "token_env \<Rightarrow> contents \<Rightarrow> jstr set \<Rightarrow> bool" where
  "origin env m0 U0 \<longleftrightarrow> inj (minted env) \<and> (\<forall>ag. m0 (slot_key ag) = None) \<and>
     (\<forall>r raw. m0 (record_key r) = Some raw \<longrightarrow> r \<in> U0 \<and>
        (\<forall>rec. parseRecord env raw = Inr rec \<longrightarrow> st_agent rec = None \<and> st_tokenHash rec \<in> minted env ` U0))"

definition bound :: "(nat \<Rightarrow> token_phase) \<Rightarrow> jstr \<Rightarrow> jstr \<Rightarrow> jstr \<Rightarrow> bool" where
  "bound G r h ag \<longleftrightarrow> (\<exists>i. tp_ids (G i) r \<in> {Some (Bound h ag), Some (Offered h ag)})"

definition offered :: "(nat \<Rightarrow> token_phase) \<Rightarrow> jstr \<Rightarrow> jstr \<Rightarrow> jstr \<Rightarrow> bool" where
  "offered G r h ag \<longleftrightarrow> (\<exists>i. tp_ids (G i) r = Some (Offered h ag))"

text \<open>The agent that claimed the earlier token with a digest.\<close>

definition claimed_by :: "contents \<Rightarrow> contents \<Rightarrow> jstr \<Rightarrow> jstr \<Rightarrow> bool" where
  "claimed_by m0 m h ag \<longleftrightarrow> (\<exists>pointer L claim. m0 (lookup_key h) = Some pointer \<and> parseLookup pointer = Some L \<and>
     m (claim_key L) = Some claim \<and> parseClaim claim = ag)"

definition rightly_offered ::
    "token_env \<Rightarrow> contents \<Rightarrow> jstr set \<Rightarrow> contents \<Rightarrow> (nat \<Rightarrow> token_phase) \<Rightarrow> jstr \<Rightarrow> bool \<Rightarrow> jstr \<Rightarrow> bool" where
  "rightly_offered env m0 U0 m G ag first r \<longleftrightarrow>
     (\<exists>h. offered G r h ag \<and> (h \<in> minted env ` U0 \<longrightarrow> first \<and> claimed_by m0 m h ag))"

text \<open>Calls that may take effect at any time from now on.\<close>

fun lawful :: "token_env \<Rightarrow> contents \<Rightarrow> jstr set \<Rightarrow> contents \<Rightarrow> jstr set \<Rightarrow> (nat \<Rightarrow> token_phase) \<Rightarrow> storage_op \<Rightarrow> bool" where
  "lawful env m0 U0 m A G (Delete k) = (\<not> token_space k)"
| "lawful env m0 U0 m A G (Set_Key k raw opts) =
     (\<not> token_space k \<or> opts = plain_write \<and>
      ((\<exists>r h ag. k = record_key r \<and> r \<in> A \<and> bound G r h ag \<and> digest_of raw = Some h \<and> agent_of raw = Some ag) \<or>
       (\<exists>h. k = lookup_key h \<and> points_ok A raw)))"
| "lawful env m0 U0 m A G (Compare_And_Set k e new opts) =
     (\<not> token_space k \<or> opts = plain_write \<and>
      ((\<exists>r. k = record_key r \<and> r \<in> A \<and> new = None) \<or>
       (\<exists>h. k = lookup_key h \<and> (\<forall>raw. new = Some raw \<longrightarrow> points_ok A raw)) \<or>
       (\<exists>L raw. k = claim_key L \<and> e = None \<and> new = Some raw) \<or>
       (\<exists>ag raw. k = slot_key ag \<and> new = Some raw \<and>
          (\<forall>r. names_id env ag raw r \<longrightarrow> rightly_offered env m0 U0 m G ag (e = None) r))))"
| "lawful env m0 U0 m A G _ = True"

fun offers :: "token_env \<Rightarrow> jstr \<Rightarrow> storage_op \<Rightarrow> bool" where
  "offers env r (Compare_And_Set k e (Some raw) opts) = (\<exists>ag. k = slot_key ag \<and> names_id env ag raw r)"
| "offers env r _ = False"

definition named :: "token_env \<Rightarrow> contents \<Rightarrow> jstr \<Rightarrow> bool" where
  "named env m r \<longleftrightarrow> (\<exists>ag. slot_names env m ag r)"

text \<open>An identifier reaches a slot at most once.\<close>

definition once :: "token_env \<Rightarrow> contents \<Rightarrow> storage_op list \<Rightarrow> bool" where
  "once env m L \<longleftrightarrow> (\<forall>r. length (filter (offers env r) L) + (if named env m r then 1 else 0) \<le> 1)"

definition ids_ok :: "token_env \<Rightarrow> jstr set \<Rightarrow> jstr set \<Rightarrow> (nat \<Rightarrow> token_phase) \<Rightarrow> bool" where
  "ids_ok env U0 A G \<longleftrightarrow>
     (\<forall>i. dom (tp_ids (G i)) \<subseteq> A) \<and>
     (\<forall>i j x. x \<in> dom (tp_ids (G i)) \<longrightarrow> x \<in> dom (tp_ids (G j)) \<longrightarrow> i = j) \<and>
     (\<forall>i r h ag. tp_ids (G i) r \<in> {Some (Bound h ag), Some (Offered h ag)} \<longrightarrow> h \<in> minted env ` U0 \<or>
        (\<exists>u \<in> dom (tp_ids (G i)). h = minted env u \<and> tp_ids (G i) u \<noteq> Some Drawn)) \<and>
     (\<forall>r r' h ag ag'. bound G r h ag \<longrightarrow> bound G r' h ag' \<longrightarrow> h \<notin> minted env ` U0 \<longrightarrow> r = r')"

definition stored_ok ::
    "token_env \<Rightarrow> contents \<Rightarrow> jstr set \<Rightarrow> contents \<Rightarrow> jstr set \<Rightarrow> (nat \<Rightarrow> token_phase) \<Rightarrow> bool" where
  "stored_ok env m0 U0 m A G \<longleftrightarrow>
     (\<forall>r. r \<notin> A \<longrightarrow> m (record_key r) = m0 (record_key r)) \<and>
     (\<forall>r raw. r \<in> A \<longrightarrow> m (record_key r) = Some raw \<longrightarrow>
        (\<exists>h ag. bound G r h ag \<and> digest_of raw = Some h \<and> agent_of raw = Some ag)) \<and>
     (\<forall>h raw. m (lookup_key h) = Some raw \<longrightarrow> m0 (lookup_key h) = Some raw \<or> points_ok A raw) \<and>
     (\<forall>ag r. slot_names env m ag r \<longrightarrow> rightly_offered env m0 U0 m G ag True r)"

text \<open>What a value seen under a key still says.\<close>

definition seen_ok :: "token_env \<Rightarrow> contents \<Rightarrow> contents \<Rightarrow> jstr set \<Rightarrow> jstr \<Rightarrow> jstr \<Rightarrow> bool" where
  "seen_ok env m0 m A k raw \<longleftrightarrow>
     (\<forall>r. k = record_key r \<longrightarrow> m0 k = Some raw \<or> agent_of raw \<noteq> None) \<and>
     (\<forall>r. k = claim_key r \<longrightarrow> m k = Some raw) \<and>
     (\<forall>h. k = lookup_key h \<longrightarrow> m0 k = Some raw \<or> points_ok A raw) \<and>
     (\<forall>ag r. k = slot_key ag \<longrightarrow> names_id env ag raw r \<longrightarrow> r \<in> A)"

text \<open>
  One identifier under observation: the agent whose slot named it, the identifier, its digest, and whether the slot has
  moved on. From then on nothing offers it again, and no other identifier with its digest comes into a slot. A program
  that began later sees only values that do not let the digest in.
\<close>

record watch =
  wt_agent :: jstr
  wt_id :: jstr
  wt_digest :: jstr
  wt_gone :: bool
  wt_late :: "nat set"

definition late_ok :: "token_env \<Rightarrow> contents \<Rightarrow> (nat \<Rightarrow> token_phase) \<Rightarrow> jstr \<Rightarrow> jstr \<Rightarrow> jstr \<Rightarrow> bool" where
  "late_ok env m0 G h k raw \<longleftrightarrow>
     (\<forall>r. k = record_key r \<longrightarrow> m0 k = Some raw \<or> (\<exists>h' ag. bound G r h' ag \<and> digest_of raw = Some h')) \<and>
     (\<forall>ag r. k = slot_key ag \<longrightarrow> names_id env ag raw r \<longrightarrow> (\<exists>h'. offered G r h' ag \<and> h' \<noteq> h))"

definition watched :: "token_env \<Rightarrow> contents \<Rightarrow> jstr set \<Rightarrow> contents \<Rightarrow> storage_op list \<Rightarrow> (nat \<Rightarrow> token_phase) \<Rightarrow> watch \<Rightarrow> bool" where
  "watched env m0 U0 m L G w \<longleftrightarrow>
     offered G (wt_id w) (wt_digest w) (wt_agent w) \<and> filter (offers env (wt_id w)) L = [] \<and> m (slot_key (wt_agent w)) \<noteq> None \<and>
     (wt_digest w \<in> minted env ` U0 \<longrightarrow> claimed_by m0 m (wt_digest w) (wt_agent w)) \<and>
     (\<forall>ag r. slot_names env m ag r \<longrightarrow> bound G r (wt_digest w) ag \<longrightarrow> r = wt_id w) \<and>
     (wt_gone w \<longrightarrow> \<not> named env m (wt_id w)) \<and>
     (\<forall>i \<in> wt_late w. wt_gone w \<and> (\<forall>k raw. (k, raw) \<in> tp_seen (G i) \<longrightarrow> late_ok env m0 G (wt_digest w) k raw))"

definition watch_ok :: "token_env \<Rightarrow> contents \<Rightarrow> jstr set \<Rightarrow> contents \<Rightarrow> storage_op list \<Rightarrow> (nat \<Rightarrow> token_phase) \<Rightarrow> watch option \<Rightarrow> bool" where
  "watch_ok env m0 U0 m L G wt \<longleftrightarrow> (\<forall>w. wt = Some w \<longrightarrow> watched env m0 U0 m L G w)"

definition token_inv ::
    "token_env \<Rightarrow> contents \<Rightarrow> jstr set \<Rightarrow> watch option \<Rightarrow> contents \<Rightarrow> storage_op list \<Rightarrow> jstr set \<Rightarrow> (nat \<Rightarrow> token_phase) \<Rightarrow> bool" where
  "token_inv env m0 U0 wt m L U G \<longleftrightarrow>
     origin env m0 U0 \<and> U0 \<subseteq> U \<and> ids_ok env U0 (U - U0) G \<and> stored_ok env m0 U0 m (U - U0) G \<and>
     (\<forall>c \<in> set L. lawful env m0 U0 m (U - U0) G c) \<and> once env m L \<and>
     (\<forall>i k raw. (k, raw) \<in> tp_seen (G i) \<longrightarrow> seen_ok env m0 m (U - U0) k raw) \<and> watch_ok env m0 U0 m L G wt"

section \<open>Calls take effect\<close>

lemma offered_bound: "offered G r h ag \<Longrightarrow> bound G r h ag"
  by (auto simp: offered_def bound_def)

lemma ids_owner: "ids_ok env U0 A G \<Longrightarrow> tp_ids (G i) x = Some a \<Longrightarrow> tp_ids (G j) x = Some b \<Longrightarrow> i = j"
  unfolding ids_ok_def by (metis domI)

lemma bound_unique:
  assumes "ids_ok env U0 A G" "bound G r h ag" "bound G r h' ag'"
  shows "h = h' \<and> ag = ag'"
proof -
  obtain i j where at: "tp_ids (G i) r \<in> {Some (Bound h ag), Some (Offered h ag)}" "tp_ids (G j) r \<in> {Some (Bound h' ag'), Some (Offered h' ag')}"
    using assms(2, 3) by (auto simp: bound_def)
  then have "i = j" using ids_owner [OF assms(1)] by fastforce
  with at show ?thesis by auto
qed

fun token_effect :: "storage_op \<Rightarrow> contents \<Rightarrow> contents" where
  "token_effect (Set_Key k raw opts) m = (if token_space k \<and> key_ok k then m(k \<mapsto> raw) else m)"
| "token_effect (Compare_And_Set k e new opts) m = (if token_space k \<and> key_ok k \<and> m k = e then m(k := new) else m)"
| "token_effect _ m = m"

lemma durable_alive: "durable v \<Longrightarrow> durable (alive t v) \<and> token_contents (alive t v) = token_contents v"
  by (auto simp: durable_def token_contents_def alive_def live_def fun_eq_iff split: option.split)

lemma expiry_plain [simp]: "expiry t plain_write = Inr None"
  by (simp add: expiry_def plain_write_def)

lemma plain_effect:
  assumes "durable v" "lawful env m0 U0 m A G c"
  shows "durable (snd (spec_act t c v)) \<and> token_contents (snd (spec_act t c v)) = token_effect c (token_contents v)"
proof (cases c)
  case (Set_Key k raw opts)
  with assms show ?thesis
    by (cases "token_space k") (auto simp: durable_def token_contents_def fun_eq_iff split: sum.split)
next
  case (Compare_And_Set k e new opts)
  with assms show ?thesis
    by (cases "token_space k") (auto simp: durable_def token_contents_def fun_eq_iff split: sum.split option.split)
qed (use assms in \<open>auto simp: durable_def token_contents_def fun_eq_iff\<close>)

lemma reply_effect:
  "token_space k \<Longrightarrow> fst (spec_act t (Get k) v) = Got x \<Longrightarrow> x = token_contents v k"
  "token_space k \<Longrightarrow> fst (spec_act t (Compare_And_Set k e (Some raw) opts) v) = Swapped True \<Longrightarrow>
     token_effect (Compare_And_Set k e (Some raw) opts) (token_contents v) k = Some raw"
  by (auto simp: token_contents_def split: if_splits sum.splits)

text \<open>The four kinds of key, and what a lawful call can do to each.\<close>

lemma lawful_effect:
  assumes "lawful env m0 U0 m A G c" "token_effect c m k \<noteq> m k"
  obtains (written) r raw h ag where "k = record_key r" "r \<in> A" "token_effect c m k = Some raw" "bound G r h ag"
      "digest_of raw = Some h" "agent_of raw = Some ag"
    | (gone) r where "k = record_key r" "r \<in> A" "token_effect c m k = None"
    | (lookup) h where "k = lookup_key h" "\<forall>raw. token_effect c m k = Some raw \<longrightarrow> points_ok A raw"
    | (claim) L raw where "k = claim_key L" "m k = None" "token_effect c m k = Some raw"
    | (slot) ag raw where "k = slot_key ag" "token_effect c m k = Some raw"
        "\<forall>r. names_id env ag raw r \<longrightarrow> offers env r c \<and> rightly_offered env m0 U0 m G ag (m k = None) r"
proof (cases c)
  case (Set_Key k' raw opts)
  with assms that show ?thesis by (auto split: if_splits)
next
  case (Compare_And_Set k' e new opts)
  with assms(2) have k: "k' = k" "m k = e" "token_effect c m k = new" "token_space k" by (auto split: if_splits)
  from assms(1) Compare_And_Set k(1, 4)
  consider (a) r where "k = record_key r" "r \<in> A" "new = None" | (b) h where "k = lookup_key h" "\<forall>raw. new = Some raw \<longrightarrow> points_ok A raw"
    | (c) L raw where "k = claim_key L" "e = None" "new = Some raw"
    | (d) ag raw where "k = slot_key ag" "new = Some raw" "\<forall>r. names_id env ag raw r \<longrightarrow> rightly_offered env m0 U0 m G ag (e = None) r"
    by auto
  then show ?thesis
  proof cases
    case d
    then have "\<forall>r. names_id env ag raw r \<longrightarrow> offers env r c \<and> rightly_offered env m0 U0 m G ag (m k = None) r"
      using Compare_And_Set k(1, 2) by auto
    with d k(3) show ?thesis by (intro that(5)) auto
  qed (use k that in auto)
qed (use assms in auto)

lemma effect_other: "token_effect c m k \<noteq> m k \<Longrightarrow> token_space k"
  by (cases c) (auto split: if_splits)

text \<open>A claim, once made, stays.\<close>

lemma claim_stays:
  assumes "lawful env m0 U0 m A G c" "m (claim_key L) = Some raw"
  shows "token_effect c m (claim_key L) = Some raw"
proof (rule ccontr)
  assume "token_effect c m (claim_key L) \<noteq> Some raw"
  then have "token_effect c m (claim_key L) \<noteq> m (claim_key L)" using assms(2) by simp
  with assms(1) show False by (cases rule: lawful_effect) (use assms(2) in auto)
qed

lemma claimed_stays: "lawful env m0 U0 m A G c \<Longrightarrow> claimed_by m0 m h ag \<Longrightarrow> claimed_by m0 (token_effect c m) h ag"
  unfolding claimed_by_def by (blast intro: claim_stays)

lemma claimed_unique: "claimed_by m0 m h ag \<Longrightarrow> claimed_by m0 m h ag' \<Longrightarrow> ag = ag'"
  by (auto simp: claimed_by_def)

lemma slot_stays:
  assumes "lawful env m0 U0 m A G c" "m (slot_key ag) \<noteq> None"
  shows "token_effect c m (slot_key ag) \<noteq> None"
proof
  assume none: "token_effect c m (slot_key ag) = None"
  with assms(2) have "token_effect c m (slot_key ag) \<noteq> m (slot_key ag)" by metis
  with assms(1) show False by (cases rule: lawful_effect) (use none in auto)
qed

lemma rightly_stays:
  "lawful env m0 U0 m A G c \<Longrightarrow> rightly_offered env m0 U0 m G ag f r \<Longrightarrow> rightly_offered env m0 U0 (token_effect c m) G ag f r"
  unfolding rightly_offered_def by (blast intro: claimed_stays)

lemma lawful_stays:
  assumes "lawful env m0 U0 m A G c" "lawful env m0 U0 m A G c'"
  shows "lawful env m0 U0 (token_effect c m) A G c'"
proof (cases c')
  case (Compare_And_Set k e new opts)
  with assms(2) show ?thesis using rightly_stays [OF assms(1)] by simp blast
qed (use assms(2) in auto)

lemma seen_stays:
  "lawful env m0 U0 m A G c \<Longrightarrow> seen_ok env m0 m A k raw \<Longrightarrow> seen_ok env m0 (token_effect c m) A k raw"
  unfolding seen_ok_def by (auto simp: claim_stays)

lemma slot_names_effect:
  assumes "lawful env m0 U0 m A G c" "slot_names env (token_effect c m) ag r"
  shows "slot_names env m ag r \<or> offers env r c \<and> rightly_offered env m0 U0 m G ag (m (slot_key ag) = None) r"
proof (cases "token_effect c m (slot_key ag) = m (slot_key ag)")
  case True
  with assms(2) show ?thesis by (simp add: slot_names_def)
next
  case False
  with assms(1) show ?thesis by (cases rule: lawful_effect) (use assms(2) in \<open>auto simp: slot_names_def\<close>)
qed

lemma stored_stays:
  assumes law: "lawful env m0 U0 m A G c" and ok: "stored_ok env m0 U0 m A G"
  shows "stored_ok env m0 U0 (token_effect c m) A G"
proof -
  let ?m = "token_effect c m"
  have "?m (record_key r) = m0 (record_key r)" if "r \<notin> A" for r
  proof (cases "?m (record_key r) = m (record_key r)")
    case False
    with law show ?thesis by (cases rule: lawful_effect) (use that in auto)
  qed (use ok that in \<open>simp add: stored_ok_def\<close>)
  moreover have "\<exists>h ag. bound G r h ag \<and> digest_of raw = Some h \<and> agent_of raw = Some ag"
    if "r \<in> A" "?m (record_key r) = Some raw" for r raw
  proof (cases "?m (record_key r) = m (record_key r)")
    case False
    with law show ?thesis by (cases rule: lawful_effect) (use that in auto)
  qed (use ok that in \<open>simp add: stored_ok_def\<close>)
  moreover have "m0 (lookup_key h) = Some raw \<or> points_ok A raw" if "?m (lookup_key h) = Some raw" for h raw
  proof (cases "?m (lookup_key h) = m (lookup_key h)")
    case False
    with law show ?thesis by (cases rule: lawful_effect) (use that in auto)
  qed (use ok that in \<open>metis stored_ok_def\<close>)
  moreover have "rightly_offered env m0 U0 ?m G ag True r" if "slot_names env ?m ag r" for ag r
  proof -
    have "rightly_offered env m0 U0 m G ag True r"
      using slot_names_effect [OF law that] ok by (auto simp: stored_ok_def rightly_offered_def)
    then show ?thesis by (rule rightly_stays [OF law])
  qed
  ultimately show ?thesis by (auto simp: stored_ok_def)
qed

text \<open>A call that takes effect moves its offer from the calls under way into the slot, or it is spent.\<close>

lemma once_lands:
  assumes law: "lawful env m0 U0 m A G c" and one: "once env m (c # L)"
  shows "once env (token_effect c m) L"
  unfolding once_def
proof
  fix r
  have le: "length (filter (offers env r) (c # L)) + (if named env m r then 1 else 0) \<le> 1" using one by (simp add: once_def)
  show "length (filter (offers env r) L) + (if named env (token_effect c m) r then 1 else 0) \<le> 1"
  proof (cases "named env (token_effect c m) r")
    case True
    then obtain ag where "slot_names env (token_effect c m) ag r" by (auto simp: named_def)
    from slot_names_effect [OF law this] have "named env m r \<or> offers env r c" by (auto simp: named_def)
    with le show ?thesis by (auto split: if_splits)
  next
    case False
    with le show ?thesis by (auto split: if_splits)
  qed
qed

lemma watch_lands:
  assumes law: "lawful env m0 U0 m A G c" and ok: "ids_ok env U0 A G" "watched env m0 U0 m (c # L) G w"
  shows "watched env m0 U0 (token_effect c m) L G w"
proof -
  obtain ag r h gone late where w: "w = \<lparr>wt_agent = ag, wt_id = r, wt_digest = h, wt_gone = gone, wt_late = late\<rparr>" by (cases w)
  have facts: "offered G r h ag" "\<not> offers env r c" "filter (offers env r) L = []" "m (slot_key ag) \<noteq> None"
    "h \<in> minted env ` U0 \<Longrightarrow> claimed_by m0 m h ag" "gone \<Longrightarrow> \<not> named env m r"
    "\<And>ag' r'. slot_names env m ag' r' \<Longrightarrow> bound G r' h ag' \<Longrightarrow> r' = r"
    and late: "\<forall>i \<in> late. gone \<and> (\<forall>k raw. (k, raw) \<in> tp_seen (G i) \<longrightarrow> late_ok env m0 G h k raw)"
    using ok(2) by (auto simp: watched_def w split: if_splits)
  have only: "r' = r" if s: "slot_names env (token_effect c m) ag' r'" and b: "bound G r' h ag'" for ag' r'
    using slot_names_effect [OF law s]
  proof
    assume right: "offers env r' c \<and> rightly_offered env m0 U0 m G ag' (m (slot_key ag') = None) r'"
    then obtain h' where h': "offered G r' h' ag'" "h' \<in> minted env ` U0 \<Longrightarrow> m (slot_key ag') = None \<and> claimed_by m0 m h' ag'"
      by (auto simp: rightly_offered_def)
    have "h' = h" using bound_unique [OF ok(1) offered_bound [OF h'(1)] b] by simp
    show ?thesis
    proof (cases "h \<in> minted env ` U0")
      case True
      then have "ag' = ag" using h'(2) facts(5) \<open>h' = h\<close> claimed_unique by blast
      with h'(2) facts(4) True \<open>h' = h\<close> show ?thesis by simp
    next
      case False
      with ok(1) offered_bound [OF facts(1)] b show ?thesis unfolding ids_ok_def by blast
    qed
  qed (use facts(7) b in blast)
  have "\<not> named env (token_effect c m) r" if gone
    using facts(2) facts(6) [OF that] slot_names_effect [OF law] by (auto simp: named_def)
  with facts slot_stays [OF law] claimed_stays [OF law] only late show ?thesis
    unfolding watched_def w watch.simps by blast
qed

end
