(* ===== verification/Token_Calls.thy ===== *)
theory Token_Calls
  imports Token_Slots
begin

text \<open>
  Every permitted call of a token program keeps the invariant of \<^verbatim>\<open>Token_Slots\<close>, when it is made and when
  it takes effect, over any store that keeps the storage contract.
\<close>

section \<open>Calls are made\<close>

lemma reply_parts:
  "tp_ids (token_reply env g c r) = tp_ids (token_reply env g c None)" "tp_seen (token_reply env g c None) = tp_seen g"
  by (cases c; auto simp: note_seen_def split: option.split storage_reply.split)+

text \<open>How the state of an identifier may change when its program makes a call.\<close>

definition evolves :: "id_state option \<Rightarrow> id_state option \<Rightarrow> bool" where
  "evolves x y \<longleftrightarrow> y = x \<or> x = Some Drawn \<and> y \<noteq> None \<or> (\<exists>h ag. x = Some (Bound h ag) \<and> y = Some (Offered h ag))"

lemma reply_evolves: "evolves (tp_ids g x) (tp_ids (token_reply env g c r) x)"
  unfolding reply_parts(1) [of env g c r]
  by (cases c) (auto simp: evolves_def bind_ids_def offer_ids_def split: option.split id_state.split)

definition grown :: "(nat \<Rightarrow> token_phase) \<Rightarrow> (nat \<Rightarrow> token_phase) \<Rightarrow> bool" where
  "grown G G' \<longleftrightarrow> (\<forall>i x. evolves (tp_ids (G i) x) (tp_ids (G' i) x) \<or> tp_ids (G i) x = None)"

lemma grown_state: "grown G G' \<Longrightarrow> tp_ids (G i) r = Some x \<Longrightarrow> evolves (Some x) (tp_ids (G' i) r)"
  unfolding grown_def by (drule spec [of _ i], drule spec [of _ r]) simp

lemma bound_grown:
  assumes "grown G G'" "bound G r h ag"
  shows "bound G' r h ag"
proof -
  obtain i where "tp_ids (G i) r \<in> {Some (Bound h ag), Some (Offered h ag)}" using assms(2) by (auto simp: bound_def)
  then have "tp_ids (G' i) r \<in> {Some (Bound h ag), Some (Offered h ag)}"
    using grown_state [OF assms(1), of i r] by (auto simp: evolves_def)
  then show ?thesis unfolding bound_def ..
qed

lemma offered_grown:
  assumes "grown G G'" "offered G r h ag"
  shows "offered G' r h ag"
proof -
  obtain i where "tp_ids (G i) r = Some (Offered h ag)" using assms(2) by (auto simp: offered_def)
  then have "tp_ids (G' i) r = Some (Offered h ag)" using grown_state [OF assms(1), of i r] by (auto simp: evolves_def)
  then show ?thesis unfolding offered_def ..
qed

lemma rightly_grown:
  "grown G G' \<Longrightarrow> rightly_offered env m0 U0 m G ag f r \<Longrightarrow> rightly_offered env m0 U0 m G' ag f r"
  unfolding rightly_offered_def by (blast intro: offered_grown)

lemma points_grown: "A \<subseteq> A' \<Longrightarrow> points_ok A raw \<Longrightarrow> points_ok A' raw"
  by (auto simp: points_ok_def)

lemma lawful_set_cases:
  assumes "lawful env m0 U0 m A G (Set_Key k raw opts)"
  obtains (other) "\<not> token_space k"
    | (written) r h ag where "opts = plain_write" "k = record_key r" "r \<in> A" "bound G r h ag" "digest_of raw = Some h" "agent_of raw = Some ag"
    | (pointer) h where "opts = plain_write" "k = lookup_key h" "points_ok A raw"
  using assms unfolding lawful.simps
  apply (elim disjE conjE exE)
    apply (rule other; assumption)
   apply (rule written; assumption)
  apply (rule pointer; assumption)
  done

lemma lawful_swap_cases:
  assumes "lawful env m0 U0 m A G (Compare_And_Set k e new opts)"
  obtains (other) "\<not> token_space k"
    | (gone) r where "opts = plain_write" "k = record_key r" "r \<in> A" "new = None"
    | (pointer) h where "opts = plain_write" "k = lookup_key h" "\<forall>raw. new = Some raw \<longrightarrow> points_ok A raw"
    | (claim) L raw where "opts = plain_write" "k = claim_key L" "e = None" "new = Some raw"
    | (slot) ag raw where "opts = plain_write" "k = slot_key ag" "new = Some raw"
        "\<forall>r. names_id env ag raw r \<longrightarrow> rightly_offered env m0 U0 m G ag (e = None) r"
  using assms unfolding lawful.simps
  apply (elim disjE conjE exE)
      apply (rule other; assumption)
     apply (rule gone; assumption)
    apply (rule pointer; assumption)
   apply (rule claim; assumption)
  apply (rule slot; assumption)
  done

lemma lawful_grown:
  assumes grown: "grown G G'" "A \<subseteq> A'" and law: "lawful env m0 U0 m A G c"
  shows "lawful env m0 U0 m A' G' c"
proof (cases c)
  case (Set_Key k raw opts)
  from law [unfolded Set_Key] show ?thesis unfolding Set_Key
    by (cases rule: lawful_set_cases) (use grown(2) bound_grown [OF grown(1)] points_grown [OF grown(2)] in auto)
next
  case (Compare_And_Set k e new opts)
  from law [unfolded Compare_And_Set] show ?thesis unfolding Compare_And_Set
    by (cases rule: lawful_swap_cases) (use grown(2) rightly_grown [OF grown(1)] points_grown [OF grown(2)] in auto)
qed (use law in auto)

text \<open>The kinds of call a program may make.\<close>

lemma call_set_cases:
  assumes "token_call env g (Set_Key k raw opts)"
  obtains (other) "\<not> token_space k"
    | (written) r h ag where "opts = plain_write" "k = record_key r" "tp_ids g r = Some Drawn" "digest_of raw = Some h"
        "agent_of raw = Some ag" "(\<exists>u. tp_ids g u = Some Drawn \<and> h = minted env u) \<or> (\<exists>L. saw_record env g L h)"
    | (pointer) h where "opts = plain_write" "k = lookup_key h" "points_ok (known_ids env g) raw"
  using assms unfolding token_call.simps
  apply (elim disjE [of "\<not> _"] disjE [of "\<exists>r h ag. _ r h ag"] conjE exE)
    apply (rule other; assumption)
   apply (rule written; assumption)
  apply (rule pointer; assumption)
  done

lemma call_swap_cases:
  assumes "token_call env g (Compare_And_Set k e new opts)"
  obtains (other) "\<not> token_space k"
    | (gone) r where "opts = plain_write" "k = record_key r" "r \<in> dom (tp_ids g)" "new = None"
    | (pointer) h where "opts = plain_write" "k = lookup_key h" "\<forall>raw. new = Some raw \<longrightarrow> points_ok (known_ids env g) raw"
    | (claim) L raw where "opts = plain_write" "k = claim_key L" "e = None" "new = Some raw"
    | (slot) ag raw where "opts = plain_write" "k = slot_key ag" "new = Some raw"
        "\<forall>r. names_id env ag raw r \<longrightarrow> (\<exists>h. tp_ids g r = Some (Bound h ag) \<and>
           ((\<exists>u. u \<in> dom (tp_ids g) \<and> h = minted env u) \<or> e = None \<and> took_over env g h ag))"
  using assms unfolding token_call.simps
  apply (elim disjE conjE exE)
      apply (rule other; assumption)
     apply (rule gone; assumption)
    apply (rule pointer; assumption)
   apply (rule claim; assumption)
  apply (rule slot; assumption)
  done

lemma seen_grown: "A \<subseteq> A' \<Longrightarrow> seen_ok env m0 m A k raw \<Longrightarrow> seen_ok env m0 m A' k raw"
  by (auto simp: seen_ok_def points_ok_def)

text \<open>What a program that takes over a digest has seen is so, and stays so.\<close>

lemma saw_early:
  assumes "origin env m0 U0" "\<And>k raw. (k, raw) \<in> tp_seen g \<Longrightarrow> seen_ok env m0 m A k raw" "saw_record env g L h"
  shows "L \<in> U0 \<and> h \<in> minted env ` U0"
proof -
  obtain raw rec where seen: "(record_key L, raw) \<in> tp_seen g" and rec: "parseRecord env raw = Inr rec" "st_agent rec = None" "st_tokenHash rec = h"
    using assms(3) by (auto simp: saw_record_def)
  from assms(2) [OF seen] parsed_record [OF rec(1)] rec(2) have "m0 (record_key L) = Some raw" by (auto simp: seen_ok_def)
  with assms(1) rec show ?thesis by (auto simp: origin_def)
qed

lemma took_claimed:
  assumes "origin env m0 U0" "\<And>k raw. (k, raw) \<in> tp_seen g \<Longrightarrow> seen_ok env m0 m A k raw" "took_over env g h ag" "A \<inter> U0 = {}"
  shows "claimed_by m0 m h ag"
proof -
  obtain L claim pointer where L: "saw_record env g L h" and seen: "(claim_key L, claim) \<in> tp_seen g" "(lookup_key h, pointer) \<in> tp_seen g"
    and texts: "parseClaim claim = ag" "parseLookup pointer = Some L"
    using assms(3) by (auto simp: took_over_def)
  have "L \<in> U0" using saw_early [OF assms(1, 2) L] by blast
  moreover have "m0 (lookup_key h) = Some pointer \<or> points_ok A pointer" "m (claim_key L) = Some claim"
    using assms(2) [OF seen(1)] assms(2) [OF seen(2)] by (auto simp: seen_ok_def)
  ultimately show ?thesis using texts assms(4) unfolding claimed_by_def points_ok_def by blast
qed

lemma minted_late:
  "origin env m0 U0 \<Longrightarrow> u \<notin> U0 \<Longrightarrow> minted env u \<notin> minted env ` U0"
  by (auto simp: origin_def inj_def)

text \<open>A permitted call, from the side of the shared state: it is lawful from now on.\<close>

lemma call_lawful:
  assumes inv: "token_inv env m0 U0 wt m L U G" and call: "token_call env (G i) c"
  shows "lawful env m0 U0 m (U - U0) (G(i := token_reply env (G i) c r)) c"
proof -
  let ?G = "G(i := token_reply env (G i) c r)" and ?A = "U - U0"
  have org: "origin env m0 U0" and ids: "ids_ok env U0 ?A G"
    and seen: "\<And>k raw. (k, raw) \<in> tp_seen (G i) \<Longrightarrow> seen_ok env m0 m ?A k raw"
    using inv by (auto simp: token_inv_def)
  have dom: "x \<in> ?A" if "x \<in> dom (tp_ids (G i))" for x using ids that by (auto simp: ids_ok_def)
  have known: "known_ids env (G i) \<subseteq> ?A" using dom seen unfolding known_ids_def seen_ok_def by blast
  show ?thesis
  proof (cases c)
    case (Set_Key k raw opts)
    have b: "bound ?G r' h ag" if "k = record_key r'" "tp_ids (G i) r' = Some Drawn" "digest_of raw = Some h" "agent_of raw = Some ag" for r' h ag
      unfolding bound_def using that by (intro exI [of _ i]) (simp add: Set_Key bind_ids_def)
    from call [unfolded Set_Key] show ?thesis
    proof (cases rule: call_set_cases)
      case (written r' h ag)
      have "bound ?G r' h ag" by (rule b) fact+
      moreover have "r' \<in> ?A" using written(3) by (intro dom) auto
      ultimately show ?thesis using written(1, 2, 4, 5) by (auto simp: Set_Key)
    qed (use points_grown [OF known] in \<open>auto simp: Set_Key\<close>)
  next
    case (Compare_And_Set k e new opts)
    have right: "rightly_offered env m0 U0 m ?G ag (e = None) r'"
      if k: "k = slot_key ag" "new = Some raw" "names_id env ag raw r'" and b: "tp_ids (G i) r' = Some (Bound h ag)"
        and j: "(\<exists>u. u \<in> dom (tp_ids (G i)) \<and> h = minted env u) \<or> e = None \<and> took_over env (G i) h ag" for ag raw r' h
    proof -
      have "tp_ids (token_reply env (G i) c r) r' = Some (Offered h ag)"
        using k b unfolding reply_parts(1) [of env "G i" c r] by (auto simp: Compare_And_Set offer_ids_def)
      then have "offered ?G r' h ag" by (auto simp: offered_def intro: exI [of _ i])
      moreover have "e = None \<and> claimed_by m0 m h ag" if "h \<in> minted env ` U0"
        using j that minted_late [OF org] dom took_claimed [OF org seen] by blast
      ultimately show ?thesis by (auto simp: rightly_offered_def)
    qed
    from call [unfolded Compare_And_Set] show ?thesis
    proof (cases rule: call_swap_cases)
      case (slot ag raw)
      have "rightly_offered env m0 U0 m ?G ag (e = None) r'" if "names_id env ag raw r'" for r'
        using slot(4) right [OF slot(2, 3) that] that by blast
      with slot(1-3) show ?thesis by (simp add: Compare_And_Set)
    qed (use dom points_grown [OF known] in \<open>auto simp: Compare_And_Set\<close>)
  qed (use call in auto)
qed

text \<open>Where bindings come from, and that an identifier about to be offered was not offered before.\<close>

lemma binding_origin:
  assumes "tp_ids (token_reply env g c x) r \<in> {Some (Bound h ag), Some (Offered h ag)}"
  shows "tp_ids g r \<in> {Some (Bound h ag), Some (Offered h ag)} \<or>
    (\<exists>raw opts. c = Set_Key (record_key r) raw opts \<and> tp_ids g r = Some Drawn \<and> digest_of raw = Some h \<and> agent_of raw = Some ag)"
  using assms unfolding reply_parts(1) [of env g c x]
  by (cases c) (auto simp: bind_ids_def offer_ids_def split: option.splits id_state.splits if_splits)

lemma offers_bound:
  assumes "token_call env g c" "offers env r c"
  shows "\<exists>h ag. tp_ids g r = Some (Bound h ag)"
proof -
  obtain k e raw opts ag where c: "c = Compare_And_Set k e (Some raw) opts" "k = slot_key ag" "names_id env ag raw r"
    using assms(2) by (cases "(env, r, c)" rule: offers.cases) auto
  from assms(1) [unfolded c(1)] show ?thesis by (cases rule: call_swap_cases) (use c in auto)
qed

lemma rightly_was_offered: "rightly_offered env m0 U0 m G ag f r \<Longrightarrow> \<exists>h ag. offered G r h ag"
  unfolding rightly_offered_def by metis

lemma lawful_offers:
  assumes "lawful env m0 U0 m A G c" "offers env r c"
  shows "\<exists>h ag. offered G r h ag"
proof -
  obtain k e raw opts ag where c: "c = Compare_And_Set k e (Some raw) opts" "k = slot_key ag" "names_id env ag raw r"
    using assms(2) by (cases "(env, r, c)" rule: offers.cases) auto
  from assms(1) [unfolded c(1)] show ?thesis
    by (cases rule: lawful_swap_cases) (use c in \<open>auto dest: rightly_was_offered\<close>)
qed

lemma bound_not_offered: "ids_ok env U0 A G \<Longrightarrow> tp_ids (G i) r = Some (Bound h ag) \<Longrightarrow> \<not> offered G r h' ag'"
  unfolding offered_def using ids_owner by fastforce

lemma stored_parts:
  assumes "stored_ok env m0 U0 m A G"
  shows "r \<notin> A \<Longrightarrow> m (record_key r) = m0 (record_key r)"
    and "r \<in> A \<Longrightarrow> m (record_key r) = Some raw \<Longrightarrow> \<exists>h ag. bound G r h ag \<and> digest_of raw = Some h \<and> agent_of raw = Some ag"
    and "m (lookup_key h) = Some raw \<Longrightarrow> m0 (lookup_key h) = Some raw \<or> points_ok A raw"
    and "slot_names env m ag r \<Longrightarrow> rightly_offered env m0 U0 m G ag True r"
  using assms unfolding stored_ok_def by simp_all

lemma stored_grown:
  assumes "grown G G'" "stored_ok env m0 U0 m A G"
  shows "stored_ok env m0 U0 m A G'"
  unfolding stored_ok_def
proof (intro conjI allI impI)
  show "\<exists>h ag. bound G' r h ag \<and> digest_of raw = Some h \<and> agent_of raw = Some ag" if "r \<in> A" "m (record_key r) = Some raw" for r raw
    using stored_parts(2) [OF assms(2) that] bound_grown [OF assms(1)] by metis
qed (simp_all add: stored_parts [OF assms(2)] rightly_grown [OF assms(1)])

lemma stored_offered: "stored_ok env m0 U0 m A G \<Longrightarrow> slot_names env m ag r \<Longrightarrow> \<exists>h. offered G r h ag"
  using stored_parts(4) unfolding rightly_offered_def by metis

lemma ids_early:
  assumes "ids_ok env U0 A G" "bound G r h ag"
  shows "h \<in> minted env ` U0 \<or> (\<exists>i u x. tp_ids (G i) u = Some x \<and> x \<noteq> Drawn \<and> h = minted env u)"
proof -
  obtain i where "tp_ids (G i) r \<in> {Some (Bound h ag), Some (Offered h ag)}" using assms(2) by (auto simp: bound_def)
  then have "h \<in> minted env ` U0 \<or> (\<exists>u \<in> dom (tp_ids (G i)). h = minted env u \<and> tp_ids (G i) u \<noteq> Some Drawn)"
    using assms(1) unfolding ids_ok_def by blast
  then show ?thesis by force
qed

text \<open>A call that is made joins the calls under way.\<close>

lemma reply_dom: "dom (tp_ids (token_reply env g c x)) = dom (tp_ids g)"
proof (intro set_eqI)
  fix r
  show "r \<in> dom (tp_ids (token_reply env g c x)) \<longleftrightarrow> r \<in> dom (tp_ids g)"
    using reply_evolves [of g r env c x] unfolding evolves_def by (cases "tp_ids g r") (auto simp: domIff)
qed

lemma reply_grown: "grown G (G(i := token_reply env (G i) c x))"
  unfolding grown_def
proof (intro allI disjI1)
  show "evolves (tp_ids (G j) r) (tp_ids ((G(i := token_reply env (G i) c x)) j) r)" for j r
    using reply_evolves by (cases "j = i") (simp_all add: evolves_def)
qed

lemma new_secret:
  assumes "token_call env g (Set_Key (record_key r) raw opts)" "digest_of raw = Some h"
  shows "(\<exists>u. tp_ids g u = Some Drawn \<and> h = minted env u) \<or> (\<exists>L. saw_record env g L h)"
  using assms(1) by (cases rule: call_set_cases) (use assms(2) in auto)

lemma secret_used:
  assumes "tp_ids g u = Some Drawn" "digest_of raw = Some (minted env u)" "agent_of raw = Some ag"
  shows "tp_ids (token_reply env g (Set_Key (record_key r) raw opts) x) u \<noteq> Some Drawn"
  using assms by (simp add: bind_ids_def)

lemma ids_submitted:
  assumes org: "origin env m0 U0" and ids: "ids_ok env U0 A G" and call: "token_call env (G i) c"
    and seen: "\<And>k raw. (k, raw) \<in> tp_seen (G i) \<Longrightarrow> seen_ok env m0 m A k raw"
  shows "ids_ok env U0 A (G(i := token_reply env (G i) c x))" (is "ids_ok env U0 A ?G")
proof -
  have dom: "dom (tp_ids (?G j)) = dom (tp_ids (G j))" for j by (simp add: reply_dom)
  have fresh: "h \<in> minted env ` U0 \<or> (\<exists>u. tp_ids (G i) u = Some Drawn \<and> h = minted env u)"
    if "c = Set_Key (record_key r) raw opts" "digest_of raw = Some h" for r raw opts h
    using new_secret [OF call [unfolded that(1)] that(2)] saw_early [OF org seen] by blast
  have secret: "h \<in> minted env ` U0 \<or> (\<exists>u \<in> dom (tp_ids (?G j)). h = minted env u \<and> tp_ids (?G j) u \<noteq> Some Drawn)"
    if b: "tp_ids (?G j) r \<in> {Some (Bound h ag), Some (Offered h ag)}" for j r h ag
  proof -
    have kept: ?thesis if old: "tp_ids (G j) r \<in> {Some (Bound h ag), Some (Offered h ag)}"
    proof -
      from ids old have "h \<in> minted env ` U0 \<or> (\<exists>u \<in> dom (tp_ids (G j)). h = minted env u \<and> tp_ids (G j) u \<noteq> Some Drawn)"
        unfolding ids_ok_def by blast
      then show ?thesis using reply_evolves [of "G i" _ env c x] dom [of j] by (cases "j = i") (force simp: evolves_def)+
    qed
    show ?thesis
    proof (cases "j = i")
      case True
      with b binding_origin [of env "G i" c x r h ag] kept
      consider ?thesis | raw opts where "c = Set_Key (record_key r) raw opts" "digest_of raw = Some h" "agent_of raw = Some ag"
        by (auto simp: True)
      then show ?thesis
      proof cases
        case 2
        from fresh [OF this(1, 2)] show ?thesis
        proof
          assume "\<exists>u. tp_ids (G i) u = Some Drawn \<and> h = minted env u"
          then obtain u where u: "tp_ids (G i) u = Some Drawn" "h = minted env u" by blast
          then have "u \<in> dom (tp_ids (?G j))" unfolding dom using True by auto
          moreover have "tp_ids (?G j) u \<noteq> Some Drawn" using secret_used [OF u(1)] 2 u(2) True by auto
          ultimately show ?thesis using u(2) by blast
        qed simp
      qed
    qed (use kept b in simp)
  qed
  have came: "bound G r h ag \<or> (\<exists>raw opts. c = Set_Key (record_key r) raw opts \<and> digest_of raw = Some h)" if nb: "bound ?G r h ag" for r h ag
  proof -
    obtain j where "tp_ids (?G j) r \<in> {Some (Bound h ag), Some (Offered h ag)}" using nb unfolding bound_def by blast
    then show ?thesis using binding_origin [of env "G i" c x r h ag] unfolding bound_def by (cases "j = i") auto
  qed
  have apart: False if old: "bound G r h ag" and new: "c = Set_Key (record_key r') raw opts" "digest_of raw = Some h" "h \<notin> minted env ` U0"
    for r r' h ag raw opts
  proof -
    obtain u where u: "tp_ids (G i) u = Some Drawn" "h = minted env u" using fresh [OF new(1, 2)] new(3) by blast
    obtain j u' y where u': "tp_ids (G j) u' = Some y" "y \<noteq> Drawn" "h = minted env u'" using ids_early [OF ids old] new(3) by blast
    have "u' = u" using org u(2) u'(3) by (auto simp: origin_def inj_def)
    with u'(1) ids_owner [OF ids u(1)] have "j = i" by simp
    with u u' \<open>u' = u\<close> show False by simp
  qed
  have unique: "r = r'" if "bound ?G r h ag" "bound ?G r' h ag'" "h \<notin> minted env ` U0" for r r' h ag ag'
    using came [OF that(1)]
  proof
    assume old: "bound G r h ag"
    with came [OF that(2)] apart [OF old _ _ that(3)] have "bound G r' h ag'" by blast
    with old ids that(3) show ?thesis unfolding ids_ok_def by blast
  next
    assume new: "\<exists>raw opts. c = Set_Key (record_key r) raw opts \<and> digest_of raw = Some h"
    then obtain raw opts where new: "c = Set_Key (record_key r) raw opts" "digest_of raw = Some h" by blast
    with came [OF that(2)] apart [OF _ new that(3)] show ?thesis by auto
  qed
  show ?thesis
    unfolding ids_ok_def dom
  proof (intro conjI)
    show "\<forall>i. dom (tp_ids (G i)) \<subseteq> A"
      "\<forall>i j x. x \<in> dom (tp_ids (G i)) \<longrightarrow> x \<in> dom (tp_ids (G j)) \<longrightarrow> i = j"
      using ids unfolding ids_ok_def by blast+
  qed (use secret [unfolded dom] unique in blast)+
qed

lemma once_submitted:
  assumes ids: "ids_ok env U0 A G" and stored: "stored_ok env m0 U0 m A G" and call: "token_call env (G i) c"
    and law: "\<forall>c \<in> set L. lawful env m0 U0 m A G c" and one: "once env m L"
  shows "once env m (c # L)"
  unfolding once_def
proof
  fix r
  show "length (filter (offers env r) (c # L)) + (if named env m r then 1 else 0) \<le> 1"
  proof (cases "offers env r c")
    case True
    then obtain h ag where "tp_ids (G i) r = Some (Bound h ag)" using offers_bound [OF call] by blast
    note never = bound_not_offered [OF ids this]
    have "\<not> offers env r c'" if "c' \<in> set L" for c' using lawful_offers [OF bspec [OF law that]] never by blast
    then have "filter (offers env r) L = []" by (simp add: filter_empty_conv)
    moreover have "\<not> named env m r" using stored_offered [OF stored] never by (auto simp: named_def)
    ultimately show ?thesis by simp
  qed (use one in \<open>simp add: once_def\<close>)
qed

lemma late_grown: "grown G G' \<Longrightarrow> late_ok env m0 G h k raw \<Longrightarrow> late_ok env m0 G' h k raw"
  unfolding late_ok_def using bound_grown offered_grown by metis

lemma watch_submitted:
  assumes ids: "ids_ok env U0 A G" "ids_ok env U0 A G'" and stored: "stored_ok env m0 U0 m A G" and grown: "grown G G'"
    and call: "\<And>r h ag. offers env r c \<Longrightarrow> \<not> offered G r h ag" and ok: "watched env m0 U0 m L G w"
    and seen: "\<And>i. tp_seen (G' i) = tp_seen (G i)"
  shows "watched env m0 U0 m (c # L) G' w"
proof -
  obtain ag r h gone late where w: "w = \<lparr>wt_agent = ag, wt_id = r, wt_digest = h, wt_gone = gone, wt_late = late\<rparr>" by (cases w)
  have facts: "offered G r h ag" "filter (offers env r) L = []" "m (slot_key ag) \<noteq> None"
    "h \<in> minted env ` U0 \<longrightarrow> claimed_by m0 m h ag" "gone \<longrightarrow> \<not> named env m r"
    "\<And>ag' r'. slot_names env m ag' r' \<Longrightarrow> bound G r' h ag' \<Longrightarrow> r' = r"
    and late: "\<And>i. i \<in> late \<Longrightarrow> gone" "\<And>i k raw. i \<in> late \<Longrightarrow> (k, raw) \<in> tp_seen (G i) \<Longrightarrow> late_ok env m0 G h k raw"
    using ok by (auto simp: watched_def w)
  have "r' = r" if named: "slot_names env m ag' r'" and b: "bound G' r' h ag'" for ag' r'
  proof -
    obtain h' where h': "offered G r' h' ag'" using stored_offered [OF stored named] by blast
    then have "h' = h" using bound_unique [OF ids(2) bound_grown [OF grown offered_bound] b] by blast
    then show ?thesis using facts(6) [OF named] offered_bound [OF h'] by blast
  qed
  moreover have "late_ok env m0 G' h k raw" if "i \<in> late" "(k, raw) \<in> tp_seen (G' i)" for i k raw
    using late(2) [OF that(1)] that(2) late_grown [OF grown] unfolding seen by blast
  ultimately show ?thesis
    using facts(2-5) late(1) call [of r h ag] facts(1) offered_grown [OF grown facts(1)] unfolding watched_def w watch.simps by auto
qed

lemma submitted:
  assumes inv: "token_inv env m0 U0 wt m L U G" and call: "token_call env (G i) c"
  shows "token_inv env m0 U0 wt m (c # L) U (G(i := token_reply env (G i) c None))"
proof -
  let ?G = "G(i := token_reply env (G i) c None)"
  have parts: "origin env m0 U0" "U0 \<subseteq> U" "ids_ok env U0 (U - U0) G" "stored_ok env m0 U0 m (U - U0) G" "once env m L"
    "\<forall>c \<in> set L. lawful env m0 U0 m (U - U0) G c" "watch_ok env m0 U0 m L G wt"
    and seen: "\<And>j k raw. (k, raw) \<in> tp_seen (G j) \<Longrightarrow> seen_ok env m0 m (U - U0) k raw"
    using inv by (simp_all add: token_inv_def)
  have ids: "ids_ok env U0 (U - U0) ?G" by (rule ids_submitted [where m = m, OF parts(1, 3) call seen])
  have "\<not> offered G r h ag" if "offers env r c" for r h ag
    using offers_bound [OF call that] bound_not_offered [OF parts(3)] by blast
  with ids parts have "watched env m0 U0 m (c # L) ?G w" if "watched env m0 U0 m L G w" for w
    by (intro watch_submitted [OF parts(3) ids parts(4) reply_grown _ that]) (auto simp: reply_parts(2))
  then have "watch_ok env m0 U0 m (c # L) ?G wt" using parts(7) unfolding watch_ok_def by blast
  moreover have "\<forall>c' \<in> set (c # L). lawful env m0 U0 m (U - U0) ?G c'"
    using call_lawful [OF inv call] lawful_grown [OF reply_grown order_refl] parts(6) by auto
  moreover have "seen_ok env m0 m (U - U0) k raw" if "(k, raw) \<in> tp_seen (?G j)" for j k raw
    using that seen reply_parts(2) by (cases "j = i") auto
  ultimately show ?thesis
    using parts(1, 2) ids stored_grown [OF reply_grown parts(4)] once_submitted [OF parts(3, 4) call parts(6, 5)]
    unfolding token_inv_def by blast
qed

text \<open>A call under way takes effect.\<close>

lemma filter_remove1:
  "c \<in> set L \<Longrightarrow> length (filter P L) = length (filter P (c # remove1 c L))"
  by (induction L) auto

lemma filter_remove1_Nil: "c \<in> set L \<Longrightarrow> filter P L = [] \<Longrightarrow> filter P (c # remove1 c L) = []"
  using filter_remove1 [of c L P] by (metis length_0_conv)

lemma landed:
  assumes inv: "token_inv env m0 U0 wt m L U G" and c: "c \<in> set L"
  shows "token_inv env m0 U0 wt (token_effect c m) (remove1 c L) U G"
proof -
  let ?A = "U - U0"
  have parts: "origin env m0 U0" "U0 \<subseteq> U" "ids_ok env U0 ?A G" "stored_ok env m0 U0 m ?A G" "once env m L"
    "\<And>c. c \<in> set L \<Longrightarrow> lawful env m0 U0 m ?A G c" "\<And>i k raw. (k, raw) \<in> tp_seen (G i) \<Longrightarrow> seen_ok env m0 m ?A k raw"
    "watch_ok env m0 U0 m L G wt"
    using inv by (simp_all add: token_inv_def)
  note law = parts(6) [OF c]
  have "once env m (c # remove1 c L)" using parts(5) filter_remove1 [OF c] by (simp add: once_def)
  then have "once env (token_effect c m) (remove1 c L)" by (rule once_lands [OF law])
  moreover have "watched env m0 U0 (token_effect c m) (remove1 c L) G w" if w: "watched env m0 U0 m L G w" for w
  proof (rule watch_lands [OF law parts(3)])
    show "watched env m0 U0 m (c # remove1 c L) G w" using w filter_remove1_Nil [OF c] unfolding watched_def by blast
  qed
  moreover have "lawful env m0 U0 (token_effect c m) ?A G c'" if "c' \<in> set (remove1 c L)" for c'
    using lawful_stays [OF law parts(6)] that set_remove1_subset by fast
  ultimately show ?thesis
    using parts(1-3, 8) stored_stays [OF law parts(4)] seen_stays [OF law parts(7)]
    unfolding token_inv_def watch_ok_def by blast
qed

text \<open>A program learns what a key holds.\<close>

lemma stored_seen:
  assumes "ids_ok env U0 A G" "stored_ok env m0 U0 m A G" "m k = Some raw"
  shows "seen_ok env m0 m A k raw"
  unfolding seen_ok_def
proof (intro conjI allI impI)
  show "m0 k = Some raw \<or> agent_of raw \<noteq> None" if "k = record_key r" for r
    using stored_parts(1, 2) [OF assms(2), of r] assms(3) that by (cases "r \<in> A") auto
  show "m0 k = Some raw \<or> points_ok A raw" if "k = lookup_key h" for h
    using stored_parts(3) [OF assms(2)] assms(3) that by auto
  show "r \<in> A" if "k = slot_key ag" "names_id env ag raw r" for ag r
  proof -
    have "slot_names env m ag r" using that assms(3) by (simp add: slot_names_def)
    then obtain h i where "tp_ids (G i) r = Some (Offered h ag)" using stored_offered [OF assms(2)] unfolding offered_def by blast
    with assms(1) show ?thesis unfolding ids_ok_def by blast
  qed
qed (use assms(3) in simp)

lemma stored_late:
  assumes ids: "ids_ok env U0 A G" and stored: "stored_ok env m0 U0 m A G" and k: "m k = Some raw"
    and w: "watched env m0 U0 m L G w" and gone: "wt_gone w"
  shows "late_ok env m0 G (wt_digest w) k raw"
  unfolding late_ok_def
proof (intro conjI allI impI)
  show "m0 k = Some raw \<or> (\<exists>h' ag. bound G r h' ag \<and> digest_of raw = Some h')" if "k = record_key r" for r
    using stored_parts(1, 2) [OF stored, of r] k that by (cases "r \<in> A") auto
  fix ag r
  assume "k = slot_key ag" "names_id env ag raw r"
  then have s: "slot_names env m ag r" using k by (simp add: slot_names_def)
  then obtain h' where h': "offered G r h' ag" using stored_offered [OF stored] by blast
  have "h' \<noteq> wt_digest w"
    using w s offered_bound [OF h'] gone unfolding watched_def named_def by blast
  with h' show "\<exists>h'. offered G r h' ag \<and> h' \<noteq> wt_digest w" by blast
qed

lemma same_ids:
  assumes "\<And>j. tp_ids (G' j) = tp_ids (G j)"
  shows "bound G' = bound G" "offered G' = offered G" "ids_ok env U0 A G' = ids_ok env U0 A G"
    "rightly_offered env m0 U0 m G' = rightly_offered env m0 U0 m G" "late_ok env m0 G' = late_ok env m0 G"
    "stored_ok env m0 U0 m A G' = stored_ok env m0 U0 m A G"
proof -
  show b: "bound G' = bound G" and o: "offered G' = offered G" by (simp_all add: bound_def offered_def fun_eq_iff assms)
  show "ids_ok env U0 A G' = ids_ok env U0 A G" by (simp add: ids_ok_def b assms)
  show r: "rightly_offered env m0 U0 m G' = rightly_offered env m0 U0 m G" by (simp add: rightly_offered_def o fun_eq_iff)
  show "late_ok env m0 G' = late_ok env m0 G" by (simp add: late_ok_def b o fun_eq_iff)
  show "stored_ok env m0 U0 m A G' = stored_ok env m0 U0 m A G" by (simp add: stored_ok_def b r)
qed

lemma same_lawful: "(\<And>j. tp_ids (G' j) = tp_ids (G j)) \<Longrightarrow> lawful env m0 U0 m A G c \<Longrightarrow> lawful env m0 U0 m A G' c"
  by (rule lawful_grown [where G = G]) (simp_all add: grown_def evolves_def)

text \<open>What the programs have seen may change, as long as it is so.\<close>

lemma foreign_seen: "\<not> token_space k \<Longrightarrow> seen_ok env m0 m A k raw" "\<not> token_space k \<Longrightarrow> late_ok env m0 G h k raw"
  by (auto simp: seen_ok_def late_ok_def)

lemma seen_anew:
  assumes inv: "token_inv env m0 U0 wt m L U G" and ids: "\<And>j. tp_ids (G' j) = tp_ids (G j)"
    and seen: "\<And>j k raw. (k, raw) \<in> tp_seen (G' j) \<Longrightarrow> (k, raw) \<in> tp_seen (G j) \<or> \<not> token_space k \<or> m k = Some raw"
  shows "token_inv env m0 U0 wt m L U G'"
proof -
  let ?A = "U - U0"
  have parts: "ids_ok env U0 ?A G" "stored_ok env m0 U0 m ?A G" "\<And>c. c \<in> set L \<Longrightarrow> lawful env m0 U0 m ?A G c"
    "\<And>i k raw. (k, raw) \<in> tp_seen (G i) \<Longrightarrow> seen_ok env m0 m ?A k raw" "\<And>w. wt = Some w \<Longrightarrow> watched env m0 U0 m L G w"
    using inv by (simp_all add: token_inv_def watch_ok_def)
  note same = same_ids [where G = G and G' = G', OF ids]
  have "watched env m0 U0 m L G' w" if w: "wt = Some w" for w
  proof -
    have gone: "wt_gone w" if "i \<in> wt_late w" for i using parts(5) [OF w] that unfolding watched_def by blast
    have "late_ok env m0 G (wt_digest w) k raw" if "i \<in> wt_late w" "(k, raw) \<in> tp_seen (G' i)" for i k raw
      using seen [OF that(2)]
    proof
      assume "(k, raw) \<in> tp_seen (G i)"
      with parts(5) [OF w] that(1) show ?thesis unfolding watched_def by blast
    qed (use gone [OF that(1)] stored_late [OF parts(1, 2) _ parts(5) [OF w]] foreign_seen(2) in blast)
    with parts(5) [OF w] gone show ?thesis unfolding watched_def same by blast
  qed
  moreover have "seen_ok env m0 m ?A k raw" if "(k, raw) \<in> tp_seen (G' i)" for i k raw
    using seen [OF that] parts(4) stored_seen [OF parts(1, 2)] foreign_seen(1) by blast
  moreover have "lawful env m0 U0 m ?A G' c" if "c \<in> set L" for c
    by (rule same_lawful [where G = G, OF ids parts(3) [OF that]])
  ultimately show ?thesis using inv unfolding token_inv_def same watch_ok_def by blast
qed

lemma reply_seen:
  "(k, raw) \<in> tp_seen (token_reply env g c (Some x)) \<Longrightarrow> (k, raw) \<in> tp_seen g \<or> c = Get k \<and> x = Got (Some raw) \<or>
     (\<exists>e opts. c = Compare_And_Set k e (Some raw) opts \<and> x = Swapped True)"
  by (cases c) (auto simp: note_seen_def split: option.splits storage_reply.splits if_splits)

text \<open>A new identifier, which nothing in the store can carry yet.\<close>

lemma evolves_refl [simp]: "evolves x x"
  by (simp add: evolves_def)

lemma drawn:
  assumes inv: "token_inv env m0 U0 wt m L U G" and u: "u \<notin> U"
  shows "token_inv env m0 U0 wt m L (insert u U) (G(i := draw_id (G i) u))"
proof -
  let ?A = "U - U0" and ?A' = "insert u U - U0" and ?G = "G(i := draw_id (G i) u)"
  have parts: "origin env m0 U0" "U0 \<subseteq> U" "ids_ok env U0 ?A G" "stored_ok env m0 U0 m ?A G" "once env m L"
    "\<And>c. c \<in> set L \<Longrightarrow> lawful env m0 U0 m ?A G c" "\<And>i k raw. (k, raw) \<in> tp_seen (G i) \<Longrightarrow> seen_ok env m0 m ?A k raw"
    "\<And>w. wt = Some w \<Longrightarrow> watched env m0 U0 m L G w"
    using inv by (simp_all add: token_inv_def watch_ok_def)
  have none: "tp_ids (G j) u = None" for j using parts(3) u unfolding ids_ok_def by blast
  then have ids: "tp_ids (?G j) = (if j = i then (tp_ids (G i))(u \<mapsto> Drawn) else tp_ids (G j))" for j
    by (simp add: draw_id_def domIff)
  have seen: "tp_seen (?G j) = tp_seen (G j)" for j by (simp add: draw_id_def)
  have new: "u \<notin> U0" "?A' = insert u ?A" using u parts(2) by auto
  have bound: "bound ?G r h ag = bound G r h ag" for r h ag
    unfolding bound_def ids by (rule iff_exI) (use none in auto)
  have offered: "offered ?G r h ag = offered G r h ag" for r h ag
    unfolding offered_def ids by (rule iff_exI) (use none in auto)
  have grown: "grown G ?G" unfolding grown_def ids using none by auto
  have "ids_ok env U0 ?A' ?G"
    unfolding ids_ok_def bound
  proof (intro conjI allI impI)
    show "dom (tp_ids (?G j)) \<subseteq> ?A'" for j
      using parts(3) new unfolding ids ids_ok_def by auto
    show "j = k" if "x \<in> dom (tp_ids (?G j))" "x \<in> dom (tp_ids (?G k))" for j k x
      using that none ids_owner [OF parts(3)] unfolding ids by (auto split: if_splits)
    show "h \<in> minted env ` U0 \<or> (\<exists>v\<in>dom (tp_ids (?G j)). h = minted env v \<and> tp_ids (?G j) v \<noteq> Some Drawn)"
      if b: "tp_ids (?G j) r \<in> {Some (Bound h ag), Some (Offered h ag)}" for j r h ag
    proof -
      have "tp_ids (G j) r \<in> {Some (Bound h ag), Some (Offered h ag)}" using b unfolding ids by (auto split: if_splits)
      with parts(3) have "h \<in> minted env ` U0 \<or> (\<exists>v\<in>dom (tp_ids (G j)). h = minted env v \<and> tp_ids (G j) v \<noteq> Some Drawn)"
        unfolding ids_ok_def by blast
      moreover have "v \<in> dom (tp_ids (?G j)) \<and> tp_ids (?G j) v = tp_ids (G j) v" if "v \<in> dom (tp_ids (G j))" for v
        using that none [of j] unfolding ids by auto
      ultimately show ?thesis by force
    qed
  qed (use parts(3) in \<open>unfold ids_ok_def, blast\<close>)
  moreover have "stored_ok env m0 U0 m ?A' ?G"
    unfolding stored_ok_def bound rightly_offered_def offered new(2)
  proof (intro conjI allI impI)
    show "\<exists>h ag. bound G r h ag \<and> digest_of raw = Some h \<and> agent_of raw = Some ag" if "r \<in> insert u ?A" "m (record_key r) = Some raw" for r raw
    proof (cases "r = u")
      case True
      with that(2) stored_parts(1) [OF parts(4), of u] u parts(1) new(1) show ?thesis by (auto simp: origin_def)
    qed (use that stored_parts(2) [OF parts(4)] in blast)
    show "m (record_key r) = m0 (record_key r)" if "r \<notin> insert u ?A" for r
      using stored_parts(1) [OF parts(4)] that by blast
    show "m0 (lookup_key h) = Some raw \<or> points_ok (insert u ?A) raw" if "m (lookup_key h) = Some raw" for h raw
      using stored_parts(3) [OF parts(4) that] points_grown by blast
  qed (use stored_parts(4) [OF parts(4)] in \<open>simp add: rightly_offered_def\<close>)
  moreover have "watched env m0 U0 m L ?G w" if "wt = Some w" for w
    using parts(8) [OF that] late_grown [OF grown] unfolding watched_def bound offered seen by blast
  moreover have "lawful env m0 U0 m ?A' ?G c" if "c \<in> set L" for c
    by (rule lawful_grown [OF grown _ parts(6) [OF that]]) (use new in auto)
  moreover have "seen_ok env m0 m ?A' k raw" if "(k, raw) \<in> tp_seen (?G j)" for j k raw
    by (rule seen_grown [OF _ parts(7)]) (use new that seen in auto)
  ultimately show ?thesis
    using parts(1, 2, 5) unfolding token_inv_def watch_ok_def by blast
qed

section \<open>Over any store\<close>

text \<open>What other code may do at any time: it leaves the keys of agent tokens alone.\<close>

fun beside_tokens :: "storage_op \<Rightarrow> bool" where
  "beside_tokens (Set_Key k raw opts) = (\<not> token_space k)"
| "beside_tokens (Delete k) = (\<not> token_space k)"
| "beside_tokens (Compare_And_Set k e new opts) = (\<not> token_space k)"
| "beside_tokens _ = True"

lemma beside_lawful: "beside_tokens c \<Longrightarrow> lawful env m0 U0 m A G c \<and> token_effect c m = m"
  by (cases c) auto

locale token_store = kv_store act view invar
  for act :: "rat \<Rightarrow> storage_op \<Rightarrow> 's \<Rightarrow> storage_reply \<times> 's" and view invar +
  fixes env :: token_env and m0 :: contents and U0 :: "jstr set" and wt :: "watch option"
begin

definition token_invariant ::
    "rat \<Rightarrow> 's \<Rightarrow> storage_op list \<Rightarrow> jstr set \<Rightarrow> flow_event list \<Rightarrow> (nat \<Rightarrow> token_phase) \<Rightarrow> bool" where
  "token_invariant t s L U lg G \<longleftrightarrow> invar s \<and> durable (view t s) \<and> token_inv env m0 U0 wt (token_contents (view t s)) L U G"

lemma next_contents:
  assumes inv: "token_invariant t s L U lg G" and later: "t \<le> t'" and law: "lawful env m0 U0 (token_contents (view t s)) A G' c"
  shows "invar (snd (act t' c s)) \<and> durable (view t' (snd (act t' c s))) \<and>
    token_contents (view t' (snd (act t' c s))) = token_effect c (token_contents (view t s))"
proof -
  have s: "invar s" and v: "durable (alive t' (view t s))" "token_contents (alive t' (view t s)) = token_contents (view t s)"
    using inv durable_alive by (auto simp: token_invariant_def)
  have "durable (snd (spec_act t' c (alive t' (view t s)))) \<and>
      token_contents (snd (spec_act t' c (alive t' (view t s)))) = token_effect c (token_contents (alive t' (view t s)))"
    by (rule plain_effect [OF v(1)]) (use law v(2) in simp)
  then show ?thesis unfolding seen_next [OF s later] using act_invar [OF s] durable_alive v(2) by auto
qed

lemma landing_keeps:
  assumes inv: "token_invariant t s L U lg G" and c: "c \<in> set L" and later: "t \<le> t'"
  shows "token_invariant t' (snd (act t' c s)) (remove1 c L) U lg G"
proof -
  have ti: "token_inv env m0 U0 wt (token_contents (view t s)) L U G" using inv by (simp add: token_invariant_def)
  then have "lawful env m0 U0 (token_contents (view t s)) (U - U0) G c" using c by (simp add: token_inv_def)
  from next_contents [OF inv later this] landed [OF ti c] show ?thesis by (simp add: token_invariant_def)
qed

lemma lost_keeps:
  assumes "token_invariant t s L U lg G" "token_call env (G i) c"
  shows "token_invariant t s (c # L) U lg (G(i := token_reply env (G i) c None))"
  using assms submitted by (simp add: token_invariant_def)

lemma call_keeps:
  assumes inv: "token_invariant t s L U lg G" and call: "token_call env (G i) c" and later: "t \<le> t'"
  shows "token_invariant t' (snd (act t' c s)) L U lg (G(i := token_reply env (G i) c (Some (fst (act t' c s)))))"
proof -
  let ?x = "fst (act t' c s)" and ?m' = "token_contents (view t' (snd (act t' c s)))" and ?v = "alive t' (view t s)"
  let ?G = "G(i := token_reply env (G i) c None)"
  have s: "invar s" and m: "token_contents ?v = token_contents (view t s)"
    using inv durable_alive by (auto simp: token_invariant_def)
  have "token_invariant t' (snd (act t' c s)) (remove1 c (c # L)) U lg ?G"
    by (rule landing_keeps [OF lost_keeps [OF inv call] _ later]) simp
  then have there: "invar (snd (act t' c s))" "durable (view t' (snd (act t' c s)))" and ti: "token_inv env m0 U0 wt ?m' L U ?G"
    by (simp_all add: token_invariant_def)
  have "lawful env m0 U0 (token_contents (view t s)) (U - U0) ?G c"
    by (rule call_lawful [where wt = wt and L = L and G = G and i = i and c = c, OF _ call]) (use inv in \<open>simp add: token_invariant_def\<close>)
  from next_contents [OF inv later this] have m': "?m' = token_effect c (token_contents ?v)" by (simp add: m)
  have x: "?x = fst (spec_act t' c ?v)" by (rule reply_next [OF s later])
  have "token_inv env m0 U0 wt ?m' L U (G(i := token_reply env (G i) c (Some ?x)))"
  proof (rule seen_anew [OF ti])
    show "tp_ids ((G(i := token_reply env (G i) c (Some ?x))) j) = tp_ids (?G j)" for j
      using reply_parts(1) by simp
    show "(k, raw) \<in> tp_seen (?G j) \<or> \<not> token_space k \<or> ?m' k = Some raw"
      if seen: "(k, raw) \<in> tp_seen ((G(i := token_reply env (G i) c (Some ?x))) j)" for j k raw
    proof (cases "j = i")
      case True
      with seen have "(k, raw) \<in> tp_seen (token_reply env (G i) c (Some ?x))" by simp
      from reply_seen [OF this] show ?thesis
      proof (elim disjE conjE exE)
        show ?thesis if "(k, raw) \<in> tp_seen (G i)" using that True reply_parts(2) by simp
        show ?thesis if c: "c = Get k" "?x = Got (Some raw)"
          using reply_effect(1) [of k t' ?v "Some raw"] c x unfolding m' by auto
        show ?thesis if c: "c = Compare_And_Set k e (Some raw) opts" "?x = Swapped True" for e opts
          using reply_effect(2) [of k t' e raw opts ?v] c x unfolding m' by auto
      qed
    qed (use seen in simp)
  qed
  with there show ?thesis by (simp add: token_invariant_def)
qed

lemma beside_keeps:
  assumes inv: "token_invariant t s L U lg G" and c: "beside_tokens c" and later: "t \<le> t'"
  shows "token_invariant t' (snd (act t' c s)) L U lg G"
  using next_contents [OF inv later, of "U - U0" G c] beside_lawful [OF c] inv by (simp add: token_invariant_def)

end

sublocale token_store \<subseteq> flow: flow_discipline act beside_tokens "token_discipline env" token_invariant
proof
  show "plausible c (Some (fst (act t' c s)))" if "token_invariant t s L U lg G" for t s L U lg G c t'
    using that listing_plausible view_finite act_reply by (simp add: token_invariant_def)
qed (use call_keeps lost_keeps landing_keeps beside_keeps drawn in \<open>auto simp: token_invariant_def\<close>)

interpretation memory_tokens: token_store mem_act mem_view mem_wf env m0 U0 wt for env m0 U0 wt
  by (intro token_store.intro memory_store.kv_store_axioms)

end
