(* ===== verification/Token_Programs.thy ===== *)
theory Token_Programs
  imports Token_Calls
begin

text \<open>
  The programs of \<^verbatim>\<open>Access_Tokens\<close> follow the discipline of \<^verbatim>\<open>Token_Slots\<close>. Most of them
  are mild: they leave their identifiers as they are and only learn what is stored; the calculus for these is one rule per
  construct. Issuing and adopting add the two writes that bind an identifier and offer it.
\<close>

section \<open>Mild programs\<close>

definition wiser :: "token_phase \<Rightarrow> token_phase \<Rightarrow> bool" where
  "wiser g g' \<longleftrightarrow> tp_ids g \<subseteq>\<^sub>m tp_ids g' \<and> tp_seen g \<subseteq> tp_seen g'"

lemma wiser_refl [simp]: "wiser g g"
  by (simp add: wiser_def)

lemma wiser_trans: "wiser g g' \<Longrightarrow> wiser g' g'' \<Longrightarrow> wiser g g''"
  by (auto simp: wiser_def intro: map_le_trans)

lemma wiser_facts:
  assumes "wiser g g'"
  shows "(k, raw) \<in> tp_seen g \<Longrightarrow> (k, raw) \<in> tp_seen g'" "tp_ids g r = Some x \<Longrightarrow> tp_ids g' r = Some x"
    "r \<in> dom (tp_ids g) \<Longrightarrow> r \<in> dom (tp_ids g')" "saw_record env g L h \<Longrightarrow> saw_record env g' L h"
    "took_over env g h ag \<Longrightarrow> took_over env g' h ag" "r \<in> known_ids env g \<Longrightarrow> r \<in> known_ids env g'"
proof -
  show s: "(k, raw) \<in> tp_seen g \<Longrightarrow> (k, raw) \<in> tp_seen g'" for k raw using assms by (auto simp: wiser_def)
  show "tp_ids g r = Some x \<Longrightarrow> tp_ids g' r = Some x" for r x using assms unfolding wiser_def map_le_def by (metis domI)
  show d: "r \<in> dom (tp_ids g) \<Longrightarrow> r \<in> dom (tp_ids g')" for r using assms map_le_implies_dom_le unfolding wiser_def by blast
  show l: "saw_record env g L h \<Longrightarrow> saw_record env g' L h" for L h unfolding saw_record_def using s by blast
  show "took_over env g h ag \<Longrightarrow> took_over env g' h ag" unfolding took_over_def using l s by blast
  show "r \<in> known_ids env g \<Longrightarrow> r \<in> known_ids env g'" unfolding known_ids_def using s d by blast
qed

lemma wiser_seen [simp]: "wiser g (note_seen k v g)"
  by (auto simp: wiser_def note_seen_def split: option.split)

lemma wiser_draw [simp]: "wiser g (draw_id g u)"
  by (auto simp: wiser_def draw_id_def map_le_def)

definition lasting :: "(token_phase \<Rightarrow> bool) \<Rightarrow> bool" where
  "lasting C \<longleftrightarrow> (\<forall>g g'. wiser g g' \<longrightarrow> C g \<longrightarrow> C g')"

lemma lasting_intros [intro]:
  "lasting (\<lambda>g. True)" "lasting (\<lambda>g. b)" "lasting (\<lambda>g. (k, raw) \<in> tp_seen g)" "lasting (\<lambda>g. tp_ids g r = Some x)"
  "lasting (\<lambda>g. r \<in> dom (tp_ids g))" "lasting (\<lambda>g. saw_record env g L h)" "lasting (\<lambda>g. took_over env g h ag)"
  "lasting (\<lambda>g. r \<in> known_ids env g)" "lasting C \<Longrightarrow> lasting D \<Longrightarrow> lasting (\<lambda>g. C g \<and> D g)"
  "(\<And>x. lasting (\<lambda>g. P g x)) \<Longrightarrow> lasting (\<lambda>g. \<exists>x. P g x)" "(\<And>x. lasting (\<lambda>g. P g x)) \<Longrightarrow> lasting (\<lambda>g. \<forall>x. P g x)"
  "lasting C \<Longrightarrow> lasting (\<lambda>g. b \<longrightarrow> C g)"
  unfolding lasting_def by (blast intro: wiser_facts)+

text \<open>
  A mild program, started with what it needs to know, keeps its identifiers and its fields; \<open>R\<close> is what it knows
  with its result.
\<close>

definition mild :: "token_env \<Rightarrow> (token_phase \<Rightarrow> bool) \<Rightarrow> 'a tokens \<Rightarrow> (token_phase \<Rightarrow> 'a \<Rightarrow> bool) \<Rightarrow> bool" where
  "mild env C p R \<longleftrightarrow> (\<forall>J g l. C g \<longrightarrow> (\<forall>g'. wiser g g' \<longrightarrow> J g' l) \<longrightarrow>
     ensures (token_discipline env) J p (\<lambda>g' l' a. wiser g g' \<and> l' = l \<and> R g' a) g l)"

lemma mildI:
  assumes "\<And>J g l. C g \<Longrightarrow> (\<And>g'. wiser g g' \<Longrightarrow> J g' l) \<Longrightarrow>
     ensures (token_discipline env) J p (\<lambda>g' l' a. wiser g g' \<and> l' = l \<and> R g' a) g l"
  shows "mild env C p R"
  using assms by (simp add: mild_def)

lemma mildD:
  "mild env C p R \<Longrightarrow> C g \<Longrightarrow> (\<And>g'. wiser g g' \<Longrightarrow> J g' l) \<Longrightarrow>
     ensures (token_discipline env) J p (\<lambda>g' l' a. wiser g g' \<and> l' = l \<and> R g' a) g l"
  by (simp add: mild_def)

lemma ensures_weaken:
  "ensures D J p P g l \<Longrightarrow> (\<And>g l. J g l \<Longrightarrow> K g l) \<Longrightarrow> ensures D K p P g l"
  unfolding ensures_def by (rule wp_weaken, erule wp_mono) auto

named_theorems mild_rules "programs that only learn"

lemma mild_Ret [mild_rules]: "(\<And>g. C g \<Longrightarrow> R g a) \<Longrightarrow> mild env C (Ret a) R"
  by (rule mildI) auto

lemma mild_Throw [mild_rules]: "mild env C (Throw e) R"
  by (rule mildI) auto

lemma mild_mono: "mild env C p R \<Longrightarrow> (\<And>g a. R g a \<Longrightarrow> S g a) \<Longrightarrow> mild env C p S"
  unfolding mild_def by (blast intro: ensures_mono)

lemma mild_pre: "mild env C p R \<Longrightarrow> (\<And>g. B g \<Longrightarrow> C g) \<Longrightarrow> mild env B p R"
  unfolding mild_def by blast

text \<open>What a mild program was given it still knows at its end.\<close>

lemma mild_kept: "mild env C p R \<Longrightarrow> lasting B \<Longrightarrow> mild env (\<lambda>g. B g \<and> C g) p (\<lambda>g a. B g \<and> R g a)"
  unfolding mild_def lasting_def by (blast intro: ensures_mono)

lemma mild_after:
  assumes "mild env C p R" "lasting C" "\<And>a. mild env (\<lambda>g. C g \<and> R g a) (f a) S"
  shows "mild env C (after p f) S"
proof (rule mildI)
  fix J :: "token_phase \<Rightarrow> token_vars \<Rightarrow> bool" and g l
  assume c: "C g" and J: "\<And>g'. wiser g g' \<Longrightarrow> J g' l"
  have "ensures (token_discipline env) J p (\<lambda>g' l' a. wiser g g' \<and> l' = l \<and> C g' \<and> R g' a) g l"
    by (rule mildD [where C = "\<lambda>g. C g \<and> C g", OF mild_kept [OF assms(1, 2)]]) (use c J in auto)
  then have "ensures (token_discipline env) J p
      (\<lambda>g' l' a. ensures (token_discipline env) J (f a) (\<lambda>g'' l'' b. wiser g g'' \<and> l'' = l \<and> S g'' b) g' l') g l"
  proof (rule ensures_mono)
    fix g' l' a
    assume a: "wiser g g' \<and> l' = l \<and> C g' \<and> R g' a"
    have "ensures (token_discipline env) J (f a) (\<lambda>g'' l'' b. wiser g' g'' \<and> l'' = l' \<and> S g'' b) g' l'"
      by (rule mildD [OF assms(3)]) (use a J in \<open>auto intro: wiser_trans\<close>)
    then show "ensures (token_discipline env) J (f a) (\<lambda>g'' l'' b. wiser g g'' \<and> l'' = l \<and> S g'' b) g' l'"
      by (rule ensures_mono) (use a in \<open>auto intro: wiser_trans\<close>)
  qed
  then show "ensures (token_discipline env) J (after p f) (\<lambda>g' l' a. wiser g g' \<and> l' = l \<and> S g' a) g l"
    by (rule ensures_after)
qed

lemma mild_attempt:
  assumes "mild env C p R" "lasting C" "\<And>e. mild env C (h e) R"
  shows "mild env C (attempt p h) R"
proof (rule mildI)
  fix J :: "token_phase \<Rightarrow> token_vars \<Rightarrow> bool" and g l
  assume c: "C g" and J: "\<And>g'. wiser g g' \<Longrightarrow> J g' l"
  let ?J = "\<lambda>g' l'. J g' l' \<and> wiser g g' \<and> l' = l"
  have "ensures (token_discipline env) ?J (attempt p h) (\<lambda>g' l' a. wiser g g' \<and> l' = l \<and> R g' a) g l"
  proof (rule ensures_attempt)
    show "ensures (token_discipline env) ?J p (\<lambda>g' l' a. wiser g g' \<and> l' = l \<and> R g' a) g l"
      by (rule mildD [OF assms(1) c]) (use J in auto)
    fix e g' l'
    assume g': "J g' l' \<and> wiser g g' \<and> l' = l"
    then have c': "C g'" using assms(2) c unfolding lasting_def by blast
    have "ensures (token_discipline env) ?J (h e) (\<lambda>g'' l'' a. wiser g' g'' \<and> l'' = l' \<and> R g'' a) g' l'"
      by (rule mildD [OF assms(3) c']) (use g' J in \<open>auto intro: wiser_trans\<close>)
    then show "ensures (token_discipline env) ?J (h e) (\<lambda>g'' l'' a. wiser g g'' \<and> l'' = l \<and> R g'' a) g' l'"
      by (rule ensures_mono) (use g' in \<open>auto intro: wiser_trans\<close>)
  qed
  then show "ensures (token_discipline env) J (attempt p h) (\<lambda>g' l' a. wiser g g' \<and> l' = l \<and> R g' a) g l"
    by (rule ensures_weaken) simp
qed

lemma mild_Clock [mild_rules]: "(\<And>t. mild env C (k t) R) \<Longrightarrow> mild env C (Clock k) R"
  by (simp add: mild_def)

lemma mild_Halted [mild_rules]: "(\<And>b. mild env C (k b) R) \<Longrightarrow> mild env C (Halted s k) R"
  by (simp add: mild_def)

lemma mild_Uuid [mild_rules]:
  assumes "lasting C" "\<And>u. mild env C (k u) R"
  shows "mild env C (Uuid k) R"
proof (rule mildI)
  fix J :: "token_phase \<Rightarrow> token_vars \<Rightarrow> bool" and g l
  assume c: "C g" and J: "\<And>g'. wiser g g' \<Longrightarrow> J g' l"
  have "ensures (token_discipline env) J (k u) (\<lambda>g' l' a. wiser (draw_id g u) g' \<and> l' = l \<and> R g' a) (draw_id g u) l" for u
  proof (rule mildD [OF assms(2)])
    show "C (draw_id g u)" using c assms(1) wiser_draw unfolding lasting_def by blast
    show "J g' l" if "wiser (draw_id g u) g'" for g' using J wiser_trans [OF wiser_draw that] by blast
  qed
  then have "ensures (token_discipline env) J (k u) (\<lambda>g' l' a. wiser g g' \<and> l' = l \<and> R g' a) (draw_id g u) l" for u
    by (rule ensures_mono) (use wiser_trans [OF wiser_draw] in blast)
  then show "ensures (token_discipline env) J (Uuid k) (\<lambda>g' l' a. wiser g g' \<and> l' = l \<and> R g' a) g l"
    by simp
qed

lemma mild_interruptible [mild_rules]: "mild env C p R \<Longrightarrow> mild env C (interruptible s x p) R"
  unfolding mild_def by (blast intro: ensures_interruptible)

lemma mild_window_run [mild_rules]: "mild env C p R \<Longrightarrow> mild env C (window_run endsAt p) R"
  unfolding window_run_def by (rule mild_Clock) (simp add: mild_rules)

lemma mild_settle [mild_rules]: "(\<And>g. C g \<Longrightarrow> R g v) \<Longrightarrow> mild env C (window_settle endsAt v) R"
  unfolding window_settle_def by (rule mild_Clock) (simp add: mild_rules)

lemma mild_check [mild_rules]: "(\<And>g. C g \<Longrightarrow> R g ()) \<Longrightarrow> mild env C (check_signal s x) R"
  unfolding check_signal_def by (rule mild_Halted) (simp add: mild_rules)

lemma mild_throwIfAborted [mild_rules]: "(\<And>g. C g \<Longrightarrow> R g ()) \<Longrightarrow> mild env C throwIfAborted R"
  unfolding throwIfAborted_def by (rule mild_check)

lemma mild_unless_aborted [mild_rules]: "mild env C (unless_aborted e) R"
proof -
  have "mild env C (after throwIfAborted (\<lambda>_. Throw e)) R"
    by (rule mildI, rule ensures_after) (simp add: throwIfAborted_def ensures_check)
  then show ?thesis by (cases "e = Outcome_Unknown") (simp_all add: unless_aborted_def mild_Throw)
qed

lemma mild_reconcile [mild_rules]:
  assumes "mild env C trial (\<lambda>g r. \<forall>v. r = Some v \<longrightarrow> R g v)" "lasting C"
  shows "mild env C (reconcile n endsAt trial) R"
proof (induction n)
  case (Suc n)
  have "mild env C (after trial (\<lambda>r. case r of Some v \<Rightarrow> Ret v | None \<Rightarrow> reconcile n endsAt trial)) R"
    by (rule mild_after [OF assms]) (auto intro: mild_pre [OF Suc] mild_Ret split: option.split)
  then show ?case by (simp add: mild_Clock mild_Throw)
qed (simp add: mild_Throw)

section \<open>Reads and revocations\<close>

lemma mild_get [mild_rules]:
  assumes "\<And>g k v. C g \<Longrightarrow> key = Inr k \<Longrightarrow> (\<And>raw. v = Some raw \<Longrightarrow> (k, raw) \<in> tp_seen (note_seen k v g)) \<Longrightarrow> R (note_seen k v g) v"
  shows "mild env C (kv_get key) R"
proof (rule mildI)
  fix J :: "token_phase \<Rightarrow> token_vars \<Rightarrow> bool" and g l
  assume c: "C g" and J: "\<And>g'. wiser g g' \<Longrightarrow> J g' l"
  show "ensures (token_discipline env) J (kv_get key) (\<lambda>g' l' a. wiser g g' \<and> l' = l \<and> R g' a) g l"
  proof (cases key)
    case (Inr k)
    have "R (note_seen k v g) v" for v by (rule assms [OF c Inr]) (simp add: note_seen_def)
    with J Inr show ?thesis by (simp add: kv_get_def split: option.split storage_reply.split)
  qed (use J in \<open>simp add: kv_get_def\<close>)
qed

lemma mild_list [mild_rules]: "(\<And>g ks. C g \<Longrightarrow> R g ks) \<Longrightarrow> mild env C (kv_list p) R"
  by (rule mildI) (simp add: kv_list_def split: option.split storage_reply.split)

text \<open>Conditional writes that offer nothing.\<close>

lemma offer_none: "(\<And>ag r. k = slot_key ag \<Longrightarrow> \<not> names_id env ag raw r) \<Longrightarrow> offer_ids env k raw ids = ids"
  by (auto simp: offer_ids_def fun_eq_iff split: option.split id_state.split)

lemma wiser_offer_none:
  assumes "\<And>raw ag r. new = Some raw \<Longrightarrow> k = slot_key ag \<Longrightarrow> \<not> names_id env ag raw r"
  shows "wiser g (token_reply env g (Compare_And_Set k e new opts) x)"
proof (cases new)
  case (Some raw)
  have "offer_ids env k raw (tp_ids g) = tp_ids g" by (rule offer_none) (use assms Some in blast)
  then have "g\<lparr>tp_ids := offer_ids env k raw (tp_ids g)\<rparr> = g" by simp
  then show ?thesis by (simp add: Some)
qed simp

lemma mild_cas:
  assumes "\<And>g k. C g \<Longrightarrow> key = Inr k \<Longrightarrow> token_call env g (Compare_And_Set k e new plain_write)"
    and "\<And>k raw ag r. key = Inr k \<Longrightarrow> new = Some raw \<Longrightarrow> k = slot_key ag \<Longrightarrow> \<not> names_id env ag raw r"
    and "\<And>g g' b. C g \<Longrightarrow> wiser g g' \<Longrightarrow> R g' b"
  shows "mild env C (kv_cas key e new) R"
proof (rule mildI)
  fix J :: "token_phase \<Rightarrow> token_vars \<Rightarrow> bool" and g l
  assume c: "C g" and J: "\<And>g'. wiser g g' \<Longrightarrow> J g' l"
  show "ensures (token_discipline env) J (kv_cas key e new) (\<lambda>g' l' a. wiser g g' \<and> l' = l \<and> R g' a) g l"
  proof (cases key)
    case (Inr k)
    have w: "wiser g (token_reply env g (Compare_And_Set k e new plain_write) x)" for x
      by (rule wiser_offer_none) (use assms(2) Inr in blast)
    show ?thesis
      using assms(1) [OF c Inr] assms(3) [OF c w] J w
      by (simp add: kv_cas_def Inr del: token_call.simps token_reply.simps split: option.split storage_reply.split)
  qed (use J in \<open>simp add: kv_cas_def\<close>)
qed

lemma mild_revoke_cas:
  "lasting C \<Longrightarrow> (\<And>g b. C g \<Longrightarrow> R g b) \<Longrightarrow> mild env C (kv_cas (accessTokenKeys_agent ag) e (Some (revokedSlot ag since stamp))) R"
  by (rule mild_cas) (auto dest!: key_builders(3) simp: revoked_names lasting_def)

lemma mild_pointer_cas:
  assumes "lasting C" "\<And>g b. C g \<Longrightarrow> R g b" "\<And>g raw. C g \<Longrightarrow> new = Some raw \<Longrightarrow> points_ok (known_ids env g) raw"
  shows "mild env C (kv_cas (accessTokenKeys_lookup h) e new) R"
proof (rule mild_cas)
  show "token_call env g (Compare_And_Set k e new plain_write)" if "C g" "accessTokenKeys_lookup h = Inr k" for g k
    using assms(3) [OF that(1)] key_builders(2) [OF that(2)] by auto
qed (use assms(1, 2) in \<open>auto dest!: key_builders(2) simp: lasting_def\<close>)

lemma mild_record_cas:
  assumes "lasting C" "\<And>g b. C g \<Longrightarrow> R g b" "\<And>g. C g \<Longrightarrow> r \<in> dom (tp_ids g)"
  shows "mild env C (kv_cas (accessTokenKeys_record r) e None) R"
proof (rule mild_cas)
  show "token_call env g (Compare_And_Set k e None plain_write)" if "C g" "accessTokenKeys_record r = Inr k" for g k
    using assms(3) [OF that(1)] key_builders(1) [OF that(2)] by auto
qed (use assms(1, 2) in \<open>auto dest!: key_builders(1) simp: lasting_def\<close>)

text \<open>What a reader knows: the text it read, under its key.\<close>

definition read_as :: "token_env \<Rightarrow> jstr \<Rightarrow> token_phase \<Rightarrow> stored_token option \<Rightarrow> bool" where
  "read_as env r g v \<longleftrightarrow> (\<forall>rec. v = Some rec \<longrightarrow> st_id rec = r \<and> (\<exists>raw. (record_key r, raw) \<in> tp_seen g \<and> parseRecord env raw = Inr rec))"

definition slot_read :: "token_env \<Rightarrow> jstr \<Rightarrow> token_phase \<Rightarrow> jstr option \<times> stored_slot option \<Rightarrow> bool" where
  "slot_read env ag g v \<longleftrightarrow> (snd v = None \<longrightarrow> fst v = None) \<and>
     (\<forall>r since. snd v = Some (Issued r since) \<longrightarrow> (\<exists>raw. (slot_key ag, raw) \<in> tp_seen g \<and> names_id env ag raw r))"

lemma read_lasting [intro]: "lasting (\<lambda>g. read_as env r g v)" "lasting (\<lambda>g. slot_read env ag g v')"
  unfolding read_as_def slot_read_def by (intro lasting_intros)+

lemma read_knows: "slot_read env ag g (raw, Some (Issued r since)) \<Longrightarrow> r \<in> known_ids env g"
  by (auto simp: slot_read_def known_ids_def)

lemma mild_parsed: "(\<And>g a. C g \<Longrightarrow> v = Inr a \<Longrightarrow> R g a) \<Longrightarrow> mild env C (parsed_or_throw v) R"
  by (auto simp: parsed_or_throw_def intro!: mild_rules split: sum.split)

lemma mild_key_get:
  assumes "\<And>k. key = Inr k \<Longrightarrow> k = k'"
  shows "mild env (\<lambda>_. True) (kv_get key) (\<lambda>g v. \<forall>raw. v = Some raw \<longrightarrow> (k', raw) \<in> tp_seen g)"
  by (rule mild_get) (use assms in blast)

lemma mild_read_record [mild_rules]: "mild env C (read_record env r) (read_as env r)"
proof -
  have "mild env (\<lambda>_. True) (read_record env r) (read_as env r)"
    unfolding read_record_def
    by (auto intro!: mild_rules mild_after [OF mild_key_get [where k' = "record_key r"]] lasting_intros mild_parsed
        mild_after [where R = "\<lambda>g rec. \<exists>raw. (record_key r, raw) \<in> tp_seen g \<and> parseRecord env raw = Inr rec"]
        dest: key_builders simp: read_as_def split: option.split) blast+
  then show ?thesis by (rule mild_pre) simp
qed

lemma mild_readSlot [mild_rules]: "mild env C (readSlot env ag) (slot_read env ag)"
proof -
  have "mild env (\<lambda>_. True) (readSlot env ag) (slot_read env ag)"
    unfolding readSlot_def
    by (auto intro!: mild_rules mild_after [OF mild_key_get [where k' = "slot_key ag"]] lasting_intros mild_parsed
        mild_after [where R = "\<lambda>g slot. \<exists>raw. (slot_key ag, raw) \<in> tp_seen g \<and> parseSlot env raw ag = Inr slot"]
        dest: key_builders simp: slot_read_def names_id_def split: option.split) blast+
  then show ?thesis by (rule mild_pre) simp
qed

lemma mild_slotNames [mild_rules]: "lasting C \<Longrightarrow> (\<And>g b. C g \<Longrightarrow> R g b) \<Longrightarrow> mild env C (slotNames env endsAt ag r) R"
  unfolding slotNames_def
  by (intro mild_rules mild_attempt) (auto intro!: mild_rules mild_after [OF mild_readSlot] mild_after [OF mild_window_run [OF mild_readSlot]])

lemma mild_revokeIfNamed: "lasting C \<Longrightarrow> (\<And>g. C g \<Longrightarrow> R g ()) \<Longrightarrow> mild env C (revokeIfNamed env endsAt ag r) R"
  unfolding revokeIfNamed_def
  apply (intro mild_rules mild_attempt, assumption)
     apply (rule mild_after [OF mild_window_run [OF mild_readSlot]], assumption)
     apply (auto intro!: mild_rules mild_after [OF mild_window_run [OF mild_revoke_cas [where R = "\<lambda>_ _. True"]]] lasting_intros)
  done

text \<open>Programs of which only the calls matter.\<close>

abbreviation follows :: "token_env \<Rightarrow> 'a tokens \<Rightarrow> bool" where
  "follows env p \<equiv> mild env (\<lambda>_. True) p (\<lambda>_ _. True)"

lemma follows_seq: "follows env p \<Longrightarrow> (\<And>a. follows env (f a)) \<Longrightarrow> follows env (after p f)"
  by (rule mild_after) auto

lemma follows_attempt: "follows env p \<Longrightarrow> (\<And>e. follows env (h e)) \<Longrightarrow> follows env (attempt p h)"
  by (rule mild_attempt) auto

lemma follows_reads: "follows env (readSlot env ag)" "follows env (read_record env r)"
  by (rule mild_mono, rule mild_rules, rule TrueI)+

lemma follows_revoke_cas: "follows env (kv_cas (accessTokenKeys_agent ag) e (Some (revokedSlot ag since stamp)))"
  by (rule mild_revoke_cas) auto

lemmas follows_intros = follows_seq follows_attempt follows_reads follows_revoke_cas mild_rules lasting_intros

lemma follows_list_slots: "follows env (list_slots env names)"
  by (induction names) (auto intro!: follows_intros)

lemma follows_stored_records: "follows env (stored_records env ks)"
  by (induction ks) (auto intro!: follows_intros)

lemma follows_carried: "follows env (carried_digests env names)"
  by (induction names) (auto intro!: follows_intros split: option.split stored_slot.split)

lemma follows_still_adoptable: "follows env (still_adoptable carried recs)"
  by (induction recs) (auto intro!: follows_intros)

lemma follows_unboundTokens: "follows env (unboundTokens env)"
  unfolding unboundTokens_def by (auto intro!: follows_intros follows_stored_records follows_carried follows_still_adoptable)

lemma follows_revoke_from: "follows env (revoke_from env endsAt ag raw stamp)"
  unfolding revoke_from_def Let_def by (auto intro!: follows_intros)

lemma follows_reconcile: "follows env trial \<Longrightarrow> follows env (reconcile n endsAt trial)"
  by (rule mild_reconcile) (auto elim: mild_mono)

lemma follows_settled: "follows env (window_settle endsAt v)"
  by (rule mild_settle) simp

lemma follows_run: "follows env p \<Longrightarrow> follows env (window_run endsAt p)"
  by (rule mild_window_run)

lemma follows_ends: "follows env (Ret a)" "follows env (Throw e)" "follows env throwIfAborted" "follows env (unless_aborted e)"
  by (rule mild_rules; simp)+

lemma follows_settle: "follows env (settleRevocation env endsAt ag raw stamp)" "follows env (revoke_whatever env endsAt ag stamp)"
  unfolding settleRevocation_def revoke_whatever_def
  by (auto intro!: follows_reconcile follows_seq follows_attempt follows_run follows_reads follows_revoke_from follows_settled follows_ends)

lemma follows_revoke_commit: "follows env (revoke_commit env endsAt ag raw expect since stamp)"
  unfolding revoke_commit_def
  by (auto intro!: follows_seq follows_attempt follows_run follows_revoke_cas follows_settle follows_settled follows_ends
      split: option.split bool.split)

lemma follows_revoke: "follows env (revoke env ag deadline expect)"
  unfolding revoke_def Let_def
  by (auto intro!: follows_seq follows_attempt follows_run follows_reads follows_settled follows_ends follows_revoke_commit
      mild_Clock mild_Uuid lasting_intros)

section \<open>Authorization\<close>

text \<open>What an admission has read: the record of the token's digest, and the slot of the record's agent naming it.\<close>

definition let_in :: "token_env \<Rightarrow> jstr \<Rightarrow> token_phase \<Rightarrow> bool" where
  "let_in env h g \<longleftrightarrow> (\<exists>r raw ag slot. (record_key r, raw) \<in> tp_seen g \<and> digest_of raw = Some h \<and>
     (slot_key ag, slot) \<in> tp_seen g \<and> names_id env ag slot r)"

definition admitted :: "token_env \<Rightarrow> jstr \<Rightarrow> token_phase \<Rightarrow> auth_result \<Rightarrow> bool" where
  "admitted env h g v \<longleftrightarrow> (v \<noteq> Refused_401 \<longrightarrow> let_in env h g)"

lemma admitted_refused [simp]: "admitted env h g Refused_401"
  by (simp add: admitted_def)

lemma mild_if: "(b \<Longrightarrow> mild env C p R) \<Longrightarrow> (\<not> b \<Longrightarrow> mild env C q R) \<Longrightarrow> mild env C (if b then p else q) R"
  by simp

lemma mild_checked: "lasting C \<Longrightarrow> mild env C p R \<Longrightarrow> mild env C (after (check_signal s x) (\<lambda>_. p)) R"
  by (rule mild_after [where R = "\<lambda>_ _. True"]) (auto intro: mild_rules)

lemma mild_admit_record: "mild env (\<lambda>g. read_as env r g found) (admit_record env token h found) (admitted env h)"
proof (cases found)
  case None
  then show ?thesis by (auto simp: admit_record_def Let_def intro!: mild_checked mild_rules lasting_intros)
next
  case (Some rec)
  have slot: "mild env (\<lambda>g. read_as env r g (Some rec) \<and> slot_read env ag g v)
      (case v of (_, slot) \<Rightarrow> after (check_signal Caller_Signal Timed_Out)
        (\<lambda>_. Ret (if names_token slot (st_id rec) then Admitted (agentSubjectId ag) ag else Refused_401))) (admitted env h)"
    if "st_tokenHash rec = h" for ag v
  proof (cases v)
    case (Pair raw slot)
    show ?thesis
      unfolding Pair prod.case
    proof (rule mild_checked, intro lasting_intros read_lasting, rule mild_Ret)
      fix g
      assume g: "read_as env r g (Some rec) \<and> slot_read env ag g (raw, slot)"
      show "admitted env h g (if names_token slot (st_id rec) then Admitted (agentSubjectId ag) ag else Refused_401)"
      proof (cases "names_token slot (st_id rec)")
        case True
        then obtain since where "slot = Some (Issued (st_id rec) since)" by (auto simp: names_token_def split: option.splits stored_slot.splits)
        with g that have "let_in env h g" unfolding let_in_def read_as_def slot_read_def using parsed_record by fastforce
        then show ?thesis by (simp add: admitted_def)
      qed simp
    qed
  qed
  have part: "mild env (\<lambda>g. read_as env r g (Some rec)) (after (readSlot env ag) (\<lambda>(_, slot).
      after (check_signal Caller_Signal Timed_Out)
        (\<lambda>_. Ret (if names_token slot (st_id rec) then Admitted (agentSubjectId ag) ag else Refused_401)))) (admitted env h)"
    if "st_tokenHash rec = h" for ag
    by (rule mild_after [OF mild_readSlot], rule read_lasting, rule slot [OF that])
  show ?thesis
  proof (cases "st_tokenHash rec = h")
    case True
    show ?thesis
      unfolding admit_record_def Some Let_def
      by (rule mild_checked) (auto simp: True read_lasting intro!: mild_if mild_Ret part [OF True] split: option.split split del: if_split)
  next
    case False
    then show ?thesis
      unfolding admit_record_def Some Let_def by (intro mild_checked) (auto intro!: mild_Ret)
  qed
qed

lemma mild_authorize_token: "mild env (\<lambda>_. True) (authorize_token env token) (admitted env (te_sha256 env token))"
  unfolding authorize_token_def Let_def
  by (auto intro!: mild_checked lasting_intros mild_Ret mild_after [OF mild_get [where R = "\<lambda>_ _. True"]]
      mild_after [OF mild_read_record] mild_pre [OF mild_admit_record] split: option.split)

text \<open>A request that is admitted carries a token whose digest let it in.\<close>

definition presents :: "jstr option \<Rightarrow> jstr \<Rightarrow> bool" where
  "presents header token \<longleftrightarrow> authorizationCredential header = Bearer_Credential token"

lemma mild_authorize:
  assumes "presents header token"
  shows "mild env (\<lambda>_. True) (authorize env header) (admitted env (te_sha256 env token))"
  using assms unfolding authorize_def presents_def
  by (auto intro!: mild_attempt mild_rules mild_checked mild_authorize_token lasting_intros)

lemma follows_authorize: "follows env (authorize env header)"
proof (cases "authorizationCredential header")
  case (Bearer_Credential token)
  then have "presents header token" by (simp add: presents_def)
  from mild_authorize [OF this] show ?thesis by (rule mild_mono) simp
qed (auto simp: authorize_def intro!: follows_attempt follows_ends)

section \<open>Programs that draw nothing\<close>

primrec drawless :: "('l, 'e, 'a) prog \<Rightarrow> bool" where
  "drawless (Ret a) = True"
| "drawless (Throw e) = True"
| "drawless (Store c k) = (\<forall>r. drawless (k r))"
| "drawless (Uuid k) = False"
| "drawless (Nonce k) = (\<forall>u. drawless (k u))"
| "drawless (Clock k) = (\<forall>t. drawless (k t))"
| "drawless (Halted s k) = (\<forall>b. drawless (k b))"
| "drawless (Peek k) = (\<forall>l. drawless (k l))"
| "drawless (Poke l p) = drawless p"
| "drawless (Send t p) = False"
| "drawless (Await k) = False"

named_theorems drawless_rules "programs that draw nothing"

lemma drawless_after [drawless_rules]: "drawless p \<Longrightarrow> (\<And>a. drawless (f a)) \<Longrightarrow> drawless (after p f)"
  by (induction p) auto

lemma drawless_attempt [drawless_rules]: "drawless p \<Longrightarrow> (\<And>e. drawless (h e)) \<Longrightarrow> drawless (attempt p h)"
  by (induction p) auto

lemma drawless_interruptible [drawless_rules]: "drawless p \<Longrightarrow> drawless (interruptible s x p)"
  by (induction p) auto

lemma drawless_basics [drawless_rules]:
  "drawless (kv_get k)" "drawless (kv_set k v)" "drawless (kv_cas k e new)" "drawless (check_signal s x)" "drawless throwIfAborted"
  "drawless (window_settle endsAt a)" "drawless (parsed_or_throw r)" "drawless (unless_aborted x')"
  by (auto simp: kv_get_def kv_set_def kv_cas_def check_signal_def throwIfAborted_def window_settle_def parsed_or_throw_def
      unless_aborted_def split: sum.split option.split storage_reply.split)

lemma drawless_run [drawless_rules]: "drawless p \<Longrightarrow> drawless (window_run endsAt p)"
  by (simp add: window_run_def drawless_interruptible)

lemma drawless_reads [drawless_rules]: "drawless (read_record env r)" "drawless (readSlot env ag)"
  unfolding read_record_def readSlot_def by (auto intro!: drawless_rules split: option.split)

lemma drawless_carrying [drawless_rules]: "drawless (agentCarrying env endsAt h names)"
  by (induction names) (auto intro!: drawless_rules split: option.split stored_slot.split)

lemma ensures_drawless:
  "ensures (token_discipline env) J p P g l \<Longrightarrow> drawless p \<Longrightarrow>
   ensures (token_discipline env) J p (\<lambda>g' l' a. P g' l' a \<and> dom (tp_ids g') = dom (tp_ids g)) g l"
proof (induction p arbitrary: g l)
  case (Store c k)
  have "ensures (token_discipline env) J (k r) (\<lambda>g' l' a. P g' l' a \<and> dom (tp_ids g') = dom (tp_ids (token_reply env g c r))) (token_reply env g c r) l"
    if "plausible c r" for r
    using Store that by simp
  with Store.prems show ?case by (simp add: reply_dom)
qed auto

section \<open>Programs that bind and offer\<close>

text \<open>A condition on the identifiers a program owns, which nothing takes away.\<close>

definition owning :: "(token_phase \<Rightarrow> token_vars \<Rightarrow> bool) \<Rightarrow> bool" where
  "owning J \<longleftrightarrow> (\<forall>g g' l. J g l \<longrightarrow> dom (tp_ids g) \<subseteq> dom (tp_ids g') \<longrightarrow> J g' l)"

lemma owning_wiser: "owning J \<Longrightarrow> J g l \<Longrightarrow> wiser g g' \<Longrightarrow> J g' l"
  unfolding owning_def wiser_def using map_le_implies_dom_le by blast

lemma owning_reply: "owning J \<Longrightarrow> J g l \<Longrightarrow> J (token_reply env g c r) l"
  unfolding owning_def using reply_dom by blast

lemma ensures_run: "ensures D J p P g l \<Longrightarrow> J g l \<Longrightarrow> ensures D J (window_run endsAt p) P g l"
  by (simp add: window_run_def ensures_interruptible)

lemma mild_then:
  assumes "mild env C p R" "C g" "owning J" "J g l" "\<And>g' a. wiser g g' \<Longrightarrow> R g' a \<Longrightarrow> ensures (token_discipline env) J (f a) P g' l"
  shows "ensures (token_discipline env) J (after p f) P g l"
proof (rule ensures_after, rule ensures_mono)
  show "ensures (token_discipline env) J p (\<lambda>g' l' a. wiser g g' \<and> l' = l \<and> R g' a) g l"
    by (rule mildD [OF assms(1, 2)]) (use assms(3, 4) owning_wiser in blast)
qed (use assms(5) in auto)

lemma still_then:
  assumes "mild env C p R" "drawless p" "C g" "owning J" "J g l"
    "\<And>g' a. wiser g g' \<Longrightarrow> tp_ids g' = tp_ids g \<Longrightarrow> R g' a \<Longrightarrow> ensures (token_discipline env) J (f a) P g' l"
  shows "ensures (token_discipline env) J (after p f) P g l"
proof (rule ensures_after, rule ensures_mono)
  have "ensures (token_discipline env) J p (\<lambda>g' l' a. wiser g g' \<and> l' = l \<and> R g' a) g l"
    by (rule mildD [OF assms(1, 3)]) (use assms(4, 5) owning_wiser in blast)
  then show "ensures (token_discipline env) J p (\<lambda>g' l' a. (wiser g g' \<and> l' = l \<and> R g' a) \<and> dom (tp_ids g') = dom (tp_ids g)) g l"
    by (rule ensures_drawless) (rule assms(2))
  show "ensures (token_discipline env) J (f a) P g' l'"
    if "(wiser g g' \<and> l' = l \<and> R g' a) \<and> dom (tp_ids g') = dom (tp_ids g)" for g' l' a
  proof -
    have "tp_ids g' = tp_ids g" using that by (metis map_le_antisym map_le_def wiser_def)
    with that assms(6) show ?thesis by simp
  qed
qed

lemma mild_ends:
  assumes "mild env C p R" "C g" "owning J" "J g l" "\<And>g' a. wiser g g' \<Longrightarrow> R g' a \<Longrightarrow> P g' l a"
  shows "ensures (token_discipline env) J p P g l"
  by (rule ensures_mono [OF mildD [OF assms(1, 2)]]) (use assms(3-5) owning_wiser in auto)

text \<open>The record of a token, its lookup and the slot.\<close>

lemma set_record_binds:
  assumes "tp_ids g r = Some Drawn" "digest_of raw = Some h" "agent_of raw = Some ag"
    "(\<exists>u. tp_ids g u = Some Drawn \<and> h = minted env u) \<or> (\<exists>L. saw_record env g L h)" "owning J" "J g l"
    "\<And>g'. tp_ids g' r = Some (Bound h ag) \<Longrightarrow> dom (tp_ids g') = dom (tp_ids g) \<Longrightarrow> tp_seen g' = tp_seen g \<Longrightarrow> P g' l ()"
  shows "ensures (token_discipline env) J (kv_set (accessTokenKeys_record r) raw) P g l"
proof (cases "accessTokenKeys_record r")
  case (Inr k)
  have k: "k = record_key r" by (rule key_builders(1) [OF Inr])
  let ?c = "Set_Key k raw plain_write"
  have call: "token_call env g ?c" using assms(1-4) k by auto
  have bound: "tp_ids (token_reply env g ?c x) r = Some (Bound h ag)" for x
    using assms(1-3) by (simp add: k bind_ids_def)
  have "tp_seen (token_reply env g ?c x) = tp_seen g" for x by simp
  with assms(7) [OF bound reply_dom] have "P (token_reply env g ?c x) l ()" for x by blast
  with call owning_reply [OF assms(5, 6)] show ?thesis
    by (simp add: kv_set_def Inr del: token_call.simps token_reply.simps split: option.split storage_reply.split)
qed (use assms(6) in \<open>simp add: kv_set_def\<close>)

lemma mild_set_lookup: "(\<And>g. C g \<Longrightarrow> r \<in> dom (tp_ids g)) \<Longrightarrow> mild env C (kv_set (accessTokenKeys_lookup h) (lookup_text r)) (\<lambda>_ _. True)"
proof (rule mildI)
  fix J :: "token_phase \<Rightarrow> token_vars \<Rightarrow> bool" and g l
  assume own: "\<And>g. C g \<Longrightarrow> r \<in> dom (tp_ids g)" and c: "C g" and J: "\<And>g'. wiser g g' \<Longrightarrow> J g' l"
  show "ensures (token_discipline env) J (kv_set (accessTokenKeys_lookup h) (lookup_text r)) (\<lambda>g' l' a. wiser g g' \<and> l' = l \<and> True) g l"
  proof (cases "accessTokenKeys_lookup h")
    case (Inr k)
    have k: "k = lookup_key h" by (rule key_builders(2) [OF Inr])
    have "points_ok (known_ids env g) (lookup_text r)" using own [OF c] by (intro lookup_points) (simp add: known_ids_def)
    moreover have "bind_ids env k (lookup_text r) (tp_ids g) = tp_ids g" by (simp add: bind_ids_def k)
    ultimately show ?thesis using J by (simp add: kv_set_def Inr k split: option.split storage_reply.split)
  qed (use J in \<open>simp add: kv_set_def\<close>)
qed

lemma slot_commit_follows:
  assumes "tp_ids g r = Some (Bound h ag)" "owning J" "J g l"
    "(\<exists>u. u \<in> dom (tp_ids g) \<and> h = minted env u) \<or> raw = None \<and> took_over env g h ag"
  shows "ensures (token_discipline env) J (commit_slot env endsAt ag raw (issued_text ag r since) r)
    (\<lambda>g' l' _. dom (tp_ids g) \<subseteq> dom (tp_ids g') \<and> l' = l) g l"
proof -
  let ?J = "\<lambda>g' l'. J g' l' \<and> dom (tp_ids g) \<subseteq> dom (tp_ids g') \<and> l' = l"
  have own: "owning ?J" using assms(2) subset_trans unfolding owning_def by blast
  have cas: "ensures (token_discipline env) ?J (kv_cas (accessTokenKeys_agent ag) raw (Some (issued_text ag r since)))
      (\<lambda>g' l' _. dom (tp_ids g) \<subseteq> dom (tp_ids g') \<and> l' = l) g l"
  proof (cases "accessTokenKeys_agent ag")
    case (Inr k)
    have k: "k = slot_key ag" by (rule key_builders(3) [OF Inr])
    let ?c = "Compare_And_Set k raw (Some (issued_text ag r since)) plain_write"
    have "\<exists>h. tp_ids g r' = Some (Bound h ag) \<and> ((\<exists>u. u \<in> dom (tp_ids g) \<and> h = minted env u) \<or> raw = None \<and> took_over env g h ag)"
      if "names_id env ag (issued_text ag r since) r'" for r'
      using issued_names [OF that] assms(1, 4) by blast
    then have "token_call env g ?c" unfolding k by simp
    with owning_reply [OF own, of g l] assms(3) show ?thesis
      by (simp add: kv_cas_def Inr del: token_call.simps token_reply.simps split: option.split storage_reply.split)
  qed (use assms(3) in \<open>simp add: kv_cas_def\<close>)
  have "ensures (token_discipline env) ?J (commit_slot env endsAt ag raw (issued_text ag r since) r)
      (\<lambda>g' l' _. dom (tp_ids g) \<subseteq> dom (tp_ids g') \<and> l' = l) g l"
    unfolding commit_slot_def
  proof (rule ensures_attempt, rule ensures_run [OF cas])
    fix e g' l'
    assume j: "?J g' l'"
    have "follows env (if e = Outcome_Unknown then Throw e
        else after (slotNames env endsAt ag r) (\<lambda>named. if named then Ret True else Throw e))"
      by (auto intro!: follows_seq follows_ends mild_slotNames)
    then show "ensures (token_discipline env) ?J (if e = Outcome_Unknown then Throw e
        else after (slotNames env endsAt ag r) (\<lambda>named. if named then Ret True else Throw e)) (\<lambda>g' l' _. dom (tp_ids g) \<subseteq> dom (tp_ids g') \<and> l' = l) g' l'"
      by (rule mild_ends [OF _ TrueI own j]) (use j wiser_facts(3) in blast)
  qed (use assms(3) in simp)
  then show ?thesis by (rule ensures_weaken) simp
qed

lemma mild_drop_record: "lasting C \<Longrightarrow> (\<And>g. C g \<Longrightarrow> r \<in> dom (tp_ids g)) \<Longrightarrow> mild env C (drop_own endsAt (accessTokenKeys_record r) raw) (\<lambda>_ _. True)"
  unfolding drop_own_def
  by (rule mild_attempt, rule mild_after, rule mild_window_run, rule mild_record_cas [where R = "\<lambda>_ _. True"]) (auto intro: mild_rules)

lemma follows_drop_lookup: "follows env (drop_own endsAt (accessTokenKeys_lookup h) raw)"
  unfolding drop_own_def
  by (rule mild_attempt, rule mild_after, rule mild_window_run, rule mild_pointer_cas [where R = "\<lambda>_ _. True"]) (auto intro: mild_rules)

lemma mild_discard:
  assumes "lasting C" "\<And>g. C g \<Longrightarrow> r \<in> dom (tp_ids g)"
  shows "mild env C (discard_own endsAt h r raw) (\<lambda>_ _. True)"
  unfolding discard_own_def
  by (rule mild_after [OF mild_pre [OF follows_drop_lookup] assms(1)], simp, rule mild_pre [OF mild_drop_record [OF assms]]) auto

definition owns :: "jstr set \<Rightarrow> token_phase \<Rightarrow> token_vars \<Rightarrow> bool" where
  "owns X g l \<longleftrightarrow> X \<subseteq> dom (tp_ids g)"

lemma owning_owns [simp]: "owning (owns X)"
  unfolding owning_def owns_def by blast

lemma write_own_follows:
  assumes "tp_ids g r = Some Drawn" "tp_ids g u = Some Drawn" "h = minted env u" "digest_of raw = Some h" "agent_of raw = Some ag"
  shows "ensures (token_discipline env) (owns {r, u}) (write_own endsAt h r raw)
    (\<lambda>g' l' _. tp_ids g' r = Some (Bound h ag) \<and> u \<in> dom (tp_ids g') \<and> l' = l) g l"
proof -
  have j: "owns {r, u} g l" using assms(1, 2) by (simp add: owns_def domI)
  let ?P = "\<lambda>g' l' (_ :: unit). tp_ids g' r = Some (Bound h ag) \<and> u \<in> dom (tp_ids g') \<and> l' = l"
  have get: "mild env (\<lambda>_. True) (window_run endsAt (kv_get (accessTokenKeys_lookup h))) (\<lambda>_ _. True)"
    by (rule mild_window_run, rule mild_get) simp
  have rest: "ensures (token_discipline env) (owns {r, u})
      (after (window_run endsAt (kv_set (accessTokenKeys_lookup h) (lookup_text r))) (\<lambda>_. throwIfAborted)) ?P g' l"
    if b: "tp_ids g' r = Some (Bound h ag)" "u \<in> dom (tp_ids g')" for g'
  proof -
    have C: "lasting (\<lambda>g. tp_ids g r = Some (Bound h ag) \<and> u \<in> dom (tp_ids g))" by (intro lasting_intros)
    have "mild env (\<lambda>g. tp_ids g r = Some (Bound h ag) \<and> u \<in> dom (tp_ids g))
        (after (window_run endsAt (kv_set (accessTokenKeys_lookup h) (lookup_text r))) (\<lambda>_. throwIfAborted))
        (\<lambda>g _. tp_ids g r = Some (Bound h ag) \<and> u \<in> dom (tp_ids g))"
      by (rule mild_after [OF mild_window_run [OF mild_set_lookup] C]) (auto intro: mild_rules)
    then show ?thesis by (rule mild_ends [OF _ _ owning_owns]) (use b in \<open>auto simp: owns_def\<close>)
  qed
  show ?thesis
    unfolding write_own_def
  proof (rule mild_then [OF get TrueI owning_owns j])
    fix g1 found
    assume w: "wiser g g1"
    note ids = wiser_facts(2) [OF w assms(1)] wiser_facts(2) [OF w assms(2)]
    have j1: "owns {r, u} g1 l" using owning_wiser [OF owning_owns j w] .
    have set: "ensures (token_discipline env) (owns {r, u}) (window_run endsAt (kv_set (accessTokenKeys_record r) raw))
        (\<lambda>g' l' _. tp_ids g' r = Some (Bound h ag) \<and> u \<in> dom (tp_ids g') \<and> l' = l) g2 l" if w2: "wiser g1 g2" for g2
    proof (rule ensures_run)
      note ids2 = wiser_facts(2) [OF w2 ids(1)] wiser_facts(2) [OF w2 ids(2)]
      show j2: "owns {r, u} g2 l" using owning_wiser [OF owning_owns j1 w2] .
      show "ensures (token_discipline env) (owns {r, u}) (kv_set (accessTokenKeys_record r) raw)
          (\<lambda>g' l' _. tp_ids g' r = Some (Bound h ag) \<and> u \<in> dom (tp_ids g') \<and> l' = l) g2 l"
        by (rule set_record_binds [OF ids2(1) assms(4, 5) _ owning_owns j2]) (use ids2(2) assms(3) in auto)
    qed
    show "ensures (token_discipline env) (owns {r, u})
        (if found \<noteq> None \<and> found \<noteq> Some [] then Throw Conflict
         else after throwIfAborted (\<lambda>_. after (window_run endsAt (kv_set (accessTokenKeys_record r) raw)) (\<lambda>_.
           after (window_run endsAt (kv_set (accessTokenKeys_lookup h) (lookup_text r))) (\<lambda>_. throwIfAborted)))) ?P g1 l"
    proof (cases "found \<noteq> None \<and> found \<noteq> Some []")
      case False
      have "ensures (token_discipline env) (owns {r, u}) (after throwIfAborted (\<lambda>_. after (window_run endsAt (kv_set (accessTokenKeys_record r) raw)) (\<lambda>_.
           after (window_run endsAt (kv_set (accessTokenKeys_lookup h) (lookup_text r))) (\<lambda>_. throwIfAborted)))) ?P g1 l"
      proof (rule mild_then [OF follows_ends(3) TrueI owning_owns j1])
        fix g2
        assume "wiser g1 g2"
        from set [OF this] show "ensures (token_discipline env) (owns {r, u}) (after (window_run endsAt (kv_set (accessTokenKeys_record r) raw)) (\<lambda>_.
           after (window_run endsAt (kv_set (accessTokenKeys_lookup h) (lookup_text r))) (\<lambda>_. throwIfAborted))) ?P g2 l"
          by (intro ensures_after) (erule ensures_mono, use rest in auto)
      qed
      with False show ?thesis by auto
    qed (use j1 in simp)
  qed
qed

lemma issue_follows:
  assumes "tp_ids g r = Some Drawn" "tp_ids g u = Some Drawn"
  shows "ensures (token_discipline env) (owns {r, u})
    (issue_token env endsAt ag raw expect issuedBy (TOKEN_PREFIX @ u) r createdAt) (\<lambda>_ _ _. True) g l"
proof -
  let ?h = "te_sha256 env (TOKEN_PREFIX @ u)"
  let ?raw = "record_text r ag ?h (take 12 (TOKEN_PREFIX @ u)) createdAt issuedBy"
  have h: "?h = minted env u" by (simp add: minted_def)
  have own: "mild env (\<lambda>g. {r, u} \<subseteq> dom (tp_ids g)) (discard_own endsAt ?h r ?raw) (\<lambda>_ _. True)"
    by (rule mild_discard) (auto simp: lasting_def dest: wiser_facts(3))
  have wrote: "ensures (token_discipline env) (owns {r, u}) (attempt (write_own endsAt ?h r ?raw)
      (\<lambda>e. after (discard_own endsAt ?h r ?raw) (\<lambda>_. unless_aborted e)))
      (\<lambda>g' l' _. tp_ids g' r = Some (Bound ?h ag) \<and> u \<in> dom (tp_ids g') \<and> l' = l) g l"
  proof (rule ensures_attempt, rule write_own_follows [OF assms h])
    fix e g' l'
    assume j: "owns {r, u} g' l'"
    show "ensures (token_discipline env) (owns {r, u}) (after (discard_own endsAt ?h r ?raw) (\<lambda>_. unless_aborted e))
      (\<lambda>g' l' _. tp_ids g' r = Some (Bound ?h ag) \<and> u \<in> dom (tp_ids g') \<and> l' = l) g' l'"
    proof (rule mild_then [OF own _ owning_owns j])
      fix g''
      assume "wiser g' g''"
      then have "owns {r, u} g'' l'" by (rule owning_wiser [OF owning_owns j])
      then show "ensures (token_discipline env) (owns {r, u}) (unless_aborted e)
          (\<lambda>g' l' _. tp_ids g' r = Some (Bound ?h ag) \<and> u \<in> dom (tp_ids g') \<and> l' = l) g'' l'"
        by (rule mild_ends [where C = "\<lambda>_. True", OF mild_unless_aborted [where R = "\<lambda>_ _. False"] TrueI owning_owns]) simp
    qed (use j in \<open>simp add: owns_def\<close>)
  qed simp_all
  have discard: "follows env (if b then Throw x else Throw y)" for b x y by (auto intro: mild_rules)
  show ?thesis
    unfolding issue_token_def Let_def
  proof (rule ensures_after, rule ensures_mono [OF wrote])
    fix g1 l1
    assume j1: "owns {r, u} g1 l1" and "tp_ids g1 r = Some (Bound ?h ag) \<and> u \<in> dom (tp_ids g1) \<and> l1 = l"
    then have b: "tp_ids g1 r = Some (Bound ?h ag)" "(\<exists>u. u \<in> dom (tp_ids g1) \<and> ?h = minted env u) \<or> raw = None \<and> took_over env g1 ?h ag"
      using h by blast+
    have finish: "follows env (Halted Caller_Signal (\<lambda>gone. if \<not> gone then window_settle endsAt (TOKEN_PREFIX @ u, shown)
        else after (revokeIfNamed env endsAt ag r) (\<lambda>_. Throw Operation_Aborted)))" for shown
      by (auto intro!: mild_Halted follows_settled follows_seq mild_revokeIfNamed follows_ends)
    show "ensures (token_discipline env) (owns {r, u})
        (after (commit_slot env endsAt ag raw (issued_text ag r createdAt) r) (\<lambda>committed.
          if \<not> committed then after (discard_own endsAt ?h r ?raw) (\<lambda>_. Throw (if expect \<noteq> None then Slot_Changed else Conflict))
          else Halted Caller_Signal (\<lambda>gone. if \<not> gone then window_settle endsAt
              (TOKEN_PREFIX @ u, slotView env ag (Some (issued_text ag r createdAt)) (Some (Issued r createdAt)))
            else after (revokeIfNamed env endsAt ag r) (\<lambda>_. Throw Operation_Aborted)))) (\<lambda>_ _ _. True) g1 l1"
    proof (rule ensures_after, rule ensures_mono [OF slot_commit_follows [OF b(1) owning_owns j1 b(2)]])
      fix g2 l2 committed
      assume j2: "owns {r, u} g2 l2"
      then have j2': "{r, u} \<subseteq> dom (tp_ids g2)" by (simp add: owns_def)
      show "ensures (token_discipline env) (owns {r, u})
        (if \<not> committed then after (discard_own endsAt ?h r ?raw) (\<lambda>_. Throw (if expect \<noteq> None then Slot_Changed else Conflict))
          else Halted Caller_Signal (\<lambda>gone. if \<not> gone then window_settle endsAt
              (TOKEN_PREFIX @ u, slotView env ag (Some (issued_text ag r createdAt)) (Some (Issued r createdAt)))
            else after (revokeIfNamed env endsAt ag r) (\<lambda>_. Throw Operation_Aborted))) (\<lambda>_ _ _. True) g2 l2"
      proof (cases committed)
        case True
        show ?thesis
          by (simp only: True not_True_eq_False if_False) (rule mild_ends [OF finish TrueI owning_owns j2], simp)
      next
        case False
        have "ensures (token_discipline env) (owns {r, u})
            (after (discard_own endsAt ?h r ?raw) (\<lambda>_. Throw (if expect \<noteq> None then Slot_Changed else Conflict))) (\<lambda>_ _ _. True) g2 l2"
          by (rule mild_then [OF own j2' owning_owns j2]) (simp add: owning_wiser [OF owning_owns j2])
        with False show ?thesis by simp
      qed
    qed
  qed
qed

lemma owning_True [simp]: "owning (\<lambda>_ _. True)"
  by (simp add: owning_def)

lemma follows_attempted_read: "follows env (attempt (window_run endsAt (readSlot env ag)) unless_aborted)"
  by (intro follows_attempt follows_run follows_reads follows_ends)

lemma rotate_follows:
  assumes "tp_ids g = Map.empty"
  shows "ensures (token_discipline env) (\<lambda>_ _. True) (rotate env ag issuedBy deadline expect) (\<lambda>_ _ _. True) g l"
proof -
  have tail: "ensures (token_discipline env) (\<lambda>_ _. True) (Uuid (\<lambda>secret. Uuid (\<lambda>rid. Clock (\<lambda>now.
      issue_token env endsAt ag raw expect issuedBy (TOKEN_PREFIX @ secret) rid (toISOString now))))) (\<lambda>_ _ _. True) g' l"
    if "tp_ids g' = Map.empty" for endsAt raw g'
  proof -
    have "ensures (token_discipline env) (\<lambda>_ _. True) (issue_token env endsAt ag raw expect issuedBy (TOKEN_PREFIX @ secret) rid since)
        (\<lambda>_ _ _. True) (draw_id (draw_id g' secret) rid) l" for secret rid since
      by (rule ensures_weaken [OF issue_follows]) (use that in \<open>simp_all add: draw_id_def\<close>)
    then show ?thesis by simp
  qed
  show ?thesis
    unfolding rotate_def Let_def
    apply (rule still_then [OF follows_ends(3) drawless_basics(5) TrueI owning_True TrueI])
    subgoal for g1
      apply (cases "ag \<in> set (te_agents env)")
       apply (simp del: ensures_simps(1-5) ensures_simps(7-11))
       apply (intro allI)
       apply (rule still_then [OF follows_attempted_read _ TrueI owning_True TrueI])
        apply (intro drawless_rules)
      subgoal for t g2 a
        using tail [of g2] assms by (cases a) auto
      apply simp
      done
    done
qed

text \<open>Adoption.\<close>

lemma mild_claim_cas: "mild env C (kv_cas (accessTokenKeys_adopted L) None (Some raw)) (\<lambda>g b. b \<longrightarrow> (claim_key L, raw) \<in> tp_seen g)"
proof (rule mildI)
  fix J :: "token_phase \<Rightarrow> token_vars \<Rightarrow> bool" and g l
  assume J: "\<And>g'. wiser g g' \<Longrightarrow> J g' l"
  show "ensures (token_discipline env) J (kv_cas (accessTokenKeys_adopted L) None (Some raw))
      (\<lambda>g' l' b. wiser g g' \<and> l' = l \<and> (b \<longrightarrow> (claim_key L, raw) \<in> tp_seen g')) g l"
  proof (cases "accessTokenKeys_adopted L")
    case (Inr k)
    have k: "k = claim_key L" by (rule key_builders(4) [OF Inr])
    have "offer_ids env k raw (tp_ids g) = tp_ids g" by (rule offer_none) (simp add: k)
    then have same: "g\<lparr>tp_ids := offer_ids env k raw (tp_ids g)\<rparr> = g" by simp
    have "(k, raw) \<in> tp_seen (note_seen k (Some raw) g)" by (simp add: note_seen_def)
    with J show ?thesis
      by (auto simp: kv_cas_def Inr same k [symmetric] split: option.split storage_reply.split) (auto simp: k)
  qed (use J in \<open>simp add: kv_cas_def\<close>)
qed

lemma mild_completeAdoption: 
  "mild env (\<lambda>g. r \<in> known_ids env g) (completeAdoption env endsAt ag r since slotRaw legacy) (\<lambda>_ _. True)"
proof -
  let ?C = "\<lambda>g. r \<in> known_ids env g"
  have C: "lasting ?C" by (intro lasting_intros)
  have cas: "mild env ?C (kv_cas (accessTokenKeys_lookup h) e (Some (lookup_text r))) (\<lambda>_ _. True)" for h e
    by (rule mild_pointer_cas [OF C]) (auto intro: lookup_points)
  have get: "mild env ?C (window_run endsAt (kv_get k)) (\<lambda>_ _. True)" for k by (intro mild_window_run mild_get) simp
  show ?thesis
    unfolding completeAdoption_def Let_def
    apply (rule mild_reconcile [OF mild_attempt C])
      apply (rule mild_after [OF get C])
    subgoal for current
      by (auto intro!: mild_if mild_Ret mild_after [OF mild_pre [OF mild_revokeIfNamed [where C = "\<lambda>_. True" and R = "\<lambda>_ _. True"]]]
          mild_after [OF mild_window_run [OF mild_pre [OF cas]]] lasting_intros C mild_Throw)
     apply (rule C)
    apply (auto intro: mild_rules)
    done
qed

lemma follows_agentCarrying: "follows env (agentCarrying env endsAt h names)"
  by (induction names) (auto intro!: follows_seq follows_run follows_reads follows_ends split: option.split stored_slot.split)

lemma mild_adoptable:
  "mild env (\<lambda>_. True) (adoptable_record env endsAt tokenId) (\<lambda>g legacy. saw_record env g (st_id legacy) (st_tokenHash legacy))"
  unfolding adoptable_record_def
  by (rule mild_after [OF mild_window_run [OF mild_read_record]])
    (auto intro!: mild_Ret mild_Throw simp: read_as_def saw_record_def split: option.split)

text \<open>The variables of an adoption: the record it wrote is its own.\<close>

definition own_record :: "token_phase \<Rightarrow> token_vars \<Rightarrow> bool" where
  "own_record g l \<longleftrightarrow> (\<forall>r raw. tv_record l = Some (r, raw) \<longrightarrow> r \<in> dom (tp_ids g))"

lemma owning_record [simp]: "owning own_record"
  unfolding owning_def own_record_def by blast

lemma none_recorded: "tv_record l = None \<Longrightarrow> own_record g l"
  by (simp add: own_record_def)

text \<open>The claim of a legacy record, taken or found.\<close>

definition claim_seen :: "jstr \<Rightarrow> jstr \<Rightarrow> token_phase \<Rightarrow> bool" where
  "claim_seen L ag g \<longleftrightarrow> (\<exists>claim. (claim_key L, claim) \<in> tp_seen g \<and> parseClaim claim = ag)"

lemma claim_lasting [intro]: "lasting (\<lambda>g. claim_seen L ag g)"
  unfolding claim_seen_def by (intro lasting_intros)

lemma mild_claim_get:
  "mild env (\<lambda>_. True) (window_run endsAt (kv_get (accessTokenKeys_adopted L))) (\<lambda>g v. \<forall>raw. v = Some raw \<longrightarrow> (claim_key L, raw) \<in> tp_seen g)"
  by (intro mild_window_run mild_key_get) (rule key_builders(4))

lemma mild_lookup_get:
  "mild env (\<lambda>_. True) (window_run endsAt (kv_get (accessTokenKeys_lookup h))) (\<lambda>g v. \<forall>raw. v = Some raw \<longrightarrow> (lookup_key h, raw) \<in> tp_seen g)"
  by (intro mild_window_run mild_key_get) (rule key_builders(2))

definition claiming :: "int \<Rightarrow> jstr \<Rightarrow> jstr \<Rightarrow> unit tokens" where
  "claiming endsAt ag L =
     after (window_run endsAt (kv_cas (accessTokenKeys_adopted L) None (Some (claim_text ag)))) (\<lambda>won.
     if won then Ret ()
     else after (window_run endsAt (kv_get (accessTokenKeys_adopted L))) (\<lambda>now.
       case now of None \<Rightarrow> Throw Not_Adoptable | Some r \<Rightarrow> if parseClaim r \<noteq> ag then Throw Not_Adoptable else Ret ()))"

lemma mild_claiming: "isAgentName ag \<Longrightarrow> mild env (\<lambda>_. True) (claiming endsAt ag L) (\<lambda>g _. claim_seen L ag g)"
  unfolding claiming_def
  apply (rule mild_after [OF mild_window_run [OF mild_claim_cas]], rule lasting_intros)
  subgoal for won
    using claim_says by (cases won)
      (auto simp: claim_seen_def intro!: mild_rules mild_after [OF mild_pre [OF mild_claim_get]] lasting_intros split: option.split)
  done

lemma drawless_claiming: "drawless (claiming endsAt ag L)"
  unfolding claiming_def by (auto intro!: drawless_rules split: option.split)

lemma after_assoc: "after (after p f) h = after p (\<lambda>a. after (f a) h)"
  by (induction p) auto

lemma take_claim_parts:
  "take_claim endsAt ag L = Peek (\<lambda>l. Poke (l\<lparr>tv_claimed := True\<rparr>)
     (after (claiming endsAt ag L) (\<lambda>_. Peek (\<lambda>l. Poke (l\<lparr>tv_claimed := False\<rparr>) (Ret ())))))"
  by (simp add: take_claim_def claiming_def modify_def after_assoc)

lemma take_claim_follows:
  assumes "isAgentName ag" "tv_record l = None"
    and "\<And>g' l'. wiser g g' \<Longrightarrow> tp_ids g' = tp_ids g \<Longrightarrow> claim_seen L ag g' \<Longrightarrow> tv_record l' = None \<Longrightarrow>
      ensures (token_discipline env) own_record p P g' l'"
  shows "ensures (token_discipline env) own_record (after (take_claim endsAt ag L) (\<lambda>_. p)) P g l"
proof -
  let ?l = "l\<lparr>tv_claimed := True\<rparr>"
  have "ensures (token_discipline env) own_record (after (claiming endsAt ag L) (\<lambda>_. Peek (\<lambda>l. Poke (l\<lparr>tv_claimed := False\<rparr>) p))) P g ?l"
    by (rule still_then [OF mild_claiming drawless_claiming]) (use assms none_recorded in auto)
  then show ?thesis by (simp add: take_claim_parts after_assoc)
qed

definition adopting :: "token_env \<Rightarrow> jstr \<Rightarrow> jstr \<Rightarrow> token_phase \<Rightarrow> token_vars \<Rightarrow> bool" where
  "adopting env h ag g l \<longleftrightarrow> (\<exists>r raw. tv_record l = Some (r, raw) \<and> tp_ids g r = Some (Bound h ag) \<and> took_over env g h ag)"

lemma record_follows:
  assumes ids: "tp_ids g = Map.empty" and took: "took_over env g (st_tokenHash legacy) ag"
  shows "ensures (token_discipline env) own_record (record_adoption env endsAt ag legacy) (\<lambda>g' l' _. adopting env (st_tokenHash legacy) ag g' l') g l"
proof -
  let ?h = "st_tokenHash legacy"
  obtain L where L: "saw_record env g L ?h" using took unfolding took_over_def by blast
  have "ensures (token_discipline env) own_record (after (window_run endsAt (kv_set (accessTokenKeys_record r) raw)) (\<lambda>_. throwIfAborted))
      (\<lambda>g' l' _. adopting env ?h ag g' l') (draw_id g r) (l\<lparr>tv_record := Some (r, raw)\<rparr>)"
    if raw: "digest_of raw = Some ?h" "agent_of raw = Some ag" for r raw
  proof (rule ensures_after, rule ensures_mono, rule ensures_run)
    let ?g = "draw_id g r" and ?l = "l\<lparr>tv_record := Some (r, raw)\<rparr>"
    have d: "tp_ids ?g r = Some Drawn" using ids by (simp add: draw_id_def)
    show j: "own_record ?g ?l" using d by (auto simp: own_record_def)
    have took': "took_over env ?g ?h ag" using wiser_facts(5) [OF wiser_draw took] .
    have seen: "\<exists>L. saw_record env ?g L ?h" using wiser_facts(4) [OF wiser_draw L] by blast
    show "ensures (token_discipline env) own_record (kv_set (accessTokenKeys_record r) raw)
        (\<lambda>g' l' _. tp_ids g' r = Some (Bound ?h ag) \<and> took_over env g' ?h ag \<and> l' = ?l) ?g ?l"
    proof (rule set_record_binds [OF d raw disjI2 [OF seen] owning_record j])
      fix g' :: token_phase
      assume b: "tp_ids g' r = Some (Bound ?h ag)" and same: "tp_seen g' = tp_seen ?g"
      have "took_over env g' ?h ag" using took' by (simp add: took_over_def saw_record_def same)
      with b show "tp_ids g' r = Some (Bound ?h ag) \<and> took_over env g' ?h ag \<and> ?l = ?l" by blast
    qed
    show "ensures (token_discipline env) own_record throwIfAborted (\<lambda>g' l' _. adopting env ?h ag g' l') g' l'"
      if "own_record g' l'" "tp_ids g' r = Some (Bound ?h ag) \<and> took_over env g' ?h ag \<and> l' = ?l" for g' l'
      using that by (simp add: throwIfAborted_def ensures_check adopting_def)
  qed
  then show ?thesis by (simp add: record_adoption_def modify_def Let_def)
qed

lemma prepare_follows:
  assumes ids: "tp_ids g = Map.empty" and l: "tv_record l = None" and ag: "isAgentName ag"
    and saw: "saw_record env g (st_id legacy) (st_tokenHash legacy)"
    and claimant: "claimant \<noteq> None \<Longrightarrow> claim_seen (st_id legacy) ag g"
  shows "ensures (token_discipline env) own_record (prepare_adoption env endsAt ag legacy claimant)
    (\<lambda>g' l' _. adopting env (st_tokenHash legacy) ag g' l') g l"
proof -
  let ?L = "st_id legacy" and ?h = "st_tokenHash legacy"
  note j = owning_record none_recorded [OF l]
  have claim: "ensures (token_discipline env) own_record
      (after (if claimant = None then take_claim endsAt ag ?L else Ret ()) (\<lambda>_. record_adoption env endsAt ag legacy))
      (\<lambda>g' l' _. adopting env ?h ag g' l') g1 l"
    if g1: "wiser g g1" "tp_ids g1 = tp_ids g" and p: "(lookup_key ?h, pointer) \<in> tp_seen g1" "parseLookup pointer = Some ?L" for g1 pointer
  proof -
    have took: "took_over env g' ?h ag" if w: "wiser g1 g'" and c: "claim_seen ?L ag g'" for g'
      using wiser_facts(4) [OF wiser_trans [OF g1(1) w] saw] wiser_facts(1) [OF w p(1)] p(2) c
      unfolding took_over_def claim_seen_def by blast
    show ?thesis
    proof (cases "claimant = None")
      case True
      have "ensures (token_discipline env) own_record (after (take_claim endsAt ag ?L) (\<lambda>_. record_adoption env endsAt ag legacy))
          (\<lambda>g' l' _. adopting env ?h ag g' l') g1 l"
        by (rule take_claim_follows [OF ag l], rule record_follows) (use ids g1(2) took in auto)
      with True show ?thesis by simp
    next
      case False
      have "claim_seen ?L ag g1" using claimant [OF False] claim_lasting g1(1) unfolding lasting_def by blast
      with took have "ensures (token_discipline env) own_record (record_adoption env endsAt ag legacy) (\<lambda>g' l' _. adopting env ?h ag g' l') g1 l"
        by (intro record_follows) (use ids g1(2) in auto)
      then show ?thesis by (simp only: False if_False after.simps)
    qed
  qed
  have part: "ensures (token_discipline env) own_record
      (after (agentCarrying env endsAt ?h (te_agents env)) (\<lambda>holder.
       if holder \<noteq> None then Throw Not_Adoptable
       else after throwIfAborted (\<lambda>_. after (if claimant = None then take_claim endsAt ag ?L else Ret ()) (\<lambda>_. record_adoption env endsAt ag legacy))))
      (\<lambda>g' l' _. adopting env ?h ag g' l') g1 l"
    if g1: "wiser g g1" "tp_ids g1 = tp_ids g" and p: "(lookup_key ?h, pointer) \<in> tp_seen g1" "parseLookup pointer = Some ?L" for g1 pointer
  proof (rule still_then [OF follows_agentCarrying drawless_carrying TrueI j])
    fix g2 holder
    assume g2: "wiser g1 g2" "tp_ids g2 = tp_ids g1"
    have "ensures (token_discipline env) own_record (after throwIfAborted (\<lambda>_.
        after (if claimant = None then take_claim endsAt ag ?L else Ret ()) (\<lambda>_. record_adoption env endsAt ag legacy)))
        (\<lambda>g' l' _. adopting env ?h ag g' l') g2 l"
    proof (rule still_then [OF follows_ends(3) drawless_basics(5) TrueI j])
      fix g3 :: token_phase and x :: unit
      assume g3: "wiser g2 g3" "tp_ids g3 = tp_ids g2"
      have w: "wiser g1 g3" using g2(1) g3(1) by (rule wiser_trans)
      from claim [OF wiser_trans [OF g1(1) w] _ wiser_facts(1) [OF w p(1)] p(2)] g1(2) g2(2) g3(2)
      show "ensures (token_discipline env) own_record
          (after (if claimant = None then take_claim endsAt ag ?L else Ret ()) (\<lambda>_. record_adoption env endsAt ag legacy))
          (\<lambda>g' l' _. adopting env ?h ag g' l') g3 l" by metis
    qed
    then show "ensures (token_discipline env) own_record (if holder \<noteq> None then Throw Not_Adoptable
       else after throwIfAborted (\<lambda>_. after (if claimant = None then take_claim endsAt ag ?L else Ret ()) (\<lambda>_. record_adoption env endsAt ag legacy)))
        (\<lambda>g' l' _. adopting env ?h ag g' l') g2 l"
      using j(2) by (cases "holder = None") simp_all
  qed
  show ?thesis
    unfolding prepare_adoption_def
  proof (rule still_then [OF mild_lookup_get _ TrueI j])
    fix g1 lookupRaw
    assume g1: "wiser g g1" "tp_ids g1 = tp_ids g" and seen: "\<forall>raw. lookupRaw = Some raw \<longrightarrow> (lookup_key ?h, raw) \<in> tp_seen g1"
    show "ensures (token_discipline env) own_record
        (if lookupRaw = Some [] \<or> Option.bind lookupRaw parseLookup \<noteq> Some ?L then Throw Not_Adoptable
         else after (agentCarrying env endsAt ?h (te_agents env)) (\<lambda>holder.
           if holder \<noteq> None then Throw Not_Adoptable
           else after throwIfAborted (\<lambda>_.
             after (if claimant = None then take_claim endsAt ag ?L else Ret ()) (\<lambda>_. record_adoption env endsAt ag legacy))))
        (\<lambda>g' l' _. adopting env ?h ag g' l') g1 l"
    proof (cases "lookupRaw = Some [] \<or> Option.bind lookupRaw parseLookup \<noteq> Some ?L")
      case False
      then obtain pointer where p: "lookupRaw = Some pointer" "parseLookup pointer = Some ?L" by (cases lookupRaw) auto
      from part [OF g1 _ p(2)] seen p(1) show ?thesis unfolding if_not_P [OF False] by blast
    qed (use j(2) in simp)
  qed (intro drawless_rules)
qed

text \<open>What the first part leaves for the second.\<close>

definition begun :: "token_env \<Rightarrow> jstr \<Rightarrow> token_phase \<Rightarrow> token_vars \<Rightarrow> agent_slot + stored_token \<times> jstr option \<Rightarrow> bool" where
  "begun env ag g l x \<longleftrightarrow> (\<forall>legacy raw. x = Inr (legacy, raw) \<longrightarrow> raw = None \<and> adopting env (st_tokenHash legacy) ag g l)"

lemma begun_done [simp]: "begun env ag g l (Inl v)"
  by (simp add: begun_def)

lemma mild_resume:
  "mild env (\<lambda>g. slot_read env ag g (raw, Some (Issued r since))) (resume_adoption env endsAt ag raw legacy r since) (\<lambda>_ x. \<exists>v. x = Inl v)"
  unfolding resume_adoption_def
  by (rule mild_after [OF mild_window_run [OF mild_pre [OF mild_read_record [where C = "\<lambda>_. True"]]] read_lasting(2)], simp)
    (auto intro!: mild_Throw mild_Ret lasting_intros read_lasting mild_after [OF mild_pre [OF mild_completeAdoption]]
      mild_after [OF mild_settle [where R = "\<lambda>_ _. True"]] dest: read_knows)

lemma enter_follows:
  assumes ids: "tp_ids g = Map.empty" and l: "tv_record l = None" and ag: "isAgentName ag"
    and saw: "saw_record env g (st_id legacy) (st_tokenHash legacy)"
    and claimant: "claimant \<noteq> None \<Longrightarrow> claim_seen (st_id legacy) ag g"
  shows "ensures (token_discipline env) own_record (enter_slot env endsAt ag expect legacy claimant) (begun env ag) g l"
  unfolding enter_slot_def
proof (rule still_then [where C = "\<lambda>_. True", OF mild_window_run [OF mild_readSlot] _ TrueI owning_record none_recorded [OF l]])
  fix g1 v
  assume g1: "wiser g g1" "tp_ids g1 = tp_ids g" and slot: "slot_read env ag g1 v"
  have prepare: "ensures (token_discipline env) own_record
      (after (prepare_adoption env endsAt ag legacy claimant) (\<lambda>_. Ret (Inr (legacy, None)))) (begun env ag) g1 l"
  proof (rule ensures_after, rule ensures_mono [OF prepare_follows [OF _ l ag]])
    show "saw_record env g1 (st_id legacy) (st_tokenHash legacy)" using wiser_facts(4) [OF g1(1) saw] .
    show "claim_seen (st_id legacy) ag g1" if "claimant \<noteq> None" using claimant [OF that] claim_lasting g1(1) unfolding lasting_def by blast
  qed (use ids g1(2) in \<open>auto simp: begun_def\<close>)
  have resume: "ensures (token_discipline env) own_record (resume_adoption env endsAt ag raw legacy r since) (begun env ag) g1 l"
    if "v = (raw, Some (Issued r since))" for raw r since
    by (rule mild_ends [OF mild_resume _ owning_record none_recorded [OF l]]) (use slot that in auto)
  show "ensures (token_discipline env) own_record (case v of (slotRaw, slot) \<Rightarrow>
      if \<not> matchesExpected env ag slotRaw expect then Throw Slot_Changed
      else case slot of
        Some (Issued rid issuedAt) \<Rightarrow> resume_adoption env endsAt ag slotRaw legacy rid issuedAt
      | Some (Revoked _ _) \<Rightarrow> Throw Not_Adoptable
      | None \<Rightarrow> after (prepare_adoption env endsAt ag legacy claimant) (\<lambda>_. Ret (Inr (legacy, slotRaw)))) (begun env ag) g1 l"
    using slot prepare resume none_recorded [OF l]
    by (cases v) (auto simp: slot_read_def split: option.split stored_slot.split)
qed (intro drawless_rules)

lemma begin_follows:
  assumes ids: "tp_ids g = Map.empty" and l: "tv_record l = None" and ag: "isAgentName ag"
  shows "ensures (token_discipline env) own_record (begin_adoption env endsAt tokenId ag expect) (begun env ag) g l"
proof -
  note j = owning_record none_recorded [OF l]
  have draw: "drawless (adoptable_record env endsAt tokenId)" unfolding adoptable_record_def
    by (auto intro!: drawless_rules split: option.split)
  show ?thesis
    unfolding begin_adoption_def
  proof (rule still_then [OF mild_adoptable draw TrueI j], rule still_then [OF mild_claim_get _ TrueI j])
    fix g1 g2 :: token_phase and legacy :: stored_token and claimRaw
    assume g: "tp_ids g1 = tp_ids g" "wiser g1 g2" "tp_ids g2 = tp_ids g1" and saw: "saw_record env g1 (st_id legacy) (st_tokenHash legacy)"
      and claim: "\<forall>raw. claimRaw = Some raw \<longrightarrow> (claim_key (st_id legacy), raw) \<in> tp_seen g2"
    let ?claimant = "map_option parseClaim claimRaw"
    show "ensures (token_discipline env) own_record (let claimant = ?claimant in
        if claimant \<noteq> None \<and> claimant \<noteq> Some ag then Throw Not_Adoptable
        else enter_slot env endsAt ag expect legacy claimant) (begun env ag) g2 l"
    proof (cases "?claimant \<noteq> None \<and> ?claimant \<noteq> Some ag")
      case False
      then have "claim_seen (st_id legacy) ag g2" if "?claimant \<noteq> None" using that claim by (auto simp: claim_seen_def)
      then have "ensures (token_discipline env) own_record (enter_slot env endsAt ag expect legacy ?claimant) (begun env ag) g2 l"
        by (intro enter_follows l ag wiser_facts(4) [OF g(2) saw]) (use ids g in auto)
      then show ?thesis unfolding Let_def if_not_P [OF False] .
    qed (use j(2) in simp)
  qed (intro drawless_rules)
qed

lemma failed_follows:
  assumes "own_record g l"
  shows "ensures (token_discipline env) own_record (adoption_failed endsAt e) P g l"
proof -
  have last: "ensures (token_discipline env) own_record (if tv_claimed l then Throw e else unless_aborted e) P g' l" if "wiser g g'" for g'
    by (rule mild_ends [where C = "\<lambda>_. True" and R = "\<lambda>_ _. False" and env = env, OF mild_if [OF mild_Throw mild_unless_aborted] TrueI owning_record
          owning_wiser [OF owning_record assms that]]) simp
  show ?thesis
  proof (cases "tv_record l")
    case None
    with last [OF wiser_refl] show ?thesis by (simp add: adoption_failed_def)
  next
    case (Some x)
    obtain r raw where x: "x = (r, raw)" by (cases x)
    have drop: "mild env (\<lambda>g. r \<in> dom (tp_ids g)) (drop_own endsAt (accessTokenKeys_record r) raw) (\<lambda>_ _. True)"
      by (rule mild_drop_record) (auto intro: lasting_intros)
    have "ensures (token_discipline env) own_record (after (drop_own endsAt (accessTokenKeys_record r) raw)
        (\<lambda>_. if tv_claimed l then Throw e else unless_aborted e)) P g l"
      by (rule mild_then [OF drop _ owning_record assms last]) (use assms Some x in \<open>auto simp: own_record_def\<close>)
    with Some x show ?thesis by (simp add: adoption_failed_def)
  qed
qed

lemma finish_follows:
  assumes b: "tp_ids g r = Some (Bound (st_tokenHash legacy) ag)" and took: "took_over env g (st_tokenHash legacy) ag"
  shows "ensures (token_discipline env) (\<lambda>_ _. True) (finish_adoption env endsAt ag expect legacy None r recordRaw) (\<lambda>_ _ _. True) g l"
proof -
  have complete: "mild env (\<lambda>g. i \<in> known_ids env g) (after (completeAdoption env endsAt ag i since raw legacy) (window_settle endsAt)) (\<lambda>_ _. True)" for i since raw
    by (rule mild_after [OF mild_completeAdoption]) (auto intro: mild_settle lasting_intros)
  let ?other = "if expect \<noteq> None then Throw Slot_Changed
     else after (window_run endsAt (readSlot env ag)) (\<lambda>(currentRaw, current).
       case current of
         Some (Issued i issuedAt) \<Rightarrow>
           after (window_run endsAt (read_record env i)) (\<lambda>named.
           if map_option st_tokenHash named = Some (st_tokenHash legacy) then
             after (completeAdoption env endsAt ag i issuedAt currentRaw legacy) (window_settle endsAt)
           else Throw Conflict)
       | _ \<Rightarrow> Throw Conflict)"
  have reread: "mild env (\<lambda>g. slot_read env ag g (raw, Some (Issued i since))) (after (window_run endsAt (read_record env i)) (\<lambda>named.
           if map_option st_tokenHash named = Some (st_tokenHash legacy) then
             after (completeAdoption env endsAt ag i since raw legacy) (window_settle endsAt)
           else Throw Conflict)) (\<lambda>_ _. True)" for i since raw
    by (rule mild_after [OF mild_window_run [OF mild_read_record] read_lasting(2)])
      (auto intro!: mild_if mild_Throw mild_pre [OF complete] dest: read_knows)
  have other: "follows env ?other"
    by (rule mild_if [OF mild_Throw], rule mild_after [OF mild_window_run [OF mild_readSlot] lasting_intros(1)])
      (auto intro!: mild_Throw mild_pre [OF reread] split: option.split stored_slot.split simp del: map_option_eq_Some)
  have own: "mild env (\<lambda>g. r \<in> dom (tp_ids g)) (after (drop_own endsAt (accessTokenKeys_record r) recordRaw) (\<lambda>_. ?other)) (\<lambda>_ _. True)"
    by (rule mild_after [OF mild_drop_record _ mild_pre [OF other]]) (auto intro: lasting_intros)
  show ?thesis
    unfolding finish_adoption_def Let_def
  proof (rule ensures_after, rule ensures_mono [OF slot_commit_follows [OF b owning_True TrueI disjI2 [OF conjI [OF refl took]]]])
    fix g' :: token_phase and l' committed
    assume "dom (tp_ids g) \<subseteq> dom (tp_ids g') \<and> l' = l"
    then have r: "r \<in> dom (tp_ids g')" using b by blast
    then have known: "r \<in> known_ids env g'" by (simp add: known_ids_def)
    show "ensures (token_discipline env) (\<lambda>_ _. True)
        (if committed then after (completeAdoption env endsAt ag r (st_createdAt legacy) (Some (issued_text ag r (st_createdAt legacy))) legacy) (window_settle endsAt)
         else after (drop_own endsAt (accessTokenKeys_record r) recordRaw) (\<lambda>_. ?other)) (\<lambda>_ _ _. True) g' l'"
      using mild_ends [OF complete known owning_True TrueI] mild_ends [OF own r owning_True TrueI] by (cases committed) simp_all
  qed
qed

lemma adopt_follows:
  assumes ids: "tp_ids g = Map.empty" and names: "\<forall>a \<in> set (te_agents env). isAgentName a"
  shows "ensures (token_discipline env) (\<lambda>_ _. True) (adopt env tokenId ag deadline expect) (\<lambda>_ _ _. True) g l"
proof -
  let ?l = "\<lparr>tv_claimed = False, tv_record = None\<rparr>"
  let ?second = "\<lambda>endsAt x. case x of Inl v \<Rightarrow> Ret v | Inr (legacy, slotRaw) \<Rightarrow> Peek (\<lambda>v. case tv_record v of
      Some (rid, recordRaw) \<Rightarrow> finish_adoption env endsAt ag expect legacy slotRaw rid recordRaw | None \<Rightarrow> Throw Store_Failed)"
  have both: "ensures (token_discipline env) (\<lambda>_ _. True)
      (after (attempt (begin_adoption env endsAt tokenId ag expect) (adoption_failed endsAt)) (?second endsAt)) (\<lambda>_ _ _. True) g1 ?l"
    if g1: "tp_ids g1 = Map.empty" "isAgentName ag" for endsAt g1
  proof -
    have "ensures (token_discipline env) own_record (attempt (begin_adoption env endsAt tokenId ag expect) (adoption_failed endsAt)) (begun env ag) g1 ?l"
      by (rule ensures_attempt, rule begin_follows [OF g1(1) _ g1(2)], simp, rule failed_follows)
    then have first: "ensures (token_discipline env) (\<lambda>_ _. True) (attempt (begin_adoption env endsAt tokenId ag expect) (adoption_failed endsAt)) (begun env ag) g1 ?l"
      by (rule ensures_weaken) simp
    show ?thesis
    proof (rule ensures_after, rule ensures_mono [OF first])
      fix g' l' x
      assume x: "begun env ag g' l' x"
      show "ensures (token_discipline env) (\<lambda>_ _. True) (?second endsAt x) (\<lambda>_ _ _. True) g' l'"
      proof (cases x)
        case (Inr y)
        obtain legacy raw where y: "y = (legacy, raw)" by (cases y)
        with x Inr obtain r text' where "raw = None" "tv_record l' = Some (r, text')"
          and b: "tp_ids g' r = Some (Bound (st_tokenHash legacy) ag)" "took_over env g' (st_tokenHash legacy) ag"
          unfolding begun_def adopting_def by blast
        with finish_follows [OF b] show ?thesis by (simp add: Inr y)
      qed simp
    qed
  qed
  show ?thesis
    unfolding adopt_def Let_def
  proof (rule still_then [OF follows_ends(3) drawless_basics(5) TrueI owning_True TrueI])
    fix g1 :: token_phase
    assume "tp_ids g1 = tp_ids g"
    with ids names both [of g1] show "ensures (token_discipline env) (\<lambda>_ _. True)
        (if ag \<notin> set (te_agents env) then Throw Unknown_Agent_Name
         else Clock (\<lambda>now. Poke ?l (after (attempt (begin_adoption env (window_end deadline now) tokenId ag expect)
           (adoption_failed (window_end deadline now))) (?second (window_end deadline now))))) (\<lambda>_ _ _. True) g1 l"
      by (cases "ag \<in> set (te_agents env)") simp_all
  qed
qed

end
