(* ===== verification/Token_Admission.thy ===== *)
theory Token_Admission
  imports Token_Slots
begin

text \<open>
  What \<^verbatim>\<open>authorize\<close> decides when nothing runs beside it: a function of the stored texts. A program that
  only reads gives the result that its reads determine, over any contents of the in-memory store.
\<close>

section \<open>Programs that only read\<close>

text \<open>The result of a program whose reads are answered by a map, when it makes no other calls; no signal is raised.\<close>

primrec read_out :: "(jstr \<rightharpoonup> jstr) \<Rightarrow> ('l, 'e, 'a) prog \<Rightarrow> ('e + 'a) option" where
  "read_out m (Ret a) = Some (Inr a)"
| "read_out m (Throw e) = Some (Inl e)"
| "read_out m (Store c k) =
     (case c of Get key \<Rightarrow> if key_ok key then read_out m (k (Some (Got (m key)))) else None | _ \<Rightarrow> None)"
| "read_out m (Uuid k) = None"
| "read_out m (Nonce k) = None"
| "read_out m (Clock k) = read_out m (k 0)"
| "read_out m (Halted g k) = read_out m (k False)"
| "read_out m (Peek k) = None"
| "read_out m (Poke l p) = None"
| "read_out m (Send t p) = None"
| "read_out m (Await k) = None"

lemma read_out_after [simp]:
  "read_out m (after p f) = (case read_out m p of None \<Rightarrow> None | Some (Inl e) \<Rightarrow> Some (Inl e) | Some (Inr a) \<Rightarrow> read_out m (f a))"
  by (induction p) (auto split: storage_op.split)

lemma read_out_attempt [simp]:
  "read_out m (attempt p h) = (case read_out m p of None \<Rightarrow> None | Some (Inl e) \<Rightarrow> read_out m (h e) | Some (Inr a) \<Rightarrow> Some (Inr a))"
  by (induction p) (auto split: storage_op.split)

lemma read_out_interruptible [simp]: "read_out m (interruptible g x p) = read_out m p"
  by (induction p) (auto split: storage_op.split)

lemma read_out_check [simp]: "read_out m (check_signal g x) = Some (Inr ())"
  by (simp add: check_signal_def)

definition stored_texts :: "('l, 'e, 'a, mem_store) world \<Rightarrow> (jstr \<rightharpoonup> jstr)" where
  "stored_texts w = (\<lambda>k. map_option fst (mem_view (wd_now w) (wd_store w) k))"

lemma run_reads:
  assumes "mem_wf (wd_store w)" "read_out (stored_texts w) p = Some v"
  shows "wd_prog (run_alone i a p us w) i = (case v of Inl e \<Rightarrow> Throw e | Inr x \<Rightarrow> Ret x)"
  using assms
proof (induction p arbitrary: w)
  case (Store c k)
  obtain key where c: "c = Get key" "key_ok key" and v: "read_out (stored_texts w) (k (Some (Got (stored_texts w key)))) = Some v"
    using Store.prems(2) by (auto split: storage_op.splits if_splits)
  let ?w = "w\<lparr>wd_store := snd (mem_act (wd_now w) c (wd_store w))\<rparr>"
  have reply: "fst (mem_act (wd_now w) c (wd_store w)) = Got (stored_texts w key)"
    using memory_store.act_reply [OF Store.prems(1), of "wd_now w" c] c by (simp add: stored_texts_def)
  have "alive (wd_now w) (mem_view (wd_now w) (wd_store w)) = mem_view (wd_now w) (wd_store w)"
    using memory_store.view_later [OF Store.prems(1) order_refl] by simp
  then have "stored_texts ?w = stored_texts w"
    using memory_store.act_view [OF Store.prems(1) order_refl, of "wd_now w" c] c by (simp add: stored_texts_def)
  moreover have "mem_wf (wd_store ?w)" using memory_store.act_invar [OF Store.prems(1)] by simp
  ultimately show ?case using Store.IH [OF rangeI, of ?w] v by (simp only: run_alone.simps reply)
next
  case (Clock k)
  then show ?case by (simp add: stored_texts_def)
next
  case (Halted g k)
  then show ?case by (simp add: stored_texts_def)
qed auto

section \<open>The decision\<close>

text \<open>A token is current for an agent: its lookup, its record and the agent's slot agree.\<close>

definition admits :: "token_env \<Rightarrow> (jstr \<rightharpoonup> jstr) \<Rightarrow> jstr \<Rightarrow> jstr \<Rightarrow> bool" where
  "admits env m token ag \<longleftrightarrow>
     (\<exists>pointer r raw rec slot.
        m (lookup_key (te_sha256 env token)) = Some pointer \<and> parseLookup pointer = Some r \<and>
        m (record_key r) = Some raw \<and> parseRecord env raw = Inr rec \<and> st_id rec = r \<and>
        st_tokenHash rec = te_sha256 env token \<and> st_tokenPrefix rec = take 12 token \<and>
        st_revokedAt rec = None \<and> st_principal rec = None \<and> st_agent rec = Some ag \<and> ag \<in> set (te_agents env) \<and>
        m (slot_key ag) = Some slot \<and> names_id env ag slot r)"

definition keys_fit :: "token_env \<Rightarrow> bool" where
  "keys_fit env \<longleftrightarrow> (\<forall>token. \<not> has_unit (te_sha256 env token) 0) \<and> (\<forall>a \<in> set (te_agents env). isAgentName a)"

lemma slug_no_nul: "isAgentName a \<Longrightarrow> \<not> has_unit a 0"
  by (auto simp: isAgentName_def slug_def list_all_iff slug_unit_def has_unit_def)

lemma id_no_nul:
  assumes "id_shaped r"
  shows "\<not> has_unit r 0"
proof
  assume "has_unit r 0"
  then obtain i where i: "i < length r" "r ! i = 0" by (auto simp: has_unit_def in_set_conv_nth)
  have "i \<in> set [0..<36]" using i(1) assms by (simp add: id_shaped_def)
  with assms have "if i \<in> {8, 13, 18, 23} then r ! i = 0x2d else hex_unit (r ! i)"
    unfolding id_shaped_def list_all_iff by blast
  then show False unfolding i(2) by (simp add: hex_unit_def digit_unit_def split: if_splits)
qed

lemma prefixed_ok: "\<not> has_unit x 0 \<Longrightarrow> list_all (\<lambda>c. c \<noteq> 0) p \<Longrightarrow> keyed [p, x] = Inr (p @ x)"
  by (auto simp: keyed_def validateStorageKey_def has_unit_def list_all_iff)

lemma token_keys_ok:
  "\<not> has_unit x 0 \<Longrightarrow> accessTokenKeys_record x = Inr (record_key x) \<and> key_ok (record_key x)"
  "\<not> has_unit x 0 \<Longrightarrow> accessTokenKeys_lookup x = Inr (lookup_key x) \<and> key_ok (lookup_key x)"
  "\<not> has_unit x 0 \<Longrightarrow> accessTokenKeys_agent x = Inr (slot_key x) \<and> key_ok (slot_key x)"
  by (auto simp: accessTokenKeys_record_def accessTokenKeys_lookup_def accessTokenKeys_agent_def prefixed_ok record_key_def
      lookup_key_def slot_key_def key_ok_iff has_unit_def lit_def)

lemma parsed_empty: "parseLookup [] = None" "parseRecord env [] = Inl Stored_Corrupted"
proof -
  have "json_parse [] = None" by code_simp
  then show "parseLookup [] = None" "parseRecord env [] = Inl Stored_Corrupted"
    by (simp_all add: parseLookup_def parseRecord_def parsed_def plainObject_def)
qed

lemma read_out_get: "key_ok k \<Longrightarrow> read_out m (kv_get (Inr k)) = Some (Inr (m k))"
  by (simp add: kv_get_def split: option.split)

lemma read_out_parsed: "read_out m (parsed_or_throw v) = Some v"
  by (cases v) (simp_all add: parsed_or_throw_def)

lemma read_out_record:
  "id_shaped r \<Longrightarrow> read_out m (read_record env r) =
     Some (case m (record_key r) of None \<Rightarrow> Inr None
       | Some raw \<Rightarrow> if raw = [] then Inr None
           else case parseRecord env raw of Inl e \<Rightarrow> Inl e | Inr rec \<Rightarrow> if st_id rec \<noteq> r then Inl Stored_Corrupted else Inr (Some rec))"
  using token_keys_ok(1) [OF id_no_nul]
  by (auto simp: read_record_def read_out_get read_out_parsed split: option.split sum.split)

lemma read_out_slot:
  "isAgentName ag \<Longrightarrow> read_out m (readSlot env ag) =
     Some (case m (slot_key ag) of None \<Rightarrow> Inr (None, None)
       | Some raw \<Rightarrow> case parseSlot env raw ag of Inl e \<Rightarrow> Inl e | Inr slot \<Rightarrow> Inr (Some raw, Some slot))"
  using token_keys_ok(3) [OF slug_no_nul]
  by (auto simp: readSlot_def read_out_get read_out_parsed split: option.split sum.split)

lemma parseLookup_shaped: "parseLookup raw = Some r \<Longrightarrow> id_shaped r"
  by (auto simp: parseLookup_def split: option.splits if_splits)

text \<open>The record's part of the decision.\<close>

lemma read_out_admit:
  assumes "\<forall>a \<in> set (te_agents env). isAgentName a"
  shows "\<exists>v. read_out m (admit_record env token h found) = Some v \<and>
    (\<forall>s ag. v = Inr (Admitted s ag) \<longleftrightarrow> s = agentSubjectId ag \<and>
       (\<exists>rec slot. found = Some rec \<and> st_tokenHash rec = h \<and> st_tokenPrefix rec = take 12 token \<and> st_revokedAt rec = None \<and>
          st_principal rec = None \<and> st_agent rec = Some ag \<and> ag \<in> set (te_agents env) \<and>
          m (slot_key ag) = Some slot \<and> names_id env ag slot (st_id rec)))"
proof (cases found)
  case None
  then show ?thesis by (simp add: admit_record_def Let_def)
next
  case (Some rec)
  show ?thesis
  proof (cases "st_tokenHash rec = h \<and> st_tokenPrefix rec = take 12 token \<and> st_revokedAt rec = None \<and> st_principal rec = None")
    case True
    show ?thesis
    proof (cases "st_agent rec")
      case (Some a)
      show ?thesis
      proof (cases "a \<in> set (te_agents env)")
        case True
        with assms have slot: "read_out m (readSlot env a) = Some (case m (slot_key a) of None \<Rightarrow> Inr (None, None)
          | Some raw \<Rightarrow> case parseSlot env raw a of Inl e \<Rightarrow> Inl e | Inr slot \<Rightarrow> Inr (Some raw, Some slot))" by (intro read_out_slot) blast
        show ?thesis
          using \<open>found = Some rec\<close> \<open>st_tokenHash rec = h \<and> _\<close> Some True
          by (auto simp: admit_record_def Let_def slot names_id_def names_token_def split: option.splits sum.splits stored_slot.splits)
      qed (use \<open>found = Some rec\<close> \<open>st_tokenHash rec = h \<and> _\<close> Some in \<open>auto simp: admit_record_def Let_def\<close>)
    qed (use \<open>found = Some rec\<close> True in \<open>auto simp: admit_record_def Let_def\<close>)
  qed (use Some in \<open>auto simp: admit_record_def Let_def\<close>)
qed

lemma read_out_token:
  assumes "keys_fit env"
  shows "\<exists>v. read_out m (authorize_token env token) = Some v \<and>
    (\<forall>s ag. v = Inr (Admitted s ag) \<longleftrightarrow> s = agentSubjectId ag \<and> admits env m token ag)"
proof -
  let ?h = "te_sha256 env token"
  have key: "accessTokenKeys_lookup ?h = Inr (lookup_key ?h)" "key_ok (lookup_key ?h)"
    using token_keys_ok(2) [of ?h] assms by (simp_all add: keys_fit_def)
  have names: "\<forall>a \<in> set (te_agents env). isAgentName a" using assms by (simp add: keys_fit_def)
  show ?thesis
  proof (cases "Option.bind (m (lookup_key ?h)) (\<lambda>r. if r = [] then None else parseLookup r)")
    case None
    then have "parseLookup pointer = None" if "m (lookup_key ?h) = Some pointer" for pointer
      using that parsed_empty(1) by (auto split: if_splits)
    with None show ?thesis by (auto simp: authorize_token_def Let_def read_out_get key admits_def)
  next
    case (Some r)
    then obtain pointer where p: "m (lookup_key ?h) = Some pointer" "parseLookup pointer = Some r" by (auto simp: bind_eq_Some_conv split: if_splits)
    note shaped = parseLookup_shaped [OF p(2)]
    let ?after = "\<lambda>found. read_out m (admit_record env token ?h found)"
    have run: "read_out m (authorize_token env token) =
      (case m (record_key r) of None \<Rightarrow> ?after None | Some raw \<Rightarrow> if raw = [] then ?after None
        else case parseRecord env raw of Inl e \<Rightarrow> Some (Inl e)
          | Inr rec \<Rightarrow> if st_id rec \<noteq> r then Some (Inl Stored_Corrupted) else ?after (Some rec))"
      using Some by (simp add: authorize_token_def Let_def read_out_get key read_out_record [OF shaped] split: option.split sum.split)
    have adm: "admits env m token ag \<longleftrightarrow> (\<exists>raw rec slot. m (record_key r) = Some raw \<and> parseRecord env raw = Inr rec \<and> st_id rec = r \<and>
        st_tokenHash rec = ?h \<and> st_tokenPrefix rec = take 12 token \<and> st_revokedAt rec = None \<and> st_principal rec = None \<and>
        st_agent rec = Some ag \<and> ag \<in> set (te_agents env) \<and> m (slot_key ag) = Some slot \<and> names_id env ag slot r)" for ag
      using p by (auto simp: admits_def)
    show ?thesis
    proof (cases "\<exists>raw rec. m (record_key r) = Some raw \<and> parseRecord env raw = Inr rec \<and> st_id rec = r")
      case True
      then obtain raw rec where rec: "m (record_key r) = Some raw" "parseRecord env raw = Inr rec" "st_id rec = r" by blast
      then have "raw \<noteq> []" using parsed_empty(2) by auto
      with rec run read_out_admit [OF names, of m token ?h "Some rec"] show ?thesis by (simp add: adm)
    next
      case False
      obtain v where "?after None = Some v" "\<And>s ag. v \<noteq> Inr (Admitted s ag)" using read_out_admit [OF names, of m token ?h None] by auto
      with False show ?thesis unfolding run by (auto simp: adm split: option.split sum.split)
    qed
  qed
qed

text \<open>
  C17. Authorization admits exactly the current token of a declared agent. Over any contents of the store, with nothing
  running beside it, \<^verbatim>\<open>authorize\<close> always answers; it admits an agent when the header carries one bearer token
  of the issued shape whose lookup, record and slot agree, and refuses otherwise, whatever is missing, unreadable or
  revoked, or bound to a person.
\<close>

theorem authorize_decides:
  assumes "mem_wf (wd_store w)" "keys_fit env"
  shows "\<exists>v. wd_prog (run_alone i a (authorize env header) us w) i = Ret v \<and>
    (\<forall>s ag. v = Admitted s ag \<longleftrightarrow> s = agentSubjectId ag \<and>
       (\<exists>token. authorizationCredential header = Bearer_Credential token \<and> token_shaped 43 token \<and> admits env (stored_texts w) token ag))"
proof -
  let ?m = "stored_texts w"
  have "\<exists>v. read_out ?m (authorize env header) = Some (Inr v) \<and>
    (\<forall>s ag. v = Admitted s ag \<longleftrightarrow> s = agentSubjectId ag \<and>
       (\<exists>token. authorizationCredential header = Bearer_Credential token \<and> token_shaped 43 token \<and> admits env ?m token ag))"
  proof (cases "authorizationCredential header")
    case (Bearer_Credential token)
    obtain v where v: "read_out ?m (authorize_token env token) = Some v" "\<forall>s ag. v = Inr (Admitted s ag) \<longleftrightarrow> s = agentSubjectId ag \<and> admits env ?m token ag"
      using read_out_token [OF assms(2)] by blast
    then show ?thesis by (cases v) (auto simp: authorize_def Bearer_Credential)
  qed (simp_all add: authorize_def)
  then show ?thesis using run_reads [OF assms(1)] by fastforce
qed

definition sample_id :: jstr where
  "sample_id = lit ''00000000-0000-0000-0000-000000000000''"

lemma sample_id_shaped: "id_shaped sample_id"
  by code_simp

definition one_env :: token_env where
  "one_env = \<lparr>te_agents = [lit ''bot''], te_sha256 = (\<lambda>_. replicate 64 0x61), te_revision = (\<lambda>s. s), te_dateParse = (\<lambda>_. True)\<rparr>"

definition one_token :: jstr where
  "one_token = TOKEN_PREFIX @ replicate 43 0x61"

definition one_store :: mem_store where
  "one_store = \<lparr>ms_map =
     [(record_key sample_id, 0, \<lparr>me_value = record_text sample_id (lit ''bot'') (replicate 64 0x61) (take 12 one_token) (lit ''t'') (lit ''op''), me_exp = None\<rparr>),
      (lookup_key (replicate 64 0x61), 1, \<lparr>me_value = lookup_text sample_id, me_exp = None\<rparr>),
      (slot_key (lit ''bot''), 2, \<lparr>me_value = issued_text (lit ''bot'') sample_id (lit ''t''), me_exp = None\<rparr>)],
     ms_sweep = 0, ms_next = 3\<rparr>"

definition one_world :: "(token_vars, token_error, auth_result, mem_store) world" where
  "one_world = \<lparr>wd_now = 0, wd_store = one_store, wd_limbo = [], wd_uuids = {}, wd_log = [],
     wd_local = (\<lambda>_. \<lparr>tv_claimed = False, tv_record = None\<rparr>), wd_prog = (\<lambda>_. Ret Refused_401)\<rparr>"

definition one_header :: "jstr option" where
  "one_header = Some (lit ''Bearer '' @ one_token)"

lemma one_shapes:
  "token_shaped 43 one_token" "token_shaped 8 (take 12 one_token)" "hash_shaped (replicate 64 0x61)" "isAgentName (lit ''bot'')"
  "authorizationCredential one_header = Bearer_Credential one_token" "js_trim (lit ''bot'') \<noteq> []" "character_count (lit ''bot'') = 3"
  by code_simp+

lemma admitsI:
  "m (lookup_key d) = Some pointer \<Longrightarrow> parseLookup pointer = Some r \<Longrightarrow> m (record_key r) = Some raw \<Longrightarrow>
   parseRecord env raw = Inr rec \<Longrightarrow> st_id rec = r \<Longrightarrow> st_tokenHash rec = d \<Longrightarrow> st_tokenPrefix rec = take 12 token \<Longrightarrow>
   st_revokedAt rec = None \<Longrightarrow> st_principal rec = None \<Longrightarrow> st_agent rec = Some ag \<Longrightarrow> ag \<in> set (te_agents env) \<Longrightarrow>
   m (slot_key ag) = Some slot \<Longrightarrow> names_id env ag slot r \<Longrightarrow> te_sha256 env token = d \<Longrightarrow> admits env m token ag"
  unfolding admits_def by (rule exI [of _ pointer], rule exI [of _ r], rule exI [of _ raw], rule exI [of _ rec], rule exI [of _ slot]) simp

lemma one_current: "admits one_env (stored_texts one_world) one_token (lit ''bot'')"
proof -
  let ?raw = "record_text sample_id (lit ''bot'') (replicate 64 0x61) (take 12 one_token) (lit ''t'') (lit ''op'')"
  have texts: "stored_texts one_world (record_key sample_id) = Some ?raw" "stored_texts one_world (lookup_key (replicate 64 0x61)) = Some (lookup_text sample_id)"
    "stored_texts one_world (slot_key (lit ''bot'')) = Some (issued_text (lit ''bot'') sample_id (lit ''t''))"
    by (simp_all add: stored_texts_def one_world_def one_store_def mem_view_def alive_def live_def Memory_Storage.contents_def)
  have slot: "names_id one_env (lit ''bot'') (issued_text (lit ''bot'') sample_id (lit ''t'')) sample_id"
    by (simp add: names_id_def parseSlot_def text_parsed version_1_def field_def finite_whole isTime_def one_env_def text_field_def
        sample_id_shaped lit_def)
  have look: "parseLookup (lookup_text sample_id) = Some sample_id"
    by (simp add: parseLookup_def text_parsed version_1_def field_def finite_whole sample_id_shaped lit_def)
  obtain rec where rec: "parseRecord one_env ?raw = Inr rec" "st_id rec = sample_id" "st_tokenHash rec = replicate 64 0x61"
    "st_tokenPrefix rec = take 12 one_token" "st_revokedAt rec = None" "st_principal rec = None" "st_agent rec = Some (lit ''bot'')"
  proof -
    let ?fs = "[(lit ''version'', whole 1), (lit ''id'', J_Str sample_id), (lit ''name'', J_Str (lit ''bot'')),
      (lit ''tokenHash'', J_Str (replicate 64 0x61)), (lit ''tokenPrefix'', J_Str (take 12 one_token)), (lit ''createdAt'', J_Str (lit ''t'')),
      (lit ''createdBy'', J_Str (lit ''op'')), (lit ''agent'', J_Str (lit ''bot''))]"
    have fields: "field ?fs ''version'' = Some (whole 1)" "field ?fs ''id'' = Some (J_Str sample_id)" "field ?fs ''name'' = Some (J_Str (lit ''bot''))"
      "field ?fs ''tokenHash'' = Some (J_Str (replicate 64 0x61))" "field ?fs ''tokenPrefix'' = Some (J_Str (take 12 one_token))"
      "field ?fs ''createdAt'' = Some (J_Str (lit ''t''))" "field ?fs ''createdBy'' = Some (J_Str (lit ''op''))" "field ?fs ''principal'' = None"
      "field ?fs ''agent'' = Some (J_Str (lit ''bot''))" "field ?fs ''revokedAt'' = None" "field ?fs ''revokedBy'' = None"
      by (simp_all add: field_def lit_def)
    have "lit ''t'' \<noteq> []" by (simp add: lit_def)
    then have "record_valid one_env ?fs"
      unfolding record_valid_def version_1_def text_field_def isTime_def fields
      by (simp add: finite_whole sample_id_shaped one_shapes MAX_NAME_CHARACTERS_def one_env_def)
    moreover have "principal_of None = None" by (simp add: principal_of_def plainObject_def)
    ultimately have "parseRecord one_env ?raw = Inr \<lparr>st_id = sample_id, st_name = lit ''bot'', st_tokenHash = replicate 64 0x61,
        st_tokenPrefix = take 12 one_token, st_createdAt = lit ''t'', st_createdBy = lit ''op'', st_principal = None,
        st_agent = Some (lit ''bot''), st_revokedAt = None\<rparr>"
      by (simp add: parseRecord_def text_parsed text_field_def fields del: replicate.simps take_append)
    then show thesis by (rule that) simp_all
  qed
  have env: "lit ''bot'' \<in> set (te_agents one_env)" "te_sha256 one_env one_token = replicate 64 0x61" by (simp_all add: one_env_def)
  show ?thesis by (rule admitsI [OF texts(2) look texts(1) rec env(1) texts(3) slot env(2)])
qed

theorem authorize_decides_witness:
  "wd_prog (run_alone 0 None (authorize one_env one_header) [] one_world) 0 = Ret (Admitted (agentSubjectId (lit ''bot'')) (lit ''bot''))"
proof -
  have "mem_wf (wd_store one_world)" by (simp add: one_world_def one_store_def mem_wf_def)
  moreover have "keys_fit one_env" using one_shapes(4) by (simp add: keys_fit_def one_env_def has_unit_def)
  ultimately have "\<exists>v. wd_prog (run_alone 0 None (authorize one_env one_header) [] one_world) 0 = Ret v \<and>
      (\<forall>s ag. v = Admitted s ag \<longleftrightarrow> s = agentSubjectId ag \<and> (\<exists>token. authorizationCredential one_header = Bearer_Credential token \<and>
        token_shaped 43 token \<and> admits one_env (stored_texts one_world) token ag))"
    by (rule authorize_decides)
  then obtain v where v: "wd_prog (run_alone 0 None (authorize one_env one_header) [] one_world) 0 = Ret v"
    and iff: "\<forall>s ag. v = Admitted s ag \<longleftrightarrow> s = agentSubjectId ag \<and> (\<exists>token. authorizationCredential one_header = Bearer_Credential token \<and>
        token_shaped 43 token \<and> admits one_env (stored_texts one_world) token ag)"
    by (elim exE conjE)
  have "v = Admitted (agentSubjectId (lit ''bot'')) (lit ''bot'')"
    unfolding iff [rule_format] by (intro conjI refl exI [of _ one_token] one_shapes one_current)
  with v show ?thesis by simp
qed

end
