(* ===== verification/Token_Retired.thy ===== *)
theory Token_Retired
  imports Token_Programs Token_Admission
begin

text \<open>
  A token that was replaced or revoked is refused from then on, however the programs of \<^verbatim>\<open>Access_Tokens\<close>
  interleave over the in-memory store of \<^verbatim>\<open>Memory_Storage\<close>: the invariant of \<^verbatim>\<open>Token_Slots\<close>
  is watched for one identifier, from a state where a slot names it to a state where the slot does not any more.
\<close>

section \<open>Requests\<close>

text \<open>What may be asked of the tokens; every request runs as a program of its own.\<close>

datatype token_request =
    Rotate jstr jstr "int option" "jstr option"
  | Revoke jstr "int option" "jstr option"
  | Adopt jstr jstr "int option" "jstr option"
  | List_Slots
  | Unbound_Tokens
  | Authorize "jstr option"

datatype token_answer =
    New_Token jstr agent_slot
  | Slot_Shown agent_slot
  | Slots_Shown "agent_slot list"
  | Unbound_Shown "stored_token list"
  | Answer auth_result

primrec token_program :: "token_env \<Rightarrow> token_request \<Rightarrow> token_answer tokens" where
  "token_program env (Rotate ag issuedBy deadline expect) =
     after (rotate env ag issuedBy deadline expect) (\<lambda>(token, shown). Ret (New_Token token shown))"
| "token_program env (Revoke ag deadline expect) = after (revoke env ag deadline expect) (\<lambda>shown. Ret (Slot_Shown shown))"
| "token_program env (Adopt tokenId ag deadline expect) =
     after (adopt env tokenId ag deadline expect) (\<lambda>shown. Ret (Slot_Shown shown))"
| "token_program env List_Slots = after (list_slots env (te_agents env)) (\<lambda>shown. Ret (Slots_Shown shown))"
| "token_program env Unbound_Tokens = after (unboundTokens env) (\<lambda>recs. Ret (Unbound_Shown recs))"
| "token_program env (Authorize header) = after (authorize env header) (\<lambda>v. Ret (Answer v))"

type_synonym token_world = "(token_vars, token_error, token_answer, mem_store) world"

definition stored_tokens :: "token_world \<Rightarrow> contents" where
  "stored_tokens w = token_contents (mem_view (wd_now w) (wd_store w))"

text \<open>Processes start over a store in which no agent has a slot yet; restarts are processes that start later.\<close>

definition tokens_start :: "token_env \<Rightarrow> (nat \<Rightarrow> token_request) \<Rightarrow> token_world \<Rightarrow> bool" where
  "tokens_start env reqs w \<longleftrightarrow>
     wd_prog w = (\<lambda>i. token_program env (reqs i)) \<and> (\<forall>a \<in> set (te_agents env). isAgentName a) \<and>
     mem_wf (wd_store w) \<and> durable (mem_view (wd_now w) (wd_store w)) \<and> origin env (stored_tokens w) (wd_uuids w) \<and>
     wd_limbo w = []"

text \<open>An admission has read what let it in.\<close>

definition reads_first :: "token_env \<Rightarrow> token_request \<Rightarrow> token_phase \<Rightarrow> token_vars \<Rightarrow> token_error + token_answer \<Rightarrow> bool" where
  "reads_first env req g l x \<longleftrightarrow> (\<forall>header token s ag. req = Authorize header \<longrightarrow> presents header token \<longrightarrow>
     x = Inr (Answer (Admitted s ag)) \<longrightarrow> let_in env (te_sha256 env token) g)"

lemma ensures_reads:
  assumes "ensures (token_discipline env) (\<lambda>_ _. True) p P g l" "\<And>g l a. P g l a \<Longrightarrow> reads_first env req g l (Inr (f a))"
  shows "wp (token_discipline env) (\<lambda>_ _. True) (after p (\<lambda>a. Ret (f a))) (reads_first env req) g l"
  unfolding wp_after
  by (rule wp_mono [OF assms(1) [unfolded ensures_def]]) (use assms(2) in \<open>auto simp: reads_first_def split: sum.splits\<close>)

lemma follows_reads_first:
  assumes "follows env p" "\<And>header. req \<noteq> Authorize header"
  shows "wp (token_discipline env) (\<lambda>_ _. True) (after p (\<lambda>a. Ret (f a))) (reads_first env req) g l"
  by (rule ensures_reads [OF mildD [OF assms(1)]]) (use assms(2) in \<open>auto simp: reads_first_def\<close>)

lemma authorize_reads: "wp (token_discipline env) (\<lambda>_ _. True) (token_program env (Authorize header)) (reads_first env (Authorize header)) g l"
proof (cases "authorizationCredential header")
  case (Bearer_Credential token)
  then have token: "presents header t \<longleftrightarrow> t = token" for t by (auto simp: presents_def)
  then have "presents header token" by simp
  from mild_authorize [OF this, of env] show ?thesis
    unfolding token_program.simps
    by (rule ensures_reads [OF mildD]) (auto simp: reads_first_def token admitted_def)
qed (auto simp: authorize_def reads_first_def)

lemma program_reads:
  assumes "tp_ids g = Map.empty" "\<forall>a \<in> set (te_agents env). isAgentName a"
  shows "wp (token_discipline env) (\<lambda>_ _. True) (token_program env req) (reads_first env req) g l"
proof (cases req)
  case (Rotate ag issuedBy deadline expect)
  have "wp (token_discipline env) (\<lambda>_ _. True) (after (rotate env ag issuedBy deadline expect) (\<lambda>x. Ret (New_Token (fst x) (snd x))))
      (reads_first env req) g l"
    by (rule ensures_reads [OF rotate_follows [OF assms(1)]]) (simp add: reads_first_def Rotate)
  then show ?thesis by (simp add: Rotate case_prod_beta')
next
  case (Adopt tokenId ag deadline expect)
  show ?thesis unfolding Adopt token_program.simps
    by (rule ensures_reads [OF adopt_follows [OF assms]]) (simp add: reads_first_def)
next
  case (Authorize header)
  then show ?thesis using authorize_reads by simp
qed (auto simp del: wp_after intro!: follows_reads_first follows_revoke follows_list_slots follows_unboundTokens)

section \<open>The watch\<close>

lemma watch_begins:
  assumes inv: "token_inv env m0 U0 None m L U G" and named: "slot_names env m ag r"
    and rec: "m (record_key r) = Some raw" "digest_of raw = Some h"
  shows "token_inv env m0 U0 (Some \<lparr>wt_agent = ag, wt_id = r, wt_digest = h, wt_gone = False, wt_late = {}\<rparr>) m L U G"
proof -
  have ids: "ids_ok env U0 (U - U0) G" and stored: "stored_ok env m0 U0 m (U - U0) G" and one: "once env m L"
    using inv by (simp_all add: token_inv_def)
  have right: "\<exists>h. offered G r h ag \<and> (h \<in> minted env ` U0 \<longrightarrow> claimed_by m0 m h ag)" if "slot_names env m ag r" for ag r
    using stored_parts(4) [OF stored that] by (auto simp: rightly_offered_def)
  obtain h' where h': "offered G r h' ag" "h' \<in> minted env ` U0 \<longrightarrow> claimed_by m0 m h' ag" using right [OF named] by blast
  have "r \<in> U - U0" using ids h'(1) unfolding ids_ok_def offered_def by blast
  then obtain ag2 where "bound G r h ag2" using stored_parts(2) [OF stored _ rec(1)] rec(2) by auto
  with bound_unique [OF ids offered_bound [OF h'(1)]] have h: "h' = h" by blast
  have only: "r' = r" if s: "slot_names env m ag' r'" and b: "bound G r' h ag'" for ag' r'
  proof (cases "h \<in> minted env ` U0")
    case True
    obtain h2 where h2: "offered G r' h2 ag'" "h2 \<in> minted env ` U0 \<longrightarrow> claimed_by m0 m h2 ag'" using right [OF s] by blast
    with bound_unique [OF ids offered_bound [OF h2(1)] b] True have "claimed_by m0 m h ag'" by blast
    then have "ag' = ag" using h'(2) True h claimed_unique by blast
    with s named show ?thesis by (blast dest: slot_names_unique)
  next
    case False
    with ids b offered_bound [OF h'(1)] h show ?thesis unfolding ids_ok_def by blast
  qed
  have "length (filter (offers env r) L) + 1 \<le> 1" using one named unfolding once_def named_def by (metis (mono_tags, lifting))
  then have "filter (offers env r) L = []" by simp
  moreover have "m (slot_key ag) \<noteq> None" using named by (auto simp: slot_names_def split: option.splits)
  ultimately have "watched env m0 U0 m L G \<lparr>wt_agent = ag, wt_id = r, wt_digest = h, wt_gone = False, wt_late = {}\<rparr>"
    using h' h only unfolding watched_def by simp
  with inv show ?thesis by (simp add: token_inv_def watch_ok_def)
qed

lemma watch_goes:
  assumes inv: "token_inv env m0 U0 (Some \<lparr>wt_agent = ag, wt_id = r, wt_digest = h, wt_gone = False, wt_late = {}\<rparr>) m L U G"
    and gone: "\<not> slot_names env m ag r"
  shows "token_inv env m0 U0 (Some \<lparr>wt_agent = ag, wt_id = r, wt_digest = h, wt_gone = True, wt_late = {i}\<rparr>) m L U
    (G(i := (G i)\<lparr>tp_seen := {}\<rparr>))"
proof -
  let ?G = "G(i := (G i)\<lparr>tp_seen := {}\<rparr>)"
  have anew: "token_inv env m0 U0 (Some \<lparr>wt_agent = ag, wt_id = r, wt_digest = h, wt_gone = False, wt_late = {}\<rparr>) m L U ?G"
    by (rule seen_anew [OF inv]) (auto split: if_splits)
  then have w: "watched env m0 U0 m L ?G \<lparr>wt_agent = ag, wt_id = r, wt_digest = h, wt_gone = False, wt_late = {}\<rparr>"
    and ids: "ids_ok env U0 (U - U0) ?G" and stored: "stored_ok env m0 U0 m (U - U0) ?G"
    by (simp_all add: token_inv_def watch_ok_def)
  have off: "offered ?G r h ag" using w by (simp add: watched_def)
  have "\<not> named env m r"
    unfolding named_def
  proof
    assume "\<exists>ag'. slot_names env m ag' r"
    then obtain ag' h' where s: "slot_names env m ag' r" and "offered ?G r h' ag'" using stored_offered [OF stored] by blast
    with bound_unique [OF ids offered_bound [OF off] offered_bound] have "ag' = ag" by blast
    with s gone show False by simp
  qed
  with w have "watched env m0 U0 m L ?G \<lparr>wt_agent = ag, wt_id = r, wt_digest = h, wt_gone = True, wt_late = {i}\<rparr>"
    unfolding watched_def by simp
  with anew show ?thesis by (simp add: token_inv_def watch_ok_def)
qed

lemma late_refused:
  assumes inv: "token_inv env m0 U0 (Some w) m L U G" and i: "i \<in> wt_late w"
  shows "\<not> let_in env (wt_digest w) (G i)"
proof
  assume "let_in env (wt_digest w) (G i)"
  then obtain r raw ag slot where rec: "(record_key r, raw) \<in> tp_seen (G i)" "digest_of raw = Some (wt_digest w)"
    and slot: "(slot_key ag, slot) \<in> tp_seen (G i)" "names_id env ag slot r"
    unfolding let_in_def by blast
  have ids: "ids_ok env U0 (U - U0) G" and org: "origin env m0 U0" and "watched env m0 U0 m L G w"
    using inv by (simp_all add: token_inv_def watch_ok_def)
  then have late: "late_ok env m0 G (wt_digest w) k v" if "(k, v) \<in> tp_seen (G i)" for k v
    using that i unfolding watched_def by blast
  obtain h where h: "offered G r h ag" "h \<noteq> wt_digest w" using late [OF slot(1)] slot(2) unfolding late_ok_def by blast
  have "r \<notin> U0" using ids h(1) unfolding ids_ok_def offered_def by blast
  then have "m0 (record_key r) \<noteq> Some raw" using org by (auto simp: origin_def)
  then obtain h' ag' where "bound G r h' ag'" "digest_of raw = Some h'" using late [OF rec(1)] unfolding late_ok_def by blast
  with bound_unique [OF ids offered_bound [OF h(1)]] rec(2) h(2) show False by force
qed

section \<open>Retired tokens\<close>

lemma start_reads:
  assumes "tokens_start env reqs w"
  shows "memory_tokens.flow.kept env (stored_tokens w) (wd_uuids w) None (\<lambda>i. reads_first env (reqs i)) w (\<lambda>_. fresh_phase)"
proof -
  let ?m = "stored_tokens w"
  have none: "\<not> slot_names env ?m ag r" for ag r using assms by (auto simp: tokens_start_def origin_def slot_names_def)
  have "token_inv env ?m (wd_uuids w) None ?m [] (wd_uuids w) (\<lambda>_. fresh_phase)"
    using assms none
    by (auto simp: token_inv_def tokens_start_def ids_ok_def stored_ok_def once_def named_def watch_ok_def bound_def fresh_phase_def)
  moreover have "wp (token_discipline env) (\<lambda>_ _. True) (wd_prog w i) (reads_first env (reqs i)) fresh_phase (wd_local w i)" for i
    using program_reads [of fresh_phase env "reqs i"] assms by (simp add: tokens_start_def fresh_phase_def)
  ultimately show ?thesis
    using assms unfolding memory_tokens.flow.kept_def memory_tokens.token_invariant_def
    by (simp add: tokens_start_def stored_tokens_def)
qed

text \<open>The token's digest is that of the record an agent's slot names.\<close>

definition current_token :: "token_env \<Rightarrow> contents \<Rightarrow> jstr \<Rightarrow> jstr \<Rightarrow> jstr \<Rightarrow> bool" where
  "current_token env m token ag r \<longleftrightarrow> slot_names env m ag r \<and>
     (\<exists>raw. m (record_key r) = Some raw \<and> digest_of raw = Some (te_sha256 env token))"

lemma watched_from:
  assumes "reachable (tokens_start env reqs) (flow_step mem_act beside_tokens) w" "current_token env (stored_tokens w) token ag r"
  shows "\<exists>m0 U0 Q G. memory_tokens.flow.kept env m0 U0
    (Some \<lparr>wt_agent = ag, wt_id = r, wt_digest = te_sha256 env token, wt_gone = False, wt_late = {}\<rparr>) Q w G"
proof -
  have "\<exists>m0 U0 G. memory_tokens.flow.kept env m0 U0 None (\<lambda>i. reads_first env (reqs i)) w G"
    using assms(1) by (rule reachable_invariant) (use start_reads memory_tokens.flow.step_kept in blast)+
  then obtain m0 U0 G where "memory_tokens.flow.kept env m0 U0 None (\<lambda>i. reads_first env (reqs i)) w G" by blast
  moreover obtain raw where "slot_names env (stored_tokens w) ag r" "stored_tokens w (record_key r) = Some raw"
    "digest_of raw = Some (te_sha256 env token)" using assms(2) by (auto simp: current_token_def)
  ultimately have "memory_tokens.flow.kept env m0 U0
      (Some \<lparr>wt_agent = ag, wt_id = r, wt_digest = te_sha256 env token, wt_gone = False, wt_late = {}\<rparr>)
      (\<lambda>i. reads_first env (reqs i)) w G"
    using watch_begins [of env m0 U0 "stored_tokens w" "wd_limbo w" "wd_uuids w" G ag r raw]
    unfolding memory_tokens.flow.kept_def memory_tokens.token_invariant_def stored_tokens_def by simp
  then show ?thesis by blast
qed

lemma kept_on:
  assumes "reachable (\<lambda>v. v = w) (flow_step mem_act beside_tokens) w'" "memory_tokens.flow.kept env m0 U0 wt Q w G"
  shows "\<exists>G. memory_tokens.flow.kept env m0 U0 wt Q w' G"
  using assms(1) by (rule reachable_invariant) (use assms(2) memory_tokens.flow.step_kept in blast)+

lemma retired_from:
  assumes kept: "memory_tokens.flow.kept env m0 U0
      (Some \<lparr>wt_agent = ag, wt_id = r, wt_digest = h, wt_gone = False, wt_late = {}\<rparr>) Q w G"
    and gone: "\<not> slot_names env (stored_tokens w) ag r" and prog: "wd_prog w i = token_program env (Authorize header)"
  shows "memory_tokens.flow.kept env m0 U0 (Some \<lparr>wt_agent = ag, wt_id = r, wt_digest = h, wt_gone = True, wt_late = {i}\<rparr>)
    (Q(i := reads_first env (Authorize header))) w (G(i := (G i)\<lparr>tp_seen := {}\<rparr>))"
  using kept watch_goes [where i = i, OF _ gone] authorize_reads [of env header] prog
  unfolding memory_tokens.flow.kept_def memory_tokens.token_invariant_def stored_tokens_def by auto

text \<open>
  C2. A retired token stays refused: once an agent's slot named the record of a token and no longer does, because the token
  was rotated, revoked or given up by an adoption, every authorization that begins after that refuses the token, whatever
  other requests to issue, revoke, adopt, list and authorize run beside it and before it, however their storage calls
  interleave, whichever calls are lost or take effect late, wherever a request stops, and with any foreign calls that leave
  the keys of agent tokens alone. In particular no late write brings the record back into a slot, and an adopted token
  cannot be adopted again by another agent.
\<close>

theorem retired_token_refused:
  assumes reach: "reachable (tokens_start env reqs) (flow_step mem_act beside_tokens) w1"
    and current: "current_token env (stored_tokens w1) token ag r"
    and later: "reachable (\<lambda>w. w = w1) (flow_step mem_act beside_tokens) w2"
    and gone: "\<not> slot_names env (stored_tokens w2) ag r"
    and request: "wd_prog w2 i = token_program env (Authorize header)" "presents header token"
    and after: "reachable (\<lambda>w. w = w2) (flow_step mem_act beside_tokens) w3"
  shows "wd_prog w3 i \<noteq> Ret (Answer (Admitted s a))"
proof
  let ?h = "te_sha256 env token"
  let ?w = "\<lparr>wt_agent = ag, wt_id = r, wt_digest = ?h, wt_gone = True, wt_late = {i}\<rparr>"
  assume admitted: "wd_prog w3 i = Ret (Answer (Admitted s a))"
  obtain m0 U0 Q G where "memory_tokens.flow.kept env m0 U0
      (Some \<lparr>wt_agent = ag, wt_id = r, wt_digest = ?h, wt_gone = False, wt_late = {}\<rparr>) Q w1 G"
    using watched_from [OF reach current] by blast
  from kept_on [OF later this] obtain G2'' where "memory_tokens.flow.kept env m0 U0
      (Some \<lparr>wt_agent = ag, wt_id = r, wt_digest = ?h, wt_gone = False, wt_late = {}\<rparr>) Q w2 G2''" ..
  then obtain G2 where "memory_tokens.flow.kept env m0 U0 (Some ?w) (Q(i := reads_first env (Authorize header))) w2 G2"
    using retired_from [OF _ gone request(1)] by blast
  from kept_on [OF after this] obtain G3
    where G3: "memory_tokens.flow.kept env m0 U0 (Some ?w) (Q(i := reads_first env (Authorize header))) w3 G3" ..
  have "wp (token_discipline env) (\<lambda>_ _. True) (wd_prog w3 i) (reads_first env (Authorize header)) (G3 i) (wd_local w3 i)"
    using G3 unfolding memory_tokens.flow.kept_def by (metis fun_upd_same)
  then have "let_in env ?h (G3 i)" using admitted request(2) by (simp add: reads_first_def)
  moreover have "token_inv env m0 U0 (Some ?w) (stored_tokens w3) (wd_limbo w3) (wd_uuids w3) G3"
    using G3 by (simp add: memory_tokens.flow.kept_def memory_tokens.token_invariant_def stored_tokens_def)
  ultimately show False using late_refused [where i = i and w = ?w] by simp
qed

section \<open>A run\<close>

text \<open>One agent; its token is issued, then revoked, and a request arrives.\<close>

definition sample_env :: token_env where
  "sample_env = \<lparr>te_agents = [lit ''bot''], te_sha256 = (\<lambda>s. s), te_revision = (\<lambda>s. s), te_dateParse = (\<lambda>_. True)\<rparr>"

definition sample_header :: "jstr option" where
  "sample_header = Some (lit ''Bearer cta_s'')"

definition sample_requests :: "nat \<Rightarrow> token_request" where
  "sample_requests i = (if i = 0 then Rotate (lit ''bot'') (lit ''op'') None None
     else if i = 1 then Revoke (lit ''bot'') None None else Authorize sample_header)"

definition sample_world :: token_world where
  "sample_world = \<lparr>wd_now = 0, wd_store = memoryStorage, wd_limbo = [], wd_uuids = {}, wd_log = [],
     wd_local = (\<lambda>_. \<lparr>tv_claimed = False, tv_record = None\<rparr>), wd_prog = (\<lambda>i. token_program sample_env (sample_requests i))\<rparr>"

definition sample_issued :: token_world where
  "sample_issued = run_alone 0 None (token_program sample_env (sample_requests 0)) [lit ''s'', sample_id] sample_world"

definition sample_revoked :: token_world where
  "sample_revoked = run_alone 1 None (token_program sample_env (sample_requests 1)) [lit ''v''] sample_issued"

definition sample_refused :: token_world where
  "sample_refused = run_alone 2 None (token_program sample_env (sample_requests 2)) [] sample_revoked"

lemma sample_start: "tokens_start sample_env sample_requests sample_world"
  by (auto simp: tokens_start_def sample_world_def sample_env_def memoryStorage_def mem_wf_def mem_view_def alive_def live_def
      Memory_Storage.contents_def durable_def origin_def stored_tokens_def token_contents_def minted_def inj_def
      isAgentName_def slug_def slug_unit_def lit_def)

lemma token_lazily:
  "p = p' \<Longrightarrow> after p f = after p' f" "p = p' \<Longrightarrow> attempt p h = attempt p' h" "p = p' \<Longrightarrow> interruptible g x p = interruptible g x p'"
  "c = c' \<Longrightarrow> Store c k = Store c' k" "Uuid ku = Uuid ku" "Clock kc = Clock kc" "Halted g kh = Halted g kh"
  "window_run e p = window_run e p" "window_settle e v = window_settle e v" "check_signal g x = check_signal g x"
  by simp_all

lemmas lazy_tokens = token_lazily option.case_cong_weak if_weak_cong prod.case_cong_weak sum.case_cong_weak stored_slot.case_cong_weak

lemmas token_run_defs = rotate_def revoke_def issue_token_def write_own_def commit_slot_def revoke_commit_def window_run_def window_settle_def
  readSlot_def kv_get_def kv_set_def kv_cas_def throwIfAborted_def check_signal_def window_end_def matchesExpected_def
  parsed_or_throw_def OPERATION_WINDOW_MS_def slot_issued_def Let_def

definition sample_store :: mem_store where
  "sample_store = \<lparr>ms_map =
     [(record_key sample_id, 0, \<lparr>me_value = record_text sample_id (lit ''bot'') (TOKEN_PREFIX @ lit ''s'')
         (take 12 (TOKEN_PREFIX @ lit ''s'')) (toISOString 0) (lit ''op''), me_exp = None\<rparr>),
      (lookup_key (TOKEN_PREFIX @ lit ''s''), 1, \<lparr>me_value = lookup_text sample_id, me_exp = None\<rparr>),
      (slot_key (lit ''bot''), 2, \<lparr>me_value = issued_text (lit ''bot'') sample_id (toISOString 0), me_exp = None\<rparr>)],
     ms_sweep = 0, ms_next = 3\<rparr>"

definition sample_later :: mem_store where
  "sample_later = sample_store\<lparr>ms_map := map_set (slot_key (lit ''bot''))
     (2, \<lparr>me_value = revokedSlot (lit ''bot'') (toISOString 0) (lit ''v''), me_exp = None\<rparr>) (ms_map sample_store)\<rparr>"

lemma sample_keys:
  "accessTokenKeys_record sample_id = Inr (record_key sample_id)" "accessTokenKeys_agent (lit ''bot'') = Inr (slot_key (lit ''bot''))"
  "accessTokenKeys_lookup (TOKEN_PREFIX @ lit ''s'') = Inr (lookup_key (TOKEN_PREFIX @ lit ''s''))"
  "validateStorageKey (record_key sample_id) = Inr (record_key sample_id)" "validateStorageKey (slot_key (lit ''bot'')) = Inr (slot_key (lit ''bot''))"
  "validateStorageKey (lookup_key (TOKEN_PREFIX @ lit ''s'')) = Inr (lookup_key (TOKEN_PREFIX @ lit ''s''))"
  by (simp_all add: accessTokenKeys_record_def accessTokenKeys_agent_def accessTokenKeys_lookup_def keyed_def validateStorageKey_def
      record_key_def slot_key_def lookup_key_def has_unit_def lit_def sample_id_def TOKEN_PREFIX_def)

lemma sample_env_simps: "te_agents sample_env = [lit ''bot'']" "te_sha256 sample_env x = x"
  by (simp_all add: sample_env_def)

lemma sample_requests_simps:
  "sample_requests 0 = Rotate (lit ''bot'') (lit ''op'') None None" "sample_requests (Suc 0) = Revoke (lit ''bot'') None None"
  by (simp_all add: sample_requests_def)

lemma sample_slot: "parseSlot sample_env (issued_text (lit ''bot'') sample_id (toISOString 0)) (lit ''bot'') = Inr (Issued sample_id (toISOString 0))"
proof -
  have "toISOString 0 \<noteq> []" by (simp add: toISOString_def Let_def case_prod_beta lit_def)
  then show ?thesis
    by (simp add: parseSlot_def text_parsed version_1_def field_def lit_def finite_whole isTime_def sample_env_def text_field_def sample_id_shaped)
qed

definition token_brief :: "token_world \<Rightarrow> rat \<times> mem_store \<times> jstr set \<times> token_answer tokens \<times> token_answer tokens" where
  "token_brief w = (wd_now w, wd_store w, wd_uuids w, wd_prog w 1, wd_prog w 2)"

lemma token_brief_literal:
  "token_brief \<lparr>wd_now = t, wd_store = s, wd_limbo = L, wd_uuids = U, wd_log = lg, wd_local = l, wd_prog = p\<rparr> = (t, s, U, p 1, p 2)"
  by (simp add: token_brief_def)

lemmas token_run = token_run_defs sample_keys sample_env_simps fresh_def mem_write_def map_write_def numeral_eq_Suc token_brief_literal

lemma issued_brief:
  "token_brief sample_issued = (0, sample_store, {sample_id, lit ''s''}, token_program sample_env (sample_requests 1), token_program sample_env (sample_requests 2))"
proof -
  have "sample_id \<noteq> lit ''s''" by (simp add: sample_id_def lit_def)
  then show ?thesis
    by (simp cong: lazy_tokens add: token_run sample_issued_def sample_requests_simps sample_world_def memoryStorage_def sample_store_def)
qed

lemma revoked_brief:
  "token_brief sample_revoked = (0, sample_later, {lit ''v'', sample_id, lit ''s''}, Ret (Slot_Shown (revoked_view sample_env (lit ''bot'') (toISOString 0) (lit ''v''))),
     token_program sample_env (sample_requests 2))"
proof -
  have w: "wd_now sample_issued = 0" "wd_store sample_issued = sample_store" "wd_uuids sample_issued = {sample_id, lit ''s''}"
    "wd_prog sample_issued (Suc (Suc 0)) = token_program sample_env (sample_requests (Suc (Suc 0)))"
    using issued_brief by (simp_all add: token_brief_def numeral_eq_Suc)
  have "lit ''v'' \<noteq> sample_id" "lit ''v'' \<noteq> lit ''s''" by (simp_all add: sample_id_def lit_def)
  then show ?thesis
    by (simp cong: lazy_tokens add: token_run w sample_revoked_def sample_requests_simps sample_slot sample_store_def sample_later_def token_brief_def)
qed

lemma sample_facts:
  "current_token sample_env (stored_tokens sample_issued) (TOKEN_PREFIX @ lit ''s'') (lit ''bot'') sample_id"
  "\<not> slot_names sample_env (stored_tokens sample_revoked) (lit ''bot'') sample_id"
proof -
  have w: "wd_now sample_issued = 0" "wd_store sample_issued = sample_store" "wd_now sample_revoked = 0" "wd_store sample_revoked = sample_later"
    using issued_brief revoked_brief by (simp_all add: token_brief_def)
  have view: "stored_tokens sample_issued (record_key sample_id) = Some (record_text sample_id (lit ''bot'') (TOKEN_PREFIX @ lit ''s'')
        (take 12 (TOKEN_PREFIX @ lit ''s'')) (toISOString 0) (lit ''op''))"
    "stored_tokens sample_issued (slot_key (lit ''bot'')) = Some (issued_text (lit ''bot'') sample_id (toISOString 0))"
    "stored_tokens sample_revoked (slot_key (lit ''bot'')) = Some (revokedSlot (lit ''bot'') (toISOString 0) (lit ''v''))"
    by (simp_all add: stored_tokens_def token_contents_def w mem_view_def alive_def live_def Memory_Storage.contents_def sample_store_def sample_later_def)
  show "current_token sample_env (stored_tokens sample_issued) (TOKEN_PREFIX @ lit ''s'') (lit ''bot'') sample_id"
    using view(1, 2) sample_slot by (simp add: current_token_def slot_names_def names_id_def sample_env_simps)
  show "\<not> slot_names sample_env (stored_tokens sample_revoked) (lit ''bot'') sample_id"
    using view(3) by (simp add: slot_names_def revoked_names)
qed

lemma sample_presents: "presents sample_header (TOKEN_PREFIX @ lit ''s'')"
proof -
  have "authorizationCredential sample_header = Bearer_Credential (TOKEN_PREFIX @ lit ''s'')" by code_simp
  then show ?thesis by (simp add: presents_def)
qed

lemma run_reaches:
  assumes "reachable I (flow_step mem_act f) w" "wd_prog w i = p"
  shows "reachable I (flow_step mem_act f) (run_alone i a p us w)"
  by (rule run_alone_reaches) (use assms in \<open>simp add: fun_upd_idem\<close>)

text \<open>The revoked token is refused.\<close>

theorem retired_token_refused_witness:
  "current_token sample_env (stored_tokens sample_issued) (TOKEN_PREFIX @ lit ''s'') (lit ''bot'') sample_id \<and>
   \<not> slot_names sample_env (stored_tokens sample_revoked) (lit ''bot'') sample_id \<and>
   wd_prog sample_refused 2 \<noteq> Ret (Answer (Admitted (agentSubjectId (lit ''bot'')) (lit ''bot'')))"
proof -
  have one: "wd_prog sample_issued 1 = token_program sample_env (sample_requests 1)"
    and two: "wd_prog sample_revoked 2 = token_program sample_env (sample_requests 2)"
    using issued_brief revoked_brief by (simp_all add: token_brief_def)
  have r1: "reachable (tokens_start sample_env sample_requests) (flow_step mem_act beside_tokens) sample_issued"
    unfolding sample_issued_def using sample_start by (intro run_reaches reachable.start) (simp_all add: sample_world_def)
  have r2: "reachable (\<lambda>w. w = sample_issued) (flow_step mem_act beside_tokens) sample_revoked"
    unfolding sample_revoked_def using one by (intro run_reaches reachable.start) simp_all
  have r3: "reachable (\<lambda>w. w = sample_revoked) (flow_step mem_act beside_tokens) sample_refused"
    unfolding sample_refused_def using two by (intro run_reaches reachable.start) simp_all
  have "wd_prog sample_revoked 2 = token_program sample_env (Authorize sample_header)" using two by (simp add: sample_requests_def)
  from retired_token_refused [OF r1 sample_facts(1) r2 sample_facts(2) this sample_presents r3] sample_facts show ?thesis by blast
qed

end
