(* ===== verification/Argument_Redaction.thy ===== *)
theory Argument_Redaction
  imports Json_Text Url_Safety "HOL-Library.List_Lexorder"
begin

text \<open>
  Which parts of a call's arguments a tool's schema marks as private, and what is shown of the arguments where a failure
  echoes them (\<^verbatim>\<open>argument-redaction.ts\<close>): the compilation of a JSON schema to a plan of what to omit,
  its bounds and everything it refuses to decide, the application of a plan, and the two entry points. A schema is a
  JSON value, so that an object of it is known by its pointer from the root. What throws in the code is caught by the
  entry points and is \<open>None\<close> here. The lemmas show that a plan omits exactly the private positions, that an echo does not
  depend on a private value, and that every private value is visited.
\<close>

section \<open>Plans\<close>

text \<open>A plan omits a value, or it has plans for properties, for the first items and for the other items.\<close>

datatype plan = Omit | Plan "(jstr \<times> plan) list" "plan list" "plan option"

definition PUBLIC :: plan where
  "PUBLIC = Plan [] [] None"

definition sensitive :: "plan \<Rightarrow> bool" where
  "sensitive p \<longleftrightarrow> p \<noteq> PUBLIC"

fun plan_properties :: "plan \<Rightarrow> (jstr \<times> plan) list" where
  "plan_properties Omit = []"
| "plan_properties (Plan ps xs it) = ps"

fun plan_prefix :: "plan \<Rightarrow> plan list" where
  "plan_prefix Omit = []"
| "plan_prefix (Plan ps xs it) = xs"

fun plan_items :: "plan \<Rightarrow> plan" where
  "plan_items Omit = PUBLIC"
| "plan_items (Plan ps xs it) = (case it of Some p \<Rightarrow> p | None \<Rightarrow> PUBLIC)"

definition plan_item :: "plan \<Rightarrow> nat \<Rightarrow> plan" where
  "plan_item p i = (if i < length (plan_prefix p) then plan_prefix p ! i else plan_items p)"

definition plan_property :: "plan \<Rightarrow> jstr \<Rightarrow> plan" where
  "plan_property p n = (case map_of (plan_properties p) n of Some q \<Rightarrow> q | None \<Rightarrow> PUBLIC)"

text \<open>The loop that drops trailing plans that say no more than the one for the other items.\<close>

definition drop_tail :: "plan \<Rightarrow> plan list \<Rightarrow> plan list" where
  "drop_tail items prefix = rev (dropWhile (\<lambda>p. p = items) (rev prefix))"

definition merged_items :: "(plan \<Rightarrow> plan \<Rightarrow> plan) \<Rightarrow> plan \<Rightarrow> plan \<Rightarrow> plan" where
  "merged_items m l r = (if \<not> sensitive l then r else if \<not> sensitive r then l else m l r)"

lemma merged_items_cong [fundef_cong]:
  "l = l' \<Longrightarrow> r = r' \<Longrightarrow> (sensitive l' \<Longrightarrow> sensitive r' \<Longrightarrow> m l' r' = m' l' r') \<Longrightarrow> merged_items m l r = merged_items m' l' r'"
  by (simp add: merged_items_def)

definition all_names :: "plan \<Rightarrow> plan \<Rightarrow> jstr list" where
  "all_names l r = sort (remdups (map fst (plan_properties l) @ map fst (plan_properties r)))"

lemma plan_sizes:
  "(n, p) \<in> set ps \<Longrightarrow> size p < size (Plan ps xs it)"
  "p \<in> set xs \<Longrightarrow> size p < size (Plan ps xs it)"
  "size p < size (Plan ps xs (Some p))"
  "size PUBLIC \<le> size (Plan ps xs it)"
proof -
  show "size p < size (Plan ps xs it)" if "(n, p) \<in> set ps"
    using size_list_estimation' [OF that, of "size p" "size_prod (\<lambda>_. 0) size"] by simp
  show "size p < size (Plan ps xs it)" if "p \<in> set xs"
    using size_list_estimation' [OF that, of "size p" size] by simp
  show "size p < size (Plan ps xs (Some p))" by simp
  show "size PUBLIC \<le> size (Plan ps xs it)" by (cases it) (simp_all add: PUBLIC_def)
qed

lemma property_smaller: "map_of (plan_properties p) n = Some q \<Longrightarrow> size q < size p"
  by (cases p) (auto dest!: map_of_SomeD intro!: plan_sizes(1) simp del: plan.size)

lemma property_size:
  assumes "p \<noteq> Omit"
  shows "size (plan_property p n) \<le> size p" "n \<in> fst ` set (plan_properties p) \<Longrightarrow> size (plan_property p n) < size p"
proof -
  have "size PUBLIC \<le> size p" using assms by (cases p) (simp_all add: plan_sizes(4) del: plan.size)
  then show "size (plan_property p n) \<le> size p"
    using property_smaller [of p n] by (auto simp: plan_property_def split: option.split intro: less_imp_le)
  assume "n \<in> fst ` set (plan_properties p)"
  then obtain q where "map_of (plan_properties p) n = Some q" by (metis map_of_eq_None_iff not_None_eq)
  then show "size (plan_property p n) < size p" using property_smaller by (simp add: plan_property_def)
qed

lemma items_size: "sensitive (plan_items p) \<Longrightarrow> size (plan_items p) < size p"
  by (cases p) (auto simp: sensitive_def PUBLIC_def split: option.splits)

lemma item_size: "sensitive (plan_item p i) \<Longrightarrow> size (plan_item p i) < size p"
proof (cases "i < length (plan_prefix p)")
  case True
  then have "plan_item p i \<in> set (plan_prefix p)" by (simp add: plan_item_def)
  then show ?thesis by (cases p) (simp_all add: plan_sizes(2) del: plan.size)
qed (simp add: plan_item_def items_size)

function merge :: "plan \<Rightarrow> plan \<Rightarrow> plan" where
  "merge l r =
     (if l = Omit \<or> r = Omit then Omit
      else
        let properties = map (\<lambda>n. (n, merge (plan_property l n) (plan_property r n))) (all_names l r);
            items = merged_items merge (plan_items l) (plan_items r);
            prefix = map (\<lambda>i. merged_items merge (plan_item l i) (plan_item r i))
              [0..<max (length (plan_prefix l)) (length (plan_prefix r))]
        in Plan properties (drop_tail items prefix) (if sensitive items then Some items else None))"
  by pat_completeness auto

termination merge
proof (relation "measure (\<lambda>(l, r). size l + size r)", goal_cases)
  case (2 l r n)
  then have "n \<in> fst ` set (plan_properties l) \<or> n \<in> fst ` set (plan_properties r)" by (auto simp: all_names_def)
  moreover have "size (plan_property l n) \<le> size l" "size (plan_property r n) \<le> size r" using 2 by (simp_all add: property_size)
  ultimately have "size (plan_property l n) + size (plan_property r n) < size l + size r"
    using 2 property_size(2) [of l n] property_size(2) [of r n] by linarith
  then show ?case by simp
qed (auto intro: add_strict_mono item_size items_size)

declare merge.simps [simp del]

section \<open>Compilation\<close>

text \<open>\<^verbatim>\<open>MAX_DEPTH\<close> and \<^verbatim>\<open>MAX_SCHEMAS\<close>.\<close>

definition MAX_DEPTH :: nat where
  "MAX_DEPTH = 32"

definition MAX_SCHEMAS :: nat where
  "MAX_SCHEMAS = 2048"

text \<open>A compiler counts the schemas it visits; it gives nothing where the code throws.\<close>

type_synonym 'a compiler = "nat \<Rightarrow> ('a \<times> nat) option"

definition unresolved :: "'a compiler" where
  "unresolved v = None"

definition compiled :: "'a \<Rightarrow> 'a compiler" where
  "compiled x v = Some (x, v)"

definition and_then :: "'a compiler \<Rightarrow> ('a \<Rightarrow> 'b compiler) \<Rightarrow> 'b compiler" where
  "and_then c f v = (case c v of None \<Rightarrow> None | Some (x, w) \<Rightarrow> f x w)"

primrec each :: "('a \<Rightarrow> 'b compiler) \<Rightarrow> 'a list \<Rightarrow> 'b list compiler" where
  "each f [] = compiled []"
| "each f (x # xs) = and_then (f x) (\<lambda>y. and_then (each f xs) (\<lambda>ys. compiled (y # ys)))"

primrec folded :: "('a \<Rightarrow> 's \<Rightarrow> 's compiler) \<Rightarrow> 'a list \<Rightarrow> 's \<Rightarrow> 's compiler" where
  "folded f [] s = compiled s"
| "folded f (x # xs) s = and_then (f x s) (folded f xs)"

text \<open>\<^verbatim>\<open>decodeURIComponent\<close>: escapes of well-formed UTF-8 only.\<close>

primrec percent_bytes :: "nat \<Rightarrow> jstr \<Rightarrow> (nat list \<times> jstr) option" where
  "percent_bytes 0 s = Some ([], s)"
| "percent_bytes (Suc n) s =
     (case s of
        c # a # b # r \<Rightarrow>
          (if c \<noteq> 0x25 then None
           else case (hex_of a, hex_of b) of
             (Some x, Some y) \<Rightarrow> map_option (\<lambda>(bs, rest). ((x * 16 + y) # bs, rest)) (percent_bytes n r)
           | _ \<Rightarrow> None)
      | _ \<Rightarrow> None)"

definition lead_length :: "nat \<Rightarrow> nat" where
  "lead_length b = (if b < 0x80 then 1 else if b < 0xe0 then 2 else if b < 0xf0 then 3 else 4)"

definition percent_character :: "jstr \<Rightarrow> (jstr \<times> jstr) option" where
  "percent_character s =
     (case percent_bytes 1 s of
        Some (b # _, _) \<Rightarrow>
          (case percent_bytes (lead_length b) s of
             Some (bs, rest) \<Rightarrow>
               if utf8 (decode_bytes bs) = bs then Some (decode_bytes bs, rest) else None
           | None \<Rightarrow> None)
      | _ \<Rightarrow> None)"

lemma percent_bytes_shorter: "percent_bytes n s = Some (bs, rest) \<Longrightarrow> length rest + n \<le> length s"
  by (induction n arbitrary: s bs) (fastforce split: list.splits if_splits option.splits)+

lemma percent_character_shorter: "percent_character s = Some (t, rest) \<Longrightarrow> length rest < length s"
  by (auto simp: percent_character_def lead_length_def dest!: percent_bytes_shorter split: option.splits list.splits if_splits)

function decodeURIComponent :: "jstr \<Rightarrow> jstr option" where
  "decodeURIComponent s =
     (case s of
        [] \<Rightarrow> Some []
      | c # r \<Rightarrow>
          if c \<noteq> 0x25 then map_option ((#) c) (decodeURIComponent r)
          else (case percent_character s of
              None \<Rightarrow> None | Some (t, rest) \<Rightarrow> map_option ((@) t) (decodeURIComponent rest)))"
  by pat_completeness auto

termination decodeURIComponent
  by (relation "measure length") (auto dest: percent_character_shorter)

declare decodeURIComponent.simps [simp del]

text \<open>The tokens of a pointer: an escape other than \<^verbatim>\<open>~0\<close> and \<^verbatim>\<open>~1\<close> is refused.\<close>

fun bad_escape :: "jstr \<Rightarrow> bool" where
  "bad_escape [] = False"
| "bad_escape [c] = (c = 0x7e)"
| "bad_escape (c # d # cs) = (c = 0x7e \<and> d \<noteq> 0x30 \<and> d \<noteq> 0x31 \<or> bad_escape (d # cs))"

fun replace_escape :: "code_unit \<Rightarrow> code_unit \<Rightarrow> jstr \<Rightarrow> jstr" where
  "replace_escape e u (c # d # cs) = (if c = 0x7e \<and> d = e then u # replace_escape e u cs else c # replace_escape e u (d # cs))"
| "replace_escape e u s = s"

definition unescaped :: "jstr \<Rightarrow> jstr" where
  "unescaped s = replace_escape 0x30 0x7e (replace_escape 0x31 0x2f s)"

text \<open>An object's own property, and an array's elements and length.\<close>

fun own_member :: "json \<Rightarrow> jstr \<Rightarrow> json option" where
  "own_member (J_Obj es) k = map_of es k"
| "own_member (J_Arr xs) k =
     (if k = lit ''length'' then Some (J_Num (decimal (length xs))) else map_of (zip (map decimal [0..<length xs]) xs) k)"
| "own_member _ k = None"

text \<open>A schema is known by its pointer, the names that lead to it from the root.\<close>

type_synonym schema_at = "jstr list \<times> json"

primrec follow_pointer :: "jstr list \<Rightarrow> schema_at \<Rightarrow> schema_at option" where
  "follow_pointer [] n = Some n"
| "follow_pointer (t # ts) n =
     (if bad_escape t then None
      else case own_member (snd n) (unescaped t) of
        None \<Rightarrow> None | Some v \<Rightarrow> follow_pointer ts (fst n @ [unescaped t], v))"

definition reference :: "json \<Rightarrow> json \<Rightarrow> schema_at option" where
  "reference whole ref =
     (case ref of
        J_Str (c # r) \<Rightarrow>
          if c \<noteq> 0x23 then None
          else (case decodeURIComponent r of
              None \<Rightarrow> None
            | Some [] \<Rightarrow> Some ([], whole)
            | Some (d # p) \<Rightarrow> if d \<noteq> 0x2f then None else follow_pointer (split_unit 0x2f p) ([], whole))
      | _ \<Rightarrow> None)"

text \<open>The children of an object of the schema, each with its own pointer.\<close>

definition member :: "schema_at \<Rightarrow> string \<Rightarrow> json option" where
  "member n k = (case snd n of J_Obj es \<Rightarrow> map_of es (lit k) | _ \<Rightarrow> None)"

definition in_member :: "schema_at \<Rightarrow> string \<Rightarrow> json \<Rightarrow> schema_at" where
  "in_member n k v = (fst n @ [lit k], v)"

definition elements :: "schema_at \<Rightarrow> json list \<Rightarrow> schema_at list" where
  "elements n xs = map (\<lambda>(i, x). (fst n @ [decimal i], x)) (enumerate 0 xs)"

definition entries :: "schema_at \<Rightarrow> (jstr \<times> json) list \<Rightarrow> (jstr \<times> schema_at) list" where
  "entries n ps = map (\<lambda>k. (k, (fst n @ [k], the (map_of ps k)))) (remdups (map fst ps))"

definition reference_step :: "(schema_at \<Rightarrow> plan compiler) \<Rightarrow> json \<Rightarrow> schema_at \<Rightarrow> plan \<Rightarrow> plan compiler" where
  "reference_step child whole n p =
     (case member n ''$ref'' of
        None \<Rightarrow> compiled p
      | Some ref \<Rightarrow>
          (case reference whole ref of
             None \<Rightarrow> unresolved
           | Some t \<Rightarrow> and_then (child t) (\<lambda>q. compiled (merge p q))))"

definition properties_step :: "(schema_at \<Rightarrow> plan compiler) \<Rightarrow> schema_at \<Rightarrow> plan \<Rightarrow> plan compiler" where
  "properties_step child n p =
     (case member n ''properties'' of
        None \<Rightarrow> compiled p
      | Some (J_Obj ps) \<Rightarrow>
          and_then (each (\<lambda>(k, t). and_then (child t) (\<lambda>q. compiled (k, q))) (entries (in_member n ''properties'' (J_Obj ps)) ps))
            (\<lambda>qs. compiled (merge p (Plan (filter (\<lambda>(k, q). sensitive q) qs) [] None)))
      | Some _ \<Rightarrow> unresolved)"

text \<open>The schemas of the first items, and of the others: \<^verbatim>\<open>prefixItems\<close>, or \<^verbatim>\<open>items\<close> as an array.\<close>

fun is_array :: "json option \<Rightarrow> bool" where
  "is_array (Some (J_Arr xs)) = True"
| "is_array _ = False"

definition prefixes :: "schema_at \<Rightarrow> schema_at option" where
  "prefixes n =
     (case member n ''prefixItems'' of
        Some v \<Rightarrow>
          if v \<noteq> J_Null then Some (in_member n ''prefixItems'' v)
          else if is_array (member n ''items'') then map_option (in_member n ''items'') (member n ''items'') else None
      | None \<Rightarrow> if is_array (member n ''items'') then map_option (in_member n ''items'') (member n ''items'') else None)"

definition other_items :: "schema_at \<Rightarrow> schema_at option" where
  "other_items n =
     (if is_array (member n ''items'') then map_option (in_member n ''additionalItems'') (member n ''additionalItems'')
      else map_option (in_member n ''items'') (member n ''items''))"

definition array_step :: "(schema_at \<Rightarrow> plan compiler) \<Rightarrow> schema_at \<Rightarrow> plan \<Rightarrow> plan compiler" where
  "array_step child n p =
     (if (case prefixes n of None \<Rightarrow> False | Some t \<Rightarrow> \<not> is_array (Some (snd t))) then unresolved
      else if member n ''prefixItems'' \<noteq> None \<and> is_array (member n ''items'') then unresolved
      else
        and_then (case prefixes n of Some (ptr, J_Arr xs) \<Rightarrow> each child (elements (ptr, J_Arr xs) xs) | _ \<Rightarrow> compiled []) (\<lambda>first.
        and_then (case other_items n of Some t \<Rightarrow> and_then (child t) (\<lambda>q. compiled (Some q)) | None \<Rightarrow> compiled None) (\<lambda>others.
        compiled (merge p (Plan [] first others)))))"

text \<open>Alternatives: all of them restrict, or they must agree.\<close>

definition branch_step :: "(schema_at \<Rightarrow> plan compiler) \<Rightarrow> bool \<Rightarrow> schema_at \<Rightarrow> string \<Rightarrow> plan \<Rightarrow> plan compiler" where
  "branch_step child unionAlternatives n keyword p =
     (case member n keyword of
        None \<Rightarrow> compiled p
      | Some (J_Arr xs) \<Rightarrow>
          if xs = [] then unresolved
          else
            and_then (each child (elements (in_member n keyword (J_Arr xs)) xs)) (\<lambda>plans.
            if keyword = ''allOf'' \<or> unionAlternatives then compiled (fold (\<lambda>branch p. merge p branch) plans p)
            else if \<exists>branch \<in> set plans. branch \<noteq> hd plans then unresolved
            else compiled (merge p (hd plans)))
      | Some _ \<Rightarrow> unresolved)"

text \<open>Applicators whose matching the code does not implement must not be sensitive.\<close>

definition refuse_sensitive :: "(schema_at \<Rightarrow> plan compiler) \<Rightarrow> schema_at \<Rightarrow> unit compiler" where
  "refuse_sensitive child t = and_then (child t) (\<lambda>q. if sensitive q then unresolved else compiled ())"

definition single_keywords :: "string list" where
  "single_keywords =
     [''additionalProperties'', ''unevaluatedProperties'', ''unevaluatedItems'', ''contains'', ''not'', ''if'', ''then'', ''else'']"

definition map_keywords :: "string list" where
  "map_keywords = [''patternProperties'', ''dependentSchemas'', ''dependencies'']"

definition single_step :: "(schema_at \<Rightarrow> plan compiler) \<Rightarrow> schema_at \<Rightarrow> string \<Rightarrow> plan \<Rightarrow> plan compiler" where
  "single_step child n keyword p =
     (case member n keyword of
        None \<Rightarrow> compiled p
      | Some t \<Rightarrow> and_then (refuse_sensitive child (in_member n keyword t)) (\<lambda>_. compiled p))"

definition map_step :: "(schema_at \<Rightarrow> plan compiler) \<Rightarrow> schema_at \<Rightarrow> string \<Rightarrow> plan \<Rightarrow> plan compiler" where
  "map_step child n keyword p =
     (case member n keyword of
        None \<Rightarrow> compiled p
      | Some (J_Obj ps) \<Rightarrow>
          and_then (each (\<lambda>(k, t). if keyword = ''dependencies'' \<and> is_array (Some (snd t)) then compiled () else refuse_sensitive child t)
            (entries (in_member n keyword (J_Obj ps)) ps)) (\<lambda>_. compiled p)
      | Some _ \<Rightarrow> unresolved)"

definition object_plan :: "(schema_at \<Rightarrow> plan compiler) \<Rightarrow> bool \<Rightarrow> json \<Rightarrow> schema_at \<Rightarrow> plan compiler" where
  "object_plan child unionAlternatives whole n =
     and_then (reference_step child whole n PUBLIC) (\<lambda>p.
     and_then (properties_step child n p) (\<lambda>p.
     and_then (array_step child n p) (\<lambda>p.
     and_then (folded (branch_step child unionAlternatives n) [''allOf'', ''oneOf'', ''anyOf''] p) (\<lambda>p.
     and_then (folded (single_step child n) single_keywords p) (folded (map_step child n) map_keywords)))))"

text \<open>
  \<^verbatim>\<open>walk\<close>: \<open>left\<close> is the depth still allowed, one more than \<open>MAX_DEPTH - depth\<close>; \<open>active\<close> holds the pointers of
  the objects whose compilation has begun and not ended.
\<close>

primrec walk :: "nat \<Rightarrow> bool \<Rightarrow> json \<Rightarrow> jstr list list \<Rightarrow> schema_at \<Rightarrow> plan compiler" where
  "walk 0 unionAlternatives whole active n = unresolved"
| "walk (Suc left) unionAlternatives whole active n =
     (\<lambda>visited.
        if MAX_SCHEMAS < Suc visited then None
        else (case snd n of
            J_Bool _ \<Rightarrow> compiled PUBLIC
          | J_Obj _ \<Rightarrow>
              if fst n \<in> set active then unresolved
              else (case member n ''writeOnly'' of
                  Some (J_Bool True) \<Rightarrow> compiled Omit
                | Some (J_Bool False) \<Rightarrow>
                    if (fst n \<noteq> [] \<and> member n ''$id'' \<noteq> None) \<or> member n ''$dynamicRef'' \<noteq> None \<or> member n ''$recursiveRef'' \<noteq> None
                    then unresolved else object_plan (walk left unionAlternatives whole (fst n # active)) unionAlternatives whole n
                | None \<Rightarrow>
                    if (fst n \<noteq> [] \<and> member n ''$id'' \<noteq> None) \<or> member n ''$dynamicRef'' \<noteq> None \<or> member n ''$recursiveRef'' \<noteq> None
                    then unresolved else object_plan (walk left unionAlternatives whole (fst n # active)) unionAlternatives whole n
                | Some _ \<Rightarrow> unresolved)
          | _ \<Rightarrow> unresolved) (Suc visited))"

definition compile :: "json \<Rightarrow> bool \<Rightarrow> plan option" where
  "compile whole unionAlternatives = map_option fst (walk (Suc MAX_DEPTH) unionAlternatives whole [] ([], whole) 0)"

section \<open>Application\<close>

text \<open>The values marked, and what is left: nothing where the code throws, \<open>Some None\<close> where the value is omitted.\<close>

primrec apply_each :: "('a \<Rightarrow> json list \<times> 'b option) \<Rightarrow> 'a list \<Rightarrow> json list \<times> 'b list option" where
  "apply_each f [] = ([], Some [])"
| "apply_each f (x # xs) =
     (case f x of
        (ms, None) \<Rightarrow> (ms, None)
      | (ms, Some y) \<Rightarrow> (case apply_each f xs of (ns, r) \<Rightarrow> (ms @ ns, map_option ((#) y) r)))"

definition kept_array :: "json option list \<Rightarrow> json option" where
  "kept_array rs = (if None \<in> set rs then None else Some (J_Arr (map the rs)))"

definition kept_object :: "(jstr \<times> json option) list \<Rightarrow> json option" where
  "kept_object rs = Some (J_Obj (List.map_filter (\<lambda>(k, r). map_option (Pair k) r) rs))"

primrec apply_plan :: "nat \<Rightarrow> plan \<Rightarrow> json \<Rightarrow> json list \<times> json option option" where
  "apply_plan 0 p v = (if \<not> sensitive p then ([], Some (Some v)) else ([], None))"
| "apply_plan (Suc left) p v =
     (if \<not> sensitive p then ([], Some (Some v))
      else if p = Omit then ([v], Some None)
      else case v of
        J_Arr xs \<Rightarrow>
          (case apply_each (\<lambda>(i, x). apply_plan left (plan_item p i) x) (enumerate 0 xs) of
             (ms, r) \<Rightarrow> (ms, map_option kept_array r))
      | J_Obj es \<Rightarrow>
          (case apply_each (\<lambda>(k, x). case apply_plan left (plan_property p k) x of (ms, r) \<Rightarrow> (ms, map_option (Pair k) r)) es of
             (ms, r) \<Rightarrow> (ms, map_option kept_object r))
      | _ \<Rightarrow> ([], Some (Some v)))"

section \<open>The two entry points\<close>

text \<open>What is shown of the arguments, and whether anything was left out.\<close>

definition redactCallArguments :: "json \<Rightarrow> json \<Rightarrow> json option \<times> bool" where
  "redactCallArguments args schema =
     (case compile schema False of
        None \<Rightarrow> (None, True)
      | Some p \<Rightarrow> (case apply_plan (Suc MAX_DEPTH) p args of (ms, None) \<Rightarrow> (None, True) | (ms, Some r) \<Rightarrow> (r, ms \<noteq> [])))"

text \<open>The search for a private annotation, over a stack of values.\<close>

function private_schema :: "json list \<Rightarrow> bool" where
  "private_schema [] = False"
| "private_schema (v # pending) =
     (case v of
        J_Arr xs \<Rightarrow> private_schema (rev xs @ pending)
      | J_Obj es \<Rightarrow> map_of es (lit ''writeOnly'') = Some (J_Bool True) \<or> private_schema (rev (map snd es) @ pending)
      | _ \<Rightarrow> private_schema pending)"
  by pat_completeness auto

lemma stack_size: "size_list f (rev xs) = size_list f xs"
  by (induction xs) (simp_all add: size_list_append)

lemma values_size: "size_list (size \<circ> snd) (es :: (jstr \<times> json) list) \<le> size_list (size_prod (\<lambda>_. 0) size) es"
  by (induction es) auto

termination private_schema
  by (relation "measure (size_list size)") (auto simp: size_list_append stack_size intro: le_less_trans [OF values_size])

text \<open>The values visited, in order.\<close>

definition visitPrivateCallArguments :: "json \<Rightarrow> json \<Rightarrow> json list" where
  "visitPrivateCallArguments args schema =
     (if \<not> private_schema [schema] then []
      else case compile schema True of
        None \<Rightarrow> [args]
      | Some p \<Rightarrow> (case apply_plan (Suc MAX_DEPTH) p args of (ms, None) \<Rightarrow> ms @ [args] | (ms, Some _) \<Rightarrow> ms))"

section \<open>Private positions\<close>

text \<open>A position inside a value, and the positions a schema marks as private, with everything below them.\<close>

datatype place = At_Key jstr | At_Index nat

inductive private_at :: "json \<Rightarrow> schema_at \<Rightarrow> place list \<Rightarrow> bool" for whole :: json where
  marked: "member n ''writeOnly'' = Some (J_Bool True) \<Longrightarrow> private_at whole n p"
| referenced: "member n ''$ref'' = Some r \<Longrightarrow> reference whole r = Some t \<Longrightarrow> private_at whole t p \<Longrightarrow> private_at whole n p"
| in_property: "member n ''properties'' = Some (J_Obj ps) \<Longrightarrow> map_of (entries (in_member n ''properties'' (J_Obj ps)) ps) k = Some t \<Longrightarrow>
    private_at whole t p \<Longrightarrow> private_at whole n (At_Key k # p)"
| in_prefix: "prefixes n = Some (ptr, J_Arr xs) \<Longrightarrow> i < length xs \<Longrightarrow> private_at whole (elements (ptr, J_Arr xs) xs ! i) p \<Longrightarrow>
    private_at whole n (At_Index i # p)"
| in_items: "other_items n = Some t \<Longrightarrow> (\<And>ptr xs. prefixes n = Some (ptr, J_Arr xs) \<Longrightarrow> length xs \<le> i) \<Longrightarrow> private_at whole t p \<Longrightarrow>
    private_at whole n (At_Index i # p)"
| in_branch: "k \<in> {''allOf'', ''oneOf'', ''anyOf''} \<Longrightarrow> member n k = Some (J_Arr xs) \<Longrightarrow>
    t \<in> set (elements (in_member n k (J_Arr xs)) xs) \<Longrightarrow> private_at whole t p \<Longrightarrow> private_at whole n p"
| in_other_property: "k \<in> {''additionalProperties'', ''unevaluatedProperties''} \<Longrightarrow> member n k = Some t \<Longrightarrow>
    private_at whole (in_member n k t) p \<Longrightarrow> private_at whole n (At_Key f # p)"
| in_other_item: "k \<in> {''unevaluatedItems'', ''contains''} \<Longrightarrow> member n k = Some t \<Longrightarrow>
    private_at whole (in_member n k t) p \<Longrightarrow> private_at whole n (At_Index i # p)"
| in_condition: "k \<in> {''not'', ''if'', ''then'', ''else''} \<Longrightarrow> member n k = Some t \<Longrightarrow> private_at whole (in_member n k t) p \<Longrightarrow> private_at whole n p"
| in_pattern: "member n ''patternProperties'' = Some (J_Obj ps) \<Longrightarrow>
    (k, t) \<in> set (entries (in_member n ''patternProperties'' (J_Obj ps)) ps) \<Longrightarrow> private_at whole t p \<Longrightarrow> private_at whole n (At_Key f # p)"
| in_dependent: "k \<in> {''dependentSchemas'', ''dependencies''} \<Longrightarrow> member n k = Some (J_Obj ps) \<Longrightarrow>
    (d, t) \<in> set (entries (in_member n k (J_Obj ps)) ps) \<Longrightarrow> private_at whole t p \<Longrightarrow> private_at whole n p"

section \<open>What a plan covers\<close>

fun covers :: "plan \<Rightarrow> place list \<Rightarrow> bool" where
  "covers Omit p = True"
| "covers (Plan ps xs it) [] = False"
| "covers (Plan ps xs it) (At_Key k # p) = covers (plan_property (Plan ps xs it) k) p"
| "covers (Plan ps xs it) (At_Index i # p) = covers (plan_item (Plan ps xs it) i) p"

lemma plan_parts:
  "p \<noteq> Omit \<Longrightarrow> covers p [] = False" "p \<noteq> Omit \<Longrightarrow> covers p (At_Key k # x) = covers (plan_property p k) x"
  "p \<noteq> Omit \<Longrightarrow> covers p (At_Index i # x) = covers (plan_item p i) x"
  by (cases p; simp)+

lemma PUBLIC_parts: "PUBLIC \<noteq> Omit" "plan_property PUBLIC k = PUBLIC" "plan_item PUBLIC i = PUBLIC" "plan_items PUBLIC = PUBLIC"
  by (simp_all add: PUBLIC_def plan_property_def plan_item_def)

lemma covers_PUBLIC [simp]: "\<not> covers PUBLIC p"
proof (induction p)
  case (Cons a p)
  then show ?case by (cases a) (simp_all add: plan_parts PUBLIC_parts)
qed (simp add: plan_parts PUBLIC_parts)

lemma not_sensitive: "\<not> sensitive p \<longleftrightarrow> p = PUBLIC" "\<not> sensitive PUBLIC" "sensitive Omit"
  by (auto simp: sensitive_def PUBLIC_def)

lemma drop_tail_item: "i < length xs \<Longrightarrow> (if i < length (drop_tail q xs) then drop_tail q xs ! i else q) = xs ! i"
  "length (drop_tail q xs) \<le> length xs"
proof -
  let ?k = "length (takeWhile (\<lambda>p. p = q) (rev xs))"
  have drop: "drop_tail q xs = take (length xs - ?k) xs" by (simp add: drop_tail_def dropWhile_eq_drop rev_drop)
  have k: "?k \<le> length xs" by (metis length_rev length_takeWhile_le)
  show "length (drop_tail q xs) \<le> length xs" by (simp add: drop)
  assume i: "i < length xs"
  have "xs ! i = q" if "length xs - ?k \<le> i"
  proof -
    let ?j = "length xs - Suc i"
    from that i have j: "?j < ?k" by linarith
    then have "takeWhile (\<lambda>p. p = q) (rev xs) ! ?j = q" using set_takeWhileD [OF nth_mem [OF j]] by simp
    moreover have "takeWhile (\<lambda>p. p = q) (rev xs) ! ?j = rev xs ! ?j" by (rule takeWhile_nth [OF j])
    moreover have "rev xs ! ?j = xs ! i" using i by (simp add: rev_nth Suc_diff_Suc)
    ultimately show ?thesis by simp
  qed
  then show "(if i < length (drop_tail q xs) then drop_tail q xs ! i else q) = xs ! i" using i by (auto simp: drop)
qed

lemma merge_Omit [simp]: "merge Omit r = Omit" "merge l Omit = Omit"
  by (subst merge.simps; simp)+

lemma merge_parts:
  assumes "l \<noteq> Omit" "r \<noteq> Omit"
  shows "merge l r \<noteq> Omit"
    and "plan_property (merge l r) k =
      (if k \<in> fst ` set (plan_properties l) \<union> fst ` set (plan_properties r) then merge (plan_property l k) (plan_property r k) else PUBLIC)"
    and "plan_item (merge l r) i = merged_items merge (plan_item l i) (plan_item r i)"
proof -
  let ?items = "merged_items merge (plan_items l) (plan_items r)"
  let ?prefix = "map (\<lambda>i. merged_items merge (plan_item l i) (plan_item r i)) [0..<max (length (plan_prefix l)) (length (plan_prefix r))]"
  have m: "merge l r = Plan (map (\<lambda>n. (n, merge (plan_property l n) (plan_property r n))) (all_names l r))
      (drop_tail ?items ?prefix) (if sensitive ?items then Some ?items else None)" (is "_ = Plan ?ps ?xs ?it")
    using assms by (subst merge.simps) (simp add: Let_def)
  then show "merge l r \<noteq> Omit" by simp
  have "map_of ?ps k = (if k \<in> set (all_names l r) then Some (merge (plan_property l k) (plan_property r k)) else None)"
    by (simp add: map_of_map_restrict restrict_map_def)
  then show "plan_property (merge l r) k =
      (if k \<in> fst ` set (plan_properties l) \<union> fst ` set (plan_properties r) then merge (plan_property l k) (plan_property r k) else PUBLIC)"
    unfolding m by (simp add: plan_property_def all_names_def)
  have items: "plan_items (merge l r) = ?items" unfolding m by (simp add: not_sensitive)
  have prefix: "plan_prefix (merge l r) = ?xs" unfolding m by simp
  show "plan_item (merge l r) i = merged_items merge (plan_item l i) (plan_item r i)"
  proof (cases "i < length ?prefix")
    case True
    have "plan_item (merge l r) i = ?prefix ! i"
      unfolding plan_item_def [of "merge l r"] items prefix by (rule drop_tail_item(1) [OF True])
    also have "\<dots> = merged_items merge (plan_item l i) (plan_item r i)" using True by simp
    finally show ?thesis .
  next
    case False
    then have "\<not> i < length ?xs" using drop_tail_item(2) [of ?items ?prefix] by linarith
    then have "plan_item (merge l r) i = ?items" unfolding plan_item_def [of "merge l r"] items prefix by (rule if_not_P)
    moreover have "length (plan_prefix l) \<le> i" "length (plan_prefix r) \<le> i" using False by simp_all
    then have "plan_item l i = plan_items l" "plan_item r i = plan_items r" by (simp_all add: plan_item_def)
    ultimately show ?thesis by simp
  qed
qed

lemma covers_merge [simp]: "covers (merge l r) p \<longleftrightarrow> covers l p \<or> covers r p"
proof (induction p arbitrary: l r)
  case Nil
  then show ?case by (cases "l = Omit \<or> r = Omit") (auto simp: plan_parts merge_parts)
next
  case (Cons a p)
  have merged: "covers (merged_items merge u v) p \<longleftrightarrow> covers u p \<or> covers v p" for u v
    using Cons by (auto simp: merged_items_def not_sensitive)
  have absent: "k \<notin> fst ` set (plan_properties u) \<Longrightarrow> plan_property u k = PUBLIC" for k u
    by (simp add: plan_property_def map_of_eq_None_iff [THEN iffD2])
  show ?case
  proof (cases "l = Omit \<or> r = Omit")
    case False
    then show ?thesis by (cases a) (auto simp: plan_parts merge_parts merged Cons dest!: absent)
  qed auto
qed

lemma covers_fold: "covers (fold (\<lambda>b p. merge p b) bs p) x \<longleftrightarrow> covers p x \<or> (\<exists>b \<in> set bs. covers b x)"
  by (induction bs arbitrary: p) auto

section \<open>A compiled plan covers exactly the private positions\<close>

definition gives :: "'a compiler \<Rightarrow> 'a \<Rightarrow> bool" where
  "gives c x \<longleftrightarrow> (\<exists>v w. c v = Some (x, w))"

lemma gives_simps [simp]: "gives (compiled x) y \<longleftrightarrow> y = x" "\<not> gives unresolved y"
  by (auto simp: gives_def compiled_def unresolved_def)

lemma gives_and_thenE:
  assumes "gives (and_then c f) y"
  obtains x where "gives c x" "gives (f x) y"
proof -
  from assms obtain v w x u where "c v = Some (x, u)" "f x u = Some (y, w)"
    by (auto simp: gives_def and_then_def split: option.splits)
  then show ?thesis using that unfolding gives_def by blast
qed

lemma gives_each: "gives (each f xs) ys \<Longrightarrow> list_all2 (\<lambda>x. gives (f x)) xs ys"
  by (induction xs arbitrary: ys) (auto elim!: gives_and_thenE)

lemma gives_folded:
  assumes "gives (folded f ks s) t" "\<And>k s t. k \<in> set ks \<Longrightarrow> gives (f k s) t \<Longrightarrow> covers t x \<longleftrightarrow> covers s x \<or> B k"
  shows "covers t x \<longleftrightarrow> covers s x \<or> (\<exists>k \<in> set ks. B k)"
  using assms
proof (induction ks arbitrary: s)
  case (Cons k ks)
  from Cons.prems(1) obtain u where u: "gives (f k s) u" "gives (folded f ks u) t" by (auto elim: gives_and_thenE)
  have "covers t x \<longleftrightarrow> covers u x \<or> (\<exists>k \<in> set ks. B k)" by (rule Cons.IH [OF u(2)]) (rule Cons.prems(2), auto)
  moreover have "covers u x \<longleftrightarrow> covers s x \<or> B k" by (rule Cons.prems(2) [OF _ u(1)]) simp
  ultimately show ?case by auto
qed simp

lemma gives_folded_each: "gives (folded f ks s) t \<Longrightarrow> k \<in> set ks \<Longrightarrow> \<exists>s t. gives (f k s) t"
  by (induction ks arbitrary: s) (auto elim!: gives_and_thenE)

definition exact :: "json \<Rightarrow> (schema_at \<Rightarrow> plan compiler) \<Rightarrow> bool" where
  "exact whole child \<longleftrightarrow> (\<forall>t q. gives (child t) q \<longrightarrow> covers q = private_at whole t)"

lemma exactD: "exact whole child \<Longrightarrow> gives (child t) q \<Longrightarrow> covers q x \<longleftrightarrow> private_at whole t x"
  by (metis exact_def)

lemma reference_covers:
  "exact whole child \<Longrightarrow> gives (reference_step child whole n p) q \<Longrightarrow>
   covers q x \<longleftrightarrow> covers p x \<or> (\<exists>r t. member n ''$ref'' = Some r \<and> reference whole r = Some t \<and> private_at whole t x)"
  by (auto simp: reference_step_def exactD split: option.splits elim!: gives_and_thenE)

lemma covers_properties: "covers (Plan ps [] None) x \<longleftrightarrow> (\<exists>k q y. map_of ps k = Some q \<and> x = At_Key k # y \<and> covers q y)"
proof (cases x)
  case (Cons a y)
  show ?thesis
  proof (cases a)
    case (At_Key k)
    then show ?thesis by (auto simp: Cons plan_property_def split: option.splits)
  next
    case (At_Index i)
    then show ?thesis by (simp add: Cons plan_item_def)
  qed
qed simp

lemma map_of_related:
  "list_all2 (\<lambda>(k, t) (l, q). l = k \<and> R t q) ps qs \<Longrightarrow>
   rel_option R (map_of ps k) (map_of qs k)"
  by (induction rule: list_all2_induct) auto

lemma map_of_filter_sensitive:
  assumes "distinct (map fst qs)"
  shows "map_of (filter (\<lambda>(k, q). sensitive q) qs) k = (case map_of qs k of Some q \<Rightarrow> if sensitive q then Some q else None | None \<Rightarrow> None)"
  using assms by (induction qs) (auto split: option.splits simp: map_of_eq_None_iff dest: map_of_SomeD intro: rev_image_eqI)

lemma entries_distinct: "distinct (map fst (entries n ps))"
  by (simp add: entries_def comp_def)

lemma properties_covers:
  assumes "exact whole child" "gives (properties_step child n p) q"
  shows "covers q x \<longleftrightarrow> covers p x \<or> (\<exists>ps k t y. member n ''properties'' = Some (J_Obj ps) \<and>
    map_of (entries (in_member n ''properties'' (J_Obj ps)) ps) k = Some t \<and> x = At_Key k # y \<and> private_at whole t y)"
proof (cases "member n ''properties''")
  case (Some v)
  with assms(2) obtain ps where ps: "v = J_Obj ps" by (cases v) (auto simp: properties_step_def)
  let ?es = "entries (in_member n ''properties'' (J_Obj ps)) ps"
  obtain qs where qs: "gives (each (\<lambda>(k, t). and_then (child t) (\<lambda>q. compiled (k, q))) ?es) qs"
    and q: "q = merge p (Plan (filter (\<lambda>(k, q). sensitive q) qs) [] None)"
    using assms(2) Some ps by (auto simp: properties_step_def elim!: gives_and_thenE)
  have rel: "list_all2 (\<lambda>(k, t) (l, q). l = k \<and> (\<forall>y. covers q y \<longleftrightarrow> private_at whole t y)) ?es qs"
    by (rule list_all2_mono [OF gives_each [OF qs]]) (auto simp: exactD [OF assms(1)] elim!: gives_and_thenE)
  then have "map fst qs = map fst ?es" by (induction rule: list_all2_induct) auto
  then have "distinct (map fst qs)" by (simp add: entries_distinct)
  note filter = map_of_filter_sensitive [OF this]
  have related: "rel_option (\<lambda>t q. \<forall>y. covers q y \<longleftrightarrow> private_at whole t y) (map_of ?es k) (map_of qs k)" for k by (rule map_of_related [OF rel])
  have "(\<exists>q. map_of (filter (\<lambda>(k, q). sensitive q) qs) k = Some q \<and> covers q y) \<longleftrightarrow> (\<exists>t. map_of ?es k = Some t \<and> private_at whole t y)" for k y
    using related [of k] by (cases "map_of ?es k"; cases "map_of qs k") (auto simp: filter not_sensitive)
  then have "covers (Plan (filter (\<lambda>(k, q). sensitive q) qs) [] None) x \<longleftrightarrow>
      (\<exists>k t y. map_of ?es k = Some t \<and> x = At_Key k # y \<and> private_at whole t y)"
    unfolding covers_properties by blast
  then show ?thesis by (simp add: q Some ps)
qed (use assms in \<open>simp add: properties_step_def\<close>)

lemma covers_array:
  "covers (Plan [] xs it) x \<longleftrightarrow> (\<exists>i y. x = At_Index i # y \<and>
     (i < length xs \<and> covers (xs ! i) y \<or> length xs \<le> i \<and> (\<exists>q. it = Some q \<and> covers q y)))"
proof (cases x)
  case (Cons a y)
  then show ?thesis by (cases a) (auto simp: plan_property_def plan_item_def split: option.splits)
qed simp

lemma length_elements [simp]: "length (elements n xs) = length xs"
  by (simp add: elements_def)

lemma array_covers:
  assumes exact: "exact whole child" and g: "gives (array_step child n p) q"
  shows "covers q x \<longleftrightarrow> covers p x \<or>
    (\<exists>ptr xs i y. prefixes n = Some (ptr, J_Arr xs) \<and> i < length xs \<and> x = At_Index i # y \<and> private_at whole (elements (ptr, J_Arr xs) xs ! i) y) \<or>
    (\<exists>t i y. other_items n = Some t \<and> (\<forall>ptr xs. prefixes n = Some (ptr, J_Arr xs) \<longrightarrow> length xs \<le> i) \<and> x = At_Index i # y \<and> private_at whole t y)"
proof -
  obtain first others where first: "gives (case prefixes n of Some (ptr, J_Arr xs) \<Rightarrow> each child (elements (ptr, J_Arr xs) xs) | _ \<Rightarrow> compiled []) first"
    and others: "gives (case other_items n of Some t \<Rightarrow> and_then (child t) (\<lambda>q. compiled (Some q)) | None \<Rightarrow> compiled None) others"
    and q: "q = merge p (Plan [] first others)"
    using g by (auto simp: array_step_def elim!: gives_and_thenE split: if_splits)
  have arrays: "\<exists>xs. t = (ptr, J_Arr xs)" if "prefixes n = Some t" "fst t = ptr" for t ptr
    using g that by (cases t; cases "snd t") (auto simp: array_step_def)
  have tail: "(\<exists>q. others = Some q \<and> covers q y) \<longleftrightarrow> (\<exists>t. other_items n = Some t \<and> private_at whole t y)" for y
    using others exact by (cases "other_items n") (auto simp: exactD elim!: gives_and_thenE)
  have "covers (Plan [] first others) x \<longleftrightarrow>
    (\<exists>ptr xs i y. prefixes n = Some (ptr, J_Arr xs) \<and> i < length xs \<and> x = At_Index i # y \<and> private_at whole (elements (ptr, J_Arr xs) xs ! i) y) \<or>
    (\<exists>t i y. other_items n = Some t \<and> (\<forall>ptr xs. prefixes n = Some (ptr, J_Arr xs) \<longrightarrow> length xs \<le> i) \<and> x = At_Index i # y \<and> private_at whole t y)"
  proof (cases "prefixes n")
    case None
    then show ?thesis using first by (auto simp: covers_array tail)
  next
    case (Some t)
    then obtain ptr xs where t: "t = (ptr, J_Arr xs)" using arrays by blast
    then have "list_all2 (\<lambda>t. gives (child t)) (elements (ptr, J_Arr xs) xs) first" using first Some gives_each by simp
    then have "length first = length xs" "i < length xs \<Longrightarrow> covers (first ! i) y \<longleftrightarrow> private_at whole (elements (ptr, J_Arr xs) xs ! i) y" for i y
      using exact by (auto simp: list_all2_conv_all_nth exactD)
    then show ?thesis by (auto simp: covers_array tail Some t)
  qed
  then show ?thesis by (simp add: q)
qed

lemma branch_covers:
  assumes exact: "exact whole child" and g: "gives (branch_step child u n k p) q"
  shows "covers q x \<longleftrightarrow> covers p x \<or>
    (\<exists>xs t. member n k = Some (J_Arr xs) \<and> t \<in> set (elements (in_member n k (J_Arr xs)) xs) \<and> private_at whole t x)"
proof (cases "member n k")
  case (Some v)
  with g obtain xs where v: "v = J_Arr xs" by (cases v) (auto simp: branch_step_def)
  let ?ts = "elements (in_member n k (J_Arr xs)) xs"
  obtain qs where qs: "list_all2 (\<lambda>t. gives (child t)) ?ts qs" and xs: "xs \<noteq> []"
    and q: "q = fold (\<lambda>b p. merge p b) qs p \<or> (\<forall>b \<in> set qs. b = hd qs) \<and> q = merge p (hd qs)"
    using g Some v by (auto simp: branch_step_def split: if_splits elim!: gives_and_thenE dest!: gives_each)
  have "(\<exists>b \<in> set qs. covers b x) \<longleftrightarrow> (\<exists>t \<in> set ?ts. private_at whole t x)"
    using qs by (induction rule: list_all2_induct) (auto simp: exactD [OF exact])
  moreover have "qs \<noteq> []" using qs xs by (metis length_elements length_0_conv list_all2_lengthD)
  then have "covers q x \<longleftrightarrow> covers p x \<or> (\<exists>b \<in> set qs. covers b x)" using q by (auto simp: covers_fold)
  ultimately show ?thesis by (auto simp: Some v)
qed (use g in \<open>simp add: branch_step_def\<close>)

lemma refused: "exact whole child \<Longrightarrow> gives (refuse_sensitive child t) y \<Longrightarrow> \<not> private_at whole t x"
  by (auto simp: refuse_sensitive_def not_sensitive dest: exactD [where x = x] split: if_splits elim!: gives_and_thenE)

lemma single_refused:
  "exact whole child \<Longrightarrow> gives (single_step child n k p) q \<Longrightarrow> q = p \<and> (\<forall>t x. member n k = Some t \<longrightarrow> \<not> private_at whole (in_member n k t) x)"
  by (auto simp: single_step_def dest: refused split: option.splits elim!: gives_and_thenE)

lemma array_not_private: "is_array (Some (snd t)) \<Longrightarrow> \<not> private_at whole t x"
proof
  assume "private_at whole t x" "is_array (Some (snd t))"
  then show False
    by (induction rule: private_at.induct) (auto simp: member_def prefixes_def other_items_def split: json.splits if_splits)
qed

lemma map_refused:
  assumes "exact whole child" "gives (map_step child n k p) q"
  shows "q = p \<and> (\<forall>ps d t x. member n k = Some (J_Obj ps) \<longrightarrow> (d, t) \<in> set (entries (in_member n k (J_Obj ps)) ps) \<longrightarrow> \<not> private_at whole t x)"
proof (cases "member n k")
  case (Some v)
  with assms(2) obtain ps where v: "v = J_Obj ps" by (cases v) (auto simp: map_step_def)
  let ?es = "entries (in_member n k (J_Obj ps)) ps"
  from assms(2) Some v obtain us where
    us: "list_all2 (\<lambda>e. gives (if k = ''dependencies'' \<and> is_array (Some (snd (snd e))) then compiled () else refuse_sensitive child (snd e))) ?es us"
    and q: "q = p" by (auto simp: map_step_def case_prod_beta elim!: gives_and_thenE dest!: gives_each)
  have "\<not> private_at whole t x" if "(d, t) \<in> set ?es" for d t x
  proof -
    from that obtain i where "i < length ?es" "?es ! i = (d, t)" unfolding in_set_conv_nth by blast
    then have "gives (if k = ''dependencies'' \<and> is_array (Some (snd t)) then compiled () else refuse_sensitive child t) (us ! i)"
      using list_all2_nthD [OF us, of i] by (simp cong: if_cong)
    then show ?thesis using refused [OF assms(1)] array_not_private by (auto split: if_splits)
  qed
  then show ?thesis by (auto simp: Some v q)
qed (use assms in \<open>simp add: map_step_def\<close>)

lemma object_exact:
  assumes exact: "exact whole child" and g: "gives (object_plan child u whole n) q"
    and not_marked: "member n ''writeOnly'' \<noteq> Some (J_Bool True)"
  shows "covers q x \<longleftrightarrow> private_at whole n x"
proof -
  obtain p1 p2 p3 p4 p5 where
    steps: "gives (reference_step child whole n PUBLIC) p1" "gives (properties_step child n p1) p2" "gives (array_step child n p2) p3"
      "gives (folded (branch_step child u n) [''allOf'', ''oneOf'', ''anyOf''] p3) p4"
      "gives (folded (single_step child n) single_keywords p4) p5" "gives (folded (map_step child n) map_keywords p5) q"
    using g by (auto simp: object_plan_def simp del: folded.simps elim!: gives_and_thenE)
  have p4: "covers p4 x \<longleftrightarrow> covers p3 x \<or> (\<exists>k \<in> set [''allOf'', ''oneOf'', ''anyOf''].
      \<exists>xs t. member n k = Some (J_Arr xs) \<and> t \<in> set (elements (in_member n k (J_Arr xs)) xs) \<and> private_at whole t x)"
    by (rule gives_folded [OF steps(4)]) (rule branch_covers [OF exact])
  have p5: "covers p5 x \<longleftrightarrow> covers p4 x \<or> (\<exists>k \<in> set single_keywords. False)"
    by (rule gives_folded [OF steps(5)]) (use single_refused [OF exact] in blast)
  have q: "covers q x \<longleftrightarrow> covers p5 x \<or> (\<exists>k \<in> set map_keywords. False)"
    by (rule gives_folded [OF steps(6)]) (use map_refused [OF exact] in blast)
  have singles: "\<not> private_at whole (in_member n k t) y" if "k \<in> set single_keywords" "member n k = Some t" for k t y
    using gives_folded_each [OF steps(5) that(1)] single_refused [OF exact] that(2) by blast
  have maps: "\<not> private_at whole t y"
    if "k \<in> set map_keywords" "member n k = Some (J_Obj ps)" "(d, t) \<in> set (entries (in_member n k (J_Obj ps)) ps)" for k ps d t y
    using gives_folded_each [OF steps(6) that(1)] map_refused [OF exact] that(2,3) by blast
  note parts = q p5 p4 array_covers [OF exact steps(3)] properties_covers [OF exact steps(2)] reference_covers [OF exact steps(1)]
  show ?thesis
  proof
    assume "covers q x"
    then show "private_at whole n x" unfolding parts by (auto intro: private_at.intros)
  next
    assume "private_at whole n x"
    then show "covers q x"
    proof cases
      case (in_other_property k t p f)
      then show ?thesis using singles [of k t p] by (auto simp: single_keywords_def)
    next
      case (in_other_item k t p i)
      then show ?thesis using singles [of k t p] by (auto simp: single_keywords_def)
    next
      case (in_condition k t)
      then show ?thesis using singles [of k t x] by (auto simp: single_keywords_def)
    next
      case (in_pattern ps k t p f)
      then show ?thesis using maps [of "''patternProperties''" ps k t p] by (simp add: map_keywords_def)
    next
      case (in_dependent k ps d t)
      then show ?thesis using maps [of k ps d t x] by (auto simp: map_keywords_def)
    qed (unfold parts, use not_marked in auto)
  qed
qed

lemma plain_not_private: "snd n = J_Bool b \<Longrightarrow> \<not> private_at whole n x"
proof
  assume "private_at whole n x" "snd n = J_Bool b"
  then show False by cases (auto simp: member_def prefixes_def other_items_def)
qed

lemma walk_exact: "exact whole (walk left u whole active)"
proof (induction left arbitrary: active)
  case 0
  then show ?case by (simp add: exact_def)
next
  case (Suc left)
  have "covers q x \<longleftrightarrow> private_at whole n x" if "gives (walk (Suc left) u whole active n) q" for n q x
  proof -
    from that obtain v w where run: "walk (Suc left) u whole active n v = Some (q, w)" by (auto simp: gives_def)
    then consider (plain) b where "snd n = J_Bool b" "q = PUBLIC"
      | (marked) "member n ''writeOnly'' = Some (J_Bool True)" "q = Omit"
      | (object) "member n ''writeOnly'' \<noteq> Some (J_Bool True)" "gives (object_plan (walk left u whole (fst n # active)) u whole n) q"
      by (auto simp: compiled_def unresolved_def gives_def split: if_splits json.splits option.splits bool.splits)
    then show ?thesis
    proof cases
      case plain
      then show ?thesis using plain_not_private by simp
    next
      case marked
      then show ?thesis by (simp add: private_at.marked)
    next
      case object
      then show ?thesis by (rule object_exact [OF Suc, rotated])
    qed
  qed
  then show ?case unfolding exact_def fun_eq_iff by blast
qed

lemma compile_exact:
  assumes "compile whole u = Some p"
  shows "covers p x \<longleftrightarrow> private_at whole ([], whole) x"
proof -
  from assms obtain w where "walk (Suc MAX_DEPTH) u whole [] ([], whole) 0 = Some (p, w)" by (auto simp: compile_def simp del: walk.simps)
  then have "gives (walk (Suc MAX_DEPTH) u whole [] ([], whole)) p" unfolding gives_def by blast
  then show ?thesis by (rule exactD [OF walk_exact])
qed

section \<open>A plan is no deeper than the walk\<close>

primrec shallow :: "nat \<Rightarrow> plan \<Rightarrow> bool" where
  "shallow 0 p = (p = PUBLIC)"
| "shallow (Suc d) p = (p = Omit \<or> (\<forall>k. shallow d (plan_property p k)) \<and> (\<forall>i. shallow d (plan_item p i)))"

lemma shallow_PUBLIC [simp]: "shallow d PUBLIC"
  by (induction d) (simp_all add: PUBLIC_parts)

lemma shallow_Suc: "shallow d p \<Longrightarrow> shallow (Suc d) p"
proof (induction d arbitrary: p)
  case 0
  then show ?case by (simp add: PUBLIC_parts)
next
  case (Suc d)
  then show ?case by (metis shallow.simps(2))
qed

lemma merge_PUBLIC: "merge PUBLIC PUBLIC = PUBLIC"
  by (subst merge.simps) (simp add: PUBLIC_def all_names_def merged_items_def sensitive_def drop_tail_def)

lemma shallow_merge: "shallow d l \<Longrightarrow> shallow d r \<Longrightarrow> shallow d (merge l r)"
proof (induction d arbitrary: l r)
  case 0
  then show ?case by (simp add: merge_PUBLIC)
next
  case (Suc d)
  show ?case
  proof (cases "l = Omit \<or> r = Omit")
    case False
    have merged: "shallow d u \<Longrightarrow> shallow d v \<Longrightarrow> shallow d (merged_items merge u v)" for u v
      by (simp add: merged_items_def Suc.IH)
    show ?thesis using False Suc.prems by (auto simp: merge_parts intro!: Suc.IH merged)
  qed auto
qed

lemma shallow_fold: "shallow d p \<Longrightarrow> (\<And>b. b \<in> set bs \<Longrightarrow> shallow d b) \<Longrightarrow> shallow d (fold (\<lambda>b p. merge p b) bs p)"
  by (induction bs arbitrary: p) (simp_all add: shallow_merge)

lemma folded_keeps:
  "gives (folded f ks s) t \<Longrightarrow> (\<And>k s t. gives (f k s) t \<Longrightarrow> Q s \<Longrightarrow> Q t) \<Longrightarrow> Q s \<Longrightarrow> Q t"
  by (induction ks arbitrary: s) (auto elim!: gives_and_thenE)

lemma steps_shallow:
  assumes "\<forall>t q. gives (child t) q \<longrightarrow> shallow d q"
  shows "gives (reference_step child whole n p) q \<Longrightarrow> shallow (Suc d) p \<Longrightarrow> shallow (Suc d) q"
    and "gives (properties_step child n p) q \<Longrightarrow> shallow (Suc d) p \<Longrightarrow> shallow (Suc d) q"
    and "gives (array_step child n p) q \<Longrightarrow> shallow (Suc d) p \<Longrightarrow> shallow (Suc d) q"
    and "gives (branch_step child u n k p) q \<Longrightarrow> shallow (Suc d) p \<Longrightarrow> shallow (Suc d) q"
    and "gives (single_step child n k p) q \<Longrightarrow> shallow (Suc d) p \<Longrightarrow> shallow (Suc d) q"
    and "gives (map_step child n k p) q \<Longrightarrow> shallow (Suc d) p \<Longrightarrow> shallow (Suc d) q"
proof -
  have child: "shallow d q" if "gives (child t) q" for t q using assms that by blast
  have below: "shallow (Suc d) q" if "gives (child t) q" for t q by (rule shallow_Suc [OF child [OF that]])
  show "shallow (Suc d) q" if "gives (reference_step child whole n p) q" "shallow (Suc d) p"
    using that by (auto simp: reference_step_def simp del: shallow.simps split: option.splits elim!: gives_and_thenE intro!: shallow_merge dest: below)
  show "shallow (Suc d) q" if g: "gives (properties_step child n p) q" and p: "shallow (Suc d) p"
  proof (cases "member n ''properties''")
    case (Some v)
    with g obtain ps where ps: "v = J_Obj ps" by (cases v) (auto simp: properties_step_def)
    obtain qs where qs: "gives (each (\<lambda>(k, t). and_then (child t) (\<lambda>q. compiled (k, q))) (entries (in_member n ''properties'' (J_Obj ps)) ps)) qs"
      and q: "q = merge p (Plan (filter (\<lambda>(k, q). sensitive q) qs) [] None)"
      using g Some ps by (auto simp: properties_step_def elim!: gives_and_thenE)
    have "shallow d b" if "(k, b) \<in> set qs" for k b
      using gives_each [OF qs] that by (induction rule: list_all2_induct) (auto elim!: gives_and_thenE dest: child)
    then have "shallow d (plan_property (Plan (filter (\<lambda>(k, q). sensitive q) qs) [] None) k)" for k
      by (auto simp: plan_property_def dest!: map_of_SomeD split: option.split)
    then have "shallow (Suc d) (Plan (filter (\<lambda>(k, q). sensitive q) qs) [] None)" by (simp add: plan_item_def)
    then show ?thesis using p q shallow_merge by blast
  qed (use g p in \<open>simp add: properties_step_def\<close>)
  show "shallow (Suc d) q" if g: "gives (array_step child n p) q" and p: "shallow (Suc d) p"
  proof -
    obtain first others where first: "gives (case prefixes n of Some (ptr, J_Arr xs) \<Rightarrow> each child (elements (ptr, J_Arr xs) xs) | _ \<Rightarrow> compiled []) first"
      and others: "gives (case other_items n of Some t \<Rightarrow> and_then (child t) (\<lambda>q. compiled (Some q)) | None \<Rightarrow> compiled None) others"
      and q: "q = merge p (Plan [] first others)"
      using g by (auto simp: array_step_def elim!: gives_and_thenE split: if_splits)
    have "shallow d b" if "b \<in> set first" for b
    proof -
      from that first obtain ts where "list_all2 (\<lambda>t. gives (child t)) ts first"
        by (auto split: option.splits json.splits dest!: gives_each)
      then show ?thesis using that child by (induction rule: list_all2_induct) auto
    qed
    moreover have "shallow d b" if "others = Some b" for b
      using others that child by (auto split: option.splits elim!: gives_and_thenE)
    ultimately have "shallow (Suc d) (Plan [] first others)" by (auto simp: plan_property_def plan_item_def split: option.split)
    then show ?thesis using p q shallow_merge by blast
  qed
  show "shallow (Suc d) q" if g: "gives (branch_step child u n k p) q" and p: "shallow (Suc d) p"
  proof (cases "member n k")
    case (Some v)
    with g obtain xs where v: "v = J_Arr xs" by (cases v) (auto simp: branch_step_def)
    obtain qs where qs: "list_all2 (\<lambda>t. gives (child t)) (elements (in_member n k (J_Arr xs)) xs) qs" and xs: "xs \<noteq> []"
      and q: "q = fold (\<lambda>b p. merge p b) qs p \<or> q = merge p (hd qs)"
      using g Some v by (auto simp: branch_step_def split: if_splits elim!: gives_and_thenE dest!: gives_each)
    have all: "shallow (Suc d) b" if "b \<in> set qs" for b
      using qs that by (induction rule: list_all2_induct) (auto simp del: shallow.simps dest: below)
    moreover have "qs \<noteq> []" using qs xs by (metis length_elements length_0_conv list_all2_lengthD)
    ultimately show ?thesis using q p shallow_fold [of "Suc d" p qs] shallow_merge [of "Suc d" p "hd qs"] by (metis hd_in_set)
  qed (use g p in \<open>simp add: branch_step_def\<close>)
qed (auto simp: single_step_def map_step_def simp del: shallow.simps split: option.splits json.splits elim!: gives_and_thenE)

lemma walk_shallow: "gives (walk d u whole active n) q \<Longrightarrow> shallow d q"
proof (induction d arbitrary: active n q)
  case (Suc d)
  let ?child = "walk d u whole (fst n # active)"
  from Suc.prems obtain v w where "walk (Suc d) u whole active n v = Some (q, w)" by (auto simp: gives_def)
  then have "q = PUBLIC \<or> q = Omit \<or> gives (object_plan ?child u whole n) q"
    by (auto simp: compiled_def unresolved_def gives_def split: if_splits json.splits option.splits bool.splits)
  moreover have "shallow (Suc d) q" if g: "gives (object_plan ?child u whole n) q"
  proof -
    obtain p1 p2 p3 p4 p5 where
      steps: "gives (reference_step ?child whole n PUBLIC) p1" "gives (properties_step ?child n p1) p2" "gives (array_step ?child n p2) p3"
        "gives (folded (branch_step ?child u n) [''allOf'', ''oneOf'', ''anyOf''] p3) p4"
        "gives (folded (single_step ?child n) single_keywords p4) p5" "gives (folded (map_step ?child n) map_keywords p5) q"
      using g by (auto simp: object_plan_def simp del: folded.simps elim!: gives_and_thenE)
    have child: "\<forall>t r. gives (?child t) r \<longrightarrow> shallow d r" using Suc.IH by blast
    note keep = steps_shallow [where child = ?child and d = d, OF child]
    have "shallow (Suc d) p1" by (rule keep(1) [OF steps(1) shallow_PUBLIC])
    then have "shallow (Suc d) p2" by (rule keep(2) [OF steps(2)])
    then have "shallow (Suc d) p3" by (rule keep(3) [OF steps(3)])
    then have "shallow (Suc d) p4" by (rule folded_keeps [OF steps(4), rotated]) (rule keep(4))
    then have "shallow (Suc d) p5" by (rule folded_keeps [OF steps(5), rotated]) (rule keep(5))
    then show ?thesis by (rule folded_keeps [OF steps(6), rotated]) (rule keep(6))
  qed
  ultimately show ?case by (metis shallow_PUBLIC shallow.simps(2))
qed simp

section \<open>What is shown and what is marked\<close>

text \<open>
  The reference for an echo: a property at a private position is left out, and so is an array with such an element; and
  the outermost values at private positions.
\<close>

lemma enumerated_smaller:
  "(i, x) \<in> set (enumerate 0 xs) \<Longrightarrow> size x < size (J_Arr xs)"
  "(k, x) \<in> set es \<Longrightarrow> size x < size (J_Obj es)"
proof -
  assume "(i, x) \<in> set (enumerate 0 xs)"
  then have "x \<in> set xs" by (auto simp: in_set_enumerate_eq)
  then show "size x < size (J_Arr xs)" using size_list_estimation' [of x xs "size x" size] by simp
next
  assume "(k, x) \<in> set es"
  then show "size x < size (J_Obj es)" using size_list_estimation' [of "(k, x)" es "size x" "size_prod (\<lambda>_. 0) size"] by simp
qed

function shown :: "(place list \<Rightarrow> bool) \<Rightarrow> json \<Rightarrow> json option" where
  "shown P v =
     (if P [] then None
      else case v of
        J_Arr xs \<Rightarrow> kept_array (map (\<lambda>(i, x). shown (\<lambda>p. P (At_Index i # p)) x) (enumerate 0 xs))
      | J_Obj es \<Rightarrow> kept_object (map (\<lambda>(k, x). (k, shown (\<lambda>p. P (At_Key k # p)) x)) es)
      | _ \<Rightarrow> Some v)"
  by pat_completeness auto

termination shown
  by (relation "measure (\<lambda>(P, v). size v)") (auto dest: enumerated_smaller)

declare shown.simps [simp del]

function private_values :: "(place list \<Rightarrow> bool) \<Rightarrow> json \<Rightarrow> json list" where
  "private_values P v =
     (if P [] then [v]
      else case v of
        J_Arr xs \<Rightarrow> concat (map (\<lambda>(i, x). private_values (\<lambda>p. P (At_Index i # p)) x) (enumerate 0 xs))
      | J_Obj es \<Rightarrow> concat (map (\<lambda>(k, x). private_values (\<lambda>p. P (At_Key k # p)) x) es)
      | _ \<Rightarrow> [])"
  by pat_completeness auto

termination private_values
  by (relation "measure (\<lambda>(P, v). size v)") (auto dest: enumerated_smaller)

declare private_values.simps [simp del]

lemma kept_whole: "kept_array (map (\<lambda>(i, x). Some x) (enumerate n xs)) = Some (J_Arr xs)"
  "kept_object (map (\<lambda>(k, x). (k, Some x)) es) = Some (J_Obj es)"
proof -
  have "map (\<lambda>(i, x). Some x) (enumerate n xs) = map Some xs" by (induction xs arbitrary: n) auto
  then show "kept_array (map (\<lambda>(i, x). Some x) (enumerate n xs)) = Some (J_Arr xs)" by (auto simp: kept_array_def comp_def)
  have "List.map_filter (\<lambda>(k, r). map_option (Pair k) r) (map (\<lambda>(k, x). (k, Some x)) es) = es"
    by (induction es) (auto simp: List.map_filter_simps)
  then show "kept_object (map (\<lambda>(k, x). (k, Some x)) es) = Some (J_Obj es)" by (simp add: kept_object_def)
qed

lemma nothing_private: "shown (\<lambda>_. False) v = Some v \<and> private_values (\<lambda>_. False) v = []"
proof (induction v)
  case (J_Arr xs)
  have "x \<in> set xs" if "(i, x) \<in> set (enumerate 0 xs)" for i x using that by (auto simp: in_set_enumerate_eq)
  then have plain: "map (\<lambda>(i, x). shown (\<lambda>_. False) x) (enumerate 0 xs) = map (\<lambda>(i, x). Some x) (enumerate 0 xs)"
    "concat (map (\<lambda>(i, x). private_values (\<lambda>_. False) x) (enumerate 0 xs)) = []" using J_Arr by fastforce+
  show ?case by (subst shown.simps, subst private_values.simps) (simp add: plain kept_whole del: concat_eq_Nil_conv)
next
  case (J_Obj es)
  have "shown (\<lambda>_. False) x = Some x \<and> private_values (\<lambda>_. False) x = []" if "(k, x) \<in> set es" for k x
    using J_Obj [OF that, of x] by simp
  then have plain: "map (\<lambda>(k, x). (k, shown (\<lambda>_. False) x)) es = map (\<lambda>(k, x). (k, Some x)) es"
    "concat (map (\<lambda>(k, x). private_values (\<lambda>_. False) x) es) = []" by auto
  show ?case by (subst shown.simps, subst private_values.simps) (simp add: plain kept_whole del: concat_eq_Nil_conv)
qed (simp_all add: shown.simps private_values.simps)

lemma apply_each_total:
  "(\<And>x. x \<in> set xs \<Longrightarrow> f x = (m x, Some (g x))) \<Longrightarrow> apply_each f xs = (concat (map m xs), Some (map g xs))"
  by (induction xs) auto

lemma covers_parts:
  assumes "p \<noteq> Omit"
  shows "(\<lambda>x. covers p (At_Key k # x)) = covers (plan_property p k)" "(\<lambda>x. covers p (At_Index i # x)) = covers (plan_item p i)"
  using plan_parts [OF assms] by auto

lemma apply_shown: "shallow left p \<Longrightarrow> apply_plan left p v = (private_values (covers p) v, Some (shown (covers p) v))"
proof (induction left arbitrary: p v)
  case 0
  then show ?case using nothing_private [of v] by (simp add: not_sensitive)
next
  case (Suc left)
  consider "p = PUBLIC" | "p = Omit" | "sensitive p" "p \<noteq> Omit" by (auto simp: sensitive_def)
  then show ?case
  proof cases
    case 1
    then show ?thesis using nothing_private [of v] by (simp add: not_sensitive)
  next
    case 2
    then show ?thesis by (simp add: not_sensitive shown.simps [of "\<lambda>_. True"] private_values.simps [of "\<lambda>_. True"])
  next
    case 3
    have below: "apply_plan left (plan_property p k) x = (private_values (covers (plan_property p k)) x, Some (shown (covers (plan_property p k)) x))"
      "apply_plan left (plan_item p i) x = (private_values (covers (plan_item p i)) x, Some (shown (covers (plan_item p i)) x))" for k i x
      using Suc 3 by simp_all
    have arrays: "apply_each (\<lambda>(i, x). apply_plan left (plan_item p i) x) es =
      (concat (map (\<lambda>(i, x). private_values (covers (plan_item p i)) x) es), Some (map (\<lambda>(i, x). shown (covers (plan_item p i)) x) es))" for es
      by (rule apply_each_total) (auto simp: below)
    have objects: "apply_each (\<lambda>(k, x). case apply_plan left (plan_property p k) x of (ms, r) \<Rightarrow> (ms, map_option (Pair k) r)) es =
      (concat (map (\<lambda>(k, x). private_values (covers (plan_property p k)) x) es),
       Some (map (\<lambda>(k, x). (k, shown (covers (plan_property p k)) x)) es))" for es
      by (rule apply_each_total) (auto simp: below)
    show ?thesis using 3 plan_parts(1) [OF 3(2)]
      by (cases v) (simp_all add: shown.simps [of "covers p"] private_values.simps [of "covers p"] covers_parts [OF 3(2)] arrays objects)
  qed
qed

lemma compile_shallow:
  assumes "compile whole u = Some p"
  shows "shallow (Suc MAX_DEPTH) p"
proof (rule walk_shallow)
  from assms obtain w where "walk (Suc MAX_DEPTH) u whole [] ([], whole) 0 = Some (p, w)" by (auto simp: compile_def simp del: walk.simps)
  then show "gives (walk (Suc MAX_DEPTH) u whole [] ([], whole)) p" unfolding gives_def by blast
qed

lemma apply_compiled:
  assumes "compile whole u = Some p"
  shows "apply_plan (Suc MAX_DEPTH) p v =
    (private_values (private_at whole ([], whole)) v, Some (shown (private_at whole ([], whole)) v))"
proof -
  have "covers p = private_at whole ([], whole)" using compile_exact [OF assms] by auto
  then show ?thesis by (simp only: apply_shown [OF compile_shallow [OF assms]])
qed

lemma redaction_result:
  "redactCallArguments args schema =
     (case compile schema False of
        None \<Rightarrow> (None, True)
      | Some _ \<Rightarrow> (shown (private_at schema ([], schema)) args, private_values (private_at schema ([], schema)) args \<noteq> []))"
  by (auto simp: redactCallArguments_def apply_compiled simp del: apply_plan.simps split: option.split)

section \<open>Arguments that differ in private values only\<close>

inductive alike :: "(place list \<Rightarrow> bool) \<Rightarrow> json \<Rightarrow> json \<Rightarrow> bool" where
  hidden: "P [] \<Longrightarrow> alike P u v"
| same: "alike P u u"
| arrays: "length xs = length ys \<Longrightarrow> (\<And>i. i < length xs \<Longrightarrow> alike (\<lambda>p. P (At_Index i # p)) (xs ! i) (ys ! i)) \<Longrightarrow>
    alike P (J_Arr xs) (J_Arr ys)"
| objects: "map fst es = map fst fs \<Longrightarrow>
    (\<And>i. i < length es \<Longrightarrow> alike (\<lambda>p. P (At_Key (fst (es ! i)) # p)) (snd (es ! i)) (snd (fs ! i))) \<Longrightarrow>
    alike P (J_Obj es) (J_Obj fs)"

lemma concat_empty_iff:
  "length xs = length ys \<Longrightarrow> (\<And>i. i < length xs \<Longrightarrow> f (xs ! i) = [] \<longleftrightarrow> g (ys ! i) = []) \<Longrightarrow>
   concat (map f xs) = [] \<longleftrightarrow> concat (map g ys) = []"
  by (simp add: all_set_conv_all_nth)

lemma alike_shown: "alike P u v \<Longrightarrow> shown P u = shown P v \<and> (private_values P u = [] \<longleftrightarrow> private_values P v = [])"
proof (induction rule: alike.induct)
  case (hidden P u v)
  then show ?case by (simp add: shown.simps [of P] private_values.simps [of P])
next
  case (arrays xs ys P)
  have "map (\<lambda>(i, x). shown (\<lambda>p. P (At_Index i # p)) x) (enumerate 0 xs) = map (\<lambda>(i, x). shown (\<lambda>p. P (At_Index i # p)) x) (enumerate 0 ys)"
    by (rule nth_equalityI) (use arrays in \<open>simp_all add: nth_enumerate_eq\<close>)
  moreover have "concat (map (\<lambda>(i, x). private_values (\<lambda>p. P (At_Index i # p)) x) (enumerate 0 xs)) = [] \<longleftrightarrow>
      concat (map (\<lambda>(i, x). private_values (\<lambda>p. P (At_Index i # p)) x) (enumerate 0 ys)) = []"
    by (rule concat_empty_iff) (use arrays in \<open>simp_all add: nth_enumerate_eq\<close>)
  ultimately show ?case by (simp add: shown.simps [of P] private_values.simps [of P] del: concat_eq_Nil_conv)
next
  case (objects es fs P)
  have same_length: "length es = length fs" and names: "i < length es \<Longrightarrow> fst (fs ! i) = fst (es ! i)" for i
    using objects(1) by (metis length_map, metis length_map nth_map)
  have "map (\<lambda>(k, x). (k, shown (\<lambda>p. P (At_Key k # p)) x)) es = map (\<lambda>(k, x). (k, shown (\<lambda>p. P (At_Key k # p)) x)) fs"
    by (rule nth_equalityI) (use objects(3) same_length names in \<open>simp_all add: case_prod_beta\<close>)
  moreover have "concat (map (\<lambda>(k, x). private_values (\<lambda>p. P (At_Key k # p)) x) es) = [] \<longleftrightarrow>
      concat (map (\<lambda>(k, x). private_values (\<lambda>p. P (At_Key k # p)) x) fs) = []"
    by (rule concat_empty_iff) (use objects(3) same_length names in \<open>simp_all add: case_prod_beta\<close>)
  ultimately show ?case by (simp add: shown.simps [of P] private_values.simps [of P] del: concat_eq_Nil_conv)
qed simp

text \<open>The value at a position, and how a private one is reached.\<close>

primrec value_at :: "place list \<Rightarrow> json \<Rightarrow> json option" where
  "value_at [] v = Some v"
| "value_at (a # p) v =
     (case (a, v) of
        (At_Key k, J_Obj es) \<Rightarrow> Option.bind (map_of es k) (value_at p)
      | (At_Index i, J_Arr xs) \<Rightarrow> if i < length xs then value_at p (xs ! i) else None
      | _ \<Rightarrow> None)"

lemma private_value_found:
  "P p \<Longrightarrow> value_at p v = Some u \<Longrightarrow> \<exists>q r w. p = q @ r \<and> value_at q v = Some w \<and> w \<in> set (private_values P v)"
proof (induction p arbitrary: P v)
  case Nil
  then show ?case by (simp add: private_values.simps [of P])
next
  case (Cons a p)
  show ?case
  proof (cases "P []")
    case True
    then have "a # p = [] @ a # p \<and> value_at [] v = Some v \<and> v \<in> set (private_values P v)" by (simp add: private_values.simps [of P])
    then show ?thesis by blast
  next
    case False
    show ?thesis
    proof (cases a)
      case (At_Key k)
      then obtain es x where v: "v = J_Obj es" "map_of es k = Some x" "value_at p x = Some u"
        using Cons.prems by (auto split: json.splits simp: bind_eq_Some_conv)
      obtain q r w where "p = q @ r" "value_at q x = Some w" "w \<in> set (private_values (\<lambda>p. P (At_Key k # p)) x)"
        using Cons.IH [of "\<lambda>p. P (At_Key k # p)" x] Cons.prems(1) v(3) At_Key by auto
      then have "a # p = (a # q) @ r \<and> value_at (a # q) v = Some w \<and> w \<in> set (private_values P v)"
        using False v(1,2) map_of_SomeD [OF v(2)] At_Key by (force simp: private_values.simps [of P])
      then show ?thesis by blast
    next
      case (At_Index i)
      then obtain xs where v: "v = J_Arr xs" "i < length xs" "value_at p (xs ! i) = Some u"
        using Cons.prems by (auto split: json.splits if_splits)
      obtain q r w where q: "p = q @ r" "value_at q (xs ! i) = Some w" "w \<in> set (private_values (\<lambda>p. P (At_Index i # p)) (xs ! i))"
        using Cons.IH [of "\<lambda>p. P (At_Index i # p)" "xs ! i"] Cons.prems(1) v(3) At_Index by auto
      moreover have "(i, xs ! i) \<in> set (enumerate 0 xs)" using v(2) by (simp add: in_set_enumerate_eq)
      ultimately have "a # p = (a # q) @ r \<and> value_at (a # q) v = Some w \<and> w \<in> set (private_values P v)"
        using False v(1,2) At_Index by (force simp: private_values.simps [of P])
      then show ?thesis by blast
    qed
  qed
qed

text \<open>The search finds every annotation.\<close>

fun marks :: "json \<Rightarrow> bool" where
  "marks (J_Arr xs) = (\<exists>x \<in> set xs. marks x)"
| "marks (J_Obj es) = (map_of es (lit ''writeOnly'') = Some (J_Bool True) \<or> (\<exists>e \<in> set es. marks (snd e)))"
| "marks _ = False"

lemma private_schema_iff: "private_schema vs \<longleftrightarrow> (\<exists>v \<in> set vs. marks v)"
  by (induction vs rule: private_schema.induct) (auto split: json.splits)

lemma entry_marks: "(k, u) \<in> set es \<Longrightarrow> marks u \<Longrightarrow> marks (J_Obj es)"
  by force

lemma own_member_marks: "own_member v k = Some u \<Longrightarrow> marks u \<Longrightarrow> marks v"
  by (cases v) (auto dest!: map_of_SomeD dest: set_zip_rightD split: if_splits simp del: marks.simps(2) intro: entry_marks)

lemma member_marks: "member n k = Some u \<Longrightarrow> marks u \<Longrightarrow> marks (snd n)"
  by (cases "snd n") (auto simp: member_def simp del: marks.simps(2) dest!: map_of_SomeD intro: entry_marks)

lemma follow_marks: "follow_pointer ts n = Some t \<Longrightarrow> marks (snd t) \<Longrightarrow> marks (snd n)"
  by (induction ts arbitrary: n) (auto split: if_splits option.splits dest: own_member_marks)

lemma reference_marks: "reference whole r = Some t \<Longrightarrow> marks (snd t) \<Longrightarrow> marks whole"
  by (auto simp: reference_def split: json.splits list.splits if_splits option.splits dest: follow_marks)

lemma elements_marks: "t \<in> set (elements m xs) \<Longrightarrow> marks (snd t) \<Longrightarrow> marks (J_Arr xs)"
  by (auto simp: elements_def in_set_enumerate_eq)

lemma entries_marks: "(k, t) \<in> set (entries m ps) \<Longrightarrow> marks (snd t) \<Longrightarrow> marks (J_Obj ps)"
proof -
  assume t: "(k, t) \<in> set (entries m ps)" "marks (snd t)"
  then obtain u where "map_of ps k = Some u" by (cases "map_of ps k") (auto simp: entries_def map_of_eq_None_iff simp del: marks.simps)
  with t show ?thesis by (auto simp: entries_def simp del: marks.simps(2) dest: map_of_SomeD intro: entry_marks)
qed

lemma private_marks: "private_at whole n p \<Longrightarrow> marks (snd n) \<or> marks whole"
proof (induction rule: private_at.induct)
  case (marked n p)
  then show ?case by (cases "snd n") (auto simp: member_def)
next
  case (referenced n r t p)
  then show ?case using reference_marks by blast
next
  case (in_property n ps k t p)
  then show ?case using entries_marks [OF map_of_SomeD] member_marks by blast
next
  case (in_prefix n ptr xs i p)
  then have "marks (J_Arr xs) \<or> marks whole" using elements_marks [OF nth_mem] by fastforce
  moreover have "\<exists>k. member n k = Some (J_Arr xs)" using in_prefix(1) by (auto simp: prefixes_def in_member_def split: option.splits if_splits)
  ultimately show ?case using member_marks by blast
next
  case (in_items n t i p)
  moreover have "\<exists>k. member n k = Some (snd t)" using in_items(1) by (auto simp: other_items_def in_member_def split: if_splits)
  ultimately show ?case using member_marks by blast
next
  case (in_branch k n xs t p)
  then show ?case using elements_marks member_marks by blast
next
  case (in_pattern n ps k t p f)
  then show ?case using entries_marks member_marks by blast
next
  case (in_dependent k n ps d t p)
  then show ?case using entries_marks member_marks by blast
qed (auto simp: in_member_def dest: member_marks)

section \<open>Properties\<close>

text \<open>
  C5. An echo is exact: where the sensitivity of a tool's schema can be resolved, what is shown of a call's arguments is
  the reference redaction, which leaves out every property the schema marks as private through references, properties,
  items and alternatives, and every array with such an element, and nothing else; and it is flagged as redacted if and
  only if something private was there. Where it cannot be resolved, nothing is shown.
\<close>

theorem redaction_exact:
  "redactCallArguments args schema =
     (if compile schema False = None then (None, True)
      else (shown (private_at schema ([], schema)) args, private_values (private_at schema ([], schema)) args \<noteq> []))"
  by (simp add: redaction_result split: option.split)

text \<open>
  C3. An echo does not depend on a private value: two calls whose arguments differ only at positions the schema marks as
  private are shown the same, whatever the schema, resolved or not.
\<close>

theorem redaction_hides:
  assumes "alike (private_at schema ([], schema)) u v"
  shows "redactCallArguments u schema = redactCallArguments v schema"
  using alike_shown [OF assms] by (simp add: redaction_result split: option.split)

text \<open>
  C4. No private argument escapes the search for what was sent: every value at a position the schema marks as private is
  visited itself or within a visited value, also where the alternatives of a schema disagree and where its sensitivity
  cannot be resolved.
\<close>

theorem private_arguments_visited:
  assumes "private_at schema ([], schema) p" "value_at p args = Some v"
  shows "\<exists>q r w. p = q @ r \<and> value_at q args = Some w \<and> w \<in> set (visitPrivateCallArguments args schema)"
proof -
  have found: "private_schema [schema]" using private_marks [OF assms(1)] by (simp add: private_schema_iff)
  show ?thesis
  proof (cases "compile schema True")
    case None
    then have "p = [] @ p \<and> value_at [] args = Some args \<and> args \<in> set (visitPrivateCallArguments args schema)"
      using found by (simp add: visitPrivateCallArguments_def del: private_schema.simps)
    then show ?thesis by blast
  next
    case (Some c)
    then have "visitPrivateCallArguments args schema = private_values (private_at schema ([], schema)) args"
      using found by (simp add: visitPrivateCallArguments_def apply_compiled [OF Some] del: private_schema.simps apply_plan.simps)
    then show ?thesis using private_value_found [where P = "private_at schema ([], schema)", OF assms] by simp
  qed
qed

text \<open>A tool whose token is private, two calls of it, and the echo.\<close>

definition token_schema :: json where
  "token_schema = J_Obj [(lit ''properties'', J_Obj
     [(lit ''token'', J_Obj [(lit ''writeOnly'', J_Bool True)]), (lit ''note'', J_Obj [(lit ''type'', J_Str (lit ''string''))])])]"

definition token_args :: "string \<Rightarrow> json" where
  "token_args t = J_Obj [(lit ''token'', J_Str (lit t)), (lit ''note'', J_Str (lit ''hi''))]"

lemma token_private: "private_at token_schema ([], token_schema) [At_Key (lit ''token'')]"
proof (rule private_at.in_property)
  let ?ps = "[(lit ''token'', J_Obj [(lit ''writeOnly'', J_Bool True)]), (lit ''note'', J_Obj [(lit ''type'', J_Str (lit ''string''))])]"
  show "member ([], token_schema) ''properties'' = Some (J_Obj ?ps)" by (simp add: member_def token_schema_def)
  let ?t = "([lit ''properties'', lit ''token''], J_Obj [(lit ''writeOnly'', J_Bool True)])"
  show "map_of (entries (in_member ([], token_schema) ''properties'' (J_Obj ?ps)) ?ps) (lit ''token'') = Some ?t"
    by (simp add: entries_def in_member_def)
  show "private_at token_schema ?t []" by (rule private_at.marked) (simp add: member_def)
qed

theorem redaction_hides_witness:
  "token_args ''s3cret'' \<noteq> token_args ''other'' \<and>
   redactCallArguments (token_args ''s3cret'') token_schema = redactCallArguments (token_args ''other'') token_schema"
proof -
  have "alike (private_at token_schema ([], token_schema)) (token_args ''s3cret'') (token_args ''other'')"
    unfolding token_args_def
  proof (rule alike.objects)
    fix i assume "i < length [(lit ''token'', J_Str (lit ''s3cret'')), (lit ''note'', J_Str (lit ''hi''))]"
    then have "i = 0 \<or> i = 1" by auto
    then show "alike (\<lambda>p. private_at token_schema ([], token_schema)
        (At_Key (fst ([(lit ''token'', J_Str (lit ''s3cret'')), (lit ''note'', J_Str (lit ''hi''))] ! i)) # p))
        (snd ([(lit ''token'', J_Str (lit ''s3cret'')), (lit ''note'', J_Str (lit ''hi''))] ! i))
        (snd ([(lit ''token'', J_Str (lit ''other'')), (lit ''note'', J_Str (lit ''hi''))] ! i))"
      using token_private by (auto intro: alike.hidden alike.same)
  qed simp
  then have "redactCallArguments (token_args ''s3cret'') token_schema = redactCallArguments (token_args ''other'') token_schema"
    by (rule redaction_hides)
  then show ?thesis by (simp add: token_args_def)
qed

theorem private_arguments_visited_witness:
  "\<exists>q r w. [At_Key (lit ''token'')] = q @ r \<and> value_at q (token_args ''s3cret'') = Some w \<and>
     w \<in> set (visitPrivateCallArguments (token_args ''s3cret'') token_schema)"
  by (rule private_arguments_visited [OF token_private, of _ "J_Str (lit ''s3cret'')"]) (simp add: token_args_def)

end
