(* ===== verification/Spec2Isabelle.thy ===== *)
theory Spec2Isabelle
  imports Tool_Safety Connector_Access Membership Executor_Admission Write_Outcome Call_Admission Memory_Storage Program_Writes
    Url_Safety Discovery_Health Executor_Progress Call_Answers Grant_Records Refresh_Once
    Auth_Admission Access_Tokens Token_Retired Argument_Redaction
begin

text \<open>
  A verification development of Connecta, a self-hosted gateway that serves many downstream connectors behind one
  MCP endpoint (TypeScript, \<^verbatim>\<open>src/src\<close>). Paths below are relative to that directory.

  \<^bold>\<open>The program.\<close> A deployment declares connectors and pools. A request is admitted to a pool
  (\<^verbatim>\<open>membership.ts\<close>), sees the connectors and tools its grant names
  (\<^verbatim>\<open>connector-access.ts\<close>), and calls tools one by one or from a program that runs in a sandbox
  (\<^verbatim>\<open>executor-admission.ts\<close> bounds those). Each call passes a permission gate on the tool's class
  (\<^verbatim>\<open>tool-safety.ts\<close>) and the connector's admission controller
  (\<^verbatim>\<open>call-admission.ts\<close>); the connector notes every HTTP request it makes in the ledger of its
  logical call (\<^verbatim>\<open>provider-call.ts\<close>, \<^verbatim>\<open>provider-call-facts.ts\<close>); what went wrong is a
  typed failure (\<^verbatim>\<open>errors.ts\<close>), judged against that ledger by
  \<^verbatim>\<open>write-outcome.ts\<close>, so that a write whose fate is not known is never offered for another try; a program's
  result reports all its writes (\<^verbatim>\<open>program-writes.ts\<close>). State between requests is in one key-value
  store (\<^verbatim>\<open>storage/keys.ts\<close>, \<^verbatim>\<open>storage/memory.ts\<close>); among its users are the health of
  connectors (\<^verbatim>\<open>discovery-health.ts\<close>) and the OAuth grants of owners at downstream servers
  (\<^verbatim>\<open>auth/downstream-oauth\<close>), whose rotating refresh tokens many processes may try to redeem at once.
  A caller is admitted by the tokens of its agent (\<^verbatim>\<open>access-tokens.ts\<close>,
  \<^verbatim>\<open>inbound-credential.ts\<close>), behind a bound on the authentications that run at once
  (\<^verbatim>\<open>auth-admission.ts\<close>). URLs learned from a downstream are checked by
  \<^verbatim>\<open>url-safety.ts\<close>.

  \<^bold>\<open>The theories.\<close>

  \<^item> \<^verbatim>\<open>Connecta_Prelude\<close>: JavaScript strings as lists of 16-bit units, numbers, insertion-ordered maps,
    reachability of a transition system, and the interfaces (locales) of a bounded pool of slots and of one that can be
    shut down.
  \<^item> \<^verbatim>\<open>Tool_Safety\<close> (\<^verbatim>\<open>tool-safety.ts\<close>): source facts, overrides and replay policy, the weak
    collections as a store of tool objects; the class of a tool and the gate of its call, exactly, through any number of
    publications and copies: a declared write stays one whatever the deployment says.
  \<^item> \<^verbatim>\<open>Connector_Access\<close> (\<^verbatim>\<open>connector-access.ts\<close>, \<^verbatim>\<open>tool-name.ts\<close>): grants parse to
    exactly what they name, anything else is refused.
  \<^item> \<^verbatim>\<open>Membership\<close> (\<^verbatim>\<open>membership.ts\<close>, \<^verbatim>\<open>agent-identity.ts\<close>): pools hold distinct
    people or distinct agents, and nobody is both.
  \<^item> \<^verbatim>\<open>Executor_Admission\<close> (\<^verbatim>\<open>executor-admission.ts\<close>): the controller's private fields as a record,
    its methods and timers as steps; capacity, order, single answers and finality of shutdown over every reachable
    state. It provides both pool interfaces.
  \<^item> \<^verbatim>\<open>Call_Admission\<close> (\<^verbatim>\<open>call-admission.ts\<close>, \<^verbatim>\<open>runtime/call-admission.ts\<close>): the policy
    parser and the controller with partitions, queues and the sliding budget, on a clock that does not run backwards;
    the budget holds in every window although idle partitions are evicted. It provides the same two interfaces.
    \<^verbatim>\<open>Call_Answers\<close> lists the answers a queued call gets, from the pump, from shutdown and from its own
    timeout or abort, and shows that there is exactly one.
  \<^item> \<^verbatim>\<open>Text_Clipping\<close>, \<^verbatim>\<open>Json_Text\<close>: byte counts and clamps of text (\<^verbatim>\<open>bytes.ts\<close>,
    \<^verbatim>\<open>errors.ts\<close>) over a model of the platform's encoder, and the language's JSON with parsing proved inverse to
    printing.
  \<^item> \<^verbatim>\<open>Call_Errors\<close> (\<^verbatim>\<open>errors.ts\<close>): codes, construction and its bounds, withheld text,
    classification.
  \<^item> \<^verbatim>\<open>Argument_Redaction\<close> (\<^verbatim>\<open>argument-redaction.ts\<close>): a tool's schema is compiled
    to a plan of what to omit, within bounds and refusing what it cannot decide; the plan covers exactly the private
    positions of the schema, so that an echo of a call's arguments does not depend on a private value, and every private
    value is found where sent values are registered.
  \<^item> \<^verbatim>\<open>Provider_Call\<close> (\<^verbatim>\<open>provider-call.ts\<close>, \<^verbatim>\<open>provider-call-facts.ts\<close>): the ledger as an
    explicit store of requests, calls, leases and marks; nothing is sent after a call is closed, by it or by any call
    beneath it, older or newer, since a lease opened under a revoked one is revoked.
  \<^item> \<^verbatim>\<open>Write_Outcome\<close> (\<^verbatim>\<open>write-outcome.ts\<close>): every function of the file; a write is reported failed
    only on evidence, and otherwise unknown and final, with a ledger or without; when a returned value stands for a write
    answered 401, and when it does not.
  \<^item> \<^verbatim>\<open>Program_Writes\<close> (\<^verbatim>\<open>program-writes.ts\<close>): the accounting of a program's writes as a transition
    system, and its report as JSON.
  \<^item> \<^verbatim>\<open>Storage_Keys\<close> (\<^verbatim>\<open>storage/keys.ts\<close>): every family and builder; no two of them meet.
  \<^item> \<^verbatim>\<open>Memory_Storage\<close> (\<^verbatim>\<open>storage/memory.ts\<close>, \<^verbatim>\<open>namespaced\<close> of
    \<^verbatim>\<open>registry.ts\<close>): the contract of a store as an abstract machine and as an interface, the in-memory adapter as
    its refinement, and a namespace of a store as a store.
  \<^item> \<^verbatim>\<open>Url_Safety\<close> (\<^verbatim>\<open>url-safety.ts\<close>): host classification proved equal to the registries of
    special-purpose addresses as prefix tables, for every spelling of a literal; which learned URLs pass, exactly, with
    the two exceptions the code makes for a configured server.
  \<^item> \<^verbatim>\<open>Discovery_Health\<close> (\<^verbatim>\<open>discovery-health.ts\<close>): a client of the store's interface; records are
    claimed by one request, settled by their owner alone, and read back as written.
  \<^item> \<^verbatim>\<open>Executor_Progress\<close>: the executor's queue moves; once more slots were given back than there were
    callers ahead, a caller waits no longer: it was answered, or its own timeout, abort or interruption ended its wait.
  \<^item> \<^verbatim>\<open>Auth_Flow\<close> (\<^verbatim>\<open>auth/native.ts\<close>): a program of \<^verbatim>\<open>src/auth\<close> as a tree of storage
    calls, requests, clock readings, signals and field accesses; many of them at once over one store as a step relation;
    a weakest-precondition calculus for one program against a discipline, and the interface by which disciplined
    programs keep an invariant however they interleave.
  \<^item> \<^verbatim>\<open>OAuth_Grant\<close> (\<^verbatim>\<open>auth/downstream-oauth/grant-store.ts\<close>, \<^verbatim>\<open>auth/oauth-grant.ts\<close>,
    helpers of \<^verbatim>\<open>auth/downstream-oauth.ts\<close>): the stored grant and every program that reads, writes or resets
    it. \<^verbatim>\<open>Grant_Records\<close>: what is read has passed every guard of the code, which are partial, and
    reads the same once written back; what is written is read back, sealed or plain.
  \<^item> \<^verbatim>\<open>Token_Response\<close> (\<^verbatim>\<open>auth/oauth-token-response.ts\<close>): which answer settles a refresh and what
    of a failure the SDK sees.
  \<^item> \<^verbatim>\<open>OAuth_Refresh\<close> (\<^verbatim>\<open>auth/downstream-oauth/refresh-records.ts\<close>, \<^verbatim>\<open>redeem\<close> of
    \<^verbatim>\<open>refresh-coordinator.ts\<close>): lease, spent record, claim, dispatch, commit and release.
    \<^verbatim>\<open>Refresh_Protocol\<close> checks these programs against the discipline of the spent record;
    \<^verbatim>\<open>Refresh_Once\<close> has the invariant of the shared store and concludes that a refresh token is sent again
    only after an answer that settled its previous send.
  \<^item> \<^verbatim>\<open>Auth_Admission\<close> (\<^verbatim>\<open>auth-admission.ts\<close>): charges, abandoned authentications and the health
    counters as a transition system; both bounds hold however authentications stall, settle and are collected.
  \<^item> \<^verbatim>\<open>Access_Tokens\<close> (\<^verbatim>\<open>access-tokens.ts\<close>, \<^verbatim>\<open>inbound-credential.ts\<close>): the five
    kinds of record with their printing and parsing, the operation window, and \<^verbatim>\<open>rotate\<close>,
    \<^verbatim>\<open>revoke\<close>, \<^verbatim>\<open>adopt\<close>, \<^verbatim>\<open>list\<close>, \<^verbatim>\<open>unboundTokens\<close> and
    \<^verbatim>\<open>authorize\<close> as programs over the shared store, with the handlers of the errors they throw.
    \<^verbatim>\<open>Token_Slots\<close> states the discipline of the token keys (who may write what, with which knowledge) and
    the invariant it keeps; \<^verbatim>\<open>Token_Calls\<close> shows that every call of the discipline keeps it, at once, late or
    never, and provides the interface on any store; \<^verbatim>\<open>Token_Programs\<close> checks each program against the
    discipline; \<^verbatim>\<open>Token_Admission\<close> computes what \<^verbatim>\<open>authorize\<close> answers on a store at rest;
    \<^verbatim>\<open>Token_Retired\<close> concludes that a token once replaced, revoked or given up is never admitted again.

  \<^bold>\<open>How the code is represented.\<close> A class is a record of its private fields and an operation is a function on it;
  callbacks, timers and settling promises are steps of an inductive relation, in any order. Objects the code compares or
  keeps in weak maps by identity are addresses in an explicit store. What throws returns a sum or an option. Code that
  is not part of the repository (the URL parser, digests, the vault's cipher, the locale's order of names) is an argument
  of the definitions that use it, and so are the redaction of sent credentials and the check for credentials inside
  metadata. Where a theorem needs the vault, the law it uses is a named hypothesis: a sealed text opens under its label.

  \<^bold>\<open>Idealisations.\<close> One synchronous turn reads one time, also where the code asks the clock more than once in it;
  a sequence of reads of one batch has one time. The clocks of the call admission controller and of the store's laws do
  not run backwards. Finite doubles are rationals, so sums of times neither round nor overflow; the printed form of a
  number is exact for whole numbers and for at most twenty fractional digits, and the theorems that print numbers ask for
  whole ones. Callbacks handed to a component do not call back into it. An \<^verbatim>\<open>Effect\<close> fiber is the outcome
  of its race, not the scheduler's steps. The OAuth programs read arbitrary clocks and signals and get arbitrary answers;
  a storage call may be answered, or lose its answer and take effect later or never; only the names drawn from
  \<^verbatim>\<open>crypto.randomUUID\<close> never repeat. Numbers of a stored record are kept as they are spelled. The
  batched read of a poll is a sequence of reads, which shows every outcome a batch can have; the one snapshot a store over
  SQL may give \<^verbatim>\<open>authorize\<close> is left out, and answers as its reads do when nothing happens between them. The token programs draw
  secrets as they draw identifiers, so no secret is drawn twice; digests and the platform's reading of dates are fields of
  an environment, and the theorem on retired tokens asks that distinct issued tokens have distinct digests. The timer of
  an operation window is a signal that may fire at any read of it; a process that restarts is one whose program begins
  later. A tool's schema is a tree, as \<^verbatim>\<open>JSON.parse\<close> builds it, in which an object is known by its pointer.
  The theorem on retired tokens starts from any store in which no agent has a slot yet, unbound records of older versions included.

  \<^bold>\<open>Termination.\<close> Loops are structural recursion or functions with a measure: the pump of a queue (its length),
  the walk over nested calls (a bound on identifiers that the ledger keeps), dropping findings (their number), the
  search for a clip point (the interval), fitting a message (the budget), merging two plans (their sizes); the walk over
  a schema and the application of a plan recurse on the depth the code still allows, and the latter never exhausts it. Only the JSON parser has fuel, one more than
  the length of its text; the printed form of a value never needs more, and no theorem speaks of a text that does. The
  polls of \<^verbatim>\<open>claimRefresh\<close> end at a deadline; their number is an argument, and the theorem holds for all.

  \<^bold>\<open>Not modelled.\<close> HTTP routes, the operator's browser application, the vendors' tool tables and their generated
  indexes, the sandbox engines, the protocol client of remote connectors, identity services and OAuth clients, SQL
  statements, and the plumbing of the \<^verbatim>\<open>Effect\<close> library: pure input and output, generated code, or
  libraries the sources only call. Of downstream OAuth the consent pages, the hooks of the SDK, the code exchange and the
  local joining of flights in one process are left out; the request that revokes a grant touches neither the store nor a
  refresh, and does not appear. Of access tokens the operator's routes and the normalisation of a request's headers are
  left out. The catalog cache, the path of one invocation through gate and admission, result previews and the decoding of
  the configuration beyond the policies above are not modelled either: they are compositions over the
  \<^verbatim>\<open>Effect\<close> library, whose fibers, scopes and services have no counterpart here.
\<close>

end
